(* ===== verification/Go_Prelude.thy ===== *)
theory Go_Prelude
  imports Main "HOL-Library.AList" "HOL-Library.Monad_Syntax" "HOL-Library.Multiset"
begin

text \<open>
  The vocabulary every component shares.

  A run-time panic of Go (an index or a slice bound out of range, a nil
  dereference, an explicit \<^verbatim>\<open>panic\<close>) is the value \<open>None\<close>; code that may panic
  is written in the option monad.  A slice is a list and is indexed by an integer,
  so that a negative index is a panic too.  A Go map over which the code iterates
  is an association list: the order of the list stands for the unspecified order
  in which \<^verbatim>\<open>range\<close> visits the keys, and two lists with the same \<^const>\<open>map_of\<close>
  are the same Go map.  A map that is only looked up and updated is a HOL map.

  The collections \<open>go_simps\<close> (indexing and slicing inside the bounds) and
  \<open>go_elims\<close> (what a read that did not panic says) carry the proofs of the
  components.
\<close>

section \<open>Slices\<close>

named_theorems go_simps
named_theorems go_elims

definition go_index :: "'a list \<Rightarrow> int \<Rightarrow> 'a option" where
  "go_index xs i = (if 0 \<le> i \<and> i < int (length xs) then Some (xs ! nat i) else None)"

definition go_store :: "'a list \<Rightarrow> int \<Rightarrow> 'a \<Rightarrow> 'a list option" where
  "go_store xs i v = (if 0 \<le> i \<and> i < int (length xs) then Some (xs[nat i := v]) else None)"

text \<open>
  \<^verbatim>\<open>xs[i:]\<close>, \<^verbatim>\<open>xs[:j]\<close> and \<^verbatim>\<open>xs[i:j]\<close>.  Go checks an upper bound against the
  capacity; between length and capacity it exposes stale cells of the array.  The
  model reports a panic there already, and the components show that they never
  slice beyond the length.
\<close>

definition go_slice_from :: "'a list \<Rightarrow> int \<Rightarrow> 'a list option" where
  "go_slice_from xs i = (if 0 \<le> i \<and> i \<le> int (length xs) then Some (drop (nat i) xs) else None)"

definition go_slice_to :: "'a list \<Rightarrow> int \<Rightarrow> 'a list option" where
  "go_slice_to xs j = (if 0 \<le> j \<and> j \<le> int (length xs) then Some (take (nat j) xs) else None)"

definition go_slice :: "'a list \<Rightarrow> int \<Rightarrow> int \<Rightarrow> 'a list option" where
  "go_slice xs i j = (if 0 \<le> i \<and> i \<le> j \<and> j \<le> int (length xs)
     then Some (take (nat (j - i)) (drop (nat i) xs)) else None)"

lemma go_index_Some [go_simps]:
  "0 \<le> i \<Longrightarrow> i < int (length xs) \<Longrightarrow> go_index xs i = Some (xs ! nat i)"
  by (simp add: go_index_def)

lemma go_index_nat [simp]: "n < length xs \<Longrightarrow> go_index xs (int n) = Some (xs ! n)"
  by (simp add: go_index_def)

lemma go_index_0 [simp]: "xs \<noteq> [] \<Longrightarrow> go_index xs 0 = Some (hd xs)"
  by (simp add: go_index_def hd_conv_nth)

lemma go_index_last [simp]: "xs \<noteq> [] \<Longrightarrow> go_index xs (int (length xs) - 1) = Some (last xs)"
  by (simp add: go_index_def last_conv_nth nat_diff_distrib Suc_leI)

lemma go_index_eq_Some [go_elims]:
  "go_index xs i = Some x \<longleftrightarrow> 0 \<le> i \<and> i < int (length xs) \<and> x = xs ! nat i"
  by (auto simp: go_index_def)

lemma go_index_eq_None: "go_index xs i = None \<longleftrightarrow> i < 0 \<or> int (length xs) \<le> i"
  by (auto simp: go_index_def)

lemma go_store_Some [go_simps]:
  "0 \<le> i \<Longrightarrow> i < int (length xs) \<Longrightarrow> go_store xs i v = Some (xs[nat i := v])"
  by (simp add: go_store_def)

lemma go_store_nat [simp]: "n < length xs \<Longrightarrow> go_store xs (int n) v = Some (xs[n := v])"
  by (simp add: go_store_def)

lemma go_store_eq_Some [go_elims]:
  "go_store xs i v = Some ys \<longleftrightarrow> 0 \<le> i \<and> i < int (length xs) \<and> ys = xs[nat i := v]"
  by (auto simp: go_store_def)

lemma go_slice_from_Some [go_simps]:
  "0 \<le> i \<Longrightarrow> i \<le> int (length xs) \<Longrightarrow> go_slice_from xs i = Some (drop (nat i) xs)"
  by (simp add: go_slice_from_def)

lemma go_slice_from_eq_Some [go_elims]:
  "go_slice_from xs i = Some ys \<longleftrightarrow> 0 \<le> i \<and> i \<le> int (length xs) \<and> ys = drop (nat i) xs"
  by (auto simp: go_slice_from_def)

lemma go_slice_to_Some [go_simps]:
  "0 \<le> i \<Longrightarrow> i \<le> int (length xs) \<Longrightarrow> go_slice_to xs i = Some (take (nat i) xs)"
  by (simp add: go_slice_to_def)

lemma go_slice_to_eq_Some [go_elims]:
  "go_slice_to xs i = Some ys \<longleftrightarrow> 0 \<le> i \<and> i \<le> int (length xs) \<and> ys = take (nat i) xs"
  by (auto simp: go_slice_to_def)

lemma go_slice_Some [go_simps]:
  "0 \<le> i \<Longrightarrow> i \<le> j \<Longrightarrow> j \<le> int (length xs) \<Longrightarrow>
     go_slice xs i j = Some (take (nat (j - i)) (drop (nat i) xs))"
  by (simp add: go_slice_def)

lemma go_slice_eq_Some [go_elims]:
  "go_slice xs i j = Some ys \<longleftrightarrow>
     0 \<le> i \<and> i \<le> j \<and> j \<le> int (length xs) \<and> ys = take (nat (j - i)) (drop (nat i) xs)"
  by (auto simp: go_slice_def)

section \<open>Options and lists\<close>

lemmas bind_Some_iff [go_elims] = Option.bind_eq_Some_conv

lemma sorted_nth_take_le:
  assumes "sorted xs" "i \<le> j" "j < length xs"
  shows "xs ! i \<le> xs ! j"
  using assms by (rule sorted_nth_mono)

text \<open>
  In a sorted list at least \<open>length xs - i\<close> elements are not below the element at
  position \<open>i\<close>, and at least \<open>Suc i\<close> are not above it.
\<close>

lemma sorted_count_ge:
  assumes "sorted xs" "i < length xs"
  shows "length xs - i \<le> length (filter (\<lambda>x. xs ! i \<le> x) xs)"
proof -
  have all: "filter (\<lambda>x. xs ! i \<le> x) (drop i xs) = drop i xs"
    using assms by (auto simp: filter_id_conv in_set_conv_nth sorted_nth_mono)
  have "length (filter (\<lambda>x. xs ! i \<le> x) (take i xs @ drop i xs)) \<ge> length (drop i xs)"
    by (simp only: filter_append all length_append)
  then show ?thesis by simp
qed

lemma sorted_count_le:
  assumes "sorted xs" "i < length xs"
  shows "Suc i \<le> length (filter (\<lambda>x. x \<le> xs ! i) xs)"
proof -
  have all: "filter (\<lambda>x. x \<le> xs ! i) (take (Suc i) xs) = take (Suc i) xs"
    using assms by (auto simp: filter_id_conv in_set_conv_nth sorted_nth_mono)
  have "length (filter (\<lambda>x. x \<le> xs ! i) (take (Suc i) xs @ drop (Suc i) xs)) \<ge> length (take (Suc i) xs)"
    by (simp only: filter_append all length_append)
  then show ?thesis using assms(2) by simp
qed

lemma length_filter_mset: "mset xs = mset ys \<Longrightarrow> length (filter P xs) = length (filter P ys)"
  by (metis mset_filter size_mset)

text \<open>The peers (positions of a slice) at which a predicate holds, counted as a set.\<close>

lemma card_positions_filter:
  "card {p. p < length xs \<and> P (xs ! p)} = length (filter P xs)"
  by (simp add: length_filter_conv_card)

lemma those_eq_Some: "those xs = Some ys \<longleftrightarrow> xs = map Some ys"
  by (induction xs arbitrary: ys) (auto split: option.splits)

section \<open>Majorities\<close>

text \<open>Two majorities of the same \<open>n\<close> peers share a peer.\<close>

lemma majorities_meet:
  assumes "S \<subseteq> {..<n}" "T \<subseteq> {..<n}" "n div 2 < card S" "n div 2 < card T"
  shows "\<exists>p. p \<in> S \<and> p \<in> T"
proof (rule ccontr)
  assume "\<not> ?thesis"
  then have "S \<inter> T = {}" by blast
  moreover have fin: "finite S" "finite T"
    using assms(1,2) finite_subset by auto
  ultimately have "card (S \<union> T) = card S + card T" by (simp add: card_Un_disjoint)
  moreover have "card (S \<union> T) \<le> card {..<n}"
    using assms(1,2) by (intro card_mono) auto
  ultimately show False using assms(3,4) by simp
qed

section \<open>Go maps as association lists\<close>

type_synonym ('k, 'v) gomap = "('k \<times> 'v) list"

abbreviation gm_wf :: "('k, 'v) gomap \<Rightarrow> bool" where
  "gm_wf m \<equiv> distinct (map fst m)"

text \<open>Two representations of one Go map: they differ in the iteration order only.\<close>

definition gm_eq :: "('k, 'v) gomap \<Rightarrow> ('k, 'v) gomap \<Rightarrow> bool" where
  "gm_eq m m' \<longleftrightarrow> gm_wf m \<and> gm_wf m' \<and> map_of m = map_of m'"

lemma gm_eq_set: "gm_eq m m' \<Longrightarrow> set m = set m'"
  by (auto simp: gm_eq_def) (metis map_of_eq_Some_iff)+

lemma gm_eq_keys: "gm_eq m m' \<Longrightarrow> set (map fst m) = set (map fst m')"
  using gm_eq_set by fastforce

lemma gm_wf_update [simp]: "gm_wf m \<Longrightarrow> gm_wf (AList.update k v m)"
  by (rule distinct_update)

lemma gm_wf_delete [simp]: "gm_wf m \<Longrightarrow> gm_wf (AList.delete k m)"
  by (rule distinct_delete)

lemma gm_eq_update: "gm_eq m m' \<Longrightarrow> gm_eq (AList.update k v m) (AList.update k v m')"
  by (simp add: gm_eq_def update_conv')

lemma gm_eq_delete: "gm_eq m m' \<Longrightarrow> gm_eq (AList.delete k m) (AList.delete k m')"
  by (simp add: gm_eq_def delete_conv')

lemma fst_set_update [simp]: "fst ` set (AList.update k v m) = insert k (fst ` set m)"
  by (simp add: dom_update)

section \<open>Go maps that are looked up and updated\<close>

text \<open>
  A map variable is a reference: \<open>None\<close> is the nil map, which reads like the empty map and
  panics when it is written to.
\<close>

type_synonym ('k, 'v) mapref = "('k \<rightharpoonup> 'v) option"

definition mr_get :: "('k, 'v) mapref \<Rightarrow> 'k \<Rightarrow> 'v option" where
  "mr_get m k = (case m of None \<Rightarrow> None | Some f \<Rightarrow> f k)"

definition mr_set :: "('k, 'v) mapref \<Rightarrow> 'k \<Rightarrow> 'v \<Rightarrow> ('k, 'v) mapref option" where
  "mr_set m k v = (case m of None \<Rightarrow> None | Some f \<Rightarrow> Some (Some (f(k \<mapsto> v))))"

definition mr_delete :: "('k, 'v) mapref \<Rightarrow> 'k \<Rightarrow> ('k, 'v) mapref" where
  "mr_delete m k = (case m of None \<Rightarrow> None | Some f \<Rightarrow> Some (f(k := None)))"

lemma mr_get_Some [simp]: "mr_get (Some f) = f"
  by (rule ext) (simp add: mr_get_def)

lemma mr_get_None [simp]: "mr_get None k = None"
  by (simp add: mr_get_def)

lemma mr_set_Some [simp]: "mr_set (Some f) k v = Some (Some (f(k \<mapsto> v)))"
  by (simp add: mr_set_def)

lemma mr_set_None [simp]: "mr_set None k v = None"
  by (simp add: mr_set_def)

lemma mr_delete_Some [simp]: "mr_delete (Some f) k = Some (f(k := None))"
  by (simp add: mr_delete_def)

lemma mr_set_eq_Some [go_elims]:
  "mr_set m k v = Some m' \<longleftrightarrow> (\<exists>f. m = Some f \<and> m' = Some (f(k \<mapsto> v)))"
  by (auto simp: mr_set_def split: option.splits)

lemma mr_delete_None_iff [simp]: "mr_delete m k = None \<longleftrightarrow> m = None"
  by (simp add: mr_delete_def split: option.splits)

lemma mr_get_delete: "mr_get (mr_delete m k) = (mr_get m)(k := None)"
  by (rule ext) (simp add: mr_delete_def mr_get_def split: option.splits)

section \<open>Transition systems\<close>

text \<open>
  The states a component can be in: those that its initial states and its steps lead to.
  An invariant of a component is proved through the locale below.
\<close>

inductive reach :: "('s \<Rightarrow> bool) \<Rightarrow> ('s \<Rightarrow> 's \<Rightarrow> bool) \<Rightarrow> 's \<Rightarrow> bool"
  for init :: "'s \<Rightarrow> bool" and step :: "'s \<Rightarrow> 's \<Rightarrow> bool" where
  reach_init: "init s \<Longrightarrow> reach init step s"
| reach_step: "reach init step s \<Longrightarrow> step s t \<Longrightarrow> reach init step t"

locale transition_invariant =
  fixes init :: "'s \<Rightarrow> bool" and step :: "'s \<Rightarrow> 's \<Rightarrow> bool" and inv :: "'s \<Rightarrow> bool"
  assumes inv_init: "init s \<Longrightarrow> inv s"
    and inv_step: "inv s \<Longrightarrow> step s t \<Longrightarrow> inv t"
begin

lemma reach_inv: "reach init step s \<Longrightarrow> inv s"
  by (induction rule: reach.induct) (auto intro: inv_init inv_step)

text \<open>A property of single steps that is reflexive and transitive holds along every run.\<close>

lemma steps_rel:
  assumes "reach init step s" "step\<^sup>*\<^sup>* s t"
    and "\<And>a b. inv a \<Longrightarrow> step a b \<Longrightarrow> R a b" "\<And>a. R a a" "\<And>a b c. R a b \<Longrightarrow> R b c \<Longrightarrow> R a c"
  shows "R s t"
proof -
  have "reach init step t \<and> R s t"
    using assms(2)
  proof (induction rule: rtranclp_induct)
    case base
    then show ?case using assms(1,4) by simp
  next
    case (step y z)
    then show ?case using assms(3,5) reach_inv by (blast intro: reach_step)
  qed
  then show ?thesis ..
qed

end

section \<open>Decimal numerals\<close>

text \<open>\<^verbatim>\<open>strconv.Itoa\<close>.\<close>

fun digits :: "nat \<Rightarrow> string" where
  "digits n = (if n < 10 then [char_of (48 + n)] else digits (n div 10) @ [char_of (48 + n mod 10)])"

declare digits.simps [simp del]

definition itoa :: "int \<Rightarrow> string" where
  "itoa i = (if i < 0 then ''-'' @ digits (nat (- i)) else digits (nat i))"

lemma digits_code: "c \<in> set (digits n) \<Longrightarrow> 48 \<le> (of_char c :: nat) \<and> (of_char c :: nat) \<le> 57"
proof (induction n rule: digits.induct)
  case (1 n)
  show ?case
  proof (cases "n < 10")
    case True
    then show ?thesis using "1.prems" by (auto simp: digits.simps [of n])
  next
    case False
    then have "c \<in> set (digits (n div 10)) \<or> c = char_of (48 + n mod 10)"
      using "1.prems" by (auto simp: digits.simps [of n])
    then show ?thesis using "1.IH" [OF False] by auto
  qed
qed

lemma digits_no_dash: "CHR ''-'' \<notin> set (digits n)"
  using digits_code [of "CHR ''-''" n] by auto

lemma digits_nonempty [simp]: "digits n \<noteq> []"
  by (simp add: digits.simps [of n])

lemma digits_inj: "digits m = digits n \<Longrightarrow> m = n"
proof -
  have val: "fold (\<lambda>c v. v * 10 + (of_char c - 48)) (digits n) (0 :: nat) = n" for n
  proof (induction n rule: digits.induct)
    case (1 n)
    show ?case
    proof (cases "n < 10")
      case True
      then show ?thesis by (simp add: digits.simps [of n])
    next
      case False
      then show ?thesis using "1.IH" [OF False] by (simp add: digits.simps [of n])
    qed
  qed
  show "digits m = digits n \<Longrightarrow> m = n" by (metis val)
qed

lemma itoa_nat [simp]: "itoa (int n) = digits n"
  by (simp add: itoa_def)

lemma append_dash_inj:
  assumes "xs @ CHR ''-'' # ys = xs' @ CHR ''-'' # ys'" "CHR ''-'' \<notin> set xs" "CHR ''-'' \<notin> set xs'"
  shows "xs = xs' \<and> ys = ys'"
proof -
  have "takeWhile (\<lambda>c. c \<noteq> CHR ''-'') (xs @ CHR ''-'' # ys) = xs" "takeWhile (\<lambda>c. c \<noteq> CHR ''-'') (xs' @ CHR ''-'' # ys') = xs'"
    using assms(2,3) by (auto simp: takeWhile_append2 takeWhile_eq_all_conv [THEN iffD2] takeWhile_append)
  then show ?thesis using assms(1) by auto
qed

end
