(* ===== verification/Raft_Node.thy ===== *)
theory Raft_Node
  imports Raft_Types
begin

text \<open>
  One Raft peer: \<^verbatim>\<open>src/src/raft/persister.go\<close> and every method of \<^verbatim>\<open>raft.go\<close>, each as
  one definition over the record \<open>Raft\<close>.

  A method that holds \<^verbatim>\<open>rf.mu\<close> from beginning to end is one atomic function; a
  goroutine that gives the lock back in between (\<^verbatim>\<open>replicateOneRound\<close>, the closure of
  \<^verbatim>\<open>StartElection\<close>, \<^verbatim>\<open>applier\<close>) is split at that point.  What a method starts or
  wakes up (goroutines, condition variables, messages on \<^verbatim>\<open>applyCh\<close>) is returned as a
  list of effects.  The two timers are Booleans: armed or not.  \<open>None\<close> is a panic.

  The byte buffer that \<^verbatim>\<open>labgob\<close> writes is a list of encoded values: \<^verbatim>\<open>Encode\<close> appends
  one, \<^verbatim>\<open>Decode\<close> takes the first and fails when there is none or when it has another
  type.
\<close>

section \<open>The persister\<close>

record ('r, 's) Persister =
  raftstate :: "'r list"
  snapshot :: "'s list"

definition MakePersister :: "('r, 's) Persister" where
  "MakePersister = \<lparr>raftstate = [], snapshot = []\<rparr>"

definition clone :: "'a list \<Rightarrow> 'a list" where
  "clone orig = map (\<lambda>i. orig ! i) [0..<length orig]"

definition Persister_Copy :: "('r, 's) Persister \<Rightarrow> ('r, 's) Persister" where
  "Persister_Copy ps = MakePersister\<lparr>raftstate := raftstate ps, snapshot := snapshot ps\<rparr>"

definition SaveRaftState :: "'r list \<Rightarrow> ('r, 's) Persister \<Rightarrow> ('r, 's) Persister" where
  "SaveRaftState st ps = ps\<lparr>raftstate := clone st\<rparr>"

definition ReadRaftState :: "('r, 's) Persister \<Rightarrow> 'r list" where
  "ReadRaftState ps = clone (raftstate ps)"

text \<open>The size in bytes of an encoded buffer is a parameter, \<open>size_of\<close>.\<close>

definition RaftStateSize :: "('r list \<Rightarrow> int) \<Rightarrow> ('r, 's) Persister \<Rightarrow> int" where
  "RaftStateSize size_of ps = size_of (raftstate ps)"

definition SaveStateAndSnapshot ::
    "'r list \<Rightarrow> 's list \<Rightarrow> ('r, 's) Persister \<Rightarrow> ('r, 's) Persister" where
  "SaveStateAndSnapshot st snap ps = ps\<lparr>raftstate := clone st, snapshot := clone snap\<rparr>"

definition ReadSnapshot :: "('r, 's) Persister \<Rightarrow> 's list" where
  "ReadSnapshot ps = clone (snapshot ps)"

definition SnapshotSize :: "('s list \<Rightarrow> int) \<Rightarrow> ('r, 's) Persister \<Rightarrow> int" where
  "SnapshotSize size_of ps = size_of (snapshot ps)"

section \<open>The state of a peer\<close>

datatype 'c gob = GobInt int | GobEntries "'c Entry list"

fun decodeInt :: "'c gob list \<Rightarrow> (int \<times> 'c gob list) option" where
  "decodeInt (GobInt i # r) = Some (i, r)"
| "decodeInt _ = None"

fun decodeEntries :: "'c gob list \<Rightarrow> ('c Entry list \<times> 'c gob list) option" where
  "decodeEntries (GobEntries es # r) = Some (es, r)"
| "decodeEntries _ = None"

record ('c, 's) Raft =
  npeers :: nat
  persister :: "('c gob, 's) Persister"
  me :: nat
  dead :: bool
  state :: NodeState
  currentTerm :: int
  votedFor :: int
  logs :: "'c Entry list"
  commitIndex :: int
  lastApplied :: int
  nextIndex :: "int list"
  matchIndex :: "int list"
  electionTimer :: bool
  heartbeatTimer :: bool

datatype ('c, 's) effect =
    SignalApply
  | SignalReplicator nat
  | GoReplicateOneRound nat
  | GoRequestVote nat RequestVoteRequest
  | GoApplySend "('c, 's) ApplyMsg"

definition GetState :: "('c, 's) Raft \<Rightarrow> int \<times> bool" where
  "GetState rf = (currentTerm rf, state rf = StateLeader)"

definition GetRaftStateSize :: "('c gob list \<Rightarrow> int) \<Rightarrow> ('c, 's) Raft \<Rightarrow> int" where
  "GetRaftStateSize size_of rf = RaftStateSize size_of (persister rf)"

definition Me :: "('c, 's) Raft \<Rightarrow> nat" where
  "Me rf = me rf"

definition Raft_Kill :: "('c, 's) Raft \<Rightarrow> ('c, 's) Raft" where
  "Raft_Kill rf = rf\<lparr>dead := True\<rparr>"

definition Raft_killed :: "('c, 's) Raft \<Rightarrow> bool" where
  "Raft_killed rf = dead rf"

section \<open>Persistence\<close>

definition encodeState :: "('c, 's) Raft \<Rightarrow> 'c gob list" where
  "encodeState rf = [] @ [GobInt (currentTerm rf)] @ [GobInt (votedFor rf)] @ [GobEntries (logs rf)]"

definition persist :: "('c, 's) Raft \<Rightarrow> ('c, 's) Raft" where
  "persist rf = rf\<lparr>persister := SaveRaftState (encodeState rf) (persister rf)\<rparr>"

text \<open>
  A decoding error is only logged: the variables decoded so far keep their values, the
  others are zero.  An empty log then makes \<^verbatim>\<open>rf.logs[0]\<close> panic.
\<close>

definition decodeState :: "'c gob list \<Rightarrow> int \<times> int \<times> 'c Entry list" where
  "decodeState data =
     (case decodeInt data of None \<Rightarrow> (0, 0, [])
      | Some (ct, r1) \<Rightarrow>
          (case decodeInt r1 of None \<Rightarrow> (ct, 0, [])
           | Some (vf, r2) \<Rightarrow>
               (case decodeEntries r2 of None \<Rightarrow> (ct, vf, [])
                | Some (lg, r3) \<Rightarrow> (ct, vf, lg))))"

definition readPersist :: "'c gob list \<Rightarrow> ('c, 's) Raft \<Rightarrow> ('c, 's) Raft option" where
  "readPersist data rf =
     (if data = [] then Some rf
      else do {
        let (ct, vf, lg) = decodeState data;
        let rf1 = rf\<lparr>currentTerm := ct, votedFor := vf, logs := lg\<rparr>;
        e \<leftarrow> go_index (logs rf1) 0;
        Some (rf1\<lparr>lastApplied := e_Index e, commitIndex := e_Index e\<rparr>)
      })"

section \<open>Reading the log\<close>

definition getLastLog :: "('c, 's) Raft \<Rightarrow> 'c Entry option" where
  "getLastLog rf = go_index (logs rf) (int (length (logs rf)) - 1)"

definition getFirstLog :: "('c, 's) Raft \<Rightarrow> 'c Entry option" where
  "getFirstLog rf = go_index (logs rf) 0"

definition isLogUpToDate :: "int \<Rightarrow> int \<Rightarrow> ('c, 's) Raft \<Rightarrow> bool option" where
  "isLogUpToDate term index rf = do {
     lastLog \<leftarrow> getLastLog rf;
     Some (term > e_Term lastLog \<or> (term = e_Term lastLog \<and> index \<ge> e_Index lastLog))
   }"

definition matchLog :: "int \<Rightarrow> int \<Rightarrow> ('c, 's) Raft \<Rightarrow> bool option" where
  "matchLog term index rf = do {
     lastLog \<leftarrow> getLastLog rf;
     if index \<le> e_Index lastLog then do {
       firstLog \<leftarrow> getFirstLog rf;
       e \<leftarrow> go_index (logs rf) (index - e_Index firstLog);
       Some (e_Term e = term)
     } else Some False
   }"

section \<open>Changing role\<close>

text \<open>\<^verbatim>\<open>rf.matchIndex[i], rf.nextIndex[i] = 0, v\<close> for every \<open>i\<close> of the list.\<close>

fun resetIndexes :: "nat list \<Rightarrow> int \<Rightarrow> ('c, 's) Raft \<Rightarrow> ('c, 's) Raft option" where
  "resetIndexes [] v rf = Some rf"
| "resetIndexes (i # is) v rf = do {
     m \<leftarrow> go_store (matchIndex rf) (int i) 0;
     n \<leftarrow> go_store (nextIndex rf) (int i) v;
     resetIndexes is v (rf\<lparr>matchIndex := m, nextIndex := n\<rparr>)
   }"

definition ChangeState :: "NodeState \<Rightarrow> ('c, 's) Raft \<Rightarrow> ('c, 's) Raft option" where
  "ChangeState st rf =
     (if state rf = st then Some rf
      else let rf1 = rf\<lparr>state := st\<rparr> in
        case st of
          StateFollower \<Rightarrow> Some (rf1\<lparr>heartbeatTimer := False, electionTimer := True\<rparr>)
        | StateCandidate \<Rightarrow> Some rf1
        | StateLeader \<Rightarrow> do {
            lastLog \<leftarrow> getLastLog rf1;
            rf2 \<leftarrow> resetIndexes [0..<npeers rf1] (e_Index lastLog + 1) rf1;
            Some (rf2\<lparr>electionTimer := False, heartbeatTimer := True\<rparr>)
          })"

definition BroadcastHeartbeat :: "bool \<Rightarrow> ('c, 's) Raft \<Rightarrow> ('c, 's) effect list" where
  "BroadcastHeartbeat isHeartBeat rf =
     map (\<lambda>peer. if isHeartBeat then GoReplicateOneRound peer else SignalReplicator peer)
       (filter (\<lambda>peer. peer \<noteq> me rf) [0..<npeers rf])"

section \<open>Elections\<close>

definition genRequestVoteRequest :: "('c, 's) Raft \<Rightarrow> RequestVoteRequest option" where
  "genRequestVoteRequest rf = do {
     lastLog \<leftarrow> getLastLog rf;
     Some \<lparr>rv_Term = currentTerm rf, rv_CandidateId = int (me rf),
           rv_LastLogIndex = e_Index lastLog, rv_LastLogTerm = e_Term lastLog\<rparr>
   }"

text \<open>\<^verbatim>\<open>StartElection\<close> up to the point where its goroutines run; \<^verbatim>\<open>grantedVotes\<close> starts at 1.\<close>

definition StartElection ::
    "('c, 's) Raft \<Rightarrow> (('c, 's) Raft \<times> int \<times> ('c, 's) effect list) option" where
  "StartElection rf = do {
     request \<leftarrow> genRequestVoteRequest rf;
     let rf1 = persist (rf\<lparr>votedFor := int (me rf)\<rparr>);
     Some (rf1, 1, map (\<lambda>peer. GoRequestVote peer request)
                     (filter (\<lambda>peer. peer \<noteq> me rf1) [0..<npeers rf1]))
   }"

text \<open>The body of the goroutine once \<^verbatim>\<open>sendRequestVote\<close> has returned true.\<close>

definition handleRequestVoteResponse ::
    "RequestVoteRequest \<Rightarrow> RequestVoteResponse \<Rightarrow> int \<Rightarrow> ('c, 's) Raft \<Rightarrow>
       (('c, 's) Raft \<times> int \<times> ('c, 's) effect list) option" where
  "handleRequestVoteResponse request response grantedVotes rf =
     (if currentTerm rf = rv_Term request \<and> state rf = StateCandidate then
        if rvr_VoteGranted response then
          if grantedVotes + 1 > int (npeers rf) div 2 then do {
            rf1 \<leftarrow> ChangeState StateLeader rf;
            Some (rf1, grantedVotes + 1, BroadcastHeartbeat True rf1)
          } else Some (rf, grantedVotes + 1, [])
        else if rvr_Term response > currentTerm rf then do {
          rf1 \<leftarrow> ChangeState StateFollower rf;
          Some (persist (rf1\<lparr>currentTerm := rvr_Term response, votedFor := -1\<rparr>), grantedVotes, [])
        } else Some (rf, grantedVotes, [])
      else Some (rf, grantedVotes, []))"

text \<open>
  The arguments of the deferred \<^verbatim>\<open>DPrintf\<close> read the first and last entry when the
  handler starts; the deferred \<^verbatim>\<open>persist\<close> runs on every return.
\<close>

definition RequestVote ::
    "RequestVoteRequest \<Rightarrow> ('c, 's) Raft \<Rightarrow> (('c, 's) Raft \<times> RequestVoteResponse) option" where
  "RequestVote request rf = do {
     _ \<leftarrow> getFirstLog rf;
     _ \<leftarrow> getLastLog rf;
     if rv_Term request < currentTerm rf \<or>
        (rv_Term request = currentTerm rf \<and> votedFor rf \<noteq> -1 \<and> votedFor rf \<noteq> rv_CandidateId request)
     then Some (persist rf, \<lparr>rvr_Term = currentTerm rf, rvr_VoteGranted = False\<rparr>)
     else do {
       rf1 \<leftarrow> (if rv_Term request > currentTerm rf then do {
                  r \<leftarrow> ChangeState StateFollower rf;
                  Some (r\<lparr>currentTerm := rv_Term request, votedFor := -1\<rparr>)
                } else Some rf);
       upToDate \<leftarrow> isLogUpToDate (rv_LastLogTerm request) (rv_LastLogIndex request) rf1;
       if \<not> upToDate
       then Some (persist rf1, \<lparr>rvr_Term = currentTerm rf1, rvr_VoteGranted = False\<rparr>)
       else do {
         let rf2 = rf1\<lparr>votedFor := rv_CandidateId request, electionTimer := True\<rparr>;
         Some (persist rf2, \<lparr>rvr_Term = currentTerm rf2, rvr_VoteGranted = True\<rparr>)
       }
     }
   }"

section \<open>Committing\<close>

definition advanceCommitIndexForLeader ::
    "('c, 's) Raft \<Rightarrow> (('c, 's) Raft \<times> ('c, 's) effect list) option" where
  "advanceCommitIndexForLeader rf = do {
     let n = int (length (matchIndex rf));
     let srt = insertionSort (matchIndex rf);
     newCommitIndex \<leftarrow> go_index srt (n - (n div 2 + 1));
     if newCommitIndex > commitIndex rf then do {
       m \<leftarrow> matchLog (currentTerm rf) newCommitIndex rf;
       if m then Some (rf\<lparr>commitIndex := newCommitIndex\<rparr>, [SignalApply]) else Some (rf, [])
     } else Some (rf, [])
   }"

definition advanceCommitIndexForFollower ::
    "int \<Rightarrow> ('c, 's) Raft \<Rightarrow> (('c, 's) Raft \<times> ('c, 's) effect list) option" where
  "advanceCommitIndexForFollower leaderCommit rf = do {
     lastLog \<leftarrow> getLastLog rf;
     let newCommitIndex = Min leaderCommit (e_Index lastLog);
     if newCommitIndex > commitIndex rf
     then Some (rf\<lparr>commitIndex := newCommitIndex\<rparr>, [SignalApply])
     else Some (rf, [])
   }"

section \<open>Replicating the log\<close>

text \<open>\<^verbatim>\<open>for index >= firstIndex && rf.logs[index-firstIndex].Term == conflictTerm { index-- }\<close>\<close>

function conflictScan :: "'c Entry list \<Rightarrow> int \<Rightarrow> int \<Rightarrow> int \<Rightarrow> int option" where
  "conflictScan lg firstIndex conflictTerm index =
     (if index \<ge> firstIndex then do {
        e \<leftarrow> go_index lg (index - firstIndex);
        if e_Term e = conflictTerm then conflictScan lg firstIndex conflictTerm (index - 1)
        else Some index
      } else Some index)"
  by pat_completeness auto
termination
  by (relation "measure (\<lambda>(lg, firstIndex, conflictTerm, index). nat (index - firstIndex + 1))") auto

text \<open>
  \<^verbatim>\<open>for index, entry := range request.Entries\<close>: the first entry that is missing or has
  another term cuts the log there and appends the rest of the request.
\<close>

fun mergeEntries :: "int \<Rightarrow> int \<Rightarrow> 'c Entry list \<Rightarrow> 'c Entry list \<Rightarrow> 'c Entry list option" where
  "mergeEntries cap firstIndex lg [] = Some lg"
| "mergeEntries cap firstIndex lg (entry # rest) = do {
     conflict \<leftarrow> (if e_Index entry - firstIndex \<ge> int (length lg) then Some True
                  else do {
                    l \<leftarrow> go_index lg (e_Index entry - firstIndex);
                    Some (e_Term l \<noteq> e_Term entry)
                  });
     if conflict then do {
       keep \<leftarrow> go_slice_to lg (e_Index entry - firstIndex);
       Some (shrinkEntriesArray cap (keep @ (entry # rest)))
     } else mergeEntries cap firstIndex lg rest
   }"

definition zeroAppendEntriesResponse :: AppendEntriesResponse where
  "zeroAppendEntriesResponse =
     \<lparr>aer_Term = 0, aer_Success = False, aer_ConflictIndex = 0, aer_ConflictTerm = 0\<rparr>"

text \<open>The handler without its deferred \<^verbatim>\<open>persist\<close>.\<close>

definition AppendEntries_body ::
    "int \<Rightarrow> 'c AppendEntriesRequest \<Rightarrow> ('c, 's) Raft \<Rightarrow>
       (('c, 's) Raft \<times> AppendEntriesResponse \<times> ('c, 's) effect list) option" where
  "AppendEntries_body cap request rf =
     (if ae_Term request < currentTerm rf
      then Some (rf, zeroAppendEntriesResponse\<lparr>aer_Term := currentTerm rf, aer_Success := False\<rparr>, [])
      else do {
        let rf1 = (if ae_Term request > currentTerm rf
                   then rf\<lparr>currentTerm := ae_Term request, votedFor := -1\<rparr> else rf);
        rf2 \<leftarrow> ChangeState StateFollower rf1;
        let rf3 = rf2\<lparr>electionTimer := True\<rparr>;
        firstLog \<leftarrow> getFirstLog rf3;
        let firstIndex = e_Index firstLog;
        if ae_PrevLogIndex request < firstIndex
        then Some (rf3, zeroAppendEntriesResponse\<lparr>aer_Term := 0, aer_Success := False\<rparr>, [])
        else do {
          matched \<leftarrow> matchLog (ae_PrevLogTerm request) (ae_PrevLogIndex request) rf3;
          if \<not> matched then do {
            let response = zeroAppendEntriesResponse\<lparr>aer_Term := currentTerm rf3, aer_Success := False\<rparr>;
            lastLog \<leftarrow> getLastLog rf3;
            if e_Index lastLog < ae_PrevLogIndex request
            then Some (rf3, response\<lparr>aer_ConflictTerm := -1, aer_ConflictIndex := e_Index lastLog + 1\<rparr>, [])
            else do {
              e \<leftarrow> go_index (logs rf3) (ae_PrevLogIndex request - firstIndex);
              index \<leftarrow> conflictScan (logs rf3) firstIndex (e_Term e) (ae_PrevLogIndex request - 1);
              Some (rf3, response\<lparr>aer_ConflictTerm := e_Term e, aer_ConflictIndex := index\<rparr>, [])
            }
          } else do {
            lg \<leftarrow> mergeEntries cap firstIndex (logs rf3) (ae_Entries request);
            (rf4, eff) \<leftarrow> advanceCommitIndexForFollower (ae_LeaderCommit request) (rf3\<lparr>logs := lg\<rparr>);
            Some (rf4, zeroAppendEntriesResponse\<lparr>aer_Term := currentTerm rf4, aer_Success := True\<rparr>, eff)
          }
        }
      })"

definition AppendEntries ::
    "int \<Rightarrow> 'c AppendEntriesRequest \<Rightarrow> ('c, 's) Raft \<Rightarrow>
       (('c, 's) Raft \<times> AppendEntriesResponse \<times> ('c, 's) effect list) option" where
  "AppendEntries cap request rf = do {
     (rf1, response, eff) \<leftarrow> AppendEntries_body cap request rf;
     Some (persist rf1, response, eff)
   }"

definition genAppendEntriesRequest :: "int \<Rightarrow> ('c, 's) Raft \<Rightarrow> 'c AppendEntriesRequest option" where
  "genAppendEntriesRequest prevLogIndex rf = do {
     firstLog \<leftarrow> getFirstLog rf;
     let firstIndex = e_Index firstLog;
     entries \<leftarrow> go_slice_from (logs rf) (prevLogIndex + 1 - firstIndex);
     e \<leftarrow> go_index (logs rf) (prevLogIndex - firstIndex);
     Some \<lparr>ae_Term = currentTerm rf, ae_LeaderId = int (me rf), ae_PrevLogIndex = prevLogIndex,
           ae_PrevLogTerm = e_Term e, ae_LeaderCommit = commitIndex rf, ae_Entries = entries\<rparr>
   }"

definition genInstallSnapshotRequest :: "('c, 's) Raft \<Rightarrow> 's InstallSnapshotRequest option" where
  "genInstallSnapshotRequest rf = do {
     firstLog \<leftarrow> getFirstLog rf;
     Some \<lparr>is_Term = currentTerm rf, is_LeaderId = int (me rf),
           is_LastIncludedIndex = e_Index firstLog, is_LastIncludedTerm = e_Term firstLog,
           is_Data = ReadSnapshot (persister rf)\<rparr>
   }"

text \<open>\<^verbatim>\<open>replicateOneRound\<close> up to the call: what it sends to the peer, if anything.\<close>

datatype ('c, 's) round =
    NoRound
  | SendInstallSnapshot "'s InstallSnapshotRequest"
  | SendAppendEntries "'c AppendEntriesRequest"

definition replicateOneRound :: "nat \<Rightarrow> ('c, 's) Raft \<Rightarrow> ('c, 's) round option" where
  "replicateOneRound peer rf =
     (if state rf \<noteq> StateLeader then Some NoRound
      else do {
        n \<leftarrow> go_index (nextIndex rf) (int peer);
        let prevLogIndex = n - 1;
        firstLog \<leftarrow> getFirstLog rf;
        if prevLogIndex < e_Index firstLog then do {
          request \<leftarrow> genInstallSnapshotRequest rf;
          Some (SendInstallSnapshot request)
        } else do {
          request \<leftarrow> genAppendEntriesRequest prevLogIndex rf;
          Some (SendAppendEntries request)
        }
      })"

text \<open>
  \<^verbatim>\<open>for i := request.PrevLogIndex; i >= firstIndex; i--\<close>: the last entry of the conflicting
  term; \<open>Some None\<close> when the loop runs out.
\<close>

function termScan :: "'c Entry list \<Rightarrow> int \<Rightarrow> int \<Rightarrow> int \<Rightarrow> int option option" where
  "termScan lg firstIndex conflictTerm i =
     (if i \<ge> firstIndex then do {
        e \<leftarrow> go_index lg (i - firstIndex);
        if e_Term e = conflictTerm then Some (Some i)
        else termScan lg firstIndex conflictTerm (i - 1)
      } else Some None)"
  by pat_completeness auto
termination
  by (relation "measure (\<lambda>(lg, firstIndex, conflictTerm, i). nat (i - firstIndex + 1))") auto

definition handleAppendEntriesResponse ::
    "nat \<Rightarrow> 'c AppendEntriesRequest \<Rightarrow> AppendEntriesResponse \<Rightarrow> ('c, 's) Raft \<Rightarrow>
       (('c, 's) Raft \<times> ('c, 's) effect list) option" where
  "handleAppendEntriesResponse peer request response rf =
     (if state rf = StateLeader \<and> currentTerm rf = ae_Term request then
        if aer_Success response then do {
          m \<leftarrow> go_store (matchIndex rf) (int peer)
                 (ae_PrevLogIndex request + int (length (ae_Entries request)));
          let rf1 = rf\<lparr>matchIndex := m\<rparr>;
          mi \<leftarrow> go_index (matchIndex rf1) (int peer);
          n \<leftarrow> go_store (nextIndex rf1) (int peer) (mi + 1);
          advanceCommitIndexForLeader (rf1\<lparr>nextIndex := n\<rparr>)
        }
        else if aer_Term response > currentTerm rf then do {
          rf1 \<leftarrow> ChangeState StateFollower rf;
          Some (persist (rf1\<lparr>currentTerm := aer_Term response, votedFor := -1\<rparr>), [])
        }
        else if aer_Term response = currentTerm rf then do {
          n \<leftarrow> go_store (nextIndex rf) (int peer) (aer_ConflictIndex response);
          let rf1 = rf\<lparr>nextIndex := n\<rparr>;
          if aer_ConflictTerm response \<noteq> -1 then do {
            firstLog \<leftarrow> getFirstLog rf1;
            found \<leftarrow> termScan (logs rf1) (e_Index firstLog) (aer_ConflictTerm response)
                      (ae_PrevLogIndex request);
            case found of
              None \<Rightarrow> Some (rf1, [])
            | Some i \<Rightarrow> do {
                n2 \<leftarrow> go_store (nextIndex rf1) (int peer) (i + 1);
                Some (rf1\<lparr>nextIndex := n2\<rparr>, [])
              }
          } else Some (rf1, [])
        }
        else Some (rf, [])
      else Some (rf, []))"

section \<open>Snapshots\<close>

definition CondInstallSnapshot ::
    "int \<Rightarrow> int \<Rightarrow> int \<Rightarrow> 's list \<Rightarrow> ('c, 's) Raft \<Rightarrow> (('c, 's) Raft \<times> bool) option" where
  "CondInstallSnapshot cap lastIncludedTerm lastIncludedIndex snap rf =
     (if lastIncludedIndex \<le> commitIndex rf then Some (rf, False)
      else do {
        lastLog \<leftarrow> getLastLog rf;
        lg \<leftarrow> (if lastIncludedIndex > e_Index lastLog then Some [zeroEntry]
               else do {
                 firstLog \<leftarrow> getFirstLog rf;
                 rest \<leftarrow> go_slice_from (logs rf) (lastIncludedIndex - e_Index firstLog);
                 let l1 = shrinkEntriesArray cap rest;
                 d \<leftarrow> go_index l1 0;
                 go_store l1 0 (d\<lparr>e_Command := None\<rparr>)
               });
        d \<leftarrow> go_index lg 0;
        lg2 \<leftarrow> go_store lg 0 (d\<lparr>e_Term := lastIncludedTerm, e_Index := lastIncludedIndex\<rparr>);
        let rf1 = rf\<lparr>logs := lg2, lastApplied := lastIncludedIndex, commitIndex := lastIncludedIndex\<rparr>;
        Some (rf1\<lparr>persister := SaveStateAndSnapshot (encodeState rf1) snap (persister rf1)\<rparr>, True)
      })"

definition Snapshot :: "int \<Rightarrow> int \<Rightarrow> 's list \<Rightarrow> ('c, 's) Raft \<Rightarrow> ('c, 's) Raft option" where
  "Snapshot cap index snap rf = do {
     firstLog \<leftarrow> getFirstLog rf;
     let snapshotIndex = e_Index firstLog;
     if index \<le> snapshotIndex then Some rf
     else do {
       rest \<leftarrow> go_slice_from (logs rf) (index - snapshotIndex);
       let l1 = shrinkEntriesArray cap rest;
       d \<leftarrow> go_index l1 0;
       l2 \<leftarrow> go_store l1 0 (d\<lparr>e_Command := None\<rparr>);
       let rf1 = rf\<lparr>logs := l2\<rparr>;
       Some (rf1\<lparr>persister := SaveStateAndSnapshot (encodeState rf1) snap (persister rf1)\<rparr>)
     }
   }"

definition InstallSnapshot ::
    "'s InstallSnapshotRequest \<Rightarrow> ('c, 's) Raft \<Rightarrow>
       (('c, 's) Raft \<times> InstallSnapshotResponse \<times> ('c, 's) effect list) option" where
  "InstallSnapshot request rf = do {
     let response = \<lparr>isr_Term = currentTerm rf\<rparr>;
     if is_Term request < currentTerm rf then Some (rf, response, [])
     else do {
       let rf1 = (if is_Term request > currentTerm rf
                  then persist (rf\<lparr>currentTerm := is_Term request, votedFor := -1\<rparr>) else rf);
       rf2 \<leftarrow> ChangeState StateFollower rf1;
       let rf3 = rf2\<lparr>electionTimer := True\<rparr>;
       if is_LastIncludedIndex request \<le> commitIndex rf3 then Some (rf3, response, [])
       else Some (rf3, response,
              [GoApplySend \<lparr>am_CommandValid = False, am_Command = None, am_CommandTerm = 0,
                 am_CommandIndex = 0, am_SnapshotValid = True, am_Snapshot = is_Data request,
                 am_SnapshotTerm = is_LastIncludedTerm request,
                 am_SnapshotIndex = is_LastIncludedIndex request\<rparr>])
     }
   }"

definition handleInstallSnapshotResponse ::
    "nat \<Rightarrow> 's InstallSnapshotRequest \<Rightarrow> InstallSnapshotResponse \<Rightarrow> ('c, 's) Raft \<Rightarrow>
       ('c, 's) Raft option" where
  "handleInstallSnapshotResponse peer request response rf =
     (if state rf = StateLeader \<and> currentTerm rf = is_Term request then
        if isr_Term response > currentTerm rf then do {
          rf1 \<leftarrow> ChangeState StateFollower rf;
          Some (rf1\<lparr>electionTimer := True\<rparr>)
        } else do {
          m \<leftarrow> go_store (matchIndex rf) (int peer) (is_LastIncludedIndex request);
          n \<leftarrow> go_store (nextIndex rf) (int peer) (is_LastIncludedIndex request + 1);
          Some (rf\<lparr>matchIndex := m, nextIndex := n\<rparr>)
        }
      else Some rf)"

section \<open>Commands, the ticker and the applier\<close>

definition appendNewEntry :: "'c \<Rightarrow> ('c, 's) Raft \<Rightarrow> (('c, 's) Raft \<times> 'c Entry) option" where
  "appendNewEntry command rf = do {
     lastLog \<leftarrow> getLastLog rf;
     let newLog = \<lparr>e_Index = e_Index lastLog + 1, e_Term = currentTerm rf, e_Command = Some command\<rparr>;
     let rf1 = rf\<lparr>logs := logs rf @ [newLog]\<rparr>;
     m \<leftarrow> go_store (matchIndex rf1) (int (me rf1)) (e_Index newLog);
     n \<leftarrow> go_store (nextIndex rf1) (int (me rf1)) (e_Index newLog + 1);
     Some (persist (rf1\<lparr>matchIndex := m, nextIndex := n\<rparr>), newLog)
   }"

definition needReplicating :: "nat \<Rightarrow> ('c, 's) Raft \<Rightarrow> bool option" where
  "needReplicating peer rf =
     (if state rf = StateLeader then do {
        m \<leftarrow> go_index (matchIndex rf) (int peer);
        lastLog \<leftarrow> getLastLog rf;
        Some (m < e_Index lastLog)
      } else Some False)"

definition Start ::
    "'c \<Rightarrow> ('c, 's) Raft \<Rightarrow> (('c, 's) Raft \<times> (int \<times> int \<times> bool) \<times> ('c, 's) effect list) option" where
  "Start command rf =
     (if state rf \<noteq> StateLeader then Some (rf, (-1, -1, False), [])
      else do {
        (rf1, newLog) \<leftarrow> appendNewEntry command rf;
        Some (rf1, (e_Index newLog, e_Term newLog, True), BroadcastHeartbeat False rf1)
      })"

text \<open>The two cases of \<^verbatim>\<open>ticker\<close>: the election timer fired, the heartbeat timer fired.\<close>

definition ticker_election ::
    "('c, 's) Raft \<Rightarrow> (('c, 's) Raft \<times> int \<times> ('c, 's) effect list) option" where
  "ticker_election rf = do {
     rf1 \<leftarrow> ChangeState StateCandidate rf;
     (rf2, grantedVotes, eff) \<leftarrow> StartElection (rf1\<lparr>currentTerm := currentTerm rf1 + 1\<rparr>);
     Some (rf2\<lparr>electionTimer := True\<rparr>, grantedVotes, eff)
   }"

definition ticker_heartbeat :: "('c, 's) Raft \<Rightarrow> ('c, 's) Raft \<times> ('c, 's) effect list" where
  "ticker_heartbeat rf =
     (if state rf = StateLeader
      then (rf\<lparr>heartbeatTimer := True\<rparr>, BroadcastHeartbeat True rf)
      else (rf\<lparr>heartbeatTimer := False\<rparr>, []))"

text \<open>
  One turn of \<^verbatim>\<open>applier\<close>: under the lock it waits for \<^verbatim>\<open>lastApplied < commitIndex\<close>
  (\<open>applier_ready\<close>) and copies the committed entries, then it sends them without the
  lock, and at last it raises \<^verbatim>\<open>lastApplied\<close>.
\<close>

definition applier_ready :: "('c, 's) Raft \<Rightarrow> bool" where
  "applier_ready rf \<longleftrightarrow> \<not> lastApplied rf \<ge> commitIndex rf"

definition commandMsg :: "'c Entry \<Rightarrow> ('c, 's) ApplyMsg" where
  "commandMsg entry =
     \<lparr>am_CommandValid = True, am_Command = e_Command entry, am_CommandTerm = e_Term entry,
      am_CommandIndex = e_Index entry, am_SnapshotValid = False, am_Snapshot = [],
      am_SnapshotTerm = 0, am_SnapshotIndex = 0\<rparr>"

definition applier_collect :: "('c, 's) Raft \<Rightarrow> (int \<times> ('c, 's) ApplyMsg list) option" where
  "applier_collect rf = do {
     firstLog \<leftarrow> getFirstLog rf;
     let firstIndex = e_Index firstLog;
     entries \<leftarrow> go_slice (logs rf) (lastApplied rf + 1 - firstIndex) (commitIndex rf + 1 - firstIndex);
     Some (commitIndex rf, map commandMsg entries)
   }"

definition applier_finish :: "int \<Rightarrow> ('c, 's) Raft \<Rightarrow> ('c, 's) Raft" where
  "applier_finish ci rf = rf\<lparr>lastApplied := Max (lastApplied rf) ci\<rparr>"

section \<open>Creating a peer\<close>

definition Make :: "nat \<Rightarrow> nat \<Rightarrow> ('c gob, 's) Persister \<Rightarrow> ('c, 's) Raft option" where
  "Make n i ps = do {
     let rf = \<lparr>npeers = n, persister = ps, me = i, dead = False, state = StateFollower,
               currentTerm = 0, votedFor = -1, logs = [zeroEntry], commitIndex = 0, lastApplied = 0,
               nextIndex = replicate n 0, matchIndex = replicate n 0,
               electionTimer = True, heartbeatTimer = True\<rparr>;
     rf1 \<leftarrow> readPersist (ReadRaftState ps) rf;
     lastLog \<leftarrow> getLastLog rf1;
     resetIndexes [0..<n] (e_Index lastLog + 1) rf1
   }"

end
