(* ===== verification/Raft_Inv.thy ===== *)
theory Raft_Inv
  imports Raft_Node
begin

text \<open>
  What a single peer keeps true, whatever messages arrive.

  \<open>raft_wf\<close> is the representation invariant of the record: the log is a non-empty
  run of consecutive indices, the commit index lies inside it, the per-peer slices
  have one cell per peer, and a leader's \<^verbatim>\<open>nextIndex\<close> never points past the end of its
  log.  \<open>durable\<close> says that the persister holds exactly the term, the vote and the
  log of the running peer.  \<open>timers_ok\<close> says that a peer can always be woken up.
  \<open>raft_step\<close> bundles the handlers into one step function over events.
\<close>

section \<open>Definitions\<close>

definition log_wf :: "'c Entry list \<Rightarrow> bool" where
  "log_wf lg \<longleftrightarrow> lg \<noteq> [] \<and> (\<forall>i<length lg. e_Index (lg ! i) = e_Index (hd lg) + int i)"

abbreviation firstIndex :: "('c, 's) Raft \<Rightarrow> int" where
  "firstIndex rf \<equiv> e_Index (hd (logs rf))"

abbreviation lastIndex :: "('c, 's) Raft \<Rightarrow> int" where
  "lastIndex rf \<equiv> e_Index (last (logs rf))"

definition raft_wf :: "('c, 's) Raft \<Rightarrow> bool" where
  "raft_wf rf \<longleftrightarrow> log_wf (logs rf) \<and> firstIndex rf \<le> commitIndex rf \<and> commitIndex rf \<le> lastIndex rf \<and>
     lastApplied rf \<le> commitIndex rf \<and> length (nextIndex rf) = npeers rf \<and>
     length (matchIndex rf) = npeers rf \<and> me rf < npeers rf \<and>
     (state rf = StateLeader \<longrightarrow> (\<forall>p<npeers rf. nextIndex rf ! p \<le> lastIndex rf + 1))"

definition restored :: "('c gob, 's) Persister \<Rightarrow> int \<times> int \<times> 'c Entry list" where
  "restored ps = (if raftstate ps = [] then (0, -1, [zeroEntry]) else decodeState (raftstate ps))"

definition durable :: "('c, 's) Raft \<Rightarrow> bool" where
  "durable rf \<longleftrightarrow> restored (persister rf) = (currentTerm rf, votedFor rf, logs rf)"

definition timers_ok :: "('c, 's) Raft \<Rightarrow> bool" where
  "timers_ok rf \<longleftrightarrow> (if state rf = StateLeader then heartbeatTimer rf else electionTimer rf)"

text \<open>The role change as a total function, for a log that has a last entry.\<close>

definition become :: "NodeState \<Rightarrow> ('c, 's) Raft \<Rightarrow> ('c, 's) Raft" where
  "become st rf =
     (if state rf = st then rf
      else case st of
          StateFollower \<Rightarrow> rf\<lparr>state := st, heartbeatTimer := False, electionTimer := True\<rparr>
        | StateCandidate \<Rightarrow> rf\<lparr>state := st\<rparr>
        | StateLeader \<Rightarrow> rf\<lparr>state := st, matchIndex := replicate (npeers rf) 0,
            nextIndex := replicate (npeers rf) (lastIndex rf + 1),
            electionTimer := False, heartbeatTimer := True\<rparr>)"

datatype ('c, 's) event =
    EvRequestVote RequestVoteRequest
  | EvAppendEntries int "'c AppendEntriesRequest"
  | EvInstallSnapshot "'s InstallSnapshotRequest"
  | EvElectionTimeout
  | EvHeartbeatTimeout
  | EvVoteReply RequestVoteRequest RequestVoteResponse int
  | EvAppendReply nat "'c AppendEntriesRequest" AppendEntriesResponse
  | EvSnapshotReply nat "'s InstallSnapshotRequest" InstallSnapshotResponse
  | EvStart 'c
  | EvSnapshot int int "'s list"
  | EvCondInstall int int int "'s list"
  | EvApplied int
  | EvKill

text \<open>The state a handler leaves behind.\<close>

fun raft_step :: "('c, 's) event \<Rightarrow> ('c, 's) Raft \<Rightarrow> ('c, 's) Raft option" where
  "raft_step (EvRequestVote request) rf = map_option fst (RequestVote request rf)"
| "raft_step (EvAppendEntries cap request) rf = map_option fst (AppendEntries cap request rf)"
| "raft_step (EvInstallSnapshot request) rf = map_option fst (InstallSnapshot request rf)"
| "raft_step EvElectionTimeout rf = map_option fst (ticker_election rf)"
| "raft_step EvHeartbeatTimeout rf = Some (fst (ticker_heartbeat rf))"
| "raft_step (EvVoteReply request response granted) rf =
     map_option fst (handleRequestVoteResponse request response granted rf)"
| "raft_step (EvAppendReply peer request response) rf =
     map_option fst (handleAppendEntriesResponse peer request response rf)"
| "raft_step (EvSnapshotReply peer request response) rf =
     handleInstallSnapshotResponse peer request response rf"
| "raft_step (EvStart command) rf = map_option fst (Start command rf)"
| "raft_step (EvSnapshot cap index snap) rf = Snapshot cap index snap rf"
| "raft_step (EvCondInstall cap t i snap) rf = map_option fst (CondInstallSnapshot cap t i snap rf)"
| "raft_step (EvApplied ci) rf = Some (applier_finish ci rf)"
| "raft_step EvKill rf = Some (Raft_Kill rf)"

text \<open>
  What an event must satisfy: the entries of a request carry consecutive indices after
  \<^verbatim>\<open>PrevLogIndex\<close> and do not contradict the committed part of the log (the leader
  completeness that Raft promises); a reply answers a request this leader built in this term, so it lies
  within the log, and a follower's conflict index does not exceed \<^verbatim>\<open>PrevLogIndex + 1\<close>;
  the service snapshots committed indices only.
\<close>

fun event_ok :: "('c, 's) event \<Rightarrow> ('c, 's) Raft \<Rightarrow> bool" where
  "event_ok (EvAppendEntries cap request) rf \<longleftrightarrow>
     (\<forall>i<length (ae_Entries request).
        e_Index (ae_Entries request ! i) = ae_PrevLogIndex request + 1 + int i) \<and>
     (\<forall>e\<in>set (ae_Entries request). firstIndex rf < e_Index e \<and> e_Index e \<le> commitIndex rf \<longrightarrow>
        e_Term (logs rf ! nat (e_Index e - firstIndex rf)) = e_Term e)"
| "event_ok (EvAppendReply peer request response) rf \<longleftrightarrow>
     peer < npeers rf \<and>
     ae_PrevLogIndex request + int (length (ae_Entries request)) \<le> lastIndex rf \<and>
     aer_ConflictIndex response \<le> ae_PrevLogIndex request + 1"
| "event_ok (EvSnapshotReply peer request response) rf \<longleftrightarrow>
     peer < npeers rf \<and> is_LastIncludedIndex request \<le> lastIndex rf"
| "event_ok (EvSnapshot cap index snap) rf \<longleftrightarrow> index \<le> commitIndex rf"
| "event_ok (EvApplied ci) rf \<longleftrightarrow> ci \<le> commitIndex rf"
| "event_ok _ rf \<longleftrightarrow> True"

section \<open>Logs\<close>

lemma clone_id [simp]: "clone xs = xs"
  by (simp add: clone_def map_nth)

lemma log_wf_ne [simp]: "log_wf lg \<Longrightarrow> lg \<noteq> []"
  by (simp add: log_wf_def)

lemma log_wf_nth: "log_wf lg \<Longrightarrow> i < length lg \<Longrightarrow> e_Index (lg ! i) = e_Index (hd lg) + int i"
  by (simp add: log_wf_def)

lemma log_wf_last: "log_wf lg \<Longrightarrow> e_Index (last lg) = e_Index (hd lg) + int (length lg) - 1"
  by (subst last_conv_nth) (auto simp: log_wf_nth Suc_leI of_nat_diff)

lemma log_wf_zero [simp]: "log_wf [e]"
  by (simp add: log_wf_def)

lemma log_wf_snoc:
  "log_wf lg \<Longrightarrow> e_Index e = e_Index (last lg) + 1 \<Longrightarrow> log_wf (lg @ [e])"
  by (auto simp: log_wf_def nth_append less_Suc_eq log_wf_last [unfolded log_wf_def])

lemma log_wf_drop: "log_wf lg \<Longrightarrow> k < length lg \<Longrightarrow> log_wf (drop k lg)"
  by (auto simp: log_wf_def hd_drop_conv_nth)

text \<open>A head with the right index may replace the dummy.\<close>

lemma log_wf_set_head:
  "log_wf (x # xs) \<Longrightarrow> e_Index d = e_Index x \<Longrightarrow> log_wf (d # xs)"
  unfolding log_wf_def by (auto simp: nth_Cons split: nat.splits)

lemma log_wf_append:
  assumes "log_wf lg" "k \<le> length lg" "0 < k"
    and "\<forall>i<length es. e_Index (es ! i) = e_Index (hd lg) + int k + int i"
  shows "log_wf (take k lg @ es)"
  using assms by (auto simp: log_wf_def nth_append hd_append)

lemma getFirstLog_wf [simp]: "logs rf \<noteq> [] \<Longrightarrow> getFirstLog rf = Some (hd (logs rf))"
  by (simp add: getFirstLog_def)

lemma getLastLog_wf [simp]: "logs rf \<noteq> [] \<Longrightarrow> getLastLog rf = Some (last (logs rf))"
  by (simp add: getLastLog_def)

section \<open>Role changes\<close>

lemma resetIndexes_upt:
  "k \<le> n \<Longrightarrow> length (matchIndex rf) = n \<Longrightarrow> length (nextIndex rf) = n \<Longrightarrow>
   resetIndexes [k..<n] v rf =
     Some (rf\<lparr>matchIndex := take k (matchIndex rf) @ replicate (n - k) 0,
              nextIndex := take k (nextIndex rf) @ replicate (n - k) v\<rparr>)"
proof (induction "n - k" arbitrary: k rf)
  case 0
  then show ?case by simp
next
  case (Suc d)
  then have k: "k < n" "[k..<n] = k # [Suc k..<n]" by (auto simp: upt_conv_Cons)
  let ?rf = "rf\<lparr>matchIndex := (matchIndex rf)[k := 0], nextIndex := (nextIndex rf)[k := v]\<rparr>"
  have "resetIndexes [Suc k..<n] v ?rf =
     Some (?rf\<lparr>matchIndex := take (Suc k) (matchIndex ?rf) @ replicate (n - Suc k) 0,
              nextIndex := take (Suc k) (nextIndex ?rf) @ replicate (n - Suc k) v\<rparr>)"
    by (rule Suc.hyps(1)) (use Suc k in auto)
  moreover have "n - k = Suc (n - Suc k)" using k by simp
  ultimately show ?case
    using Suc.prems k by (simp add: take_Suc_conv_app_nth)
qed

lemma resetIndexes_all:
  "length (matchIndex rf) = n \<Longrightarrow> length (nextIndex rf) = n \<Longrightarrow>
   resetIndexes [0..<n] v rf = Some (rf\<lparr>matchIndex := replicate n 0, nextIndex := replicate n v\<rparr>)"
  using resetIndexes_upt [of 0 n rf v] by simp

lemma ChangeState_become:
  "logs rf \<noteq> [] \<Longrightarrow> length (matchIndex rf) = npeers rf \<Longrightarrow> length (nextIndex rf) = npeers rf \<Longrightarrow>
   ChangeState st rf = Some (become st rf)"
  by (simp add: ChangeState_def become_def resetIndexes_all split: NodeState.split)

lemma ChangeState_follower [simp]: "ChangeState StateFollower rf = Some (become StateFollower rf)"
  by (simp add: ChangeState_def become_def)

lemma ChangeState_candidate [simp]: "ChangeState StateCandidate rf = Some (become StateCandidate rf)"
  by (simp add: ChangeState_def become_def)

lemma become_simps [simp]:
  "state (become st rf) = st" "currentTerm (become st rf) = currentTerm rf"
  "votedFor (become st rf) = votedFor rf" "logs (become st rf) = logs rf"
  "commitIndex (become st rf) = commitIndex rf" "lastApplied (become st rf) = lastApplied rf"
  "npeers (become st rf) = npeers rf" "me (become st rf) = me rf"
  "persister (become st rf) = persister rf" "dead (become st rf) = dead rf"
  by (auto simp: become_def split: NodeState.splits)

lemma become_not_leader [simp]:
  "st \<noteq> StateLeader \<Longrightarrow> nextIndex (become st rf) = nextIndex rf"
  "st \<noteq> StateLeader \<Longrightarrow> matchIndex (become st rf) = matchIndex rf"
  by (auto simp: become_def split: NodeState.splits)

lemma persist_simps [simp]:
  "state (persist rf) = state rf" "currentTerm (persist rf) = currentTerm rf"
  "votedFor (persist rf) = votedFor rf" "logs (persist rf) = logs rf"
  "commitIndex (persist rf) = commitIndex rf" "lastApplied (persist rf) = lastApplied rf"
  "npeers (persist rf) = npeers rf" "me (persist rf) = me rf" "dead (persist rf) = dead rf"
  "nextIndex (persist rf) = nextIndex rf" "matchIndex (persist rf) = matchIndex rf"
  "electionTimer (persist rf) = electionTimer rf" "heartbeatTimer (persist rf) = heartbeatTimer rf"
  by (simp_all add: persist_def)

lemma decode_encode [simp]: "decodeState (encodeState rf) = (currentTerm rf, votedFor rf, logs rf)"
  by (simp add: decodeState_def encodeState_def)

lemma encode_ne [simp]: "encodeState rf \<noteq> []"
  by (simp add: encodeState_def)

lemma restored_saved [simp]:
  "restored (SaveRaftState (encodeState rf) ps) = (currentTerm rf, votedFor rf, logs rf)"
  "restored (SaveStateAndSnapshot (encodeState rf) snap ps) = (currentTerm rf, votedFor rf, logs rf)"
  by (simp_all add: restored_def SaveRaftState_def SaveStateAndSnapshot_def)

lemma restored_persist [simp]:
  "restored (persister (persist rf)) = (currentTerm rf, votedFor rf, logs rf)"
  by (simp add: persist_def)

lemma durable_persist [simp]: "durable (persist rf)"
  by (simp add: durable_def)

section \<open>Every handler keeps the invariant\<close>

definition raft_ok :: "('c, 's) Raft \<Rightarrow> bool" where
  "raft_ok rf \<longleftrightarrow> raft_wf rf \<and> durable rf \<and> timers_ok rf"

lemmas raft_ok_defs = raft_ok_def raft_wf_def timers_ok_def

lemma raft_wf_logs: "raft_wf rf \<Longrightarrow> log_wf (logs rf)"
  by (simp add: raft_wf_def)

lemma raft_wf_ne [simp]: "raft_wf rf \<Longrightarrow> logs rf \<noteq> []"
  by (simp add: raft_wf_def)

lemma become_timers:
  "timers_ok rf \<Longrightarrow> electionTimer (become StateFollower rf) = True"
  "timers_ok rf \<Longrightarrow> st = StateLeader \<Longrightarrow> heartbeatTimer (become st rf) = True"
  "electionTimer (become StateCandidate rf) = electionTimer rf"
  by (auto simp: become_def timers_ok_def split: NodeState.splits if_splits)

lemma RequestVote_ok:
  assumes "raft_ok rf"
  shows "\<exists>rf' resp. RequestVote request rf = Some (rf', resp) \<and> raft_ok rf'"
  using assms
  by (auto simp: raft_ok_defs RequestVote_def isLogUpToDate_def Let_def become_def)

lemma InstallSnapshot_ok:
  assumes "raft_ok rf"
  shows "\<exists>rf' resp eff. InstallSnapshot request rf = Some (rf', resp, eff) \<and> raft_ok rf'"
  using assms
  by (auto simp: raft_ok_defs InstallSnapshot_def Let_def become_def durable_def persist_def)

lemma ticker_election_ok:
  assumes "raft_ok rf"
  shows "\<exists>rf' g eff. ticker_election rf = Some (rf', g, eff) \<and> raft_ok rf'"
  using assms
  by (auto simp: raft_ok_defs ticker_election_def StartElection_def genRequestVoteRequest_def Let_def
      durable_def persist_def)

lemma ticker_heartbeat_ok: "raft_ok rf \<Longrightarrow> raft_ok (fst (ticker_heartbeat rf))"
  by (auto simp: raft_ok_defs ticker_heartbeat_def durable_def)

lemma handleRequestVoteResponse_ok:
  assumes "raft_ok rf"
  shows "\<exists>rf' g eff. handleRequestVoteResponse request response granted rf = Some (rf', g, eff) \<and> raft_ok rf'"
  using assms
  by (auto simp: raft_ok_defs handleRequestVoteResponse_def ChangeState_become become_def Let_def durable_def)

lemma handleInstallSnapshotResponse_ok:
  assumes "raft_ok rf" "peer < npeers rf" "is_LastIncludedIndex request \<le> lastIndex rf"
  shows "\<exists>rf'. handleInstallSnapshotResponse peer request response rf = Some rf' \<and> raft_ok rf'"
  using assms
  by (auto simp: raft_ok_defs handleInstallSnapshotResponse_def become_def durable_def nth_list_update)

lemma Start_ok:
  assumes "raft_ok rf"
  shows "\<exists>rf' r eff. Start command rf = Some (rf', r, eff) \<and> raft_ok rf'"
  using assms
  by (auto simp: raft_ok_defs Start_def appendNewEntry_def Let_def log_wf_snoc log_wf_last hd_append
      nth_list_update; fastforce)

lemma applier_finish_ok: "raft_ok rf \<Longrightarrow> ci \<le> commitIndex rf \<Longrightarrow> raft_ok (applier_finish ci rf)"
  by (auto simp: raft_ok_defs applier_finish_def durable_def)

lemma Kill_ok: "raft_ok rf \<Longrightarrow> raft_ok (Raft_Kill rf)"
  by (auto simp: raft_ok_defs Raft_Kill_def durable_def)

section \<open>Compaction\<close>

text \<open>The log after compaction up to index \<open>i\<close>, with \<open>d\<close> as its new dummy.\<close>

definition compact :: "int \<Rightarrow> 'c Entry \<Rightarrow> 'c Entry list \<Rightarrow> 'c Entry list" where
  "compact i d lg = d # drop (Suc (nat (i - e_Index (hd lg)))) lg"

lemma list_update_drop_0: "k < length lg \<Longrightarrow> (drop k lg)[0 := v] = v # drop (Suc k) lg"
  by (simp add: Cons_nth_drop_Suc [symmetric])

lemma log_wf_bounds:
  assumes "log_wf lg" "e_Index (hd lg) \<le> i" "i \<le> e_Index (last lg)"
  shows "nat (i - e_Index (hd lg)) < length lg"
  using assms log_wf_last [of lg] by (simp add: nat_less_iff)

lemma compact_wf:
  assumes "log_wf lg" "e_Index (hd lg) \<le> i" "i \<le> e_Index (last lg)" "e_Index d = i"
  shows "log_wf (compact i d lg)" "e_Index (last (compact i d lg)) = e_Index (last lg)"
proof -
  let ?k = "nat (i - e_Index (hd lg))"
  have k: "?k < length lg" using assms(1-3) by (rule log_wf_bounds)
  have x: "e_Index (lg ! ?k) = i" using log_wf_nth [OF assms(1) k] assms(2) by simp
  have "log_wf (lg ! ?k # drop (Suc ?k) lg)"
    using log_wf_drop [OF assms(1) k] by (simp add: Cons_nth_drop_Suc k)
  then show wf: "log_wf (compact i d lg)"
    unfolding compact_def by (rule log_wf_set_head) (simp add: x assms(4))
  have "e_Index (last (compact i d lg)) = i + int (length lg - Suc ?k)"
    using log_wf_last [OF wf] assms(4) by (simp add: compact_def)
  then show "e_Index (last (compact i d lg)) = e_Index (last lg)"
    using log_wf_last [OF assms(1)] k assms(2) by (simp add: of_nat_diff)
qed

lemma Snapshot_result:
  assumes "raft_wf rf" "index \<le> commitIndex rf"
  shows "Snapshot cap index snap rf =
    (if index \<le> firstIndex rf then Some rf
     else let rf1 = rf\<lparr>logs := compact index ((logs rf ! nat (index - firstIndex rf))\<lparr>e_Command := None\<rparr>) (logs rf)\<rparr>
       in Some (rf1\<lparr>persister := SaveStateAndSnapshot (encodeState rf1) snap (persister rf1)\<rparr>))"
proof -
  have "\<not> index \<le> firstIndex rf \<Longrightarrow> nat (index - firstIndex rf) < length (logs rf)"
    using assms by (intro log_wf_bounds) (auto simp: raft_wf_def)
  then show ?thesis
    using assms by (auto simp: Snapshot_def Let_def go_simps go_store_def compact_def list_update_drop_0
        hd_drop_conv_nth)
qed

lemma Snapshot_ok:
  assumes "raft_ok rf" "index \<le> commitIndex rf"
  shows "\<exists>rf'. Snapshot cap index snap rf = Some rf' \<and> raft_ok rf'"
proof (cases "index \<le> firstIndex rf")
  case True
  then show ?thesis using assms by (simp add: Snapshot_result raft_ok_def)
next
  case False
  let ?d = "(logs rf ! nat (index - firstIndex rf))\<lparr>e_Command := None\<rparr>"
  have wf: "log_wf (logs rf)" "firstIndex rf \<le> index" "index \<le> lastIndex rf"
    using assms False by (auto simp: raft_ok_defs)
  have d: "e_Index ?d = index"
    using log_wf_nth [OF wf(1) log_wf_bounds [OF wf]] wf(2) by simp
  have hd: "e_Index (hd (compact index ?d (logs rf))) = index" by (simp add: compact_def d)
  show ?thesis
    using assms False hd compact_wf [OF wf d]
    by (auto simp: Snapshot_result raft_ok_defs durable_def Let_def)
qed

lemma CondInstallSnapshot_result:
  assumes "raft_wf rf"
  shows "CondInstallSnapshot cap t i snap rf =
    (if i \<le> commitIndex rf then Some (rf, False)
     else let d = (if i > lastIndex rf then zeroEntry else logs rf ! nat (i - firstIndex rf))
                    \<lparr>e_Command := None, e_Term := t, e_Index := i\<rparr>;
              rf1 = rf\<lparr>logs := (if i > lastIndex rf then [d] else compact i d (logs rf)),
                       lastApplied := i, commitIndex := i\<rparr>
       in Some (rf1\<lparr>persister := SaveStateAndSnapshot (encodeState rf1) snap (persister rf1)\<rparr>, True))"
proof -
  have "\<not> i \<le> commitIndex rf \<Longrightarrow> \<not> i > lastIndex rf \<Longrightarrow> nat (i - firstIndex rf) < length (logs rf)"
    using assms by (intro log_wf_bounds) (auto simp: raft_wf_def)
  then show ?thesis
    using assms
    by (auto simp: CondInstallSnapshot_def Let_def go_simps go_store_def compact_def list_update_drop_0
        hd_drop_conv_nth zeroEntry_def raft_wf_def log_wf_last)
qed

lemma CondInstallSnapshot_ok:
  assumes "raft_ok rf"
  shows "\<exists>rf' b. CondInstallSnapshot cap t i snap rf = Some (rf', b) \<and> raft_ok rf'"
proof (cases "i \<le> commitIndex rf \<or> i > lastIndex rf")
  case True
  then show ?thesis using assms
    by (auto simp: CondInstallSnapshot_result raft_ok_defs durable_def Let_def; fastforce)
next
  case False
  let ?d = "(logs rf ! nat (i - firstIndex rf))\<lparr>e_Command := None, e_Term := t, e_Index := i\<rparr>"
  have wf: "log_wf (logs rf)" "firstIndex rf \<le> i" "i \<le> lastIndex rf"
    using assms False by (auto simp: raft_ok_defs)
  have hd: "e_Index (hd (compact i ?d (logs rf))) = i" by (simp add: compact_def)
  show ?thesis
    using assms False hd compact_wf [OF wf, of ?d]
    by (auto simp: CondInstallSnapshot_result raft_ok_defs durable_def Let_def)
qed

section \<open>Matching, scanning and merging\<close>

lemma matchLog_result:
  assumes "raft_wf rf" "firstIndex rf \<le> i"
  shows "matchLog t i rf = Some (i \<le> lastIndex rf \<and> e_Term (logs rf ! nat (i - firstIndex rf)) = t)"
  using assms log_wf_bounds [of "logs rf" i]
  by (auto simp: matchLog_def raft_wf_def go_index_def)

declare conflictScan.simps [simp del] termScan.simps [simp del]

text \<open>
  The scan for the conflicting term stops just below the run of that term which ends at
  the position it starts from.
\<close>

lemma conflictScan_spec:
  "index - first < int (length lg) \<Longrightarrow>
   \<exists>r. conflictScan lg first t index = Some r \<and> r \<le> index \<and> (first - 1 \<le> index \<longrightarrow> first - 1 \<le> r) \<and>
     (\<forall>j. r < j \<and> j \<le> index \<longrightarrow> e_Term (lg ! nat (j - first)) = t) \<and>
     (first \<le> r \<longrightarrow> e_Term (lg ! nat (r - first)) \<noteq> t)"
proof (induction lg first t index rule: conflictScan.induct)
  case (1 lg first t index)
  show ?case
  proof (cases "first \<le> index \<and> e_Term (lg ! nat (index - first)) = t")
    case True
    then obtain r where r: "conflictScan lg first t (index - 1) = Some r" "r \<le> index - 1"
      "first - 1 \<le> r" "\<forall>j. r < j \<and> j \<le> index - 1 \<longrightarrow> e_Term (lg ! nat (j - first)) = t"
      "first \<le> r \<longrightarrow> e_Term (lg ! nat (r - first)) \<noteq> t"
      using "1.IH" [of "lg ! nat (index - first)"] "1.prems" by (auto simp: go_simps)
    have "conflictScan lg first t index = Some r"
      using True r(1) "1.prems" by (simp add: conflictScan.simps [of lg first t index] go_simps)
    moreover have "\<forall>j. r < j \<and> j \<le> index \<longrightarrow> e_Term (lg ! nat (j - first)) = t"
      using r(4) True by (metis zle_diff1_eq order_le_less)
    ultimately show ?thesis using r by auto
  next
    case False
    then have "conflictScan lg first t index = Some index"
      using "1.prems" by (auto simp: conflictScan.simps [of lg first t index] go_simps)
    then show ?thesis using False by auto
  qed
qed

lemma termScan_spec:
  "i - first < int (length lg) \<Longrightarrow>
   \<exists>r. termScan lg first t i = Some r \<and>
     (case r of None \<Rightarrow> (\<forall>j. first \<le> j \<and> j \<le> i \<longrightarrow> e_Term (lg ! nat (j - first)) \<noteq> t)
      | Some k \<Rightarrow> first \<le> k \<and> k \<le> i \<and> e_Term (lg ! nat (k - first)) = t \<and>
          (\<forall>j. k < j \<and> j \<le> i \<longrightarrow> e_Term (lg ! nat (j - first)) \<noteq> t))"
proof (induction lg first t i rule: termScan.induct)
  case (1 lg first t i)
  show ?case
  proof (cases "first \<le> i \<and> e_Term (lg ! nat (i - first)) \<noteq> t")
    case True
    then obtain r where r: "termScan lg first t (i - 1) = Some r"
      "case r of None \<Rightarrow> (\<forall>j. first \<le> j \<and> j \<le> i - 1 \<longrightarrow> e_Term (lg ! nat (j - first)) \<noteq> t)
      | Some k \<Rightarrow> first \<le> k \<and> k \<le> i - 1 \<and> e_Term (lg ! nat (k - first)) = t \<and>
          (\<forall>j. k < j \<and> j \<le> i - 1 \<longrightarrow> e_Term (lg ! nat (j - first)) \<noteq> t)"
      using "1.IH" [of "lg ! nat (i - first)"] "1.prems" by (auto simp: go_simps)
    have "termScan lg first t i = Some r"
      using True r(1) "1.prems" by (simp add: termScan.simps [of lg first t i] go_simps)
    moreover have split: "j \<le> i \<longleftrightarrow> j \<le> i - 1 \<or> j = i" for j by auto
    ultimately show ?thesis using r(2) True
      by (auto split: option.splits simp: split)
  next
    case False
    then show ?thesis
      using "1.prems" by (auto simp: termScan.simps [of lg first t i] go_simps)
  qed
qed

text \<open>
  The merge: the first \<open>j\<close> entries of the request agree with the log.  If that is all of
  them the log stays as it is, else it is cut at the first disagreement.
\<close>

lemma mergeEntries_spec:
  "n \<le> length lg \<Longrightarrow> \<forall>i<length es. e_Index (es ! i) = first + int n + int i \<Longrightarrow>
   \<exists>j\<le>length es. n + j \<le> length lg \<and>
     (\<forall>i<j. n + i < length lg \<and> e_Term (lg ! (n + i)) = e_Term (es ! i)) \<and>
     (j < length es \<longrightarrow> n + j < length lg \<longrightarrow> e_Term (lg ! (n + j)) \<noteq> e_Term (es ! j)) \<and>
     mergeEntries cap first lg es =
       Some (if j = length es then lg else take (n + j) lg @ drop j es)"
proof (induction es arbitrary: n)
  case Nil
  then show ?case by auto
next
  case (Cons e es)
  have idx: "e_Index e - first = int n" using Cons.prems(2) by fastforce
  show ?case
  proof (cases "n < length lg \<and> e_Term (lg ! n) = e_Term e")
    case True
    have "\<forall>i<length es. e_Index (es ! i) = first + int (Suc n) + int i"
      using Cons.prems(2) by fastforce
    then obtain j where j: "j \<le> length es" "Suc n + j \<le> length lg"
      "\<forall>i<j. Suc n + i < length lg \<and> e_Term (lg ! (Suc n + i)) = e_Term (es ! i)"
      "j < length es \<longrightarrow> Suc n + j < length lg \<longrightarrow> e_Term (lg ! (Suc n + j)) \<noteq> e_Term (es ! j)"
      "mergeEntries cap first lg es = Some (if j = length es then lg else take (Suc n + j) lg @ drop j es)"
      using Cons.IH [of "Suc n"] True by auto
    have "mergeEntries cap first lg (e # es) = mergeEntries cap first lg es"
      using True idx by simp
    then show ?thesis
      using j True by (intro exI [of _ "Suc j"]) (auto simp: less_Suc_eq_0_disj)
  next
    case False
    have "mergeEntries cap first lg (e # es) = Some (take n lg @ e # es)"
      using False idx Cons.prems(1) by (auto simp: go_slice_to_def)
    then show ?thesis using False Cons.prems(1) by (intro exI [of _ 0]) auto
  qed
qed

lemma insertionSort_index:
  assumes "xs \<noteq> []"
  shows "go_index (insertionSort xs) (int (length xs) - (int (length xs) div 2 + 1)) =
    Some (sort xs ! (length xs - (length xs div 2 + 1)))"
proof -
  have "length xs div 2 + 1 \<le> length xs" using assms by (cases xs) auto
  then have eq: "int (length xs) - (int (length xs) div 2 + 1) = int (length xs - (length xs div 2 + 1))"
    by (simp add: of_nat_diff zdiv_int)
  show ?thesis unfolding eq using assms by (simp add: insertionSort_sort)
qed

text \<open>The candidate for the commit index: the greatest index that a majority has reached.\<close>

definition majorityIndex :: "int list \<Rightarrow> int" where
  "majorityIndex ms = sort ms ! (length ms - (length ms div 2 + 1))"

lemma advanceCommitIndexForLeader_result:
  assumes "raft_wf rf"
  shows "advanceCommitIndexForLeader rf =
    (let c = majorityIndex (matchIndex rf) in
     Some (if commitIndex rf < c \<and> c \<le> lastIndex rf \<and>
              e_Term (logs rf ! nat (c - firstIndex rf)) = currentTerm rf
           then (rf\<lparr>commitIndex := c\<rparr>, [SignalApply]) else (rf, [])))"
proof -
  have "matchIndex rf \<noteq> []" using assms by (auto simp: raft_wf_def)
  note ix = insertionSort_index [OF this, folded majorityIndex_def]
  have "firstIndex rf \<le> commitIndex rf" using assms by (simp add: raft_wf_def)
  then show ?thesis
    using assms by (auto simp: advanceCommitIndexForLeader_def Let_def ix matchLog_result)
qed

section \<open>The replication handlers keep the invariant\<close>

lemma advanceCommitIndexForFollower_result:
  "logs rf \<noteq> [] \<Longrightarrow> advanceCommitIndexForFollower lc rf =
     Some (if commitIndex rf < min lc (lastIndex rf)
           then (rf\<lparr>commitIndex := min lc (lastIndex rf)\<rparr>, [SignalApply]) else (rf, []))"
  by (simp add: advanceCommitIndexForFollower_def Let_def)

text \<open>The follower that the handler turns the peer into before it looks at the log.\<close>

definition toFollower :: "int \<Rightarrow> ('c, 's) Raft \<Rightarrow> ('c, 's) Raft" where
  "toFollower t rf =
     (become StateFollower (if t > currentTerm rf then rf\<lparr>currentTerm := t, votedFor := -1\<rparr> else rf))
       \<lparr>electionTimer := True\<rparr>"

lemma toFollower_simps [simp]:
  "state (toFollower t rf) = StateFollower" "currentTerm (toFollower t rf) = max t (currentTerm rf)"
  "logs (toFollower t rf) = logs rf" "electionTimer (toFollower t rf) = True"
  "commitIndex (toFollower t rf) = commitIndex rf" "lastApplied (toFollower t rf) = lastApplied rf"
  "npeers (toFollower t rf) = npeers rf" "me (toFollower t rf) = me rf"
  "nextIndex (toFollower t rf) = nextIndex rf" "matchIndex (toFollower t rf) = matchIndex rf"
  "votedFor (toFollower t rf) = (if t > currentTerm rf then -1 else votedFor rf)"
  by (auto simp: toFollower_def)

lemma toFollower_wf: "raft_wf rf \<Longrightarrow> raft_wf (toFollower t rf)"
  by (simp add: raft_wf_def)

text \<open>The handler's result on each of its branches.\<close>

lemma AppendEntries_body_result:
  assumes wf: "raft_wf rf" and t: "\<not> ae_Term request < currentTerm rf"
  defines "rf3 \<equiv> toFollower (ae_Term request) rf"
  shows "AppendEntries_body cap request rf =
    (if ae_PrevLogIndex request < firstIndex rf
     then Some (rf3, zeroAppendEntriesResponse, [])
     else if ae_PrevLogIndex request > lastIndex rf
     then Some (rf3, zeroAppendEntriesResponse\<lparr>aer_Term := ae_Term request, aer_ConflictTerm := -1,
            aer_ConflictIndex := lastIndex rf + 1\<rparr>, [])
     else if e_Term (logs rf ! nat (ae_PrevLogIndex request - firstIndex rf)) \<noteq> ae_PrevLogTerm request
     then do {
       index \<leftarrow> conflictScan (logs rf) (firstIndex rf)
                 (e_Term (logs rf ! nat (ae_PrevLogIndex request - firstIndex rf)))
                 (ae_PrevLogIndex request - 1);
       Some (rf3, zeroAppendEntriesResponse\<lparr>aer_Term := ae_Term request,
            aer_ConflictTerm := e_Term (logs rf ! nat (ae_PrevLogIndex request - firstIndex rf)),
            aer_ConflictIndex := index\<rparr>, [])
     }
     else do {
       lg \<leftarrow> mergeEntries cap (firstIndex rf) (logs rf) (ae_Entries request);
       (rf4, eff) \<leftarrow> advanceCommitIndexForFollower (ae_LeaderCommit request) (rf3\<lparr>logs := lg\<rparr>);
       Some (rf4, zeroAppendEntriesResponse\<lparr>aer_Term := currentTerm rf4, aer_Success := True\<rparr>, eff)
     })"
proof -
  have m: "firstIndex rf \<le> ae_PrevLogIndex request \<Longrightarrow>
     matchLog (ae_PrevLogTerm request) (ae_PrevLogIndex request) rf3 =
       Some (ae_PrevLogIndex request \<le> lastIndex rf \<and>
         e_Term (logs rf ! nat (ae_PrevLogIndex request - firstIndex rf)) = ae_PrevLogTerm request)"
    using matchLog_result [OF toFollower_wf [OF wf]] by (simp add: rf3_def)
  have b: "firstIndex rf \<le> ae_PrevLogIndex request \<Longrightarrow> ae_PrevLogIndex request \<le> lastIndex rf \<Longrightarrow>
     go_index (logs rf) (ae_PrevLogIndex request - firstIndex rf) =
       Some (logs rf ! nat (ae_PrevLogIndex request - firstIndex rf))"
    using log_wf_bounds [OF raft_wf_logs [OF wf]] by (simp add: go_index_def nat_less_iff)
  have f: "toFollower (ae_Term request) rf = rf3" by (simp add: rf3_def)
  have rf3: "logs rf3 = logs rf" "currentTerm rf3 = ae_Term request"
    using t by (simp_all add: rf3_def)
  have z: "zeroAppendEntriesResponse\<lparr>aer_Term := 0, aer_Success := False\<rparr> = zeroAppendEntriesResponse"
    by (simp add: zeroAppendEntriesResponse_def)
  show ?thesis
    using t wf
    by (simp add: AppendEntries_body_def Let_def toFollower_def [symmetric] f rf3 m b z
        del: not_less)
       (simp add: zeroAppendEntriesResponse_def)
qed

text \<open>What the merge does to a well-formed log, and to its commit index.\<close>

lemma mergeEntries_wf:
  assumes wf: "raft_wf rf" and p: "firstIndex rf \<le> prev" "prev \<le> lastIndex rf"
    and idx: "\<forall>i<length es. e_Index (es ! i) = prev + 1 + int i"
    and safe: "\<forall>e\<in>set es. firstIndex rf < e_Index e \<and> e_Index e \<le> commitIndex rf \<longrightarrow>
        e_Term (logs rf ! nat (e_Index e - firstIndex rf)) = e_Term e"
  shows "\<exists>lg. mergeEntries cap (firstIndex rf) (logs rf) es = Some lg \<and> log_wf lg \<and>
     hd lg = hd (logs rf) \<and> commitIndex rf \<le> e_Index (last lg)"
proof -
  define n where "n = Suc (nat (prev - firstIndex rf))"
  have lw: "log_wf (logs rf)" and c: "commitIndex rf \<le> lastIndex rf" "firstIndex rf \<le> commitIndex rf"
    using wf by (auto simp: raft_wf_def)
  have n: "n \<le> length (logs rf)" "0 < n" and idx': "\<forall>i<length es. e_Index (es ! i) = firstIndex rf + int n + int i"
    using log_wf_bounds [OF lw p] idx p(1) by (auto simp: n_def)
  obtain j where j: "j \<le> length es" "n + j \<le> length (logs rf)"
    "j < length es \<longrightarrow> n + j < length (logs rf) \<longrightarrow> e_Term (logs rf ! (n + j)) \<noteq> e_Term (es ! j)"
    and m: "mergeEntries cap (firstIndex rf) (logs rf) es =
       Some (if j = length es then logs rf else take (n + j) (logs rf) @ drop j es)"
    using mergeEntries_spec [OF n(1) idx'] by blast
  show ?thesis
  proof (cases "j = length es")
    case True
    then show ?thesis using m lw c by simp
  next
    case False
    let ?lg = "take (n + j) (logs rf) @ drop j es"
    have wf': "log_wf ?lg"
      using j idx' n(2) by (intro log_wf_append [OF lw]) auto
    have hd: "hd ?lg = hd (logs rf)" using lw n(2) by (simp add: hd_append)
    have last: "e_Index (last ?lg) = firstIndex rf + int (n + length es) - 1"
      using log_wf_last [OF wf'] hd j(1,2) by simp
    have "commitIndex rf < firstIndex rf + int (n + j)"
    proof (rule ccontr)
      assume "\<not> ?thesis"
      then have le: "firstIndex rf + int (n + j) \<le> commitIndex rf" by simp
      have e: "es ! j \<in> set es" "e_Index (es ! j) = firstIndex rf + int (n + j)"
        using j(1) False idx' by auto
      have "n + j < length (logs rf)" using le c(1) log_wf_last [OF lw] by simp
      moreover have "e_Term (logs rf ! (n + j)) = e_Term (es ! j)"
        using bspec [OF safe e(1)] e(2) le n(2) by (simp del: of_nat_add)
      ultimately show False using j False by auto
    qed
    then have "commitIndex rf \<le> e_Index (last ?lg)"
      using last j(1) False by simp
    then show ?thesis using m False wf' hd by auto
  qed
qed

lemma AppendEntries_ok:
  assumes ok: "raft_ok rf" and ev: "event_ok (EvAppendEntries cap request) rf"
  shows "\<exists>rf' resp eff. AppendEntries cap request rf = Some (rf', resp, eff) \<and> raft_ok rf'"
proof (cases "ae_Term request < currentTerm rf")
  case True
  then show ?thesis using ok by (auto simp: AppendEntries_def AppendEntries_body_def raft_ok_defs)
next
  case False
  let ?f = "toFollower (ae_Term request) rf"
  have wf: "raft_wf rf" using ok by (simp add: raft_ok_def)
  note body = AppendEntries_body_result [OF wf False, of cap]
  have f: "raft_ok (persist ?f)"
    using toFollower_wf [OF wf, of "ae_Term request"] by (simp add: raft_ok_defs)
  show ?thesis
  proof (cases "firstIndex rf \<le> ae_PrevLogIndex request \<and> ae_PrevLogIndex request \<le> lastIndex rf")
    case False
    then have "ae_PrevLogIndex request < firstIndex rf \<or> ae_PrevLogIndex request > lastIndex rf" by auto
    then show ?thesis unfolding AppendEntries_def body using f by (elim disjE) simp_all
  next
    case True
    then have p: "firstIndex rf \<le> ae_PrevLogIndex request" "ae_PrevLogIndex request \<le> lastIndex rf"
      by auto
    have "ae_PrevLogIndex request - 1 - firstIndex rf < int (length (logs rf))"
      using p(2) log_wf_last [OF raft_wf_logs [OF wf]] by simp
    then obtain index where cs: "conflictScan (logs rf) (firstIndex rf)
        (e_Term (logs rf ! nat (ae_PrevLogIndex request - firstIndex rf)))
        (ae_PrevLogIndex request - 1) = Some index"
      using conflictScan_spec by blast
    obtain lg where lg: "mergeEntries cap (firstIndex rf) (logs rf) (ae_Entries request) = Some lg"
      "log_wf lg" "hd lg = hd (logs rf)" "commitIndex rf \<le> e_Index (last lg)"
      using mergeEntries_wf [OF wf p, of "ae_Entries request" cap] ev by auto
    have ok': "raft_ok (persist (?f\<lparr>logs := lg\<rparr>))"
      "commitIndex rf < c \<Longrightarrow> c \<le> e_Index (last lg) \<Longrightarrow> raft_ok (persist (?f\<lparr>logs := lg, commitIndex := c\<rparr>))" for c
      using lg wf by (auto simp: raft_ok_defs)
    show ?thesis
    proof (cases "e_Term (logs rf ! nat (ae_PrevLogIndex request - firstIndex rf)) = ae_PrevLogTerm request")
      case True
      then show ?thesis unfolding AppendEntries_def body using p lg ok'
        by (simp add: advanceCommitIndexForFollower_result)
    next
      case False
      then show ?thesis unfolding AppendEntries_def body using p cs f by simp
    qed
  qed
qed

lemma advanceCommitIndexForLeader_ok:
  assumes "raft_ok rf"
  shows "\<exists>rf' eff. advanceCommitIndexForLeader rf = Some (rf', eff) \<and> raft_ok rf'"
  using assms
  by (auto simp: advanceCommitIndexForLeader_result Let_def raft_ok_def)
     (auto simp: raft_wf_def durable_def timers_ok_def)

lemma handleAppendEntriesResponse_ok:
  assumes ok: "raft_ok rf" and ev: "event_ok (EvAppendReply peer request response) rf"
  shows "\<exists>rf' eff. handleAppendEntriesResponse peer request response rf = Some (rf', eff) \<and> raft_ok rf'"
proof (cases "state rf = StateLeader \<and> currentTerm rf = ae_Term request")
  case False
  then show ?thesis using ok by (auto simp: handleAppendEntriesResponse_def)
next
  case True
  let ?n = "nextIndex rf"
  have wf: "raft_wf rf" "peer < npeers rf" "length (matchIndex rf) = npeers rf" "length ?n = npeers rf"
    using ok ev by (auto simp: raft_ok_defs)
  have upd: "raft_ok (rf\<lparr>nextIndex := ?n[peer := v]\<rparr>)" "raft_ok (rf\<lparr>matchIndex := m, nextIndex := ?n[peer := v]\<rparr>)"
    if "v \<le> lastIndex rf + 1" "length m = npeers rf" for v m
    using that ok wf(2) by (auto simp: raft_ok_defs durable_def nth_list_update)
  have last: "ae_PrevLogIndex request - firstIndex rf < int (length (logs rf))"
    using ev log_wf_last [OF raft_wf_logs [OF wf(1)]] by simp
  obtain r where r: "termScan (logs rf) (firstIndex rf) (aer_ConflictTerm response) (ae_PrevLogIndex request) = Some r"
    "\<forall>k. r = Some k \<longrightarrow> k \<le> ae_PrevLogIndex request"
    using termScan_spec [OF last, of "aer_ConflictTerm response"] by (fastforce split: option.splits)
  show ?thesis
  proof (cases "aer_Success response")
    case True
    then show ?thesis
      using \<open>state rf = StateLeader \<and> _\<close> wf ev advanceCommitIndexForLeader_ok [OF upd(2)]
      by (auto simp: handleAppendEntriesResponse_def Let_def)
  next
    case False
    have prev: "ae_PrevLogIndex request \<le> lastIndex rf" "aer_ConflictIndex response \<le> lastIndex rf + 1"
      using ev by simp_all
    have ok1: "raft_ok (rf\<lparr>nextIndex := ?n[peer := aer_ConflictIndex response]\<rparr>)"
      "r = Some k \<Longrightarrow> raft_ok (rf\<lparr>nextIndex := ?n[peer := k + 1]\<rparr>)" for k
      using upd(1) wf(3) prev r(2) by auto
    have step: "raft_ok (persist (become StateFollower rf\<lparr>currentTerm := t, votedFor := -1\<rparr>))" for t
      using ok by (auto simp: raft_ok_defs become_def)
    show ?thesis
      unfolding handleAppendEntriesResponse_def
      using \<open>state rf = StateLeader \<and> _\<close> False wf r(1) ok1 step ok
      by (cases r) (simp_all add: Let_def)
  qed
qed

text \<open>Every event in turn.\<close>

lemma raft_step_ok:
  assumes "raft_ok rf" "event_ok ev rf"
  shows "\<exists>rf'. raft_step ev rf = Some rf' \<and> raft_ok rf'"
proof (cases ev)
  case (EvRequestVote r)
  then show ?thesis using RequestVote_ok [OF assms(1), of r] by auto
next
  case (EvAppendEntries cap r)
  then show ?thesis using AppendEntries_ok [OF assms(1), of cap r] assms(2) by auto
next
  case (EvInstallSnapshot r)
  then show ?thesis using InstallSnapshot_ok [OF assms(1), of r] by auto
next
  case EvElectionTimeout
  then show ?thesis using ticker_election_ok [OF assms(1)] by auto
next
  case EvHeartbeatTimeout
  then show ?thesis using ticker_heartbeat_ok [OF assms(1)] by auto
next
  case (EvVoteReply q r g)
  then show ?thesis using handleRequestVoteResponse_ok [OF assms(1), of q r g] by auto
next
  case (EvAppendReply p q r)
  then show ?thesis using handleAppendEntriesResponse_ok [OF assms(1), of p q r] assms(2) by auto
next
  case (EvSnapshotReply p q r)
  then show ?thesis using handleInstallSnapshotResponse_ok [OF assms(1), of p q r] assms(2) by auto
next
  case (EvStart c)
  then show ?thesis using Start_ok [OF assms(1), of c] by auto
next
  case (EvSnapshot cap i d)
  then show ?thesis using Snapshot_ok [OF assms(1), of i cap d] assms(2) by auto
next
  case (EvCondInstall cap t i d)
  then show ?thesis using CondInstallSnapshot_ok [OF assms(1), of cap t i d] by auto
next
  case (EvApplied ci)
  then show ?thesis using applier_finish_ok [OF assms(1), of ci] assms(2) by auto
next
  case EvKill
  then show ?thesis using Kill_ok [OF assms(1)] by auto
qed

end
