(* ===== verification/Raft_Votes.thy ===== *)
theory Raft_Votes
  imports Raft_Inv
begin

text \<open>
  What a step of a peer does to its term, its vote, its role and its persistent state,
  for every event and without any assumption on the messages it carries.  The crash and
  restart of a peer (\<^verbatim>\<open>Make\<close> on the persister it left behind) is here too.
\<close>

section \<open>Frames of the building blocks\<close>

lemma resetIndexes_frame:
  "resetIndexes is v rf = Some rf' \<Longrightarrow> \<exists>m n. rf' = rf\<lparr>matchIndex := m, nextIndex := n\<rparr>"
proof (induction "is" arbitrary: rf)
  case Nil
  then show ?case by (metis Raft.surjective Raft.update_convs(11,12) option.inject resetIndexes.simps(1))
next
  case (Cons i "is")
  then show ?case by (fastforce simp: bind_Some_iff)
qed

lemma ChangeState_frame:
  assumes "ChangeState st rf = Some rf'"
  shows "state rf' = st \<and> currentTerm rf' = currentTerm rf \<and> votedFor rf' = votedFor rf \<and>
    logs rf' = logs rf \<and> persister rf' = persister rf \<and> me rf' = me rf \<and> npeers rf' = npeers rf \<and>
    commitIndex rf' = commitIndex rf \<and> lastApplied rf' = lastApplied rf"
  using assms
  by (auto simp: ChangeState_def Let_def bind_Some_iff split: if_splits NodeState.splits
      dest!: resetIndexes_frame)

lemma advanceCommitIndexForLeader_frame:
  assumes "advanceCommitIndexForLeader rf = Some (rf', eff)"
  shows "state rf' = state rf \<and> currentTerm rf' = currentTerm rf \<and> votedFor rf' = votedFor rf \<and>
    logs rf' = logs rf \<and> persister rf' = persister rf \<and> me rf' = me rf \<and> npeers rf' = npeers rf \<and>
    commitIndex rf \<le> commitIndex rf' \<and> lastApplied rf' = lastApplied rf \<and> matchIndex rf' = matchIndex rf"
  using assms
  by (auto simp: advanceCommitIndexForLeader_def Let_def bind_Some_iff split: if_splits)

lemma advanceCommitIndexForFollower_frame:
  assumes "advanceCommitIndexForFollower lc rf = Some (rf', eff)"
  shows "state rf' = state rf \<and> currentTerm rf' = currentTerm rf \<and> votedFor rf' = votedFor rf \<and>
    logs rf' = logs rf \<and> persister rf' = persister rf \<and> me rf' = me rf \<and> npeers rf' = npeers rf \<and>
    commitIndex rf \<le> commitIndex rf'"
  using assms
  by (auto simp: advanceCommitIndexForFollower_def Let_def bind_Some_iff split: if_splits)

lemma AppendEntries_body_follower:
  assumes "\<not> ae_Term request < currentTerm rf" "AppendEntries_body cap request rf = Some (rf', resp, eff)"
  shows "rf' = toFollower (ae_Term request) rf \<or>
    (\<exists>lg. advanceCommitIndexForFollower (ae_LeaderCommit request)
            ((toFollower (ae_Term request) rf)\<lparr>logs := lg\<rparr>) = Some (rf', eff))"
proof -
  define rf3 where "rf3 = toFollower (ae_Term request) rf"
  have fold: "(become StateFollower (if ae_Term request > currentTerm rf
      then rf\<lparr>currentTerm := ae_Term request, votedFor := -1\<rparr> else rf))\<lparr>electionTimer := True\<rparr> = rf3"
    by (simp add: rf3_def toFollower_def)
  have "rf' = rf3 \<or> (\<exists>lg. advanceCommitIndexForFollower (ae_LeaderCommit request) (rf3\<lparr>logs := lg\<rparr>) = Some (rf', eff))"
    using assms unfolding AppendEntries_body_def Let_def ChangeState_follower bind.bind_lunit fold
    by (auto simp: bind_Some_iff split: if_splits)
  then show ?thesis by (simp add: rf3_def)
qed

lemma AppendEntries_body_frame:
  assumes "AppendEntries_body cap request rf = Some (rf', resp, eff)"
  shows "me rf' = me rf \<and> npeers rf' = npeers rf \<and> commitIndex rf \<le> commitIndex rf' \<and>
    (if ae_Term request < currentTerm rf then rf' = rf
     else state rf' = StateFollower \<and> currentTerm rf' = ae_Term request \<and>
       votedFor rf' = (if ae_Term request > currentTerm rf then -1 else votedFor rf))"
proof -
  consider "ae_Term request < currentTerm rf" "rf' = rf"
    | "\<not> ae_Term request < currentTerm rf" "rf' = toFollower (ae_Term request) rf"
    | lg where "\<not> ae_Term request < currentTerm rf" "advanceCommitIndexForFollower (ae_LeaderCommit request)
        ((toFollower (ae_Term request) rf)\<lparr>logs := lg\<rparr>) = Some (rf', eff)"
    using assms AppendEntries_body_follower by (fastforce simp: AppendEntries_body_def)
  then show ?thesis
    by cases (auto dest!: advanceCommitIndexForFollower_frame)
qed

section \<open>Terms and votes\<close>

text \<open>
  The three ways in which a step may treat term, vote and role: a later term makes the
  peer a follower; within the term the vote stays and the role stays or falls back.
\<close>

definition quiet_step :: "('c, 's) Raft \<Rightarrow> ('c, 's) Raft \<Rightarrow> bool" where
  "quiet_step rf rf' \<longleftrightarrow> me rf' = me rf \<and> npeers rf' = npeers rf \<and>
     (currentTerm rf < currentTerm rf' \<and> state rf' = StateFollower \<or>
      currentTerm rf' = currentTerm rf \<and> votedFor rf' = votedFor rf \<and>
        (state rf' = state rf \<or> state rf' = StateFollower))"

fun vote_event :: "('c, 's) event \<Rightarrow> bool" where
  "vote_event (EvRequestVote _) = True"
| "vote_event EvElectionTimeout = True"
| "vote_event (EvVoteReply _ _ _) = True"
| "vote_event _ = False"

lemma AppendEntries_quiet:
  "AppendEntries cap request rf = Some (rf', resp, eff) \<Longrightarrow> quiet_step rf rf' \<and> durable rf'"
  by (auto simp: AppendEntries_def bind_Some_iff quiet_step_def dest!: AppendEntries_body_frame split: if_splits)

lemma InstallSnapshot_quiet:
  "InstallSnapshot request rf = Some (rf', resp, eff) \<Longrightarrow> durable rf \<Longrightarrow> quiet_step rf rf' \<and> durable rf'"
  by (auto simp: InstallSnapshot_def Let_def quiet_step_def durable_def split: if_splits)

text \<open>The branch that only moves \<^verbatim>\<open>nextIndex\<close>.\<close>

lemma handleAppendEntriesResponse_backoff:
  assumes h: "handleAppendEntriesResponse peer request response rf = Some (rf', eff)"
    and f: "\<not> aer_Success response" "\<not> aer_Term response > currentTerm rf"
  shows "rf' = rf \<or> (\<exists>n. rf' = rf\<lparr>nextIndex := n\<rparr>)"
proof (cases "state rf = StateLeader \<and> currentTerm rf = ae_Term request \<and> aer_Term response = currentTerm rf")
  case True
  obtain n where n: "go_store (nextIndex rf) (int peer) (aer_ConflictIndex response) = Some n"
    using h f True by (cases "go_store (nextIndex rf) (int peer) (aer_ConflictIndex response)")
      (simp_all add: handleAppendEntriesResponse_def)
  show ?thesis
  proof (cases "aer_ConflictTerm response = -1")
    case False
    obtain d r where d: "getFirstLog (rf\<lparr>nextIndex := n\<rparr>) = Some d"
      "termScan (logs rf) (e_Index d) (aer_ConflictTerm response) (ae_PrevLogIndex request) = Some r"
      using h f True n False by (simp add: handleAppendEntriesResponse_def bind_Some_iff Let_def) blast
    then show ?thesis
      using h f True n False
      by (cases r; cases "go_store n (int peer) (the r + 1)") (auto simp add: handleAppendEntriesResponse_def)
  qed (use h f True n in \<open>auto simp: handleAppendEntriesResponse_def\<close>)
next
  case False
  then show ?thesis using h f by (auto simp: handleAppendEntriesResponse_def split: if_splits)
qed

lemma handleAppendEntriesResponse_quiet:
  assumes h: "handleAppendEntriesResponse peer request response rf = Some (rf', eff)" and d: "durable rf"
  shows "quiet_step rf rf' \<and> durable rf'"
proof (cases "state rf = StateLeader \<and> currentTerm rf = ae_Term request \<and>
    (aer_Success response \<or> aer_Term response > currentTerm rf)")
  case True
  show ?thesis
  proof (cases "aer_Success response")
    case True
    then show ?thesis
      using h d \<open>state rf = StateLeader \<and> _\<close> unfolding handleAppendEntriesResponse_def Let_def
      by (auto simp: bind_Some_iff quiet_step_def durable_def dest!: advanceCommitIndexForLeader_frame)
  next
    case False
    then show ?thesis
      using h d \<open>state rf = StateLeader \<and> _\<close> unfolding handleAppendEntriesResponse_def
      by (auto simp: quiet_step_def)
  qed
next
  case False
  then have "rf' = rf \<or> \<not> aer_Success response \<and> \<not> aer_Term response > currentTerm rf"
    using h by (auto simp: handleAppendEntriesResponse_def)
  then show ?thesis
    using d handleAppendEntriesResponse_backoff [OF h] by (auto simp: durable_def quiet_step_def)
qed

lemma handleInstallSnapshotResponse_quiet:
  "handleInstallSnapshotResponse peer request response rf = Some rf' \<Longrightarrow> durable rf \<Longrightarrow>
     quiet_step rf rf' \<and> durable rf'"
  by (auto simp: handleInstallSnapshotResponse_def bind_Some_iff quiet_step_def durable_def split: if_splits)

lemma Start_quiet:
  "Start command rf = Some (rf', r, eff) \<Longrightarrow> durable rf \<Longrightarrow> quiet_step rf rf' \<and> durable rf'"
  by (auto simp: Start_def appendNewEntry_def Let_def bind_Some_iff quiet_step_def split: if_splits)

lemma Snapshot_quiet:
  "Snapshot cap i snap rf = Some rf' \<Longrightarrow> durable rf \<Longrightarrow> quiet_step rf rf' \<and> durable rf'"
  by (auto simp: Snapshot_def Let_def bind_Some_iff quiet_step_def durable_def split: if_splits)

lemma CondInstallSnapshot_quiet:
  "CondInstallSnapshot cap t i snap rf = Some (rf', b) \<Longrightarrow> durable rf \<Longrightarrow> quiet_step rf rf' \<and> durable rf'"
  by (auto simp: CondInstallSnapshot_def Let_def bind_Some_iff quiet_step_def durable_def split: if_splits)

lemma raft_step_quiet:
  assumes "raft_step ev rf = Some rf'" "\<not> vote_event ev" "durable rf"
  shows "quiet_step rf rf' \<and> durable rf'"
  using assms
  by (cases ev)
     (auto dest: AppendEntries_quiet InstallSnapshot_quiet handleAppendEntriesResponse_quiet
        handleInstallSnapshotResponse_quiet Start_quiet Snapshot_quiet CondInstallSnapshot_quiet;
      auto simp: quiet_step_def durable_def ticker_heartbeat_def applier_finish_def Raft_Kill_def)+

section \<open>The voting handlers\<close>

lemma RequestVote_vote:
  assumes "RequestVote request rf = Some (rf', resp)"
  shows "durable rf' \<and> me rf' = me rf \<and> npeers rf' = npeers rf \<and>
    (currentTerm rf < currentTerm rf' \<and> state rf' = StateFollower \<or>
     currentTerm rf' = currentTerm rf \<and> state rf' = state rf) \<and>
    (if rvr_VoteGranted resp
     then currentTerm rf' = rv_Term request \<and> votedFor rf' = rv_CandidateId request \<and>
       (currentTerm rf' = currentTerm rf \<longrightarrow> votedFor rf = -1 \<or> votedFor rf = rv_CandidateId request)
     else currentTerm rf' = currentTerm rf \<longrightarrow> votedFor rf' = votedFor rf)"
  using assms by (auto simp: RequestVote_def bind_Some_iff Let_def split: if_splits)

lemma ticker_election_vote:
  assumes "ticker_election rf = Some (rf', g, eff)"
  shows "durable rf' \<and> me rf' = me rf \<and> npeers rf' = npeers rf \<and> currentTerm rf' = currentTerm rf + 1 \<and>
    votedFor rf' = int (me rf) \<and> state rf' = StateCandidate \<and> g = 1 \<and>
    (\<forall>p q. GoRequestVote p q \<in> set eff \<longrightarrow> p < npeers rf \<and> p \<noteq> me rf \<and>
       rv_Term q = currentTerm rf' \<and> rv_CandidateId q = int (me rf))"
  using assms
  by (auto simp: ticker_election_def StartElection_def genRequestVoteRequest_def bind_Some_iff Let_def durable_def)

lemma ticker_election_one_request:
  assumes "ticker_election rf = Some (rf', g, eff)" "GoRequestVote p q \<in> set eff" "GoRequestVote p' q' \<in> set eff"
  shows "q = q'"
  using assms
  by (auto simp: ticker_election_def StartElection_def genRequestVoteRequest_def bind_Some_iff Let_def)

lemma handleRequestVoteResponse_vote:
  assumes "handleRequestVoteResponse request response g rf = Some (rf', g', eff)" "durable rf"
  shows "durable rf' \<and>
    g' = (if currentTerm rf = rv_Term request \<and> state rf = StateCandidate \<and> rvr_VoteGranted response
          then g + 1 else g) \<and>
    (quiet_step rf rf' \<or>
     me rf' = me rf \<and> npeers rf' = npeers rf \<and> currentTerm rf' = currentTerm rf \<and> votedFor rf' = votedFor rf \<and>
     state rf = StateCandidate \<and> currentTerm rf = rv_Term request \<and> rvr_VoteGranted response \<and>
     g' > int (npeers rf) div 2 \<and> state rf' = StateLeader)"
  using assms
  by (auto simp: handleRequestVoteResponse_def bind_Some_iff durable_def quiet_step_def
      dest!: ChangeState_frame split: if_splits)

section \<open>Starting and restarting\<close>

lemma Persister_Copy_id [simp]: "Persister_Copy ps = ps"
  by (simp add: Persister_Copy_def MakePersister_def)

lemma Make_frame:
  assumes "Make n i ps = Some rf"
  shows "restored ps = (currentTerm rf, votedFor rf, logs rf) \<and> persister rf = ps \<and>
    state rf = StateFollower \<and> me rf = i \<and> npeers rf = n \<and> electionTimer rf"
proof -
  have rd: "restored ps = (currentTerm rf1, votedFor rf1, logs rf1) \<and> persister rf1 = ps \<and>
    state rf1 = StateFollower \<and> me rf1 = i \<and> npeers rf1 = n \<and> electionTimer rf1"
    if "readPersist (ReadRaftState ps) rf0 = Some rf1" "persister rf0 = ps" "state rf0 = StateFollower"
      "currentTerm rf0 = 0" "votedFor rf0 = -1" "logs rf0 = [zeroEntry]" "me rf0 = i" "npeers rf0 = n"
      "electionTimer rf0" for rf0 rf1 :: "('a, 'b) Raft"
    using that
    by (auto simp: readPersist_def ReadRaftState_def restored_def Let_def bind_Some_iff
        split: if_splits prod.splits)
  show ?thesis
    using assms unfolding Make_def Let_def
    by (auto simp: bind_Some_iff dest!: rd resetIndexes_frame)
qed

lemma Make_durable: "Make n i ps = Some rf \<Longrightarrow> durable rf"
  using Make_frame by (fastforce simp: durable_def)

lemma Make_exists:
  assumes "i < n" "restored ps = (t, v, lg)" "log_wf lg"
  shows "\<exists>rf. Make n i ps = Some rf \<and> raft_ok rf \<and> commitIndex rf = e_Index (hd lg)"
proof -
  let ?rf = "\<lparr>npeers = n, persister = ps, me = i, dead = False, state = StateFollower,
     currentTerm = t, votedFor = v, logs = lg, commitIndex = e_Index (hd lg), lastApplied = e_Index (hd lg),
     nextIndex = replicate n (e_Index (last lg) + 1), matchIndex = replicate n 0,
     electionTimer = True, heartbeatTimer = True\<rparr>"
  have "lg \<noteq> []" using assms(3) by simp
  then have "Make n i ps = Some ?rf"
    using assms(2)
    by (auto simp: Make_def readPersist_def ReadRaftState_def restored_def Let_def resetIndexes_all
        zeroEntry_def split: if_splits)
  moreover have "raft_ok ?rf"
    using assms log_wf_last [OF assms(3)] by (auto simp: raft_ok_defs durable_def Suc_leI)
  ultimately show ?thesis by auto
qed

lemma raft_ok_durable: "raft_ok rf \<Longrightarrow> restored (persister rf) = (currentTerm rf, votedFor rf, logs rf)"
  by (simp add: raft_ok_def durable_def)

lemma restart_ok:
  assumes "raft_ok rf" "i < n"
  shows "\<exists>rf'. Make n i (Persister_Copy (persister rf)) = Some rf' \<and> raft_ok rf' \<and>
    currentTerm rf' = currentTerm rf \<and> votedFor rf' = votedFor rf \<and> logs rf' = logs rf \<and>
    commitIndex rf' = firstIndex rf"
proof -
  have "log_wf (logs rf)" using assms(1) by (simp add: raft_ok_defs)
  from Make_exists [OF assms(2) raft_ok_durable [OF assms(1)] this]
  obtain rf' where m: "Make n i (persister rf) = Some rf'" "raft_ok rf'" "commitIndex rf' = firstIndex rf" by auto
  then show ?thesis using Make_frame [OF m(1)] raft_ok_durable [OF assms(1)] by auto
qed

end
