(* ===== verification/Raft_Cluster.thy ===== *)
theory Raft_Cluster
  imports Raft_Votes
begin

text \<open>
  A cluster of \<open>n\<close> peers and the network between them, as far as elections go.

  Each \<^verbatim>\<open>RequestVote\<close> call is an object of the network: it is created by the closure of
  \<^verbatim>\<open>StartElection\<close>, may be delivered (the handler runs at the receiver), answered (the
  closure runs at the candidate, at most once, as \<^verbatim>\<open>labrpc\<close> returns once from a call) or
  lost, in any order.  \<open>granted\<close> is the variable \<^verbatim>\<open>grantedVotes\<close> that the goroutines of one
  election share.  Every other event may happen at any peer at any time with an
  arbitrary payload, so nothing is assumed about the rest of the protocol.  A peer may
  crash and restart from its persister, which stops its own calls.

  \<open>voted\<close> and \<open>counted\<close> are history: which votes were ever cast, and which of them a
  candidate has counted.  No step reads them.
\<close>

section \<open>Definitions\<close>

record call =
  c_from :: nat
  c_to :: nat
  c_req :: RequestVoteRequest
  c_reply :: "RequestVoteResponse option"

record ('c, 's) cluster =
  nodes :: "nat \<Rightarrow> ('c, 's) Raft"
  calls :: "call set"
  granted :: "nat \<Rightarrow> int \<Rightarrow> int"
  voted :: "(nat \<times> int \<times> nat) set"
  counted :: "nat \<Rightarrow> int \<Rightarrow> nat set"

definition cluster_init :: "nat \<Rightarrow> ('c, 's) cluster \<Rightarrow> bool" where
  "cluster_init n s \<longleftrightarrow> (\<forall>i<n. Make n i MakePersister = Some (nodes s i)) \<and> calls s = {} \<and> voted s = {} \<and>
     counted s = (\<lambda>i t. {})"

definition voteCalls :: "nat \<Rightarrow> ('c, 's) effect list \<Rightarrow> call set" where
  "voteCalls i eff = {\<lparr>c_from = i, c_to = p, c_req = q, c_reply = None\<rparr> | p q. GoRequestVote p q \<in> set eff}"

definition update2 :: "('a \<Rightarrow> 'b \<Rightarrow> 'v) \<Rightarrow> 'a \<Rightarrow> 'b \<Rightarrow> 'v \<Rightarrow> 'a \<Rightarrow> 'b \<Rightarrow> 'v" where
  "update2 f a b v = f(a := (f a)(b := v))"

inductive cluster_step :: "nat \<Rightarrow> ('c, 's) cluster \<Rightarrow> ('c, 's) cluster \<Rightarrow> bool" for n :: nat where
  timeout: "i < n \<Longrightarrow> ticker_election (nodes s i) = Some (rf', g, eff) \<Longrightarrow>
     cluster_step n s
       (s\<lparr>nodes := (nodes s)(i := rf'), calls := calls s \<union> voteCalls i eff,
          granted := update2 (granted s) i (currentTerm rf') g,
          voted := insert (i, currentTerm rf', i) (voted s),
          counted := update2 (counted s) i (currentTerm rf') {i}\<rparr>)"
| deliver: "c \<in> calls s \<Longrightarrow> c_reply c = None \<Longrightarrow>
     RequestVote (c_req c) (nodes s (c_to c)) = Some (rf', resp) \<Longrightarrow>
     cluster_step n s
       (s\<lparr>nodes := (nodes s)(c_to c := rf'),
          calls := insert (c\<lparr>c_reply := Some resp\<rparr>) (calls s - {c}),
          voted := (if rvr_VoteGranted resp then insert (c_to c, rv_Term (c_req c), c_from c) (voted s)
                    else voted s)\<rparr>)"
| answer: "c \<in> calls s \<Longrightarrow> c_reply c = Some resp \<Longrightarrow> i = c_from c \<Longrightarrow> t = rv_Term (c_req c) \<Longrightarrow>
     handleRequestVoteResponse (c_req c) resp (granted s i t) (nodes s i) = Some (rf', g', eff) \<Longrightarrow>
     cluster_step n s
       (s\<lparr>nodes := (nodes s)(i := rf'), calls := calls s - {c}, granted := update2 (granted s) i t g',
          counted := (if g' = granted s i t then counted s
                      else update2 (counted s) i t (insert (c_to c) (counted s i t)))\<rparr>)"
| lose: "c \<in> calls s \<Longrightarrow> cluster_step n s (s\<lparr>calls := calls s - {c}\<rparr>)"
| other: "i < n \<Longrightarrow> \<not> vote_event ev \<Longrightarrow> raft_step ev (nodes s i) = Some rf' \<Longrightarrow>
     cluster_step n s (s\<lparr>nodes := (nodes s)(i := rf')\<rparr>)"
| restart: "i < n \<Longrightarrow> Make n i (Persister_Copy (persister (nodes s i))) = Some rf' \<Longrightarrow>
     cluster_step n s (s\<lparr>nodes := (nodes s)(i := rf'), calls := {c \<in> calls s. c_from c \<noteq> i}\<rparr>)"

inductive_cases cluster_stepE: "cluster_step n s s'"

text \<open>Peers are themselves, and their persister is up to date.\<close>

definition nodes_inv :: "nat \<Rightarrow> ('c, 's) cluster \<Rightarrow> bool" where
  "nodes_inv n s \<longleftrightarrow> (\<forall>i<n. durable (nodes s i) \<and> me (nodes s i) = i \<and> npeers (nodes s i) = n)"

text \<open>A vote of the current term is the one the peer remembers, and there is one per term.\<close>

definition voted_inv :: "nat \<Rightarrow> ('c, 's) cluster \<Rightarrow> bool" where
  "voted_inv n s \<longleftrightarrow>
     (\<forall>v t c. (v, t, c) \<in> voted s \<longrightarrow> v < n \<and>
        (t < currentTerm (nodes s v) \<or> t = currentTerm (nodes s v) \<and> votedFor (nodes s v) = int c)) \<and>
     (\<forall>v t c c'. (v, t, c) \<in> voted s \<longrightarrow> (v, t, c') \<in> voted s \<longrightarrow> c = c')"

text \<open>Calls come from elections of their sender, one per receiver and term.\<close>

definition call_ok :: "nat \<Rightarrow> ('c, 's) cluster \<Rightarrow> call \<Rightarrow> bool" where
  "call_ok n s c \<longleftrightarrow> c_from c < n \<and> c_to c < n \<and> rv_CandidateId (c_req c) = int (c_from c) \<and>
     rv_Term (c_req c) \<le> currentTerm (nodes s (c_from c)) \<and>
     c_to c \<notin> counted s (c_from c) (rv_Term (c_req c)) \<and>
     (\<forall>resp. c_reply c = Some resp \<longrightarrow> rvr_VoteGranted resp \<longrightarrow>
        (c_to c, rv_Term (c_req c), c_from c) \<in> voted s)"

definition call_key :: "call \<Rightarrow> nat \<times> nat \<times> int" where
  "call_key c = (c_from c, c_to c, rv_Term (c_req c))"

definition calls_inv :: "nat \<Rightarrow> ('c, 's) cluster \<Rightarrow> bool" where
  "calls_inv n s \<longleftrightarrow> (\<forall>c\<in>calls s. call_ok n s c) \<and> inj_on call_key (calls s)"

text \<open>A candidate has counted real votes, and a leader has a majority of them.\<close>

definition counted_inv :: "nat \<Rightarrow> ('c, 's) cluster \<Rightarrow> bool" where
  "counted_inv n s \<longleftrightarrow>
     (\<forall>i<n. \<forall>t. \<forall>v\<in>counted s i t. (v, t, i) \<in> voted s) \<and>
     (\<forall>i<n. state (nodes s i) = StateCandidate \<longrightarrow>
        granted s i (currentTerm (nodes s i)) = int (card (counted s i (currentTerm (nodes s i))))) \<and>
     (\<forall>i<n. state (nodes s i) = StateLeader \<longrightarrow>
        n div 2 < card {v. (v, currentTerm (nodes s i), i) \<in> voted s})"

definition cluster_inv :: "nat \<Rightarrow> ('c, 's) cluster \<Rightarrow> bool" where
  "cluster_inv n s \<longleftrightarrow> nodes_inv n s \<and> voted_inv n s \<and> calls_inv n s \<and> counted_inv n s"

lemmas cluster_inv_defs = cluster_inv_def nodes_inv_def voted_inv_def calls_inv_def counted_inv_def call_ok_def

section \<open>Every step keeps the invariant\<close>

lemma update2_apply: "update2 f a b v x y = (if x = a \<and> y = b then v else f x y)"
  by (simp add: update2_def)

lemma voters_finite: "voted_inv n s \<Longrightarrow> finite {v. (v, t, i) \<in> voted s}"
  by (rule finite_subset [of _ "{..<n}"]) (auto simp: voted_inv_def)

lemma counted_finite: "voted_inv n s \<Longrightarrow> counted_inv n s \<Longrightarrow> i < n \<Longrightarrow> finite (counted s i t)"
  by (rule finite_subset [OF _ voters_finite [of n s t i]]) (auto simp: counted_inv_def)

text \<open>
  A step that leaves calls, votes and counts alone and treats term, vote and role of one
  peer as \<open>quiet_step\<close> says.
\<close>

lemma quiet_node_inv:
  assumes inv: "cluster_inv n s" and i: "i < n" and q: "quiet_step (nodes s i) rf'" "durable rf'"
  shows "cluster_inv n (s\<lparr>nodes := (nodes s)(i := rf')\<rparr>)"
proof -
  have t: "currentTerm (nodes s i) \<le> currentTerm rf'" using q(1) by (auto simp: quiet_step_def)
  have "nodes_inv n (s\<lparr>nodes := (nodes s)(i := rf')\<rparr>)"
    using inv q by (auto simp: cluster_inv_def nodes_inv_def quiet_step_def)
  moreover have "voted_inv n (s\<lparr>nodes := (nodes s)(i := rf')\<rparr>)"
    using inv q(1) unfolding cluster_inv_def voted_inv_def quiet_step_def by (fastforce split: if_splits)
  moreover have "calls_inv n (s\<lparr>nodes := (nodes s)(i := rf')\<rparr>)"
    using inv t unfolding cluster_inv_def calls_inv_def call_ok_def by (auto dest: bspec)
  moreover have "counted_inv n (s\<lparr>nodes := (nodes s)(i := rf')\<rparr>)"
    using inv i q(1) unfolding cluster_inv_def counted_inv_def quiet_step_def by auto
  ultimately show ?thesis by (simp add: cluster_inv_def)
qed

text \<open>Fewer calls never hurt.\<close>

lemma fewer_calls_inv:
  assumes inv: "cluster_inv n s" and sub: "C \<subseteq> calls s"
  shows "cluster_inv n (s\<lparr>calls := C\<rparr>)"
proof -
  have "calls_inv n (s\<lparr>calls := C\<rparr>)"
    using inv sub by (auto simp: cluster_inv_def calls_inv_def call_ok_def intro: inj_on_subset)
  moreover have "nodes_inv n (s\<lparr>calls := C\<rparr>) = nodes_inv n s" "voted_inv n (s\<lparr>calls := C\<rparr>) = voted_inv n s"
    "counted_inv n (s\<lparr>calls := C\<rparr>) = counted_inv n s"
    by (simp_all add: nodes_inv_def voted_inv_def counted_inv_def)
  ultimately show ?thesis using inv by (simp add: cluster_inv_def)
qed

lemma restart_inv:
  assumes inv: "cluster_inv n s" and i: "i < n" and m: "Make n i (persister (nodes s i)) = Some rf'"
  shows "cluster_inv n (s\<lparr>nodes := (nodes s)(i := rf'), calls := {c \<in> calls s. c_from c \<noteq> i}\<rparr>)"
proof -
  have "restored (persister (nodes s i)) = (currentTerm (nodes s i), votedFor (nodes s i), logs (nodes s i))"
    using inv i by (simp add: cluster_inv_def nodes_inv_def durable_def)
  then have "quiet_step (nodes s i) rf'"
    using Make_frame [OF m] inv i by (auto simp: quiet_step_def cluster_inv_def nodes_inv_def)
  then have "cluster_inv n (s\<lparr>nodes := (nodes s)(i := rf')\<rparr>)"
    using inv i Make_durable [OF m] by (intro quiet_node_inv)
  then have "cluster_inv n (s\<lparr>nodes := (nodes s)(i := rf'), calls := {c \<in> calls s. c_from c \<noteq> i}\<rparr>)"
    using fewer_calls_inv [of n "s\<lparr>nodes := (nodes s)(i := rf')\<rparr>" "{c \<in> calls s. c_from c \<noteq> i}"] by auto
  then show ?thesis .
qed

text \<open>More votes: the history only grows.\<close>

lemma voters_mono:
  assumes "voted_inv n s'" "voted s \<subseteq> voted s'"
  shows "card {v. (v, t, i) \<in> voted s} \<le> card {v. (v, t, i) \<in> voted s'}"
  using assms(2) by (intro card_mono voters_finite [OF assms(1)]) auto

lemma voted_inv_mono:
  assumes "voted_inv n s" "voted s' = voted s"
    and "\<And>w. currentTerm (nodes s w) < currentTerm (nodes s' w) \<or>
       currentTerm (nodes s' w) = currentTerm (nodes s w) \<and> votedFor (nodes s' w) = votedFor (nodes s w)"
  shows "voted_inv n s'"
  unfolding voted_inv_def assms(2)
proof (intro conjI allI impI)
  fix v t c assume "(v, t, c) \<in> voted s"
  then have "v < n \<and> (t < currentTerm (nodes s v) \<or> t = currentTerm (nodes s v) \<and> votedFor (nodes s v) = int c)"
    using assms(1) unfolding voted_inv_def by blast
  then show "v < n" "t < currentTerm (nodes s' v) \<or> t = currentTerm (nodes s' v) \<and> votedFor (nodes s' v) = int c"
    using assms(3) [of v] by auto
next
  fix v t c c' assume "(v, t, c) \<in> voted s" "(v, t, c') \<in> voted s"
  then show "c = c'" using assms(1) unfolding voted_inv_def by blast
qed

lemma timeout_inv:
  assumes inv: "cluster_inv n s" and i: "i < n" and tick: "ticker_election (nodes s i) = Some (rf', g, eff)"
  defines "s' \<equiv> s\<lparr>nodes := (nodes s)(i := rf'), calls := calls s \<union> voteCalls i eff,
          granted := update2 (granted s) i (currentTerm rf') g,
          voted := insert (i, currentTerm rf', i) (voted s),
          counted := update2 (counted s) i (currentTerm rf') {i}\<rparr>"
  shows "cluster_inv n s'"
proof -
  have iv: "nodes_inv n s" "voted_inv n s" "calls_inv n s" "counted_inv n s"
    using inv by (auto simp: cluster_inv_def)
  have mei: "me (nodes s i) = i" "npeers (nodes s i) = n" using iv(1) i by (auto simp: nodes_inv_def)
  have tv: "durable rf'" "me rf' = i" "npeers rf' = n" "currentTerm rf' = currentTerm (nodes s i) + 1"
    "votedFor rf' = int i" "state rf' = StateCandidate" "g = 1"
    "\<forall>p q. GoRequestVote p q \<in> set eff \<longrightarrow> p < n \<and> p \<noteq> i \<and> rv_Term q = currentTerm rf' \<and> rv_CandidateId q = int i"
    using ticker_election_vote [OF tick] mei by auto
  have new: "c \<in> voteCalls i eff \<Longrightarrow> c_from c = i \<and> c_to c < n \<and> c_to c \<noteq> i \<and> c_reply c = None \<and>
      rv_Term (c_req c) = currentTerm rf' \<and> rv_CandidateId (c_req c) = int i" for c
    using tv by (fastforce simp: voteCalls_def)
  have new_unique: "c \<in> voteCalls i eff \<Longrightarrow> c' \<in> voteCalls i eff \<Longrightarrow> c_to c = c_to c' \<Longrightarrow> c = c'" for c c'
    using ticker_election_one_request [OF tick] by (auto simp: voteCalls_def)
  have old: "c \<in> calls s \<Longrightarrow> c_from c = i \<Longrightarrow> rv_Term (c_req c) < currentTerm rf'" for c
    using iv(3) tv by (auto simp: calls_inv_def call_ok_def dest!: bspec)
  have oldv: "(i, t, c) \<in> voted s \<Longrightarrow> t < currentTerm rf'" for t c
    using iv(2) tv by (fastforce simp: voted_inv_def)
  have "nodes_inv n s'" using iv(1) tv by (auto simp: nodes_inv_def s'_def)
  moreover have v: "voted_inv n s'"
    using iv(2) tv i oldv unfolding voted_inv_def s'_def by (fastforce split: if_splits)
  moreover have "calls_inv n s'"
    unfolding calls_inv_def
  proof
    have "inj_on call_key (voteCalls i eff)"
      using new_unique by (auto simp: inj_on_def call_key_def)
    moreover have "call_key ` calls s \<inter> call_key ` voteCalls i eff = {}"
      using new old by (fastforce simp: call_key_def)
    ultimately show "inj_on call_key (calls s')"
      using iv(3) by (auto simp: s'_def calls_inv_def inj_on_Un)
  next
    show "\<forall>c\<in>calls s'. call_ok n s' c"
    proof
      fix c assume "c \<in> calls s'"
      then consider "c \<in> voteCalls i eff" | "c \<in> calls s" by (auto simp: s'_def)
      then show "call_ok n s' c"
      proof cases
        case 1
        then show ?thesis using new [OF 1] i by (simp add: s'_def call_ok_def update2_apply)
      next
        case 2
        then have "call_ok n s c" using iv(3) by (simp add: calls_inv_def)
        then show ?thesis using old [OF 2] by (auto simp: s'_def call_ok_def update2_apply)
      qed
    qed
  qed
  moreover have "counted_inv n s'"
    unfolding counted_inv_def
  proof (intro conjI allI impI)
    fix j assume "j < n" "state (nodes s' j) = StateLeader"
    then have "n div 2 < card {v. (v, currentTerm (nodes s j), j) \<in> voted s}" "currentTerm (nodes s' j) = currentTerm (nodes s j)"
      using iv(4) tv by (auto simp: s'_def counted_inv_def split: if_splits)
    moreover have "voted s \<subseteq> voted s'" by (auto simp: s'_def)
    ultimately show "n div 2 < card {v. (v, currentTerm (nodes s' j), j) \<in> voted s'}"
      using voters_mono [OF v, of s "currentTerm (nodes s j)" j] by simp
  qed (use iv(4) tv i in \<open>auto simp: s'_def counted_inv_def update2_apply\<close>)
  ultimately show ?thesis by (simp add: cluster_inv_def)
qed

lemma deliver_inv:
  assumes inv: "cluster_inv n s" and c: "c \<in> calls s" "c_reply c = None"
    and rv: "RequestVote (c_req c) (nodes s (c_to c)) = Some (rf', resp)"
  defines "s' \<equiv> s\<lparr>nodes := (nodes s)(c_to c := rf'),
          calls := insert (c\<lparr>c_reply := Some resp\<rparr>) (calls s - {c}),
          voted := (if rvr_VoteGranted resp then insert (c_to c, rv_Term (c_req c), c_from c) (voted s)
                    else voted s)\<rparr>"
  shows "cluster_inv n s'"
proof -
  have iv: "nodes_inv n s" "voted_inv n s" "calls_inv n s" "counted_inv n s"
    using inv by (auto simp: cluster_inv_def)
  have ci: "c_from c < n" "c_to c < n" "rv_CandidateId (c_req c) = int (c_from c)"
    using iv(3) c(1) by (auto simp: calls_inv_def call_ok_def)
  note vote = RequestVote_vote [OF rv, unfolded ci(3)]
  have mono: "currentTerm (nodes s (c_to c)) \<le> currentTerm rf'" using vote by auto
  have keep: "votedFor rf' = int d" if "currentTerm rf' = currentTerm (nodes s (c_to c))"
      "votedFor (nodes s (c_to c)) = int d" for d
    using vote that by (cases "rvr_VoteGranted resp") auto
  have old: "rvr_VoteGranted resp \<Longrightarrow> (c_to c, rv_Term (c_req c), d) \<in> voted s \<Longrightarrow> d = c_from c" for d
  proof -
    assume g: "rvr_VoteGranted resp" and d: "(c_to c, rv_Term (c_req c), d) \<in> voted s"
    from iv(2) d have "rv_Term (c_req c) < currentTerm (nodes s (c_to c)) \<or>
        rv_Term (c_req c) = currentTerm (nodes s (c_to c)) \<and> votedFor (nodes s (c_to c)) = int d"
      unfolding voted_inv_def by blast
    then show "d = c_from c" using vote g mono by auto
  qed
  have "nodes_inv n s'" using iv(1) vote ci by (auto simp: nodes_inv_def s'_def)
  moreover have v: "voted_inv n s'"
    unfolding voted_inv_def
  proof (intro conjI allI impI)
    fix w t d assume "(w, t, d) \<in> voted s'"
    then consider "(w, t, d) \<in> voted s" | "rvr_VoteGranted resp" "w = c_to c" "t = rv_Term (c_req c)" "d = c_from c"
      by (auto simp: s'_def split: if_splits)
    then have "w < n \<and> (t < currentTerm (nodes s' w) \<or> t = currentTerm (nodes s' w) \<and> votedFor (nodes s' w) = int d)"
    proof cases
      case 1
      then have "w < n \<and> (t < currentTerm (nodes s w) \<or> t = currentTerm (nodes s w) \<and> votedFor (nodes s w) = int d)"
        using iv(2) unfolding voted_inv_def by blast
      then show ?thesis using mono keep [of d] by (cases "w = c_to c") (auto simp: s'_def)
    qed (use vote ci in \<open>auto simp: s'_def\<close>)
    then show "w < n" "t < currentTerm (nodes s' w) \<or> t = currentTerm (nodes s' w) \<and> votedFor (nodes s' w) = int d"
      by auto
  next
    fix w t d d' assume "(w, t, d) \<in> voted s'" "(w, t, d') \<in> voted s'"
    moreover have "(w, t, d) \<in> voted s \<Longrightarrow> (w, t, d') \<in> voted s \<Longrightarrow> d = d'"
      using iv(2) unfolding voted_inv_def by blast
    ultimately show "d = d'" using old [of d] old [of d'] by (auto simp: s'_def split: if_splits)
  qed
  moreover have "calls_inv n s'"
    unfolding calls_inv_def
  proof
    have "call_key (c\<lparr>c_reply := Some resp\<rparr>) = call_key c" by (simp add: call_key_def)
    then show "inj_on call_key (calls s')"
      using iv(3) c(1) by (auto simp: s'_def calls_inv_def inj_on_def)
  next
    show "\<forall>a\<in>calls s'. call_ok n s' a"
    proof
      fix a assume "a \<in> calls s'"
      then consider "a = c\<lparr>c_reply := Some resp\<rparr>" | "a \<in> calls s" by (auto simp: s'_def)
      then show "call_ok n s' a"
      proof cases
        case 1
        then show ?thesis using iv(3) c(1) mono by (auto simp: s'_def calls_inv_def call_ok_def)
      next
        case 2
        then have "call_ok n s a" using iv(3) by (simp add: calls_inv_def)
        then show ?thesis using mono by (auto simp: s'_def call_ok_def)
      qed
    qed
  qed
  moreover have "counted_inv n s'"
    unfolding counted_inv_def
  proof (intro conjI allI impI)
    fix j assume "j < n" "state (nodes s' j) = StateLeader"
    then have "n div 2 < card {v. (v, currentTerm (nodes s j), j) \<in> voted s}" "currentTerm (nodes s' j) = currentTerm (nodes s j)"
      using iv(4) vote by (auto simp: s'_def counted_inv_def split: if_splits)
    moreover have "voted s \<subseteq> voted s'" by (auto simp: s'_def)
    ultimately show "n div 2 < card {v. (v, currentTerm (nodes s' j), j) \<in> voted s'}"
      using voters_mono [OF v, of s "currentTerm (nodes s j)" j] by simp
  qed (use iv(4) vote in \<open>auto simp: s'_def counted_inv_def split: if_splits\<close>)
  ultimately show ?thesis by (simp add: cluster_inv_def)
qed

lemma answer_inv:
  assumes inv: "cluster_inv n s" and c: "c \<in> calls s" "c_reply c = Some resp"
    and it: "i = c_from c" "t = rv_Term (c_req c)"
    and h: "handleRequestVoteResponse (c_req c) resp (granted s i t) (nodes s i) = Some (rf', g', eff)"
  defines "s' \<equiv> s\<lparr>nodes := (nodes s)(i := rf'), calls := calls s - {c}, granted := update2 (granted s) i t g',
          counted := (if g' = granted s i t then counted s
                      else update2 (counted s) i t (insert (c_to c) (counted s i t)))\<rparr>"
  shows "cluster_inv n s'"
proof -
  have iv: "nodes_inv n s" "voted_inv n s" "calls_inv n s" "counted_inv n s"
    using inv by (auto simp: cluster_inv_def)
  have ci: "i < n" "c_to c \<notin> counted s i t"
    "rvr_VoteGranted resp \<Longrightarrow> (c_to c, t, i) \<in> voted s" "t \<le> currentTerm (nodes s i)"
    using iv(3) c it by (auto simp: calls_inv_def call_ok_def)
  have nd: "durable (nodes s i)" "npeers (nodes s i) = n" using iv(1) ci(1) by (auto simp: nodes_inv_def)
  note vote = handleRequestVoteResponse_vote [OF h nd(1), folded it(2), unfolded nd(2)]
  have mono: "currentTerm (nodes s i) \<le> currentTerm rf'" using vote by (auto simp: quiet_step_def)
  have "nodes_inv n s'" using iv(1) vote by (auto simp: nodes_inv_def s'_def quiet_step_def)
  moreover have v: "voted_inv n s'"
    using iv(2) by (rule voted_inv_mono) (use vote in \<open>auto simp: s'_def quiet_step_def\<close>)
  moreover have "calls_inv n s'"
    unfolding calls_inv_def
  proof
    show "inj_on call_key (calls s')" using iv(3) by (auto simp: s'_def calls_inv_def inj_on_def)
    show "\<forall>a\<in>calls s'. call_ok n s' a"
    proof
      fix a assume "a \<in> calls s'"
      then have a: "a \<in> calls s" "a \<noteq> c" by (auto simp: s'_def)
      then have "call_key a \<noteq> call_key c" "call_ok n s a"
        using iv(3) c(1) by (auto simp: calls_inv_def inj_on_def)
      then show "call_ok n s' a" using mono it by (auto simp: s'_def call_ok_def call_key_def update2_apply)
    qed
  qed
  moreover have cnt: "card (insert (c_to c) (counted s i t)) = Suc (card (counted s i t))"
    using counted_finite [OF iv(2,4) ci(1)] ci(2) by simp
  have "counted_inv n s'"
    unfolding counted_inv_def
  proof (intro conjI allI impI)
    fix j u assume "j < n"
    then show "\<forall>v\<in>counted s' j u. (v, u, j) \<in> voted s'"
      using iv(4) vote ci(3) unfolding s'_def counted_inv_def by (auto simp: update2_apply split: if_splits)
  next
    fix j assume j: "j < n" "state (nodes s' j) = StateCandidate"
    then have "state (nodes s j) = StateCandidate" "currentTerm (nodes s' j) = currentTerm (nodes s j)"
      using vote by (auto simp: s'_def quiet_step_def split: if_splits)
    moreover from this have "granted s j (currentTerm (nodes s j)) = int (card (counted s j (currentTerm (nodes s j))))"
      using iv(4) j unfolding counted_inv_def by blast
    ultimately show "granted s' j (currentTerm (nodes s' j)) = int (card (counted s' j (currentTerm (nodes s' j))))"
      using vote cnt by (auto simp: s'_def update2_apply)
  next
    fix j assume j: "j < n" "state (nodes s' j) = StateLeader"
    show "n div 2 < card {v. (v, currentTerm (nodes s' j), j) \<in> voted s'}"
    proof (cases "state (nodes s j) = StateLeader")
      case True
      then have "currentTerm (nodes s' j) = currentTerm (nodes s j)"
        using j vote by (auto simp: s'_def quiet_step_def split: if_splits)
      then show ?thesis using iv(4) True j by (auto simp: s'_def counted_inv_def)
    next
      case False
      then have l: "j = i" "currentTerm rf' = t" "currentTerm (nodes s i) = t" "state (nodes s i) = StateCandidate"
        "rvr_VoteGranted resp" "g' > int n div 2" "g' = granted s i t + 1"
        using j vote by (auto simp: s'_def quiet_step_def split: if_splits)
      have "granted s i (currentTerm (nodes s i)) = int (card (counted s i (currentTerm (nodes s i))))"
        using iv(4) ci(1) l(4) unfolding counted_inv_def by blast
      then have "n div 2 < card (insert (c_to c) (counted s i t))"
        using l(3,6,7) cnt by (simp add: zdiv_int [symmetric])
      also have "\<dots> \<le> card {v. (v, t, i) \<in> voted s}"
        using iv(4) ci(1,3) l(5) by (intro card_mono voters_finite [OF iv(2)]) (auto simp: counted_inv_def)
      finally show ?thesis using l by (simp add: s'_def)
    qed
  qed
  ultimately show ?thesis by (simp add: cluster_inv_def)
qed

lemma cluster_inv_step: "cluster_inv n s \<Longrightarrow> cluster_step n s s' \<Longrightarrow> cluster_inv n s'"
proof (erule cluster_stepE, goal_cases)
  case (5 i ev rf')
  then show ?case
    using raft_step_quiet [of ev "nodes s i" rf'] quiet_node_inv [of n s i rf']
    by (auto simp: cluster_inv_def nodes_inv_def)
qed (simp_all add: timeout_inv deliver_inv answer_inv fewer_calls_inv restart_inv)

lemma cluster_inv_init: "cluster_init n s \<Longrightarrow> cluster_inv n s"
  using Make_frame Make_durable
  by (fastforce simp: cluster_init_def cluster_inv_defs)

interpretation raft_cluster: transition_invariant "cluster_init n" "cluster_step n" "cluster_inv n"
  for n :: nat
  by unfold_locales (auto intro: cluster_inv_init cluster_inv_step)

end
