(* ===== verification/Raft_Runs.thy ===== *)
theory Raft_Runs
  imports Raft_Cluster
begin

text \<open>
  Runs of a Raft peer, and the lemmas the properties of \<^verbatim>\<open>raft\<close> rest on: the majority rule,
  the requests a leader builds, the branches of \<^verbatim>\<open>AppendEntries\<close> by log index, what a step keeps of
  the committed entries, the applier beside the other goroutines, and a cluster of one peer.
  Each run is a transition system with its invariant.
\<close>

section \<open>Runs of one peer\<close>

definition node_init :: "nat \<Rightarrow> nat \<Rightarrow> ('c, 's) Raft \<Rightarrow> bool" where
  "node_init n i rf \<longleftrightarrow> i < n \<and> Make n i MakePersister = Some rf"

inductive node_step :: "nat \<Rightarrow> nat \<Rightarrow> ('c, 's) Raft \<Rightarrow> ('c, 's) Raft \<Rightarrow> bool" for n i :: nat where
  event: "event_ok ev rf \<Longrightarrow> raft_step ev rf = Some rf' \<Longrightarrow> node_step n i rf rf'"
| restart: "Make n i (Persister_Copy (persister rf)) = Some rf' \<Longrightarrow> node_step n i rf rf'"

definition node_inv :: "nat \<Rightarrow> nat \<Rightarrow> ('c, 's) Raft \<Rightarrow> bool" where
  "node_inv n i rf \<longleftrightarrow> i < n \<and> raft_ok rf"

text \<open>Term and vote from one state to a later one: a vote is kept for the rest of its term.\<close>

definition vote_kept :: "('c, 's) Raft \<Rightarrow> ('c, 's) Raft \<Rightarrow> bool" where
  "vote_kept rf rf' \<longleftrightarrow> currentTerm rf < currentTerm rf' \<or>
     currentTerm rf' = currentTerm rf \<and> (votedFor rf = -1 \<or> votedFor rf' = votedFor rf)"

definition sorted_terms :: "'c Entry list \<Rightarrow> bool" where
  "sorted_terms lg \<longleftrightarrow> sorted (map e_Term lg)"

interpretation raft_node: transition_invariant "node_init n i" "node_step n i" "node_inv n i"
  for n i :: nat
proof
  fix rf :: "('a, 'b) Raft" assume init: "node_init n i rf"
  have "restored (MakePersister :: ('a gob, 'b) Persister) = (0, -1, [zeroEntry])"
    by (simp add: restored_def MakePersister_def)
  then show "node_inv n i rf"
    using init Make_exists [of i n "MakePersister :: ('a gob, 'b) Persister" 0 "-1" "[zeroEntry]"]
    by (auto simp: node_init_def node_inv_def)
next
  fix rf rf' :: "('a, 'b) Raft" assume "node_inv n i rf" "node_step n i rf rf'"
  then show "node_inv n i rf'"
    using raft_step_ok restart_ok by (fastforce simp: node_inv_def elim!: node_step.cases)
qed

lemma raft_step_vote_kept:
  assumes "raft_step ev rf = Some rf'" "durable rf"
  shows "vote_kept rf rf'"
proof (cases "vote_event ev")
  case False
  then show ?thesis using raft_step_quiet [OF assms(1) False assms(2)]
    by (auto simp: quiet_step_def vote_kept_def)
next
  case True
  then show ?thesis
  proof (cases ev)
    case (EvRequestVote q)
    then show ?thesis using assms(1) RequestVote_vote [of q rf rf'] by (auto simp: vote_kept_def split: if_splits)
  next
    case EvElectionTimeout
    then show ?thesis using assms(1) by (auto simp: vote_kept_def dest: ticker_election_vote)
  next
    case (EvVoteReply q r g)
    then show ?thesis using assms
      by (auto simp: vote_kept_def quiet_step_def dest: handleRequestVoteResponse_vote)
  qed auto
qed

lemma vote_kept_refl: "vote_kept rf rf"
  by (simp add: vote_kept_def)

lemma vote_kept_trans: "vote_kept a b \<Longrightarrow> vote_kept b c \<Longrightarrow> vote_kept a c"
  by (auto simp: vote_kept_def)

lemma node_step_vote_kept: "node_inv n i rf \<Longrightarrow> node_step n i rf rf' \<Longrightarrow> vote_kept rf rf'"
  using restart_ok raft_step_vote_kept
  by (fastforce simp: node_inv_def vote_kept_def raft_ok_def elim!: node_step.cases)

section \<open>The majority rule\<close>

lemma majorityIndex_reached:
  assumes "ms \<noteq> []"
  shows "length ms div 2 < card {p. p < length ms \<and> majorityIndex ms \<le> ms ! p}"
    and "majorityIndex ms < c \<Longrightarrow> card {p. p < length ms \<and> c \<le> ms ! p} \<le> length ms div 2"
proof -
  let ?k = "length ms - (length ms div 2 + 1)"
  have k: "?k < length ms" "length ms - ?k = length ms div 2 + 1"
    using assms by (cases ms; simp)+
  have count: "length (filter P (sort ms)) = card {p. p < length ms \<and> P (ms ! p)}" for P
    by (simp add: card_positions_filter length_filter_mset [of "sort ms" ms])
  show "length ms div 2 < card {p. p < length ms \<and> majorityIndex ms \<le> ms ! p}"
    using sorted_count_ge [of "sort ms" ?k] k count [of "(\<le>) (majorityIndex ms)"]
    by (simp add: majorityIndex_def)
  assume c: "majorityIndex ms < c"
  have "Suc ?k \<le> card {p. p < length ms \<and> ms ! p \<le> majorityIndex ms}"
    using sorted_count_le [of "sort ms" ?k] k count [of "\<lambda>x. x \<le> majorityIndex ms"]
    by (simp add: majorityIndex_def)
  moreover have "{p. p < length ms \<and> c \<le> ms ! p} \<subseteq> {..<length ms} - {p. p < length ms \<and> ms ! p \<le> majorityIndex ms}"
    using c by auto
  then have "card {p. p < length ms \<and> c \<le> ms ! p}
      \<le> card ({..<length ms} - {p. p < length ms \<and> ms ! p \<le> majorityIndex ms})"
    by (intro card_mono) auto
  moreover have "card ({..<length ms} - {p. p < length ms \<and> ms ! p \<le> majorityIndex ms})
      = length ms - card {p. p < length ms \<and> ms ! p \<le> majorityIndex ms}"
    by (subst card_Diff_subset) auto
  ultimately show "card {p. p < length ms \<and> c \<le> ms ! p} \<le> length ms div 2" by linarith
qed

section \<open>Requests a leader builds\<close>

lemma genAppendEntriesRequest_shape:
  assumes wf: "raft_wf rf" and g: "genAppendEntriesRequest prev rf = Some req"
  shows "ae_PrevLogIndex req = prev \<and> firstIndex rf \<le> prev \<and> prev \<le> lastIndex rf \<and>
    ae_Term req = currentTerm rf \<and> ae_PrevLogTerm req = e_Term (logs rf ! nat (prev - firstIndex rf)) \<and>
    ae_Entries req = drop (Suc (nat (prev - firstIndex rf))) (logs rf) \<and>
    prev + int (length (ae_Entries req)) = lastIndex rf \<and> ae_LeaderCommit req = commitIndex rf"
proof -
  have len: "lastIndex rf = firstIndex rf + int (length (logs rf)) - 1"
    using log_wf_last [OF raft_wf_logs [OF wf]] .
  have b: "0 \<le> prev - firstIndex rf" "prev - firstIndex rf < int (length (logs rf))"
    using g wf by (auto simp: genAppendEntriesRequest_def Let_def go_elims)
  then have sn: "nat (prev + 1 - firstIndex rf) = Suc (nat (prev - firstIndex rf))" by linarith
  have k: "nat (prev - firstIndex rf) < length (logs rf)" using b by auto
  have l: "int (length (drop (Suc (nat (prev - firstIndex rf))) (logs rf))) = lastIndex rf - prev"
    using k b len by (simp add: of_nat_diff)
  have "req = \<lparr>ae_Term = currentTerm rf, ae_LeaderId = int (me rf), ae_PrevLogIndex = prev,
      ae_PrevLogTerm = e_Term (logs rf ! nat (prev - firstIndex rf)), ae_LeaderCommit = commitIndex rf,
      ae_Entries = drop (Suc (nat (prev - firstIndex rf))) (logs rf)\<rparr>"
    using g wf by (auto simp: genAppendEntriesRequest_def Let_def go_elims sn)
  then show ?thesis using b len l by simp
qed

lemma genAppendEntriesRequest_indices:
  assumes wf: "raft_wf rf" and g: "genAppendEntriesRequest prev rf = Some req"
    and i: "i < length (ae_Entries req)"
  shows "e_Index (ae_Entries req ! i) = prev + 1 + int i"
proof -
  let ?k = "Suc (nat (prev - firstIndex rf))"
  note s = genAppendEntriesRequest_shape [OF wf g]
  have "e_Index (logs rf ! (?k + i)) = firstIndex rf + int (?k + i)"
    using s i by (intro log_wf_nth [OF raft_wf_logs [OF wf]]) simp
  then show ?thesis using s i by simp
qed

section \<open>The log by index\<close>

text \<open>The entry that a log holds at a log index.\<close>

definition entry_at :: "'c Entry list \<Rightarrow> int \<Rightarrow> 'c Entry" where
  "entry_at lg i = lg ! nat (i - e_Index (hd lg))"

lemma entry_at_compact:
  assumes "log_wf lg" "e_Index (hd lg) \<le> i" "i < j" "j \<le> e_Index (last lg)" "e_Index d = i"
  shows "entry_at (compact i d lg) j = entry_at lg j"
proof -
  have "nat (j - i) = Suc (nat (j - i) - 1)" using assms(3) by simp
  moreover have "nat (j - e_Index (hd lg)) = Suc (nat (i - e_Index (hd lg))) + (nat (j - i) - 1)"
    using assms(2,3) by simp
  moreover have "nat (j - e_Index (hd lg)) < length lg"
    using assms by (intro log_wf_bounds) auto
  ultimately show ?thesis
    using assms(5) unfolding entry_at_def compact_def
    by (metis list.sel(1) nth_Cons_Suc nth_drop Suc_leI add_leD1 add_Suc less_imp_le)
qed

text \<open>A successful merge, by index: the part up to \<open>prev\<close> stays, then the request's entries follow.\<close>

lemma mergeEntries_entries:
  assumes wf: "raft_wf rf" and p: "firstIndex rf \<le> prev" "prev \<le> lastIndex rf"
    and idx: "\<forall>i<length es. e_Index (es ! i) = prev + 1 + int i"
    and m: "mergeEntries cap (firstIndex rf) (logs rf) es = Some lg"
  defines "n \<equiv> Suc (nat (prev - firstIndex rf))"
  shows "\<exists>j\<le>length es. n + j \<le> length (logs rf) \<and>
     (\<forall>i<j. e_Term (logs rf ! (n + i)) = e_Term (es ! i)) \<and>
     (j < length es \<longrightarrow> n + j < length (logs rf) \<longrightarrow> e_Term (logs rf ! (n + j)) \<noteq> e_Term (es ! j)) \<and>
     lg = (if j = length es then logs rf else take (n + j) (logs rf) @ drop j es)"
proof -
  have n: "n \<le> length (logs rf)" "\<forall>i<length es. e_Index (es ! i) = firstIndex rf + int n + int i"
    using log_wf_bounds [OF raft_wf_logs [OF wf] p] idx p(1) by (auto simp: n_def)
  show ?thesis using mergeEntries_spec [OF n, of cap] m by fastforce
qed

text \<open>The success branch of the handler.\<close>

lemma AppendEntries_success_result:
  assumes wf: "raft_wf rf" and ae: "AppendEntries cap req rf = Some (rf', resp, eff)" and s: "aer_Success resp"
  obtains lg where
    "\<not> ae_Term req < currentTerm rf" "firstIndex rf \<le> ae_PrevLogIndex req" "ae_PrevLogIndex req \<le> lastIndex rf"
    "e_Term (logs rf ! nat (ae_PrevLogIndex req - firstIndex rf)) = ae_PrevLogTerm req"
    "mergeEntries cap (firstIndex rf) (logs rf) (ae_Entries req) = Some lg" "logs rf' = lg"
    "lg \<noteq> [] \<Longrightarrow> commitIndex rf' = max (commitIndex rf) (min (ae_LeaderCommit req) (e_Index (last lg)))"
    "currentTerm rf' = ae_Term req" "state rf' = StateFollower"
proof (cases "ae_Term req < currentTerm rf")
  case True
  then show ?thesis using ae s by (auto simp: AppendEntries_def AppendEntries_body_def zeroAppendEntriesResponse_def)
next
  case False
  have "max (ae_Term req) (currentTerm rf) = ae_Term req" using False by simp
  with False show ?thesis
    using ae s
    unfolding AppendEntries_def AppendEntries_body_result [OF wf False]
    by (auto simp: bind_Some_iff zeroAppendEntriesResponse_def advanceCommitIndexForFollower_def Let_def getLastLog_def
        split: if_splits intro!: that)
qed

text \<open>The replies with which the handler refuses, branch by branch.\<close>

lemma AppendEntries_refusal_result:
  assumes wf: "raft_wf rf" and t: "\<not> ae_Term req < currentTerm rf"
    and ae: "AppendEntries cap req rf = Some (rf', resp, eff)" and s: "\<not> aer_Success resp"
  shows "logs rf' = logs rf \<and> commitIndex rf' = commitIndex rf \<and>
    (if ae_PrevLogIndex req < firstIndex rf then aer_Term resp = 0
     else aer_Term resp = ae_Term req \<and>
       (if ae_PrevLogIndex req > lastIndex rf
        then aer_ConflictTerm resp = -1 \<and> aer_ConflictIndex resp = lastIndex rf + 1
        else aer_ConflictTerm resp = e_Term (entry_at (logs rf) (ae_PrevLogIndex req)) \<and>
          aer_ConflictTerm resp \<noteq> ae_PrevLogTerm req \<and>
          firstIndex rf - 1 \<le> aer_ConflictIndex resp \<and> aer_ConflictIndex resp < ae_PrevLogIndex req \<and>
          (\<forall>j. aer_ConflictIndex resp < j \<and> j < ae_PrevLogIndex req \<longrightarrow>
             e_Term (entry_at (logs rf) j) = aer_ConflictTerm resp) \<and>
          (firstIndex rf \<le> aer_ConflictIndex resp \<longrightarrow>
             e_Term (entry_at (logs rf) (aer_ConflictIndex resp)) \<noteq> aer_ConflictTerm resp)))"
proof -
  let ?p = "ae_PrevLogIndex req" and ?t = "e_Term (entry_at (logs rf) (ae_PrevLogIndex req))"
  note r = ae [unfolded AppendEntries_def AppendEntries_body_result [OF wf t] entry_at_def [symmetric]]
  consider (before) "?p < firstIndex rf" | (after) "firstIndex rf \<le> ?p" "lastIndex rf < ?p"
    | (inside) "firstIndex rf \<le> ?p" "?p \<le> lastIndex rf" by linarith
  then show ?thesis
  proof cases
    case inside
    then have ne: "?t \<noteq> ae_PrevLogTerm req"
      using r s by (auto simp: bind_Some_iff zeroAppendEntriesResponse_def)
    have "?p - 1 - firstIndex rf < int (length (logs rf))"
      using inside log_wf_last [OF raft_wf_logs [OF wf]] by simp
    then obtain c where c: "conflictScan (logs rf) (firstIndex rf) ?t (?p - 1) = Some c" "c \<le> ?p - 1"
      "firstIndex rf - 1 \<le> ?p - 1 \<longrightarrow> firstIndex rf - 1 \<le> c"
      "\<forall>j. c < j \<and> j \<le> ?p - 1 \<longrightarrow> e_Term (logs rf ! nat (j - firstIndex rf)) = ?t"
      "firstIndex rf \<le> c \<longrightarrow> e_Term (logs rf ! nat (c - firstIndex rf)) \<noteq> ?t"
      using conflictScan_spec by blast
    have "rf' = persist (toFollower (ae_Term req) rf) \<and> aer_Term resp = ae_Term req \<and>
        aer_ConflictTerm resp = ?t \<and> aer_ConflictIndex resp = c"
      using r inside ne c(1) by (auto simp: entry_at_def [symmetric])
    then show ?thesis using inside ne c(2-5) by (simp add: entry_at_def [symmetric])
  qed (use r in \<open>auto simp: zeroAppendEntriesResponse_def\<close>)
qed

text \<open>Where a leader that has been refused goes on.\<close>

lemma handleAppendEntriesResponse_refused:
  assumes wf: "raft_wf rf" and l: "state rf = StateLeader" "currentTerm rf = ae_Term req"
    and req: "ae_PrevLogIndex req \<le> lastIndex rf" and p: "p < npeers rf"
    and r: "\<not> aer_Success resp" "aer_Term resp = currentTerm rf"
    and h: "handleAppendEntriesResponse p req resp rf = Some (rf', eff)"
  shows "\<exists>v. rf' = rf\<lparr>nextIndex := (nextIndex rf)[p := v]\<rparr> \<and>
    (v = aer_ConflictIndex resp \<or>
     firstIndex rf < v \<and> v \<le> ae_PrevLogIndex req + 1 \<and> aer_ConflictTerm resp \<noteq> -1 \<and>
     e_Term (entry_at (logs rf) (v - 1)) = aer_ConflictTerm resp)"
proof -
  have len: "p < length (nextIndex rf)" "p < length (matchIndex rf)" using wf p by (auto simp: raft_wf_def)
  have "ae_PrevLogIndex req - firstIndex rf < int (length (logs rf))"
    using req log_wf_last [OF raft_wf_logs [OF wf]] by simp
  note ts = termScan_spec [OF this, of "aer_ConflictTerm resp"]
  show ?thesis
    using h l r len wf ts
    by (auto simp: handleAppendEntriesResponse_def Let_def entry_at_def bind_Some_iff
        split: if_splits option.splits)
qed

section \<open>Committed entries\<close>

text \<open>A step keeps the committed part of the log that it does not compact.\<close>

definition committed_kept :: "('c, 's) Raft \<Rightarrow> ('c, 's) Raft \<Rightarrow> bool" where
  "committed_kept rf rf' \<longleftrightarrow> commitIndex rf \<le> commitIndex rf' \<and> firstIndex rf \<le> firstIndex rf' \<and>
     (\<forall>i. firstIndex rf' < i \<and> i \<le> commitIndex rf \<longrightarrow> entry_at (logs rf') i = entry_at (logs rf) i)"

lemma committed_kept_same: "logs rf' = logs rf \<Longrightarrow> commitIndex rf \<le> commitIndex rf' \<Longrightarrow> committed_kept rf rf'"
  by (simp add: committed_kept_def)

lemma committed_kept_trans: "committed_kept a b \<Longrightarrow> committed_kept b c \<Longrightarrow> committed_kept a c"
  unfolding committed_kept_def by (smt (verit, best))

lemma handleAppendEntriesResponse_keeps:
  assumes "handleAppendEntriesResponse peer request response rf = Some (rf', eff)"
  shows "logs rf' = logs rf \<and> commitIndex rf \<le> commitIndex rf' \<and> lastApplied rf' = lastApplied rf"
proof (cases "aer_Success response \<or> aer_Term response > currentTerm rf")
  case True
  then show ?thesis using assms
    by (auto simp: handleAppendEntriesResponse_def Let_def bind_Some_iff split: if_splits
        dest!: advanceCommitIndexForLeader_frame)
next
  case False
  then show ?thesis using handleAppendEntriesResponse_backoff [OF assms] by auto
qed

lemma AppendEntries_keeps:
  assumes ok: "raft_ok rf" and ev: "event_ok (EvAppendEntries cap req) rf"
    and ae: "AppendEntries cap req rf = Some (rf', resp, eff)"
  shows "committed_kept rf rf'"
proof (cases "aer_Success resp")
  case False
  have "logs rf' = logs rf \<and> commitIndex rf' = commitIndex rf"
  proof (cases "ae_Term req < currentTerm rf")
    case True
    then show ?thesis using ae by (auto simp: AppendEntries_def AppendEntries_body_def)
  qed (use AppendEntries_refusal_result [of rf req cap rf' resp eff] ok ae False in \<open>auto simp: raft_ok_def\<close>)
  then show ?thesis by (simp add: committed_kept_same)
next
  case True
  have wf: "raft_wf rf" using ok by (simp add: raft_ok_def)
  let ?prev = "ae_PrevLogIndex req" and ?es = "ae_Entries req"
  obtain lg where r: "firstIndex rf \<le> ?prev" "?prev \<le> lastIndex rf"
    "mergeEntries cap (firstIndex rf) (logs rf) ?es = Some lg" "logs rf' = lg"
    "lg \<noteq> [] \<Longrightarrow> commitIndex rf' = max (commitIndex rf) (min (ae_LeaderCommit req) (e_Index (last lg)))"
    by (rule AppendEntries_success_result [OF wf ae True]) blast
  have idx: "\<forall>i<length ?es. e_Index (?es ! i) = ?prev + 1 + int i" using ev by simp
  have lg: "log_wf lg" "hd lg = hd (logs rf)"
    using mergeEntries_wf [OF wf r(1,2) idx, of cap] ev r(3) by auto
  define n where "n = Suc (nat (?prev - firstIndex rf))"
  obtain j where j: "j \<le> length ?es" "n + j \<le> length (logs rf)"
    "j < length ?es \<longrightarrow> n + j < length (logs rf) \<longrightarrow> e_Term (logs rf ! (n + j)) \<noteq> e_Term (?es ! j)"
    "lg = (if j = length ?es then logs rf else take (n + j) (logs rf) @ drop j ?es)"
    using mergeEntries_entries [OF wf r(1,2) idx r(3)] unfolding n_def by blast
  have "entry_at lg i = entry_at (logs rf) i" if i: "firstIndex rf < i" "i \<le> commitIndex rf" for i
  proof (cases "j = length ?es")
    case False
    have "nat (i - firstIndex rf) < n + j"
    proof (rule ccontr)
      assume "\<not> ?thesis"
      then have le: "firstIndex rf + int (n + j) \<le> i" using i(1) by linarith
      have e: "?es ! j \<in> set ?es" "e_Index (?es ! j) = firstIndex rf + int (n + j)"
        using j(1) False idx r(1) by (auto simp: n_def)
      have "n + j < length (logs rf)"
        using le i(2) wf log_wf_last [OF raft_wf_logs [OF wf]] by (simp add: raft_wf_def)
      moreover have "firstIndex rf < firstIndex rf + int (n + j)" by (simp add: n_def)
      then have "e_Term (logs rf ! (n + j)) = e_Term (?es ! j)"
        using ev e le i(2) by (force simp del: of_nat_add)
      ultimately show False using j False by auto
    qed
    then show ?thesis using j(2,4) False lg(2) by (simp add: entry_at_def nth_append)
  qed (use j in auto)
  then show ?thesis using r lg by (auto simp: committed_kept_def)
qed

lemma Start_keeps:
  assumes "raft_ok rf" "Start command rf = Some (rf', r, eff)"
  shows "committed_kept rf rf'"
proof -
  have b: "nat (i - firstIndex rf) < length (logs rf)" if "firstIndex rf < i" "i \<le> commitIndex rf" for i
    using that assms(1) by (intro log_wf_bounds) (auto simp: raft_ok_defs)
  show ?thesis
    using assms b
    by (auto simp: Start_def appendNewEntry_def Let_def bind_Some_iff committed_kept_def entry_at_def nth_append
        raft_ok_defs split: if_splits)
qed

lemma Snapshot_keeps:
  assumes "raft_ok rf" "index \<le> commitIndex rf" "Snapshot cap index snap rf = Some rf'"
  shows "committed_kept rf rf'"
proof (cases "index \<le> firstIndex rf")
  case True
  then show ?thesis using assms by (auto simp: Snapshot_result raft_ok_def intro: committed_kept_same)
next
  case False
  let ?d = "(logs rf ! nat (index - firstIndex rf))\<lparr>e_Command := None\<rparr>"
  have wf: "log_wf (logs rf)" "firstIndex rf \<le> index" "index \<le> lastIndex rf" "commitIndex rf \<le> lastIndex rf"
    using assms False by (auto simp: raft_ok_defs)
  have d: "e_Index ?d = index"
    using log_wf_nth [OF wf(1) log_wf_bounds [OF wf(1-3)]] wf(2) by simp
  have "logs rf' = compact index ?d (logs rf)" "commitIndex rf' = commitIndex rf"
    using assms False by (auto simp: Snapshot_result raft_ok_def Let_def)
  then show ?thesis
    using wf d entry_at_compact [OF wf(1,2)] by (auto simp: committed_kept_def compact_def [of _ _ "logs rf"])
qed

lemma CondInstallSnapshot_keeps:
  assumes "raft_ok rf" "CondInstallSnapshot cap t i snap rf = Some (rf', b)"
  shows "committed_kept rf rf'"
  using assms
  by (auto simp: CondInstallSnapshot_result raft_ok_defs committed_kept_def Let_def compact_def split: if_splits)

lemma raft_step_committed:
  assumes "raft_ok rf" "event_ok ev rf" "raft_step ev rf = Some rf'"
  shows "committed_kept rf rf'"
proof (cases ev)
  case (EvAppendEntries cap req)
  then show ?thesis using assms AppendEntries_keeps [OF assms(1), of cap req] by auto
next
  case (EvAppendReply p q r)
  then show ?thesis using assms(3) by (auto intro!: committed_kept_same dest!: handleAppendEntriesResponse_keeps)
next
  case (EvStart c)
  then show ?thesis using assms Start_keeps by auto
next
  case (EvSnapshot cap i d)
  then show ?thesis using assms Snapshot_keeps by auto
next
  case (EvCondInstall cap t i d)
  then show ?thesis using assms CondInstallSnapshot_keeps by auto
next
  case (EvSnapshotReply p q r)
  then show ?thesis using assms(3)
    by (auto simp: handleInstallSnapshotResponse_def bind_Some_iff intro!: committed_kept_same split: if_splits)
next
  case (EvVoteReply q r g)
  then show ?thesis using assms(3)
    by (auto simp: handleRequestVoteResponse_def bind_Some_iff intro!: committed_kept_same split: if_splits
        dest!: ChangeState_frame)
next
  case (EvRequestVote q)
  then show ?thesis using assms(3)
    by (auto simp: RequestVote_def Let_def bind_Some_iff intro!: committed_kept_same split: if_splits)
next
  case EvElectionTimeout
  then show ?thesis using assms(3)
    by (auto simp: ticker_election_def StartElection_def Let_def bind_Some_iff intro!: committed_kept_same)
next
  case (EvInstallSnapshot q)
  then show ?thesis using assms(3)
    by (auto simp: InstallSnapshot_def Let_def intro!: committed_kept_same split: if_splits)
qed (use assms(3) in \<open>auto simp: ticker_heartbeat_def applier_finish_def Raft_Kill_def intro!: committed_kept_same\<close>)

text \<open>A run of a peer between two crashes.\<close>

definition live_step :: "('c, 's) Raft \<Rightarrow> ('c, 's) Raft \<Rightarrow> bool" where
  "live_step rf rf' \<longleftrightarrow> (\<exists>ev. event_ok ev rf \<and> raft_step ev rf = Some rf')"

interpretation raft_live: transition_invariant raft_ok live_step raft_ok
  using raft_step_ok by unfold_locales (auto simp: live_step_def, fastforce)

lemma live_step_committed: "raft_ok rf \<Longrightarrow> live_step rf rf' \<Longrightarrow> committed_kept rf rf'"
  using raft_step_committed by (auto simp: live_step_def)

section \<open>The applier\<close>

text \<open>
  The applier runs beside the other goroutines: \<open>pend\<close> is the commit index it read when it
  copied the entries it is sending now.  The service takes a snapshot at an index it has
  been sent, so not beyond \<^verbatim>\<open>lastApplied\<close> or the batch under way.
\<close>

inductive app_step :: "('c, 's) Raft \<times> int option \<Rightarrow> ('c, 's) Raft \<times> int option \<Rightarrow> bool" where
  collect: "applier_ready rf \<Longrightarrow> applier_collect rf = Some (ci, msgs) \<Longrightarrow> app_step (rf, None) (rf, Some ci)"
| finish: "app_step (rf, Some ci) (applier_finish ci rf, None)"
| event: "event_ok ev rf \<Longrightarrow> raft_step ev rf = Some rf' \<Longrightarrow> (\<And>ci. ev \<noteq> EvApplied ci) \<Longrightarrow>
     (\<And>cap i d. ev = EvSnapshot cap i d \<Longrightarrow> i \<le> lastApplied rf \<or> (\<exists>ci. pend = Some ci \<and> i \<le> ci)) \<Longrightarrow>
     app_step (rf, pend) (rf', pend)"

inductive_cases app_stepE: "app_step s s'"

definition app_init :: "('c, 's) Raft \<times> int option \<Rightarrow> bool" where
  "app_init s \<longleftrightarrow> raft_ok (fst s) \<and> firstIndex (fst s) \<le> lastApplied (fst s) \<and> snd s = None"

definition app_inv :: "('c, 's) Raft \<times> int option \<Rightarrow> bool" where
  "app_inv s \<longleftrightarrow> raft_ok (fst s) \<and>
     (case snd s of None \<Rightarrow> firstIndex (fst s) \<le> lastApplied (fst s)
      | Some ci \<Rightarrow> ci \<le> commitIndex (fst s) \<and> firstIndex (fst s) \<le> max (lastApplied (fst s)) ci)"

definition applied_kept :: "('c, 's) Raft \<Rightarrow> ('c, 's) Raft \<Rightarrow> bool" where
  "applied_kept rf rf' \<longleftrightarrow> firstIndex rf' = firstIndex rf \<and> lastApplied rf' = lastApplied rf \<or>
     firstIndex rf' \<le> lastApplied rf' \<and> lastApplied rf \<le> lastApplied rf'"

lemma AppendEntries_applied:
  assumes ok: "raft_ok rf" and ev: "event_ok (EvAppendEntries cap req) rf"
    and ae: "AppendEntries cap req rf = Some (rf', resp, eff)"
  shows "firstIndex rf' = firstIndex rf \<and> lastApplied rf' = lastApplied rf"
proof -
  have wf: "raft_wf rf" using ok by (simp add: raft_ok_def)
  obtain rf1 where b: "AppendEntries_body cap req rf = Some (rf1, resp, eff)" "rf' = persist rf1"
    using ae by (auto simp: AppendEntries_def bind_Some_iff)
  have "lastApplied rf1 = lastApplied rf"
  proof (cases "ae_Term req < currentTerm rf")
    case False
    then show ?thesis using AppendEntries_body_follower [OF False b(1)]
      by (auto simp: advanceCommitIndexForFollower_def bind_Some_iff Let_def split: if_splits)
  qed (use b in \<open>auto simp: AppendEntries_body_def\<close>)
  moreover have "firstIndex rf' = firstIndex rf"
  proof (cases "aer_Success resp")
    case True
    obtain lg where r: "firstIndex rf \<le> ae_PrevLogIndex req" "ae_PrevLogIndex req \<le> lastIndex rf"
      "mergeEntries cap (firstIndex rf) (logs rf) (ae_Entries req) = Some lg" "logs rf' = lg"
      by (rule AppendEntries_success_result [OF wf ae True]) blast
    then show ?thesis using mergeEntries_wf [OF wf r(1,2), of "ae_Entries req" cap] ev by auto
  next
    case False
    then show ?thesis
      using AppendEntries_refusal_result [OF wf _ ae False] ae
      by (cases "ae_Term req < currentTerm rf") (auto simp: AppendEntries_def AppendEntries_body_def)
  qed
  ultimately show ?thesis using b(2) by simp
qed

lemma Snapshot_applied:
  assumes "raft_ok rf" "index \<le> commitIndex rf" "Snapshot cap index snap rf = Some rf'"
  shows "lastApplied rf' = lastApplied rf \<and> firstIndex rf' \<le> max (firstIndex rf) index"
proof (cases "index \<le> firstIndex rf")
  case True
  then show ?thesis using assms by (auto simp: Snapshot_result raft_ok_def)
next
  case False
  have wf: "log_wf (logs rf)" "firstIndex rf \<le> index" "index \<le> lastIndex rf"
    using assms False by (auto simp: raft_ok_defs)
  have "e_Index (logs rf ! nat (index - firstIndex rf)) = index"
    using log_wf_nth [OF wf(1) log_wf_bounds [OF wf]] wf(2) by simp
  then show ?thesis using assms False by (auto simp: Snapshot_result raft_ok_def Let_def compact_def)
qed

lemma CondInstallSnapshot_applied:
  assumes "raft_ok rf" "CondInstallSnapshot cap t i snap rf = Some (rf', b)"
  shows "applied_kept rf rf'"
  using assms
  by (auto simp: CondInstallSnapshot_result raft_ok_defs applied_kept_def Let_def compact_def split: if_splits)

lemma raft_step_applied:
  assumes "raft_ok rf" "event_ok ev rf" "raft_step ev rf = Some rf'"
    "\<And>ci. ev \<noteq> EvApplied ci" "\<And>cap i d. ev \<noteq> EvSnapshot cap i d"
  shows "applied_kept rf rf'"
proof (cases ev)
  case (EvAppendEntries cap req)
  then obtain resp eff where "AppendEntries cap req rf = Some (rf', resp, eff)" using assms(3) by auto
  from AppendEntries_applied [OF assms(1) assms(2) [unfolded EvAppendEntries] this]
  show ?thesis by (simp add: applied_kept_def)
next
  case (EvAppendReply p q r)
  then show ?thesis using assms(3) by (auto simp: applied_kept_def dest!: handleAppendEntriesResponse_keeps)
next
  case (EvCondInstall cap t i d)
  then show ?thesis using assms CondInstallSnapshot_applied by auto
next
  case (EvStart c)
  then show ?thesis using assms(1,3)
    by (auto simp: Start_def appendNewEntry_def Let_def bind_Some_iff raft_ok_defs applied_kept_def split: if_splits)
next
  case (EvSnapshotReply p q r)
  then show ?thesis using assms(3)
    by (auto simp: handleInstallSnapshotResponse_def bind_Some_iff applied_kept_def split: if_splits)
next
  case (EvVoteReply q r g)
  then show ?thesis using assms(3)
    by (auto simp: handleRequestVoteResponse_def bind_Some_iff applied_kept_def split: if_splits
        dest!: ChangeState_frame)
next
  case (EvRequestVote q)
  then show ?thesis using assms(3)
    by (auto simp: RequestVote_def Let_def bind_Some_iff applied_kept_def split: if_splits)
next
  case EvElectionTimeout
  then show ?thesis using assms(3)
    by (auto simp: ticker_election_def StartElection_def Let_def bind_Some_iff applied_kept_def)
next
  case (EvInstallSnapshot q)
  then show ?thesis using assms(3)
    by (auto simp: InstallSnapshot_def Let_def applied_kept_def split: if_splits)
qed (use assms in \<open>auto simp: ticker_heartbeat_def Raft_Kill_def applied_kept_def split: if_splits\<close>)

lemma app_inv_step:
  assumes "app_inv s" "app_step s s'"
  shows "app_inv s'"
  using assms(2)
proof cases
  case (collect rf ci msgs)
  then have "ci = commitIndex rf" by (auto simp: applier_collect_def bind_Some_iff Let_def)
  then show ?thesis using assms(1) collect by (auto simp: app_inv_def)
next
  case (finish rf ci)
  then show ?thesis using assms(1) applier_finish_ok by (auto simp: app_inv_def applier_finish_def)
next
  case (event ev rf rf' pend)
  have ok: "raft_ok rf" "raft_ok rf'" using assms(1) event raft_step_ok by (fastforce simp: app_inv_def)+
  have c: "commitIndex rf \<le> commitIndex rf'"
    using raft_step_committed [OF ok(1) event(3,4)] by (simp add: committed_kept_def)
  show ?thesis
  proof (cases "\<exists>cap i d. ev = EvSnapshot cap i d")
    case True
    then obtain cap i d where e: "ev = EvSnapshot cap i d" by blast
    have i: "i \<le> lastApplied rf \<or> (\<exists>ci. pend = Some ci \<and> i \<le> ci)" using event(6) [OF e] .
    have f: "lastApplied rf' = lastApplied rf \<and> firstIndex rf' \<le> max (firstIndex rf) i"
      using Snapshot_applied [OF ok(1), of i cap d rf'] event(3,4) e by simp
    show ?thesis using assms(1) event(1,2) ok(2) c i f by (auto simp: app_inv_def split: option.splits)
  next
    case False
    then have "applied_kept rf rf'" using raft_step_applied [OF ok(1) event(3,4,5)] by blast
    then show ?thesis using assms(1) event(1,2) ok(2) c by (auto simp: app_inv_def applied_kept_def split: option.splits)
  qed
qed

interpretation raft_applier: transition_invariant app_init app_step app_inv
  by unfold_locales (simp add: app_init_def app_inv_def, rule app_inv_step)

text \<open>The only peer of a cluster never has a vote request under way, and never leads.\<close>

definition lone_inv :: "('c, 's) cluster \<Rightarrow> bool" where
  "lone_inv s \<longleftrightarrow> cluster_inv 1 s \<and> calls s = {} \<and> state (nodes s 0) \<noteq> StateLeader"

lemma voteCalls_lone: "ticker_election rf = Some (rf', g, eff) \<Longrightarrow> npeers rf = 1 \<Longrightarrow> me rf = 0 \<Longrightarrow> voteCalls i eff = {}"
  by (auto simp: voteCalls_def ticker_election_def StartElection_def bind_Some_iff Let_def)

interpretation lone: transition_invariant "cluster_init 1" "cluster_step 1" lone_inv
proof
  fix s :: "('a, 'b) cluster" assume i: "cluster_init 1 s"
  then have "Make 1 0 MakePersister = Some (nodes s 0)" by (simp add: cluster_init_def)
  from Make_frame [OF this] i show "lone_inv s"
    using cluster_inv_init [OF i] by (auto simp: lone_inv_def cluster_init_def)
next
  fix s t :: "('a, 'b) cluster" assume inv: "lone_inv s" and step: "cluster_step 1 s t"
  have c: "cluster_inv 1 s" "cluster_inv 1 t" "calls s = {}"
    using inv cluster_inv_step step by (auto simp: lone_inv_def)
  have me: "npeers (nodes s 0) = 1" "me (nodes s 0) = 0" "durable (nodes s 0)"
    using c(1) by (auto simp: cluster_inv_def nodes_inv_def)
  from step c(3) have "calls t = {} \<and> state (nodes t 0) \<noteq> StateLeader"
  proof cases
    case (timeout i rf' g eff)
    then show ?thesis using c(3) me voteCalls_lone ticker_election_vote by fastforce
  next
    case (other i ev rf')
    then show ?thesis using inv c(3) raft_step_quiet [of ev "nodes s 0" rf'] me(3)
      by (auto simp: lone_inv_def quiet_step_def)
  next
    case (restart i rf')
    then show ?thesis using c(3) Make_frame by fastforce
  qed auto
  then show "lone_inv t" using c(2) by (simp add: lone_inv_def)
qed

end
