(* ===== verification/Raft_Leader.thy ===== *)
theory Raft_Leader
  imports Raft_Runs
begin

text \<open>
  A leader between building a request and handling the reply: other replies, client commands, snapshots and requests of other
  peers come in between.  As long as it leads the same term, its log is only extended at the end and compacted at the front.
\<close>

definition log_extends :: "('c, 's) Raft \<Rightarrow> ('c, 's) Raft \<Rightarrow> bool" where
  "log_extends a b \<longleftrightarrow> firstIndex a \<le> firstIndex b \<and> (firstIndex b = firstIndex a \<longrightarrow> hd (logs b) = hd (logs a)) \<and>
     (\<forall>i. firstIndex b < i \<and> i \<le> lastIndex a \<longrightarrow> i \<le> lastIndex b \<and> entry_at (logs b) i = entry_at (logs a) i)"

lemma log_extends_same: "logs b = logs a \<Longrightarrow> log_extends a b"
  by (simp add: log_extends_def)

lemma log_extends_trans:
  assumes "log_extends a b" "log_extends b c"
  shows "log_extends a c"
  unfolding log_extends_def
proof (intro conjI allI impI)
  show "firstIndex a \<le> firstIndex c" using assms by (simp add: log_extends_def)
  show "hd (logs c) = hd (logs a)" if "firstIndex c = firstIndex a"
  proof -
    have "firstIndex b = firstIndex a" "firstIndex c = firstIndex b" using assms that by (auto simp: log_extends_def)
    then show ?thesis using assms by (simp add: log_extends_def)
  qed
  fix i assume i: "firstIndex c < i \<and> i \<le> lastIndex a"
  then have "firstIndex b < i" using assms(2) by (auto simp: log_extends_def)
  then show "i \<le> lastIndex c" "entry_at (logs c) i = entry_at (logs a) i" using assms i by (auto simp: log_extends_def)
qed

text \<open>
  From one state to a later one: the term does not fall; in the same term a follower stays one, and a leader stays one, with
  its log, or becomes a follower.
\<close>

definition leads_on :: "('c, 's) Raft \<Rightarrow> ('c, 's) Raft \<Rightarrow> bool" where
  "leads_on a b \<longleftrightarrow> currentTerm a \<le> currentTerm b \<and>
     (currentTerm b = currentTerm a \<longrightarrow>
        (state a = StateFollower \<longrightarrow> state b = StateFollower) \<and>
        (state a = StateLeader \<longrightarrow> state b = StateFollower \<or> state b = StateLeader \<and> log_extends a b))"

lemma leads_on_refl: "leads_on a a"
  by (cases "state a") (auto simp: leads_on_def log_extends_same)

lemma leads_on_trans: "leads_on a b \<Longrightarrow> leads_on b c \<Longrightarrow> leads_on a c"
  by (auto simp: leads_on_def intro: log_extends_trans)

lemma leads_on_same: "currentTerm b = currentTerm a \<Longrightarrow> state b = state a \<Longrightarrow> logs b = logs a \<Longrightarrow> leads_on a b"
  by (cases "state a") (auto simp: leads_on_def log_extends_same)

lemma leads_on_follower: "currentTerm a \<le> currentTerm b \<Longrightarrow> state b = StateFollower \<Longrightarrow> leads_on a b"
  by (simp add: leads_on_def)

lemma leads_on_extends: "currentTerm b = currentTerm a \<Longrightarrow> state b = state a \<Longrightarrow> log_extends a b \<Longrightarrow> leads_on a b"
  by (cases "state a") (auto simp: leads_on_def)

section \<open>One event\<close>

lemma AppendEntries_leads:
  assumes "raft_wf rf" "AppendEntries cap req rf = Some (rf', resp, eff)"
  shows "leads_on rf rf'"
proof (cases "ae_Term req < currentTerm rf")
  case True
  then show ?thesis using assms(2) by (auto simp: AppendEntries_def AppendEntries_body_def intro!: leads_on_same)
next
  case False
  then show ?thesis using assms(2) unfolding AppendEntries_def AppendEntries_body_result [OF assms(1) False]
    by (auto simp: bind_Some_iff advanceCommitIndexForFollower_def Let_def intro!: leads_on_follower split: if_splits)
qed

lemma Start_leads:
  assumes "raft_ok rf" "Start command rf = Some (rf', r, eff)"
  shows "leads_on rf rf'"
proof -
  have b: "nat (i - firstIndex rf) < length (logs rf)" if "firstIndex rf < i" "i \<le> lastIndex rf" for i
    using that assms(1) by (intro log_wf_bounds) (auto simp: raft_ok_defs)
  show ?thesis using assms b
    by (auto simp: Start_def appendNewEntry_def Let_def bind_Some_iff log_extends_def entry_at_def nth_append raft_ok_defs
        intro!: leads_on_extends split: if_splits)
qed

lemma Snapshot_leads:
  assumes "raft_ok rf" "index \<le> commitIndex rf" "Snapshot cap index snap rf = Some rf'"
  shows "leads_on rf rf'"
proof (cases "index \<le> firstIndex rf")
  case True
  then show ?thesis using assms by (auto simp: Snapshot_result raft_ok_def intro: leads_on_refl)
next
  case False
  let ?d = "(logs rf ! nat (index - firstIndex rf))\<lparr>e_Command := None\<rparr>"
  have wf: "log_wf (logs rf)" "firstIndex rf \<le> index" "index \<le> lastIndex rf" using assms False by (auto simp: raft_ok_defs)
  have d: "e_Index ?d = index" using log_wf_nth [OF wf(1) log_wf_bounds [OF wf(1-3)]] wf(2) by simp
  have rf': "logs rf' = compact index ?d (logs rf)" "currentTerm rf' = currentTerm rf" "state rf' = state rf"
    using assms False by (auto simp: Snapshot_result raft_ok_def Let_def)
  have "lastIndex rf' = lastIndex rf" using compact_wf [OF wf d] rf'(1) by simp
  moreover have "firstIndex rf' = index" using d by (simp add: rf'(1) compact_def)
  ultimately have "log_extends rf rf'" using wf(2) False entry_at_compact [OF wf(1,2) _ _ d] rf'(1) by (auto simp: log_extends_def)
  then show ?thesis using rf' by (intro leads_on_extends)
qed

lemma CondInstallSnapshot_leads:
  assumes "raft_ok rf" "CondInstallSnapshot cap t i snap rf = Some (rf', b)"
  shows "leads_on rf rf'"
proof (cases "i \<le> commitIndex rf")
  case True
  then show ?thesis using assms by (auto simp: CondInstallSnapshot_result raft_ok_def intro: leads_on_refl)
next
  case False
  define d where "d = (if i > lastIndex rf then zeroEntry else logs rf ! nat (i - firstIndex rf))\<lparr>e_Command := None, e_Term := t, e_Index := i\<rparr>"
  have wf: "log_wf (logs rf)" "firstIndex rf < i" using assms False by (auto simp: raft_ok_defs)
  have rf': "logs rf' = (if i > lastIndex rf then [d] else compact i d (logs rf))" "currentTerm rf' = currentTerm rf" "state rf' = state rf"
    using assms False by (auto simp: CondInstallSnapshot_result raft_ok_def Let_def d_def)
  have d: "e_Index d = i" by (simp add: d_def)
  have "log_extends rf rf'"
  proof (cases "i > lastIndex rf")
    case True
    then show ?thesis using wf(2) d rf'(1) by (auto simp: log_extends_def)
  next
    case inside: False
    then have "lastIndex rf' = lastIndex rf" using compact_wf [of "logs rf" i d] wf d rf'(1) by simp
    moreover have "firstIndex rf' = i" using d inside by (simp add: rf'(1) compact_def)
    ultimately show ?thesis using wf inside entry_at_compact [OF wf(1) _ _ _ d] rf'(1) by (auto simp: log_extends_def)
  qed
  then show ?thesis using rf' by (intro leads_on_extends)
qed

lemma raft_step_leads:
  assumes "raft_ok rf" "event_ok ev rf" "raft_step ev rf = Some rf'"
  shows "leads_on rf rf'"
proof (cases ev)
  case (EvAppendEntries cap req)
  then show ?thesis using assms AppendEntries_leads by (auto simp: raft_ok_def)
next
  case (EvAppendReply p q r)
  show ?thesis
  proof (cases "aer_Success r \<or> aer_Term r > currentTerm rf")
    case True
    then show ?thesis using assms(3) EvAppendReply
      by (auto simp: handleAppendEntriesResponse_def Let_def bind_Some_iff intro: leads_on_follower leads_on_same leads_on_refl split: if_splits
          dest!: advanceCommitIndexForLeader_frame)
  next
    case False
    then show ?thesis using assms(3) EvAppendReply handleAppendEntriesResponse_backoff by (fastforce intro!: leads_on_same)
  qed
next
  case (EvStart c)
  then show ?thesis using assms Start_leads by auto
next
  case (EvSnapshot cap i d)
  then show ?thesis using assms Snapshot_leads by auto
next
  case (EvCondInstall cap t i d)
  then show ?thesis using assms CondInstallSnapshot_leads by auto
next
  case (EvSnapshotReply p q r)
  then show ?thesis using assms(3)
    by (auto simp: handleInstallSnapshotResponse_def bind_Some_iff intro: leads_on_same leads_on_follower leads_on_refl split: if_splits)
next
  case (EvVoteReply q r g)
  then show ?thesis using assms(3)
    by (auto simp: handleRequestVoteResponse_def bind_Some_iff leads_on_def intro: log_extends_same split: if_splits
        dest!: ChangeState_frame)
next
  case (EvRequestVote q)
  then show ?thesis using assms(3)
    by (auto simp: RequestVote_def Let_def bind_Some_iff intro: leads_on_same leads_on_follower split: if_splits)
next
  case EvElectionTimeout
  then show ?thesis using assms(3)
    by (auto simp: ticker_election_def StartElection_def Let_def bind_Some_iff leads_on_def)
next
  case (EvInstallSnapshot q)
  then show ?thesis using assms(3)
    by (auto simp: InstallSnapshot_def Let_def intro: leads_on_refl leads_on_follower split: if_splits)
qed (use assms(3) in \<open>auto simp: ticker_heartbeat_def applier_finish_def Raft_Kill_def intro!: leads_on_same\<close>)

text \<open>A leader that still leads its term has the log it had, apart from what it has compacted, and perhaps more.\<close>

lemma still_leader:
  assumes "raft_ok a" "live_step\<^sup>*\<^sup>* a b" "state a = StateLeader" "state b = StateLeader" "currentTerm b = currentTerm a"
  shows "raft_ok b" "log_extends a b" "lastIndex a \<le> lastIndex b"
proof -
  have "leads_on a b"
    by (rule raft_live.steps_rel [OF reach_init [of raft_ok, OF assms(1)] assms(2)])
       (auto simp: live_step_def intro: raft_step_leads leads_on_refl leads_on_trans)
  then show ext: "log_extends a b" using assms(3-5) by (auto simp: leads_on_def)
  show ok: "raft_ok b" using assms(2)
  proof (induction rule: rtranclp_induct)
    case (step y z)
    then show ?case using raft_live.inv_step by blast
  qed (rule assms(1))
  have "firstIndex b \<le> lastIndex b" using ok log_wf_last [of "logs b"] by (simp add: raft_ok_defs)
  then show "lastIndex a \<le> lastIndex b" using ext by (cases "firstIndex b < lastIndex a") (auto simp: log_extends_def)
qed

text \<open>An accepted request, at the leader.\<close>

lemma handleAppendEntriesResponse_accepted:
  assumes "raft_wf rf" "state rf = StateLeader" "currentTerm rf = ae_Term req" "p < npeers rf" "aer_Success resp"
    "handleAppendEntriesResponse p req resp rf = Some (rf', eff)"
  shows "matchIndex rf' ! p = ae_PrevLogIndex req + int (length (ae_Entries req))" "nextIndex rf' ! p = matchIndex rf' ! p + 1" "logs rf' = logs rf"
proof -
  let ?m = "ae_PrevLogIndex req + int (length (ae_Entries req))"
  have len: "p < length (nextIndex rf)" "p < length (matchIndex rf)" using assms(1,4) by (auto simp: raft_wf_def)
  have "advanceCommitIndexForLeader (rf\<lparr>matchIndex := (matchIndex rf)[p := ?m], nextIndex := (nextIndex rf)[p := ?m + 1]\<rparr>) = Some (rf', eff)"
    using assms(2,3,5,6) len by (auto simp: handleAppendEntriesResponse_def Let_def go_simps go_store_def)
  then have "matchIndex rf' = (matchIndex rf)[p := ?m] \<and> nextIndex rf' = (nextIndex rf)[p := ?m + 1] \<and> logs rf' = logs rf"
    by (auto simp: advanceCommitIndexForLeader_def Let_def bind_Some_iff split: if_splits)
  then show "matchIndex rf' ! p = ?m" "nextIndex rf' ! p = matchIndex rf' ! p + 1" "logs rf' = logs rf" using len by auto
qed

end
