(* ===== verification/Raft_Props.thy ===== *)
theory Raft_Props
  imports Raft_Leader
begin

text \<open>
  The properties of the Raft package, each followed (at the end of the theory) by a
  witness: a concrete run in which its hypotheses hold.
\<close>

section \<open>Properties of a peer\<close>

text \<open>C8: a peer never panics.  In every state it can reach from \<^verbatim>\<open>Make\<close> on an empty
  persister, through any admissible events, crashes and restarts, the log is a run of
  consecutive indices around the commit index, the slices have one cell per peer, the
  persister holds the current term, vote and log, the timer that can wake the peer up is
  armed, and every admissible event is handled without an index out of range.\<close>

theorem raft_never_panics:
  assumes "reach (node_init n i) (node_step n i) rf" "event_ok ev rf"
  shows "raft_ok rf \<and> raft_step ev rf \<noteq> None"
proof -
  have "raft_ok rf" using raft_node.reach_inv [OF assms(1)] by (simp add: node_inv_def)
  then show ?thesis using raft_step_ok [OF _ assms(2)] by fastforce
qed

text \<open>C18: crash recovery.  \<^verbatim>\<open>Make\<close> on a copy of the persister that a peer has left behind at any
  point of any run succeeds, and gives back the term, the vote and the log it had; the
  commit index falls back to the snapshot.\<close>

theorem raft_crash_recovery:
  assumes "reach (node_init n i) (node_step n i) rf"
  shows "\<exists>rf'. Make n i (Persister_Copy (persister rf)) = Some rf' \<and>
    currentTerm rf' = currentTerm rf \<and> votedFor rf' = votedFor rf \<and> logs rf' = logs rf \<and>
    commitIndex rf' = firstIndex rf \<and> state rf' = StateFollower"
proof -
  have "raft_ok rf" "i < n" using raft_node.reach_inv [OF assms] by (simp_all add: node_inv_def)
  then show ?thesis using restart_ok Make_frame by fastforce
qed

text \<open>One vote per term.  Along every run of a peer, restarts included, the term never
  decreases, and as long as it stays the same a vote once cast is never changed.\<close>

theorem raft_one_vote_per_term:
  assumes "reach (node_init n i) (node_step n i) rf" "(node_step n i)\<^sup>*\<^sup>* rf rf'"
  shows "currentTerm rf \<le> currentTerm rf' \<and>
    (currentTerm rf' = currentTerm rf \<longrightarrow> votedFor rf = -1 \<or> votedFor rf' = votedFor rf)"
proof -
  have "vote_kept rf rf'"
    by (rule raft_node.steps_rel [OF assms node_step_vote_kept vote_kept_refl vote_kept_trans])
  then show ?thesis by (auto simp: vote_kept_def)
qed

section \<open>Properties of replication\<close>

text \<open>What a successful \<^verbatim>\<open>AppendEntries\<close> does.  The entry at \<^verbatim>\<open>PrevLogIndex\<close> has the
  term of the request; the log is kept up to the first entry of the request that
  disagrees with it (the whole of it when none does) and from there on it is the rest of
  the request; the commit index only rises, to the smaller of the leader's commit index
  and the new last index.\<close>

theorem AppendEntries_success:
  assumes "raft_ok rf" "event_ok (EvAppendEntries cap req) rf"
    "AppendEntries cap req rf = Some (rf', resp, eff)" "aer_Success resp"
  shows "e_Term (entry_at (logs rf) (ae_PrevLogIndex req)) = ae_PrevLogTerm req \<and>
    (\<exists>j\<le>length (ae_Entries req). let k = Suc (nat (ae_PrevLogIndex req - firstIndex rf)) + j in
       k \<le> length (logs rf) \<and>
       (\<forall>i<j. e_Term (logs rf ! (Suc (nat (ae_PrevLogIndex req - firstIndex rf)) + i)) = e_Term (ae_Entries req ! i)) \<and>
       (if j = length (ae_Entries req) then logs rf' = logs rf
        else logs rf' = take k (logs rf) @ drop j (ae_Entries req) \<and>
          (k = length (logs rf) \<or> e_Term (logs rf ! k) \<noteq> e_Term (ae_Entries req ! j)))) \<and>
    commitIndex rf' = max (commitIndex rf) (min (ae_LeaderCommit req) (lastIndex rf')) \<and>
    currentTerm rf' = ae_Term req \<and> state rf' = StateFollower"
proof -
  have wf: "raft_wf rf" using assms(1) by (simp add: raft_ok_def)
  obtain lg where r: "firstIndex rf \<le> ae_PrevLogIndex req" "ae_PrevLogIndex req \<le> lastIndex rf"
    "e_Term (logs rf ! nat (ae_PrevLogIndex req - firstIndex rf)) = ae_PrevLogTerm req"
    "mergeEntries cap (firstIndex rf) (logs rf) (ae_Entries req) = Some lg" "logs rf' = lg"
    "lg \<noteq> [] \<Longrightarrow> commitIndex rf' = max (commitIndex rf) (min (ae_LeaderCommit req) (e_Index (last lg)))"
    "currentTerm rf' = ae_Term req" "state rf' = StateFollower"
    by (rule AppendEntries_success_result [OF wf assms(3,4)]) blast
  have idx: "\<forall>i<length (ae_Entries req). e_Index (ae_Entries req ! i) = ae_PrevLogIndex req + 1 + int i"
    using assms(2) by simp
  have ne: "lg \<noteq> []" using mergeEntries_wf [OF wf r(1,2) idx, of cap] assms(2) r(4) by auto
  have commit: "commitIndex rf' = max (commitIndex rf) (min (ae_LeaderCommit req) (lastIndex rf'))"
    using r(6) [OF ne] r(5) by simp
  have prev: "e_Term (entry_at (logs rf) (ae_PrevLogIndex req)) = ae_PrevLogTerm req"
    using r(3) by (simp add: entry_at_def)
  obtain j where j: "j \<le> length (ae_Entries req)"
    "Suc (nat (ae_PrevLogIndex req - firstIndex rf)) + j \<le> length (logs rf)"
    "\<forall>i<j. e_Term (logs rf ! (Suc (nat (ae_PrevLogIndex req - firstIndex rf)) + i)) = e_Term (ae_Entries req ! i)"
    "j < length (ae_Entries req) \<longrightarrow> Suc (nat (ae_PrevLogIndex req - firstIndex rf)) + j < length (logs rf) \<longrightarrow>
      e_Term (logs rf ! (Suc (nat (ae_PrevLogIndex req - firstIndex rf)) + j)) \<noteq> e_Term (ae_Entries req ! j)"
    "lg = (if j = length (ae_Entries req) then logs rf
        else take (Suc (nat (ae_PrevLogIndex req - firstIndex rf)) + j) (logs rf) @ drop j (ae_Entries req))"
    using mergeEntries_entries [OF wf r(1,2) idx r(4)] by blast
  show ?thesis
    unfolding Let_def
    by (intro conjI exI [of _ j] prev commit r(7,8))
       (use j r(5) in \<open>auto simp: le_less\<close>)
qed

text \<open>C38: the leader's search for the point of agreement makes progress.  When a follower that
  accepts the leader's term refuses a request at or above its own snapshot, and the leader still leads that term when it handles the reply, whatever
  other admissible events (replies, requests, commands, snapshots) it has handled since it built the request, then \<^verbatim>\<open>nextIndex\<close> of this follower becomes at most the
  request's \<^verbatim>\<open>PrevLogIndex\<close>, below the index the request was built for, and nothing else changes; unless the leader has meanwhile
  compacted its log exactly up to \<^verbatim>\<open>PrevLogIndex\<close>.\<close>

theorem backtracking_progress:
  assumes "raft_ok leader" "raft_ok follower" "state leader = StateLeader"
    "genAppendEntriesRequest prev leader = Some req"
    "AppendEntries cap req follower = Some (follower', resp, eff)"
    "\<not> ae_Term req < currentTerm follower" "firstIndex follower \<le> prev" "\<not> aer_Success resp"
    "live_step\<^sup>*\<^sup>* leader later" "state later = StateLeader" "currentTerm later = currentTerm leader" "p < npeers later"
    "firstIndex later = prev \<longrightarrow> firstIndex leader = prev"
    "handleAppendEntriesResponse p req resp later = Some (leader', eff')"
  shows "nextIndex leader' ! p \<le> prev \<and> leader' = later\<lparr>nextIndex := (nextIndex later)[p := nextIndex leader' ! p]\<rparr>"
proof -
  note still = still_leader [OF assms(1,9,3,10,11)]
  have wf: "raft_wf leader" "raft_wf follower" "raft_wf later" using assms(1,2) still(1) by (auto simp: raft_ok_def)
  note g = genAppendEntriesRequest_shape [OF wf(1) assms(4)]
  note ref = AppendEntries_refusal_result [OF wf(2) assms(6,5,8)]
  have t: "aer_Term resp = currentTerm later" using ref assms(7,11) g by auto
  have ci: "aer_ConflictIndex resp \<le> prev" "aer_ConflictTerm resp = -1 \<or> aer_ConflictTerm resp \<noteq> ae_PrevLogTerm req"
    using ref assms(7) g by (auto split: if_splits)
  have "ae_PrevLogIndex req \<le> lastIndex later" using g still(3) by simp
  then obtain v where v: "leader' = later\<lparr>nextIndex := (nextIndex later)[p := v]\<rparr>"
    "v = aer_ConflictIndex resp \<or> firstIndex later < v \<and> v \<le> prev + 1 \<and>
      aer_ConflictTerm resp \<noteq> -1 \<and> e_Term (entry_at (logs later) (v - 1)) = aer_ConflictTerm resp"
    using handleAppendEntriesResponse_refused [OF wf(3) assms(10) _ _ assms(12,8) t assms(14)] g assms(11) by auto
  have "v \<le> prev"
  proof (rule ccontr)
    assume "\<not> ?thesis"
    then have "v = prev + 1" using v(2) ci(1) by auto
    then have v1: "firstIndex later \<le> prev" "e_Term (entry_at (logs later) prev) = aer_ConflictTerm resp" "aer_ConflictTerm resp \<noteq> -1"
      using v(2) ci(1) by auto
    have "entry_at (logs later) prev = entry_at (logs leader) prev"
    proof (cases "firstIndex later = prev")
      case True
      then have "firstIndex leader = prev" "hd (logs later) = hd (logs leader)" using assms(13) still(2) by (auto simp: log_extends_def)
      then show ?thesis using True wf by (simp add: entry_at_def hd_conv_nth [symmetric])
    qed (use v1(1) still(2) g in \<open>auto simp: log_extends_def\<close>)
    then show False using g ci(2) v1 by (auto simp: entry_at_def)
  qed
  then show ?thesis using v(1) assms(12) wf(3) by (auto simp: raft_wf_def)
qed

text \<open>a request below the follower's snapshot gets the reply term 0, and the leader ignores
  that reply: its state, \<^verbatim>\<open>nextIndex\<close> included, stays as it is, so the next round sends the
  same \<^verbatim>\<open>PrevLogIndex\<close> again.\<close>

theorem stale_prev_ignored:
  assumes "raft_ok leader" "raft_ok follower" "0 < currentTerm leader"
    "genAppendEntriesRequest prev leader = Some req"
    "AppendEntries cap req follower = Some (follower', resp, eff)"
    "\<not> ae_Term req < currentTerm follower" "prev < firstIndex follower"
  shows "\<not> aer_Success resp \<and> aer_Term resp = 0 \<and>
    handleAppendEntriesResponse p req resp leader = Some (leader, [])"
proof -
  have wf: "raft_wf leader" "raft_wf follower" using assms(1,2) by (auto simp: raft_ok_def)
  note g = genAppendEntriesRequest_shape [OF wf(1) assms(4)]
  have "resp = zeroAppendEntriesResponse"
    using assms(5,7) g unfolding AppendEntries_def AppendEntries_body_result [OF wf(2) assms(6)] by auto
  then show ?thesis using assms(3) by (auto simp: handleAppendEntriesResponse_def zeroAppendEntriesResponse_def)
qed

text \<open>The log of a follower that has merged the entries of a request agrees with the leader's.\<close>

lemma merged_log_agrees:
  assumes "raft_wf leader" "raft_wf follower" "genAppendEntriesRequest prev leader = Some req"
    "firstIndex follower \<le> prev" "prev \<le> lastIndex follower" "e_Term (logs follower ! nat (prev - firstIndex follower)) = ae_PrevLogTerm req"
    "mergeEntries cap (firstIndex follower) (logs follower) (ae_Entries req) = Some lg" "log_wf lg" "hd lg = hd (logs follower)"
    "prev \<le> i" "i \<le> lastIndex leader"
  shows "e_Term (entry_at lg i) = e_Term (entry_at (logs leader) i) \<and>
    (prev < i \<longrightarrow> e_Index (entry_at lg i) = i \<and> i \<le> e_Index (last lg))"
proof -
  note g = genAppendEntriesRequest_shape [OF assms(1,3)]
  let ?es = "ae_Entries req" and ?k = "nat (prev - firstIndex follower)"
  have idx: "\<forall>i<length ?es. e_Index (?es ! i) = prev + 1 + int i"
    using genAppendEntriesRequest_indices [OF assms(1,3)] by blast
  have klt: "?k < length (logs follower)" using assms(4,5) by (intro log_wf_bounds raft_wf_logs assms(2))
  obtain j where j: "j \<le> length ?es" "Suc ?k + j \<le> length (logs follower)"
    "\<forall>i<j. e_Term (logs follower ! (Suc ?k + i)) = e_Term (?es ! i)"
    "lg = (if j = length ?es then logs follower else take (Suc ?k + j) (logs follower) @ drop j ?es)"
    using mergeEntries_entries [OF assms(2,4,5) idx assms(7)] by blast
  have at_prev: "e_Term (lg ! ?k) = ae_PrevLogTerm req" using j(2,4) assms(6) klt by (auto simp: nth_append)
  have at_new: "Suc ?k + i < length lg \<and> e_Term (lg ! (Suc ?k + i)) = e_Term (?es ! i)" if "i < length ?es" for i
    using that j by (auto simp: nth_append not_less)
  show ?thesis
  proof (cases "i = prev")
    case True
    then show ?thesis using at_prev assms(9) g by (auto simp: entry_at_def)
  next
    case False
    define d where "d = nat (i - prev - 1)"
    have d: "i = prev + 1 + int d" using assms(10) False by (simp add: d_def)
    then have dl: "d < length ?es" using assms(11) g by linarith
    have "nat (i - firstIndex follower) = Suc ?k + d" "nat (i - firstIndex leader) = Suc (nat (prev - firstIndex leader)) + d"
      using d assms(4) g by auto
    moreover have "?es ! d = logs leader ! (Suc (nat (prev - firstIndex leader)) + d)"
      using g dl by simp
    moreover have "prev + 1 + int d < firstIndex follower + int (length lg)"
      using at_new [OF dl] assms(4) by linarith
    ultimately show ?thesis
      using at_new [OF dl] assms(9) log_wf_nth [OF assms(8), of "Suc ?k + d"] log_wf_last [OF assms(8)] d assms(4)
      by (simp add: entry_at_def)
  qed
qed

text \<open>C7: replication.  After a follower has accepted a request that a leader built, its log
  agrees with the leader's, index and term, on every index from \<^verbatim>\<open>PrevLogIndex\<close> to the last entry of the request, and the
  follower commits nothing the leader had not committed.  When the leader handles the reply, whatever admissible events (commands, replies, requests, snapshots) it has
  handled meanwhile, as long as it still leads the term, it records exactly that last entry as \<^verbatim>\<open>matchIndex\<close>, not the end of its log at that time,
  and its own log still has the entries of the request, apart from those it has compacted.\<close>

theorem replication_agrees:
  assumes "raft_ok leader" "raft_ok follower" "state leader = StateLeader"
    "genAppendEntriesRequest prev leader = Some req"
    "event_ok (EvAppendEntries cap req) follower"
    "AppendEntries cap req follower = Some (follower', resp, eff)" "aer_Success resp"
    "live_step\<^sup>*\<^sup>* leader later" "state later = StateLeader" "currentTerm later = currentTerm leader" "p < npeers later"
    "handleAppendEntriesResponse p req resp later = Some (leader', eff')"
  shows "matchIndex leader' ! p = lastIndex leader \<and> nextIndex leader' ! p = lastIndex leader + 1 \<and> lastIndex leader \<le> lastIndex leader' \<and>
    (\<forall>i. prev \<le> i \<and> i \<le> matchIndex leader' ! p \<longrightarrow>
       e_Term (entry_at (logs follower') i) = e_Term (entry_at (logs leader) i) \<and>
       (prev < i \<longrightarrow> e_Index (entry_at (logs follower') i) = i \<and> i \<le> lastIndex follower') \<and>
       (firstIndex leader' < i \<longrightarrow> entry_at (logs leader') i = entry_at (logs leader) i)) \<and>
    commitIndex follower' \<le> max (commitIndex follower) (commitIndex leader)"
proof -
  note still = still_leader [OF assms(1,8,3,9,10)]
  have wf: "raft_wf leader" "raft_wf follower" "raft_wf later" using assms(1,2) still(1) by (auto simp: raft_ok_def)
  note g = genAppendEntriesRequest_shape [OF wf(1) assms(4)]
  let ?es = "ae_Entries req" and ?k = "nat (prev - firstIndex follower)"
  obtain lg where r: "firstIndex follower \<le> prev" "prev \<le> lastIndex follower"
    "e_Term (logs follower ! ?k) = ae_PrevLogTerm req"
    "mergeEntries cap (firstIndex follower) (logs follower) ?es = Some lg" "logs follower' = lg"
    "lg \<noteq> [] \<Longrightarrow> commitIndex follower' = max (commitIndex follower) (min (ae_LeaderCommit req) (e_Index (last lg)))"
    using g by (auto intro: AppendEntries_success_result [OF wf(2) assms(6,7)])
  have idx: "\<forall>i<length ?es. e_Index (?es ! i) = prev + 1 + int i"
    using genAppendEntriesRequest_indices [OF wf(1) assms(4)] by blast
  obtain lg' where lg: "lg = lg'" "log_wf lg" "hd lg = hd (logs follower)"
    using mergeEntries_wf [OF wf(2) r(1,2) idx, of cap] assms(5) r(4) g by auto
  note agree = merged_log_agrees [OF wf(1,2) assms(4) r(1-4) lg(2,3)]
  have "currentTerm later = ae_Term req" using assms(10) g by simp
  note acc = handleAppendEntriesResponse_accepted [OF wf(3) assms(9) this assms(11,7,12)]
  have "matchIndex leader' ! p = lastIndex leader" "nextIndex leader' ! p = lastIndex leader + 1" "logs leader' = logs later" using acc g by auto
  moreover have "commitIndex follower' \<le> max (commitIndex follower) (commitIndex leader)"
    using r(6) lg(2) g by auto
  ultimately show ?thesis using agree r(5) still(2,3) by (auto simp: log_extends_def)
qed

text \<open>C10: the leader's commit rule.  \<^verbatim>\<open>advanceCommitIndexForLeader\<close> either leaves the state as it
  is, or raises the commit index to an index that holds an entry of the current term and
  that a majority of the peers has reached; and it never stops below an index that a majority
  has reached unless the entry at the greatest such index has another term.\<close>

theorem leader_commit_majority:
  assumes "raft_ok rf" "advanceCommitIndexForLeader rf = Some (rf', eff)"
  shows "(rf' = rf \<or>
      rf' = rf\<lparr>commitIndex := commitIndex rf'\<rparr> \<and> commitIndex rf < commitIndex rf' \<and>
      commitIndex rf' \<le> lastIndex rf \<and>
      e_Term (entry_at (logs rf) (commitIndex rf')) = currentTerm rf \<and>
      npeers rf div 2 < card {p. p < npeers rf \<and> commitIndex rf' \<le> matchIndex rf ! p}) \<and>
    (\<forall>c. commitIndex rf' < c \<and> c \<le> lastIndex rf \<and>
         npeers rf div 2 < card {p. p < npeers rf \<and> c \<le> matchIndex rf ! p} \<longrightarrow>
       (\<exists>m\<ge>c. npeers rf div 2 < card {p. p < npeers rf \<and> m \<le> matchIndex rf ! p} \<and>
         (m > lastIndex rf \<or> e_Term (entry_at (logs rf) m) \<noteq> currentTerm rf)))"
proof -
  have wf: "raft_wf rf" and ms: "length (matchIndex rf) = npeers rf" "matchIndex rf \<noteq> []"
    using assms(1) by (auto simp: raft_ok_defs)
  let ?m = "majorityIndex (matchIndex rf)"
  have r: "(rf', eff) = (if commitIndex rf < ?m \<and> ?m \<le> lastIndex rf \<and> e_Term (entry_at (logs rf) ?m) = currentTerm rf
      then (rf\<lparr>commitIndex := ?m\<rparr>, [SignalApply]) else (rf, []))"
    using assms(2) unfolding advanceCommitIndexForLeader_result [OF wf] entry_at_def by (simp add: Let_def)
  have maj: "npeers rf div 2 < card {p. p < npeers rf \<and> ?m \<le> matchIndex rf ! p}"
    using majorityIndex_reached(1) [OF ms(2)] ms(1) by simp
  have below: "c \<le> ?m" if "npeers rf div 2 < card {p. p < npeers rf \<and> c \<le> matchIndex rf ! p}" for c
    using majorityIndex_reached(2) [OF ms(2), of c] ms(1) that by force
  show ?thesis
  proof (cases "commitIndex rf < ?m \<and> ?m \<le> lastIndex rf \<and> e_Term (entry_at (logs rf) ?m) = currentTerm rf")
    case True
    then show ?thesis using r maj below by fastforce
  next
    case False
    then have "rf' = rf" using r by auto
    then show ?thesis using False maj below by fastforce
  qed
qed

text \<open>C9: committed entries are stable.  Along every run of a peer between two crashes, on
  admissible events, the commit index never falls, the log is only ever compacted from the
  front, and an entry that was committed is never changed or removed except by compaction.\<close>

theorem committed_entries_stable:
  assumes "raft_ok rf" "live_step\<^sup>*\<^sup>* rf rf'"
  shows "commitIndex rf \<le> commitIndex rf' \<and> firstIndex rf \<le> firstIndex rf' \<and>
    (\<forall>i. firstIndex rf' < i \<and> i \<le> commitIndex rf \<longrightarrow> entry_at (logs rf') i = entry_at (logs rf) i)"
proof -
  have "committed_kept rf rf'"
    by (rule raft_live.steps_rel [OF reach_init [of raft_ok, OF assms(1)] assms(2) live_step_committed])
       (auto intro: committed_kept_same committed_kept_trans)
  then show ?thesis by (simp add: committed_kept_def)
qed

text \<open>C35: the applier.  Whenever it finds committed entries it has not sent, in any interleaving
  with the handlers on admissible events (requests do not contradict the committed part of the log), the service's snapshots and its own earlier batches, slicing the log does
  not panic and the batch is exactly the entries after \<^verbatim>\<open>lastApplied\<close> up to the commit
  index, one message per index, in order.\<close>

theorem applier_exact:
  assumes "reach app_init app_step (rf, None)" "applier_ready rf"
  shows "\<exists>msgs. applier_collect rf = Some (commitIndex rf, msgs) \<and>
    msgs = map (\<lambda>i. commandMsg (entry_at (logs rf) i)) [lastApplied rf + 1..commitIndex rf] \<and>
    map am_CommandIndex msgs = [lastApplied rf + 1..commitIndex rf]"
proof -
  have "app_inv (rf, None)" by (rule raft_applier.reach_inv [OF assms(1)])
  then have wf: "log_wf (logs rf)" "firstIndex rf \<le> lastApplied rf" "commitIndex rf \<le> lastIndex rf"
    by (auto simp: app_inv_def raft_ok_defs)
  have lt: "lastApplied rf < commitIndex rf" using assms(2) by (simp add: applier_ready_def)
  define k where "k = nat (lastApplied rf + 1 - firstIndex rf)"
  define n where "n = nat (commitIndex rf - lastApplied rf)"
  have kn: "k + n \<le> length (logs rf)" "lastApplied rf + 1 = firstIndex rf + int k" "commitIndex rf = firstIndex rf + int (k + n) - 1"
    using wf lt log_wf_last [OF wf(1)] by (auto simp: k_def n_def)
  have c: "applier_collect rf = Some (commitIndex rf, map commandMsg (take n (drop k (logs rf))))"
    using wf lt log_wf_last [OF wf(1)] by (simp add: applier_collect_def Let_def go_slice_def k_def n_def)
  have up: "[lastApplied rf + 1..commitIndex rf] = map (\<lambda>i. firstIndex rf + int (k + i)) [0..<n]"
    unfolding kn(2,3) by (rule nth_equalityI) auto
  have e: "map commandMsg (take n (drop k (logs rf))) = map (\<lambda>i. commandMsg (entry_at (logs rf) i)) [lastApplied rf + 1..commitIndex rf]"
    unfolding up using kn(1) by (intro nth_equalityI) (auto simp: entry_at_def nat_int_add [symmetric])
  have x: "map am_CommandIndex (map commandMsg (take n (drop k (logs rf)))) = [lastApplied rf + 1..commitIndex rf]"
    unfolding up using kn(1) log_wf_nth [OF wf(1)] by (intro nth_equalityI) (auto simp: commandMsg_def)
  show ?thesis using c e x by auto
qed

section \<open>Elections\<close>

text \<open>C1: election safety.  In every reachable state of a cluster of \<open>n\<close> peers, with messages
  lost, delayed and reordered, peers crashing and restarting, and arbitrary other traffic,
  two peers that are leaders of the same term are the same peer.\<close>

theorem election_safety:
  assumes "reach (cluster_init n) (cluster_step n) s" "i < n" "j < n"
    "state (nodes s i) = StateLeader" "state (nodes s j) = StateLeader"
    "currentTerm (nodes s i) = currentTerm (nodes s j)"
  shows "i = j"
proof -
  have inv: "voted_inv n s" "counted_inv n s"
    using raft_cluster.reach_inv [OF assms(1)] by (auto simp: cluster_inv_def)
  let ?V = "\<lambda>p. {v. (v, currentTerm (nodes s i), p) \<in> voted s}"
  have "n div 2 < card (?V i)" "n div 2 < card (?V j)"
    using inv(2) assms(2-6) by (auto simp: counted_inv_def)
  moreover have "?V i \<subseteq> {..<n}" "?V j \<subseteq> {..<n}" using inv(1) by (auto simp: voted_inv_def)
  ultimately obtain v where "v \<in> ?V i" "v \<in> ?V j" using majorities_meet by blast
  then show ?thesis using inv(1) unfolding voted_inv_def by blast
qed

text \<open>a cluster of one peer never has a leader.  \<^verbatim>\<open>grantedVotes\<close> is compared with the
  majority only when another peer's reply arrives, so the vote a peer casts for itself is
  not enough even when it is a majority.\<close>

theorem single_peer_no_leader:
  assumes "reach (cluster_init 1) (cluster_step 1) s"
  shows "state (nodes s 0) \<noteq> StateLeader"
  using lone.reach_inv [OF assms] by (simp add: lone_inv_def)

section \<open>Installing a snapshot\<close>

text \<open>A peer of three with a given log, for the examples below.\<close>

definition demo_peer :: "nat \<Rightarrow> NodeState \<Rightarrow> int \<Rightarrow> nat Entry list \<Rightarrow> int \<Rightarrow> (nat, unit) Raft" where
  "demo_peer i st t lg ci = persist
     \<lparr>npeers = 3, persister = MakePersister, me = i, dead = False, state = st, currentTerm = t, votedFor = -1,
      logs = lg, commitIndex = ci, lastApplied = 0, nextIndex = replicate 3 (int (length lg)),
      matchIndex = replicate 3 0, electionTimer = True, heartbeatTimer = True\<rparr>"

definition demo_entry :: "int \<Rightarrow> int \<Rightarrow> nat Entry" where
  "demo_entry i t = \<lparr>e_Index = i, e_Term = t, e_Command = Some 7\<rparr>"

text \<open>\<^verbatim>\<open>CondInstallSnapshot\<close>, branch by branch: an index that is already committed is
  refused; beyond the end of the log the log becomes the dummy alone; otherwise the
  entries after the index stay, whatever the term of the snapshot is.  Commit and apply
  index jump to the snapshot.\<close>

theorem CondInstallSnapshot_effect:
  assumes "raft_ok rf" "CondInstallSnapshot cap t i snap rf = Some (rf', b)"
  shows "b = (commitIndex rf < i) \<and> (\<not> b \<longrightarrow> rf' = rf) \<and>
    (b \<longrightarrow> commitIndex rf' = i \<and> lastApplied rf' = i \<and> e_Index (hd (logs rf')) = i \<and> e_Term (hd (logs rf')) = t \<and>
       tl (logs rf') = drop (Suc (nat (i - firstIndex rf))) (logs rf) \<and> ReadSnapshot (persister rf') = snap)"
proof -
  have wf: "raft_wf rf" using assms(1) by (simp add: raft_ok_def)
  have "i > lastIndex rf \<Longrightarrow> drop (Suc (nat (i - firstIndex rf))) (logs rf) = []"
    using log_wf_last [OF raft_wf_logs [OF wf]] by simp
  then show ?thesis
    using assms(2) unfolding CondInstallSnapshot_result [OF wf]
    by (auto simp: Let_def compact_def ReadSnapshot_def SaveStateAndSnapshot_def split: if_splits)
qed

text \<open>C39: since the term of the entry at the snapshot's index is not compared, a stale suffix
  survives an installation.  Whenever a peer installs a snapshot that ends inside its log and is of a later term than the log's last entry, the
  last entry stays, so that the terms in the log are no longer ascending; the peer then grants its vote to every candidate of a new term whose
  last entry has this older term and is as far on, although such a log cannot hold the snapshot's last entry, which the peer has as committed.\<close>

theorem CondInstallSnapshot_stale_suffix:
  assumes "raft_ok rf" "commitIndex rf < i" "i < lastIndex rf" "e_Term (last (logs rf)) < t"
    "CondInstallSnapshot cap t i snap rf = Some (rf', b)"
    "currentTerm rf < rv_Term req" "rv_LastLogTerm req = e_Term (last (logs rf))" "lastIndex rf \<le> rv_LastLogIndex req"
    "RequestVote req rf' = Some (rf'', resp)"
  shows "commitIndex rf' = i \<and> e_Term (entry_at (logs rf') i) = t \<and> last (logs rf') = last (logs rf) \<and> \<not> sorted_terms (logs rf') \<and>
    rv_LastLogTerm req < e_Term (entry_at (logs rf') (commitIndex rf')) \<and> rvr_VoteGranted resp"
proof -
  have wf: "raft_wf rf" "log_wf (logs rf)" "firstIndex rf \<le> i" using assms(1,2) by (auto simp: raft_ok_defs)
  let ?k = "nat (i - firstIndex rf)"
  define d where "d = (logs rf ! ?k)\<lparr>e_Command := None, e_Term := t, e_Index := i\<rparr>"
  have rf': "logs rf' = compact i d (logs rf)" "commitIndex rf' = i" "currentTerm rf' = currentTerm rf"
    using assms(2,3,5) unfolding CondInstallSnapshot_result [OF wf(1)] by (auto simp: Let_def d_def)
  have "Suc ?k < length (logs rf)" using assms(3) wf(3) log_wf_last [OF wf(2)] by simp
  then have ne: "drop (Suc ?k) (logs rf) \<noteq> []" "last (drop (Suc ?k) (logs rf)) = last (logs rf)" by auto
  then have l: "logs rf' = d # drop (Suc ?k) (logs rf)" "last (logs rf') = last (logs rf)" using rf'(1) by (auto simp: compact_def)
  have at: "e_Term (entry_at (logs rf') i) = t" by (simp add: l(1) entry_at_def d_def)
  have "\<not> sorted_terms (logs rf')"
  proof
    assume "sorted_terms (logs rf')"
    then have "\<forall>e\<in>set (drop (Suc ?k) (logs rf)). t \<le> e_Term e" by (auto simp: sorted_terms_def l(1) d_def)
    then show False using ne assms(4) last_in_set by (metis not_less)
  qed
  moreover have "rvr_VoteGranted resp"
    using assms(6-9) l rf'(3) by (auto simp: RequestVote_def isLogUpToDate_def Let_def bind_Some_iff split: if_splits)
  ultimately show ?thesis using at rf'(2) l(2) assms(4,7) by simp
qed

text \<open>The reply to a request whose previous entry has another term.  The comment promises the
  first index of the conflicting term; the scan returns the index before it.  With one entry
  per term the leader then goes below the dummy entry of its log, and its next round
  ships a snapshot with index 0 and no data in place of entries.\<close>

theorem conflict_index_one_too_low:
  "let leader = demo_peer 0 StateLeader 2 [zeroEntry, demo_entry 1 2] 0;
       follower = demo_peer 1 StateFollower 1 [zeroEntry, demo_entry 1 1] 0;
       req = the (genAppendEntriesRequest 1 leader);
       resp = fst (snd (the (AppendEntries 0 req follower)));
       leader' = fst (the (handleAppendEntriesResponse 1 req resp leader))
   in raft_ok leader \<and> raft_ok follower \<and> \<not> aer_Success resp \<and>
      e_Term (entry_at (logs follower) 1) = aer_ConflictTerm resp \<and> aer_ConflictIndex resp = 0 \<and>
      replicateOneRound 1 leader' = Some (SendInstallSnapshot \<lparr>is_Term = 2, is_LeaderId = 0,
        is_LastIncludedIndex = 0, is_LastIncludedTerm = 0, is_Data = []\<rparr>)"
  by code_simp

section \<open>Witnesses\<close>

text \<open>A fresh peer, and the same peer after its first election timeout.\<close>

definition demo_fresh :: "(nat, unit) Raft" where
  "demo_fresh = the (Make 3 0 MakePersister)"

definition demo_candidate :: "(nat, unit) Raft" where
  "demo_candidate = the (raft_step EvElectionTimeout demo_fresh)"

lemma demo_fresh_init: "node_init 3 0 demo_fresh"
proof -
  have "Make 3 0 MakePersister = Some demo_fresh" by code_simp
  then show ?thesis by (simp add: node_init_def)
qed

lemma demo_candidate_step: "node_step 3 0 demo_fresh demo_candidate"
proof (rule node_step.event [of EvElectionTimeout])
  show "raft_step EvElectionTimeout demo_fresh = Some demo_candidate" by code_simp
qed simp

lemma demo_reach: "reach (node_init 3 0) (node_step 3 0) demo_fresh"
  "reach (node_init 3 0) (node_step 3 0) demo_candidate"
  using demo_fresh_init demo_candidate_step by (auto intro: reach_init reach_step)

theorem raft_never_panics_witness:
  "raft_ok demo_candidate \<and> raft_step (EvStart 5) demo_candidate \<noteq> None"
  using raft_never_panics [OF demo_reach(2), of "EvStart 5"] by simp

theorem raft_crash_recovery_witness:
  "\<exists>rf'. Make 3 0 (Persister_Copy (persister demo_candidate)) = Some rf' \<and>
     currentTerm rf' = 1 \<and> votedFor rf' = 0 \<and> state rf' = StateFollower"
proof -
  have "currentTerm demo_candidate = 1" "votedFor demo_candidate = 0" by code_simp+
  then show ?thesis using raft_crash_recovery [OF demo_reach(2)] by auto
qed

theorem raft_one_vote_per_term_witness:
  "currentTerm demo_fresh \<le> currentTerm demo_candidate"
  using raft_one_vote_per_term [OF demo_reach(1)] demo_candidate_step by blast

text \<open>A leader of term 2 and a follower whose last entry is of an older term.\<close>

definition demo_leader :: "(nat, unit) Raft" where
  "demo_leader = demo_peer 0 StateLeader 2 [zeroEntry, demo_entry 1 1, demo_entry 2 2] 1"

definition demo_follower :: "(nat, unit) Raft" where
  "demo_follower = demo_peer 1 StateFollower 1 [zeroEntry, demo_entry 1 1, demo_entry 2 1, demo_entry 3 1] 0"

definition demo_request :: "int \<Rightarrow> nat AppendEntriesRequest" where
  "demo_request prev = the (genAppendEntriesRequest prev demo_leader)"

definition demo_reply :: "int \<Rightarrow> (nat, unit) Raft \<times> AppendEntriesResponse \<times> (nat, unit) effect list" where
  "demo_reply prev = the (AppendEntries 0 (demo_request prev) demo_follower)"

lemma demo_peers_ok: "raft_ok demo_leader" "raft_ok demo_follower"
  by code_simp+

lemma demo_event_ok: "event_ok (EvAppendEntries 0 (demo_request 1)) demo_follower"
  by code_simp

lemma demo_accepted:
  "AppendEntries 0 (demo_request 1) demo_follower =
     Some (fst (demo_reply 1), fst (snd (demo_reply 1)), snd (snd (demo_reply 1)))"
  "aer_Success (fst (snd (demo_reply 1)))"
  by code_simp+

theorem AppendEntries_success_witness:
  "commitIndex (fst (demo_reply 1)) = 1 \<and>
   map e_Term (logs (fst (demo_reply 1))) = [0, 1, 2]"
proof -
  have "logs (fst (demo_reply 1)) = [zeroEntry, demo_entry 1 1, demo_entry 2 2]" by code_simp
  moreover have "commitIndex demo_follower = 0" "ae_LeaderCommit (demo_request 1) = 1" by code_simp+
  ultimately show ?thesis
    using AppendEntries_success [OF demo_peers_ok(2) demo_event_ok demo_accepted]
    by (simp add: demo_entry_def zeroEntry_def)
qed

text \<open>The leader takes a command before the reply arrives.\<close>

definition demo_later :: "(nat, unit) Raft" where
  "demo_later = fst (the (Start 9 demo_leader))"

lemma demo_later_step: "live_step\<^sup>*\<^sup>* demo_leader demo_later"
proof -
  have "raft_step (EvStart 9) demo_leader = Some demo_later" by code_simp
  then have "live_step demo_leader demo_later" by (auto simp: live_step_def intro!: exI [of _ "EvStart 9"])
  then show ?thesis by blast
qed

lemma demo_later_leads: "state demo_later = StateLeader" "currentTerm demo_later = currentTerm demo_leader" "2 < npeers demo_later" "1 < npeers demo_later"
  by code_simp+

theorem replication_agrees_witness:
  "matchIndex (fst (the (handleAppendEntriesResponse 2 (demo_request 1) (fst (snd (demo_reply 1))) demo_later))) ! 2 = 2 \<and> lastIndex demo_later = 3"
proof -
  have l: "state demo_leader = StateLeader" "genAppendEntriesRequest 1 demo_leader = Some (demo_request 1)" "lastIndex demo_leader = 2" "lastIndex demo_later = 3"
    by code_simp+
  have h: "handleAppendEntriesResponse 2 (demo_request 1) (fst (snd (demo_reply 1))) demo_later =
      Some (fst (the (handleAppendEntriesResponse 2 (demo_request 1) (fst (snd (demo_reply 1))) demo_later)),
            snd (the (handleAppendEntriesResponse 2 (demo_request 1) (fst (snd (demo_reply 1))) demo_later)))"
    by code_simp
  show ?thesis
    using replication_agrees [OF demo_peers_ok l(1,2) demo_event_ok demo_accepted demo_later_step demo_later_leads(1-3) h] l(3,4) by simp
qed

lemma demo_refused:
  "AppendEntries 0 (demo_request 2) demo_follower =
     Some (fst (demo_reply 2), fst (snd (demo_reply 2)), snd (snd (demo_reply 2)))"
  "\<not> aer_Success (fst (snd (demo_reply 2)))"
  by code_simp+

theorem backtracking_progress_witness:
  "nextIndex (fst (the (handleAppendEntriesResponse 1 (demo_request 2) (fst (snd (demo_reply 2))) demo_later))) ! 1 \<le> 2"
proof -
  have l: "state demo_leader = StateLeader" "genAppendEntriesRequest 2 demo_leader = Some (demo_request 2)"
    "\<not> ae_Term (demo_request 2) < currentTerm demo_follower" "firstIndex demo_follower \<le> 2" "firstIndex demo_later = 2 \<longrightarrow> firstIndex demo_leader = 2"
    by code_simp+
  have h: "handleAppendEntriesResponse 1 (demo_request 2) (fst (snd (demo_reply 2))) demo_later =
      Some (fst (the (handleAppendEntriesResponse 1 (demo_request 2) (fst (snd (demo_reply 2))) demo_later)),
            snd (the (handleAppendEntriesResponse 1 (demo_request 2) (fst (snd (demo_reply 2))) demo_later)))"
    by code_simp
  show ?thesis
    using backtracking_progress [OF demo_peers_ok l(1,2) demo_refused(1) l(3,4) demo_refused(2) demo_later_step demo_later_leads(1,2,4) l(5) h] by simp
qed

text \<open>A peer with entries 1 and 2 of term 1 installs a snapshot up to index 1 of term 2; a candidate of term 3 has the same two entries.\<close>

theorem CondInstallSnapshot_stale_suffix_witness:
  "let rf = demo_peer 1 StateFollower 2 [zeroEntry, demo_entry 1 1, demo_entry 2 1] 0;
       rf' = fst (the (CondInstallSnapshot 0 2 1 [] rf));
       req = the (genRequestVoteRequest (demo_peer 2 StateCandidate 3 [zeroEntry, demo_entry 1 1, demo_entry 2 1] 0))
   in commitIndex rf' = 1 \<and> rv_LastLogTerm req < e_Term (entry_at (logs rf') 1) \<and> rvr_VoteGranted (snd (the (RequestVote req rf')))"
proof -
  define rf where "rf = demo_peer 1 StateFollower 2 [zeroEntry, demo_entry 1 1, demo_entry 2 1] 0"
  define rf' where "rf' = fst (the (CondInstallSnapshot 0 2 1 [] rf))"
  define req where "req = the (genRequestVoteRequest (demo_peer 2 StateCandidate 3 [zeroEntry, demo_entry 1 1, demo_entry 2 1] 0))"
  have c: "raft_ok rf" "commitIndex rf < 1" "1 < lastIndex rf" "e_Term (last (logs rf)) < 2" "CondInstallSnapshot 0 2 1 [] rf = Some (rf', True)"
    "currentTerm rf < rv_Term req" "rv_LastLogTerm req = e_Term (last (logs rf))" "lastIndex rf \<le> rv_LastLogIndex req"
    "RequestVote req rf' = Some (fst (the (RequestVote req rf')), snd (the (RequestVote req rf')))"
    unfolding rf'_def rf_def req_def by code_simp+
  show ?thesis unfolding Let_def rf_def [symmetric] rf'_def [symmetric] req_def [symmetric]
    using CondInstallSnapshot_stale_suffix [OF c] by auto
qed

text \<open>A follower that has compacted its log beyond what the leader sends.\<close>

definition demo_compacted :: "(nat, unit) Raft" where
  "demo_compacted = the (Snapshot 0 2 [] (demo_peer 1 StateFollower 2 [zeroEntry, demo_entry 1 1, demo_entry 2 2] 2))"

theorem stale_prev_ignored_witness:
  "handleAppendEntriesResponse 1 (demo_request 1)
     (fst (snd (the (AppendEntries 0 (demo_request 1) demo_compacted)))) demo_leader = Some (demo_leader, [])"
proof -
  have c: "raft_ok demo_compacted" "0 < currentTerm demo_leader" "genAppendEntriesRequest 1 demo_leader = Some (demo_request 1)"
    "AppendEntries 0 (demo_request 1) demo_compacted =
      Some (fst (the (AppendEntries 0 (demo_request 1) demo_compacted)),
        fst (snd (the (AppendEntries 0 (demo_request 1) demo_compacted))),
        snd (snd (the (AppendEntries 0 (demo_request 1) demo_compacted))))"
    "\<not> ae_Term (demo_request 1) < currentTerm demo_compacted" "1 < firstIndex demo_compacted"
    by code_simp+
  show ?thesis using stale_prev_ignored [OF demo_peers_ok(1) c] by blast
qed

definition demo_majority :: "(nat, unit) Raft" where
  "demo_majority = demo_leader\<lparr>matchIndex := [2, 2, 0]\<rparr>"

theorem leader_commit_majority_witness:
  "commitIndex (fst (the (advanceCommitIndexForLeader demo_majority))) = 2 \<and>
   npeers demo_majority div 2 < card {p. p < npeers demo_majority \<and> 2 \<le> matchIndex demo_majority ! p}"
proof -
  have ok: "raft_ok demo_majority" by code_simp
  have a: "advanceCommitIndexForLeader demo_majority =
      Some (fst (the (advanceCommitIndexForLeader demo_majority)), snd (the (advanceCommitIndexForLeader demo_majority)))"
    "commitIndex (fst (the (advanceCommitIndexForLeader demo_majority))) = 2" "commitIndex demo_majority = 1"
    by code_simp+
  show ?thesis using leader_commit_majority [OF ok a(1)] a(2,3) by auto
qed

theorem committed_entries_stable_witness:
  "firstIndex demo_follower \<le> firstIndex (fst (demo_reply 1)) \<and> commitIndex demo_follower \<le> commitIndex (fst (demo_reply 1))"
proof -
  have "live_step demo_follower (fst (demo_reply 1))"
    using demo_event_ok demo_accepted(1) by (auto simp: live_step_def intro!: exI [of _ "EvAppendEntries 0 (demo_request 1)"])
  then show ?thesis using committed_entries_stable [OF demo_peers_ok(2)] by blast
qed

theorem applier_exact_witness:
  "\<exists>msgs. applier_collect demo_leader = Some (1, msgs) \<and> map am_CommandIndex msgs = [1]"
proof -
  have "app_init (demo_leader, None)" by code_simp
  then have "reach app_init app_step (demo_leader, None)" by (rule reach_init)
  moreover have "applier_ready demo_leader" "commitIndex demo_leader = 1" "lastApplied demo_leader = 0" by code_simp+
  ultimately show ?thesis using applier_exact [of demo_leader] by auto
qed

theorem CondInstallSnapshot_effect_witness:
  "commitIndex (fst (the (CondInstallSnapshot 0 2 3 [()] demo_follower))) = 3"
proof -
  have c: "CondInstallSnapshot 0 2 3 [()] demo_follower =
      Some (fst (the (CondInstallSnapshot 0 2 3 [()] demo_follower)), True)" by code_simp
  show ?thesis using CondInstallSnapshot_effect [OF demo_peers_ok(2) c] by simp
qed

text \<open>An election of three peers: peer 0 times out, peer 1 grants its vote, peer 0 counts it.\<close>

definition demo_cluster :: "(nat, unit) cluster" where
  "demo_cluster = \<lparr>nodes = (\<lambda>i. the (Make 3 i MakePersister)), calls = {}, granted = (\<lambda>i t. 0),
     voted = {}, counted = (\<lambda>i t. {})\<rparr>"

lemma demo_cluster_init: "cluster_init 3 demo_cluster"
proof -
  have "Make 3 i (MakePersister :: (nat gob, unit) Persister) = Some (the (Make 3 i MakePersister))" if "i < 3" for i
    using that Make_exists [of i 3 "MakePersister :: (nat gob, unit) Persister" 0 "-1" "[zeroEntry]"]
    by (auto simp: restored_def MakePersister_def)
  then show ?thesis by (simp add: cluster_init_def demo_cluster_def)
qed

definition demo_vote :: call where
  "demo_vote = \<lparr>c_from = 0, c_to = 1, c_req = the (genRequestVoteRequest demo_candidate), c_reply = None\<rparr>"

definition demo_granted :: "(nat, unit) Raft \<times> RequestVoteResponse" where
  "demo_granted = the (RequestVote (c_req demo_vote) (the (Make 3 1 MakePersister)))"

definition demo_elected :: "(nat, unit) Raft \<times> int \<times> (nat, unit) effect list" where
  "demo_elected = the (handleRequestVoteResponse (c_req demo_vote) (snd demo_granted) 1 demo_candidate)"

lemma demo_asked:
  "\<exists>s. reach (cluster_init 3) (cluster_step 3) s \<and> nodes s 0 = demo_candidate \<and>
     nodes s 1 = the (Make 3 1 MakePersister) \<and> demo_vote \<in> calls s \<and> granted s 0 1 = 1"
proof -
  have t: "ticker_election (nodes demo_cluster 0) = Some (demo_candidate, 1, snd (snd (the (ticker_election demo_fresh))))"
    "GoRequestVote 1 (c_req demo_vote) \<in> set (snd (snd (the (ticker_election demo_fresh))))" "currentTerm demo_candidate = 1"
    by code_simp+
  from t(2) have "demo_vote \<in> voteCalls 0 (snd (snd (the (ticker_election demo_fresh))))"
    by (auto simp: voteCalls_def demo_vote_def)
  moreover have "reach (cluster_init 3) (cluster_step 3) demo_cluster"
    using demo_cluster_init by (rule reach_init)
  note r = reach_step [of _ "cluster_step 3", OF this cluster_step.timeout [OF _ t(1)]]
  ultimately show ?thesis using t(3)
    by - (intro exI, rule conjI, rule r, simp_all add: update2_def demo_cluster_def)
qed

lemma demo_answered:
  "\<exists>s. reach (cluster_init 3) (cluster_step 3) s \<and> nodes s 0 = demo_candidate \<and>
     demo_vote\<lparr>c_reply := Some (snd demo_granted)\<rparr> \<in> calls s \<and> granted s 0 1 = 1"
proof -
  obtain s where s: "reach (cluster_init 3) (cluster_step 3) s" "nodes s 0 = demo_candidate"
    "nodes s 1 = the (Make 3 1 MakePersister)" "demo_vote \<in> calls s" "granted s 0 1 = 1"
    using demo_asked by blast
  have v: "c_reply demo_vote = None" "c_to demo_vote = 1" by (simp_all add: demo_vote_def)
  have "RequestVote (c_req demo_vote) (the (Make 3 1 MakePersister) :: (nat, unit) Raft) = Some (fst demo_granted, snd demo_granted)"
    by code_simp
  then have "RequestVote (c_req demo_vote) (nodes s (c_to demo_vote)) = Some (fst demo_granted, snd demo_granted)"
    using s(3) v(2) by simp
  note r = reach_step [of _ "cluster_step 3", OF s(1) cluster_step.deliver [OF s(4) v(1) this]]
  show ?thesis using s v by - (intro exI, rule conjI, rule r, simp_all)
qed

lemma demo_election:
  "\<exists>s :: (nat, unit) cluster. reach (cluster_init 3) (cluster_step 3) s \<and>
     state (nodes s 0) = StateLeader \<and> currentTerm (nodes s 0) = 1"
proof -
  obtain s where s: "reach (cluster_init 3) (cluster_step 3) s" "nodes s 0 = demo_candidate"
    "demo_vote\<lparr>c_reply := Some (snd demo_granted)\<rparr> \<in> calls s" "granted s 0 1 = 1"
    using demo_answered by blast
  have e: "handleRequestVoteResponse (c_req demo_vote) (snd demo_granted) 1 demo_candidate =
      Some (fst demo_elected, fst (snd demo_elected), snd (snd demo_elected))"
    "state (fst demo_elected) = StateLeader" "currentTerm (fst demo_elected) = 1" "rv_Term (c_req demo_vote) = 1" "c_from demo_vote = 0"
    by code_simp+
  let ?c = "demo_vote\<lparr>c_reply := Some (snd demo_granted)\<rparr>"
  have "handleRequestVoteResponse (c_req ?c) (snd demo_granted) (granted s 0 1) (nodes s 0) =
      Some (fst demo_elected, fst (snd demo_elected), snd (snd demo_elected))"
    using e(1) s(2,4) by simp
  note r = reach_step [of _ "cluster_step 3", OF s(1) cluster_step.answer [OF s(3) _ _ _ this]]
  show ?thesis using e by - (intro exI, rule conjI, rule r, simp_all)
qed

theorem election_safety_witness:
  "\<exists>s :: (nat, unit) cluster. {j. j < 3 \<and> state (nodes s j) = StateLeader \<and> currentTerm (nodes s j) = 1} = {0}"
proof -
  obtain s :: "(nat, unit) cluster" where s: "reach (cluster_init 3) (cluster_step 3) s"
    "state (nodes s 0) = StateLeader" "currentTerm (nodes s 0) = 1"
    using demo_election by blast
  then show ?thesis using election_safety [OF s(1), of _ 0] by (intro exI [of _ s]) force
qed

theorem single_peer_no_leader_witness:
  "\<exists>s :: (nat, unit) cluster. cluster_init 1 s \<and> state (nodes s 0) \<noteq> StateLeader"
proof -
  define s :: "(nat, unit) cluster" where "s = \<lparr>nodes = (\<lambda>i. the (Make 1 0 MakePersister)), calls = {},
     granted = (\<lambda>i t. 0), voted = {}, counted = (\<lambda>i t. {})\<rparr>"
  have "Make 1 0 MakePersister = Some (the (Make 1 0 MakePersister) :: (nat, unit) Raft)" by code_simp
  then have i: "cluster_init 1 s" by (simp add: cluster_init_def s_def)
  then show ?thesis using single_peer_no_leader [OF reach_init [of "cluster_init 1", OF i]] by blast
qed

end
