(* ===== verification/Sessions.thy ===== *)
theory Sessions
  imports Go_Prelude
begin

text \<open>
  Two contracts that several services share.

  \<open>sessions\<close>: a service that is fed from a replicated log in which a command may appear
  more than once, since a client repeats a request that it got no answer to.  The service
  remembers for every client the greatest command id it has applied and the response to
  it.  Shown once for all of them: what a log does to the state machine is what its
  \<open>effective\<close> commands do, one after the other; no command is effective twice; and every
  command that a client issued in order is effective.

  \<open>kv_store\<close>: a store with \<^verbatim>\<open>Get\<close>, \<^verbatim>\<open>Put\<close> and \<^verbatim>\<open>Append\<close>, abstractly a map from keys to
  values.
\<close>

section \<open>Logs with repeated commands\<close>

definition run_log :: "('c \<Rightarrow> 'st \<Rightarrow> 'st \<times> 'r) \<Rightarrow> 'c list \<Rightarrow> 'st \<Rightarrow> 'st" where
  "run_log step cs st = fold (\<lambda>c s. fst (step c s)) cs st"

text \<open>
  The commands of a log that change the state: updates whose id is greater than that of
  every earlier update of the same client.  \<open>hi\<close> is the greatest id so far.
\<close>

fun effective :: "('c \<Rightarrow> bool) \<Rightarrow> ('c \<Rightarrow> int) \<Rightarrow> ('c \<Rightarrow> int) \<Rightarrow> (int \<rightharpoonup> int) \<Rightarrow> 'c list \<Rightarrow> 'c list" where
  "effective upd client cid hi [] = []"
| "effective upd client cid hi (c # cs) =
     (if upd c \<and> (case hi (client c) of None \<Rightarrow> True | Some m \<Rightarrow> m < cid c)
      then c # effective upd client cid (hi(client c \<mapsto> cid c)) cs
      else effective upd client cid hi cs)"

text \<open>
  A log that clients produce who wait for the answer to a command before they issue the next one:
  an update that is not a repetition comes after all the updates of its client with smaller ids.
\<close>

definition issued_in_order :: "('c \<Rightarrow> bool) \<Rightarrow> ('c \<Rightarrow> int) \<Rightarrow> ('c \<Rightarrow> int) \<Rightarrow> 'c list \<Rightarrow> bool" where
  "issued_in_order upd client cid cs \<longleftrightarrow>
     (\<forall>j<length cs. upd (cs ! j) \<longrightarrow>
        (\<exists>i<j. upd (cs ! i) \<and> client (cs ! i) = client (cs ! j) \<and> cid (cs ! i) = cid (cs ! j)) \<or>
        (\<forall>i<j. upd (cs ! i) \<and> client (cs ! i) = client (cs ! j) \<longrightarrow> cid (cs ! i) < cid (cs ! j)))"

lemma run_log_Nil [simp]: "run_log step [] st = st"
  by (simp add: run_log_def)

lemma run_log_Cons [simp]: "run_log step (c # cs) st = run_log step cs (fst (step c st))"
  by (simp add: run_log_def)

lemma run_log_append: "run_log step (cs @ ds) st = run_log step ds (run_log step cs st)"
  by (simp add: run_log_def)

lemma effective_subset: "set (effective upd client cid hi cs) \<subseteq> {c \<in> set cs. upd c}"
  by (induction cs arbitrary: hi) auto

lemma effective_above:
  "c \<in> set (effective upd client cid hi cs) \<Longrightarrow> hi (client c) = Some m \<Longrightarrow> m < cid c"
proof (induction cs arbitrary: hi m)
  case (Cons d cs)
  show ?case
  proof (cases "upd d \<and> (case hi (client d) of None \<Rightarrow> True | Some m \<Rightarrow> m < cid d)")
    case True
    then consider "c = d" | "c \<in> set (effective upd client cid (hi(client d \<mapsto> cid d)) cs)"
      using Cons.prems(1) by auto
    then show ?thesis
    proof cases
      case 2
      then show ?thesis
        using Cons.IH [OF 2] Cons.prems(2) True
        by (cases "client c = client d") (auto split: option.splits intro: less_trans)
    qed (use True Cons.prems(2) in auto)
  next
    case False
    then have "c \<in> set (effective upd client cid hi cs)"
      using Cons.prems(1) by (simp only: effective.simps(2) if_False)
    then show ?thesis using Cons.IH Cons.prems(2) by blast
  qed
qed simp

text \<open>At most once: in the effective part of a log the ids of a client increase strictly.\<close>

lemma effective_once: "distinct (map (\<lambda>c. (client c, cid c)) (effective upd client cid hi cs))"
proof (induction cs arbitrary: hi)
  case (Cons d cs)
  have "(client d, cid d) \<notin> (\<lambda>c. (client c, cid c)) ` set (effective upd client cid (hi(client d \<mapsto> cid d)) cs)"
    by (force dest: effective_above)
  then show ?case using Cons.IH by simp
qed simp

lemma effective_snoc:
  "effective upd client cid hi (cs @ [c]) =
     effective upd client cid hi cs @
       (if upd c \<and> (\<forall>d\<in>set cs. upd d \<and> client d = client c \<longrightarrow> cid d < cid c) \<and>
           (\<forall>m. hi (client c) = Some m \<longrightarrow> m < cid c) then [c] else [])"
proof (induction cs arbitrary: hi)
  case Nil
  show ?case by (auto split: option.splits)
next
  case (Cons d cs)
  show ?case unfolding append_Cons effective.simps(2) Cons.IH
    by (auto split: option.splits)
qed

text \<open>At least once: in a log whose clients issue their commands in order, the effective commands are the
  updates of the log, each where it appears first.\<close>

fun first_updates :: "('c \<Rightarrow> bool) \<Rightarrow> ('c \<Rightarrow> 'k) \<Rightarrow> 'k set \<Rightarrow> 'c list \<Rightarrow> 'c list" where
  "first_updates upd key old [] = []"
| "first_updates upd key old (c # cs) =
     (if upd c \<and> key c \<notin> old then c # first_updates upd key (insert (key c) old) cs else first_updates upd key old cs)"

lemma first_updates_snoc:
  "first_updates upd key old (cs @ [c]) = first_updates upd key old cs @
     (if upd c \<and> key c \<notin> old \<and> (\<forall>d\<in>set cs. upd d \<longrightarrow> key d \<noteq> key c) then [c] else [])"
proof (induction cs arbitrary: old)
  case (Cons d cs)
  show ?case unfolding append_Cons first_updates.simps(2) Cons.IH by auto
qed simp

lemma issued_in_order_snoc:
  assumes "issued_in_order upd client cid (cs @ [c])"
  shows "issued_in_order upd client cid cs"
    "upd c \<Longrightarrow> (\<exists>d\<in>set cs. upd d \<and> client d = client c \<and> cid d = cid c) \<or>
      (\<forall>d\<in>set cs. upd d \<and> client d = client c \<longrightarrow> cid d < cid c)"
proof -
  show "issued_in_order upd client cid cs"
    unfolding issued_in_order_def
  proof (intro allI impI)
    fix j assume "j < length cs" "upd (cs ! j)"
    then show "(\<exists>i<j. upd (cs ! i) \<and> client (cs ! i) = client (cs ! j) \<and> cid (cs ! i) = cid (cs ! j)) \<or>
        (\<forall>i<j. upd (cs ! i) \<and> client (cs ! i) = client (cs ! j) \<longrightarrow> cid (cs ! i) < cid (cs ! j))"
      using assms unfolding issued_in_order_def
      by (elim allE [of _ j]) (auto simp: nth_append cong: conj_cong)
  qed
  assume "upd c"
  then have "(\<exists>i<length cs. upd (cs ! i) \<and> client (cs ! i) = client c \<and> cid (cs ! i) = cid c) \<or>
      (\<forall>i<length cs. upd (cs ! i) \<and> client (cs ! i) = client c \<longrightarrow> cid (cs ! i) < cid c)"
    using assms unfolding issued_in_order_def
    by (elim allE [of _ "length cs"]) (auto simp: nth_append cong: conj_cong)
  then show "(\<exists>d\<in>set cs. upd d \<and> client d = client c \<and> cid d = cid c) \<or>
      (\<forall>d\<in>set cs. upd d \<and> client d = client c \<longrightarrow> cid d < cid c)"
    by (metis in_set_conv_nth)
qed

lemma effective_first_updates:
  assumes "issued_in_order upd client cid cs"
  shows "effective upd client cid Map.empty cs = first_updates upd (\<lambda>c. (client c, cid c)) {} cs"
  using assms
proof (induction cs rule: rev_induct)
  case (snoc c cs)
  have "upd c \<Longrightarrow> (\<forall>d\<in>set cs. upd d \<and> client d = client c \<longrightarrow> cid d < cid c) \<longleftrightarrow>
      (\<forall>d\<in>set cs. upd d \<longrightarrow> (client d, cid d) \<noteq> (client c, cid c))"
    using issued_in_order_snoc(2) [OF snoc.prems] by fastforce
  then show ?case
    using snoc.IH [OF issued_in_order_snoc(1) [OF snoc.prems]] by (auto simp: effective_snoc first_updates_snoc)
qed simp

section \<open>The contract of a service with sessions\<close>

text \<open>
  \<open>step\<close> takes one command of the log; \<open>sm\<close> is the state machine, \<open>seen\<close> what is remembered
  of each client; \<open>apply_op\<close> is the state machine's own transition.  \<open>serves\<close> tells which
  commands the service accepts at all while \<open>inv\<close> holds.
\<close>

locale sessions =
  fixes step :: "'c \<Rightarrow> 'st \<Rightarrow> 'st \<times> 'r" and inv :: "'st \<Rightarrow> bool" and serves :: "'c \<Rightarrow> bool"
    and sm :: "'st \<Rightarrow> 's" and seen :: "'st \<Rightarrow> int \<Rightarrow> (int \<times> 'r) option"
    and apply_op :: "'c \<Rightarrow> 's \<Rightarrow> 's \<times> 'r" and readonly :: "'c \<Rightarrow> bool"
    and client :: "'c \<Rightarrow> int" and cid :: "'c \<Rightarrow> int"
  assumes inv_step: "inv st \<Longrightarrow> inv (fst (step c st))"
    and refused: "inv st \<Longrightarrow> \<not> serves c \<Longrightarrow> sm (fst (step c st)) = sm st \<and> seen (fst (step c st)) = seen st"
    and repeated: "inv st \<Longrightarrow> serves c \<Longrightarrow> \<not> readonly c \<Longrightarrow> seen st (client c) = Some (m, r) \<Longrightarrow> cid c \<le> m \<Longrightarrow>
      sm (fst (step c st)) = sm st \<and> seen (fst (step c st)) = seen st \<and> snd (step c st) = r"
    and fresh: "inv st \<Longrightarrow> serves c \<Longrightarrow> readonly c \<or> (\<forall>m r. seen st (client c) = Some (m, r) \<longrightarrow> m < cid c) \<Longrightarrow>
      sm (fst (step c st)) = fst (apply_op c (sm st)) \<and> snd (step c st) = snd (apply_op c (sm st)) \<and>
      seen (fst (step c st)) =
        (if readonly c then seen st else (seen st)(client c \<mapsto> (cid c, snd (apply_op c (sm st)))))"
    and reads_pure: "readonly c \<Longrightarrow> fst (apply_op c s) = s"
begin

abbreviation upd :: "'c \<Rightarrow> bool" where
  "upd c \<equiv> serves c \<and> \<not> readonly c"

abbreviation hi :: "'st \<Rightarrow> int \<Rightarrow> int option" where
  "hi st \<equiv> (\<lambda>x. map_option fst (seen st x))"

lemma step_cases:
  assumes "inv st"
  shows "(if upd c \<and> (case hi st (client c) of None \<Rightarrow> True | Some m \<Rightarrow> m < cid c)
     then sm (fst (step c st)) = fst (apply_op c (sm st)) \<and> hi (fst (step c st)) = (hi st)(client c \<mapsto> cid c)
     else sm (fst (step c st)) = sm st \<and> seen (fst (step c st)) = seen st)"
proof (cases "serves c \<and> (readonly c \<or> (\<forall>m r. seen st (client c) = Some (m, r) \<longrightarrow> m < cid c))")
  case True
  then show ?thesis using fresh [OF assms, of c] reads_pure [of c] by (auto split: option.splits)
next
  case False
  show ?thesis
  proof (cases "serves c")
    case True
    with False obtain m r where "\<not> readonly c" "seen st (client c) = Some (m, r)" "cid c \<le> m" by (auto simp: not_less)
    then show ?thesis using repeated [OF assms True] by simp
  qed (use refused [OF assms] in simp)
qed

lemma inv_run: "inv st \<Longrightarrow> inv (run_log step cs st)"
  by (induction cs arbitrary: st) (auto intro: inv_step)

text \<open>What a log does to the state machine.\<close>

lemma run_effective:
  "inv st \<Longrightarrow> sm (run_log step cs st) =
     fold (\<lambda>c s. fst (apply_op c s)) (effective upd client cid (hi st) cs) (sm st)"
proof (induction cs arbitrary: st)
  case (Cons c cs)
  have IH: "sm (run_log step cs (fst (step c st))) = fold (\<lambda>c s. fst (apply_op c s))
      (effective upd client cid (hi (fst (step c st))) cs) (sm (fst (step c st)))"
    by (rule Cons.IH [OF inv_step [OF Cons.prems]])
  show ?case using IH step_cases [OF Cons.prems, of c] by (simp split: if_split_asm)
qed simp

text \<open>A repeated command gets the response its first execution gave.\<close>

lemma seen_stays:
  assumes "inv st" "seen st x = Some (n, r)" "\<forall>d\<in>set cs. upd d \<and> client d = x \<longrightarrow> cid d \<le> n"
  shows "seen (run_log step cs st) x = Some (n, r)"
  using assms
proof (induction cs arbitrary: st)
  case (Cons d cs)
  have "seen (fst (step d st)) x = Some (n, r)"
  proof (cases "upd d \<and> client d = x")
    case True
    then show ?thesis using repeated [OF Cons.prems(1), of d n r] Cons.prems(2,3) by auto
  next
    case False
    show ?thesis
    proof (cases "serves d")
      case True
      then show ?thesis
        using fresh [OF Cons.prems(1), of d] repeated [OF Cons.prems(1), of d] Cons.prems(2) False
        by (cases "readonly d \<or> (\<forall>m r. seen st (client d) = Some (m, r) \<longrightarrow> m < cid d)") (auto simp: not_less)
    qed (use refused [OF Cons.prems(1)] Cons.prems(2) in simp)
  qed
  then show ?case using Cons.IH [OF inv_step [OF Cons.prems(1)]] Cons.prems(3) by simp
qed simp

lemma retry_response:
  assumes "inv st" "upd c" "\<forall>m r. seen st (client c) = Some (m, r) \<longrightarrow> m < cid c"
    and "\<forall>d\<in>set cs. upd d \<and> client d = client c \<longrightarrow> cid d \<le> cid c"
  shows "snd (step c (run_log step cs (fst (step c st)))) = snd (step c st)"
proof -
  have "seen (fst (step c st)) (client c) = Some (cid c, snd (step c st))"
    using fresh [OF assms(1), of c] assms(2,3) by simp
  then have "seen (run_log step cs (fst (step c st))) (client c) = Some (cid c, snd (step c st))"
    by (rule seen_stays [OF inv_step [OF assms(1)] _ assms(4)])
  then show ?thesis
    using repeated [OF inv_run [OF inv_step [OF assms(1)]]] assms(2) by simp
qed

end

section \<open>The contract of a key/value store\<close>

text \<open>\<open>good\<close> tells that the store can be written to; \<open>None\<close> is a panic.\<close>

locale kv_store =
  fixes good :: "'s \<Rightarrow> bool" and contents :: "'s \<Rightarrow> string \<Rightarrow> string option"
    and get :: "string \<Rightarrow> 's \<Rightarrow> string \<times> 'e"
    and put :: "string \<Rightarrow> string \<Rightarrow> 's \<Rightarrow> ('s \<times> 'e) option"
    and app :: "string \<Rightarrow> string \<Rightarrow> 's \<Rightarrow> ('s \<times> 'e) option"
    and ok :: 'e and nokey :: 'e
  assumes get_law: "get k s = (case contents s k of Some v \<Rightarrow> (v, ok) | None \<Rightarrow> ([], nokey))"
    and put_law: "good s \<Longrightarrow> \<exists>s'. put k v s = Some (s', ok) \<and> good s' \<and> contents s' = (contents s)(k \<mapsto> v)"
    and app_law: "good s \<Longrightarrow> \<exists>s'. app k v s = Some (s', ok) \<and> good s' \<and>
      contents s' = (contents s)(k \<mapsto> (case contents s k of None \<Rightarrow> v | Some w \<Rightarrow> w @ v))"
begin

text \<open>The value a reader sees: the empty string where there is none.\<close>

lemma get_after_put:
  assumes "good s" "put k v s = Some (s', e)"
  shows "get k' s' = (if k' = k then (v, ok) else get k' s)"
  using put_law [OF assms(1), of k v] assms(2) by (auto simp: get_law)

lemma get_after_app:
  assumes "good s" "app k v s = Some (s', e)"
  shows "fst (get k' s') = (if k' = k then fst (get k s) @ v else fst (get k' s))"
  using app_law [OF assms(1), of k v] assms(2) by (auto simp: get_law split: option.splits)

end

end
