(* ===== verification/KV_Server.thy ===== *)
theory KV_Server
  imports Raft_Inv Sessions
begin

text \<open>
  The key/value service of \<^verbatim>\<open>src/src/kvraft\<close>: \<^verbatim>\<open>KVStateMachine.go\<close>, \<^verbatim>\<open>common.go\<close>,
  \<^verbatim>\<open>server.go\<close> and \<^verbatim>\<open>client.go\<close>.

  \<^verbatim>\<open>Command\<close> waits between two critical sections, so it is split into the parts that run
  under a lock: the check for a repeated request, the proposal to Raft, the look-up of the
  channel, the receipt (or the timeout) and the release of the channel.  Channels live in
  a heap of buffers of capacity one, since \<^verbatim>\<open>Command\<close> keeps its reference while the map
  entry may be deleted and made anew.  The applier's critical section is one function of
  the message.  \<open>None\<close> is a panic or a send on a full channel, which blocks for ever with
  the lock held.  \<open>cap\<close> is the capacity that \<^verbatim>\<open>shrinkEntriesArray\<close> looks at and \<open>size_of\<close>
  the size of the encoded Raft state in bytes.

  Ids and indices are unbounded integers: a clerk counts its commands from 0 in steps of one.
\<close>

section \<open>Data\<close>

type_synonym Err = string
type_synonym OperationOp = string

definition OK :: Err where "OK = ''OK''"
definition ErrNoKey :: Err where "ErrNoKey = ''ErrNoKey''"
definition ErrWrongLeader :: Err where "ErrWrongLeader = ''ErrWrongLeader''"
definition ErrTimeout :: Err where "ErrTimeout = ''ErrTimeout''"

definition OpPut :: OperationOp where "OpPut = ''OpPut''"
definition OpAppend :: OperationOp where "OpAppend = ''OpAppend''"
definition OpGet :: OperationOp where "OpGet = ''OpGet''"

record CommandRequest =
  cr_Key :: string
  cr_Value :: string
  cr_Op :: OperationOp
  cr_ClientId :: int
  cr_CommandId :: int

record CommandResponse =
  cs_Err :: Err
  cs_Value :: string

record OperationContext =
  oc_MaxAppliedCommandId :: int
  oc_LastResponse :: CommandResponse

record MemoryKV =
  KV :: "(string, string) mapref"

text \<open>The values that \<^verbatim>\<open>takeSnapshot\<close> encodes.\<close>

datatype kv_gob =
    GobStateMachine MemoryKV
  | GobLastOperations "(int, OperationContext) mapref"

record KVServer =
  kv_me :: int
  kv_rf :: "(CommandRequest, kv_gob) Raft"
  kv_dead :: bool
  kv_maxraftstate :: int
  kv_lastApplied :: int
  kv_stateMachine :: MemoryKV
  kv_lastOperations :: "(int, OperationContext) mapref"
  kv_notifyChans :: "(int, nat) mapref"
  kv_chans :: "CommandResponse list list"

section \<open>The state machine\<close>

definition NewMemoryKV :: MemoryKV where
  "NewMemoryKV = \<lparr>KV = Some Map.empty\<rparr>"

definition MemoryKV_Get :: "string \<Rightarrow> MemoryKV \<Rightarrow> string \<times> Err" where
  "MemoryKV_Get key m = (case mr_get (KV m) key of Some value \<Rightarrow> (value, OK) | None \<Rightarrow> ([], ErrNoKey))"

definition MemoryKV_Put :: "string \<Rightarrow> string \<Rightarrow> MemoryKV \<Rightarrow> (MemoryKV \<times> Err) option" where
  "MemoryKV_Put key value m = do {
     m' \<leftarrow> mr_set (KV m) key value;
     Some (m\<lparr>KV := m'\<rparr>, OK)
   }"

definition MemoryKV_Append :: "string \<Rightarrow> string \<Rightarrow> MemoryKV \<Rightarrow> (MemoryKV \<times> Err) option" where
  "MemoryKV_Append key value m = do {
     let old = (case mr_get (KV m) key of Some v \<Rightarrow> v | None \<Rightarrow> []);
     m' \<leftarrow> mr_set (KV m) key (old @ value);
     Some (m\<lparr>KV := m'\<rparr>, OK)
   }"

text \<open>An operation that is none of the three leaves \<^verbatim>\<open>err\<close> and \<^verbatim>\<open>value\<close> at their zero values.\<close>

definition applyLogToStateMachine :: "CommandRequest \<Rightarrow> MemoryKV \<Rightarrow> (MemoryKV \<times> CommandResponse) option" where
  "applyLogToStateMachine command m =
     (if cr_Op command = OpPut then do {
        (m', err) \<leftarrow> MemoryKV_Put (cr_Key command) (cr_Value command) m;
        Some (m', \<lparr>cs_Err = err, cs_Value = []\<rparr>)
      }
      else if cr_Op command = OpAppend then do {
        (m', err) \<leftarrow> MemoryKV_Append (cr_Key command) (cr_Value command) m;
        Some (m', \<lparr>cs_Err = err, cs_Value = []\<rparr>)
      }
      else if cr_Op command = OpGet then
        (let (value, err) = MemoryKV_Get (cr_Key command) m in Some (m, \<lparr>cs_Err = err, cs_Value = value\<rparr>))
      else Some (m, \<lparr>cs_Err = [], cs_Value = []\<rparr>))"

section \<open>The request handler\<close>

definition isDuplicateRequest :: "int \<Rightarrow> int \<Rightarrow> KVServer \<Rightarrow> bool" where
  "isDuplicateRequest clientId requestId kv =
     (case mr_get (kv_lastOperations kv) clientId of
        None \<Rightarrow> False
      | Some operationContext \<Rightarrow> requestId \<le> oc_MaxAppliedCommandId operationContext)"

definition getNotifyChan :: "int \<Rightarrow> KVServer \<Rightarrow> (KVServer \<times> nat) option" where
  "getNotifyChan index kv =
     (case mr_get (kv_notifyChans kv) index of
        Some ch \<Rightarrow> Some (kv, ch)
      | None \<Rightarrow> do {
          let ch = length (kv_chans kv);
          m \<leftarrow> mr_set (kv_notifyChans kv) index ch;
          Some (kv\<lparr>kv_notifyChans := m, kv_chans := kv_chans kv @ [[]]\<rparr>, ch)
        })"

definition removeOutdatedNotifyChan :: "int \<Rightarrow> KVServer \<Rightarrow> KVServer" where
  "removeOutdatedNotifyChan index kv = kv\<lparr>kv_notifyChans := mr_delete (kv_notifyChans kv) index\<rparr>"

text \<open>The first critical section of \<^verbatim>\<open>Command\<close>: the response to a repeated request.\<close>

definition Command_check :: "CommandRequest \<Rightarrow> KVServer \<Rightarrow> CommandResponse option" where
  "Command_check request kv =
     (if cr_Op request \<noteq> OpGet \<and> isDuplicateRequest (cr_ClientId request) (cr_CommandId request) kv
      then map_option oc_LastResponse (mr_get (kv_lastOperations kv) (cr_ClientId request))
      else None)"

text \<open>The proposal: the index to wait for, or the response when this peer does not lead.\<close>

definition Command_propose :: "CommandRequest \<Rightarrow> KVServer \<Rightarrow> (KVServer \<times> (CommandResponse + int)) option" where
  "Command_propose request kv = do {
     (rf', (index, _, isLeader), _) \<leftarrow> Start request (kv_rf kv);
     let kv' = kv\<lparr>kv_rf := rf'\<rparr>;
     Some (kv', if \<not> isLeader then Inl \<lparr>cs_Err = ErrWrongLeader, cs_Value = []\<rparr> else Inr index)
   }"

text \<open>\<^verbatim>\<open>result := <-ch\<close>: possible when the buffer is not empty.\<close>

definition Command_receive :: "nat \<Rightarrow> KVServer \<Rightarrow> (KVServer \<times> CommandResponse) option" where
  "Command_receive ch kv = do {
     buf \<leftarrow> go_index (kv_chans kv) (int ch);
     case buf of
       [] \<Rightarrow> None
     | result # rest \<Rightarrow> Some (kv\<lparr>kv_chans := (kv_chans kv)[ch := rest]\<rparr>,
         \<lparr>cs_Err = cs_Err result, cs_Value = cs_Value result\<rparr>)
   }"

definition Command_timeout :: CommandResponse where
  "Command_timeout = \<lparr>cs_Err = ErrTimeout, cs_Value = []\<rparr>"

section \<open>Snapshots\<close>

definition needSnapshot :: "(CommandRequest gob list \<Rightarrow> int) \<Rightarrow> KVServer \<Rightarrow> bool" where
  "needSnapshot size_of kv \<longleftrightarrow> kv_maxraftstate kv \<noteq> -1 \<and> kv_maxraftstate kv \<le> GetRaftStateSize size_of (kv_rf kv)"

definition takeSnapshot :: "int \<Rightarrow> int \<Rightarrow> KVServer \<Rightarrow> KVServer option" where
  "takeSnapshot cap index kv = do {
     let w = [] @ [GobStateMachine (kv_stateMachine kv)] @ [GobLastOperations (kv_lastOperations kv)];
     rf' \<leftarrow> Snapshot cap index w (kv_rf kv);
     Some (kv\<lparr>kv_rf := rf'\<rparr>)
   }"

fun decodeStateMachine :: "kv_gob list \<Rightarrow> (MemoryKV \<times> kv_gob list) option" where
  "decodeStateMachine (GobStateMachine m # r) = Some (m, r)"
| "decodeStateMachine _ = None"

fun decodeLastOperations :: "kv_gob list \<Rightarrow> ((int, OperationContext) mapref \<times> kv_gob list) option" where
  "decodeLastOperations (GobLastOperations l # r) = Some (l, r)"
| "decodeLastOperations _ = None"

text \<open>A decoding error is only logged; what was not decoded is the zero value, a nil map.\<close>

definition restoreSnapshot :: "kv_gob list \<Rightarrow> KVServer \<Rightarrow> KVServer" where
  "restoreSnapshot snap kv =
     (if snap = [] then kv
      else case decodeStateMachine snap of
          None \<Rightarrow> kv\<lparr>kv_stateMachine := \<lparr>KV = None\<rparr>, kv_lastOperations := None\<rparr>
        | Some (sm, r) \<Rightarrow>
            (case decodeLastOperations r of
               None \<Rightarrow> kv\<lparr>kv_stateMachine := sm, kv_lastOperations := None\<rparr>
             | Some (lo, _) \<Rightarrow> kv\<lparr>kv_stateMachine := sm, kv_lastOperations := lo\<rparr>))"

section \<open>The applier\<close>

text \<open>The part of the applier that touches the replicated state: the check for a repeated
  command, the state machine and the record of the client.\<close>

definition applyCommand :: "CommandRequest \<Rightarrow> KVServer \<Rightarrow> (KVServer \<times> CommandResponse) option" where
  "applyCommand command kv =
     (if cr_Op command \<noteq> OpGet \<and> isDuplicateRequest (cr_ClientId command) (cr_CommandId command) kv
      then do {
        oc \<leftarrow> mr_get (kv_lastOperations kv) (cr_ClientId command);
        Some (kv, oc_LastResponse oc)
      }
      else do {
        (sm, response) \<leftarrow> applyLogToStateMachine command (kv_stateMachine kv);
        let kv1 = kv\<lparr>kv_stateMachine := sm\<rparr>;
        if cr_Op command \<noteq> OpGet then do {
          lo \<leftarrow> mr_set (kv_lastOperations kv1) (cr_ClientId command)
                  \<lparr>oc_MaxAppliedCommandId = cr_CommandId command, oc_LastResponse = response\<rparr>;
          Some (kv1\<lparr>kv_lastOperations := lo\<rparr>, response)
        } else Some (kv1, response)
      })"

text \<open>\<^verbatim>\<open>ch <- response\<close> on a channel of capacity one.\<close>

definition chan_send :: "nat \<Rightarrow> CommandResponse \<Rightarrow> KVServer \<Rightarrow> KVServer option" where
  "chan_send ch response kv = do {
     buf \<leftarrow> go_index (kv_chans kv) (int ch);
     if length buf < 1 then Some (kv\<lparr>kv_chans := (kv_chans kv)[ch := buf @ [response]]\<rparr>) else None
   }"

definition kv_applier ::
    "int \<Rightarrow> (CommandRequest gob list \<Rightarrow> int) \<Rightarrow> (CommandRequest, kv_gob) ApplyMsg \<Rightarrow> KVServer \<Rightarrow> KVServer option" where
  "kv_applier cap size_of message kv =
     (if am_CommandValid message then
        if am_CommandIndex message \<le> kv_lastApplied kv then Some kv
        else do {
          let kv1 = kv\<lparr>kv_lastApplied := am_CommandIndex message\<rparr>;
          command \<leftarrow> am_Command message;
          (kv2, response) \<leftarrow> applyCommand command kv1;
          kv3 \<leftarrow> (let (currentTerm, isLeader) = GetState (kv_rf kv2) in
                   if isLeader \<and> am_CommandTerm message = currentTerm then do {
                     (kv', ch) \<leftarrow> getNotifyChan (am_CommandIndex message) kv2;
                     chan_send ch response kv'
                   } else Some kv2);
          if needSnapshot size_of kv3 then takeSnapshot cap (am_CommandIndex message) kv3 else Some kv3
        }
      else if am_SnapshotValid message then do {
        (rf', installed) \<leftarrow> CondInstallSnapshot cap (am_SnapshotTerm message) (am_SnapshotIndex message)
                              (am_Snapshot message) (kv_rf kv);
        let kv1 = kv\<lparr>kv_rf := rf'\<rparr>;
        if installed then Some ((restoreSnapshot (am_Snapshot message) kv1)\<lparr>kv_lastApplied := am_SnapshotIndex message\<rparr>)
        else Some kv1
      }
      else None)"

definition KVServer_Kill :: "KVServer \<Rightarrow> KVServer" where
  "KVServer_Kill kv = kv\<lparr>kv_dead := True, kv_rf := Raft_Kill (kv_rf kv)\<rparr>"

definition KVServer_killed :: "KVServer \<Rightarrow> bool" where
  "KVServer_killed kv = kv_dead kv"

text \<open>The field \<^verbatim>\<open>me\<close> is not set and keeps the value 0.\<close>

definition StartKVServer :: "nat \<Rightarrow> nat \<Rightarrow> (CommandRequest gob, kv_gob) Persister \<Rightarrow> int \<Rightarrow> KVServer option" where
  "StartKVServer nservers i ps maxraftstate = do {
     rf \<leftarrow> Make nservers i ps;
     let kv = \<lparr>kv_me = 0, kv_rf = rf, kv_dead = False, kv_maxraftstate = maxraftstate, kv_lastApplied = 0,
               kv_stateMachine = NewMemoryKV, kv_lastOperations = Some Map.empty,
               kv_notifyChans = Some Map.empty, kv_chans = []\<rparr>;
     Some (restoreSnapshot (ReadSnapshot ps) kv)
   }"

section \<open>The clerk\<close>

record Clerk =
  ck_servers :: nat
  ck_leaderId :: int
  ck_clientId :: int
  ck_commandId :: int

definition MakeClerk :: "nat \<Rightarrow> int \<Rightarrow> Clerk" where
  "MakeClerk servers nrand = \<lparr>ck_servers = servers, ck_leaderId = 0, ck_clientId = nrand, ck_commandId = 0\<rparr>"

text \<open>
  The loop of \<^verbatim>\<open>Clerk.Command\<close>.  What the network and the servers answer to the attempts is a
  list: \<open>None\<close> is a call that failed.  The loop needs as many answers as it makes attempts;
  when they run out the clerk is still trying (\<open>None\<close>).  The result carries the
  requests sent, with the server each went to.
\<close>

fun Clerk_loop :: "CommandRequest \<Rightarrow> CommandResponse option list \<Rightarrow> Clerk \<Rightarrow> (int \<times> CommandRequest) list \<Rightarrow>
    (Clerk \<times> string \<times> (int \<times> CommandRequest) list) option" where
  "Clerk_loop request [] ck sent = None"
| "Clerk_loop request (answer # answers) ck sent =
     (let sent' = sent @ [(ck_leaderId ck, request)];
          retry = (case answer of None \<Rightarrow> True
                   | Some response \<Rightarrow> cs_Err response = ErrWrongLeader \<or> cs_Err response = ErrTimeout)
      in if retry then Clerk_loop request answers (ck\<lparr>ck_leaderId := (ck_leaderId ck + 1) mod int (ck_servers ck)\<rparr>) sent'
         else Some (ck\<lparr>ck_commandId := ck_commandId ck + 1\<rparr>, cs_Value (the answer), sent'))"

definition Clerk_Command :: "CommandRequest \<Rightarrow> CommandResponse option list \<Rightarrow> Clerk \<Rightarrow>
    (Clerk \<times> string \<times> (int \<times> CommandRequest) list) option" where
  "Clerk_Command request answers ck =
     Clerk_loop (request\<lparr>cr_ClientId := ck_clientId ck, cr_CommandId := ck_commandId ck\<rparr>) answers ck []"

definition newRequest :: "string \<Rightarrow> string \<Rightarrow> OperationOp \<Rightarrow> CommandRequest" where
  "newRequest key value op = \<lparr>cr_Key = key, cr_Value = value, cr_Op = op, cr_ClientId = 0, cr_CommandId = 0\<rparr>"

definition Clerk_Get :: "string \<Rightarrow> CommandResponse option list \<Rightarrow> Clerk \<Rightarrow> (Clerk \<times> string \<times> (int \<times> CommandRequest) list) option" where
  "Clerk_Get key = Clerk_Command (newRequest key [] OpGet)"

definition Clerk_Put :: "string \<Rightarrow> string \<Rightarrow> CommandResponse option list \<Rightarrow> Clerk \<Rightarrow> (Clerk \<times> string \<times> (int \<times> CommandRequest) list) option" where
  "Clerk_Put key value = Clerk_Command (newRequest key value OpPut)"

definition Clerk_Append :: "string \<Rightarrow> string \<Rightarrow> CommandResponse option list \<Rightarrow> Clerk \<Rightarrow> (Clerk \<times> string \<times> (int \<times> CommandRequest) list) option" where
  "Clerk_Append key value = Clerk_Command (newRequest key value OpAppend)"

section \<open>The contracts\<close>

lemmas kv_op_defs = OpPut_def OpAppend_def OpGet_def
lemmas kv_err_defs = OK_def ErrNoKey_def ErrWrongLeader_def ErrTimeout_def

interpretation memory_kv: kv_store "\<lambda>m. KV m \<noteq> None" "\<lambda>m. mr_get (KV m)"
  MemoryKV_Get MemoryKV_Put MemoryKV_Append OK ErrNoKey
  by unfold_locales (auto simp: MemoryKV_Get_def MemoryKV_Put_def MemoryKV_Append_def Let_def split: option.splits)

lemma applyLogToStateMachine_ok:
  assumes "KV m \<noteq> None"
  shows "\<exists>m' r. applyLogToStateMachine c m = Some (m', r) \<and> KV m' \<noteq> None"
  using memory_kv.put_law [OF assms, of "cr_Key c" "cr_Value c"] memory_kv.app_law [OF assms, of "cr_Key c" "cr_Value c"] assms
  by (auto simp: applyLogToStateMachine_def split: prod.splits)

lemma applyLogToStateMachine_get: "cr_Op c = OpGet \<Longrightarrow> \<exists>r. applyLogToStateMachine c m = Some (m, r)"
  by (simp add: applyLogToStateMachine_def kv_op_defs split: prod.splits)

text \<open>The replicated part of the server as a service with sessions.\<close>

definition kv_good :: "KVServer \<Rightarrow> bool" where
  "kv_good kv \<longleftrightarrow> KV (kv_stateMachine kv) \<noteq> None \<and> kv_lastOperations kv \<noteq> None"

definition kv_step :: "CommandRequest \<Rightarrow> KVServer \<Rightarrow> KVServer \<times> CommandResponse" where
  "kv_step c kv = (case applyCommand c kv of Some r \<Rightarrow> r | None \<Rightarrow> (kv, Command_timeout))"

definition kv_op :: "CommandRequest \<Rightarrow> MemoryKV \<Rightarrow> MemoryKV \<times> CommandResponse" where
  "kv_op c m = (case applyLogToStateMachine c m of Some r \<Rightarrow> r | None \<Rightarrow> (m, Command_timeout))"

definition kv_seen :: "KVServer \<Rightarrow> int \<Rightarrow> (int \<times> CommandResponse) option" where
  "kv_seen kv x = map_option (\<lambda>oc. (oc_MaxAppliedCommandId oc, oc_LastResponse oc)) (mr_get (kv_lastOperations kv) x)"

lemma applyCommand_ok:
  assumes "kv_good kv"
  shows "\<exists>kv' r. applyCommand c kv = Some (kv', r) \<and> kv_good kv' \<and>
    kv' = kv\<lparr>kv_stateMachine := kv_stateMachine kv', kv_lastOperations := kv_lastOperations kv'\<rparr>"
  using assms applyLogToStateMachine_ok [of "kv_stateMachine kv" c]
  by (auto simp: applyCommand_def kv_good_def isDuplicateRequest_def Let_def split: option.splits)

interpretation kv_sessions: sessions kv_step kv_good "\<lambda>_. True" kv_stateMachine kv_seen kv_op
  "\<lambda>c. cr_Op c = OpGet" cr_ClientId cr_CommandId
proof
  fix st :: KVServer and c :: CommandRequest assume "kv_good st"
  then show "kv_good (fst (kv_step c st))" using applyCommand_ok [of st c] by (auto simp: kv_step_def)
next
  fix st :: KVServer and c :: CommandRequest and m r
  assume "kv_good st" "\<not> cr_Op c = OpGet" "kv_seen st (cr_ClientId c) = Some (m, r)" "cr_CommandId c \<le> m"
  then show "kv_stateMachine (fst (kv_step c st)) = kv_stateMachine st \<and> kv_seen (fst (kv_step c st)) = kv_seen st \<and>
      snd (kv_step c st) = r"
    by (auto simp: kv_step_def applyCommand_def kv_seen_def isDuplicateRequest_def)
next
  fix st :: KVServer and c :: CommandRequest
  assume g: "kv_good st" and n: "cr_Op c = OpGet \<or> (\<forall>m r. kv_seen st (cr_ClientId c) = Some (m, r) \<longrightarrow> m < cr_CommandId c)"
  obtain m' r where a: "applyLogToStateMachine c (kv_stateMachine st) = Some (m', r)"
    using g applyLogToStateMachine_ok by (force simp: kv_good_def)
  have dup: "\<not> (cr_Op c \<noteq> OpGet \<and> isDuplicateRequest (cr_ClientId c) (cr_CommandId c) st)"
    using n by (auto simp: kv_seen_def isDuplicateRequest_def split: option.splits)
  obtain f where f: "kv_lastOperations st = Some f" using g by (auto simp: kv_good_def)
  have d: "applyCommand c st = Some (if cr_Op c = OpGet then st\<lparr>kv_stateMachine := m'\<rparr>
      else st\<lparr>kv_stateMachine := m', kv_lastOperations :=
        Some (f(cr_ClientId c \<mapsto> \<lparr>oc_MaxAppliedCommandId = cr_CommandId c, oc_LastResponse = r\<rparr>))\<rparr>, r)"
    unfolding applyCommand_def if_not_P [OF dup] using a f by simp
  show "kv_stateMachine (fst (kv_step c st)) = fst (kv_op c (kv_stateMachine st)) \<and>
      snd (kv_step c st) = snd (kv_op c (kv_stateMachine st)) \<and>
      kv_seen (fst (kv_step c st)) = (if cr_Op c = OpGet then kv_seen st
        else (kv_seen st)(cr_ClientId c \<mapsto> (cr_CommandId c, snd (kv_op c (kv_stateMachine st)))))"
    using d a f by (auto simp: kv_step_def kv_op_def kv_seen_def)
next
  fix c :: CommandRequest and m assume "cr_Op c = OpGet"
  then show "fst (kv_op c m) = m" using applyLogToStateMachine_get [of c m] by (auto simp: kv_op_def)
qed auto

end
