(* ===== verification/KV_Model.thy ===== *)
theory KV_Model
  imports KV_Server "HOL-Library.Word" "HOL-Library.List_Lexorder" "HOL-Library.Char_ord"
begin

text \<open>
  The sequential specification that the tests check the services against: \<^verbatim>\<open>KvModel\<close> of
  \<^verbatim>\<open>src/src/models/kv.go\<close> and the struct \<^verbatim>\<open>Operation\<close> of \<^verbatim>\<open>porcupine/model.go\<close>.  The partition
  of a history by key goes through a Go map whose iteration order is the order of the
  association list; sorting the keys makes the result independent of it.

  Shown here: the operations that a replica of \<^verbatim>\<open>kvraft\<close> executes, in log order and with
  the responses it gives, are a legal sequential history of this model.
\<close>

section \<open>The model\<close>

record ('i, 'o) Operation =
  op_ClientId :: int
  op_Input :: 'i
  op_Call :: int
  op_Output :: 'o
  op_Return :: int

record KvInput =
  ki_Op :: "8 word"
  ki_Key :: string
  ki_Value :: string

record KvOutput =
  ko_Value :: string

type_synonym kv_operation = "(KvInput, KvOutput) Operation"

definition KvModel_Init :: string where
  "KvModel_Init = []"

definition KvModel_Step :: "string \<Rightarrow> KvInput \<Rightarrow> KvOutput \<Rightarrow> bool \<times> string" where
  "KvModel_Step st inp out =
     (if ki_Op inp = 0 then (ko_Value out = st, st)
      else if ki_Op inp = 1 then (True, ki_Value inp)
      else (True, st @ ki_Value inp))"

definition partition_insert :: "kv_operation \<Rightarrow> (string, kv_operation list) gomap \<Rightarrow> (string, kv_operation list) gomap" where
  "partition_insert v m = (let key = ki_Key (op_Input v) in
     AList.update key ((case map_of m key of None \<Rightarrow> [] | Some vs \<Rightarrow> vs) @ [v]) m)"

definition KvModel_Partition :: "kv_operation list \<Rightarrow> kv_operation list list" where
  "KvModel_Partition history =
     (let m = fold partition_insert history [];
          keys = sort (map fst m)
      in map (\<lambda>k. case map_of m k of None \<Rightarrow> [] | Some vs \<Rightarrow> vs) keys)"

section \<open>Legal histories\<close>

fun legal :: "('s \<Rightarrow> 'i \<Rightarrow> 'o \<Rightarrow> bool \<times> 's) \<Rightarrow> 's \<Rightarrow> ('i \<times> 'o) list \<Rightarrow> bool" where
  "legal step st [] = True"
| "legal step st ((i, o') # h) = (let (ok, st') = step st i o' in ok \<and> legal step st' h)"

text \<open>A command as an input of the model: \<^verbatim>\<open>0 => get, 1 => put, 2 => append\<close>.\<close>

definition kv_input :: "CommandRequest \<Rightarrow> KvInput" where
  "kv_input c = \<lparr>ki_Op = (if cr_Op c = OpGet then 0 else if cr_Op c = OpPut then 1 else 2),
     ki_Key = cr_Key c, ki_Value = cr_Value c\<rparr>"

text \<open>The operations a replica executes, that is all but the repeated ones, with their responses.\<close>

fun kv_history :: "CommandRequest list \<Rightarrow> KVServer \<Rightarrow> (KvInput \<times> KvOutput) list" where
  "kv_history [] kv = []"
| "kv_history (c # cs) kv =
     (if cr_Op c \<noteq> OpGet \<and> isDuplicateRequest (cr_ClientId c) (cr_CommandId c) kv then []
      else [(kv_input c, \<lparr>ko_Value = cs_Value (snd (kv_step c kv))\<rparr>)]) @
     kv_history cs (fst (kv_step c kv))"

definition valid_op :: "CommandRequest \<Rightarrow> bool" where
  "valid_op c \<longleftrightarrow> cr_Op c = OpGet \<or> cr_Op c = OpPut \<or> cr_Op c = OpAppend"

definition kv_value :: "string \<Rightarrow> KVServer \<Rightarrow> string" where
  "kv_value k kv = fst (MemoryKV_Get k (kv_stateMachine kv))"

section \<open>Partitions\<close>

lemma partition_wf: "gm_wf m \<Longrightarrow> gm_wf (fold partition_insert h m)"
  by (induction h arbitrary: m) (auto simp: partition_insert_def Let_def)

lemma partition_insert_lookup:
  "map_of (partition_insert v m) k =
     (if k = ki_Key (op_Input v) then Some ((case map_of m k of None \<Rightarrow> [] | Some vs \<Rightarrow> vs) @ [v]) else map_of m k)"
  by (auto simp: partition_insert_def Let_def update_conv')

lemma partition_lookup:
  "map_of (fold partition_insert h m) k =
     (case filter (\<lambda>v. ki_Key (op_Input v) = k) h of
        [] \<Rightarrow> map_of m k
      | vs \<Rightarrow> Some ((case map_of m k of None \<Rightarrow> [] | Some ws \<Rightarrow> ws) @ vs))"
proof (induction h arbitrary: m)
  case (Cons v h)
  show ?case
    by (auto simp: Cons.IH partition_insert_lookup split: list.splits option.splits)
qed simp

lemma partition_keys: "fst ` set (fold partition_insert h m) = fst ` set m \<union> (\<lambda>v. ki_Key (op_Input v)) ` set h"
  by (induction h arbitrary: m) (auto simp: partition_insert_def Let_def)

text \<open>One part per key, in the order of the keys, each the operations on that key in their order.\<close>

lemma Partition_by_key:
  "KvModel_Partition h =
     map (\<lambda>k. filter (\<lambda>v. ki_Key (op_Input v) = k) h) (sorted_list_of_set ((\<lambda>v. ki_Key (op_Input v)) ` set h))"
proof -
  let ?m = "fold partition_insert h []"
  have "sort (map fst ?m) = sorted_list_of_set (set (map fst ?m))"
    using partition_wf [of "[]" h] sorted_list_of_set_sort_remdups [of "map fst ?m"] distinct_remdups_id [of "map fst ?m"] by simp
  then have "sort (map fst ?m) = sorted_list_of_set ((\<lambda>v. ki_Key (op_Input v)) ` set h)"
    using partition_keys [of h "[]"] by simp
  moreover have "(case map_of ?m k of None \<Rightarrow> [] | Some vs \<Rightarrow> vs) = filter (\<lambda>v. ki_Key (op_Input v) = k) h" for k
    by (auto simp: partition_lookup split: list.splits option.splits)
  ultimately show ?thesis by (simp add: KvModel_Partition_def Let_def)
qed

section \<open>A replica's history is legal\<close>

lemma kv_input_key [simp]: "ki_Key (kv_input c) = cr_Key c"
  by (simp add: kv_input_def)

lemma kv_value_step:
  assumes g: "kv_good kv" and v: "valid_op c"
    and n: "\<not> (cr_Op c \<noteq> OpGet \<and> isDuplicateRequest (cr_ClientId c) (cr_CommandId c) kv)"
  shows "kv_value k (fst (kv_step c kv)) =
      (if k = cr_Key c then snd (KvModel_Step (kv_value k kv) (kv_input c) out) else kv_value k kv) \<and>
    (cr_Op c = OpGet \<longrightarrow> cs_Value (snd (kv_step c kv)) = kv_value (cr_Key c) kv)"
proof -
  have kv: "KV (kv_stateMachine kv) \<noteq> None" using g by (simp add: kv_good_def)
  have "cr_Op c = OpGet \<or> (\<forall>m r. kv_seen kv (cr_ClientId c) = Some (m, r) \<longrightarrow> m < cr_CommandId c)"
    using n by (auto simp: kv_seen_def isDuplicateRequest_def)
  from kv_sessions.fresh [OF g _ this]
  have f: "kv_stateMachine (fst (kv_step c kv)) = fst (kv_op c (kv_stateMachine kv))" "snd (kv_step c kv) = snd (kv_op c (kv_stateMachine kv))"
    by auto
  obtain sp where p: "MemoryKV_Put (cr_Key c) (cr_Value c) (kv_stateMachine kv) = Some (sp, OK)"
    using memory_kv.put_law [OF kv] by blast
  obtain sa where a: "MemoryKV_Append (cr_Key c) (cr_Value c) (kv_stateMachine kv) = Some (sa, OK)"
    using memory_kv.app_law [OF kv] by blast
  consider "cr_Op c = OpGet" | "cr_Op c = OpPut" | "cr_Op c = OpAppend" using v by (auto simp: valid_op_def)
  then show ?thesis
  proof cases
    case 1
    then show ?thesis
      by (simp add: kv_value_def f kv_op_def applyLogToStateMachine_def KvModel_Step_def kv_input_def kv_op_defs split: prod.splits)
  next
    case 2
    then show ?thesis using memory_kv.get_after_put [OF kv p]
      by (simp add: kv_value_def f kv_op_def applyLogToStateMachine_def p KvModel_Step_def kv_input_def kv_op_defs)
  next
    case 3
    then show ?thesis using memory_kv.get_after_app [OF kv a]
      by (simp add: kv_value_def f kv_op_def applyLogToStateMachine_def a KvModel_Step_def kv_input_def kv_op_defs)
  qed
qed

lemma kv_step_duplicate:
  assumes "cr_Op c \<noteq> OpGet" "isDuplicateRequest (cr_ClientId c) (cr_CommandId c) kv"
  shows "fst (kv_step c kv) = kv"
  using assms by (auto simp: kv_step_def applyCommand_def isDuplicateRequest_def split: option.splits)

lemma kv_history_legal:
  assumes "kv_good kv" "\<forall>c\<in>set cs. valid_op c"
  shows "legal KvModel_Step (kv_value k kv) (filter (\<lambda>(i, r). ki_Key i = k) (kv_history cs kv))"
  using assms
proof (induction cs arbitrary: kv)
  case (Cons c cs)
  have IH: "legal KvModel_Step (kv_value k (fst (kv_step c kv))) (filter (\<lambda>(i, r). ki_Key i = k) (kv_history cs (fst (kv_step c kv))))"
    by (rule Cons.IH) (use Cons.prems kv_sessions.inv_step in auto)
  show ?case
  proof (cases "cr_Op c \<noteq> OpGet \<and> isDuplicateRequest (cr_ClientId c) (cr_CommandId c) kv")
    case True
    then show ?thesis using IH by (simp add: kv_step_duplicate)
  next
    case False
    have v: "valid_op c" using Cons.prems(2) by simp
    let ?out = "\<lparr>ko_Value = cs_Value (snd (kv_step c kv))\<rparr>"
    note s = kv_value_step [OF Cons.prems(1) v False, of k ?out]
    have hist: "kv_history (c # cs) kv = (kv_input c, ?out) # kv_history cs (fst (kv_step c kv))"
      using False by auto
    show ?thesis
    proof (cases "k = cr_Key c")
      case True
      have "fst (KvModel_Step (kv_value k kv) (kv_input c) ?out)"
        using s True v by (auto simp: KvModel_Step_def kv_input_def valid_op_def kv_op_defs)
      then show ?thesis using s True IH unfolding hist
        by (cases "KvModel_Step (kv_value k kv) (kv_input c) ?out") simp
    next
      case False
      then show ?thesis using s IH unfolding hist by simp
    qed
  qed
qed simp

end
