(* ===== verification/KV_Props.thy ===== *)
theory KV_Props
  imports KV_Model Raft_Votes
begin

text \<open>
  The key/value server as one replica of a replicated state machine, and the properties of
  \<^verbatim>\<open>kvraft\<close>.

  \<open>replica_step\<close> lets the goroutines of a server interleave in any order: Raft events, messages to
  the applier, the critical sections of \<^verbatim>\<open>Command\<close> and restarts.  \<open>L\<close> is the sequence of
  committed commands.  Raft delivers it in order (\<open>applier_exact\<close> of the Raft part), or
  a snapshot that some replica took after a prefix of it.
\<close>

section \<open>A replica\<close>

text \<open>The replicated part of a server, and what it is after a sequence of commands.\<close>

definition kv_core :: "KVServer \<Rightarrow> MemoryKV \<times> (int, OperationContext) mapref" where
  "kv_core kv = (kv_stateMachine kv, kv_lastOperations kv)"

definition kv_blank :: KVServer where
  "kv_blank = the (StartKVServer 1 0 MakePersister (-1))"

definition kv_after :: "CommandRequest list \<Rightarrow> MemoryKV \<times> (int, OperationContext) mapref" where
  "kv_after cs = kv_core (run_log kv_step cs kv_blank)"

text \<open>\<open>snap\<close> is a snapshot after the first \<open>s\<close> committed commands; the empty one stands for the beginning.\<close>

definition snap_at :: "CommandRequest list \<Rightarrow> nat \<Rightarrow> kv_gob list \<Rightarrow> bool" where
  "snap_at L s snap \<longleftrightarrow> s \<le> length L \<and>
     (snap = [] \<and> s = 0 \<or>
      snap = [GobStateMachine (fst (kv_after (take s L))), GobLastOperations (snd (kv_after (take s L)))])"

text \<open>
  The channels: the references in the map are distinct and allocated, and the channel of an index that has
  not been applied is empty.
\<close>

definition chans_ok :: "KVServer \<Rightarrow> bool" where
  "chans_ok kv \<longleftrightarrow> kv_notifyChans kv \<noteq> None \<and>
     (\<forall>i ch. mr_get (kv_notifyChans kv) i = Some ch \<longrightarrow> ch < length (kv_chans kv) \<and>
        (kv_lastApplied kv < i \<longrightarrow> kv_chans kv ! ch = [])) \<and>
     (\<forall>i j ch. mr_get (kv_notifyChans kv) i = Some ch \<longrightarrow> mr_get (kv_notifyChans kv) j = Some ch \<longrightarrow> i = j)"

text \<open>A replica, with the number of commands its state stands for.\<close>

inductive replica_step :: "CommandRequest list \<Rightarrow> nat \<Rightarrow> nat \<Rightarrow> KVServer \<times> nat \<Rightarrow> KVServer \<times> nat \<Rightarrow> bool"
  for L :: "CommandRequest list" and n i :: nat where
  raft: "raft_ok rf' \<Longrightarrow> commitIndex (kv_rf kv) \<le> commitIndex rf' \<Longrightarrow>
     snapshot (persister rf') = snapshot (persister (kv_rf kv)) \<Longrightarrow>
     replica_step L n i (kv, a) (kv\<lparr>kv_rf := rf'\<rparr>, a)"
| command: "am_CommandValid m \<Longrightarrow> am_CommandIndex m = int a + 1 \<Longrightarrow> a < length L \<Longrightarrow> am_Command m = Some (L ! a) \<Longrightarrow>
     am_CommandIndex m \<le> commitIndex (kv_rf kv) \<Longrightarrow> kv_applier cap size_of m kv = Some kv' \<Longrightarrow>
     replica_step L n i (kv, a) (kv', a + 1)"
| outdated: "am_CommandValid m \<Longrightarrow> am_CommandIndex m \<le> kv_lastApplied kv \<Longrightarrow> kv_applier cap size_of m kv = Some kv' \<Longrightarrow>
     replica_step L n i (kv, a) (kv', a)"
| snapshot: "\<not> am_CommandValid m \<Longrightarrow> am_SnapshotValid m \<Longrightarrow> am_SnapshotIndex m = int s \<Longrightarrow> am_Snapshot m \<noteq> [] \<Longrightarrow>
     snap_at L s (am_Snapshot m) \<Longrightarrow> kv_applier cap size_of m kv = Some kv' \<Longrightarrow>
     a' = (if commitIndex (kv_rf kv) < int s then s else a) \<Longrightarrow>
     replica_step L n i (kv, a) (kv', a')"
| propose: "Command_propose request kv = Some (kv', r) \<Longrightarrow> replica_step L n i (kv, a) (kv', a)"
| listen: "getNotifyChan index kv = Some (kv', ch) \<Longrightarrow> replica_step L n i (kv, a) (kv', a)"
| receive: "Command_receive ch kv = Some (kv', response) \<Longrightarrow> replica_step L n i (kv, a) (kv', a)"
| release: "replica_step L n i (kv, a) (removeOutdatedNotifyChan index kv, a)"
| restart: "StartKVServer n i (Persister_Copy (persister (kv_rf kv))) maxraftstate = Some kv' \<Longrightarrow>
     snap_at L s (snapshot (persister (kv_rf kv))) \<Longrightarrow> replica_step L n i (kv, a) (kv', s)"

definition replica_init :: "nat \<Rightarrow> nat \<Rightarrow> KVServer \<times> nat \<Rightarrow> bool" where
  "replica_init n i s \<longleftrightarrow> i < n \<and> (\<exists>maxraftstate. StartKVServer n i MakePersister maxraftstate = Some (fst s)) \<and> snd s = 0"

definition replica_inv :: "CommandRequest list \<Rightarrow> nat \<Rightarrow> nat \<Rightarrow> KVServer \<times> nat \<Rightarrow> bool" where
  "replica_inv L n i s \<longleftrightarrow> i < n \<and> raft_ok (kv_rf (fst s)) \<and> chans_ok (fst s) \<and>
     kv_lastApplied (fst s) \<le> int (snd s) \<and> kv_lastApplied (fst s) \<le> max 0 (commitIndex (kv_rf (fst s))) \<and>
     snd s \<le> length L \<and>
     kv_core (fst s) = kv_after (take (snd s) L) \<and>
     (\<exists>b. snap_at L b (snapshot (persister (kv_rf (fst s)))))"

section \<open>The replicated part\<close>

lemma applyCommand_core:
  assumes "kv_core kv = kv_core kv'"
  shows "map_option (\<lambda>(k, r). (kv_core k, r)) (applyCommand c kv) = map_option (\<lambda>(k, r). (kv_core k, r)) (applyCommand c kv')"
proof -
  have eq: "kv_stateMachine kv = kv_stateMachine kv'" "kv_lastOperations kv = kv_lastOperations kv'"
    "isDuplicateRequest x y kv = isDuplicateRequest x y kv'" for x y
    using assms by (auto simp: kv_core_def isDuplicateRequest_def)
  show ?thesis
    unfolding applyCommand_def eq Let_def
    by (cases "mr_get (kv_lastOperations kv') (cr_ClientId c)"; cases "applyLogToStateMachine c (kv_stateMachine kv')";
        cases "kv_lastOperations kv'") (auto simp: kv_core_def eq isDuplicateRequest_def)
qed

lemma kv_step_core:
  assumes "kv_core kv = kv_core kv'"
  shows "kv_core (fst (kv_step c kv)) = kv_core (fst (kv_step c kv'))"
  using applyCommand_core [OF assms, of c] assms
  by (auto simp: kv_step_def split: option.splits)

lemma kv_blank_core: "kv_core kv_blank = (NewMemoryKV, Some Map.empty)" "kv_good kv_blank"
proof -
  have "restored (MakePersister :: (CommandRequest gob, kv_gob) Persister) = (0, -1, [zeroEntry])"
    by (simp add: restored_def MakePersister_def)
  then obtain rf where "Make 1 0 (MakePersister :: (CommandRequest gob, kv_gob) Persister) = Some rf"
    using Make_exists [of 0 1 MakePersister 0 "-1" "[zeroEntry]"] by auto
  then show "kv_core kv_blank = (NewMemoryKV, Some Map.empty)" "kv_good kv_blank"
    by (simp_all add: kv_blank_def StartKVServer_def restoreSnapshot_def ReadSnapshot_def MakePersister_def
        kv_core_def kv_good_def NewMemoryKV_def)
qed

lemma kv_after_good: "KV (fst (kv_after cs)) \<noteq> None" "snd (kv_after cs) \<noteq> None"
  using kv_sessions.inv_run [OF kv_blank_core(2), of cs] by (simp_all add: kv_after_def kv_core_def kv_good_def)

lemma kv_after_snoc: "kv_core kv = kv_after cs \<Longrightarrow> kv_after (cs @ [c]) = kv_core (fst (kv_step c kv))"
  unfolding kv_after_def run_log_append by (simp add: kv_step_core [of "run_log kv_step cs kv_blank" kv c])

lemma kv_core_good: "kv_core kv = kv_after cs \<Longrightarrow> kv_good kv"
  using kv_after_good [of cs] by (metis fst_conv snd_conv kv_core_def kv_good_def)

text \<open>Round trip of a snapshot.\<close>

lemma restore_snap_at:
  assumes "snap_at L s snap" "snap \<noteq> [] \<or> kv_core kv = kv_after []"
  shows "kv_core (restoreSnapshot snap kv) = kv_after (take s L)"
  using assms by (auto simp: snap_at_def restoreSnapshot_def kv_core_def)

lemma restoreSnapshot_frame: "restoreSnapshot snap kv =
    kv\<lparr>kv_stateMachine := kv_stateMachine (restoreSnapshot snap kv), kv_lastOperations := kv_lastOperations (restoreSnapshot snap kv)\<rparr>"
  by (auto simp: restoreSnapshot_def split: option.splits prod.splits)

section \<open>Channels\<close>

lemma getNotifyChan_ok:
  assumes "chans_ok kv"
  shows "\<exists>kv' ch. getNotifyChan index kv = Some (kv', ch) \<and> chans_ok kv' \<and>
    kv' = kv\<lparr>kv_notifyChans := kv_notifyChans kv', kv_chans := kv_chans kv'\<rparr> \<and>
    mr_get (kv_notifyChans kv') index = Some ch \<and>
    (kv_chans kv' ! ch = [] \<or> (\<exists>c. mr_get (kv_notifyChans kv) index = Some c \<and> kv_chans kv ! c \<noteq> []))"
proof (cases "mr_get (kv_notifyChans kv) index")
  case None
  obtain f where f: "kv_notifyChans kv = Some f" using assms by (auto simp: chans_ok_def)
  then have "f i = Some ch \<Longrightarrow> ch < length (kv_chans kv)" for i ch using assms by (auto simp: chans_ok_def)
  then show ?thesis
    using assms None f by (auto simp: getNotifyChan_def chans_ok_def nth_append Let_def split: if_splits) (metis less_irrefl less_SucI)+
qed (use assms in \<open>simp add: getNotifyChan_def\<close>)

lemma chan_send_ok:
  assumes "chans_ok kv" "mr_get (kv_notifyChans kv) index = Some ch" "kv_chans kv ! ch = []" "index \<le> kv_lastApplied kv"
  shows "\<exists>kv'. chan_send ch response kv = Some kv' \<and> chans_ok kv' \<and> kv' = kv\<lparr>kv_chans := kv_chans kv'\<rparr>"
proof -
  have ch: "ch < length (kv_chans kv)" using assms(1,2) by (auto simp: chans_ok_def)
  have "chans_ok (kv\<lparr>kv_chans := (kv_chans kv)[ch := [response]]\<rparr>)"
    unfolding chans_ok_def
  proof (intro conjI allI impI)
    fix i c assume i: "mr_get (kv_notifyChans (kv\<lparr>kv_chans := (kv_chans kv)[ch := [response]]\<rparr>)) i = Some c"
    then show "c < length (kv_chans (kv\<lparr>kv_chans := (kv_chans kv)[ch := [response]]\<rparr>))"
      using assms(1) by (auto simp: chans_ok_def)
    assume "kv_lastApplied (kv\<lparr>kv_chans := (kv_chans kv)[ch := [response]]\<rparr>) < i"
    then have "i \<noteq> index" "kv_chans kv ! c = []" using assms(1,4) i by (auto simp: chans_ok_def)
    moreover from this have "c \<noteq> ch" using assms(1,2) i unfolding chans_ok_def by force
    ultimately show "kv_chans (kv\<lparr>kv_chans := (kv_chans kv)[ch := [response]]\<rparr>) ! c = []" by simp
  qed (use assms(1) in \<open>auto simp: chans_ok_def\<close>)
  then show ?thesis using ch assms(3) by (simp add: chan_send_def)
qed

lemma chans_ok_cong:
  "kv_notifyChans kv' = kv_notifyChans kv \<Longrightarrow> kv_chans kv' = kv_chans kv \<Longrightarrow> kv_lastApplied kv \<le> kv_lastApplied kv' \<Longrightarrow>
   chans_ok kv \<Longrightarrow> chans_ok kv'"
  by (fastforce simp: chans_ok_def)

lemma chans_ok_receive:
  assumes "chans_ok kv" "Command_receive ch kv = Some (kv', response)"
  shows "chans_ok kv' \<and> kv' = kv\<lparr>kv_chans := kv_chans kv'\<rparr>"
proof -
  obtain rest where r: "kv' = kv\<lparr>kv_chans := (kv_chans kv)[ch := rest]\<rparr>" "kv_chans kv ! ch \<noteq> []"
    using assms(2) by (auto simp: Command_receive_def go_elims split: list.splits)
  have "c = ch \<or> (kv_chans kv)[ch := rest] ! c = kv_chans kv ! c" for c by (metis nth_list_update_neq)
  then show ?thesis using assms(1) r by (fastforce simp: chans_ok_def)
qed

lemma chans_ok_release: "chans_ok kv \<Longrightarrow> chans_ok (removeOutdatedNotifyChan index kv)"
  by (auto simp: chans_ok_def removeOutdatedNotifyChan_def mr_get_delete split: if_splits)

section \<open>The applier\<close>

text \<open>Answering the client.\<close>

lemma notify_ok:
  assumes "chans_ok kv" "\<And>ch. mr_get (kv_notifyChans kv) index = Some ch \<Longrightarrow> kv_chans kv ! ch = []" "index \<le> kv_lastApplied kv"
  shows "\<exists>kv'. (getNotifyChan index kv \<bind> (\<lambda>(k, ch). chan_send ch response k)) = Some kv' \<and> chans_ok kv' \<and>
    kv' = kv\<lparr>kv_notifyChans := kv_notifyChans kv', kv_chans := kv_chans kv'\<rparr>"
proof -
  obtain k ch where k: "getNotifyChan index kv = Some (k, ch)" "chans_ok k" "mr_get (kv_notifyChans k) index = Some ch"
    "k = kv\<lparr>kv_notifyChans := kv_notifyChans k, kv_chans := kv_chans k\<rparr>"
    "kv_chans k ! ch = [] \<or> (\<exists>c. mr_get (kv_notifyChans kv) index = Some c \<and> kv_chans kv ! c \<noteq> [])"
    using getNotifyChan_ok [OF assms(1), of index] by blast
  have la: "kv_lastApplied k = kv_lastApplied kv" by (subst k(4)) simp
  have "kv_chans k ! ch = []" using k(5) assms(2) by auto
  then obtain kv' where s: "chan_send ch response k = Some kv'" "chans_ok kv'" "kv' = k\<lparr>kv_chans := kv_chans kv'\<rparr>"
    using chan_send_ok [OF k(2,3)] assms(3) la by auto
  have "kv_notifyChans kv' = kv_notifyChans k" by (subst s(3)) simp
  then have "kv' = kv\<lparr>kv_notifyChans := kv_notifyChans kv', kv_chans := kv_chans kv'\<rparr>"
    by (subst s(3), subst k(4)) simp
  then show ?thesis using k(1) s(1,2) by simp
qed

lemma takeSnapshot_ok:
  assumes "raft_ok (kv_rf kv)" "index \<le> commitIndex (kv_rf kv)"
  shows "\<exists>rf'. takeSnapshot cap index kv = Some (kv\<lparr>kv_rf := rf'\<rparr>) \<and> raft_ok rf' \<and> commitIndex rf' = commitIndex (kv_rf kv) \<and>
    (snapshot (persister rf') = snapshot (persister (kv_rf kv)) \<or>
     snapshot (persister rf') = [GobStateMachine (kv_stateMachine kv), GobLastOperations (kv_lastOperations kv)])"
proof -
  let ?w = "[GobStateMachine (kv_stateMachine kv), GobLastOperations (kv_lastOperations kv)]"
  obtain rf' where s: "Snapshot cap index ?w (kv_rf kv) = Some rf'" "raft_ok rf'"
    using Snapshot_ok [OF assms] by blast
  then have "commitIndex rf' = commitIndex (kv_rf kv) \<and>
      (snapshot (persister rf') = snapshot (persister (kv_rf kv)) \<or> snapshot (persister rf') = ?w)"
    using assms by (auto simp: Snapshot_result raft_ok_def Let_def SaveStateAndSnapshot_def split: if_splits)
  moreover have "takeSnapshot cap index kv = Some (kv\<lparr>kv_rf := rf'\<rparr>)" using s(1) by (simp add: takeSnapshot_def)
  ultimately show ?thesis using s(2) by blast
qed

lemma kv_applier_command:
  assumes m: "am_CommandValid m" "kv_lastApplied kv < am_CommandIndex m" "am_Command m = Some c"
    and ok: "raft_ok (kv_rf kv)" "am_CommandIndex m \<le> commitIndex (kv_rf kv)" "chans_ok kv" "kv_good kv"
  shows "\<exists>kv'. kv_applier cap size_of m kv = Some kv' \<and> chans_ok kv' \<and> raft_ok (kv_rf kv') \<and>
    kv_core kv' = kv_core (fst (kv_step c kv)) \<and> kv_lastApplied kv' = am_CommandIndex m \<and> commitIndex (kv_rf kv') = commitIndex (kv_rf kv) \<and>
    (snapshot (persister (kv_rf kv')) = snapshot (persister (kv_rf kv)) \<or>
     snapshot (persister (kv_rf kv')) = [GobStateMachine (fst (kv_core kv')), GobLastOperations (snd (kv_core kv'))])"
proof -
  define i where "i = am_CommandIndex m"
  define kv1 where "kv1 = kv\<lparr>kv_lastApplied := i\<rparr>"
  have c1: "chans_ok kv1" using m(2) by (intro chans_ok_cong [OF _ _ _ ok(3)]) (auto simp: kv1_def i_def)
  have "kv_good kv1" using ok(4) by (simp add: kv1_def kv_good_def)
  then obtain kv2 r where a: "applyCommand c kv1 = Some (kv2, r)"
    "kv2 = kv1\<lparr>kv_stateMachine := kv_stateMachine kv2, kv_lastOperations := kv_lastOperations kv2\<rparr>"
    using applyCommand_ok by blast
  have f2: "kv_rf kv2 = kv_rf kv" "kv_notifyChans kv2 = kv_notifyChans kv" "kv_chans kv2 = kv_chans kv" "kv_lastApplied kv2 = i"
    by (subst a(2), simp add: kv1_def)+
  have core2: "kv_core kv2 = kv_core (fst (kv_step c kv))"
    using kv_step_core [of kv1 kv c] a(1) by (simp add: kv_step_def kv_core_def kv1_def)
  have empty: "mr_get (kv_notifyChans kv2) i = Some ch \<Longrightarrow> kv_chans kv2 ! ch = []" for ch
    using ok(3) m(2) f2 by (auto simp: chans_ok_def i_def)
  have c2: "chans_ok kv2" by (rule chans_ok_cong [OF _ _ _ c1]) (simp_all add: f2 kv1_def)
  obtain kv3 where n: "(let (currentTerm, isLeader) = GetState (kv_rf kv2) in
       if isLeader \<and> am_CommandTerm m = currentTerm then getNotifyChan i kv2 \<bind> (\<lambda>(k, ch). chan_send ch r k) else Some kv2) = Some kv3"
    "chans_ok kv3" "kv3 = kv2\<lparr>kv_notifyChans := kv_notifyChans kv3, kv_chans := kv_chans kv3\<rparr>"
    using notify_ok [of kv2 i r, OF c2 empty] f2(4) c2
    by (cases "GetState (kv_rf kv2)"; cases "snd (GetState (kv_rf kv2)) \<and> am_CommandTerm m = fst (GetState (kv_rf kv2))") auto
  have f3: "kv_rf kv3 = kv_rf kv" "kv_lastApplied kv3 = i" "kv_core kv3 = kv_core (fst (kv_step c kv))"
    by (subst n(3), simp add: f2 kv_core_def core2 [unfolded kv_core_def])+
  have run: "kv_applier cap size_of m kv = (if needSnapshot size_of kv3 then takeSnapshot cap i kv3 else Some kv3)"
    using m a(1) n(1) unfolding kv_applier_def i_def [symmetric] Let_def kv1_def [symmetric] by simp
  obtain rf' where t: "takeSnapshot cap i kv3 = Some (kv3\<lparr>kv_rf := rf'\<rparr>)" "raft_ok rf'" "commitIndex rf' = commitIndex (kv_rf kv)"
    "snapshot (persister rf') = snapshot (persister (kv_rf kv)) \<or>
     snapshot (persister rf') = [GobStateMachine (kv_stateMachine kv3), GobLastOperations (kv_lastOperations kv3)]"
    using takeSnapshot_ok [of kv3 i cap] ok(1,2) f3(1) by (auto simp: i_def)
  show ?thesis
  proof (cases "needSnapshot size_of kv3")
    case True
    have "chans_ok (kv3\<lparr>kv_rf := rf'\<rparr>)" by (rule chans_ok_cong [OF _ _ _ n(2)]) auto
    then show ?thesis using True run t f3 by (simp add: kv_core_def i_def)
  next
    case False
    then show ?thesis using run n(2) f3 ok(1) by (simp add: i_def)
  qed
qed

lemma kv_applier_snapshot:
  assumes m: "\<not> am_CommandValid m" "am_SnapshotValid m"
    and ok: "raft_ok (kv_rf kv)" "chans_ok kv" "kv_lastApplied kv \<le> max 0 (commitIndex (kv_rf kv))" "0 \<le> am_SnapshotIndex m"
    and a: "kv_applier cap size_of m kv = Some kv'"
  shows "raft_ok (kv_rf kv') \<and> chans_ok kv' \<and>
    (if commitIndex (kv_rf kv) < am_SnapshotIndex m
     then kv_lastApplied kv' = am_SnapshotIndex m \<and> commitIndex (kv_rf kv') = am_SnapshotIndex m \<and>
       kv_core kv' = kv_core (restoreSnapshot (am_Snapshot m) kv) \<and> snapshot (persister (kv_rf kv')) = am_Snapshot m
     else kv' = kv)"
proof -
  obtain rf' b where c: "CondInstallSnapshot cap (am_SnapshotTerm m) (am_SnapshotIndex m) (am_Snapshot m) (kv_rf kv) = Some (rf', b)"
    "raft_ok rf'"
    using CondInstallSnapshot_ok [OF ok(1)] by blast
  have wf: "raft_wf (kv_rf kv)" using ok(1) by (simp add: raft_ok_def)
  have r: "b = (commitIndex (kv_rf kv) < am_SnapshotIndex m)" "\<not> b \<Longrightarrow> rf' = kv_rf kv"
    "b \<Longrightarrow> commitIndex rf' = am_SnapshotIndex m \<and> snapshot (persister rf') = am_Snapshot m"
    using c(1) unfolding CondInstallSnapshot_result [OF wf]
    by (auto simp: Let_def SaveStateAndSnapshot_def split: if_splits)
  show ?thesis
  proof (cases b)
    case True
    let ?k = "(restoreSnapshot (am_Snapshot m) (kv\<lparr>kv_rf := rf'\<rparr>))\<lparr>kv_lastApplied := am_SnapshotIndex m\<rparr>"
    have k: "kv' = ?k" using a m c(1) True by (simp add: kv_applier_def)
    have f: "kv_rf ?k = rf'" "kv_lastApplied ?k = am_SnapshotIndex m" "kv_notifyChans ?k = kv_notifyChans kv" "kv_chans ?k = kv_chans kv"
      by (subst restoreSnapshot_frame, simp)+
    have "chans_ok ?k" by (rule chans_ok_cong [OF f(3,4) _ ok(2)]) (use f(2) ok(3,4) r(1) True in auto)
    moreover have "kv_core ?k = kv_core (restoreSnapshot (am_Snapshot m) kv)"
      by (auto simp: kv_core_def restoreSnapshot_def split: option.splits prod.splits)
    ultimately show ?thesis using k f c(2) r True by simp
  next
    case False
    then have "kv' = kv\<lparr>kv_rf := rf'\<rparr>" using a m c(1) by (simp add: kv_applier_def)
    then show ?thesis using r False ok by simp
  qed
qed

lemma StartKVServer_ok:
  assumes "i < n" "restored ps = (t, v, lg)" "log_wf lg" "StartKVServer n i ps maxraftstate = Some kv"
  shows "raft_ok (kv_rf kv) \<and> chans_ok kv \<and> kv_lastApplied kv = 0 \<and> persister (kv_rf kv) = ps \<and>
    (\<exists>kv0. kv_core kv0 = kv_after [] \<and> kv_core kv = kv_core (restoreSnapshot (snapshot ps) kv0))"
proof -
  obtain rf where rf: "Make n i ps = Some rf" "raft_ok rf" using Make_exists [OF assms(1-3)] by blast
  let ?k = "\<lparr>kv_me = 0, kv_rf = rf, kv_dead = False, kv_maxraftstate = maxraftstate, kv_lastApplied = 0,
     kv_stateMachine = NewMemoryKV, kv_lastOperations = Some Map.empty, kv_notifyChans = Some Map.empty, kv_chans = []\<rparr>"
  have kv: "kv = restoreSnapshot (snapshot ps) ?k"
    using assms(4) rf(1) by (simp add: StartKVServer_def ReadSnapshot_def)
  have f: "kv_rf kv = rf" "kv_lastApplied kv = 0" "kv_notifyChans kv = Some Map.empty" "kv_chans kv = []"
    unfolding kv by (subst restoreSnapshot_frame, simp)+
  have "kv_core ?k = kv_after []" by (simp add: kv_after_def kv_blank_core(1) kv_core_def [of ?k])
  then show ?thesis using f rf Make_frame [OF rf(1)] kv by (auto simp: chans_ok_def)
qed

lemma Command_propose_ok:
  assumes "raft_ok (kv_rf kv)" "Command_propose request kv = Some (kv', r)"
  shows "\<exists>rf'. kv' = kv\<lparr>kv_rf := rf'\<rparr> \<and> raft_ok rf' \<and> commitIndex rf' = commitIndex (kv_rf kv) \<and>
    snapshot (persister rf') = snapshot (persister (kv_rf kv))"
proof -
  obtain rf' x y z eff where s: "Start request (kv_rf kv) = Some (rf', (x, y, z), eff)" "kv' = kv\<lparr>kv_rf := rf'\<rparr>"
    using assms(2) by (auto simp: Command_propose_def Let_def bind_Some_iff)
  then have "commitIndex rf' = commitIndex (kv_rf kv) \<and> snapshot (persister rf') = snapshot (persister (kv_rf kv))"
    by (auto simp: Start_def appendNewEntry_def Let_def bind_Some_iff persist_def SaveRaftState_def split: if_splits)
  then show ?thesis using s Start_ok [OF assms(1), of request] by auto
qed

section \<open>The invariant of a replica\<close>

lemma replica_command:
  assumes inv: "replica_inv L n i (kv, a)" and m: "am_CommandValid m" "am_CommandIndex m = int a + 1" "a < length L"
    "am_Command m = Some (L ! a)" "am_CommandIndex m \<le> commitIndex (kv_rf kv)"
  shows "\<exists>kv'. kv_applier cap size_of m kv = Some kv' \<and> replica_inv L n i (kv', a + 1)"
proof -
  have core: "kv_core kv = kv_after (take a L)" and la: "kv_lastApplied kv < am_CommandIndex m" "raft_ok (kv_rf kv)" "chans_ok kv"
    using inv m(2) by (auto simp: replica_inv_def)
  obtain kv' where k: "kv_applier cap size_of m kv = Some kv'" "chans_ok kv'" "raft_ok (kv_rf kv')"
    "kv_core kv' = kv_core (fst (kv_step (L ! a) kv))" "kv_lastApplied kv' = am_CommandIndex m"
    "commitIndex (kv_rf kv') = commitIndex (kv_rf kv)"
    "snapshot (persister (kv_rf kv')) = snapshot (persister (kv_rf kv)) \<or>
     snapshot (persister (kv_rf kv')) = [GobStateMachine (fst (kv_core kv')), GobLastOperations (snd (kv_core kv'))]"
    using kv_applier_command [OF m(1) la(1) m(4) la(2) m(5) la(3) kv_core_good [OF core], of cap size_of] by blast
  have core': "kv_core kv' = kv_after (take (a + 1) L)"
    using kv_after_snoc [OF core, of "L ! a"] k(4) m(3) by (simp add: take_Suc_conv_app_nth)
  have "\<exists>b. snap_at L b (snapshot (persister (kv_rf kv')))"
  proof (rule disjE [OF k(7)])
    assume "snapshot (persister (kv_rf kv')) = snapshot (persister (kv_rf kv))"
    then show ?thesis using inv by (simp add: replica_inv_def)
  next
    assume "snapshot (persister (kv_rf kv')) = [GobStateMachine (fst (kv_core kv')), GobLastOperations (snd (kv_core kv'))]"
    then have "snap_at L (a + 1) (snapshot (persister (kv_rf kv')))" using core' m(3) by (simp add: snap_at_def)
    then show ?thesis ..
  qed
  then show ?thesis using k(1-3,5,6) core' inv m by (auto simp: replica_inv_def)
qed

lemma replica_inv_step:
  assumes "replica_inv L n i s" "replica_step L n i s s'"
  shows "replica_inv L n i s'"
  using assms(2)
proof cases
  case (raft rf' kv a)
  then show ?thesis using assms(1) chans_ok_cong [of "kv\<lparr>kv_rf := rf'\<rparr>" kv] by (auto simp: replica_inv_def kv_core_def)
next
  case (command m a kv cap size_of kv')
  then show ?thesis using replica_command [of L n i kv a m cap size_of] assms(1) by auto
next
  case (outdated m kv cap size_of kv' a)
  then show ?thesis using assms(1) by (simp add: kv_applier_def)
next
  case (snapshot m s cap size_of kv kv' a' a)
  have inv: "raft_ok (kv_rf kv)" "chans_ok kv" "kv_lastApplied kv \<le> max 0 (commitIndex (kv_rf kv))"
    using assms(1) snapshot(1) by (auto simp: replica_inv_def)
  have "0 \<le> am_SnapshotIndex m" using snapshot(5) by simp
  note r = kv_applier_snapshot [OF snapshot(3,4) inv this snapshot(8)]
  have "kv_core (restoreSnapshot (am_Snapshot m) kv) = kv_after (take s L)" "s \<le> length L"
    using restore_snap_at [OF snapshot(7)] snapshot(6,7) by (auto simp: snap_at_def)
  then show ?thesis using r assms(1) snapshot(1,2,5,7,9) by (auto simp: replica_inv_def split: if_splits)
next
  case (propose request kv kv' r a)
  then obtain rf' where "kv' = kv\<lparr>kv_rf := rf'\<rparr>" "raft_ok rf'" "commitIndex rf' = commitIndex (kv_rf kv)"
    "snapshot (persister rf') = snapshot (persister (kv_rf kv))"
    using Command_propose_ok [OF _ propose(3)] assms(1) by (auto simp: replica_inv_def)
  then show ?thesis using assms(1) propose(1,2) chans_ok_cong [of "kv\<lparr>kv_rf := rf'\<rparr>" kv] by (auto simp: replica_inv_def kv_core_def)
next
  case (listen index kv kv' ch a)
  then have c: "chans_ok kv'" "kv' = kv\<lparr>kv_notifyChans := kv_notifyChans kv', kv_chans := kv_chans kv'\<rparr>"
    using getNotifyChan_ok [of kv index] assms(1) by (auto simp: replica_inv_def)
  have "kv_rf kv' = kv_rf kv" "kv_lastApplied kv' = kv_lastApplied kv" "kv_core kv' = kv_core kv"
    by (subst c(2), simp add: kv_core_def)+
  then show ?thesis using assms(1) listen(1,2) c(1) by (simp add: replica_inv_def)
next
  case (receive ch kv kv' response a)
  then have c: "chans_ok kv'" "kv' = kv\<lparr>kv_chans := kv_chans kv'\<rparr>"
    using chans_ok_receive [of kv ch kv' response] assms(1) by (auto simp: replica_inv_def)
  have "kv_rf kv' = kv_rf kv" "kv_lastApplied kv' = kv_lastApplied kv" "kv_core kv' = kv_core kv"
    by (subst c(2), simp add: kv_core_def)+
  then show ?thesis using assms(1) receive(1,2) c(1) by (simp add: replica_inv_def)
next
  case (release kv a index)
  then show ?thesis using assms(1) chans_ok_release [of kv index]
    by (simp add: replica_inv_def removeOutdatedNotifyChan_def kv_core_def)
next
  case (restart kv maxraftstate kv' s a)
  have inv: "i < n" "raft_ok (kv_rf kv)" using assms(1) restart(1) by (auto simp: replica_inv_def)
  have d: "restored (persister (kv_rf kv)) = (currentTerm (kv_rf kv), votedFor (kv_rf kv), logs (kv_rf kv))" "log_wf (logs (kv_rf kv))"
    using raft_ok_durable [OF inv(2)] inv(2) by (auto simp: raft_ok_defs)
  obtain kv0 where k: "raft_ok (kv_rf kv')" "chans_ok kv'" "kv_lastApplied kv' = 0" "persister (kv_rf kv') = persister (kv_rf kv)"
    "kv_core kv0 = kv_after []" "kv_core kv' = kv_core (restoreSnapshot (snapshot (persister (kv_rf kv))) kv0)"
    using StartKVServer_ok [OF inv(1) d restart(3) [unfolded Persister_Copy_id]] by blast
  then have "kv_core kv' = kv_after (take s L)" "s \<le> length L"
    using restore_snap_at [OF restart(4), of kv0] restart(4) by (auto simp: snap_at_def)
  then show ?thesis using k inv restart(2,4) by (auto simp: replica_inv_def)
qed

lemma replica_inv_init: "replica_init n i s \<Longrightarrow> replica_inv L n i s"
proof -
  assume s: "replica_init n i s"
  then obtain mx where m: "i < n" "StartKVServer n i MakePersister mx = Some (fst s)" "snd s = 0" by (auto simp: replica_init_def)
  have "restored (MakePersister :: (CommandRequest gob, kv_gob) Persister) = (0, -1, [zeroEntry])" "log_wf [zeroEntry :: CommandRequest Entry]"
    by (simp_all add: restored_def MakePersister_def)
  from StartKVServer_ok [OF m(1) this m(2)] m show "replica_inv L n i s"
    by (auto simp: replica_inv_def snap_at_def MakePersister_def restoreSnapshot_def)
qed

interpretation replica: transition_invariant "replica_init n i" "replica_step L n i" "replica_inv L n i"
  for L :: "CommandRequest list" and n i :: nat
  by unfold_locales (auto intro: replica_inv_init replica_inv_step)

section \<open>The clerk\<close>

definition retry_answer :: "CommandResponse option \<Rightarrow> bool" where
  "retry_answer answer = (case answer of None \<Rightarrow> True
     | Some response \<Rightarrow> cs_Err response = ErrWrongLeader \<or> cs_Err response = ErrTimeout)"

lemma Clerk_loop_result:
  assumes "list_all retry_answer bad" "\<not> retry_answer (Some response)" "0 < ck_servers ck"
    "0 \<le> ck_leaderId ck" "ck_leaderId ck < int (ck_servers ck)"
  shows "Clerk_loop request (bad @ Some response # rest) ck sent =
    Some (ck\<lparr>ck_leaderId := (ck_leaderId ck + int (length bad)) mod int (ck_servers ck), ck_commandId := ck_commandId ck + 1\<rparr>,
      cs_Value response,
      sent @ map (\<lambda>j. ((ck_leaderId ck + int j) mod int (ck_servers ck), request)) [0..<Suc (length bad)])"
  using assms
proof (induction bad arbitrary: ck sent)
  case Nil
  then show ?case by (simp add: retry_answer_def)
next
  case (Cons b bad)
  let ?n = "int (ck_servers ck)"
  let ?ck = "ck\<lparr>ck_leaderId := (ck_leaderId ck + 1) mod ?n\<rparr>"
  have r: "retry_answer b" using Cons.prems(1) by simp
  have IH: "Clerk_loop request (bad @ Some response # rest) ?ck (sent @ [(ck_leaderId ck, request)]) =
    Some (?ck\<lparr>ck_leaderId := (ck_leaderId ?ck + int (length bad)) mod ?n, ck_commandId := ck_commandId ck + 1\<rparr>, cs_Value response,
      (sent @ [(ck_leaderId ck, request)]) @ map (\<lambda>j. ((ck_leaderId ?ck + int j) mod ?n, request)) [0..<Suc (length bad)])"
    using Cons.IH [of ?ck] Cons.prems by simp
  have m: "((ck_leaderId ck + 1) mod ?n + int j) mod ?n = (ck_leaderId ck + int (Suc j)) mod ?n" for j
    by (simp add: mod_simps algebra_simps)
  have up: "map (\<lambda>j. ((ck_leaderId ck + int j) mod ?n, request)) [0..<Suc (Suc (length bad))] =
      (ck_leaderId ck, request) # map (\<lambda>j. ((ck_leaderId ck + int (Suc j)) mod ?n, request)) [0..<Suc (length bad)]"
    using Cons.prems by (subst upt_conv_Cons) (simp_all add: map_Suc_upt [symmetric] del: upt_Suc)
  have st: "Clerk_loop request ((b # bad) @ Some response # rest) ck sent =
      Clerk_loop request (bad @ Some response # rest) ?ck (sent @ [(ck_leaderId ck, request)])"
    using r by (simp add: retry_answer_def Let_def)
  show ?case unfolding st IH length_Cons up using m by (simp del: upt_Suc)
qed

section \<open>Properties\<close>

text \<open>C2: exactly-once execution and agreement of the replicas.  In every reachable state of a replica,
  whatever interleaving of its goroutines, snapshots installed and restarts led there, the
  state machine is the one that the committed commands so far give when the repeated ones are
  left out, and no command of a client is executed twice.  In particular two replicas that stand for
  the same prefix of the log have the same contents.\<close>

theorem kv_exactly_once:
  assumes "reach (replica_init n i) (replica_step L n i) (kv, a)"
  shows "let eff = effective (\<lambda>c. cr_Op c \<noteq> OpGet) cr_ClientId cr_CommandId Map.empty (take a L) in
    kv_stateMachine kv = fold (\<lambda>c m. fst (kv_op c m)) eff NewMemoryKV \<and>
    distinct (map (\<lambda>c. (cr_ClientId c, cr_CommandId c)) eff) \<and> kv_lastApplied kv \<le> int a \<and> a \<le> length L"
proof -
  have inv: "replica_inv L n i (kv, a)" by (rule replica.reach_inv [OF assms])
  have "kv_seen kv_blank = Map.empty" using kv_blank_core(1) by (auto simp: kv_seen_def kv_core_def)
  moreover have "kv_stateMachine kv_blank = NewMemoryKV" using kv_blank_core(1) by (simp add: kv_core_def)
  moreover have "kv_stateMachine kv = kv_stateMachine (run_log kv_step (take a L) kv_blank)"
    using inv by (simp add: replica_inv_def kv_after_def kv_core_def)
  ultimately show ?thesis
    using kv_sessions.run_effective [OF kv_blank_core(2), of "take a L"] inv
    by (simp add: Let_def effective_once replica_inv_def)
qed

text \<open>C32: no update is lost.  When every client issues its commands in order (a new id only after all its
  smaller ones, as a client does that waits for each answer), the contents of a replica are what the updates of the
  applied log give, every one of them executed where it appears first, however often and wherever it was
  repeated.\<close>

theorem kv_no_update_lost:
  assumes "reach (replica_init n i) (replica_step L n i) (kv, a)"
    "issued_in_order (\<lambda>c. cr_Op c \<noteq> OpGet) cr_ClientId cr_CommandId (take a L)"
  shows "kv_stateMachine kv = fold (\<lambda>c m. fst (kv_op c m))
    (first_updates (\<lambda>c. cr_Op c \<noteq> OpGet) (\<lambda>c. (cr_ClientId c, cr_CommandId c)) {} (take a L)) NewMemoryKV"
proof -
  have inv: "replica_inv L n i (kv, a)" by (rule replica.reach_inv [OF assms(1)])
  have "kv_seen kv_blank = Map.empty" "kv_stateMachine kv_blank = NewMemoryKV"
    using kv_blank_core(1) by (auto simp: kv_seen_def kv_core_def)
  then have "kv_stateMachine kv = fold (\<lambda>c m. fst (kv_op c m))
      (effective (\<lambda>c. cr_Op c \<noteq> OpGet) cr_ClientId cr_CommandId Map.empty (take a L)) NewMemoryKV"
    using kv_sessions.run_effective [OF kv_blank_core(2), of "take a L"] inv
    by (simp add: replica_inv_def kv_after_def kv_core_def)
  then show ?thesis unfolding effective_first_updates [OF assms(2)] .
qed

text \<open>C33: the applier neither panics nor blocks.  In every reachable state the next committed command is
  processed to the end: the maps it writes to are not nil, the channel it answers on is
  empty, and a snapshot it takes lies inside Raft's log.\<close>

theorem kv_applier_never_stuck:
  assumes "reach (replica_init n i) (replica_step L n i) (kv, a)" "a < length L"
    "am_CommandValid m" "am_CommandIndex m = int a + 1" "am_Command m = Some (L ! a)"
    "am_CommandIndex m \<le> commitIndex (kv_rf kv)"
  shows "\<exists>kv'. kv_applier cap size_of m kv = Some kv' \<and> kv_lastApplied kv' = int a + 1"
proof -
  have inv: "replica_inv L n i (kv, a)" by (rule replica.reach_inv [OF assms(1)])
  then have "kv_good kv" "kv_lastApplied kv < am_CommandIndex m" "raft_ok (kv_rf kv)" "chans_ok kv"
    using kv_core_good assms(4) by (auto simp: replica_inv_def)
  then show ?thesis using kv_applier_command [of m kv "L ! a" cap size_of] assms(3-6) by auto
qed

text \<open>A repeated request is answered with the response of its first execution, as long as the client has not
  moved on to a later command.\<close>

theorem kv_retry_same_response:
  assumes "kv_good kv" "cr_Op c \<noteq> OpGet" "\<not> isDuplicateRequest (cr_ClientId c) (cr_CommandId c) kv"
    "\<forall>d\<in>set cs. cr_Op d \<noteq> OpGet \<and> cr_ClientId d = cr_ClientId c \<longrightarrow> cr_CommandId d \<le> cr_CommandId c"
  shows "applyCommand c (run_log kv_step cs (fst (kv_step c kv))) =
      Some (run_log kv_step cs (fst (kv_step c kv)), snd (kv_step c kv)) \<and>
    Command_check c (run_log kv_step cs (fst (kv_step c kv))) = Some (snd (kv_step c kv))"
proof -
  have n: "\<forall>m r. kv_seen kv (cr_ClientId c) = Some (m, r) \<longrightarrow> m < cr_CommandId c"
    using assms(3) by (auto simp: kv_seen_def isDuplicateRequest_def)
  let ?kv = "run_log kv_step cs (fst (kv_step c kv))"
  have "kv_seen (fst (kv_step c kv)) (cr_ClientId c) = Some (cr_CommandId c, snd (kv_step c kv))"
    using kv_sessions.fresh [OF assms(1), of c] n assms(2) by simp
  then have "kv_seen ?kv (cr_ClientId c) = Some (cr_CommandId c, snd (kv_step c kv))"
    using kv_sessions.seen_stays [OF kv_sessions.inv_step [OF assms(1)]] assms(4) by simp
  then show ?thesis
    using assms(2) by (auto simp: applyCommand_def Command_check_def isDuplicateRequest_def kv_seen_def)
qed

text \<open>snapshots round-trip.  A server that starts from the persister a snapshot was written to has the state
  machine and the record of clients that were snapshotted.\<close>

theorem kv_snapshot_roundtrip:
  assumes "raft_ok (kv_rf kv)" "index \<le> commitIndex (kv_rf kv)" "firstIndex (kv_rf kv) < index"
    "takeSnapshot cap index kv = Some kv'" "i < n"
  shows "\<exists>kv''. StartKVServer n i (Persister_Copy (persister (kv_rf kv'))) maxraftstate = Some kv'' \<and>
    kv_stateMachine kv'' = kv_stateMachine kv \<and> kv_lastOperations kv'' = kv_lastOperations kv"
proof -
  let ?w = "[GobStateMachine (kv_stateMachine kv), GobLastOperations (kv_lastOperations kv)]"
  obtain rf' where r: "Snapshot cap index ?w (kv_rf kv) = Some rf'" "kv' = kv\<lparr>kv_rf := rf'\<rparr>"
    using assms(4) by (auto simp: takeSnapshot_def bind_Some_iff)
  have t: "kv' = kv\<lparr>kv_rf := rf'\<rparr>" "raft_ok rf'" using Snapshot_ok [OF assms(1,2), of cap ?w] r by auto
  have s: "snapshot (persister rf') = ?w"
    using assms(1-3) r(1) by (auto simp: Snapshot_result raft_ok_def Let_def SaveStateAndSnapshot_def)
  obtain rf2 where "Make n i (persister rf') = Some rf2" using restart_ok [OF t(2) assms(5)] by auto
  then show ?thesis using t(1) s by (simp add: StartKVServer_def ReadSnapshot_def restoreSnapshot_def)
qed

text \<open>C11: the log order is a linearization.  The operations that a replica executes, with the responses
  it gives, form a legal sequential history of \<^verbatim>\<open>KvModel\<close> on every part that
  \<^verbatim>\<open>KvModel.Partition\<close> splits them into.\<close>

theorem kv_history_linearizable:
  assumes "\<forall>c\<in>set cs. valid_op c" "part \<in> set (KvModel_Partition h)"
    "map (\<lambda>v. (op_Input v, op_Output v)) h = kv_history cs kv_blank"
  shows "legal KvModel_Step KvModel_Init (map (\<lambda>v. (op_Input v, op_Output v)) part)"
proof -
  obtain k where k: "part = filter (\<lambda>v. ki_Key (op_Input v) = k) h"
    using assms(2) by (auto simp: Partition_by_key)
  have "map (\<lambda>v. (op_Input v, op_Output v)) part = filter (\<lambda>(i, r). ki_Key i = k) (kv_history cs kv_blank)"
    unfolding k assms(3) [symmetric] by (simp add: filter_map comp_def)
  moreover have "kv_value k kv_blank = KvModel_Init"
    using kv_blank_core(1) by (simp add: kv_value_def kv_core_def NewMemoryKV_def MemoryKV_Get_def KvModel_Init_def)
  ultimately show ?thesis using kv_history_legal [OF kv_blank_core(2) assms(1), of k] by simp
qed

text \<open>The clerk.  It asks the servers round-robin, starting from the one that answered last, until one neither
  fails nor refuses; all its requests carry the same client and command id; then it remembers that server, moves to the next
  command id and returns that answer.\<close>

theorem clerk_round_robin:
  assumes "list_all retry_answer bad" "\<not> retry_answer (Some response)" "0 < ck_servers ck"
    "0 \<le> ck_leaderId ck" "ck_leaderId ck < int (ck_servers ck)"
  shows "Clerk_Command request (bad @ Some response # rest) ck =
    Some (ck\<lparr>ck_leaderId := (ck_leaderId ck + int (length bad)) mod int (ck_servers ck), ck_commandId := ck_commandId ck + 1\<rparr>,
      cs_Value response,
      map (\<lambda>j. ((ck_leaderId ck + int j) mod int (ck_servers ck),
        request\<lparr>cr_ClientId := ck_clientId ck, cr_CommandId := ck_commandId ck\<rparr>)) [0..<Suc (length bad)])"
  unfolding Clerk_Command_def Clerk_loop_result [OF assms] by simp

section \<open>Witnesses\<close>

text \<open>Client 5 appends to a key and repeats the request, then client 6 reads it.\<close>

definition demo_append :: CommandRequest where
  "demo_append = \<lparr>cr_Key = ''k'', cr_Value = ''v'', cr_Op = OpAppend, cr_ClientId = 5, cr_CommandId = 0\<rparr>"

definition demo_get :: CommandRequest where
  "demo_get = \<lparr>cr_Key = ''k'', cr_Value = [], cr_Op = OpGet, cr_ClientId = 6, cr_CommandId = 0\<rparr>"

definition demo_log :: "CommandRequest list" where
  "demo_log = [demo_append, demo_append, demo_get]"

text \<open>A leader that has committed the log.\<close>

definition demo_kv_raft :: "(CommandRequest, kv_gob) Raft" where
  "demo_kv_raft = persist \<lparr>npeers = 3, persister = MakePersister, me = 0, dead = False, state = StateLeader, currentTerm = 1,
     votedFor = 0, logs = [zeroEntry, \<lparr>e_Index = 1, e_Term = 1, e_Command = Some demo_append\<rparr>,
       \<lparr>e_Index = 2, e_Term = 1, e_Command = Some demo_append\<rparr>, \<lparr>e_Index = 3, e_Term = 1, e_Command = Some demo_get\<rparr>],
     commitIndex = 3, lastApplied = 0, nextIndex = [4, 4, 4], matchIndex = [3, 3, 3], electionTimer = True, heartbeatTimer = True\<rparr>"

definition demo_msg :: "nat \<Rightarrow> (CommandRequest, kv_gob) ApplyMsg" where
  "demo_msg j = commandMsg (logs demo_kv_raft ! Suc j)"

definition demo_size :: "CommandRequest gob list \<Rightarrow> int" where
  "demo_size g = int (length g)"

lemma demo_kv_raft_ok: "raft_ok demo_kv_raft" "commitIndex demo_kv_raft = 3" "snapshot (persister demo_kv_raft) = []"
  by code_simp+

lemma demo_msg_ok:
  "j < 3 \<Longrightarrow> am_CommandValid (demo_msg j) \<and> am_CommandIndex (demo_msg j) = int j + 1 \<and> am_Command (demo_msg j) = Some (demo_log ! j)"
  by (auto simp: demo_msg_def demo_kv_raft_def commandMsg_def demo_log_def less_Suc_eq numeral_3_eq_3 persist_def)

lemma demo_replica_start: "\<exists>kv. reach (replica_init 3 0) (replica_step demo_log 3 0) (kv, 0) \<and> kv_rf kv = demo_kv_raft"
proof -
  have "restored (MakePersister :: (CommandRequest gob, kv_gob) Persister) = (0, -1, [zeroEntry])"
    by (simp add: restored_def MakePersister_def)
  then obtain rf where rf: "Make 3 0 (MakePersister :: (CommandRequest gob, kv_gob) Persister) = Some rf" "commitIndex rf = 0"
    using Make_exists [of 0 3 MakePersister 0 "-1" "[zeroEntry]"] by (auto simp: zeroEntry_def)
  obtain kv where kv: "StartKVServer 3 0 MakePersister 1 = Some kv" "kv_rf kv = rf"
    using rf(1) by (auto simp: StartKVServer_def ReadSnapshot_def MakePersister_def restoreSnapshot_def)
  have "persister rf = MakePersister" using Make_frame [OF rf(1)] by simp
  then have r: "replica_step demo_log 3 0 (kv, 0) (kv\<lparr>kv_rf := demo_kv_raft\<rparr>, 0)"
    using replica_step.raft [OF demo_kv_raft_ok(1)] demo_kv_raft_ok rf(2) kv(2) by (simp add: MakePersister_def)
  have "reach (replica_init 3 0) (replica_step demo_log 3 0) (kv, 0)"
    using kv(1) by (intro reach_init) (auto simp: replica_init_def)
  from reach_step [OF this r] show ?thesis by auto
qed

lemma demo_replica_all:
  "\<exists>kv. reach (replica_init 3 0) (replica_step demo_log 3 0) (kv, 3)"
proof -
  have "\<exists>kv. reach (replica_init 3 0) (replica_step demo_log 3 0) (kv, j) \<and> commitIndex (kv_rf kv) = 3" if "j \<le> 3" for j
    using that
  proof (induction j)
    case 0
    then show ?case using demo_replica_start demo_kv_raft_ok(2) by auto
  next
    case (Suc j)
    then obtain kv where kv: "reach (replica_init 3 0) (replica_step demo_log 3 0) (kv, j)" "commitIndex (kv_rf kv) = 3" by auto
    have inv: "replica_inv demo_log 3 0 (kv, j)" by (rule replica.reach_inv [OF kv(1)])
    have m: "am_CommandValid (demo_msg j)" "am_CommandIndex (demo_msg j) = int j + 1" "am_Command (demo_msg j) = Some (demo_log ! j)"
      "j < length demo_log" "am_CommandIndex (demo_msg j) \<le> commitIndex (kv_rf kv)"
      using demo_msg_ok [of j] Suc.prems kv(2) by (auto simp: demo_log_def)
    have g: "raft_ok (kv_rf kv)" "chans_ok kv" "kv_good kv" "kv_lastApplied kv < am_CommandIndex (demo_msg j)"
      using inv kv_core_good m(2) by (auto simp: replica_inv_def)
    from kv_applier_command [OF m(1) g(4) m(3) g(1) m(5) g(2,3), of 0 demo_size]
    obtain kv' where k: "kv_applier 0 demo_size (demo_msg j) kv = Some kv'" "commitIndex (kv_rf kv') = 3" using kv(2) by auto
    have "reach (replica_init 3 0) (replica_step demo_log 3 0) (kv', Suc j)"
      using reach_step [OF kv(1) replica_step.command [OF m(1,2,4,3,5) k(1)]] by simp
    then show ?case using k(2) by blast
  qed
  then show ?thesis by blast
qed

theorem kv_exactly_once_witness:
  "\<exists>kv. reach (replica_init 3 0) (replica_step demo_log 3 0) (kv, 3) \<and> MemoryKV_Get ''k'' (kv_stateMachine kv) = (''v'', OK)"
proof -
  obtain kv where kv: "reach (replica_init 3 0) (replica_step demo_log 3 0) (kv, 3)" using demo_replica_all by blast
  have "effective (\<lambda>c. cr_Op c \<noteq> OpGet) cr_ClientId cr_CommandId Map.empty (take 3 demo_log) = [demo_append]"
    by (simp add: demo_log_def demo_append_def demo_get_def kv_op_defs)
  moreover have "MemoryKV_Get ''k'' (fst (kv_op demo_append NewMemoryKV)) = (''v'', OK)"
    by (simp add: kv_op_def applyLogToStateMachine_def demo_append_def kv_op_defs MemoryKV_Append_def NewMemoryKV_def MemoryKV_Get_def)
  ultimately show ?thesis using kv_exactly_once [OF kv] kv by auto
qed

theorem kv_no_update_lost_witness:
  "\<exists>kv. reach (replica_init 3 0) (replica_step demo_log 3 0) (kv, 3) \<and>
     kv_stateMachine kv = fst (kv_op demo_append NewMemoryKV)"
proof -
  obtain kv where kv: "reach (replica_init 3 0) (replica_step demo_log 3 0) (kv, 3)" using demo_replica_all by blast
  have o: "issued_in_order (\<lambda>c. cr_Op c \<noteq> OpGet) cr_ClientId cr_CommandId (take 3 demo_log)"
    by (auto simp: issued_in_order_def demo_log_def less_Suc_eq numeral_3_eq_3 demo_append_def demo_get_def kv_op_defs)
  have "first_updates (\<lambda>c. cr_Op c \<noteq> OpGet) (\<lambda>c. (cr_ClientId c, cr_CommandId c)) {} (take 3 demo_log) = [demo_append]"
    by (simp add: demo_log_def demo_append_def demo_get_def kv_op_defs)
  then show ?thesis using kv_no_update_lost [OF kv o] kv by auto
qed

theorem kv_applier_never_stuck_witness:
  "\<exists>kv kv'. reach (replica_init 3 0) (replica_step demo_log 3 0) (kv, 0) \<and> kv_applier 0 demo_size (demo_msg 0) kv = Some kv'"
proof -
  obtain kv where kv: "reach (replica_init 3 0) (replica_step demo_log 3 0) (kv, 0)" "kv_rf kv = demo_kv_raft"
    using demo_replica_start by blast
  have "0 < length demo_log" "am_CommandValid (demo_msg 0)" "am_CommandIndex (demo_msg 0) = int 0 + 1"
    "am_Command (demo_msg 0) = Some (demo_log ! 0)" "am_CommandIndex (demo_msg 0) \<le> commitIndex (kv_rf kv)"
    using demo_msg_ok [of 0] kv(2) demo_kv_raft_ok(2) by (auto simp: demo_log_def)
  from kv_applier_never_stuck [OF kv(1) this, of 0 demo_size] kv(1) show ?thesis by blast
qed

theorem kv_retry_same_response_witness:
  "Command_check demo_append (run_log kv_step [demo_get] (fst (kv_step demo_append kv_blank))) = Some (snd (kv_step demo_append kv_blank))"
proof -
  have "cr_Op demo_append \<noteq> OpGet" "\<forall>d\<in>set [demo_get]. cr_Op d \<noteq> OpGet \<and> cr_ClientId d = cr_ClientId demo_append \<longrightarrow> cr_CommandId d \<le> cr_CommandId demo_append"
    "\<not> isDuplicateRequest (cr_ClientId demo_append) (cr_CommandId demo_append) kv_blank"
    using kv_blank_core(1) by (auto simp: demo_append_def demo_get_def kv_op_defs isDuplicateRequest_def kv_core_def)
  then show ?thesis using kv_retry_same_response [OF kv_blank_core(2)] by blast
qed

theorem kv_snapshot_roundtrip_witness:
  "\<exists>kv' kv''. takeSnapshot 0 2 (kv_blank\<lparr>kv_rf := demo_kv_raft\<rparr>) = Some kv' \<and>
     StartKVServer 3 0 (Persister_Copy (persister (kv_rf kv'))) 1 = Some kv'' \<and> kv_stateMachine kv'' = NewMemoryKV"
proof -
  let ?kv = "kv_blank\<lparr>kv_rf := demo_kv_raft\<rparr>"
  have r: "raft_ok (kv_rf ?kv)" "2 \<le> commitIndex (kv_rf ?kv)" "firstIndex (kv_rf ?kv) < 2"
    using demo_kv_raft_ok by (auto simp: demo_kv_raft_def zeroEntry_def)
  obtain kv' where t: "takeSnapshot 0 2 ?kv = Some kv'" using takeSnapshot_ok [OF r(1,2)] by blast
  have "kv_stateMachine ?kv = NewMemoryKV" using kv_blank_core(1) by (simp add: kv_core_def)
  moreover have "\<exists>kv''. StartKVServer 3 0 (Persister_Copy (persister (kv_rf kv'))) 1 = Some kv'' \<and>
      kv_stateMachine kv'' = kv_stateMachine ?kv \<and> kv_lastOperations kv'' = kv_lastOperations ?kv"
    by (rule kv_snapshot_roundtrip [OF r t]) simp
  ultimately show ?thesis using t by auto
qed

theorem kv_history_linearizable_witness:
  "\<exists>h. map (\<lambda>v. (op_Input v, op_Output v)) h = kv_history demo_log kv_blank \<and> h \<noteq> [] \<and>
     legal KvModel_Step KvModel_Init (map (\<lambda>v. (op_Input v, op_Output v)) (hd (KvModel_Partition h)))"
proof -
  define h :: "kv_operation list" where
    "h = map (\<lambda>(i, r). \<lparr>op_ClientId = 0, op_Input = i, op_Call = 0, op_Output = r, op_Return = 1\<rparr>) (kv_history demo_log kv_blank)"
  have m: "map (\<lambda>v. (op_Input v, op_Output v)) h = kv_history demo_log kv_blank" by (simp add: h_def split_def comp_def)
  have ne: "h \<noteq> []" using kv_blank_core(1)
    by (auto simp: h_def demo_log_def isDuplicateRequest_def kv_core_def demo_append_def)
  have p: "hd (KvModel_Partition h) \<in> set (KvModel_Partition h)"
    using ne by (intro hd_in_set) (simp add: Partition_by_key)
  have "\<forall>c\<in>set demo_log. valid_op c" by (auto simp: demo_log_def valid_op_def demo_append_def demo_get_def)
  from kv_history_linearizable [OF this p m] m ne show ?thesis by blast
qed

theorem clerk_round_robin_witness:
  "map fst (snd (snd (the (Clerk_Get ''k'' [None, Some Command_timeout, Some \<lparr>cs_Err = OK, cs_Value = ''v''\<rparr>]
     \<lparr>ck_servers = 3, ck_leaderId = 2, ck_clientId = 9, ck_commandId = 4\<rparr>)))) = [2, 0, 1]"
proof -
  have "list_all retry_answer [None, Some Command_timeout]" "\<not> retry_answer (Some \<lparr>cs_Err = OK, cs_Value = ''v''\<rparr>)"
    by (simp_all add: retry_answer_def Command_timeout_def kv_err_defs)
  from clerk_round_robin [OF this, of "\<lparr>ck_servers = 3, ck_leaderId = 2, ck_clientId = 9, ck_commandId = 4\<rparr>" "newRequest ''k'' [] OpGet" "[]"]
  show ?thesis by (simp add: Clerk_Get_def upt_rec numeral_eq_Suc)
qed

end
