(* ===== verification/Ctrl_Config.thy ===== *)
theory Ctrl_Config
  imports Go_Prelude
begin

text \<open>
  The configurations of the shard controller: \<^verbatim>\<open>Config\<close> of
  \<^verbatim>\<open>src/src/shardctrler/common.go\<close> and \<^verbatim>\<open>configStateMachine.go\<close>.

  The maps are association lists whose order is the iteration order of \<^verbatim>\<open>range\<close>; reading a
  missing key gives the nil slice, which is the empty list.  The array \<^verbatim>\<open>[NShards]int\<close> is a list of
  length \<open>NShards\<close>.  The balancing loop of \<^verbatim>\<open>Join\<close> is the function \<open>rebalance\<close>, whose termination
  is proved for every input: a turn either takes a shard from group 0, which never gets
  one, or brings two groups closer together.
\<close>

section \<open>Data\<close>

definition NShards :: nat where "NShards = 10"

record Config =
  cf_Num :: int
  cf_Shards :: "int list"
  cf_Groups :: "(int, string list) gomap"

definition DefaultConfig :: Config where
  "DefaultConfig = \<lparr>cf_Num = 0, cf_Shards = replicate NShards 0, cf_Groups = []\<rparr>"

record MemoryConfigStateMachine =
  Configs :: "Config list"

definition NewMemoryConfigStateMachine :: MemoryConfigStateMachine where
  "NewMemoryConfigStateMachine = \<lparr>Configs = [DefaultConfig]\<rparr>"

datatype CtrlErr = CtrlOK | CtrlErrWrongLeader | CtrlErrTimeout

section \<open>Helpers\<close>

type_synonym s2g = "(int, int list) gomap"

definition shards_of :: "s2g \<Rightarrow> int \<Rightarrow> int list" where
  "shards_of m gid = (case map_of m gid of None \<Rightarrow> [] | Some shards \<Rightarrow> shards)"

definition deepCopy :: "(int, string list) gomap \<Rightarrow> (int, string list) gomap" where
  "deepCopy groups = fold (\<lambda>(gid, servers) newGroups.
     AList.update gid (map (\<lambda>i. servers ! i) [0..<length servers]) newGroups) groups []"

definition Group2Shards :: "Config \<Rightarrow> s2g" where
  "Group2Shards config =
     fold (\<lambda>(shard, gid) m. AList.update gid (shards_of m gid @ [int shard]) m) (enumerate 0 (cf_Shards config))
       (fold (\<lambda>gid m. AList.update gid [] m) (map fst (cf_Groups config)) [])"

definition GetGIDWithMaximumShards :: "s2g \<Rightarrow> int" where
  "GetGIDWithMaximumShards m =
     (if shards_of m 0 \<noteq> [] then 0
      else fst (fold (\<lambda>gid (index, mx). if int (length (shards_of m gid)) > mx then (gid, int (length (shards_of m gid))) else (index, mx))
                  (sort (map fst m)) (-1, -1)))"

definition GetGIDWithMinimumShards :: "s2g \<Rightarrow> int" where
  "GetGIDWithMinimumShards m =
     fst (fold (\<lambda>gid (index, mn). if gid \<noteq> 0 \<and> int (length (shards_of m gid)) < mn then (gid, int (length (shards_of m gid))) else (index, mn))
            (sort (map fst m)) (-1, int NShards + 1))"

section \<open>Lemmas on the helpers\<close>

lemma shards_of_update [simp]: "shards_of (AList.update k v m) = (shards_of m)(k := v)"
  by (rule ext) (simp add: shards_of_def update_conv')

lemma shards_of_key: "shards_of m g \<noteq> [] \<Longrightarrow> g \<in> fst ` set m"
  by (force simp: shards_of_def split: option.splits dest: map_of_SomeD)

text \<open>What the two searches find.\<close>

lemma fold_max:
  assumes "fold (\<lambda>g (index, mx). if f g > mx then (g, f g) else (index, mx)) ks (i0, m0) = (i, m :: int)"
  shows "m0 \<le> m \<and> (\<forall>g\<in>set ks. f g \<le> m) \<and> (i = i0 \<and> m = m0 \<or> i \<in> set ks \<and> m = f i)"
  using assms by (induction ks arbitrary: i0 m0) (fastforce split: if_splits)+

lemma fold_min:
  assumes "fold (\<lambda>g (index, mn). if P g \<and> f g < mn then (g, f g) else (index, mn)) ks (i0, m0) = (i, m :: int)"
  shows "m \<le> m0 \<and> (\<forall>g\<in>set ks. P g \<longrightarrow> m \<le> f g) \<and> (i = i0 \<and> m = m0 \<or> i \<in> set ks \<and> P i \<and> m = f i)"
  using assms by (induction ks arbitrary: i0 m0) (fastforce split: if_splits)+

lemma GetMax_spec:
  assumes "m \<noteq> []"
  shows "shards_of m 0 \<noteq> [] \<and> GetGIDWithMaximumShards m = 0 \<or>
    GetGIDWithMaximumShards m \<in> fst ` set m \<and> shards_of m 0 = [] \<and>
    (\<forall>g\<in>fst ` set m. length (shards_of m g) \<le> length (shards_of m (GetGIDWithMaximumShards m)))"
proof (cases "shards_of m 0 = []")
  case True
  obtain i mx where f: "fold (\<lambda>g (index, mx). if int (length (shards_of m g)) > mx then (g, int (length (shards_of m g))) else (index, mx))
      (sort (map fst m)) (-1, -1) = (i, mx)" by fastforce
  have "i \<in> fst ` set m \<and> (\<forall>g\<in>fst ` set m. int (length (shards_of m g)) \<le> int (length (shards_of m i)))"
  proof -
    note r = fold_max [OF f]
    obtain g where "g \<in> fst ` set m" using assms by (cases m) auto
    then have "int (length (shards_of m g)) \<le> mx" using r by auto
    then have "mx \<noteq> -1" by linarith
    then show ?thesis using r by auto
  qed
  then show ?thesis using True f by (simp add: GetGIDWithMaximumShards_def)
qed (simp add: GetGIDWithMaximumShards_def)

lemma GetMin_spec:
  shows "GetGIDWithMinimumShards m \<noteq> 0"
    and "g \<in> fst ` set m \<Longrightarrow> g \<noteq> 0 \<Longrightarrow> length (shards_of m g) \<le> NShards \<Longrightarrow>
      GetGIDWithMinimumShards m \<in> fst ` set m \<and>
      (\<forall>h\<in>fst ` set m. h \<noteq> 0 \<longrightarrow> length (shards_of m (GetGIDWithMinimumShards m)) \<le> length (shards_of m h))"
proof -
  obtain i mn where f: "fold (\<lambda>g (index, mn). if g \<noteq> 0 \<and> int (length (shards_of m g)) < mn then (g, int (length (shards_of m g))) else (index, mn))
      (sort (map fst m)) (-1, int NShards + 1) = (i, mn)" by fastforce
  note r = fold_min [OF f]
  have i: "GetGIDWithMinimumShards m = i" using f by (simp add: GetGIDWithMinimumShards_def)
  show "GetGIDWithMinimumShards m \<noteq> 0" using r i by auto
  assume "g \<in> fst ` set m" "g \<noteq> 0" "length (shards_of m g) \<le> NShards"
  then show "GetGIDWithMinimumShards m \<in> fst ` set m \<and>
      (\<forall>h\<in>fst ` set m. h \<noteq> 0 \<longrightarrow> length (shards_of m (GetGIDWithMinimumShards m)) \<le> length (shards_of m h))"
    using r i by fastforce
qed

section \<open>The balancing loop\<close>

text \<open>The sum of the squares of the group sizes falls when a shard moves to a group that is smaller by at least two.\<close>

definition spread :: "s2g \<Rightarrow> nat" where
  "spread m = (\<Sum>g\<in>fst ` set m. length (shards_of m g) ^ 2)"

lemma spread_move:
  assumes s: "shards_of m s = x # rest" and ne: "s \<noteq> t" and gap: "length (shards_of m t) + 2 \<le> length (shards_of m s)"
  defines "m' \<equiv> AList.update s rest (AList.update t (shards_of m t @ [x]) m)"
  shows "spread m' < spread m"
proof -
  let ?K = "insert t (fst ` set m)" and ?f = "\<lambda>g. length (shards_of m g) ^ 2"
  have sk: "s \<in> fst ` set m" using s shards_of_key by force
  have K: "fst ` set m' = ?K" using sk by (auto simp: m'_def)
  have m: "spread m = (\<Sum>g\<in>?K. ?f g)"
  proof (cases "t \<in> fst ` set m")
    case False
    then have "shards_of m t = []" using shards_of_key by blast
    then show ?thesis using False by (simp add: spread_def)
  qed (simp add: spread_def insert_absorb)
  have split: "(\<Sum>g\<in>?K. h g) = h s + (h t + (\<Sum>g\<in>?K - {s, t}. h g))" for h :: "int \<Rightarrow> nat"
  proof -
    have "(\<Sum>g\<in>?K. h g) = h s + (\<Sum>g\<in>?K - {s}. h g)" using sk by (intro sum.remove) auto
    moreover have "(\<Sum>g\<in>?K - {s}. h g) = h t + (\<Sum>g\<in>?K - {s} - {t}. h g)" using ne by (intro sum.remove) auto
    moreover have "?K - {s} - {t} = ?K - {s, t}" by auto
    ultimately show ?thesis by simp
  qed
  have f': "shards_of m' = (shards_of m)(t := shards_of m t @ [x], s := rest)" by (simp add: m'_def)
  have rest: "(\<Sum>g\<in>?K - {s, t}. length (shards_of m' g) ^ 2) = (\<Sum>g\<in>?K - {s, t}. ?f g)"
    by (rule sum.cong) (auto simp: f')
  define a where "a = length rest"
  define b where "b = length (shards_of m t)"
  have ab: "b + 1 \<le> a" "length (shards_of m s) = Suc a" using gap s by (auto simp: a_def b_def)
  have "a ^ 2 + (b + 1) ^ 2 < (Suc a) ^ 2 + b ^ 2"
    using ab(1) by (simp add: power2_eq_square algebra_simps)
  then have "length (shards_of m' s) ^ 2 + length (shards_of m' t) ^ 2 < ?f s + ?f t"
    using ne ab(2) by (simp add: f' a_def b_def)
  then show ?thesis
    unfolding m unfolding spread_def K split [of "\<lambda>g. length (shards_of m' g) ^ 2"] split [of ?f] rest by linarith
qed

function rebalance :: "s2g \<Rightarrow> s2g option" where
  "rebalance m =
     (let source = GetGIDWithMaximumShards m; target = GetGIDWithMinimumShards m in
      if source \<noteq> 0 \<and> int (length (shards_of m source)) - int (length (shards_of m target)) \<le> 1 then Some m
      else case shards_of m source of
          [] \<Rightarrow> None
        | shard # _ \<Rightarrow>
            (let m1 = AList.update target (shards_of m target @ [shard]) m
             in rebalance (AList.update source (drop 1 (shards_of m1 source)) m1)))"
  by pat_completeness auto
termination
proof (relation "measures [\<lambda>m. length (shards_of m 0), spread]", goal_cases)
  case (2 m source target shard rest m1)
  have t0: "target \<noteq> 0" using GetMin_spec(1) 2(2) by simp
  have st: "source \<noteq> target"
  proof
    assume "source = target"
    then show False using 2(3) t0 by simp
  qed
  show ?case
  proof (cases "source = 0")
    case True
    then show ?thesis using 2(4,5) st by simp
  next
    case False
    then have "length (shards_of m target) + 2 \<le> length (shards_of m source)" using 2(3) by simp
    then have "spread (AList.update source rest (AList.update target (shards_of m target @ [shard]) m)) < spread m"
      using spread_move [OF 2(4) st] by simp
    then show ?thesis using 2(4,5) st t0 False by simp
  qed
qed simp

declare rebalance.simps [simp del]

section \<open>The operations\<close>

text \<open>\<^verbatim>\<open>for gid, shards := range s2g { for _, shard := range shards { newShards[shard] = gid } }\<close>\<close>

fun writeGroup :: "int \<Rightarrow> int list \<Rightarrow> int list \<Rightarrow> int list option" where
  "writeGroup gid [] newShards = Some newShards"
| "writeGroup gid (shard # shards) newShards = do {
     ns \<leftarrow> go_store newShards shard gid;
     writeGroup gid shards ns
   }"

fun writeShards :: "s2g \<Rightarrow> int list \<Rightarrow> int list option" where
  "writeShards [] newShards = Some newShards"
| "writeShards ((gid, shards) # m) newShards = do {
     ns \<leftarrow> writeGroup gid shards newShards;
     writeShards m ns
   }"

definition lastConfig :: "MemoryConfigStateMachine \<Rightarrow> Config option" where
  "lastConfig cf = go_index (Configs cf) (int (length (Configs cf)) - 1)"

definition Join :: "(int, string list) gomap \<Rightarrow> MemoryConfigStateMachine \<Rightarrow> (MemoryConfigStateMachine \<times> CtrlErr) option" where
  "Join groups cf = do {
     last \<leftarrow> lastConfig cf;
     let newConfig = \<lparr>cf_Num = int (length (Configs cf)), cf_Shards = cf_Shards last, cf_Groups = deepCopy (cf_Groups last)\<rparr>;
     let newGroups = fold (\<lambda>(gid, servers) gs.
           case map_of gs gid of
             None \<Rightarrow> AList.update gid (map (\<lambda>i. servers ! i) [0..<length servers]) gs
           | Some _ \<Rightarrow> gs) groups (cf_Groups newConfig);
     let newConfig = newConfig\<lparr>cf_Groups := newGroups\<rparr>;
     s2g \<leftarrow> rebalance (Group2Shards newConfig);
     newShards \<leftarrow> writeShards s2g (replicate NShards 0);
     Some (cf\<lparr>Configs := Configs cf @ [newConfig\<lparr>cf_Shards := newShards\<rparr>]\<rparr>, CtrlOK)
   }"

text \<open>The loop over the leaving groups: the groups that stay, the shards by group, the orphans.\<close>

fun removeGroups :: "int list \<Rightarrow> (int, string list) gomap \<Rightarrow> s2g \<Rightarrow> int list \<Rightarrow> (int, string list) gomap \<times> s2g \<times> int list" where
  "removeGroups [] groups m orphans = (groups, m, orphans)"
| "removeGroups (gid # gids) groups m orphans =
     (let groups' = (case map_of groups gid of None \<Rightarrow> groups | Some _ \<Rightarrow> AList.delete gid groups)
      in case map_of m gid of
           None \<Rightarrow> removeGroups gids groups' m orphans
         | Some shards \<Rightarrow> removeGroups gids groups' (AList.delete gid m) (orphans @ shards))"

definition placeOrphans :: "int list \<Rightarrow> s2g \<Rightarrow> s2g" where
  "placeOrphans orphans m =
     fold (\<lambda>shard m. let target = GetGIDWithMinimumShards m in AList.update target (shards_of m target @ [shard]) m) orphans m"

definition Leave :: "int list \<Rightarrow> MemoryConfigStateMachine \<Rightarrow> (MemoryConfigStateMachine \<times> CtrlErr) option" where
  "Leave gids cf = do {
     last \<leftarrow> lastConfig cf;
     let newConfig = \<lparr>cf_Num = int (length (Configs cf)), cf_Shards = cf_Shards last, cf_Groups = deepCopy (cf_Groups last)\<rparr>;
     let (groups, m, orphans) = removeGroups gids (cf_Groups newConfig) (Group2Shards newConfig) [];
     newShards \<leftarrow> (if length groups \<noteq> 0 then writeShards (placeOrphans orphans m) (replicate NShards 0)
                   else Some (replicate NShards 0));
     Some (cf\<lparr>Configs := Configs cf @ [newConfig\<lparr>cf_Groups := groups, cf_Shards := newShards\<rparr>]\<rparr>, CtrlOK)
   }"

definition Move :: "int \<Rightarrow> int \<Rightarrow> MemoryConfigStateMachine \<Rightarrow> (MemoryConfigStateMachine \<times> CtrlErr) option" where
  "Move shard gid cf = do {
     last \<leftarrow> lastConfig cf;
     let newConfig = \<lparr>cf_Num = int (length (Configs cf)), cf_Shards = cf_Shards last, cf_Groups = deepCopy (cf_Groups last)\<rparr>;
     shards \<leftarrow> go_store (cf_Shards newConfig) shard gid;
     Some (cf\<lparr>Configs := Configs cf @ [newConfig\<lparr>cf_Shards := shards\<rparr>]\<rparr>, CtrlOK)
   }"

definition Query :: "int \<Rightarrow> MemoryConfigStateMachine \<Rightarrow> (Config \<times> CtrlErr) option" where
  "Query num cf =
     (if num < 0 \<or> num \<ge> int (length (Configs cf)) then do {
        c \<leftarrow> lastConfig cf;
        Some (c, CtrlOK)
      } else do {
        c \<leftarrow> go_index (Configs cf) num;
        Some (c, CtrlOK)
      })"

end
