(* ===== verification/Ctrl_Balance.thy ===== *)
theory Ctrl_Balance
  imports Ctrl_Config
begin

text \<open>
  The lemmas behind the properties of the shard controller.  \<open>s2g_ok m os\<close> says that the groups of
  \<open>m\<close> and the orphans \<open>os\<close> together hold every shard exactly once.  Every helper keeps it, so the array
  of owners that \<^verbatim>\<open>Join\<close> and \<^verbatim>\<open>Leave\<close> write is complete.
\<close>

section \<open>Definitions\<close>

definition held_once :: "(int \<Rightarrow> int list) \<Rightarrow> int list \<Rightarrow> bool" where
  "held_once f os \<longleftrightarrow> (\<forall>g. distinct (f g)) \<and> distinct os \<and>
     (\<forall>x g h. x \<in> set (f g) \<longrightarrow> x \<in> set (f h) \<longrightarrow> g = h) \<and> (\<forall>x g. x \<in> set (f g) \<longrightarrow> x \<notin> set os) \<and>
     (\<forall>x. x \<in> set os \<or> (\<exists>g. x \<in> set (f g)) \<longleftrightarrow> 0 \<le> x \<and> x < int NShards)"

definition s2g_ok :: "s2g \<Rightarrow> int list \<Rightarrow> bool" where
  "s2g_ok m os \<longleftrightarrow> gm_wf m \<and> held_once (shards_of m) os"

definition s2g_balanced :: "s2g \<Rightarrow> bool" where
  "s2g_balanced m \<longleftrightarrow> (\<forall>g\<in>fst ` set m. \<forall>h\<in>fst ` set m. g \<noteq> 0 \<longrightarrow> h \<noteq> 0 \<longrightarrow>
     length (shards_of m g) \<le> length (shards_of m h) + 1)"

definition gids :: "Config \<Rightarrow> int set" where
  "gids c = fst ` set (cf_Groups c)"

definition shard_count :: "Config \<Rightarrow> int \<Rightarrow> nat" where
  "shard_count c g = length (filter (\<lambda>x. x = g) (cf_Shards c))"

text \<open>
  A configuration as the comment in \<^verbatim>\<open>common.go\<close> describes it: group 0 is the invalid group; without groups it
  owns every shard, otherwise every shard belongs to a group.
\<close>

definition config_ok :: "Config \<Rightarrow> bool" where
  "config_ok c \<longleftrightarrow> length (cf_Shards c) = NShards \<and> gm_wf (cf_Groups c) \<and> 0 \<notin> gids c \<and>
     (if cf_Groups c = [] then set (cf_Shards c) = {0} else set (cf_Shards c) \<subseteq> gids c)"

text \<open>What every configuration has, whatever the clients ask for.\<close>

definition config_wf :: "Config \<Rightarrow> bool" where
  "config_wf c \<longleftrightarrow> length (cf_Shards c) = NShards \<and> gm_wf (cf_Groups c)"

definition balanced_on :: "int set \<Rightarrow> Config \<Rightarrow> bool" where
  "balanced_on G c \<longleftrightarrow> (\<forall>g\<in>G. \<forall>h\<in>G. shard_count c g \<le> shard_count c h + 1)"

section \<open>Building the map\<close>

lemma s2g_balancedD:
  "s2g_balanced m \<Longrightarrow> g \<in> fst ` set m \<Longrightarrow> h \<in> fst ` set m \<Longrightarrow> g \<noteq> 0 \<Longrightarrow> h \<noteq> 0 \<Longrightarrow>
     length (shards_of m g) \<le> length (shards_of m h) + 1"
  unfolding s2g_balanced_def by blast

lemma deepCopy_wf: "gm_wf (deepCopy groups)"
proof -
  have "gm_wf m \<Longrightarrow> gm_wf (fold (\<lambda>(gid, servers) gs. AList.update gid (map (\<lambda>i. servers ! i) [0..<length servers]) gs) groups m)" for m
    by (induction groups arbitrary: m) auto
  then show ?thesis by (simp add: deepCopy_def)
qed

lemma deepCopy_map: "gm_wf groups \<Longrightarrow> map_of (deepCopy groups) = map_of groups"
proof -
  have "gm_wf groups \<Longrightarrow> map_of (fold (\<lambda>(gid, servers) gs. AList.update gid (map (\<lambda>i. servers ! i) [0..<length servers]) gs) groups m) k =
      (case map_of groups k of None \<Rightarrow> map_of m k | Some v \<Rightarrow> Some v)" for m k
  proof (induction groups arbitrary: m)
    case (Cons p groups)
    obtain g s where p: "p = (g, s)" by force
    have "map_of groups g = None" using Cons.prems p by (auto simp: map_of_eq_None_iff)
    moreover have "gm_wf groups" using Cons.prems by simp
    ultimately show ?case using Cons.IH [of "AList.update g s m"] p
      by (auto simp: update_conv' map_nth split: option.splits)
  qed simp
  then show "gm_wf groups \<Longrightarrow> map_of (deepCopy groups) = map_of groups"
    by (auto simp: deepCopy_def fun_eq_iff split: option.splits)
qed

lemma deepCopy_keys: "gm_wf groups \<Longrightarrow> fst ` set (deepCopy groups) = fst ` set groups"
  using deepCopy_map [of groups] by (metis dom_map_of_conv_image_fst)

lemma update_keys: "fst ` set (AList.update k v m) = insert k (fst ` set m)"
  by (rule fst_set_update)

lemma Group2Shards_pairs:
  "shards_of (fold (\<lambda>(shard, gid) m. AList.update gid (shards_of m gid @ [int shard]) m) ps m) g =
     shards_of m g @ map (\<lambda>p. int (fst p)) (filter (\<lambda>p. snd p = g) ps)"
  "fst ` set (fold (\<lambda>(shard, gid) m. AList.update gid (shards_of m gid @ [int shard]) m) ps m) = fst ` set m \<union> snd ` set ps"
  "gm_wf m \<Longrightarrow> gm_wf (fold (\<lambda>(shard, gid) m. AList.update gid (shards_of m gid @ [int shard]) m) ps m)"
proof (induction ps arbitrary: m)
  case (Cons p ps)
  {
    case 1
    then show ?case using Cons.IH(1) by (cases p) simp
  next
    case 2
    then show ?case using Cons.IH(2) by (cases p) simp
  next
    case 3
    then show ?case using Cons.IH(3) by (cases p) simp
  }
qed simp_all

lemma Group2Shards_empty:
  "shards_of (fold (\<lambda>gid m. AList.update gid [] m) ks m) g = (if g \<in> set ks then [] else shards_of m g)"
  "fst ` set (fold (\<lambda>gid m. AList.update gid [] m) ks m) = fst ` set m \<union> set ks"
  "gm_wf m \<Longrightarrow> gm_wf (fold (\<lambda>gid m. AList.update gid [] m) ks m)"
proof (induction ks arbitrary: m)
  case (Cons k ks)
  {
    case 1
    then show ?case using Cons.IH(1) by simp
  next
    case 2
    then show ?case using Cons.IH(2) by simp
  next
    case 3
    then show ?case using Cons.IH(3) by simp
  }
qed simp_all

lemma enumerate_filter: "map fst (filter (\<lambda>p. snd p = g) (enumerate n xs)) = map (\<lambda>i. n + i) (filter (\<lambda>i. xs ! i = g) [0..<length xs])"
proof (induction xs arbitrary: n)
  case (Cons x xs)
  have "filter (\<lambda>i. (x # xs) ! i = g) [0..<length (x # xs)] =
      (if x = g then [0] else []) @ map Suc (filter (\<lambda>i. xs ! i = g) [0..<length xs])"
    by (simp add: upt_conv_Cons map_Suc_upt [symmetric] filter_map comp_def del: upt_Suc)
  then show ?case by (simp add: Cons.IH comp_def)
qed simp

lemma Group2Shards_spec:
  "shards_of (Group2Shards c) g = map int (filter (\<lambda>i. cf_Shards c ! i = g) [0..<length (cf_Shards c)])"
  "fst ` set (Group2Shards c) = gids c \<union> set (cf_Shards c)" "gm_wf (Group2Shards c)"
proof -
  have "snd ` set (enumerate 0 (cf_Shards c)) = set (map snd (enumerate 0 (cf_Shards c)))" by (simp only: set_map)
  then show "fst ` set (Group2Shards c) = gids c \<union> set (cf_Shards c)"
    by (simp add: Group2Shards_def Group2Shards_pairs Group2Shards_empty gids_def)
  have "shards_of (Group2Shards c) g = map int (map fst (filter (\<lambda>p. snd p = g) (enumerate 0 (cf_Shards c))))"
    by (simp add: Group2Shards_def Group2Shards_pairs Group2Shards_empty) (simp add: shards_of_def)
  then show "shards_of (Group2Shards c) g = map int (filter (\<lambda>i. cf_Shards c ! i = g) [0..<length (cf_Shards c)])"
    unfolding enumerate_filter by simp
  show "gm_wf (Group2Shards c)" unfolding Group2Shards_def by (intro Group2Shards_pairs Group2Shards_empty) simp
qed

lemma Group2Shards_ok:
  assumes "length (cf_Shards c) = NShards"
  shows "s2g_ok (Group2Shards c) []"
proof -
  have f: "shards_of (Group2Shards c) g = map int (filter (\<lambda>i. cf_Shards c ! i = g) [0..<NShards])" for g
    using Group2Shards_spec(1) assms by simp
  have "(\<exists>g. x \<in> set (shards_of (Group2Shards c) g)) \<longleftrightarrow> 0 \<le> x \<and> x < int NShards" for x
  proof
    assume "0 \<le> x \<and> x < int NShards"
    then have "x \<in> set (shards_of (Group2Shards c) (cf_Shards c ! nat x))"
      unfolding f by (auto intro!: image_eqI [of _ _ "nat x"])
    then show "\<exists>g. x \<in> set (shards_of (Group2Shards c) g)" ..
  qed (auto simp: f)
  then show ?thesis by (auto simp: s2g_ok_def held_once_def Group2Shards_spec(3)) (auto simp: f distinct_map)
qed

section \<open>Keeping every shard\<close>

lemma held_once_place: "held_once f (x # os) \<Longrightarrow> held_once (f(t := f t @ [x])) os"
  unfolding held_once_def by (auto split: if_splits)

lemma held_once_drop: "held_once f os \<Longrightarrow> held_once (f(s := [])) (os @ f s)"
  unfolding held_once_def by (auto split: if_splits)

lemma held_once_take:
  assumes "held_once f []" "f s = x # rest"
  shows "held_once (f(s := rest)) [x]"
proof -
  have d: "distinct (f g)" for g using assms(1) by (simp add: held_once_def)
  have o: "y \<in> set (f g) \<Longrightarrow> y \<in> set (f h) \<Longrightarrow> g = h" for y g h using assms(1) unfolding held_once_def by blast
  have c: "(\<exists>g. y \<in> set (f g)) \<longleftrightarrow> 0 \<le> y \<and> y < int NShards" for y using assms(1) by (simp add: held_once_def)
  have xr: "x \<notin> set rest" "distinct rest" using d [of s] assms(2) by auto
  have xs: "x \<in> set (f s)" using assms(2) by simp
  have A: "y \<in> set ((f(s := rest)) g) \<longleftrightarrow> y \<in> set (f g) \<and> y \<noteq> x" for y g
  proof (cases "g = s")
    case True
    then show ?thesis using assms(2) xr(1) by auto
  next
    case False
    then have "x \<notin> set (f g)" using o [OF xs, of g] by blast
    then show ?thesis using False by auto
  qed
  have D: "distinct ((f(s := rest)) g)" for g using d xr(2) by simp
  have E: "y \<in> set [x] \<or> (\<exists>g. y \<in> set (f g) \<and> y \<noteq> x) \<longleftrightarrow> 0 \<le> y \<and> y < int NShards" for y
    using c [of y] xs by auto
  show ?thesis unfolding held_once_def A
  proof (intro conjI allI impI)
    fix y g h assume "y \<in> set (f g) \<and> y \<noteq> x" "y \<in> set (f h) \<and> y \<noteq> x"
    then show "g = h" using o by blast
  qed (use D in simp, simp, simp, rule E)
qed

lemma s2g_ok_length: "s2g_ok m os \<Longrightarrow> length (shards_of m g) \<le> NShards"
proof -
  assume ok: "s2g_ok m os"
  then have "set (shards_of m g) \<subseteq> {0..<int NShards}" unfolding s2g_ok_def held_once_def by auto
  then have "card (set (shards_of m g)) \<le> card {0..<int NShards}" by (intro card_mono) auto
  then show ?thesis using ok by (simp add: s2g_ok_def held_once_def distinct_card)
qed

lemma s2g_ok_place: "s2g_ok m (x # os) \<Longrightarrow> s2g_ok (AList.update t (shards_of m t @ [x]) m) os"
  by (simp add: s2g_ok_def held_once_place)

lemma s2g_ok_move:
  assumes "s2g_ok m []" "shards_of m s = x # rest" "s \<noteq> t"
  shows "s2g_ok (AList.update s rest (AList.update t (shards_of m t @ [x]) m)) []"
proof -
  have "held_once ((shards_of m)(s := rest, t := shards_of m t @ [x])) []"
    using held_once_place [OF held_once_take [of "shards_of m" s x rest, OF _ assms(2)], of t] assms(1,3) by (simp add: s2g_ok_def)
  then show ?thesis using assms(1,3) by (simp add: s2g_ok_def fun_upd_twist)
qed

section \<open>The loop of Join\<close>

lemma rebalance_ok:
  assumes "s2g_ok m []" "\<exists>g\<in>fst ` set m. g \<noteq> 0"
  shows "\<exists>m'. rebalance m = Some m' \<and> s2g_ok m' [] \<and> fst ` set m' = fst ` set m \<and> shards_of m' 0 = [] \<and> s2g_balanced m'"
  using assms
proof (induction m rule: rebalance.induct)
  case (1 m)
  define source where "source = GetGIDWithMaximumShards m"
  define target where "target = GetGIDWithMinimumShards m"
  obtain g where g: "g \<in> fst ` set m" "g \<noteq> 0" using "1.prems"(2) by blast
  have tgt: "target \<in> fst ` set m" "target \<noteq> 0"
    "\<forall>h\<in>fst ` set m. h \<noteq> 0 \<longrightarrow> length (shards_of m target) \<le> length (shards_of m h)"
    using GetMin_spec(1) GetMin_spec(2) [OF g s2g_ok_length [OF "1.prems"(1)]] by (auto simp: target_def)
  have "m \<noteq> []" using g by auto
  note src = GetMax_spec [OF this, folded source_def]
  have sne: "shards_of m source \<noteq> []"
  proof -
    have "\<exists>h. 0 \<in> set (shards_of m h)" using "1.prems"(1) unfolding s2g_ok_def held_once_def by (simp add: NShards_def)
    then obtain h where "shards_of m h \<noteq> []" by fastforce
    then show ?thesis using src shards_of_key [of m h] by fastforce
  qed
  show ?case
  proof (cases "source \<noteq> 0 \<and> int (length (shards_of m source)) - int (length (shards_of m target)) \<le> 1")
    case True
    then have "rebalance m = Some m"
      by (simp add: rebalance.simps [of m] source_def [symmetric] target_def [symmetric] Let_def)
    moreover have "s2g_balanced m"
      unfolding s2g_balanced_def
    proof (intro ballI impI)
      fix a b assume "a \<in> fst ` set m" "b \<in> fst ` set m" "a \<noteq> 0" "b \<noteq> 0"
      then have "length (shards_of m a) \<le> length (shards_of m source)" "length (shards_of m target) \<le> length (shards_of m b)"
        using src True tgt(3) by auto
      then show "length (shards_of m a) \<le> length (shards_of m b) + 1" using True by linarith
    qed
    ultimately show ?thesis using "1.prems"(1) src True by auto
  next
    case False
    obtain x rest where x: "shards_of m source = x # rest" using sne by (cases "shards_of m source") auto
    have st: "source \<noteq> target" using False tgt(2) by auto
    define m1 where "m1 = AList.update target (shards_of m target @ [x]) m"
    have rest: "drop 1 (shards_of m1 source) = rest" using x st by (simp add: m1_def)
    let ?m2 = "AList.update source rest m1"
    have reb: "rebalance m = rebalance ?m2"
      unfolding rebalance.simps [of m] Let_def source_def [symmetric] target_def [symmetric] if_not_P [OF False]
      by (simp add: x m1_def [symmetric] rest [simplified])
    have ok: "s2g_ok ?m2 []" unfolding m1_def by (rule s2g_ok_move [OF "1.prems"(1) x st])
    have keys: "fst ` set ?m2 = fst ` set m"
      using tgt(1) shards_of_key [of m source] x by (auto simp: m1_def)
    have ex: "\<exists>g\<in>fst ` set ?m2. g \<noteq> 0" unfolding keys using g by blast
    have "\<exists>m'. rebalance ?m2 = Some m' \<and> s2g_ok m' [] \<and> fst ` set m' = fst ` set ?m2 \<and> shards_of m' 0 = [] \<and> s2g_balanced m'"
      by (rule "1.IH" [OF source_def target_def False x m1_def, unfolded rest, OF ok ex])
    then show ?thesis using reb keys by simp
  qed
qed

section \<open>Writing the owners\<close>

lemma writeGroup_spec:
  "set xs \<subseteq> {0..<int (length ns)} \<Longrightarrow>
   \<exists>ns'. writeGroup g xs ns = Some ns' \<and> length ns' = length ns \<and>
     (\<forall>i<length ns. ns' ! i = (if int i \<in> set xs then g else ns ! i))"
proof (induction xs arbitrary: ns)
  case (Cons x xs)
  have x: "0 \<le> x" "x < int (length ns)" using Cons.prems by auto
  obtain ns' where n: "writeGroup g xs (ns[nat x := g]) = Some ns'" "length ns' = length ns"
    "\<forall>i<length ns. ns' ! i = (if int i \<in> set xs then g else ns[nat x := g] ! i)"
    using Cons.IH [of "ns[nat x := g]"] Cons.prems by auto
  moreover have "i < length ns \<Longrightarrow> ns[nat x := g] ! i = (if int i = x then g else ns ! i)" for i
    using x by (auto simp: nth_list_update)
  ultimately show ?case using x by (auto simp: go_simps)
qed simp

lemma writeShards_spec:
  "\<forall>(g, xs)\<in>set m. set xs \<subseteq> {0..<int (length ns)} \<Longrightarrow>
   \<exists>ns'. writeShards m ns = Some ns' \<and> length ns' = length ns \<and>
     (\<forall>i<length ns. (\<exists>(g, xs)\<in>set m. int i \<in> set xs \<and> ns' ! i = g) \<or>
        (\<forall>(g, xs)\<in>set m. int i \<notin> set xs) \<and> ns' ! i = ns ! i)"
proof (induction m arbitrary: ns)
  case (Cons p m)
  obtain g xs where p: "p = (g, xs)" by force
  obtain ns1 where n1: "writeGroup g xs ns = Some ns1" "length ns1 = length ns"
    "\<forall>i<length ns. ns1 ! i = (if int i \<in> set xs then g else ns ! i)"
    using writeGroup_spec [of xs ns g] Cons.prems p by auto
  then obtain ns' where n2: "writeShards m ns1 = Some ns'" "length ns' = length ns"
    "\<forall>i<length ns. (\<exists>(g, xs)\<in>set m. int i \<in> set xs \<and> ns' ! i = g) \<or> (\<forall>(g, xs)\<in>set m. int i \<notin> set xs) \<and> ns' ! i = ns1 ! i"
    using Cons.IH [of ns1] Cons.prems by auto
  show ?case using n1 n2 p by (auto split: if_splits)
qed simp

lemma shards_of_pair: "gm_wf m \<Longrightarrow> (g, xs) \<in> set m \<Longrightarrow> shards_of m g = xs"
  by (simp add: shards_of_def)

lemma writeShards_ok:
  assumes "s2g_ok m []"
  shows "\<exists>ns. writeShards m (replicate NShards 0) = Some ns \<and> length ns = NShards \<and>
    (\<forall>i<NShards. \<forall>g. ns ! i = g \<longleftrightarrow> int i \<in> set (shards_of m g)) \<and> set ns \<subseteq> fst ` set m"
proof -
  have wf: "gm_wf m" and all: "\<And>x. (\<exists>g. x \<in> set (shards_of m g)) \<longleftrightarrow> 0 \<le> x \<and> x < int NShards"
    and one: "\<And>g h x. x \<in> set (shards_of m g) \<Longrightarrow> x \<in> set (shards_of m h) \<Longrightarrow> g = h"
    using assms unfolding s2g_ok_def held_once_def by auto
  have "set xs \<subseteq> {0..<int NShards}" if "(g, xs) \<in> set m" for g xs
  proof
    fix x assume "x \<in> set xs"
    then have "\<exists>g. x \<in> set (shards_of m g)" using shards_of_pair [OF wf that] by blast
    then show "x \<in> {0..<int NShards}" unfolding all by simp
  qed
  then have "\<forall>(g, xs)\<in>set m. set xs \<subseteq> {0..<int (length (replicate NShards (0::int)))}" by auto
  then obtain ns where ns: "writeShards m (replicate NShards 0) = Some ns" "length ns = NShards"
    "\<forall>i<NShards. (\<exists>(g, xs)\<in>set m. int i \<in> set xs \<and> ns ! i = g) \<or>
        (\<forall>(g, xs)\<in>set m. int i \<notin> set xs) \<and> ns ! i = replicate NShards 0 ! i"
    using writeShards_spec [of m "replicate NShards 0"] by auto
  have owner: "int i \<in> set (shards_of m (ns ! i))" if i: "i < NShards" for i
  proof -
    have "\<exists>h. int i \<in> set (shards_of m h)" using i by (simp add: all)
    then obtain h where h: "int i \<in> set (shards_of m h)" ..
    then have "shards_of m h \<noteq> []" by auto
    then have "(h, shards_of m h) \<in> set m" using shards_of_key [of m h] shards_of_pair [OF wf] by auto
    then have "\<not> (\<forall>(g, xs)\<in>set m. int i \<notin> set xs)" using h by blast
    then have "\<exists>(g, xs)\<in>set m. int i \<in> set xs \<and> ns ! i = g" using ns(3) i by blast
    then show ?thesis using shards_of_pair [OF wf] by auto
  qed
  then have "\<forall>i<NShards. \<forall>g. ns ! i = g \<longleftrightarrow> int i \<in> set (shards_of m g)" using one by blast
  moreover have "set ns \<subseteq> fst ` set m"
  proof
    fix g assume "g \<in> set ns"
    then obtain i where "i < NShards" "g = ns ! i" using ns(2) by (auto simp: in_set_conv_nth)
    then have "shards_of m g \<noteq> []" using owner [of i] by auto
    then show "g \<in> fst ` set m" by (rule shards_of_key)
  qed
  ultimately show ?thesis using ns by blast
qed

lemma owners_count:
  assumes "s2g_ok m []" "length ns = NShards" "\<forall>i<NShards. \<forall>g. ns ! i = g \<longleftrightarrow> int i \<in> set (shards_of m g)"
  shows "length (filter (\<lambda>x. x = g) ns) = length (shards_of m g)"
proof -
  have b: "x \<in> set (shards_of m g) \<Longrightarrow> 0 \<le> x \<and> x < int NShards" for x
    using assms(1) unfolding s2g_ok_def held_once_def by blast
  have "int ` {i. i < NShards \<and> int i \<in> set (shards_of m g)} = set (shards_of m g)"
  proof
    show "set (shards_of m g) \<subseteq> int ` {i. i < NShards \<and> int i \<in> set (shards_of m g)}"
    proof
      fix x assume x: "x \<in> set (shards_of m g)"
      then have "x = int (nat x)" "nat x < NShards" using b [OF x] by auto
      then show "x \<in> int ` {i. i < NShards \<and> int i \<in> set (shards_of m g)}" using x by (intro image_eqI [of _ _ "nat x"]) auto
    qed
  qed auto
  moreover have "card (int ` {i. i < NShards \<and> int i \<in> set (shards_of m g)}) = card {i. i < NShards \<and> int i \<in> set (shards_of m g)}"
    by (rule card_image) (simp add: inj_on_def)
  ultimately have "card (set (shards_of m g)) = card {i. i < NShards \<and> int i \<in> set (shards_of m g)}" by simp
  also have "{i. i < NShards \<and> int i \<in> set (shards_of m g)} = {i. i < length ns \<and> ns ! i = g}"
    using assms(2,3) by auto
  finally show ?thesis
    using assms(1) by (simp add: length_filter_conv_card s2g_ok_def held_once_def distinct_card)
qed

section \<open>Leaving groups\<close>

lemma shards_of_delete: "shards_of (AList.delete g m) = (shards_of m)(g := [])"
  by (rule ext) (simp add: shards_of_def delete_conv')

lemma delete_keys_set: "fst ` set (AList.delete k m) = fst ` set m - {k}"
  by (metis delete_keys set_map set_removeAll)

lemma removeGroups_ok:
  assumes "removeGroups gs groups m os = (groups', m', os')" "s2g_ok m os" "gm_wf groups"
  shows "s2g_ok m' os' \<and> gm_wf groups' \<and> fst ` set groups' = fst ` set groups - set gs \<and>
    fst ` set m' = fst ` set m - set gs \<and> (\<forall>g. shards_of m' g = (if g \<in> set gs then [] else shards_of m g))"
  using assms
proof (induction gs arbitrary: groups m os)
  case (Cons g gs)
  define groups1 where "groups1 = (case map_of groups g of None \<Rightarrow> groups | Some _ \<Rightarrow> AList.delete g groups)"
  have g1: "gm_wf groups1" "fst ` set groups1 = fst ` set groups - {g}"
    using Cons.prems(3) by (auto simp: groups1_def delete_keys_set map_of_eq_None_iff split: option.splits)
  show ?case
  proof (cases "map_of m g")
    case None
    have "g \<notin> fst ` set m" using None by (simp add: map_of_eq_None_iff)
    moreover have "shards_of m g = []" using None by (simp add: shards_of_def)
    moreover have "removeGroups gs groups1 m os = (groups', m', os')"
      using Cons.prems(1) None by (simp add: groups1_def [symmetric] Let_def)
    ultimately show ?thesis using Cons.IH [OF _ Cons.prems(2) g1(1)] g1(2) by auto
  next
    case (Some xs)
    then have x: "shards_of m g = xs" by (simp add: shards_of_def)
    have "s2g_ok (AList.delete g m) (os @ xs)"
      using Cons.prems(2) held_once_drop [of "shards_of m" os g] by (simp add: s2g_ok_def shards_of_delete x)
    moreover have "removeGroups gs groups1 (AList.delete g m) (os @ xs) = (groups', m', os')"
      using Cons.prems(1) Some by (simp add: groups1_def [symmetric] Let_def)
    ultimately show ?thesis using Cons.IH [OF _ _ g1(1)] g1(2) by (auto simp: delete_keys_set shards_of_delete)
  qed
qed auto

lemma placeOrphans_ok:
  assumes "s2g_ok m os" "\<exists>g\<in>fst ` set m. g \<noteq> 0"
  shows "s2g_ok (placeOrphans os m) [] \<and> fst ` set (placeOrphans os m) = fst ` set m \<and>
    shards_of (placeOrphans os m) 0 = shards_of m 0 \<and>
    (\<forall>g. set (shards_of m g) \<subseteq> set (shards_of (placeOrphans os m) g)) \<and>
    (s2g_balanced m \<longrightarrow> s2g_balanced (placeOrphans os m))"
  using assms
proof (induction os arbitrary: m)
  case Nil
  then show ?case by (simp add: placeOrphans_def)
next
  case (Cons x os)
  define t where "t = GetGIDWithMinimumShards m"
  define m1 where "m1 = AList.update t (shards_of m t @ [x]) m"
  obtain g where g: "g \<in> fst ` set m" "g \<noteq> 0" using Cons.prems(2) by blast
  have t: "t \<in> fst ` set m" "t \<noteq> 0" "\<forall>h\<in>fst ` set m. h \<noteq> 0 \<longrightarrow> length (shards_of m t) \<le> length (shards_of m h)"
    using GetMin_spec(1) GetMin_spec(2) [OF g s2g_ok_length [OF Cons.prems(1)]] by (auto simp: t_def)
  have k: "fst ` set m1 = fst ` set m" using t(1) by (auto simp: m1_def)
  have ok: "s2g_ok m1 os" unfolding m1_def by (rule s2g_ok_place [OF Cons.prems(1)])
  have bal: "s2g_balanced m1" if "s2g_balanced m"
    unfolding s2g_balanced_def k
  proof (intro ballI impI)
    fix a b assume ab: "a \<in> fst ` set m" "b \<in> fst ` set m" "a \<noteq> 0" "b \<noteq> 0"
    have "length (shards_of m a) \<le> length (shards_of m b) + 1" using that ab unfolding s2g_balanced_def by blast
    moreover have "length (shards_of m t) \<le> length (shards_of m b)" using t(3) ab(2,4) by blast
    ultimately show "length (shards_of m1 a) \<le> length (shards_of m1 b) + 1" by (auto simp: m1_def)
  qed
  have "placeOrphans (x # os) m = placeOrphans os m1"
    by (simp add: placeOrphans_def m1_def t_def Let_def)
  moreover have "\<exists>g\<in>fst ` set m1. g \<noteq> 0" unfolding k using g by blast
  note IH = Cons.IH [OF ok this]
  moreover have "set (shards_of m h) \<subseteq> set (shards_of m1 h)" "shards_of m1 0 = shards_of m 0" for h
    using t(2) by (auto simp: m1_def)
  ultimately show ?case using k bal by (metis subset_trans)
qed

section \<open>Results of the operations\<close>

lemma lastConfig_last: "Configs cf \<noteq> [] \<Longrightarrow> lastConfig cf = Some (last (Configs cf))"
  by (simp add: lastConfig_def)

text \<open>Adding the groups that are not there yet.\<close>

definition addGroups :: "(int, string list) gomap \<Rightarrow> (int, string list) gomap \<Rightarrow> (int, string list) gomap" where
  "addGroups groups gs = fold (\<lambda>(gid, servers) gs.
     case map_of gs gid of
       None \<Rightarrow> AList.update gid (map (\<lambda>i. servers ! i) [0..<length servers]) gs
     | Some _ \<Rightarrow> gs) groups gs"

lemma addGroups_ok:
  "gm_wf gs \<Longrightarrow> gm_wf (addGroups groups gs) \<and> fst ` set (addGroups groups gs) = fst ` set gs \<union> fst ` set groups"
  unfolding addGroups_def
proof (induction groups arbitrary: gs)
  case (Cons p groups)
  obtain g s where p: "p = (g, s)" by force
  show ?case
  proof (cases "map_of gs g")
    case None
    then show ?thesis using Cons.IH [of "AList.update g (map (\<lambda>i. s ! i) [0..<length s]) gs"] Cons.prems p by auto
  next
    case (Some v)
    then have "g \<in> fst ` set gs" by (metis domI dom_map_of_conv_image_fst)
    then show ?thesis using Cons.IH [of gs] Cons.prems p Some by auto
  qed
qed simp

section \<open>Independence of the iteration order\<close>

lemma gm_map_of: "gm_wf m \<Longrightarrow> map_of m g = (if g \<in> fst ` set m then Some (shards_of m g) else None)"
  by (auto simp: shards_of_def map_of_eq_None_iff split: option.splits)

lemma s2g_eqI: "gm_wf m \<Longrightarrow> gm_wf m' \<Longrightarrow> fst ` set m = fst ` set m' \<Longrightarrow> shards_of m = shards_of m' \<Longrightarrow> gm_eq m m'"
  by (auto simp: gm_eq_def fun_eq_iff gm_map_of)

lemma gm_eq_shards: "gm_eq m m' \<Longrightarrow> shards_of m = shards_of m'"
  by (rule ext) (simp add: gm_eq_def shards_of_def)

lemma sort_keys: "gm_wf m \<Longrightarrow> sort (map fst m) = sorted_list_of_set (fst ` set m)" for m :: s2g
  using sorted_list_of_set_sort_remdups [of "map fst m"] distinct_remdups_id [of "map fst m"] by simp

lemma GetGID_cong:
  assumes "gm_eq m m'"
  shows "GetGIDWithMaximumShards m = GetGIDWithMaximumShards m'" "GetGIDWithMinimumShards m = GetGIDWithMinimumShards m'"
proof -
  have k: "sort (map fst m) = sort (map fst m')"
    using assms gm_eq_keys [OF assms] sort_keys [of m] sort_keys [of m'] by (simp add: gm_eq_def)
  show "GetGIDWithMaximumShards m = GetGIDWithMaximumShards m'" "GetGIDWithMinimumShards m = GetGIDWithMinimumShards m'"
    unfolding GetGIDWithMaximumShards_def GetGIDWithMinimumShards_def k gm_eq_shards [OF assms] by (rule refl)+
qed

lemma rebalance_step:
  assumes "\<not> (GetGIDWithMaximumShards m \<noteq> 0 \<and> int (length (shards_of m (GetGIDWithMaximumShards m))) - int (length (shards_of m (GetGIDWithMinimumShards m))) \<le> 1)"
    "shards_of m (GetGIDWithMaximumShards m) = x # rest"
  shows "rebalance m = (let m1 = AList.update (GetGIDWithMinimumShards m) (shards_of m (GetGIDWithMinimumShards m) @ [x]) m
    in rebalance (AList.update (GetGIDWithMaximumShards m) (drop 1 (shards_of m1 (GetGIDWithMaximumShards m))) m1))"
  unfolding rebalance.simps [of m] Let_def if_not_P [OF assms(1)] by (simp add: assms(2))

lemma rebalance_cong: "gm_eq m m' \<Longrightarrow> rel_option gm_eq (rebalance m) (rebalance m')"
proof (induction m arbitrary: m' rule: rebalance.induct)
  case (1 m)
  note e = GetGID_cong [OF "1.prems"] gm_eq_shards [OF "1.prems"]
  show ?case
  proof (cases "GetGIDWithMaximumShards m \<noteq> 0 \<and> int (length (shards_of m (GetGIDWithMaximumShards m))) - int (length (shards_of m (GetGIDWithMinimumShards m))) \<le> 1")
    case True
    then show ?thesis using "1.prems" by (simp add: rebalance.simps [of m] rebalance.simps [of m'] e [symmetric] Let_def)
  next
    case False
    show ?thesis
    proof (cases "shards_of m (GetGIDWithMaximumShards m)")
      case Nil
      then show ?thesis using False by (simp add: rebalance.simps [of m] rebalance.simps [of m'] e [symmetric] Let_def)
    next
      case (Cons x rest)
      let ?u = "\<lambda>m1. AList.update (GetGIDWithMinimumShards m) (shards_of m (GetGIDWithMinimumShards m) @ [x]) m1"
      let ?v = "AList.update (GetGIDWithMaximumShards m) (drop 1 (shards_of (?u m) (GetGIDWithMaximumShards m)))"
      have "gm_eq (?v (?u m)) (?v (?u m'))" using "1.prems" by (intro gm_eq_update)
      then have IH: "rel_option gm_eq (rebalance (?v (?u m))) (rebalance (?v (?u m')))"
        using "1.IH" [OF refl refl False Cons refl] by blast
      have "rebalance m = rebalance (?v (?u m))" using rebalance_step [OF False Cons] by (simp only: Let_def)
      moreover have "rebalance m' = rebalance (?v (?u m'))"
        using rebalance_step [of m', OF False [unfolded e] Cons [unfolded e]] by (simp only: Let_def e shards_of_update)
      ultimately show ?thesis using IH by simp
    qed
  qed
qed

lemma Group2Shards_cong:
  assumes "cf_Shards c = cf_Shards c'" "gids c = gids c'"
  shows "gm_eq (Group2Shards c) (Group2Shards c')"
  using assms by (intro s2g_eqI ext) (simp_all add: Group2Shards_spec)

lemma writeShards_cong:
  assumes "s2g_ok m []" "gm_eq m m'"
  shows "writeShards m (replicate NShards 0) = writeShards m' (replicate NShards 0)"
proof -
  have ok': "s2g_ok m' []" using assms gm_eq_shards [OF assms(2)] by (simp add: s2g_ok_def gm_eq_def)
  obtain ns where ns: "writeShards m (replicate NShards 0) = Some ns" "length ns = NShards"
    "\<forall>i<NShards. \<forall>g. ns ! i = g \<longleftrightarrow> int i \<in> set (shards_of m g)"
    using writeShards_ok [OF assms(1)] by blast
  obtain ns' where ns': "writeShards m' (replicate NShards 0) = Some ns'" "length ns' = NShards"
    "\<forall>i<NShards. \<forall>g. ns' ! i = g \<longleftrightarrow> int i \<in> set (shards_of m' g)"
    using writeShards_ok [OF ok'] by blast
  have "ns = ns'" using ns(2,3) ns'(2,3) gm_eq_shards [OF assms(2)] by (intro nth_equalityI) auto
  then show ?thesis using ns(1) ns'(1) by simp
qed

lemma addGroups_map:
  "gm_wf groups \<Longrightarrow> map_of (addGroups groups gs) k = (case map_of gs k of None \<Rightarrow> map_of groups k | Some v \<Rightarrow> Some v)"
  unfolding addGroups_def
proof (induction groups arbitrary: gs)
  case (Cons p groups)
  obtain g s where p: "p = (g, s)" by force
  have n: "map_of groups g = None" "gm_wf groups" using Cons.prems p by (auto simp: map_of_eq_None_iff)
  show ?case
    by (cases "map_of gs g") (auto simp: p Cons.IH [OF n(2)] n(1) update_conv' map_nth split: option.splits)
qed (simp split: option.splits)

lemma removeGroups_cong:
  assumes "gm_eq groups groups'" "gm_eq m m'"
  shows "case (removeGroups gs groups m os, removeGroups gs groups' m' os) of
    ((g1, m1, o1), (g2, m2, o2)) \<Rightarrow> gm_eq g1 g2 \<and> gm_eq m1 m2 \<and> o1 = o2"
  using assms
proof (induction gs arbitrary: groups groups' m m' os)
  case (Cons g gs)
  have e: "map_of groups g = map_of groups' g" "map_of m g = map_of m' g" using Cons.prems by (auto simp: gm_eq_def)
  have g1: "gm_eq (case map_of groups g of None \<Rightarrow> groups | Some _ \<Rightarrow> AList.delete g groups)
      (case map_of groups' g of None \<Rightarrow> groups' | Some _ \<Rightarrow> AList.delete g groups')"
    using Cons.prems(1) e(1) by (cases "map_of groups' g") (simp_all add: gm_eq_delete)
  show ?case
  proof (cases "map_of m' g")
    case None
    then show ?thesis using Cons.IH [OF g1 Cons.prems(2), of os] e(2) by (simp add: Let_def)
  next
    case (Some xs)
    then show ?thesis using Cons.IH [OF g1 gm_eq_delete [OF Cons.prems(2), of g], of "os @ xs"] e(2) by (simp add: Let_def)
  qed
qed simp

lemma placeOrphans_cong: "gm_eq m m' \<Longrightarrow> gm_eq (placeOrphans os m) (placeOrphans os m')"
proof (induction os arbitrary: m m')
  case (Cons x os)
  have "gm_eq (AList.update (GetGIDWithMinimumShards m) (shards_of m (GetGIDWithMinimumShards m) @ [x]) m)
      (AList.update (GetGIDWithMinimumShards m') (shards_of m' (GetGIDWithMinimumShards m') @ [x]) m')"
    using GetGID_cong(2) [OF Cons.prems] gm_eq_shards [OF Cons.prems] gm_eq_update [OF Cons.prems] by simp
  from Cons.IH [OF this] show ?case by (simp add: placeOrphans_def Let_def)
qed (simp add: placeOrphans_def)

text \<open>No panic: with every shard in the map the loop always finds one to move.\<close>

lemma rebalance_total:
  assumes "s2g_ok m []"
  shows "\<exists>m'. rebalance m = Some m' \<and> s2g_ok m' []"
  using assms
proof (induction m rule: rebalance.induct)
  case (1 m)
  let ?s = "GetGIDWithMaximumShards m" and ?t = "GetGIDWithMinimumShards m"
  show ?case
  proof (cases "?s \<noteq> 0 \<and> int (length (shards_of m ?s)) - int (length (shards_of m ?t)) \<le> 1")
    case True
    then show ?thesis using "1.prems" by (simp add: rebalance.simps [of m] Let_def)
  next
    case False
    have "\<exists>h. 0 \<in> set (shards_of m h)" using "1.prems" unfolding s2g_ok_def held_once_def by (simp add: NShards_def)
    then obtain h where h: "shards_of m h \<noteq> []" by fastforce
    then have "m \<noteq> []" using shards_of_key [of m h] by auto
    then have "shards_of m ?s \<noteq> []" using GetMax_spec [of m] h shards_of_key [OF h] by force
    then obtain x rest where x: "shards_of m ?s = x # rest" by (cases "shards_of m ?s") auto
    have st: "?s \<noteq> ?t" using False GetMin_spec(1) [of m] by auto
    let ?m1 = "AList.update ?t (shards_of m ?t @ [x]) m"
    have d: "drop 1 (shards_of ?m1 ?s) = rest" using x st by simp
    have "\<exists>m'. rebalance (AList.update ?s (drop 1 (shards_of ?m1 ?s)) ?m1) = Some m' \<and> s2g_ok m' []"
      by (rule "1.IH" [OF refl refl False x refl]) (use s2g_ok_move [OF "1.prems" x st] d in simp)
    then show ?thesis using rebalance_step [OF False x] by (simp only: Let_def)
  qed
qed

section \<open>What the operations do\<close>

text \<open>The balancing knows of the groups, and of owners of shards that are no group, which a
  \<^verbatim>\<open>Move\<close> to an unknown group leaves behind.  Both operations give a shard only to such an id other than
  0, or to \<open>-1\<close> when there is none.\<close>

definition takers :: "int set \<Rightarrow> int set" where
  "takers K = (if K - {0} = {} then {-1} else K - {0})"

lemma GetMin_none: "fst ` set m \<subseteq> {0} \<Longrightarrow> GetGIDWithMinimumShards m = -1"
proof -
  assume none: "fst ` set m \<subseteq> {0}"
  have "fold (\<lambda>gid (index, mn). if gid \<noteq> 0 \<and> int (length (shards_of m gid)) < mn then (gid, int (length (shards_of m gid))) else (index, mn)) ks s = s"
    if "set ks \<subseteq> {0}" for ks s using that by (induction ks arbitrary: s) auto
  then show ?thesis using none by (simp add: GetGIDWithMinimumShards_def)
qed

lemma rebalance_any:
  assumes ok: "s2g_ok m []"
  shows "\<exists>m'. rebalance m = Some m' \<and> s2g_ok m' [] \<and> (\<forall>g. shards_of m' g \<noteq> [] \<longrightarrow> g \<in> takers (fst ` set m)) \<and>
    (\<forall>g\<in>takers (fst ` set m). \<forall>h\<in>takers (fst ` set m). length (shards_of m' g) \<le> length (shards_of m' h) + 1)"
proof (cases "fst ` set m - {0} = {}")
  case False
  then have "\<exists>g\<in>fst ` set m. g \<noteq> 0" by blast
  from rebalance_ok [OF ok this] obtain m' where m': "rebalance m = Some m'" "s2g_ok m' []" "fst ` set m' = fst ` set m"
    "shards_of m' 0 = []" "s2g_balanced m'" by blast
  have t: "takers (fst ` set m) = fst ` set m - {0}" using False by (simp add: takers_def)
  have "g \<in> takers (fst ` set m)" if "shards_of m' g \<noteq> []" for g
    using that m'(3,4) shards_of_key [OF that] unfolding t by force
  then show ?thesis using m'(1,2) s2g_balancedD [OF m'(5), unfolded m'(3)] unfolding t by blast
next
  case True
  then have keys: "fst ` set m \<subseteq> {0}" and t: "takers (fst ` set m) = {-1}" by (auto simp: takers_def)
  have "\<exists>h. 0 \<in> set (shards_of m h)" using ok unfolding s2g_ok_def held_once_def by (simp add: NShards_def)
  then obtain h where h: "shards_of m h \<noteq> []" by fastforce
  then have ne: "shards_of m 0 \<noteq> []" using shards_of_key [OF h] keys by auto
  then obtain x rest where x: "shards_of m 0 = x # rest" by (cases "shards_of m 0") auto
  have mx: "GetGIDWithMaximumShards m = 0" using ne by (simp add: GetGIDWithMaximumShards_def)
  let ?m2 = "AList.update 0 rest (AList.update (-1) (shards_of m (-1) @ [x]) m)"
  have reb: "rebalance m = rebalance ?m2"
    using rebalance_step [of m x rest] x by (simp add: mx GetMin_none [OF keys] Let_def)
  have ok2: "s2g_ok ?m2 []" by (rule s2g_ok_move [OF ok x]) simp
  have k2: "fst ` set ?m2 = {0, -1}" using keys by (auto simp: update_keys)
  then have "\<exists>g\<in>fst ` set ?m2. g \<noteq> 0" by simp
  from rebalance_ok [OF ok2 this] obtain m' where m': "rebalance ?m2 = Some m'" "s2g_ok m' []" "fst ` set m' = fst ` set ?m2"
    "shards_of m' 0 = []" by blast
  have "g = -1" if ne: "shards_of m' g \<noteq> []" for g
  proof -
    have "g \<in> {0, -1}" using shards_of_key [OF ne] unfolding m'(3) k2 .
    then show ?thesis using ne m'(4) by auto
  qed
  then show ?thesis unfolding t using m'(1,2) reb by auto
qed

lemma placeOrphans_any:
  assumes ok: "s2g_ok m os"
  shows "s2g_ok (placeOrphans os m) [] \<and> (\<forall>g. set (shards_of m g) \<subseteq> set (shards_of (placeOrphans os m) g)) \<and>
    (\<forall>g. g \<notin> takers (fst ` set m) \<longrightarrow> shards_of (placeOrphans os m) g = shards_of m g) \<and>
    (s2g_balanced m \<longrightarrow> s2g_balanced (placeOrphans os m) \<or> fst ` set m - {0} = {})"
proof (cases "fst ` set m - {0} = {}")
  case False
  then have "\<exists>g\<in>fst ` set m. g \<noteq> 0" by blast
  note p = placeOrphans_ok [OF ok this]
  have "shards_of (placeOrphans os m) g = shards_of m g" if "g \<notin> takers (fst ` set m)" for g
  proof (cases "g = 0")
    case False
    then have "g \<notin> fst ` set m" using that \<open>fst ` set m - {0} \<noteq> {}\<close> by (simp add: takers_def)
    then show ?thesis using p shards_of_key by metis
  qed (use p in simp)
  then show ?thesis using p by blast
next
  case True
  then have keys: "fst ` set m \<subseteq> {0}" and t: "takers (fst ` set m) = {-1}" by (auto simp: takers_def)
  show ?thesis
  proof (cases os)
    case Nil
    then show ?thesis using ok by (simp add: placeOrphans_def)
  next
    case (Cons x xs)
    let ?m1 = "AList.update (-1) (shards_of m (-1) @ [x]) m"
    have e: "placeOrphans os m = placeOrphans xs ?m1" using GetMin_none [OF keys] Cons by (simp add: placeOrphans_def Let_def)
    have "s2g_ok ?m1 xs" using ok Cons by (simp add: s2g_ok_place)
    moreover have k: "fst ` set ?m1 = insert (-1) (fst ` set m)" by (rule update_keys)
    then have "\<exists>g\<in>fst ` set ?m1. g \<noteq> 0" by (metis insertI1 zero_neq_neg_one)
    ultimately have p: "s2g_ok (placeOrphans xs ?m1) []" "fst ` set (placeOrphans xs ?m1) = fst ` set ?m1"
      "shards_of (placeOrphans xs ?m1) 0 = shards_of ?m1 0"
      "\<forall>g. set (shards_of ?m1 g) \<subseteq> set (shards_of (placeOrphans xs ?m1) g)"
      using placeOrphans_ok [of ?m1 xs] by blast+
    have "shards_of (placeOrphans xs ?m1) g = shards_of m g" if "g \<noteq> -1" for g
    proof (cases "g = 0")
      case False
      then have n: "g \<notin> fst ` set (placeOrphans xs ?m1)" "g \<notin> fst ` set m" unfolding p(2) using k keys that by auto
      have "shards_of (placeOrphans xs ?m1) g = []" using n(1) shards_of_key by blast
      moreover have "shards_of m g = []" using n(2) shards_of_key by blast
      ultimately show ?thesis by simp
    qed (use p(3) in simp)
    moreover have "set (shards_of m g) \<subseteq> set (shards_of (placeOrphans xs ?m1) g)" for g
      using p(4) [rule_format, of g] by (cases "g = -1") auto
    ultimately show ?thesis unfolding e t using p(1) True by blast
  qed
qed

lemma Join_result:
  fixes groups :: "(int, string list) gomap" and cf :: MemoryConfigStateMachine
  assumes c: "Configs cf \<noteq> []" "config_wf (last (Configs cf))"
  defines "K \<equiv> gids (last (Configs cf)) \<union> fst ` set groups \<union> set (cf_Shards (last (Configs cf)))"
  shows "\<exists>c'. Join groups cf = Some (cf\<lparr>Configs := Configs cf @ [c']\<rparr>, CtrlOK) \<and>
    cf_Num c' = int (length (Configs cf)) \<and> config_wf c' \<and> gids c' = gids (last (Configs cf)) \<union> fst ` set groups \<and>
    set (cf_Shards c') \<subseteq> takers K \<and> balanced_on (takers K) c'"
proof -
  let ?l = "last (Configs cf)"
  define gs where "gs = addGroups groups (deepCopy (cf_Groups ?l))"
  define c1 where "c1 = \<lparr>cf_Num = int (length (Configs cf)), cf_Shards = cf_Shards ?l, cf_Groups = gs\<rparr>"
  have wfl: "gm_wf (cf_Groups ?l)" "length (cf_Shards ?l) = NShards" using c(2) by (auto simp: config_wf_def)
  have gs: "gm_wf gs" "fst ` set gs = gids ?l \<union> fst ` set groups"
    using addGroups_ok [OF deepCopy_wf, of groups "cf_Groups ?l"] deepCopy_keys [OF wfl(1)] by (auto simp: gs_def gids_def)
  have keys: "fst ` set (Group2Shards c1) = K"
    using gs(2) by (simp add: Group2Shards_spec(2) c1_def gids_def K_def)
  obtain m where m: "rebalance (Group2Shards c1) = Some m" "s2g_ok m []" "\<And>g. shards_of m g \<noteq> [] \<Longrightarrow> g \<in> takers K"
    "\<And>g h. g \<in> takers K \<Longrightarrow> h \<in> takers K \<Longrightarrow> length (shards_of m g) \<le> length (shards_of m h) + 1"
    using rebalance_any [OF Group2Shards_ok, of c1] wfl(2) unfolding keys by (auto simp: c1_def)
  obtain ns where ns: "writeShards m (replicate NShards 0) = Some ns" "length ns = NShards"
    "\<forall>i<NShards. \<forall>g. ns ! i = g \<longleftrightarrow> int i \<in> set (shards_of m g)"
    using writeShards_ok [OF m(2)] by blast
  let ?c = "c1\<lparr>cf_Shards := ns\<rparr>"
  have cnt: "shard_count ?c h = length (shards_of m h)" for h
    using owners_count [OF m(2) ns(2,3)] by (simp add: shard_count_def)
  have "set ns \<subseteq> takers K"
  proof
    fix g assume "g \<in> set ns"
    then obtain i where "i < NShards" "ns ! i = g" using ns(2) by (auto simp: in_set_conv_nth)
    then have "int i \<in> set (shards_of m g)" using ns(3) by blast
    then show "g \<in> takers K" by (intro m(3)) auto
  qed
  moreover have "Join groups cf = Some (cf\<lparr>Configs := Configs cf @ [?c]\<rparr>, CtrlOK)"
    using c(1) m(1) ns(1) by (simp add: Join_def lastConfig_last Let_def addGroups_def [symmetric] gs_def [symmetric] c1_def)
  moreover have "balanced_on (takers K) ?c" unfolding balanced_on_def cnt using m(4) by blast
  ultimately show ?thesis
    using gs ns(2) by (intro exI [of _ ?c]) (simp add: c1_def gids_def config_wf_def)
qed

lemma Leave_result:
  fixes gs :: "int list" and cf :: MemoryConfigStateMachine
  assumes c: "Configs cf \<noteq> []" "config_wf (last (Configs cf))"
  defines "l \<equiv> last (Configs cf)"
  defines "K \<equiv> gids l \<union> set (cf_Shards l) - set gs"
  shows "\<exists>c'. Leave gs cf = Some (cf\<lparr>Configs := Configs cf @ [c']\<rparr>, CtrlOK) \<and>
    cf_Num c' = int (length (Configs cf)) \<and> config_wf c' \<and> gids c' = gids l - set gs \<and>
    (if gids c' = {} then cf_Shards c' = replicate NShards 0
     else (\<forall>i<NShards. if cf_Shards l ! i \<in> set gs then cf_Shards c' ! i \<in> takers K else cf_Shards c' ! i = cf_Shards l ! i) \<and>
       (balanced_on (K - {0}) l \<longrightarrow> balanced_on (K - {0}) c'))"
proof -
  define c1 where "c1 = \<lparr>cf_Num = int (length (Configs cf)), cf_Shards = cf_Shards l, cf_Groups = deepCopy (cf_Groups l)\<rparr>"
  have l: "gm_wf (cf_Groups l)" "length (cf_Shards l) = NShards" using c(2) by (auto simp: config_wf_def l_def)
  have m: "s2g_ok (Group2Shards c1) []" "fst ` set (Group2Shards c1) = gids l \<union> set (cf_Shards l)"
    using Group2Shards_ok [of c1] l(2) deepCopy_keys [OF l(1)] by (auto simp: Group2Shards_spec(2) c1_def gids_def)
  obtain groups m' os where r: "removeGroups gs (deepCopy (cf_Groups l)) (Group2Shards c1) [] = (groups, m', os)"
    by (cases "removeGroups gs (deepCopy (cf_Groups l)) (Group2Shards c1) []") auto
  have r': "s2g_ok m' os" "gm_wf groups" "fst ` set groups = gids l - set gs" "fst ` set m' = K"
    "\<forall>g. shards_of m' g = (if g \<in> set gs then [] else shards_of (Group2Shards c1) g)"
    using removeGroups_ok [OF r m(1) deepCopy_wf] m(2) deepCopy_keys [OF l(1)] by (auto simp: gids_def K_def)
  have run: "Leave gs cf = (if groups \<noteq> [] then writeShards (placeOrphans os m') (replicate NShards 0) else Some (replicate NShards 0)) \<bind>
      (\<lambda>ns. Some (cf\<lparr>Configs := Configs cf @ [c1\<lparr>cf_Groups := groups, cf_Shards := ns\<rparr>]\<rparr>, CtrlOK))"
    using c(1) r by (simp add: Leave_def lastConfig_last l_def [symmetric] c1_def [symmetric] Let_def)
       (simp add: c1_def)
  let ?p = "placeOrphans os m'"
  have p: "s2g_ok ?p []" "\<forall>g. set (shards_of m' g) \<subseteq> set (shards_of ?p g)"
    "\<forall>g. g \<notin> takers K \<longrightarrow> shards_of ?p g = shards_of m' g" "s2g_balanced m' \<longrightarrow> s2g_balanced ?p \<or> K - {0} = {}"
    using placeOrphans_any [OF r'(1)] unfolding r'(4) by blast+
  obtain ns where ns: "writeShards ?p (replicate NShards 0) = Some ns" "length ns = NShards"
    "\<forall>i<NShards. \<forall>g. ns ! i = g \<longleftrightarrow> int i \<in> set (shards_of ?p g)"
    using writeShards_ok [OF p(1)] by blast
  let ?c = "c1\<lparr>cf_Groups := groups, cf_Shards := ns\<rparr>"
  have keep: "ns ! i = cf_Shards l ! i" if i: "i < NShards" "cf_Shards l ! i \<notin> set gs" for i
  proof -
    have "int i \<in> set (shards_of (Group2Shards c1) (cf_Shards l ! i))"
      using i(1) l(2) by (simp add: Group2Shards_spec(1) c1_def)
    then have "int i \<in> set (shards_of m' (cf_Shards l ! i))" using r'(5) i(2) by simp
    then have "int i \<in> set (shards_of ?p (cf_Shards l ! i))" using p(2) by blast
    then show ?thesis using ns(3) i(1) by blast
  qed
  have moved: "ns ! i \<in> takers K" if i: "i < NShards" "cf_Shards l ! i \<in> set gs" for i
  proof (rule ccontr)
    assume "ns ! i \<notin> takers K"
    moreover have "int i \<in> set (shards_of ?p (ns ! i))" using ns(3) i(1) by blast
    ultimately have "int i \<in> set (shards_of m' (ns ! i))" using p(3) by auto
    then have "ns ! i \<notin> set gs" "int i \<in> set (shards_of (Group2Shards c1) (ns ! i))" using r'(5) by (auto split: if_splits)
    then have "cf_Shards l ! i = ns ! i" by (auto simp: Group2Shards_spec(1) c1_def)
    then show False using \<open>ns ! i \<notin> set gs\<close> i(2) by simp
  qed
  have bal: "balanced_on (K - {0}) ?c" if b: "balanced_on (K - {0}) l"
  proof (cases "K - {0} = {}")
    case False
    have "length (shards_of (Group2Shards c1) g) = shard_count l g" for g
      by (simp add: Group2Shards_spec(1) c1_def shard_count_def length_filter_conv_card cong: conj_cong)
    then have "length (shards_of m' g) = shard_count l g" if "g \<in> K" for g using that r'(5) by (simp add: K_def)
    then have "s2g_balanced m'"
      using b unfolding s2g_balanced_def balanced_on_def r'(4) by (metis DiffI singletonD)
    then have bp: "s2g_balanced ?p" using p(4) False by blast
    have cnt: "shard_count ?c g = length (shards_of ?p g)" for g
      using owners_count [OF p(1) ns(2,3)] by (simp add: shard_count_def)
    have nz: "\<exists>g\<in>fst ` set m'. g \<noteq> 0" using False r'(4) by blast
    have kp: "fst ` set ?p = K" using placeOrphans_ok [OF r'(1) nz] r'(4) by simp
    show ?thesis unfolding balanced_on_def cnt using s2g_balancedD [OF bp, unfolded kp] by blast
  qed (unfold balanced_on_def, blast)
  have e: "groups = [] \<longleftrightarrow> gids l - set gs = {}" unfolding r'(3) [symmetric] by simp
  show ?thesis
  proof (cases "groups = []")
    case True
    then show ?thesis using run e by (auto simp: config_wf_def gids_def c1_def)
  next
    case False
    then show ?thesis
      using run ns(1,2) e r'(2,3) keep moved bal
      by (intro exI [of _ ?c]) (simp add: config_wf_def gids_def c1_def)
  qed
qed

end
