(* ===== verification/Ctrl_Server.thy ===== *)
theory Ctrl_Server
  imports Ctrl_Balance Raft_Inv Sessions
begin

text \<open>
  The shard controller's server and clerk: \<^verbatim>\<open>src/src/shardctrler/server.go\<close>, \<^verbatim>\<open>client.go\<close> and the
  messages of \<^verbatim>\<open>common.go\<close>.  The same conventions as for the key/value server hold: channels live in a heap,
  \<open>None\<close> is a panic or a send that blocks for ever, \<^verbatim>\<open>Command\<close> is split at its waits.  The controller takes
  no snapshots and keeps no index of the last applied command.
\<close>

section \<open>Data\<close>

datatype CtrlOp = OpJoin | OpLeave | OpMove | OpQuery

record CtrlRequest =
  cq_Servers :: "(int, string list) gomap"
  cq_GIDs :: "int list"
  cq_Shard :: int
  cq_GID :: int
  cq_Num :: int
  cq_Op :: CtrlOp
  cq_ClientId :: int
  cq_CommandId :: int

record CtrlResponse =
  cp_Err :: CtrlErr
  cp_Config :: Config

record CtrlContext =
  cx_MaxAppliedCommandId :: int
  cx_LastResponse :: CtrlResponse

record 's ShardCtrler =
  sc_dead :: bool
  sc_me :: int
  sc_rf :: "(CtrlRequest, 's) Raft"
  sc_stateMachine :: MemoryConfigStateMachine
  sc_lastOperations :: "(int, CtrlContext) mapref"
  sc_notifyChans :: "(int, nat) mapref"
  sc_chans :: "CtrlResponse list list"

text \<open>The zero value of \<^verbatim>\<open>Config\<close>: the response to an update carries it.\<close>

definition zeroConfig :: Config where
  "zeroConfig = \<lparr>cf_Num = 0, cf_Shards = replicate NShards 0, cf_Groups = []\<rparr>"

section \<open>Operations\<close>

definition ctrl_isDuplicateRequest :: "int \<Rightarrow> int \<Rightarrow> 's ShardCtrler \<Rightarrow> bool" where
  "ctrl_isDuplicateRequest clientId requestId sc =
     (case mr_get (sc_lastOperations sc) clientId of
        None \<Rightarrow> False
      | Some operationContext \<Rightarrow> requestId \<le> cx_MaxAppliedCommandId operationContext)"

definition ctrl_getNotifyChan :: "int \<Rightarrow> 's ShardCtrler \<Rightarrow> ('s ShardCtrler \<times> nat) option" where
  "ctrl_getNotifyChan index sc =
     (case mr_get (sc_notifyChans sc) index of
        Some ch \<Rightarrow> Some (sc, ch)
      | None \<Rightarrow> do {
          let ch = length (sc_chans sc);
          m \<leftarrow> mr_set (sc_notifyChans sc) index ch;
          Some (sc\<lparr>sc_notifyChans := m, sc_chans := sc_chans sc @ [[]]\<rparr>, ch)
        })"

definition ctrl_removeOutdatedNotifyChan :: "int \<Rightarrow> 's ShardCtrler \<Rightarrow> 's ShardCtrler" where
  "ctrl_removeOutdatedNotifyChan index sc = sc\<lparr>sc_notifyChans := mr_delete (sc_notifyChans sc) index\<rparr>"

definition ctrl_chan_send :: "nat \<Rightarrow> CtrlResponse \<Rightarrow> 's ShardCtrler \<Rightarrow> 's ShardCtrler option" where
  "ctrl_chan_send ch response sc = do {
     buf \<leftarrow> go_index (sc_chans sc) (int ch);
     if length buf < 1 then Some (sc\<lparr>sc_chans := (sc_chans sc)[ch := buf @ [response]]\<rparr>) else None
   }"

definition ctrl_Command_check :: "CtrlRequest \<Rightarrow> 's ShardCtrler \<Rightarrow> CtrlResponse option" where
  "ctrl_Command_check request sc =
     (if cq_Op request \<noteq> OpQuery \<and> ctrl_isDuplicateRequest (cq_ClientId request) (cq_CommandId request) sc
      then map_option cx_LastResponse (mr_get (sc_lastOperations sc) (cq_ClientId request))
      else None)"

definition ctrl_Command_propose :: "CtrlRequest \<Rightarrow> 's ShardCtrler \<Rightarrow> ('s ShardCtrler \<times> (CtrlResponse + int)) option" where
  "ctrl_Command_propose request sc = do {
     (rf', (index, _, isLeader), _) \<leftarrow> Start request (sc_rf sc);
     Some (sc\<lparr>sc_rf := rf'\<rparr>, if \<not> isLeader then Inl \<lparr>cp_Err = CtrlErrWrongLeader, cp_Config = zeroConfig\<rparr> else Inr index)
   }"

definition ctrl_Command_receive :: "nat \<Rightarrow> 's ShardCtrler \<Rightarrow> ('s ShardCtrler \<times> CtrlResponse) option" where
  "ctrl_Command_receive ch sc = do {
     buf \<leftarrow> go_index (sc_chans sc) (int ch);
     case buf of
       [] \<Rightarrow> None
     | result # rest \<Rightarrow> Some (sc\<lparr>sc_chans := (sc_chans sc)[ch := rest]\<rparr>, result)
   }"

definition ctrl_Command_timeout :: CtrlResponse where
  "ctrl_Command_timeout = \<lparr>cp_Err = CtrlErrTimeout, cp_Config = zeroConfig\<rparr>"

definition ctrl_applyLogToStateMachine ::
    "CtrlRequest \<Rightarrow> MemoryConfigStateMachine \<Rightarrow> (MemoryConfigStateMachine \<times> CtrlResponse) option" where
  "ctrl_applyLogToStateMachine command sm =
     (case cq_Op command of
        OpJoin \<Rightarrow> do {
          (sm', err) \<leftarrow> Join (cq_Servers command) sm;
          Some (sm', \<lparr>cp_Err = err, cp_Config = zeroConfig\<rparr>)
        }
      | OpLeave \<Rightarrow> do {
          (sm', err) \<leftarrow> Leave (cq_GIDs command) sm;
          Some (sm', \<lparr>cp_Err = err, cp_Config = zeroConfig\<rparr>)
        }
      | OpMove \<Rightarrow> do {
          (sm', err) \<leftarrow> Move (cq_Shard command) (cq_GID command) sm;
          Some (sm', \<lparr>cp_Err = err, cp_Config = zeroConfig\<rparr>)
        }
      | OpQuery \<Rightarrow> do {
          (config, err) \<leftarrow> Query (cq_Num command) sm;
          Some (sm, \<lparr>cp_Err = err, cp_Config = config\<rparr>)
        })"

text \<open>The part of the applier that touches the replicated state.\<close>

definition ctrl_applyCommand :: "CtrlRequest \<Rightarrow> 's ShardCtrler \<Rightarrow> ('s ShardCtrler \<times> CtrlResponse) option" where
  "ctrl_applyCommand command sc =
     (if cq_Op command \<noteq> OpQuery \<and> ctrl_isDuplicateRequest (cq_ClientId command) (cq_CommandId command) sc
      then do {
        oc \<leftarrow> mr_get (sc_lastOperations sc) (cq_ClientId command);
        Some (sc, cx_LastResponse oc)
      }
      else do {
        (sm, response) \<leftarrow> ctrl_applyLogToStateMachine command (sc_stateMachine sc);
        let sc1 = sc\<lparr>sc_stateMachine := sm\<rparr>;
        if cq_Op command \<noteq> OpQuery then do {
          lo \<leftarrow> mr_set (sc_lastOperations sc1) (cq_ClientId command)
                  \<lparr>cx_MaxAppliedCommandId = cq_CommandId command, cx_LastResponse = response\<rparr>;
          Some (sc1\<lparr>sc_lastOperations := lo\<rparr>, response)
        } else Some (sc1, response)
      })"

definition ctrl_applier :: "(CtrlRequest, 's) ApplyMsg \<Rightarrow> 's ShardCtrler \<Rightarrow> 's ShardCtrler option" where
  "ctrl_applier message sc =
     (if am_CommandValid message then do {
        command \<leftarrow> am_Command message;
        (sc1, response) \<leftarrow> ctrl_applyCommand command sc;
        (let (currentTerm, isLeader) = GetState (sc_rf sc1) in
         if isLeader \<and> am_CommandTerm message = currentTerm then do {
           (sc2, ch) \<leftarrow> ctrl_getNotifyChan (am_CommandIndex message) sc1;
           ctrl_chan_send ch response sc2
         } else Some sc1)
      } else None)"

definition ShardCtrler_Kill :: "'s ShardCtrler \<Rightarrow> 's ShardCtrler" where
  "ShardCtrler_Kill sc = sc\<lparr>sc_dead := True, sc_rf := Raft_Kill (sc_rf sc)\<rparr>"

definition ShardCtrler_killed :: "'s ShardCtrler \<Rightarrow> bool" where
  "ShardCtrler_killed sc = sc_dead sc"

definition ShardCtrler_Raft :: "'s ShardCtrler \<Rightarrow> (CtrlRequest, 's) Raft" where
  "ShardCtrler_Raft sc = sc_rf sc"

definition ctrl_StartServer :: "nat \<Rightarrow> nat \<Rightarrow> (CtrlRequest gob, 's) Persister \<Rightarrow> 's ShardCtrler option" where
  "ctrl_StartServer nservers i ps = do {
     rf \<leftarrow> Make nservers i ps;
     Some \<lparr>sc_dead = False, sc_me = 0, sc_rf = rf, sc_stateMachine = NewMemoryConfigStateMachine,
           sc_lastOperations = Some Map.empty, sc_notifyChans = Some Map.empty, sc_chans = []\<rparr>
   }"

section \<open>The clerk\<close>

record CtrlClerk =
  cc_servers :: nat
  cc_leaderId :: int
  cc_clientId :: int
  cc_commandId :: int

definition ctrl_MakeClerk :: "nat \<Rightarrow> int \<Rightarrow> CtrlClerk" where
  "ctrl_MakeClerk servers nrand = \<lparr>cc_servers = servers, cc_leaderId = 0, cc_clientId = nrand, cc_commandId = 0\<rparr>"

fun ctrl_Clerk_loop :: "CtrlRequest \<Rightarrow> CtrlResponse option list \<Rightarrow> CtrlClerk \<Rightarrow> (CtrlClerk \<times> Config) option" where
  "ctrl_Clerk_loop request [] ck = None"
| "ctrl_Clerk_loop request (answer # answers) ck =
     (case answer of
        None \<Rightarrow> ctrl_Clerk_loop request answers (ck\<lparr>cc_leaderId := (cc_leaderId ck + 1) mod int (cc_servers ck)\<rparr>)
      | Some response \<Rightarrow>
          if cp_Err response = CtrlErrWrongLeader \<or> cp_Err response = CtrlErrTimeout
          then ctrl_Clerk_loop request answers (ck\<lparr>cc_leaderId := (cc_leaderId ck + 1) mod int (cc_servers ck)\<rparr>)
          else Some (ck\<lparr>cc_commandId := cc_commandId ck + 1\<rparr>, cp_Config response))"

definition ctrl_Clerk_Command :: "CtrlRequest \<Rightarrow> CtrlResponse option list \<Rightarrow> CtrlClerk \<Rightarrow> (CtrlClerk \<times> Config) option" where
  "ctrl_Clerk_Command request answers ck =
     ctrl_Clerk_loop (request\<lparr>cq_ClientId := cc_clientId ck, cq_CommandId := cc_commandId ck\<rparr>) answers ck"

definition zeroCtrlRequest :: CtrlRequest where
  "zeroCtrlRequest = \<lparr>cq_Servers = [], cq_GIDs = [], cq_Shard = 0, cq_GID = 0, cq_Num = 0, cq_Op = OpJoin,
     cq_ClientId = 0, cq_CommandId = 0\<rparr>"

definition ctrl_Clerk_Query :: "int \<Rightarrow> CtrlResponse option list \<Rightarrow> CtrlClerk \<Rightarrow> (CtrlClerk \<times> Config) option" where
  "ctrl_Clerk_Query num = ctrl_Clerk_Command (zeroCtrlRequest\<lparr>cq_Num := num, cq_Op := OpQuery\<rparr>)"

definition ctrl_Clerk_Join :: "(int, string list) gomap \<Rightarrow> CtrlResponse option list \<Rightarrow> CtrlClerk \<Rightarrow> (CtrlClerk \<times> Config) option" where
  "ctrl_Clerk_Join servers = ctrl_Clerk_Command (zeroCtrlRequest\<lparr>cq_Servers := servers, cq_Op := OpJoin\<rparr>)"

definition ctrl_Clerk_Leave :: "int list \<Rightarrow> CtrlResponse option list \<Rightarrow> CtrlClerk \<Rightarrow> (CtrlClerk \<times> Config) option" where
  "ctrl_Clerk_Leave gs = ctrl_Clerk_Command (zeroCtrlRequest\<lparr>cq_GIDs := gs, cq_Op := OpLeave\<rparr>)"

definition ctrl_Clerk_Move :: "int \<Rightarrow> int \<Rightarrow> CtrlResponse option list \<Rightarrow> CtrlClerk \<Rightarrow> (CtrlClerk \<times> Config) option" where
  "ctrl_Clerk_Move shard gid = ctrl_Clerk_Command (zeroCtrlRequest\<lparr>cq_Shard := shard, cq_GID := gid, cq_Op := OpMove\<rparr>)"

end
