(* ===== verification/Ctrl_Props.thy ===== *)
theory Ctrl_Props
  imports Ctrl_Server Raft_Votes
begin

text \<open>
  The properties of the shard controller: the configurations it can reach, what \<^verbatim>\<open>Join\<close> and
  \<^verbatim>\<open>Leave\<close> do to them, that replicas compute the same configuration whatever order Go iterates over its maps
  in, and that repeated commands are executed once.
\<close>

section \<open>Reachable configurations\<close>

definition current :: "MemoryConfigStateMachine \<Rightarrow> Config" where
  "current cf = last (Configs cf)"

text \<open>Every command the clients can send, except a \<^verbatim>\<open>Move\<close> out of range, which panics: the code
  checks neither that the groups of a \<^verbatim>\<open>Join\<close> are new or any, nor that the group of a \<^verbatim>\<open>Move\<close> exists.\<close>

inductive config_step :: "MemoryConfigStateMachine \<Rightarrow> MemoryConfigStateMachine \<Rightarrow> bool" where
  join: "Join groups cf = Some (cf', err) \<Longrightarrow> config_step cf cf'"
| leave: "Leave gs cf = Some (cf', err) \<Longrightarrow> config_step cf cf'"
| move: "Move shard gid cf = Some (cf', err) \<Longrightarrow> config_step cf cf'"

definition config_init :: "MemoryConfigStateMachine \<Rightarrow> bool" where
  "config_init cf \<longleftrightarrow> cf = NewMemoryConfigStateMachine"

definition config_inv :: "MemoryConfigStateMachine \<Rightarrow> bool" where
  "config_inv cf \<longleftrightarrow> Configs cf \<noteq> [] \<and>
     (\<forall>i<length (Configs cf). cf_Num (Configs cf ! i) = int i \<and> config_wf (Configs cf ! i))"

lemma config_inv_last: "config_inv cf \<Longrightarrow> config_wf (current cf)"
  by (simp add: config_inv_def current_def last_conv_nth)

lemma config_inv_snoc:
  assumes "config_inv cf" "cf_Num c = int (length (Configs cf))" "config_wf c"
  shows "config_inv (cf\<lparr>Configs := Configs cf @ [c]\<rparr>)"
  using assms by (auto simp: config_inv_def nth_append less_Suc_eq)

lemma Move_result:
  assumes "config_inv cf" "Move shard gid cf = Some (cf', err)"
  shows "\<exists>c. cf' = cf\<lparr>Configs := Configs cf @ [c]\<rparr> \<and> cf_Num c = int (length (Configs cf)) \<and> config_wf c"
proof -
  have ne: "Configs cf \<noteq> []" and wf: "config_wf (last (Configs cf))"
    using assms(1) config_inv_last by (auto simp: config_inv_def current_def)
  then show ?thesis
    using assms(2) deepCopy_wf by (auto simp: Move_def lastConfig_last Let_def config_wf_def go_elims)
qed

lemma config_step_appends:
  assumes "config_inv cf" "config_step cf cf'"
  shows "\<exists>c. cf' = cf\<lparr>Configs := Configs cf @ [c]\<rparr> \<and> cf_Num c = int (length (Configs cf)) \<and> config_wf c"
proof -
  have l: "Configs cf \<noteq> []" "config_wf (last (Configs cf))"
    using assms(1) config_inv_last [OF assms(1)] by (auto simp: current_def config_inv_def)
  from assms(2) show ?thesis
  proof cases
    case (join groups err)
    then show ?thesis using Join_result [OF l, of groups] by auto
  next
    case (leave gs err)
    then show ?thesis using Leave_result [OF l, of gs] by auto
  next
    case (move shard gid err)
    then show ?thesis using Move_result assms(1) by blast
  qed
qed

lemma config_inv_init: "config_inv NewMemoryConfigStateMachine"
  by (simp add: config_inv_def NewMemoryConfigStateMachine_def DefaultConfig_def config_wf_def)

interpretation ctrl_configs: transition_invariant config_init config_step config_inv
proof
  fix s t assume "config_inv s" "config_step s t"
  then show "config_inv t" using config_step_appends config_inv_snoc by blast
qed (simp add: config_init_def config_inv_init)

definition extends :: "MemoryConfigStateMachine \<Rightarrow> MemoryConfigStateMachine \<Rightarrow> bool" where
  "extends cf cf' \<longleftrightarrow> (\<exists>cs. Configs cf' = Configs cf @ cs)"

lemma config_step_extends: "config_inv cf \<Longrightarrow> config_step cf cf' \<Longrightarrow> extends cf cf'"
  using config_step_appends by (fastforce simp: extends_def)

section \<open>Two replicas\<close>

definition config_eq :: "Config \<Rightarrow> Config \<Rightarrow> bool" where
  "config_eq c c' \<longleftrightarrow> cf_Num c = cf_Num c' \<and> cf_Shards c = cf_Shards c' \<and> gm_eq (cf_Groups c) (cf_Groups c')"

definition configs_eq :: "MemoryConfigStateMachine \<Rightarrow> MemoryConfigStateMachine \<Rightarrow> bool" where
  "configs_eq cf cf' \<longleftrightarrow> list_all2 config_eq (Configs cf) (Configs cf')"

lemma configs_eq_last:
  assumes "configs_eq cf cf'" "config_inv cf"
  shows "config_eq (last (Configs cf)) (last (Configs cf'))" "length (Configs cf) = length (Configs cf')" "Configs cf' \<noteq> []"
proof -
  have ne: "Configs cf \<noteq> []" using assms(2) by (simp add: config_inv_def)
  show l: "length (Configs cf) = length (Configs cf')" using assms(1) by (simp add: configs_eq_def list_all2_lengthD)
  then show "Configs cf' \<noteq> []" using ne by auto
  then show "config_eq (last (Configs cf)) (last (Configs cf'))"
    using assms(1) ne l by (simp add: configs_eq_def list_all2_conv_all_nth last_conv_nth)
qed

lemma configs_eq_snoc: "configs_eq cf cf' \<Longrightarrow> config_eq c c' \<Longrightarrow>
   configs_eq (cf\<lparr>Configs := Configs cf @ [c]\<rparr>) (cf'\<lparr>Configs := Configs cf' @ [c']\<rparr>)"
  by (simp add: configs_eq_def list_all2_appendI)

lemma deepCopy_cong: "gm_eq g g' \<Longrightarrow> gm_eq (deepCopy g) (deepCopy g')"
  by (auto simp: gm_eq_def deepCopy_wf deepCopy_map)

lemma gids_cong: "gm_eq (cf_Groups c) (cf_Groups c') \<Longrightarrow> gids c = gids c'"
  using gm_eq_keys [of "cf_Groups c" "cf_Groups c'"] by (simp add: gids_def)

lemma Join_cong:
  assumes eq: "configs_eq cf cf'" and inv: "config_inv cf" and g: "gm_eq groups groups'"
  shows "rel_option (\<lambda>(a, e) (b, f). configs_eq a b \<and> e = f) (Join groups cf) (Join groups' cf')"
proof -
  let ?l = "last (Configs cf)" and ?l' = "last (Configs cf')"
  note l = configs_eq_last [OF eq inv]
  have ne: "Configs cf \<noteq> []" and len: "length (cf_Shards ?l) = NShards"
    using inv config_inv_last [OF inv] by (auto simp: config_inv_def config_wf_def current_def)
  define c where "c = \<lparr>cf_Num = int (length (Configs cf)), cf_Shards = cf_Shards ?l, cf_Groups = addGroups groups (deepCopy (cf_Groups ?l))\<rparr>"
  define c' where "c' = \<lparr>cf_Num = int (length (Configs cf')), cf_Shards = cf_Shards ?l', cf_Groups = addGroups groups' (deepCopy (cf_Groups ?l'))\<rparr>"
  have dc: "gm_eq (deepCopy (cf_Groups ?l)) (deepCopy (cf_Groups ?l'))" using l(1) by (intro deepCopy_cong) (simp add: config_eq_def)
  have "gm_eq (addGroups groups (deepCopy (cf_Groups ?l))) (addGroups groups' (deepCopy (cf_Groups ?l')))"
    using g dc addGroups_ok [OF deepCopy_wf] by (auto simp: gm_eq_def addGroups_map fun_eq_iff split: option.splits)
  then have ce: "config_eq c c'" using l by (simp add: config_eq_def c_def c'_def)
  have m: "gm_eq (Group2Shards c) (Group2Shards c')" using ce gids_cong by (intro Group2Shards_cong) (auto simp: config_eq_def)
  obtain r where r: "rebalance (Group2Shards c) = Some r" "s2g_ok r []"
    using rebalance_total [OF Group2Shards_ok, of c] len by (auto simp: c_def)
  obtain r' where r': "rebalance (Group2Shards c') = Some r'" "gm_eq r r'"
    using rebalance_cong [OF m] r(1) by (auto simp: option_rel_Some1)
  obtain ns where ns: "writeShards r (replicate NShards 0) = Some ns" "writeShards r' (replicate NShards 0) = Some ns"
    using writeShards_ok [OF r(2)] writeShards_cong [OF r(2) r'(2)] by auto
  have "Join groups cf = Some (cf\<lparr>Configs := Configs cf @ [c\<lparr>cf_Shards := ns\<rparr>]\<rparr>, CtrlOK)"
    using ne r(1) ns(1) by (simp add: Join_def lastConfig_last Let_def addGroups_def [symmetric] c_def)
  moreover have "Join groups' cf' = Some (cf'\<lparr>Configs := Configs cf' @ [c'\<lparr>cf_Shards := ns\<rparr>]\<rparr>, CtrlOK)"
    using l(3) r'(1) ns(2) by (simp add: Join_def lastConfig_last Let_def addGroups_def [symmetric] c'_def)
  moreover have "config_eq (c\<lparr>cf_Shards := ns\<rparr>) (c'\<lparr>cf_Shards := ns\<rparr>)" using ce by (simp add: config_eq_def)
  ultimately show ?thesis using configs_eq_snoc [OF eq] by simp
qed

lemma Leave_cong:
  assumes eq: "configs_eq cf cf'" and inv: "config_inv cf"
  shows "rel_option (\<lambda>(a, e) (b, f). configs_eq a b \<and> e = f) (Leave gs cf) (Leave gs cf')"
proof -
  let ?l = "last (Configs cf)" and ?l' = "last (Configs cf')"
  note l = configs_eq_last [OF eq inv]
  have ne: "Configs cf \<noteq> []" and ok: "config_wf ?l"
    using inv config_inv_last [OF inv] by (auto simp: config_inv_def current_def)
  define c where "c = \<lparr>cf_Num = int (length (Configs cf)), cf_Shards = cf_Shards ?l, cf_Groups = deepCopy (cf_Groups ?l)\<rparr>"
  define c' where "c' = \<lparr>cf_Num = int (length (Configs cf')), cf_Shards = cf_Shards ?l', cf_Groups = deepCopy (cf_Groups ?l')\<rparr>"
  have ce: "config_eq c c'" using l deepCopy_cong by (simp add: config_eq_def c_def c'_def)
  have m: "gm_eq (Group2Shards c) (Group2Shards c')" using ce gids_cong by (intro Group2Shards_cong) (auto simp: config_eq_def)
  obtain g1 m1 o1 where r: "removeGroups gs (cf_Groups c) (Group2Shards c) [] = (g1, m1, o1)"
    by (cases "removeGroups gs (cf_Groups c) (Group2Shards c) []") auto
  obtain g2 m2 where r': "removeGroups gs (cf_Groups c') (Group2Shards c') [] = (g2, m2, o1)" "gm_eq g1 g2" "gm_eq m1 m2"
    using removeGroups_cong [of "cf_Groups c" "cf_Groups c'" "Group2Shards c" "Group2Shards c'" gs "[]"] ce m r
    by (auto simp: config_eq_def split: prod.splits)
  let ?w = "\<lambda>g m. if length g \<noteq> 0 then writeShards (placeOrphans o1 m) (replicate NShards 0) else Some (replicate NShards 0)"
  have run: "Leave gs cf = ?w g1 m1 \<bind> (\<lambda>ns. Some (cf\<lparr>Configs := Configs cf @ [c\<lparr>cf_Groups := g1, cf_Shards := ns\<rparr>]\<rparr>, CtrlOK))"
    using ne r by (simp add: Leave_def lastConfig_last Let_def c_def)
  have run': "Leave gs cf' = ?w g2 m2 \<bind> (\<lambda>ns. Some (cf'\<lparr>Configs := Configs cf' @ [c'\<lparr>cf_Groups := g2, cf_Shards := ns\<rparr>]\<rparr>, CtrlOK))"
    using l(3) r'(1) by (simp add: Leave_def lastConfig_last Let_def c'_def)
  have e: "g1 = [] \<longleftrightarrow> g2 = []" using gm_eq_set [OF r'(2)] by (metis set_empty)
  obtain x where x: "Leave gs cf = Some x" using Leave_result [OF ne ok, of gs] by blast
  have w: "?w g1 m1 = ?w g2 m2"
  proof (cases "g1 = []")
    case False
    have "s2g_ok (Group2Shards c) []" using ok by (intro Group2Shards_ok) (simp add: c_def config_wf_def)
    then have "s2g_ok m1 o1" using removeGroups_ok [OF r] deepCopy_wf by (simp add: c_def)
    from writeShards_cong [OF conjunct1 [OF placeOrphans_any [OF this]] placeOrphans_cong [OF r'(3)]]
    show ?thesis using False e by simp
  qed (use e in simp)
  show ?thesis
  proof (cases "?w g1 m1")
    case (Some ns)
    have "config_eq (c\<lparr>cf_Groups := g1, cf_Shards := ns\<rparr>) (c'\<lparr>cf_Groups := g2, cf_Shards := ns\<rparr>)"
      using ce r'(2) by (simp add: config_eq_def)
    then show ?thesis unfolding run run' w [symmetric] Some using configs_eq_snoc [OF eq] by simp
  qed (use run x in simp)
qed

section \<open>Sessions\<close>

text \<open>The commands that do not make the server panic: \<^verbatim>\<open>Move\<close> with a shard in range, and all the others.\<close>

definition ctrl_in_range :: "CtrlRequest \<Rightarrow> bool" where
  "ctrl_in_range c \<longleftrightarrow> (cq_Op c = OpMove \<longrightarrow> 0 \<le> cq_Shard c \<and> cq_Shard c < int NShards)"

definition sm_good :: "MemoryConfigStateMachine \<Rightarrow> bool" where
  "sm_good sm \<longleftrightarrow> Configs sm \<noteq> [] \<and> (\<forall>c\<in>set (Configs sm). length (cf_Shards c) = NShards)"

definition ctrl_good :: "'s ShardCtrler \<Rightarrow> bool" where
  "ctrl_good sc \<longleftrightarrow> sc_lastOperations sc \<noteq> None \<and> sm_good (sc_stateMachine sc)"

definition ctrl_step :: "CtrlRequest \<Rightarrow> 's ShardCtrler \<Rightarrow> 's ShardCtrler \<times> CtrlResponse" where
  "ctrl_step c sc = (case ctrl_applyCommand c sc of Some r \<Rightarrow> r | None \<Rightarrow> (sc, ctrl_Command_timeout))"

definition ctrl_op :: "CtrlRequest \<Rightarrow> MemoryConfigStateMachine \<Rightarrow> MemoryConfigStateMachine \<times> CtrlResponse" where
  "ctrl_op c sm = (case ctrl_applyLogToStateMachine c sm of Some r \<Rightarrow> r | None \<Rightarrow> (sm, ctrl_Command_timeout))"

definition ctrl_seen :: "'s ShardCtrler \<Rightarrow> int \<Rightarrow> (int \<times> CtrlResponse) option" where
  "ctrl_seen sc x = map_option (\<lambda>oc. (cx_MaxAppliedCommandId oc, cx_LastResponse oc)) (mr_get (sc_lastOperations sc) x)"

lemma sm_good_snoc: "sm_good sm \<Longrightarrow> length (cf_Shards c) = NShards \<Longrightarrow> sm_good (sm\<lparr>Configs := Configs sm @ [c]\<rparr>)"
  by (simp add: sm_good_def)

lemma sm_good_last: "sm_good sm \<Longrightarrow> length (cf_Shards (last (Configs sm))) = NShards"
  by (simp add: sm_good_def)

lemma Join_total: "sm_good sm \<Longrightarrow> \<exists>sm'. Join groups sm = Some (sm', CtrlOK) \<and> sm_good sm'"
proof -
  assume g: "sm_good sm"
  let ?l = "last (Configs sm)"
  define c where "c = \<lparr>cf_Num = int (length (Configs sm)), cf_Shards = cf_Shards ?l, cf_Groups = addGroups groups (deepCopy (cf_Groups ?l))\<rparr>"
  obtain m where m: "rebalance (Group2Shards c) = Some m" "s2g_ok m []"
    using rebalance_total [OF Group2Shards_ok, of c] sm_good_last [OF g] by (auto simp: c_def)
  obtain ns where ns: "writeShards m (replicate NShards 0) = Some ns" "length ns = NShards" using writeShards_ok [OF m(2)] by blast
  have "Join groups sm = Some (sm\<lparr>Configs := Configs sm @ [c\<lparr>cf_Shards := ns\<rparr>]\<rparr>, CtrlOK)"
    using g m(1) ns(1) by (simp add: sm_good_def Join_def lastConfig_last Let_def addGroups_def [symmetric] c_def)
  then show ?thesis using sm_good_snoc [OF g, of "c\<lparr>cf_Shards := ns\<rparr>"] ns(2) by simp
qed

lemma placeOrphans_total: "s2g_ok m os \<Longrightarrow> s2g_ok (placeOrphans os m) []"
  by (induction os arbitrary: m) (simp_all add: placeOrphans_def Let_def s2g_ok_place)

lemma Leave_total: "sm_good sm \<Longrightarrow> \<exists>sm'. Leave gs sm = Some (sm', CtrlOK) \<and> sm_good sm'"
proof -
  assume g: "sm_good sm"
  let ?l = "last (Configs sm)"
  define c where "c = \<lparr>cf_Num = int (length (Configs sm)), cf_Shards = cf_Shards ?l, cf_Groups = deepCopy (cf_Groups ?l)\<rparr>"
  obtain g1 m1 o1 where r: "removeGroups gs (cf_Groups c) (Group2Shards c) [] = (g1, m1, o1)"
    by (cases "removeGroups gs (cf_Groups c) (Group2Shards c) []") auto
  have "s2g_ok (Group2Shards c) []" using sm_good_last [OF g] by (intro Group2Shards_ok) (simp add: c_def)
  from removeGroups_ok [OF r this] have "s2g_ok m1 o1" using deepCopy_wf by (simp add: c_def)
  then obtain ns where ns: "writeShards (placeOrphans o1 m1) (replicate NShards 0) = Some ns" "length ns = NShards"
    using writeShards_ok [OF placeOrphans_total] by blast
  define ns' where "ns' = (if length g1 \<noteq> 0 then ns else replicate NShards 0)"
  have "Leave gs sm = Some (sm\<lparr>Configs := Configs sm @ [c\<lparr>cf_Groups := g1, cf_Shards := ns'\<rparr>]\<rparr>, CtrlOK)"
    using g r ns(1) by (simp add: sm_good_def Leave_def lastConfig_last Let_def c_def ns'_def)
  then show ?thesis using sm_good_snoc [OF g, of "c\<lparr>cf_Groups := g1, cf_Shards := ns'\<rparr>"] ns(2) by (simp add: ns'_def)
qed

lemma Move_total:
  "sm_good sm \<Longrightarrow> 0 \<le> shard \<Longrightarrow> shard < int NShards \<Longrightarrow> \<exists>sm'. Move shard gid sm = Some (sm', CtrlOK) \<and> sm_good sm'"
  using sm_good_last [of sm] by (auto simp: Move_def sm_good_def lastConfig_last Let_def go_simps)

lemma Query_total: "sm_good sm \<Longrightarrow> \<exists>c. Query num sm = Some (c, CtrlOK)"
  by (auto simp: Query_def sm_good_def lastConfig_last go_simps not_le not_less)

lemma ctrl_op_total:
  assumes "sm_good sm" "ctrl_in_range c"
  shows "\<exists>sm' r. ctrl_applyLogToStateMachine c sm = Some (sm', r) \<and> sm_good sm'"
  using assms Join_total [OF assms(1), of "cq_Servers c"] Leave_total [OF assms(1), of "cq_GIDs c"]
    Move_total [OF assms(1), of "cq_Shard c" "cq_GID c"] Query_total [OF assms(1), of "cq_Num c"]
  by (cases "cq_Op c") (auto simp: ctrl_applyLogToStateMachine_def ctrl_in_range_def)

lemma ctrl_applyCommand_fresh:
  assumes g: "ctrl_good sc" and r: "ctrl_in_range c"
    and n: "\<not> (cq_Op c \<noteq> OpQuery \<and> ctrl_isDuplicateRequest (cq_ClientId c) (cq_CommandId c) sc)"
  shows "\<exists>sm' r f. ctrl_applyLogToStateMachine c (sc_stateMachine sc) = Some (sm', r) \<and> sm_good sm' \<and> sc_lastOperations sc = Some f \<and>
    ctrl_applyCommand c sc = Some (if cq_Op c = OpQuery then sc\<lparr>sc_stateMachine := sm'\<rparr>
      else sc\<lparr>sc_stateMachine := sm', sc_lastOperations :=
        Some (f(cq_ClientId c \<mapsto> \<lparr>cx_MaxAppliedCommandId = cq_CommandId c, cx_LastResponse = r\<rparr>))\<rparr>, r)"
proof -
  obtain sm' r where a: "ctrl_applyLogToStateMachine c (sc_stateMachine sc) = Some (sm', r)" "sm_good sm'"
    using ctrl_op_total [OF _ r, of "sc_stateMachine sc"] g by (auto simp: ctrl_good_def)
  obtain f where f: "sc_lastOperations sc = Some f" using g by (auto simp: ctrl_good_def)
  show ?thesis using a f unfolding ctrl_applyCommand_def if_not_P [OF n] by simp
qed

lemma ctrl_applyCommand_duplicate:
  assumes "cq_Op c \<noteq> OpQuery" "ctrl_isDuplicateRequest (cq_ClientId c) (cq_CommandId c) sc"
  shows "\<exists>oc. mr_get (sc_lastOperations sc) (cq_ClientId c) = Some oc \<and> ctrl_applyCommand c sc = Some (sc, cx_LastResponse oc)"
  using assms by (auto simp: ctrl_applyCommand_def ctrl_isDuplicateRequest_def split: option.splits)

interpretation ctrl_sessions: sessions ctrl_step ctrl_good ctrl_in_range sc_stateMachine ctrl_seen ctrl_op
  "\<lambda>c. cq_Op c = OpQuery" cq_ClientId cq_CommandId
proof
  fix st :: "'a ShardCtrler" and c :: CtrlRequest assume g: "ctrl_good st"
  show "ctrl_good (fst (ctrl_step c st))"
  proof (cases "cq_Op c \<noteq> OpQuery \<and> ctrl_isDuplicateRequest (cq_ClientId c) (cq_CommandId c) st")
    case True
    then show ?thesis using ctrl_applyCommand_duplicate [of c st] g by (auto simp: ctrl_step_def)
  next
    case False
    show ?thesis
    proof (cases "ctrl_in_range c")
      case True
      then show ?thesis using ctrl_applyCommand_fresh [OF g True False] g by (auto simp: ctrl_step_def ctrl_good_def)
    next
      case out: False
      then have "ctrl_applyLogToStateMachine c (sc_stateMachine st) = None"
        using g by (auto simp: ctrl_in_range_def ctrl_applyLogToStateMachine_def Move_def ctrl_good_def sm_good_def lastConfig_last
            Let_def go_store_def)
      then show ?thesis using False g by (auto simp: ctrl_step_def ctrl_applyCommand_def)
    qed
  qed
next
  fix st :: "'a ShardCtrler" and c :: CtrlRequest assume g: "ctrl_good st" and out: "\<not> ctrl_in_range c"
  then have "ctrl_applyLogToStateMachine c (sc_stateMachine st) = None"
    by (auto simp: ctrl_in_range_def ctrl_applyLogToStateMachine_def Move_def ctrl_good_def sm_good_def lastConfig_last
        Let_def go_store_def)
  then have "fst (ctrl_step c st) = st"
    using ctrl_applyCommand_duplicate [of c st]
    by (cases "cq_Op c \<noteq> OpQuery \<and> ctrl_isDuplicateRequest (cq_ClientId c) (cq_CommandId c) st")
       (auto simp: ctrl_step_def ctrl_applyCommand_def)
  then show "sc_stateMachine (fst (ctrl_step c st)) = sc_stateMachine st \<and> ctrl_seen (fst (ctrl_step c st)) = ctrl_seen st" by simp
next
  fix st :: "'a ShardCtrler" and c :: CtrlRequest and m r
  assume "ctrl_good st" "\<not> cq_Op c = OpQuery" "ctrl_seen st (cq_ClientId c) = Some (m, r)" "cq_CommandId c \<le> m"
  then show "sc_stateMachine (fst (ctrl_step c st)) = sc_stateMachine st \<and> ctrl_seen (fst (ctrl_step c st)) = ctrl_seen st \<and>
      snd (ctrl_step c st) = r"
    by (auto simp: ctrl_step_def ctrl_applyCommand_def ctrl_seen_def ctrl_isDuplicateRequest_def)
next
  fix st :: "'a ShardCtrler" and c :: CtrlRequest
  assume g: "ctrl_good st" and r: "ctrl_in_range c"
    and n: "cq_Op c = OpQuery \<or> (\<forall>m r. ctrl_seen st (cq_ClientId c) = Some (m, r) \<longrightarrow> m < cq_CommandId c)"
  have "\<not> (cq_Op c \<noteq> OpQuery \<and> ctrl_isDuplicateRequest (cq_ClientId c) (cq_CommandId c) st)"
    using n by (auto simp: ctrl_seen_def ctrl_isDuplicateRequest_def split: option.splits)
  from ctrl_applyCommand_fresh [OF g r this]
  show "sc_stateMachine (fst (ctrl_step c st)) = fst (ctrl_op c (sc_stateMachine st)) \<and>
      snd (ctrl_step c st) = snd (ctrl_op c (sc_stateMachine st)) \<and>
      ctrl_seen (fst (ctrl_step c st)) = (if cq_Op c = OpQuery then ctrl_seen st
        else (ctrl_seen st)(cq_ClientId c \<mapsto> (cq_CommandId c, snd (ctrl_op c (sc_stateMachine st)))))"
    by (auto simp: ctrl_step_def ctrl_op_def ctrl_seen_def)
next
  fix c :: CtrlRequest and s assume "cq_Op c = OpQuery"
  then show "fst (ctrl_op c s) = s"
    by (auto simp: ctrl_op_def ctrl_applyLogToStateMachine_def split: option.splits bind_splits)
qed

section \<open>Properties\<close>

text \<open>C12: \<^verbatim>\<open>Join\<close> always returns, and its result is balanced.  In every state that any commands lead to, the
  balancing loop ends without a panic, and the new configuration has the next number and the old and
  the new groups.  Let \<open>G\<close> be the ids other than 0 that are a group of the new configuration or the owner of
  a shard before: every shard belongs to one of \<open>G\<close>, and the numbers of shards of any two of \<open>G\<close> differ by
  at most one; when there is no such id every shard goes to \<open>-1\<close>.  So where the configuration was as
  \<^verbatim>\<open>common.go\<close> describes it (group 0 is invalid, every shard belongs to a group, or to 0 when there is none) and
  no group 0 joins, every shard belongs to a group and the groups are balanced.\<close>

theorem join_balances:
  assumes "reach config_init config_step cf"
  shows "\<exists>c'. Join groups cf = Some (cf\<lparr>Configs := Configs cf @ [c']\<rparr>, CtrlOK) \<and>
    cf_Num c' = int (length (Configs cf)) \<and> gids c' = gids (current cf) \<union> fst ` set groups \<and>
    length (cf_Shards c') = NShards \<and>
    (let G = gids c' \<union> set (cf_Shards (current cf)) - {0}
     in if G = {} then cf_Shards c' = replicate NShards (-1) else set (cf_Shards c') \<subseteq> G \<and> balanced_on G c') \<and>
    (config_ok (current cf) \<and> 0 \<notin> fst ` set groups \<and> gids c' \<noteq> {} \<longrightarrow> config_ok c' \<and> balanced_on (gids c') c')"
proof -
  have inv: "config_inv cf" by (rule ctrl_configs.reach_inv [OF assms])
  have l: "Configs cf \<noteq> []" "config_wf (last (Configs cf))"
    using inv config_inv_last [OF inv] by (auto simp: current_def config_inv_def)
  from Join_result [OF l, of groups, folded current_def] obtain c' where c: "Join groups cf = Some (cf\<lparr>Configs := Configs cf @ [c']\<rparr>, CtrlOK)"
    "cf_Num c' = int (length (Configs cf))" "config_wf c'" "gids c' = gids (current cf) \<union> fst ` set groups"
    "set (cf_Shards c') \<subseteq> takers (gids c' \<union> set (cf_Shards (current cf)))"
    "balanced_on (takers (gids c' \<union> set (cf_Shards (current cf)))) c'"
    by auto
  let ?G = "gids c' \<union> set (cf_Shards (current cf)) - {0}"
  have len: "length (cf_Shards c') = NShards" using c(3) by (simp add: config_wf_def)
  have all: "if ?G = {} then cf_Shards c' = replicate NShards (-1) else set (cf_Shards c') \<subseteq> ?G \<and> balanced_on ?G c'"
  proof (cases "?G = {}")
    case True
    then have "set (cf_Shards c') \<subseteq> {-1}" using c(5) by (simp add: takers_def)
    then show ?thesis using True len by (auto intro: replicate_eqI)
  next
    case False
    then show ?thesis using c(5,6) unfolding takers_def if_not_P [OF False] by (simp only: if_False if_not_P [OF False])
  qed
  have doc: "config_ok c' \<and> balanced_on (gids c') c'" if "config_ok (current cf)" "0 \<notin> fst ` set groups" "gids c' \<noteq> {}"
  proof -
    have "set (cf_Shards (current cf)) \<subseteq> insert 0 (gids c')" "0 \<notin> gids c'"
      using that c(4) by (auto simp: config_ok_def gids_def split: if_splits)
    then have "?G = gids c'" by auto
    then have "set (cf_Shards c') \<subseteq> gids c'" "balanced_on (gids c') c'" using all that(3) by simp_all
    moreover have "cf_Groups c' \<noteq> []" using that(3) by (auto simp: gids_def)
    ultimately show ?thesis using len c(3) \<open>0 \<notin> gids c'\<close> by (simp add: config_ok_def config_wf_def)
  qed
  show ?thesis
    by (intro exI [of _ c'] conjI impI c(1,2,4) len) (use all doc in \<open>simp_all add: Let_def\<close>)
qed

text \<open>C13: \<^verbatim>\<open>Leave\<close> moves only what it has to.  In every state that any commands lead to, the groups named leave;
  when none remains every shard goes to group 0.  Otherwise every shard of an owner that is not named keeps
  it, and every other shard goes to an id other than 0 that is a remaining group or the owner of a shard and not
  named (to \<open>-1\<close> when there is none), and where the numbers of shards of these ids differed by at
  most one before, they do after.  Where the configuration was as \<^verbatim>\<open>common.go\<close> describes it, the new one is, so
  every shard belongs to a remaining group.\<close>

theorem leave_keeps_shards:
  assumes "reach config_init config_step cf"
  shows "\<exists>c'. Leave gs cf = Some (cf\<lparr>Configs := Configs cf @ [c']\<rparr>, CtrlOK) \<and>
    cf_Num c' = int (length (Configs cf)) \<and> gids c' = gids (current cf) - set gs \<and> length (cf_Shards c') = NShards \<and>
    (if gids c' = {} then cf_Shards c' = replicate NShards 0
     else let G = gids (current cf) \<union> set (cf_Shards (current cf)) - set gs - {0} in
       (\<forall>i<NShards. if cf_Shards (current cf) ! i \<in> set gs then cf_Shards c' ! i \<in> (if G = {} then {-1} else G)
          else cf_Shards c' ! i = cf_Shards (current cf) ! i) \<and>
       (balanced_on G (current cf) \<longrightarrow> balanced_on G c')) \<and>
    (config_ok (current cf) \<longrightarrow> config_ok c')"
proof -
  have inv: "config_inv cf" by (rule ctrl_configs.reach_inv [OF assms])
  have l: "Configs cf \<noteq> []" "config_wf (last (Configs cf))"
    using inv config_inv_last [OF inv] by (auto simp: current_def config_inv_def)
  let ?G = "gids (current cf) \<union> set (cf_Shards (current cf)) - set gs - {0}"
  from Leave_result [OF l, of gs, folded current_def] obtain c' where c: "Leave gs cf = Some (cf\<lparr>Configs := Configs cf @ [c']\<rparr>, CtrlOK)"
    "cf_Num c' = int (length (Configs cf))" "config_wf c'" "gids c' = gids (current cf) - set gs"
    "if gids c' = {} then cf_Shards c' = replicate NShards 0
     else (\<forall>i<NShards. if cf_Shards (current cf) ! i \<in> set gs then cf_Shards c' ! i \<in> (if ?G = {} then {-1} else ?G)
           else cf_Shards c' ! i = cf_Shards (current cf) ! i) \<and> (balanced_on ?G (current cf) \<longrightarrow> balanced_on ?G c')"
    unfolding takers_def by blast
  have len: "length (cf_Shards c') = NShards" using c(3) by (simp add: config_wf_def)
  have doc: "config_ok c'" if "config_ok (current cf)"
  proof (cases "gids c' = {}")
    case True
    then show ?thesis using c(3,5) by (simp add: config_ok_def config_wf_def gids_def NShards_def)
  next
    case False
    then have o: "set (cf_Shards (current cf)) \<subseteq> gids (current cf)" "0 \<notin> gids (current cf)"
      using that c(4) by (auto simp: config_ok_def gids_def split: if_splits)
    then have "?G = gids c'" using c(4) by auto
    moreover have "cf_Shards (current cf) ! i \<in> gids (current cf)" if "i < NShards" for i
      using o(1) that l(2) by (simp add: config_wf_def current_def subset_iff)
    ultimately have "cf_Shards c' ! i \<in> gids c'" if "i < NShards" for i
      using c(5) False that c(4) by (auto split: if_splits)
    then have "set (cf_Shards c') \<subseteq> gids c'" using len by (auto simp: in_set_conv_nth)
    then show ?thesis using c(3,4) o(2) False by (auto simp: config_ok_def config_wf_def gids_def)
  qed
  show ?thesis
    unfolding Let_def by (intro exI [of _ c'] conjI impI c(1,2,4,5) len doc)
qed

text \<open>Configurations are numbered and never rewritten.  Along every run the list of configurations only grows,
  the configuration at position \<open>n\<close> has number \<open>n\<close>, and \<^verbatim>\<open>Query(n)\<close> keeps giving the same answer;
  out of range it gives the latest one.\<close>

theorem configs_append_only:
  assumes "reach config_init config_step cf" "config_step\<^sup>*\<^sup>* cf cf'"
  shows "(\<exists>cs. Configs cf' = Configs cf @ cs) \<and>
    (\<forall>n. 0 \<le> n \<and> n < int (length (Configs cf)) \<longrightarrow>
       Query n cf' = Query n cf \<and> (\<exists>c. Query n cf = Some (c, CtrlOK) \<and> cf_Num c = n \<and> config_wf c)) \<and>
    (\<forall>n. n < 0 \<or> int (length (Configs cf)) \<le> n \<longrightarrow> Query n cf = Some (current cf, CtrlOK))"
proof -
  have inv: "config_inv cf" by (rule ctrl_configs.reach_inv [OF assms(1)])
  have "extends cf cf'"
    by (rule ctrl_configs.steps_rel [OF assms config_step_extends]) (auto simp: extends_def)
  then obtain cs where cs: "Configs cf' = Configs cf @ cs" by (auto simp: extends_def)
  have "Query n cf' = Query n cf \<and> (\<exists>c. Query n cf = Some (c, CtrlOK) \<and> cf_Num c = n \<and> config_wf c)"
    if "0 \<le> n" "n < int (length (Configs cf))" for n
  proof -
    have "nat n < length (Configs cf)" "int (nat n) = n" using that by auto
    then show ?thesis using that inv cs by (auto simp: Query_def go_simps config_inv_def nth_append)
  qed
  moreover have "Query n cf = Some (current cf, CtrlOK)" if "n < 0 \<or> int (length (Configs cf)) \<le> n" for n
    using that inv by (auto simp: Query_def lastConfig_last current_def config_inv_def)
  ultimately show ?thesis using cs by blast
qed

text \<open>C37: replicas compute the same configuration.  Two state machines that hold the same configurations, as Go
  maps, numbered in order and with an owner for each of the ten shards as in every reachable state, hold the same ones after the same \<^verbatim>\<open>Join\<close> or \<^verbatim>\<open>Leave\<close>, in whatever order
  each of them iterates over its maps.\<close>

theorem iteration_order_irrelevant:
  assumes "config_inv cf" "configs_eq cf cf'" "gm_eq groups groups'"
  shows "rel_option (\<lambda>(a, e) (b, f). configs_eq a b \<and> e = f) (Join groups cf) (Join groups' cf') \<and>
    rel_option (\<lambda>(a, e) (b, f). configs_eq a b \<and> e = f) (Leave gs cf) (Leave gs cf')"
  using Join_cong [OF assms(2,1,3)] Leave_cong [OF assms(2,1)] by blast

text \<open>C34: repeated commands do not count.  From a log of commands whose \<^verbatim>\<open>Move\<close>s are in range (others panic)
  the controller's configurations are what the log's effective commands give, one after the other: the
  updates (all but \<^verbatim>\<open>Query\<close>) with an id greater than that of every earlier update of the client.  None of them is there
  twice; and when every client issues its commands in order they are all the updates of
  the log, each where it appears first.\<close>

theorem ctrl_exactly_once:
  assumes "ctrl_StartServer n i ps = Some sc" "\<forall>c\<in>set cs. ctrl_in_range c"
  shows "let eff = effective (\<lambda>c. cq_Op c \<noteq> OpQuery) cq_ClientId cq_CommandId Map.empty cs in
    sc_stateMachine (run_log ctrl_step cs sc) = fold (\<lambda>c sm. fst (ctrl_op c sm)) eff NewMemoryConfigStateMachine \<and>
    distinct (map (\<lambda>c. (cq_ClientId c, cq_CommandId c)) eff) \<and>
    (issued_in_order (\<lambda>c. cq_Op c \<noteq> OpQuery) cq_ClientId cq_CommandId cs \<longrightarrow>
       eff = first_updates (\<lambda>c. cq_Op c \<noteq> OpQuery) (\<lambda>c. (cq_ClientId c, cq_CommandId c)) {} cs)"
proof -
  have sc: "sc_lastOperations sc = Some Map.empty" "sc_stateMachine sc = NewMemoryConfigStateMachine"
    using assms(1) by (auto simp: ctrl_StartServer_def bind_Some_iff)
  have g: "ctrl_good sc"
    using sc by (simp add: ctrl_good_def sm_good_def NewMemoryConfigStateMachine_def DefaultConfig_def)
  have hi: "(\<lambda>x. map_option fst (ctrl_seen sc x)) = Map.empty" using sc by (auto simp: ctrl_seen_def)
  have upd: "effective (\<lambda>c. ctrl_in_range c \<and> cq_Op c \<noteq> OpQuery) cq_ClientId cq_CommandId h cs =
      effective (\<lambda>c. cq_Op c \<noteq> OpQuery) cq_ClientId cq_CommandId h cs" for h
    using assms(2) by (induction cs arbitrary: h) auto
  show ?thesis
    using ctrl_sessions.run_effective [OF g, of cs] hi sc(2) effective_first_updates [of _ cq_ClientId cq_CommandId cs]
    by (simp add: upd Let_def effective_once)
qed

text \<open>\<^verbatim>\<open>Join\<close> of no group on the initial configuration hands every shard to group \<open>-1\<close>, which does not
  exist: \<^verbatim>\<open>GetGIDWithMinimumShards\<close> returns its initial value.  Once there, the group counts as
  one in later balancing, so that a real group that joins gets only half of the shards.\<close>

theorem join_of_nothing_invents_a_group:
  "let cf1 = fst (the (Join [] NewMemoryConfigStateMachine));
       cf2 = fst (the (Join [(1, [''a''])] cf1))
   in cf_Shards (current cf1) = replicate 10 (-1) \<and> cf_Groups (current cf1) = [] \<and>
      shard_count (current cf2) 1 = 5 \<and> shard_count (current cf2) (-1) = 5 \<and> gids (current cf2) = {1}"
  by code_simp

section \<open>Witnesses\<close>

lemma config_start: "reach config_init config_step NewMemoryConfigStateMachine"
  by (rule reach_init) (simp add: config_init_def)

theorem join_balances_witness:
  "\<exists>c'. Join [(1, [''a'']), (2, [''b'']), (3, [''c''])] NewMemoryConfigStateMachine =
       Some (NewMemoryConfigStateMachine\<lparr>Configs := Configs NewMemoryConfigStateMachine @ [c']\<rparr>, CtrlOK) \<and>
     balanced_on {1, 2, 3} c' \<and> set (cf_Shards c') \<subseteq> {1, 2, 3}"
proof -
  let ?groups = "[(1, [''a'']), (2, [''b'']), (3, [''c''])] :: (int, string list) gomap"
  have g: "gids (current NewMemoryConfigStateMachine) = {}" "config_ok (current NewMemoryConfigStateMachine)"
    by (simp_all add: gids_def config_ok_def current_def NewMemoryConfigStateMachine_def DefaultConfig_def NShards_def)
  obtain c' where c: "Join ?groups NewMemoryConfigStateMachine =
       Some (NewMemoryConfigStateMachine\<lparr>Configs := Configs NewMemoryConfigStateMachine @ [c']\<rparr>, CtrlOK)"
    "gids c' = gids (current NewMemoryConfigStateMachine) \<union> fst ` set ?groups"
    "config_ok (current NewMemoryConfigStateMachine) \<and> 0 \<notin> fst ` set ?groups \<and> gids c' \<noteq> {} \<longrightarrow>
       config_ok c' \<and> balanced_on (gids c') c'"
    using join_balances [OF config_start, of ?groups] by blast
  have "gids c' = {1, 2, 3}" using c(2) g(1) by simp
  moreover from this have "config_ok c' \<and> balanced_on (gids c') c'" using c(3) g(2) by simp
  moreover from calculation have "cf_Groups c' \<noteq> []" by (auto simp: gids_def)
  ultimately have "balanced_on {1, 2, 3} c' \<and> set (cf_Shards c') \<subseteq> {1, 2, 3}" by (simp add: config_ok_def)
  then show ?thesis using c(1) by blast
qed

definition demo_configs :: MemoryConfigStateMachine where
  "demo_configs = fst (the (Join [(1, [''a'']), (2, [''b''])] NewMemoryConfigStateMachine))"

lemma demo_configs_step: "config_step NewMemoryConfigStateMachine demo_configs"
proof (rule config_step.join)
  show "Join [(1, [''a'']), (2, [''b''])] NewMemoryConfigStateMachine = Some (demo_configs, CtrlOK)" by code_simp
qed

lemma demo_configs_reach: "reach config_init config_step demo_configs"
  using config_start demo_configs_step by (rule reach_step)

theorem leave_keeps_shards_witness:
  "\<exists>c'. Leave [1] demo_configs = Some (demo_configs\<lparr>Configs := Configs demo_configs @ [c']\<rparr>, CtrlOK) \<and> gids c' = {2}"
proof -
  have "gids (current demo_configs) = {1, 2}" by code_simp
  then show ?thesis using leave_keeps_shards [OF demo_configs_reach, of "[1]"] by auto
qed

theorem configs_append_only_witness:
  "Query 0 demo_configs = Query 0 NewMemoryConfigStateMachine"
proof -
  have "0 < int (length (Configs NewMemoryConfigStateMachine))" by (simp add: NewMemoryConfigStateMachine_def)
  then show ?thesis
    using configs_append_only [OF config_start r_into_rtranclp [of config_step, OF demo_configs_step]] by blast
qed

theorem iteration_order_irrelevant_witness:
  "rel_option (\<lambda>(a, e) (b, f). configs_eq a b \<and> e = f)
     (Join [(1, [''a'']), (2, [''b''])] NewMemoryConfigStateMachine) (Join [(2, [''b'']), (1, [''a''])] NewMemoryConfigStateMachine)"
proof -
  have "configs_eq NewMemoryConfigStateMachine NewMemoryConfigStateMachine"
    by (simp add: configs_eq_def NewMemoryConfigStateMachine_def config_eq_def DefaultConfig_def gm_eq_def)
  moreover have "gm_eq [(1, [''a'']), (2, [''b''])] [(2, [''b'']), (1 :: int, [''a''])]"
    by (auto simp: gm_eq_def fun_eq_iff)
  ultimately show ?thesis using iteration_order_irrelevant [OF config_inv_init] by blast
qed

definition demo_log :: "CtrlRequest list" where
  "demo_log = [zeroCtrlRequest\<lparr>cq_Servers := [(1, [''a''])], cq_CommandId := 1\<rparr>,
     zeroCtrlRequest\<lparr>cq_Servers := [(1, [''a''])], cq_CommandId := 1\<rparr>]"

theorem ctrl_exactly_once_witness:
  "\<exists>sc :: unit ShardCtrler. ctrl_StartServer 3 0 MakePersister = Some sc \<and>
     length (Configs (sc_stateMachine (run_log ctrl_step demo_log sc))) = 2"
proof -
  have "restored (MakePersister :: (CtrlRequest gob, unit) Persister) = (0, -1, [zeroEntry])"
    by (simp add: restored_def MakePersister_def)
  then obtain rf where "Make 3 0 (MakePersister :: (CtrlRequest gob, unit) Persister) = Some rf"
    using Make_exists [of 0 3 MakePersister 0 "-1" "[zeroEntry]"] by auto
  then obtain sc :: "unit ShardCtrler" where sc: "ctrl_StartServer 3 0 MakePersister = Some sc"
    by (auto simp: ctrl_StartServer_def)
  have "\<forall>c\<in>set demo_log. ctrl_in_range c" by (simp add: demo_log_def ctrl_in_range_def zeroCtrlRequest_def)
  note r = ctrl_exactly_once [OF sc this]
  have "effective (\<lambda>c. cq_Op c \<noteq> OpQuery) cq_ClientId cq_CommandId Map.empty demo_log = take 1 demo_log"
    by (simp add: demo_log_def zeroCtrlRequest_def)
  moreover have "length (Configs (fold (\<lambda>c sm. fst (ctrl_op c sm)) (take 1 demo_log) NewMemoryConfigStateMachine)) = 2"
    by code_simp
  ultimately show ?thesis using r sc by (simp add: Let_def)
qed

end
