(* ===== verification/Shard_KV.thy ===== *)
theory Shard_KV
  imports Ctrl_Server "HOL-Library.Word"
begin

text \<open>
  The sharded key/value service of \<^verbatim>\<open>src/src/shardkv\<close>: \<^verbatim>\<open>shard.go\<close>, \<^verbatim>\<open>common.go\<close>,
  \<^verbatim>\<open>server.go\<close> and \<^verbatim>\<open>client.go\<close>.

  The enumerations are 8-bit words, as in the code, so that a \<^verbatim>\<open>switch\<close> over one of them can fall through.
  A pointer to a \<^verbatim>\<open>Shard\<close> that is missing from the map is nil; distinct ids hold distinct objects.
  A pointer to a response is an option, since a log entry of an unknown kind leaves it nil.

  Five methods are called and not written: \<^verbatim>\<open>applyLogToStateMachines\<close>, \<^verbatim>\<open>updateShardStatus\<close>,
  \<^verbatim>\<open>needSnapshot\<close>, \<^verbatim>\<open>takeSnapshot\<close> and \<^verbatim>\<open>restoreSnapshot\<close>.  They are the fields of the record \<open>methods\<close>,
  an argument of every operation that calls them.
\<close>

section \<open>Enumerations\<close>

type_synonym SkErr = "8 word"
type_synonym ShardStatus = "8 word"
type_synonym CommandType = "8 word"
type_synonym SkOp = "8 word"

definition SkOK :: SkErr where "SkOK = 0"
definition SkErrNoKey :: SkErr where "SkErrNoKey = 1"
definition SkErrWrongGroup :: SkErr where "SkErrWrongGroup = 2"
definition SkErrWrongLeader :: SkErr where "SkErrWrongLeader = 3"
definition SkErrOutDated :: SkErr where "SkErrOutDated = 4"
definition SkErrTimeout :: SkErr where "SkErrTimeout = 5"
definition SkErrNotReady :: SkErr where "SkErrNotReady = 6"

definition Serving :: ShardStatus where "Serving = 0"
definition Pulling :: ShardStatus where "Pulling = 1"
definition BePulling :: ShardStatus where "BePulling = 2"
definition GCing :: ShardStatus where "GCing = 3"

definition OperationCmd :: CommandType where "OperationCmd = 0"
definition Configuration :: CommandType where "Configuration = 1"
definition InsertShards :: CommandType where "InsertShards = 2"
definition DeleteShards :: CommandType where "DeleteShards = 3"
definition EmptyEntry :: CommandType where "EmptyEntry = 4"

definition SkOpPut :: SkOp where "SkOpPut = 0"
definition SkOpAppend :: SkOp where "SkOpAppend = 1"
definition SkOpGet :: SkOp where "SkOpGet = 2"

lemmas sk_err_defs = SkOK_def SkErrNoKey_def SkErrWrongGroup_def SkErrWrongLeader_def SkErrOutDated_def
  SkErrTimeout_def SkErrNotReady_def
lemmas status_defs = Serving_def Pulling_def BePulling_def GCing_def
lemmas command_defs = OperationCmd_def Configuration_def InsertShards_def DeleteShards_def EmptyEntry_def
lemmas sk_op_defs = SkOpPut_def SkOpAppend_def SkOpGet_def

text \<open>The \<^verbatim>\<open>String\<close> methods panic on a value that has no name.\<close>

definition Err_String :: "SkErr \<Rightarrow> string option" where
  "Err_String err =
     (if err = SkOK then Some ''OK''
      else if err = SkErrNoKey then Some ''ErrNoKey''
      else if err = SkErrWrongGroup then Some ''ErrWrongGroup''
      else if err = SkErrWrongLeader then Some ''ErrWrongLeader''
      else if err = SkErrOutDated then Some ''ErrOutDated''
      else if err = SkErrTimeout then Some ''ErrTimeout''
      else if err = SkErrNotReady then Some ''ErrNotReady''
      else None)"

definition ShardStatus_String :: "ShardStatus \<Rightarrow> string option" where
  "ShardStatus_String status =
     (if status = Serving then Some ''Serving''
      else if status = Pulling then Some ''Pulling''
      else if status = BePulling then Some ''BePulling''
      else if status = GCing then Some ''GCing''
      else None)"

definition CommandType_String :: "CommandType \<Rightarrow> string option" where
  "CommandType_String op =
     (if op = OperationCmd then Some ''Operation''
      else if op = Configuration then Some ''Configuration''
      else if op = InsertShards then Some ''InsertShards''
      else if op = DeleteShards then Some ''DeleteShards''
      else if op = EmptyEntry then Some ''EmptyEntry''
      else None)"

definition OperationOp_String :: "SkOp \<Rightarrow> string option" where
  "OperationOp_String op =
     (if op = SkOpPut then Some ''OpPut''
      else if op = SkOpAppend then Some ''OpAppend''
      else if op = SkOpGet then Some ''OpGet''
      else None)"

section \<open>Messages\<close>

record SkRequest =
  sr_Key :: string
  sr_Value :: string
  sr_Op :: SkOp
  sr_ClientId :: int
  sr_CommandId :: int

record SkResponse =
  sp_Err :: SkErr
  sp_Value :: string

record SkContext =
  sx_MaxAppliedCommandId :: int
  sx_LastResponse :: SkResponse

definition SkContext_deepCopy :: "SkContext \<Rightarrow> SkContext" where
  "SkContext_deepCopy ctx = \<lparr>sx_MaxAppliedCommandId = sx_MaxAppliedCommandId ctx,
     sx_LastResponse = \<lparr>sp_Err = sp_Err (sx_LastResponse ctx), sp_Value = sp_Value (sx_LastResponse ctx)\<rparr>\<rparr>"

record ShardOperationRequest =
  so_ConfigNum :: int
  so_ShardIDs :: "int list"

record ShardOperationResponse =
  sor_Err :: SkErr
  sor_ConfigNum :: int
  sor_Shards :: "(int, (string, string) gomap) gomap"
  sor_LastOperations :: "(int, SkContext) gomap"

text \<open>\<^verbatim>\<open>Data interface{}\<close> with the types that are stored in it; a type assertion that fails panics.\<close>

datatype SkData =
    DataRequest SkRequest
  | DataConfig Config
  | DataShards ShardOperationResponse
  | DataDelete ShardOperationRequest
  | DataNil

record SkCommand =
  sc_Op :: CommandType
  sc_Data :: SkData

definition NewOperationCommand :: "SkRequest \<Rightarrow> SkCommand" where
  "NewOperationCommand request = \<lparr>sc_Op = OperationCmd, sc_Data = DataRequest request\<rparr>"

definition NewConfigurationCommand :: "Config \<Rightarrow> SkCommand" where
  "NewConfigurationCommand config = \<lparr>sc_Op = Configuration, sc_Data = DataConfig config\<rparr>"

definition NewInsertShardsCommand :: "ShardOperationResponse \<Rightarrow> SkCommand" where
  "NewInsertShardsCommand response = \<lparr>sc_Op = InsertShards, sc_Data = DataShards response\<rparr>"

definition NewDeleteShardsCommand :: "ShardOperationRequest \<Rightarrow> SkCommand" where
  "NewDeleteShardsCommand request = \<lparr>sc_Op = DeleteShards, sc_Data = DataDelete request\<rparr>"

definition NewEmptyEntryCommand :: SkCommand where
  "NewEmptyEntryCommand = \<lparr>sc_Op = EmptyEntry, sc_Data = DataNil\<rparr>"

section \<open>Shards\<close>

record Shard =
  sh_KV :: "(string, string) mapref"
  sh_Status :: ShardStatus

definition NewShard :: Shard where
  "NewShard = \<lparr>sh_KV = Some Map.empty, sh_Status = Serving\<rparr>"

definition Shard_Get :: "string \<Rightarrow> Shard \<Rightarrow> string \<times> SkErr" where
  "Shard_Get key shard = (case mr_get (sh_KV shard) key of Some value \<Rightarrow> (value, SkOK) | None \<Rightarrow> ([], SkErrNoKey))"

definition Shard_Put :: "string \<Rightarrow> string \<Rightarrow> Shard \<Rightarrow> (Shard \<times> SkErr) option" where
  "Shard_Put key value shard = do {
     m \<leftarrow> mr_set (sh_KV shard) key value;
     Some (shard\<lparr>sh_KV := m\<rparr>, SkOK)
   }"

definition Shard_Append :: "string \<Rightarrow> string \<Rightarrow> Shard \<Rightarrow> (Shard \<times> SkErr) option" where
  "Shard_Append key value shard = do {
     let old = (case mr_get (sh_KV shard) key of Some v \<Rightarrow> v | None \<Rightarrow> []);
     m \<leftarrow> mr_set (sh_KV shard) key (old @ value);
     Some (shard\<lparr>sh_KV := m\<rparr>, SkOK)
   }"

text \<open>The copy visits the keys in the order \<open>ks\<close>, an enumeration of the domain.\<close>

definition Shard_deepCopy :: "string list \<Rightarrow> Shard \<Rightarrow> (string, string) mapref" where
  "Shard_deepCopy ks shard =
     Some (fold (\<lambda>k m. case mr_get (sh_KV shard) k of Some v \<Rightarrow> m(k \<mapsto> v) | None \<Rightarrow> m) ks Map.empty)"

text \<open>The first byte of the key modulo the number of shards.\<close>

definition key2shard :: "string \<Rightarrow> int" where
  "key2shard key =
     (let shard = (case key of [] \<Rightarrow> 0 | c # _ \<Rightarrow> of_char c) in shard mod int NShards)"

section \<open>The server\<close>

record 's ShardKV =
  sk_me :: int
  sk_rf :: "(SkCommand, 's) Raft"
  sk_gid :: int
  sk_maxRaftState :: int
  sk_dead :: bool
  sk_lastApplied :: int
  sk_lastConfig :: Config
  sk_currentConfig :: Config
  sk_stateMachine :: "(int, Shard) mapref"
  sk_lastOperations :: "(int, SkContext) mapref"
  sk_notifyChans :: "(int, nat) mapref"
  sk_chans :: "SkResponse option list list"

record 's methods =
  m_applyLogToStateMachines :: "SkRequest \<Rightarrow> int \<Rightarrow> 's ShardKV \<Rightarrow> ('s ShardKV \<times> SkResponse) option"
  m_updateShardStatus :: "Config \<Rightarrow> 's ShardKV \<Rightarrow> 's ShardKV option"
  m_needSnapshot :: "'s ShardKV \<Rightarrow> bool"
  m_takeSnapshot :: "int \<Rightarrow> 's ShardKV \<Rightarrow> 's ShardKV option"
  m_restoreSnapshot :: "'s list \<Rightarrow> 's ShardKV \<Rightarrow> 's ShardKV option"

definition sk_isDuplicateRequest :: "int \<Rightarrow> int \<Rightarrow> 's ShardKV \<Rightarrow> bool" where
  "sk_isDuplicateRequest clientId commandId kv =
     (case mr_get (sk_lastOperations kv) clientId of
        None \<Rightarrow> False
      | Some operationContext \<Rightarrow> commandId \<le> sx_MaxAppliedCommandId operationContext)"

definition canServe :: "int \<Rightarrow> 's ShardKV \<Rightarrow> bool option" where
  "canServe shardId kv = do {
     owner \<leftarrow> go_index (cf_Shards (sk_currentConfig kv)) shardId;
     if owner = sk_gid kv then do {
       shard \<leftarrow> mr_get (sk_stateMachine kv) shardId;
       Some (sh_Status shard = Serving \<or> sh_Status shard = GCing)
     } else Some False
   }"

text \<open>The first critical section of \<^verbatim>\<open>Command\<close>: a response at once, or \<open>None\<close> to go on to \<^verbatim>\<open>Execute\<close>.\<close>

definition sk_Command_check :: "SkRequest \<Rightarrow> 's ShardKV \<Rightarrow> SkResponse option option" where
  "sk_Command_check request kv =
     (if sr_Op request \<noteq> SkOpGet \<and> sk_isDuplicateRequest (sr_ClientId request) (sr_CommandId request) kv
      then do {
        ctx \<leftarrow> mr_get (sk_lastOperations kv) (sr_ClientId request);
        Some (Some \<lparr>sp_Err = sp_Err (sx_LastResponse ctx), sp_Value = sp_Value (sx_LastResponse ctx)\<rparr>)
      }
      else do {
        serves \<leftarrow> canServe (key2shard (sr_Key request)) kv;
        if \<not> serves then Some (Some \<lparr>sp_Err = SkErrNoKey, sp_Value = []\<rparr>) else Some None
      })"

definition sk_getNotifyChan :: "int \<Rightarrow> 's ShardKV \<Rightarrow> ('s ShardKV \<times> nat) option" where
  "sk_getNotifyChan index kv =
     (case mr_get (sk_notifyChans kv) index of
        Some ch \<Rightarrow> Some (kv, ch)
      | None \<Rightarrow> do {
          let ch = length (sk_chans kv);
          m \<leftarrow> mr_set (sk_notifyChans kv) index ch;
          Some (kv\<lparr>sk_notifyChans := m, sk_chans := sk_chans kv @ [[]]\<rparr>, ch)
        })"

definition sk_removeOutdatedNotifyChan :: "int \<Rightarrow> 's ShardKV \<Rightarrow> 's ShardKV" where
  "sk_removeOutdatedNotifyChan index kv = kv\<lparr>sk_notifyChans := mr_delete (sk_notifyChans kv) index\<rparr>"

text \<open>\<^verbatim>\<open>Execute\<close>: the proposal, which holds no lock of the server; the channel, under the lock; the receipt (a nil result panics when its
  fields are read) and the timeout.\<close>

definition Execute_propose :: "SkCommand \<Rightarrow> 's ShardKV \<Rightarrow> ('s ShardKV \<times> (SkResponse + int)) option" where
  "Execute_propose command kv = do {
     (rf', (index, _, isLeader), _) \<leftarrow> Start command (sk_rf kv);
     let kv1 = kv\<lparr>sk_rf := rf'\<rparr>;
     Some (kv1, if \<not> isLeader then Inl \<lparr>sp_Err = SkErrWrongLeader, sp_Value = []\<rparr> else Inr index)
   }"

definition Execute_channel :: "int \<Rightarrow> 's ShardKV \<Rightarrow> ('s ShardKV \<times> nat) option" where
  "Execute_channel index kv = sk_getNotifyChan index kv"

definition Execute_receive :: "nat \<Rightarrow> 's ShardKV \<Rightarrow> ('s ShardKV \<times> SkResponse) option" where
  "Execute_receive ch kv = do {
     buf \<leftarrow> go_index (sk_chans kv) (int ch);
     case buf of
       [] \<Rightarrow> None
     | result # rest \<Rightarrow> do {
         r \<leftarrow> result;
         Some (kv\<lparr>sk_chans := (sk_chans kv)[ch := rest]\<rparr>, \<lparr>sp_Err = sp_Err r, sp_Value = sp_Value r\<rparr>)
       }
   }"

definition Execute_timeout :: SkResponse where
  "Execute_timeout = \<lparr>sp_Err = SkErrTimeout, sp_Value = []\<rparr>"

definition ShardKV_Kill :: "'s ShardKV \<Rightarrow> 's ShardKV" where
  "ShardKV_Kill kv = kv\<lparr>sk_dead := True, sk_rf := Raft_Kill (sk_rf kv)\<rparr>"

definition ShardKV_killed :: "'s ShardKV \<Rightarrow> bool" where
  "ShardKV_killed kv = sk_dead kv"

section \<open>Applying a log entry\<close>

definition applyOperation :: "'s methods \<Rightarrow> SkRequest \<Rightarrow> 's ShardKV \<Rightarrow> ('s ShardKV \<times> SkResponse) option" where
  "applyOperation ms operation kv = do {
     let shardId = key2shard (sr_Key operation);
     serves \<leftarrow> canServe shardId kv;
     if serves then
       if sr_Op operation \<noteq> SkOpGet \<and> sk_isDuplicateRequest (sr_ClientId operation) (sr_CommandId operation) kv
       then do {
         ctx \<leftarrow> mr_get (sk_lastOperations kv) (sr_ClientId operation);
         Some (kv, sx_LastResponse ctx)
       }
       else do {
         (kv1, response) \<leftarrow> m_applyLogToStateMachines ms operation shardId kv;
         if sr_Op operation \<noteq> SkOpGet then do {
           lo \<leftarrow> mr_set (sk_lastOperations kv1) (sr_ClientId operation)
                   \<lparr>sx_MaxAppliedCommandId = sr_CommandId operation, sx_LastResponse = response\<rparr>;
           Some (kv1\<lparr>sk_lastOperations := lo\<rparr>, response)
         } else Some (kv1, response)
       }
     else Some (kv, \<lparr>sp_Err = SkErrWrongGroup, sp_Value = []\<rparr>)
   }"

definition applyConfiguration :: "'s methods \<Rightarrow> Config \<Rightarrow> 's ShardKV \<Rightarrow> ('s ShardKV \<times> SkResponse) option" where
  "applyConfiguration ms nextConfig kv =
     (if cf_Num nextConfig = cf_Num (sk_currentConfig kv) + 1 then do {
        kv1 \<leftarrow> m_updateShardStatus ms nextConfig kv;
        let kv2 = kv1\<lparr>sk_lastConfig := sk_currentConfig kv1\<rparr>;
        Some (kv2\<lparr>sk_currentConfig := nextConfig\<rparr>, \<lparr>sp_Err = SkOK, sp_Value = []\<rparr>)
      }
      else Some (kv, \<lparr>sp_Err = SkErrOutDated, sp_Value = []\<rparr>))"

fun insertData :: "(string, string) gomap \<Rightarrow> Shard \<Rightarrow> Shard option" where
  "insertData [] shard = Some shard"
| "insertData ((key, value) # rest) shard = do {
     m \<leftarrow> mr_set (sh_KV shard) key value;
     insertData rest (shard\<lparr>sh_KV := m\<rparr>)
   }"

text \<open>The loop over the shards that arrive; it stops at the first one that is not awaited.\<close>

fun insertLoop :: "(int, (string, string) gomap) gomap \<Rightarrow> (int, Shard) mapref \<Rightarrow> (int, Shard) mapref option" where
  "insertLoop [] sm = Some sm"
| "insertLoop ((shardId, shardData) # rest) sm = do {
     shard \<leftarrow> mr_get sm shardId;
     if sh_Status shard = Pulling then do {
       shard1 \<leftarrow> insertData shardData shard;
       sm1 \<leftarrow> mr_set sm shardId (shard1\<lparr>sh_Status := GCing\<rparr>);
       insertLoop rest sm1
     } else Some sm
   }"

fun mergeOperations :: "(int, SkContext) gomap \<Rightarrow> (int, SkContext) mapref \<Rightarrow> (int, SkContext) mapref option" where
  "mergeOperations [] lo = Some lo"
| "mergeOperations ((clientId, ctx) # rest) lo =
     (case mr_get lo clientId of
        None \<Rightarrow> do {
          lo1 \<leftarrow> mr_set lo clientId ctx;
          mergeOperations rest lo1
        }
      | Some lastOperation \<Rightarrow>
          if sx_MaxAppliedCommandId lastOperation < sx_MaxAppliedCommandId ctx then do {
            lo1 \<leftarrow> mr_set lo clientId ctx;
            mergeOperations rest lo1
          } else mergeOperations rest lo)"

definition applyInsertShards :: "ShardOperationResponse \<Rightarrow> 's ShardKV \<Rightarrow> ('s ShardKV \<times> SkResponse) option" where
  "applyInsertShards shardsInfo kv =
     (if sor_ConfigNum shardsInfo = cf_Num (sk_currentConfig kv) then do {
        sm \<leftarrow> insertLoop (sor_Shards shardsInfo) (sk_stateMachine kv);
        lo \<leftarrow> mergeOperations (sor_LastOperations shardsInfo) (sk_lastOperations kv);
        Some (kv\<lparr>sk_stateMachine := sm, sk_lastOperations := lo\<rparr>, \<lparr>sp_Err = SkOK, sp_Value = []\<rparr>)
      }
      else Some (kv, \<lparr>sp_Err = SkErrOutDated, sp_Value = []\<rparr>))"

fun deleteLoop :: "int list \<Rightarrow> (int, Shard) mapref \<Rightarrow> (int, Shard) mapref option" where
  "deleteLoop [] sm = Some sm"
| "deleteLoop (shardId # rest) sm = do {
     shard \<leftarrow> mr_get sm shardId;
     if sh_Status shard = GCing then do {
       sm1 \<leftarrow> mr_set sm shardId (shard\<lparr>sh_Status := Serving\<rparr>);
       deleteLoop rest sm1
     } else if sh_Status shard = BePulling then do {
       sm1 \<leftarrow> mr_set sm shardId NewShard;
       deleteLoop rest sm1
     } else Some sm
   }"

definition applyDeleteShards :: "ShardOperationRequest \<Rightarrow> 's ShardKV \<Rightarrow> ('s ShardKV \<times> SkResponse) option" where
  "applyDeleteShards shardsInfo kv =
     (if so_ConfigNum shardsInfo = cf_Num (sk_currentConfig kv) then do {
        sm \<leftarrow> deleteLoop (so_ShardIDs shardsInfo) (sk_stateMachine kv);
        Some (kv\<lparr>sk_stateMachine := sm\<rparr>, \<lparr>sp_Err = SkOK, sp_Value = []\<rparr>)
      }
      else Some (kv, \<lparr>sp_Err = SkOK, sp_Value = []\<rparr>))"

definition applyEmptyEntry :: SkResponse where
  "applyEmptyEntry = \<lparr>sp_Err = SkOK, sp_Value = []\<rparr>"

text \<open>The \<^verbatim>\<open>switch\<close> of the applier over the kinds of commands.\<close>

definition applyEntry :: "'s methods \<Rightarrow> SkCommand \<Rightarrow> 's ShardKV \<Rightarrow> ('s ShardKV \<times> SkResponse option) option" where
  "applyEntry ms command kv =
     (if sc_Op command = OperationCmd then
        (case sc_Data command of
           DataRequest operation \<Rightarrow> map_option (map_prod id Some) (applyOperation ms operation kv)
         | _ \<Rightarrow> None)
      else if sc_Op command = Configuration then
        (case sc_Data command of
           DataConfig nextConfig \<Rightarrow> map_option (map_prod id Some) (applyConfiguration ms nextConfig kv)
         | _ \<Rightarrow> None)
      else if sc_Op command = InsertShards then
        (case sc_Data command of
           DataShards shardsInfo \<Rightarrow> map_option (map_prod id Some) (applyInsertShards shardsInfo kv)
         | _ \<Rightarrow> None)
      else if sc_Op command = DeleteShards then
        (case sc_Data command of
           DataDelete shardsInfo \<Rightarrow> map_option (map_prod id Some) (applyDeleteShards shardsInfo kv)
         | _ \<Rightarrow> None)
      else if sc_Op command = EmptyEntry then Some (kv, Some applyEmptyEntry)
      else Some (kv, None))"

definition sk_chan_send :: "nat \<Rightarrow> SkResponse option \<Rightarrow> 's ShardKV \<Rightarrow> 's ShardKV option" where
  "sk_chan_send ch response kv = do {
     buf \<leftarrow> go_index (sk_chans kv) (int ch);
     if length buf < 1 then Some (kv\<lparr>sk_chans := (sk_chans kv)[ch := buf @ [response]]\<rparr>) else None
   }"

definition sk_applier :: "'s methods \<Rightarrow> int \<Rightarrow> (SkCommand, 's) ApplyMsg \<Rightarrow> 's ShardKV \<Rightarrow> 's ShardKV option" where
  "sk_applier ms cap message kv =
     (if am_CommandValid message then
        if am_CommandIndex message \<le> sk_lastApplied kv then Some kv
        else do {
          let kv1 = kv\<lparr>sk_lastApplied := am_CommandIndex message\<rparr>;
          command \<leftarrow> am_Command message;
          (kv2, response) \<leftarrow> applyEntry ms command kv1;
          kv3 \<leftarrow> (let (currentTerm, isLeader) = GetState (sk_rf kv2) in
                   if isLeader \<and> am_CommandTerm message = currentTerm then do {
                     (kv', ch) \<leftarrow> sk_getNotifyChan (am_CommandIndex message) kv2;
                     sk_chan_send ch response kv'
                   } else Some kv2);
          if m_needSnapshot ms kv3 then m_takeSnapshot ms (am_CommandIndex message) kv3 else Some kv3
        }
      else if am_SnapshotValid message then do {
        (rf', installed) \<leftarrow> CondInstallSnapshot cap (am_SnapshotTerm message) (am_SnapshotIndex message)
                              (am_Snapshot message) (sk_rf kv);
        let kv1 = kv\<lparr>sk_rf := rf'\<rparr>;
        if installed then do {
          kv2 \<leftarrow> m_restoreSnapshot ms (am_Snapshot message) kv1;
          Some (kv2\<lparr>sk_lastApplied := am_CommandIndex message\<rparr>)
        } else Some kv1
      }
      else None)"

text \<open>The fields that \<^verbatim>\<open>StartServer\<close> does not set keep their zero values: the three maps are nil.\<close>

definition sk_StartServer :: "nat \<Rightarrow> nat \<Rightarrow> (SkCommand gob, 's) Persister \<Rightarrow> int \<Rightarrow> int \<Rightarrow> 's ShardKV option" where
  "sk_StartServer nservers i ps maxraftstate gid = do {
     rf \<leftarrow> Make nservers i ps;
     Some \<lparr>sk_me = int i, sk_rf = rf, sk_gid = gid, sk_maxRaftState = maxraftstate, sk_dead = False,
           sk_lastApplied = 0, sk_lastConfig = zeroConfig, sk_currentConfig = zeroConfig, sk_stateMachine = None,
           sk_lastOperations = None, sk_notifyChans = None, sk_chans = []\<rparr>
   }"

section \<open>The clerk\<close>

record SkClerk =
  sck_sm :: CtrlClerk
  sck_config :: Config
  sck_leaderIds :: "(int, int) mapref"
  sck_clientId :: int
  sck_commandId :: int

text \<open>How a loop that talks to servers can go on: it returned, it broke out, it waits for one more answer than
  there are, or it panicked.\<close>

datatype 'a outcome = Returned 'a | Broke | Waiting | Panicked

text \<open>
  The inner loop of \<^verbatim>\<open>Clerk.Command\<close>: one attempt per answer of the network, \<open>None\<close> being a call that
  failed.
\<close>

fun sk_Clerk_attempts :: "string list \<Rightarrow> int \<Rightarrow> int \<Rightarrow> SkResponse option list \<Rightarrow> string outcome" where
  "sk_Clerk_attempts servers oldLeaderId newLeaderId [] =
     (case go_index servers newLeaderId of None \<Rightarrow> Panicked | Some _ \<Rightarrow> Waiting)"
| "sk_Clerk_attempts servers oldLeaderId newLeaderId (answer # answers) =
     (case go_index servers newLeaderId of
        None \<Rightarrow> Panicked
      | Some _ \<Rightarrow>
          (let next = (newLeaderId + 1) mod int (length servers) in
           case answer of
             Some response \<Rightarrow>
               if sp_Err response = SkOK \<or> sp_Err response = SkErrNoKey then Returned (sp_Value response)
               else if sp_Err response = SkErrWrongGroup then Broke
               else if next = oldLeaderId then Broke
               else sk_Clerk_attempts servers oldLeaderId next answers
           | None \<Rightarrow>
               if next = oldLeaderId then Broke
               else sk_Clerk_attempts servers oldLeaderId next answers))"

text \<open>
  The outer loop.  A round has the answers of the group's servers and those of the controller to the
  query at its end; when the rounds run out the clerk is still trying.
\<close>

fun sk_Clerk_loop :: "SkRequest \<Rightarrow> (SkResponse option list \<times> CtrlResponse option list) list \<Rightarrow> SkClerk \<Rightarrow>
    (SkClerk \<times> string) outcome" where
  "sk_Clerk_loop request [] ck = Waiting"
| "sk_Clerk_loop request ((answers, ctrl_answers) # rounds) ck =
     (let refresh = (\<lambda>ck.
            case ctrl_Clerk_Query (-1) ctrl_answers (sck_sm ck) of
              None \<Rightarrow> Waiting
            | Some (sm', config) \<Rightarrow> sk_Clerk_loop request rounds (ck\<lparr>sck_sm := sm', sck_config := config\<rparr>))
      in case go_index (cf_Shards (sck_config ck)) (key2shard (sr_Key request)) of
           None \<Rightarrow> Panicked
         | Some gid \<Rightarrow>
             (case map_of (cf_Groups (sck_config ck)) gid of
                None \<Rightarrow> refresh ck
              | Some servers \<Rightarrow>
                  (case (case mr_get (sck_leaderIds ck) gid of
                           None \<Rightarrow> map_option (\<lambda>m. ck\<lparr>sck_leaderIds := m\<rparr>) (mr_set (sck_leaderIds ck) gid 0)
                         | Some _ \<Rightarrow> Some ck) of
                     None \<Rightarrow> Panicked
                   | Some ck1 \<Rightarrow>
                       (let old = (case mr_get (sck_leaderIds ck1) gid of None \<Rightarrow> 0 | Some l \<Rightarrow> l)
                        in case sk_Clerk_attempts servers old old answers of
                             Returned v \<Rightarrow> Returned (ck1\<lparr>sck_commandId := sck_commandId ck1 + 1\<rparr>, v)
                           | Broke \<Rightarrow> refresh ck1
                           | Waiting \<Rightarrow> Waiting
                           | Panicked \<Rightarrow> Panicked))))"

definition sk_Clerk_Command :: "SkRequest \<Rightarrow> (SkResponse option list \<times> CtrlResponse option list) list \<Rightarrow> SkClerk \<Rightarrow>
    (SkClerk \<times> string) outcome" where
  "sk_Clerk_Command request rounds ck =
     sk_Clerk_loop (request\<lparr>sr_ClientId := sck_clientId ck, sr_CommandId := sck_commandId ck\<rparr>) rounds ck"

definition sk_MakeClerk :: "nat \<Rightarrow> int \<Rightarrow> int \<Rightarrow> CtrlResponse option list \<Rightarrow> SkClerk option" where
  "sk_MakeClerk ctrlers nrand1 nrand2 ctrl_answers = do {
     let ck = \<lparr>sck_sm = ctrl_MakeClerk ctrlers nrand1, sck_config = zeroConfig, sck_leaderIds = Some Map.empty,
               sck_clientId = nrand2, sck_commandId = 0\<rparr>;
     (sm', config) \<leftarrow> ctrl_Clerk_Query (-1) ctrl_answers (sck_sm ck);
     Some (ck\<lparr>sck_sm := sm', sck_config := config\<rparr>)
   }"

definition sk_newRequest :: "string \<Rightarrow> string \<Rightarrow> SkOp \<Rightarrow> SkRequest" where
  "sk_newRequest key value op = \<lparr>sr_Key = key, sr_Value = value, sr_Op = op, sr_ClientId = 0, sr_CommandId = 0\<rparr>"

definition sk_Clerk_Get :: "string \<Rightarrow> (SkResponse option list \<times> CtrlResponse option list) list \<Rightarrow> SkClerk \<Rightarrow>
    (SkClerk \<times> string) outcome" where
  "sk_Clerk_Get key = sk_Clerk_Command (sk_newRequest key [] SkOpGet)"

definition sk_Clerk_Put :: "string \<Rightarrow> string \<Rightarrow> (SkResponse option list \<times> CtrlResponse option list) list \<Rightarrow> SkClerk \<Rightarrow>
    (SkClerk \<times> string) outcome" where
  "sk_Clerk_Put key value = sk_Clerk_Command (sk_newRequest key value SkOpPut)"

definition sk_Clerk_Append :: "string \<Rightarrow> string \<Rightarrow> (SkResponse option list \<times> CtrlResponse option list) list \<Rightarrow> SkClerk \<Rightarrow>
    (SkClerk \<times> string) outcome" where
  "sk_Clerk_Append key value = sk_Clerk_Command (sk_newRequest key value SkOpAppend)"

end
