(* ===== verification/Shard_Props.thy ===== *)
theory Shard_Props
  imports Shard_KV
begin

text \<open>
  The correctness of the sharded key/value service: keys and shards, what a log entry does to the shards and to
  the sessions of the clients, the hand-over of a shard from one group to another, and the clerk.
\<close>

section \<open>Keys and shards\<close>

interpretation shard: kv_store "\<lambda>s. sh_KV s \<noteq> None" "\<lambda>s. mr_get (sh_KV s)"
  Shard_Get Shard_Put Shard_Append SkOK SkErrNoKey
  by unfold_locales (auto simp: Shard_Get_def Shard_Put_def Shard_Append_def Let_def split: option.splits)

lemma key2shard_range: "0 \<le> key2shard key" "key2shard key < int NShards"
  by (simp_all add: key2shard_def NShards_def)

text \<open>A configuration with all its entries and a shard object for every shard of the group: no read panics.\<close>

definition shards_ok :: "'s ShardKV \<Rightarrow> bool" where
  "shards_ok kv \<longleftrightarrow> length (cf_Shards (sk_currentConfig kv)) = NShards \<and>
     (\<forall>i. 0 \<le> i \<and> i < int NShards \<longrightarrow> (\<exists>s. mr_get (sk_stateMachine kv) i = Some s \<and> sh_KV s \<noteq> None))"

lemma canServe_total: "shards_ok kv \<Longrightarrow> canServe (key2shard key) kv \<noteq> None"
  using key2shard_range [of key] by (auto simp: canServe_def shards_ok_def go_simps)

lemma deepCopy_same:
  assumes "set ks = dom (mr_get (sh_KV s))"
  shows "mr_get (Shard_deepCopy ks s) = mr_get (sh_KV s)"
proof -
  have "fold (\<lambda>k m. case mr_get (sh_KV s) k of Some v \<Rightarrow> m(k \<mapsto> v) | None \<Rightarrow> m) ks m0 x =
      (if x \<in> set ks \<and> mr_get (sh_KV s) x \<noteq> None then mr_get (sh_KV s) x else m0 x)" for m0 x
    by (induction ks arbitrary: m0) (auto split: option.splits)
  then show ?thesis using assms by (intro ext) (auto simp: Shard_deepCopy_def domIff)
qed

section \<open>The kinds of entries\<close>

lemma applyEntry_cases:
  assumes "applyEntry ms c kv = Some (kv', r)"
  obtains (operation) op rr where "c = NewOperationCommand op" "applyOperation ms op kv = Some (kv', rr)" "r = Some rr"
    | (configuration) cf rr where "c = NewConfigurationCommand cf" "applyConfiguration ms cf kv = Some (kv', rr)" "r = Some rr"
    | (insert) info rr where "c = NewInsertShardsCommand info" "applyInsertShards info kv = Some (kv', rr)" "r = Some rr"
    | (delete) info rr where "c = NewDeleteShardsCommand info" "applyDeleteShards info kv = Some (kv', rr)" "r = Some rr"
    | (other) "kv' = kv" "sc_Op c \<notin> {OperationCmd, Configuration, InsertShards, DeleteShards}"
proof -
  have c: "c = \<lparr>sc_Op = sc_Op c, sc_Data = sc_Data c\<rparr>" by simp
  show thesis
  proof (cases "sc_Op c = OperationCmd")
    case True
    then obtain op where "sc_Data c = DataRequest op"
      using assms by (auto simp: applyEntry_def split: SkData.splits)
    then show ?thesis using operation [of op] assms True c by (auto simp: applyEntry_def NewOperationCommand_def)
  next
    case n1: False
    show ?thesis
    proof (cases "sc_Op c = Configuration")
      case True
      then obtain cf where "sc_Data c = DataConfig cf"
        using assms n1 by (auto simp: applyEntry_def split: SkData.splits)
      then show ?thesis using configuration [of cf] assms True n1 c by (auto simp: applyEntry_def NewConfigurationCommand_def)
    next
      case n2: False
      show ?thesis
      proof (cases "sc_Op c = InsertShards")
        case True
        then obtain info where "sc_Data c = DataShards info"
          using assms n1 n2 by (auto simp: applyEntry_def split: SkData.splits)
        then show ?thesis using insert [of info] assms True n1 n2 c by (auto simp: applyEntry_def NewInsertShardsCommand_def)
      next
        case n3: False
        show ?thesis
        proof (cases "sc_Op c = DeleteShards")
          case True
          then obtain info where "sc_Data c = DataDelete info"
            using assms n1 n2 n3 by (auto simp: applyEntry_def split: SkData.splits)
          then show ?thesis using delete [of info] assms True n1 n2 n3 c by (auto simp: applyEntry_def NewDeleteShardsCommand_def)
        next
          case n4: False
          then have "kv' = kv" using assms n1 n2 n3 by (auto simp: applyEntry_def split: if_splits)
          then show ?thesis using other n1 n2 n3 n4 by simp
        qed
      qed
    qed
  qed
qed

section \<open>What the written code does by itself\<close>

text \<open>The entries that call a method that is not written: an operation that is handed to the shards, and the next
  configuration.  Nothing is known of what the method does then.\<close>

definition calls_missing :: "SkCommand \<Rightarrow> 's ShardKV \<Rightarrow> bool" where
  "calls_missing c kv \<longleftrightarrow> (case sc_Data c of
     DataRequest op \<Rightarrow> sc_Op c = OperationCmd \<and> canServe (key2shard (sr_Key op)) kv = Some True \<and>
       (sr_Op op = SkOpGet \<or> \<not> sk_isDuplicateRequest (sr_ClientId op) (sr_CommandId op) kv)
   | DataConfig cf \<Rightarrow> sc_Op c = Configuration \<and> cf_Num cf = cf_Num (sk_currentConfig kv) + 1
   | _ \<Rightarrow> False)"

text \<open>A part of the log that the written code handles by itself.\<close>

fun quiet_run :: "'s methods \<Rightarrow> SkCommand list \<Rightarrow> 's ShardKV \<Rightarrow> 's ShardKV option" where
  "quiet_run ms [] kv = Some kv"
| "quiet_run ms (c # cs) kv =
     (if calls_missing c kv then None
      else case applyEntry ms c kv of None \<Rightarrow> None | Some (kv', _) \<Rightarrow> quiet_run ms cs kv')"

lemma applyOperation_quiet:
  assumes "\<not> calls_missing (NewOperationCommand op) kv" "applyOperation ms op kv = Some (kv', r)"
  shows "kv' = kv \<and> (canServe (key2shard (sr_Key op)) kv = Some False \<and> r = \<lparr>sp_Err = SkErrWrongGroup, sp_Value = []\<rparr> \<or>
    canServe (key2shard (sr_Key op)) kv = Some True \<and>
      (\<exists>ctx. mr_get (sk_lastOperations kv) (sr_ClientId op) = Some ctx \<and> r = sx_LastResponse ctx))"
  using assms by (auto simp: applyOperation_def calls_missing_def NewOperationCommand_def bind_Some_iff Let_def split: if_splits)

section \<open>Sessions\<close>

text \<open>What is remembered of a client changes only to a later command.\<close>

definition lo_le :: "(int, SkContext) mapref \<Rightarrow> (int, SkContext) mapref \<Rightarrow> bool" where
  "lo_le lo lo' \<longleftrightarrow> (\<forall>x ctx. mr_get lo x = Some ctx \<longrightarrow> (\<exists>ctx'. mr_get lo' x = Some ctx' \<and>
     (ctx' = ctx \<or> sx_MaxAppliedCommandId ctx < sx_MaxAppliedCommandId ctx')))"

lemma lo_leE:
  assumes "lo_le lo lo'" "mr_get lo x = Some ctx"
  obtains ctx' where "mr_get lo' x = Some ctx'" "ctx' = ctx \<or> sx_MaxAppliedCommandId ctx < sx_MaxAppliedCommandId ctx'"
  using assms unfolding lo_le_def by blast

lemma lo_le_refl [simp]: "lo_le lo lo"
  by (simp add: lo_le_def)

lemma lo_le_trans: "lo_le a b \<Longrightarrow> lo_le b c \<Longrightarrow> lo_le a c"
proof -
  assume a: "lo_le a b" and b: "lo_le b c"
  have "\<exists>ctx'. mr_get c x = Some ctx' \<and> (ctx' = ctx \<or> sx_MaxAppliedCommandId ctx < sx_MaxAppliedCommandId ctx')"
    if x: "mr_get a x = Some ctx" for x ctx
  proof -
    obtain c1 where c1: "mr_get b x = Some c1" "c1 = ctx \<or> sx_MaxAppliedCommandId ctx < sx_MaxAppliedCommandId c1"
      by (rule lo_leE [OF a x])
    obtain c2 where "mr_get c x = Some c2" "c2 = c1 \<or> sx_MaxAppliedCommandId c1 < sx_MaxAppliedCommandId c2"
      by (rule lo_leE [OF b c1(1)])
    then show ?thesis using c1(2) by auto
  qed
  then show "lo_le a c" unfolding lo_le_def by blast
qed

lemma mergeOperations_le:
  assumes "mergeOperations ops lo = Some lo'"
  shows "lo_le lo lo' \<and> (\<forall>(x, ctx)\<in>set ops. \<exists>ctx'. mr_get lo' x = Some ctx' \<and> sx_MaxAppliedCommandId ctx \<le> sx_MaxAppliedCommandId ctx')"
  using assms
proof (induction ops lo rule: mergeOperations.induct)
  case (2 x ctx rest lo)
  have head: "\<exists>ctx'. mr_get lo' x = Some ctx' \<and> sx_MaxAppliedCommandId ctx \<le> sx_MaxAppliedCommandId ctx'"
    if le: "lo_le lo1 lo'" and "mr_get lo1 x = Some c" "sx_MaxAppliedCommandId ctx \<le> sx_MaxAppliedCommandId c" for lo1 c
    using lo_leE [OF le that(2)] that(3) by (metis less_imp_le order_trans)
  show ?case
  proof (cases "\<exists>c. mr_get lo x = Some c \<and> \<not> sx_MaxAppliedCommandId c < sx_MaxAppliedCommandId ctx")
    case True
    then obtain c where c: "mr_get lo x = Some c" "\<not> sx_MaxAppliedCommandId c < sx_MaxAppliedCommandId ctx" by blast
    have IH: "lo_le lo lo'" "\<forall>(y, ctx)\<in>set rest. \<exists>ctx'. mr_get lo' y = Some ctx' \<and> sx_MaxAppliedCommandId ctx \<le> sx_MaxAppliedCommandId ctx'"
      using "2.IH"(3) [OF c] "2.prems" c by auto
    then show ?thesis using head [OF IH(1) c(1)] c(2) by simp
  next
    case False
    then obtain lo1 where lo1: "mr_set lo x ctx = Some lo1" "mergeOperations rest lo1 = Some lo'"
      using "2.prems" by (auto simp: bind_Some_iff split: option.splits if_splits)
    have IH: "lo_le lo1 lo'" "\<forall>(y, ctx)\<in>set rest. \<exists>ctx'. mr_get lo' y = Some ctx' \<and> sx_MaxAppliedCommandId ctx \<le> sx_MaxAppliedCommandId ctx'"
      using "2.IH"(1,2) lo1 False by (cases "mr_get lo x"; auto)+
    have g: "mr_get lo1 = (mr_get lo)(x \<mapsto> ctx)" using lo1(1) by (auto simp: mr_set_eq_Some fun_eq_iff)
    have "lo_le lo lo1" using False by (auto simp: lo_le_def g)
    then show ?thesis using IH head [OF IH(1), of ctx] g lo_le_trans by auto
  qed
qed simp

lemma mergeOperations_total: "lo \<noteq> None \<Longrightarrow> \<exists>lo'. mergeOperations ops lo = Some lo'"
  by (induction ops lo rule: mergeOperations.induct) (auto simp: mr_set_eq_Some split: option.splits)

lemma quiet_entry_sessions:
  assumes "\<not> calls_missing c kv" "applyEntry ms c kv = Some (kv', r)"
  shows "lo_le (sk_lastOperations kv) (sk_lastOperations kv')"
  using assms(2)
proof (cases rule: applyEntry_cases)
  case (operation op rr)
  then show ?thesis using applyOperation_quiet [of op kv ms kv' rr] assms(1) by simp
next
  case (configuration cf rr)
  then show ?thesis using assms(1)
    by (auto simp: applyConfiguration_def calls_missing_def NewConfigurationCommand_def split: if_splits)
next
  case (insert info rr)
  then show ?thesis by (auto simp: applyInsertShards_def bind_Some_iff dest: mergeOperations_le split: if_splits)
next
  case (delete info rr)
  then show ?thesis by (auto simp: applyDeleteShards_def bind_Some_iff split: if_splits)
qed simp

lemma quiet_run_sessions:
  "quiet_run ms cs kv = Some kv' \<Longrightarrow> lo_le (sk_lastOperations kv) (sk_lastOperations kv')"
proof (induction cs arbitrary: kv)
  case (Cons c cs)
  then show ?case by (auto split: if_splits option.splits intro: lo_le_trans dest: quiet_entry_sessions)
qed simp

text \<open>An update whose id is remembered is not handed to the shards.\<close>

lemma remembered_not_executed:
  assumes "mr_get (sk_lastOperations kv) (sr_ClientId op) = Some ctx" "sr_CommandId op \<le> sx_MaxAppliedCommandId ctx"
    "sr_Op op \<noteq> SkOpGet"
  shows "\<not> calls_missing (NewOperationCommand op) kv"
    "sk_Command_check op kv = Some (Some \<lparr>sp_Err = sp_Err (sx_LastResponse ctx), sp_Value = sp_Value (sx_LastResponse ctx)\<rparr>)"
  using assms by (auto simp: calls_missing_def NewOperationCommand_def sk_isDuplicateRequest_def sk_Command_check_def)

section \<open>The life of a shard\<close>

lemma insertData_contents:
  assumes "insertData d s = Some s'" "gm_wf d"
  shows "sh_Status s' = sh_Status s \<and> mr_get (sh_KV s') = mr_get (sh_KV s) ++ map_of d"
  using assms
proof (induction d arbitrary: s)
  case (Cons kv d)
  obtain k v where kv: "kv = (k, v)" by (cases kv)
  obtain m where m: "mr_set (sh_KV s) k v = Some m" "insertData d (s\<lparr>sh_KV := m\<rparr>) = Some s'"
    using Cons.prems(1) kv by (auto simp: bind_Some_iff)
  have "mr_get m = (mr_get (sh_KV s))(k \<mapsto> v)" using m(1) by (auto simp: mr_set_eq_Some)
  moreover have "map_of d k = None" using Cons.prems(2) kv by (auto simp: map_of_eq_None_iff)
  ultimately show ?case using Cons.IH [OF m(2)] Cons.prems(2) kv by (auto simp: map_add_def fun_eq_iff split: option.splits)
qed simp

lemma insertData_total: "sh_KV s \<noteq> None \<Longrightarrow> \<exists>s'. insertData d s = Some s' \<and> sh_KV s' \<noteq> None"
  by (induction d s rule: insertData.induct) (auto simp: mr_set_eq_Some)

text \<open>A shard that an insertion changes was awaited, takes the data that arrived and waits for its old owner to
  discard it.\<close>

definition inserted :: "(int, (string, string) gomap) gomap \<Rightarrow> int \<Rightarrow> Shard \<Rightarrow> Shard \<Rightarrow> bool" where
  "inserted ds i s s' \<longleftrightarrow> sh_Status s = Pulling \<and> sh_Status s' = GCing \<and>
     (\<exists>d. (i, d) \<in> set ds \<and> mr_get (sh_KV s') = mr_get (sh_KV s) ++ map_of d)"

lemma insertLoop_shard:
  assumes "insertLoop ds sm = Some sm'" "\<forall>(i, d)\<in>set ds. gm_wf d" "mr_get sm i = Some s"
  shows "\<exists>s'. mr_get sm' i = Some s' \<and> (s' = s \<or> inserted ds i s s')"
  using assms
proof (induction ds arbitrary: sm s)
  case (Cons x ds)
  obtain j d where x: "x = (j, d)" by (cases x)
  obtain t where t: "mr_get sm j = Some t" using Cons.prems(1) x by (auto simp: bind_Some_iff)
  show ?case
  proof (cases "sh_Status t = Pulling")
    case True
    then obtain t1 sm1 where t1: "insertData d t = Some t1" "mr_set sm j (t1\<lparr>sh_Status := GCing\<rparr>) = Some sm1"
        "insertLoop ds sm1 = Some sm'"
      using Cons.prems(1) x t by (auto simp: bind_Some_iff)
    have sm1: "mr_get sm1 = (mr_get sm)(j \<mapsto> t1\<lparr>sh_Status := GCing\<rparr>)" using t1(2) by (auto simp: mr_set_eq_Some)
    have d: "mr_get (sh_KV t1) = mr_get (sh_KV t) ++ map_of d"
      using insertData_contents [OF t1(1)] Cons.prems(2) x by auto
    have wf: "\<forall>(i, d)\<in>set ds. gm_wf d" using Cons.prems(2) by simp
    show ?thesis
    proof (cases "i = j")
      case True
      have "mr_get sm1 i = Some (t1\<lparr>sh_Status := GCing\<rparr>)" using sm1 True by simp
      then obtain s' where s': "mr_get sm' i = Some s'" "s' = t1\<lparr>sh_Status := GCing\<rparr> \<or> inserted ds i (t1\<lparr>sh_Status := GCing\<rparr>) s'"
        using Cons.IH [OF t1(3) wf] by blast
      then have "s' = t1\<lparr>sh_Status := GCing\<rparr>" by (auto simp: inserted_def status_defs)
      moreover have "s = t" using True t Cons.prems(3) by simp
      ultimately show ?thesis using s'(1) d \<open>sh_Status t = Pulling\<close> x True by (auto simp: inserted_def)
    next
      case False
      then have "mr_get sm1 i = Some s" using sm1 Cons.prems(3) by simp
      then show ?thesis using Cons.IH [OF t1(3) wf] by (auto simp: inserted_def)
    qed
  qed (use Cons.prems t x in auto)
qed simp

text \<open>When every shard that arrives is awaited, all of them are taken over, in whatever order.\<close>

lemma insertLoop_all:
  assumes "gm_wf ds" "\<forall>(i, d)\<in>set ds. gm_wf d \<and> (\<exists>s. mr_get sm i = Some s \<and> sh_Status s = Pulling \<and> sh_KV s \<noteq> None)"
  shows "\<exists>sm'. insertLoop ds sm = Some sm' \<and> (\<forall>i. i \<notin> fst ` set ds \<longrightarrow> mr_get sm' i = mr_get sm i) \<and>
    (\<forall>i s d. (i, d) \<in> set ds \<and> mr_get sm i = Some s \<longrightarrow> (\<exists>s'. mr_get sm' i = Some s' \<and> sh_Status s' = GCing \<and>
       mr_get (sh_KV s') = mr_get (sh_KV s) ++ map_of d))"
  using assms
proof (induction ds arbitrary: sm)
  case (Cons x ds)
  obtain j d where x: "x = (j, d)" by (cases x)
  obtain t where t: "mr_get sm j = Some t" "sh_Status t = Pulling" "sh_KV t \<noteq> None" using Cons.prems(2) x by auto
  obtain t1 where t1: "insertData d t = Some t1" using insertData_total [OF t(3)] by blast
  have d: "mr_get (sh_KV t1) = mr_get (sh_KV t) ++ map_of d" using insertData_contents [OF t1] Cons.prems(2) x by auto
  obtain f where f: "sm = Some f" using t(1) by (cases sm) auto
  define sm1 where "sm1 = Some (f(j \<mapsto> t1\<lparr>sh_Status := GCing\<rparr>))"
  have notj: "j \<notin> fst ` set ds" using Cons.prems(1) x by auto
  have "\<forall>(i, d)\<in>set ds. gm_wf d \<and> (\<exists>s. mr_get sm1 i = Some s \<and> sh_Status s = Pulling \<and> sh_KV s \<noteq> None)"
  proof safe
    fix i e assume "(i, e) \<in> set ds"
    moreover from this have "i \<noteq> j" using notj by force
    ultimately show "gm_wf e" "\<exists>s. mr_get sm1 i = Some s \<and> sh_Status s = Pulling \<and> sh_KV s \<noteq> None"
      using Cons.prems(2) f sm1_def by auto
  qed
  then obtain sm' where sm': "insertLoop ds sm1 = Some sm'" "\<And>i. i \<notin> fst ` set ds \<Longrightarrow> mr_get sm' i = mr_get sm1 i"
      "\<And>i s d. (i, d) \<in> set ds \<Longrightarrow> mr_get sm1 i = Some s \<Longrightarrow> \<exists>s'. mr_get sm' i = Some s' \<and> sh_Status s' = GCing \<and>
         mr_get (sh_KV s') = mr_get (sh_KV s) ++ map_of d"
    using Cons.IH [of sm1] Cons.prems(1) by fastforce
  have loop: "insertLoop (x # ds) sm = Some sm'" using x t t1 f sm'(1) by (simp add: sm1_def)
  moreover have "mr_get sm' i = mr_get sm i" if "i \<notin> fst ` set (x # ds)" for i
    using that sm'(2) [of i] x f by (auto simp: sm1_def)
  moreover have "\<exists>s'. mr_get sm' i = Some s' \<and> sh_Status s' = GCing \<and> mr_get (sh_KV s') = mr_get (sh_KV s) ++ map_of e"
    if "(i, e) \<in> set (x # ds)" "mr_get sm i = Some s" for i s e
  proof (cases "i = j")
    case True
    then have "e = d" using that(1) notj x by (auto simp: image_iff)
    then show ?thesis using sm'(2) [of i] notj True d that(2) t(1) by (simp add: sm1_def)
  next
    case False
    then show ?thesis using that sm'(3) [of i e s] x f by (auto simp: sm1_def)
  qed
  ultimately show ?case by blast
qed simp

lemma deleteLoop_shard:
  assumes "deleteLoop js sm = Some sm'" "mr_get sm i = Some s"
  shows "\<exists>s'. mr_get sm' i = Some s' \<and> (s' = s \<or>
    i \<in> set js \<and> (sh_Status s = GCing \<and> s' = s\<lparr>sh_Status := Serving\<rparr> \<or> sh_Status s = BePulling \<and> s' = NewShard))"
  using assms
proof (induction js arbitrary: sm s)
  case (Cons j js)
  obtain t where t: "mr_get sm j = Some t" using Cons.prems(1) by (auto simp: bind_Some_iff)
  show ?case
  proof (cases "sh_Status t = GCing \<or> sh_Status t = BePulling")
    case True
    define t1 where "t1 = (if sh_Status t = GCing then t\<lparr>sh_Status := Serving\<rparr> else NewShard)"
    obtain sm1 where sm1: "mr_set sm j t1 = Some sm1" "deleteLoop js sm1 = Some sm'"
      using Cons.prems(1) t True by (auto simp: bind_Some_iff t1_def split: if_splits)
    have g: "mr_get sm1 = (mr_get sm)(j \<mapsto> t1)" using sm1(1) by (auto simp: mr_set_eq_Some)
    have st: "sh_Status t1 = Serving" by (simp add: t1_def NewShard_def)
    show ?thesis
    proof (cases "i = j")
      case True
      then have "mr_get sm' i = Some t1" using Cons.IH [OF sm1(2), of t1] g st by (auto simp: status_defs)
      then show ?thesis using True t Cons.prems(2) \<open>sh_Status t = GCing \<or> sh_Status t = BePulling\<close> by (auto simp: t1_def)
    next
      case False
      then show ?thesis using Cons.IH [OF sm1(2), of s] g Cons.prems(2) by auto
    qed
  next
    case False
    then have "sm' = sm" using Cons.prems(1) t by auto
    then show ?thesis using Cons.prems(2) by blast
  qed
qed simp

section \<open>The clerk\<close>

text \<open>An answer after which the clerk turns to the next server of the group.\<close>

definition sk_retry :: "SkResponse option \<Rightarrow> bool" where
  "sk_retry a \<longleftrightarrow> (\<forall>r. a = Some r \<longrightarrow> sp_Err r \<notin> {SkOK, SkErrNoKey, SkErrWrongGroup})"

lemma attempts_answered:
  assumes "0 \<le> old" "old < int (length servers)" "new = (old + k) mod int (length servers)" "0 \<le> k"
    "k + int (length bad) < int (length servers)" "\<forall>a\<in>set bad. sk_retry a" "sp_Err r = SkOK \<or> sp_Err r = SkErrNoKey"
  shows "sk_Clerk_attempts servers old new (bad @ Some r # rest) = Returned (sp_Value r)"
  using assms(3-6)
proof (induction bad arbitrary: new k)
  case Nil
  have "0 < int (length servers)" using assms(1,2) by linarith
  then have "go_index servers new \<noteq> None" using Nil(1) by (simp add: go_index_def)
  then show ?case using assms(7) by (auto simp: Let_def)
next
  case (Cons a bad)
  let ?n = "int (length servers)"
  have n: "0 < ?n" using assms(1,2) by linarith
  have idx: "go_index servers new \<noteq> None" using n Cons.prems(1) by (simp add: go_index_def)
  have nxt: "(new + 1) mod ?n = (old + (k + 1)) mod ?n" using Cons.prems(1) by (simp add: mod_simps add.assoc)
  have "(old + (k + 1)) mod ?n \<noteq> old"
  proof (cases "old + (k + 1) < ?n")
    case True
    then show ?thesis using Cons.prems(2) assms(1) by simp
  next
    case False
    then have "(old + (k + 1)) mod ?n = (old + (k + 1) - ?n) mod ?n" by simp
    also have "\<dots> = old + (k + 1) - ?n" using False Cons.prems(3) assms(2) by (intro mod_pos_pos_trivial) auto
    finally have "(old + (k + 1)) mod ?n = old + (k + 1) - ?n" .
    then show ?thesis using Cons.prems(3) by simp
  qed
  moreover have "sk_Clerk_attempts servers old ((new + 1) mod ?n) (bad @ Some r # rest) = Returned (sp_Value r)"
    using Cons.IH [OF nxt] Cons.prems by simp
  moreover have "sk_retry a" using Cons.prems(4) by simp
  ultimately show ?case using idx nxt by (auto simp: Let_def sk_retry_def split: option.splits)
qed

lemma attempts_end:
  assumes "0 \<le> old" "old < int (length servers)" "new = (old + k) mod int (length servers)" "0 \<le> k" "k < int (length servers)"
    "int (length servers) - k \<le> int (length answers)"
  shows "(\<exists>v r. sk_Clerk_attempts servers old new answers = Returned v \<and> Some r \<in> set answers \<and>
      (sp_Err r = SkOK \<or> sp_Err r = SkErrNoKey) \<and> v = sp_Value r) \<or>
    sk_Clerk_attempts servers old new answers = Broke"
  using assms(3-6)
proof (induction answers arbitrary: new k)
  case (Cons a answers)
  let ?n = "int (length servers)"
  have n: "0 < ?n" using assms(1,2) by linarith
  have idx: "go_index servers new \<noteq> None" using n Cons.prems(1) by (simp add: go_index_def)
  have nxt: "(new + 1) mod ?n = (old + (k + 1)) mod ?n" using Cons.prems(1) by (simp add: mod_simps add.assoc)
  show ?case
  proof (cases "(new + 1) mod ?n = old")
    case True
    then show ?thesis using idx by (auto simp: Let_def split: option.splits)
  next
    case False
    have "k + 1 \<noteq> ?n"
    proof
      assume "k + 1 = ?n"
      then have "(new + 1) mod ?n = old" using nxt assms(1,2) by simp
      then show False using False by simp
    qed
    then have IH: "(\<exists>v r. sk_Clerk_attempts servers old ((new + 1) mod ?n) answers = Returned v \<and> Some r \<in> set answers \<and>
        (sp_Err r = SkOK \<or> sp_Err r = SkErrNoKey) \<and> v = sp_Value r) \<or>
        sk_Clerk_attempts servers old ((new + 1) mod ?n) answers = Broke"
      using Cons.IH [OF nxt] Cons.prems by simp
    show ?thesis using IH idx False by (auto simp: Let_def split: option.splits)
  qed
qed simp

section \<open>Properties\<close>

text \<open>C6: a repeated update is not executed again.  When a group has applied an update of a client, whether it handed it
  to its shards or had executed it before, then after any further entries that the written code handles by
  itself (arriving and discarded shards, repeated operations, operations on shards that are not served,
  outdated configurations), the same update, or an older one of the client, is not handed to the shards, whatever the
  methods do that are not written; the log entry leaves the server as it is, and the request handler answers
  at once with the remembered response, which is that of the update unless a later one of the client came with
  a shard.\<close>

theorem shard_at_most_once:
  assumes "applyOperation ms op kv = Some (kv1, r)" "canServe (key2shard (sr_Key op)) kv = Some True" "sr_Op op \<noteq> SkOpGet"
    "quiet_run ms cs kv1 = Some kv2"
    "sr_ClientId op' = sr_ClientId op" "sr_CommandId op' \<le> sr_CommandId op" "sr_Op op' \<noteq> SkOpGet"
  shows "\<exists>ctx. mr_get (sk_lastOperations kv2) (sr_ClientId op) = Some ctx \<and> sr_CommandId op \<le> sx_MaxAppliedCommandId ctx \<and>
    (sx_MaxAppliedCommandId ctx = sr_CommandId op \<longrightarrow> sx_LastResponse ctx = r) \<and>
    sk_Command_check op' kv2 = Some (Some \<lparr>sp_Err = sp_Err (sx_LastResponse ctx), sp_Value = sp_Value (sx_LastResponse ctx)\<rparr>) \<and>
    \<not> calls_missing (NewOperationCommand op') kv2 \<and>
    (\<forall>ms' kv3 r'. applyOperation ms' op' kv2 = Some (kv3, r') \<longrightarrow> kv3 = kv2 \<and>
       r' \<in> {sx_LastResponse ctx, \<lparr>sp_Err = SkErrWrongGroup, sp_Value = []\<rparr>})"
proof -
  obtain ctx1 where c1: "mr_get (sk_lastOperations kv1) (sr_ClientId op) = Some ctx1"
    "sr_CommandId op \<le> sx_MaxAppliedCommandId ctx1" "sx_LastResponse ctx1 = r"
    using assms(1-3)
    by (auto simp: applyOperation_def sk_isDuplicateRequest_def bind_Some_iff mr_set_eq_Some Let_def split: if_splits option.splits)
  obtain ctx where c: "mr_get (sk_lastOperations kv2) (sr_ClientId op) = Some ctx"
    "ctx = ctx1 \<or> sx_MaxAppliedCommandId ctx1 < sx_MaxAppliedCommandId ctx"
    by (rule lo_leE [OF quiet_run_sessions [OF assms(4)] c1(1)])
  have le: "sr_CommandId op \<le> sx_MaxAppliedCommandId ctx" and same: "sx_MaxAppliedCommandId ctx = sr_CommandId op \<longrightarrow> sx_LastResponse ctx = r"
    using c(2) c1(2,3) by auto
  have rem: "mr_get (sk_lastOperations kv2) (sr_ClientId op') = Some ctx" "sr_CommandId op' \<le> sx_MaxAppliedCommandId ctx"
    using c(1) le assms(5,6) by auto
  note q = remembered_not_executed [OF rem assms(7)]
  have "kv3 = kv2 \<and> r' \<in> {sx_LastResponse ctx, \<lparr>sp_Err = SkErrWrongGroup, sp_Value = []\<rparr>}"
    if "applyOperation ms' op' kv2 = Some (kv3, r')" for ms' kv3 r'
    using applyOperation_quiet [OF q(1) that] rem(1) by auto
  then show ?thesis using c(1) le same q by blast
qed

text \<open>C16: the hand-over of shards.  When a group whose session map exists (the constructor leaves it nil) applies shards it awaits of the
  current configuration, the entry is applied without a panic, each shard takes over the data that arrived and
  no other shard changes, in whatever order the map is visited; and what the previous owner had
  executed for a client is known to the new one: after any further entries that the written code handles by itself no update with such an
  id or an older one is handed to the shards.\<close>

theorem migration_hands_over:
  assumes "sor_ConfigNum info = cf_Num (sk_currentConfig kv)"
    "gm_wf (sor_Shards info)" "sk_lastOperations kv \<noteq> None"
    "\<forall>(i, d)\<in>set (sor_Shards info). gm_wf d \<and>
       (\<exists>s. mr_get (sk_stateMachine kv) i = Some s \<and> sh_Status s = Pulling \<and> sh_KV s \<noteq> None)"
  shows "\<exists>kv'. applyInsertShards info kv = Some (kv', \<lparr>sp_Err = SkOK, sp_Value = []\<rparr>) \<and>
    (\<forall>i. i \<notin> fst ` set (sor_Shards info) \<longrightarrow> mr_get (sk_stateMachine kv') i = mr_get (sk_stateMachine kv) i) \<and>
    (\<forall>i s d. (i, d) \<in> set (sor_Shards info) \<and> mr_get (sk_stateMachine kv) i = Some s \<longrightarrow>
       (\<exists>s'. mr_get (sk_stateMachine kv') i = Some s' \<and> sh_Status s' = GCing \<and>
          mr_get (sh_KV s') = mr_get (sh_KV s) ++ map_of d)) \<and>
    (\<forall>x ctx op ms cs kv2. (x, ctx) \<in> set (sor_LastOperations info) \<and> quiet_run ms cs kv' = Some kv2 \<and>
       sr_ClientId op = x \<and> sr_CommandId op \<le> sx_MaxAppliedCommandId ctx \<and> sr_Op op \<noteq> SkOpGet \<longrightarrow>
       \<not> calls_missing (NewOperationCommand op) kv2)"
proof -
  obtain sm where sm: "insertLoop (sor_Shards info) (sk_stateMachine kv) = Some sm"
      "\<forall>i. i \<notin> fst ` set (sor_Shards info) \<longrightarrow> mr_get sm i = mr_get (sk_stateMachine kv) i"
      "\<forall>i s d. (i, d) \<in> set (sor_Shards info) \<and> mr_get (sk_stateMachine kv) i = Some s \<longrightarrow>
         (\<exists>s'. mr_get sm i = Some s' \<and> sh_Status s' = GCing \<and> mr_get (sh_KV s') = mr_get (sh_KV s) ++ map_of d)"
    using insertLoop_all [OF assms(2,4)] by blast
  obtain lo where lo: "mergeOperations (sor_LastOperations info) (sk_lastOperations kv) = Some lo"
    using mergeOperations_total [OF assms(3)] by blast
  define kv' where "kv' = kv\<lparr>sk_stateMachine := sm, sk_lastOperations := lo\<rparr>"
  have "applyInsertShards info kv = Some (kv', \<lparr>sp_Err = SkOK, sp_Value = []\<rparr>)"
    using assms(1) sm(1) lo by (simp add: applyInsertShards_def kv'_def)
  moreover have "\<not> calls_missing (NewOperationCommand op) kv2"
    if in_info: "(sr_ClientId op, ctx) \<in> set (sor_LastOperations info)" and run: "quiet_run ms cs kv' = Some kv2"
      and op: "sr_CommandId op \<le> sx_MaxAppliedCommandId ctx" "sr_Op op \<noteq> SkOpGet" for ms cs op ctx kv2
  proof -
    obtain ctx1 where c1: "mr_get lo (sr_ClientId op) = Some ctx1" "sx_MaxAppliedCommandId ctx \<le> sx_MaxAppliedCommandId ctx1"
      using mergeOperations_le [OF lo] in_info by blast
    have "mr_get (sk_lastOperations kv') (sr_ClientId op) = Some ctx1" using c1(1) by (simp add: kv'_def)
    then obtain ctx2 where "mr_get (sk_lastOperations kv2) (sr_ClientId op) = Some ctx2"
      "ctx2 = ctx1 \<or> sx_MaxAppliedCommandId ctx1 < sx_MaxAppliedCommandId ctx2"
      by (rule lo_leE [OF quiet_run_sessions [OF run]])
    then show ?thesis using c1(2) op by (intro remembered_not_executed(1) [of kv2 op ctx2]) auto
  qed
  ultimately show ?thesis using sm(2,3) by (intro exI [of _ kv'] conjI) (auto simp: kv'_def)
qed

text \<open>C17: the life of a shard.  An entry that the written code handles by itself changes a shard in one of three ways: the
  arrival of its data ends the waiting; the acknowledgement that its old owner has discarded it makes it an
  ordinary shard; and the old owner discards it.  An operation on a shard that is awaited or
  given away, or that belongs to another group, is such an entry: it changes nothing and is answered
  \<^verbatim>\<open>ErrWrongGroup\<close>.\<close>

theorem shard_lifecycle:
  assumes "applyEntry ms c kv = Some (kv', r)" "\<not> calls_missing c kv"
    "\<forall>info. sc_Data c = DataShards info \<longrightarrow> (\<forall>(j, d)\<in>set (sor_Shards info). gm_wf d)"
    "mr_get (sk_stateMachine kv) i = Some s"
  shows "(\<exists>s'. mr_get (sk_stateMachine kv') i = Some s' \<and>
    (s' = s \<or>
     (\<exists>info. c = NewInsertShardsCommand info \<and> sor_ConfigNum info = cf_Num (sk_currentConfig kv) \<and>
        inserted (sor_Shards info) i s s') \<or>
     (\<exists>req. c = NewDeleteShardsCommand req \<and> so_ConfigNum req = cf_Num (sk_currentConfig kv) \<and> i \<in> set (so_ShardIDs req) \<and>
        (sh_Status s = GCing \<and> s' = s\<lparr>sh_Status := Serving\<rparr> \<or> sh_Status s = BePulling \<and> s' = NewShard)))) \<and>
    (\<forall>op owner. key2shard (sr_Key op) = i \<and> go_index (cf_Shards (sk_currentConfig kv)) i = Some owner \<and>
       (owner \<noteq> sk_gid kv \<or> sh_Status s \<notin> {Serving, GCing}) \<longrightarrow>
       \<not> calls_missing (NewOperationCommand op) kv \<and>
       applyEntry ms (NewOperationCommand op) kv = Some (kv, Some \<lparr>sp_Err = SkErrWrongGroup, sp_Value = []\<rparr>))"
proof
  show "\<exists>s'. mr_get (sk_stateMachine kv') i = Some s' \<and>
    (s' = s \<or>
     (\<exists>info. c = NewInsertShardsCommand info \<and> sor_ConfigNum info = cf_Num (sk_currentConfig kv) \<and>
        inserted (sor_Shards info) i s s') \<or>
     (\<exists>req. c = NewDeleteShardsCommand req \<and> so_ConfigNum req = cf_Num (sk_currentConfig kv) \<and> i \<in> set (so_ShardIDs req) \<and>
        (sh_Status s = GCing \<and> s' = s\<lparr>sh_Status := Serving\<rparr> \<or> sh_Status s = BePulling \<and> s' = NewShard)))"
    using assms(1)
  proof (cases rule: applyEntry_cases)
    case (operation op rr)
    then show ?thesis using applyOperation_quiet [of op kv ms kv' rr] assms(2,4) by simp
  next
    case (configuration cf rr)
    then show ?thesis using assms(2,4)
      by (auto simp: applyConfiguration_def calls_missing_def NewConfigurationCommand_def split: if_splits)
  next
    case (insert info rr)
    show ?thesis
    proof (cases "sor_ConfigNum info = cf_Num (sk_currentConfig kv)")
      case True
      have wf: "\<forall>(j, d)\<in>set (sor_Shards info). gm_wf d" using assms(3) insert(1) by (simp add: NewInsertShardsCommand_def)
      obtain sm where "insertLoop (sor_Shards info) (sk_stateMachine kv) = Some sm" "sk_stateMachine kv' = sm"
        using insert(2) True by (auto simp: applyInsertShards_def bind_Some_iff)
      then show ?thesis using insertLoop_shard [OF _ wf assms(4)] insert(1) True by blast
    qed (use insert assms(4) in \<open>auto simp: applyInsertShards_def\<close>)
  next
    case (delete info rr)
    show ?thesis
    proof (cases "so_ConfigNum info = cf_Num (sk_currentConfig kv)")
      case True
      obtain sm where "deleteLoop (so_ShardIDs info) (sk_stateMachine kv) = Some sm" "sk_stateMachine kv' = sm"
        using delete(2) True by (auto simp: applyDeleteShards_def bind_Some_iff)
      then show ?thesis using deleteLoop_shard [OF _ assms(4)] delete(1) True by blast
    qed (use delete assms(4) in \<open>auto simp: applyDeleteShards_def\<close>)
  next
    case other
    then show ?thesis using assms(4) by simp
  qed
  show "\<forall>(op :: SkRequest) owner. key2shard (sr_Key op) = i \<and> go_index (cf_Shards (sk_currentConfig kv)) i = Some owner \<and>
       (owner \<noteq> sk_gid kv \<or> sh_Status s \<notin> {Serving, GCing}) \<longrightarrow>
       \<not> calls_missing (NewOperationCommand op) kv \<and>
       applyEntry ms (NewOperationCommand op) kv = Some (kv, Some \<lparr>sp_Err = SkErrWrongGroup, sp_Value = []\<rparr>)"
  proof (intro allI impI)
    fix op :: SkRequest and owner
    assume a: "key2shard (sr_Key op) = i \<and> go_index (cf_Shards (sk_currentConfig kv)) i = Some owner \<and>
       (owner \<noteq> sk_gid kv \<or> sh_Status s \<notin> {Serving, GCing})"
    then have "canServe (key2shard (sr_Key op)) kv = Some False" using assms(4) by (auto simp: canServe_def)
    then show "\<not> calls_missing (NewOperationCommand op) kv \<and>
       applyEntry ms (NewOperationCommand op) kv = Some (kv, Some \<lparr>sp_Err = SkErrWrongGroup, sp_Value = []\<rparr>)"
      by (simp add: calls_missing_def applyEntry_def NewOperationCommand_def applyOperation_def)
  qed
qed

text \<open>C40: a lost update.  A server that does not serve the shard of a \<^verbatim>\<open>Put\<close> that is no repetition answers \<^verbatim>\<open>ErrNoKey\<close> without
  proposing anything, and the clerk takes this answer for success.  Whatever server of the group it starts from
  (its leader map not being nil) and however many of the other servers have failed or refused before, it
  returns as from a \<^verbatim>\<open>Put\<close> that was executed, and its next request has the next id.\<close>

theorem put_lost:
  assumes "canServe (key2shard key) kv = Some False" "\<not> sk_isDuplicateRequest (sck_clientId ck) (sck_commandId ck) kv"
    "go_index (cf_Shards (sck_config ck)) (key2shard key) = Some gid"
    "map_of (cf_Groups (sck_config ck)) gid = Some servers" "sck_leaderIds ck = Some ids"
    "0 \<le> (case ids gid of None \<Rightarrow> 0 | Some l \<Rightarrow> l)" "(case ids gid of None \<Rightarrow> 0 | Some l \<Rightarrow> l) < int (length servers)"
    "length bad < length servers" "\<forall>a\<in>set bad. sk_retry a"
  shows "\<exists>resp ck'. sk_Command_check \<lparr>sr_Key = key, sr_Value = value, sr_Op = SkOpPut,
        sr_ClientId = sck_clientId ck, sr_CommandId = sck_commandId ck\<rparr> kv = Some (Some resp) \<and> sp_Err resp = SkErrNoKey \<and>
      sk_Clerk_Put key value ((bad @ Some resp # rest, queries) # rounds) ck = Returned (ck', []) \<and>
      sck_commandId ck' = sck_commandId ck + 1 \<and> sck_config ck' = sck_config ck"
proof -
  let ?resp = "\<lparr>sp_Err = SkErrNoKey, sp_Value = []\<rparr>" and ?old = "case ids gid of None \<Rightarrow> 0 | Some l \<Rightarrow> l"
  have check: "sk_Command_check \<lparr>sr_Key = key, sr_Value = value, sr_Op = SkOpPut,
        sr_ClientId = sck_clientId ck, sr_CommandId = sck_commandId ck\<rparr> kv = Some (Some ?resp)"
    using assms(1,2) by (simp add: sk_Command_check_def)
  have att: "sk_Clerk_attempts servers ?old ?old (bad @ Some ?resp # rest) = Returned []"
    using attempts_answered [of ?old servers ?old 0 bad ?resp rest] assms(6-9) by simp
  define ck1 where "ck1 = (case ids gid of None \<Rightarrow> ck\<lparr>sck_leaderIds := Some (ids(gid \<mapsto> 0))\<rparr> | Some _ \<Rightarrow> ck)"
  have ck1: "(case mr_get (sck_leaderIds ck) gid of
        None \<Rightarrow> map_option (\<lambda>m. ck\<lparr>sck_leaderIds := m\<rparr>) (mr_set (sck_leaderIds ck) gid 0) | Some _ \<Rightarrow> Some ck) = Some ck1"
    "(case mr_get (sck_leaderIds ck1) gid of None \<Rightarrow> 0 | Some l \<Rightarrow> l) = ?old"
    using assms(5) by (auto simp: ck1_def split: option.splits)
  have "sk_Clerk_Put key value ((bad @ Some ?resp # rest, queries) # rounds) ck = Returned (ck1\<lparr>sck_commandId := sck_commandId ck1 + 1\<rparr>, [])"
    unfolding sk_Clerk_Put_def sk_Clerk_Command_def sk_newRequest_def sk_Clerk_loop.simps Let_def
    using assms(3,4) ck1 att by simp
  moreover have "sck_commandId ck1 = sck_commandId ck" "sck_config ck1 = sck_config ck" by (simp_all add: ck1_def split: option.splits)
  ultimately show ?thesis using check by fastforce
qed

text \<open>A round of the clerk ends.  However the servers of a group answer, after at most as many attempts as the
  group has servers the inner loop has either returned the value of a server that accepted the
  request or given up on the group; no attempt reads outside the list of servers.\<close>

theorem clerk_round_ends:
  assumes "0 \<le> old" "old < int (length servers)" "length servers \<le> length answers"
  shows "(\<exists>v r. sk_Clerk_attempts servers old old answers = Returned v \<and> Some r \<in> set answers \<and>
      (sp_Err r = SkOK \<or> sp_Err r = SkErrNoKey) \<and> v = sp_Value r) \<or>
    sk_Clerk_attempts servers old old answers = Broke"
  by (rule attempts_end [where k = 0]) (use assms in auto)

text \<open>Installing a snapshot sets the index of the last applied command to the message's command index, which is 0 in
  the message that \<^verbatim>\<open>InstallSnapshot\<close> sends, while Raft's commit index jumps to the snapshot: the filter
  against outdated messages no longer rejects the commands that the snapshot contains.\<close>

theorem snapshot_resets_lastApplied:
  assumes "InstallSnapshot req rf = Some (rf1, reply, eff)" "GoApplySend msg \<in> set eff"
    "commitIndex (sk_rf kv) < is_LastIncludedIndex req" "sk_applier ms cap msg kv = Some kv'"
  shows "sk_lastApplied kv' = 0 \<and> (\<exists>rf'. CondInstallSnapshot cap (am_SnapshotTerm msg) (am_SnapshotIndex msg)
      (am_Snapshot msg) (sk_rf kv) = Some (rf', True) \<and> commitIndex rf' = is_LastIncludedIndex req)"
proof -
  have m: "am_CommandValid msg = False" "am_SnapshotValid msg" "am_CommandIndex msg = 0"
      "am_SnapshotIndex msg = is_LastIncludedIndex req"
    using assms(1,2) by (auto simp: InstallSnapshot_def bind_Some_iff Let_def split: if_splits)
  obtain rf' b where k: "CondInstallSnapshot cap (am_SnapshotTerm msg) (is_LastIncludedIndex req) (am_Snapshot msg) (sk_rf kv) = Some (rf', b)"
    using assms(4) m by (auto simp: sk_applier_def bind_Some_iff)
  have b: "b" "commitIndex rf' = is_LastIncludedIndex req"
    using k assms(3) by (auto simp: CondInstallSnapshot_def bind_Some_iff Let_def split: if_splits)
  obtain kv2 where kv2: "m_restoreSnapshot ms (am_Snapshot msg) (kv\<lparr>sk_rf := rf'\<rparr>) = Some kv2" "kv' = kv2\<lparr>sk_lastApplied := 0\<rparr>"
    using assms(4) m k b(1) by (auto simp: sk_applier_def bind_Some_iff)
  then show ?thesis using k b m(4) by simp
qed

text \<open>Replicas can diverge on arriving shards.  The loop over the map of arriving shards stops at the first one that is not
  awaited, so what the entry does depends on the order in which the map is visited: here shard 1 is
  awaited and shard 2 is not, and shard 1 is taken over in one order and not in the other.\<close>

theorem insert_order_matters:
  "let sm = Some [1 \<mapsto> NewShard\<lparr>sh_Status := Pulling\<rparr>, 2 \<mapsto> NewShard];
       a = [(1, [(''k'', ''v'')]), (2, [])]; b = [(2, []), (1, [(''k'', ''v'')])]
   in gm_eq a b \<and> map_option sh_Status (mr_get (the (insertLoop a sm)) 1) = Some GCing \<and>
      map_option sh_Status (mr_get (the (insertLoop b sm)) 1) = Some Pulling"
  by (simp add: gm_eq_def NewShard_def status_defs fun_eq_iff)

section \<open>Witnesses\<close>

text \<open>An implementation of the missing methods on the operations of \<^verbatim>\<open>Shard\<close>.\<close>

definition demo_applyLog :: "SkRequest \<Rightarrow> int \<Rightarrow> unit ShardKV \<Rightarrow> (unit ShardKV \<times> SkResponse) option" where
  "demo_applyLog op sid kv = do {
     shard \<leftarrow> mr_get (sk_stateMachine kv) sid;
     (shard1, resp) \<leftarrow>
       (if sr_Op op = SkOpPut then map_option (\<lambda>(s, e). (s, \<lparr>sp_Err = e, sp_Value = []\<rparr>)) (Shard_Put (sr_Key op) (sr_Value op) shard)
        else if sr_Op op = SkOpAppend then map_option (\<lambda>(s, e). (s, \<lparr>sp_Err = e, sp_Value = []\<rparr>)) (Shard_Append (sr_Key op) (sr_Value op) shard)
        else Some (shard, case Shard_Get (sr_Key op) shard of (v, e) \<Rightarrow> \<lparr>sp_Err = e, sp_Value = v\<rparr>));
     sm \<leftarrow> mr_set (sk_stateMachine kv) sid shard1;
     Some (kv\<lparr>sk_stateMachine := sm\<rparr>, resp)
   }"

definition demo_methods :: "unit methods" where
  "demo_methods = \<lparr>m_applyLogToStateMachines = demo_applyLog, m_updateShardStatus = (\<lambda>_ kv. Some kv),
     m_needSnapshot = (\<lambda>_. False), m_takeSnapshot = (\<lambda>_ kv. Some kv), m_restoreSnapshot = (\<lambda>_ kv. Some kv)\<rparr>"

definition demo_group :: "unit ShardKV" where
  "demo_group = \<lparr>sk_me = 0, sk_rf = the (Make 3 0 MakePersister), sk_gid = 1, sk_maxRaftState = -1, sk_dead = False,
     sk_lastApplied = 0, sk_lastConfig = zeroConfig,
     sk_currentConfig = \<lparr>cf_Num = 1, cf_Shards = replicate 9 1 @ [2], cf_Groups = [(1, [''a'']), (2, [''b''])]\<rparr>,
     sk_stateMachine = Some [7 \<mapsto> NewShard, 8 \<mapsto> NewShard\<lparr>sh_Status := Pulling\<rparr>],
     sk_lastOperations = Some Map.empty, sk_notifyChans = Some Map.empty, sk_chans = []\<rparr>"

definition demo_put :: "int \<Rightarrow> SkRequest" where
  "demo_put n = \<lparr>sr_Key = ''a'', sr_Value = ''x'', sr_Op = SkOpPut, sr_ClientId = 5, sr_CommandId = n\<rparr>"

definition demo_arrival :: ShardOperationResponse where
  "demo_arrival = \<lparr>sor_Err = SkOK, sor_ConfigNum = 1, sor_Shards = [(8, [(''b'', ''y'')])],
     sor_LastOperations = [(5, \<lparr>sx_MaxAppliedCommandId = 3, sx_LastResponse = \<lparr>sp_Err = SkOK, sp_Value = []\<rparr>\<rparr>)]\<rparr>"

theorem shard_at_most_once_witness:
  "\<exists>kv1 r kv2. applyOperation demo_methods (demo_put 1) demo_group = Some (kv1, r) \<and>
     quiet_run demo_methods [NewOperationCommand (demo_put 0), NewInsertShardsCommand demo_arrival] kv1 = Some kv2 \<and>
     \<not> calls_missing (NewOperationCommand (demo_put 1)) kv2"
proof -
  have "applyOperation demo_methods (demo_put 1) demo_group \<noteq> None" by code_simp
  then obtain kv1 r where a: "applyOperation demo_methods (demo_put 1) demo_group = Some (kv1, r)" by auto
  have "quiet_run demo_methods [NewOperationCommand (demo_put 0), NewInsertShardsCommand demo_arrival]
      (fst (the (applyOperation demo_methods (demo_put 1) demo_group))) \<noteq> None" by code_simp
  then obtain kv2 where q: "quiet_run demo_methods [NewOperationCommand (demo_put 0), NewInsertShardsCommand demo_arrival] kv1 = Some kv2"
    using a by auto
  have "canServe (key2shard (sr_Key (demo_put 1))) demo_group = Some True" "sr_Op (demo_put 1) \<noteq> SkOpGet" by code_simp+
  from shard_at_most_once [OF a this q, of "demo_put 1"] this(2) a q show ?thesis by blast
qed

theorem migration_hands_over_witness:
  "\<exists>kv'. applyInsertShards demo_arrival demo_group = Some (kv', \<lparr>sp_Err = SkOK, sp_Value = []\<rparr>) \<and>
     map_option sh_Status (mr_get (sk_stateMachine kv') 8) = Some GCing"
proof -
  have "\<exists>kv'. applyInsertShards demo_arrival demo_group = Some (kv', \<lparr>sp_Err = SkOK, sp_Value = []\<rparr>) \<and>
    (\<forall>i s d. (i, d) \<in> set (sor_Shards demo_arrival) \<and> mr_get (sk_stateMachine demo_group) i = Some s \<longrightarrow>
       (\<exists>s'. mr_get (sk_stateMachine kv') i = Some s' \<and> sh_Status s' = GCing))"
    using migration_hands_over [of demo_arrival demo_group]
    by (fastforce simp: demo_arrival_def demo_group_def NewShard_def)
  then show ?thesis by (fastforce simp: demo_arrival_def demo_group_def)
qed

theorem shard_lifecycle_witness:
  "\<exists>kv' r s'. applyEntry demo_methods (NewInsertShardsCommand demo_arrival) demo_group = Some (kv', r) \<and>
     mr_get (sk_stateMachine kv') 7 = Some s' \<and> s' = NewShard"
proof -
  let ?c = "NewInsertShardsCommand demo_arrival"
  have "applyEntry demo_methods ?c demo_group \<noteq> None" by code_simp
  then obtain kv' r where a: "applyEntry demo_methods ?c demo_group = Some (kv', r)" by auto
  have q: "\<not> calls_missing ?c demo_group" by (simp add: calls_missing_def NewInsertShardsCommand_def)
  have w: "\<forall>info. sc_Data ?c = DataShards info \<longrightarrow> (\<forall>(j, d)\<in>set (sor_Shards info). gm_wf d)"
    by (simp add: NewInsertShardsCommand_def demo_arrival_def)
  have "mr_get (sk_stateMachine demo_group) 7 = Some NewShard" by (simp add: demo_group_def)
  from shard_lifecycle [OF a q w this] a show ?thesis
    by (auto simp: NewInsertShardsCommand_def NewDeleteShardsCommand_def inserted_def NewShard_def status_defs command_defs)
qed

definition demo_clerk :: SkClerk where
  "demo_clerk = \<lparr>sck_sm = ctrl_MakeClerk 3 9, sck_config = \<lparr>cf_Num = 0, cf_Shards = replicate 10 1, cf_Groups = [(1, [''a'', ''b''])]\<rparr>,
     sck_leaderIds = Some Map.empty, sck_clientId = 5, sck_commandId = 0\<rparr>"

theorem put_lost_witness:
  "\<exists>resp ck'. sk_Clerk_Put ''c'' ''x'' [([None, Some resp], [])] demo_clerk = Returned (ck', []) \<and>
     sp_Err resp = SkErrNoKey \<and> sck_commandId ck' = 1"
proof -
  have d: "canServe (key2shard ''c'') demo_group = Some False" "\<not> sk_isDuplicateRequest (sck_clientId demo_clerk) (sck_commandId demo_clerk) demo_group"
    "go_index (cf_Shards (sck_config demo_clerk)) (key2shard ''c'') = Some 1"
    "map_of (cf_Groups (sck_config demo_clerk)) 1 = Some [''a'', ''b'']" "sck_commandId demo_clerk = 0"
    by code_simp+
  have l: "sck_leaderIds demo_clerk = Some Map.empty" by (simp add: demo_clerk_def)
  show ?thesis
    using put_lost [OF d(1-4) l, of "[None]" "''x''" "[]" "[]" "[]"] d(5) by (auto simp: sk_retry_def)
qed

theorem clerk_round_ends_witness:
  "sk_Clerk_attempts [''a'', ''b'', ''c''] 1 1 [None, Some \<lparr>sp_Err = SkErrTimeout, sp_Value = []\<rparr>, None] = Broke"
  using clerk_round_ends [of 1 "[''a'', ''b'', ''c'']" "[None, Some \<lparr>sp_Err = SkErrTimeout, sp_Value = []\<rparr>, None]"]
  by (auto simp: sk_err_defs)

definition demo_snapshot_request :: "unit InstallSnapshotRequest" where
  "demo_snapshot_request = \<lparr>is_Term = 1, is_LeaderId = 1, is_LastIncludedIndex = 4, is_LastIncludedTerm = 1, is_Data = [()]\<rparr>"

definition demo_snapshot_msg :: "(SkCommand, unit) ApplyMsg" where
  "demo_snapshot_msg = \<lparr>am_CommandValid = False, am_Command = None, am_CommandTerm = 0, am_CommandIndex = 0,
     am_SnapshotValid = True, am_Snapshot = [()], am_SnapshotTerm = 1, am_SnapshotIndex = 4\<rparr>"

theorem snapshot_resets_lastApplied_witness:
  "\<exists>kv'. sk_applier demo_methods 0 demo_snapshot_msg (demo_group\<lparr>sk_lastApplied := 2\<rparr>) = Some kv' \<and> sk_lastApplied kv' = 0"
proof -
  have "InstallSnapshot demo_snapshot_request (sk_rf demo_group) \<noteq> None"
    "snd (snd (the (InstallSnapshot demo_snapshot_request (sk_rf demo_group)))) = [GoApplySend demo_snapshot_msg]"
    by code_simp+
  then obtain rf1 reply where i: "InstallSnapshot demo_snapshot_request (sk_rf demo_group) = Some (rf1, reply, [GoApplySend demo_snapshot_msg])"
    by auto
  have "sk_applier demo_methods 0 demo_snapshot_msg (demo_group\<lparr>sk_lastApplied := 2\<rparr>) \<noteq> None" by code_simp
  then obtain kv' where k: "sk_applier demo_methods 0 demo_snapshot_msg (demo_group\<lparr>sk_lastApplied := 2\<rparr>) = Some kv'" by auto
  have c: "commitIndex (sk_rf (demo_group\<lparr>sk_lastApplied := 2\<rparr>)) < is_LastIncludedIndex demo_snapshot_request" by code_simp
  show ?thesis
    using snapshot_resets_lastApplied [OF i _ c k] k by auto
qed

end
