(* ===== verification/MR_Job.thy ===== *)
theory MR_Job
  imports Go_Prelude "HOL-Library.Word" "HOL-Library.Char_ord" "HOL-Library.List_Lexorder"
begin

text \<open>
  MapReduce: \<^verbatim>\<open>src/src/mr/coordinator.go\<close>, \<^verbatim>\<open>worker.go\<close> and \<^verbatim>\<open>rpc.go\<close>, the sequential program
  \<^verbatim>\<open>src/src/main/mrsequential.go\<close> and applications of \<^verbatim>\<open>src/src/mrapps\<close>.

  The working directory is a map from names to contents.  A file holds text or the stream of records that
  the JSON encoder wrote; that decoding such a stream gives the records back is part of this
  representation.  \<^verbatim>\<open>os.Create\<close> and writing succeed.  \<open>None\<close> is a panic or \<^verbatim>\<open>log.Fatalf\<close>.
  \<^verbatim>\<open>sort.Sort\<close> is not stable, so the sort is an argument \<open>sortf\<close>: some function that returns a
  permutation sorted by key.  The clock is an argument too.
\<close>

unbundle bit_operations_syntax

section \<open>Keys, values and files\<close>

record KeyValue =
  kvp_Key :: string
  kvp_Value :: string

datatype content = FileText string | FileRecords "KeyValue list"

type_synonym files = "string \<rightharpoonup> content"

text \<open>\<^verbatim>\<open>ByKey\<close>: the contract of \<^verbatim>\<open>sort.Sort(ByKey(kvs))\<close>.\<close>

definition ByKey_Less :: "KeyValue \<Rightarrow> KeyValue \<Rightarrow> bool" where
  "ByKey_Less a b \<longleftrightarrow> kvp_Key a < kvp_Key b"

definition sorts :: "(KeyValue list \<Rightarrow> KeyValue list) \<Rightarrow> bool" where
  "sorts sortf \<longleftrightarrow> (\<forall>kvs. mset (sortf kvs) = mset kvs \<and> sorted_wrt (\<lambda>a b. \<not> ByKey_Less b a) (sortf kvs))"

section \<open>The coordinator\<close>

record MapperTask =
  mt_Index :: int
  mt_Assigned :: bool
  mt_AssignedTime :: int
  mt_IsFinished :: bool
  mt_Inputfile :: string
  mt_ReducerCount :: int
  mt_timeoutTimer :: "bool option"

record ReducerTask =
  rt_Index :: int
  rt_Assigned :: bool
  rt_AssignedTime :: int
  rt_IsFinished :: bool
  rt_MapperCount :: int
  rt_timeoutTimer :: "bool option"

text \<open>A timer is nil, running (\<open>Some True\<close>) or over.\<close>

record Coordinator =
  MapperFinished :: bool
  ReducerFinished :: bool
  Mappers :: "MapperTask list"
  Reducers :: "ReducerTask list"

record FetchTaskResponse =
  AllFinished :: bool
  ft_MapperTask :: "MapperTask option"
  ft_ReducerTask :: "ReducerTask option"

record UpdateTaskRequest =
  ut_MapperTask :: "MapperTask option"
  ut_ReducerTask :: "ReducerTask option"

definition makeMapTask :: "int \<Rightarrow> MapperTask \<Rightarrow> MapperTask" where
  "makeMapTask now mapper = mapper\<lparr>mt_Assigned := True, mt_AssignedTime := now, mt_timeoutTimer := Some True\<rparr>"

definition makeReduceTask :: "int \<Rightarrow> ReducerTask \<Rightarrow> ReducerTask" where
  "makeReduceTask now reducer = reducer\<lparr>rt_Assigned := True, rt_AssignedTime := now, rt_timeoutTimer := Some True\<rparr>"

fun fetchMapper :: "int \<Rightarrow> MapperTask list \<Rightarrow> MapperTask list \<times> MapperTask option" where
  "fetchMapper now [] = ([], None)"
| "fetchMapper now (mapper # ms) =
     (if mt_Assigned mapper \<or> mt_IsFinished mapper
      then (let (ms', r) = fetchMapper now ms in (mapper # ms', r))
      else (makeMapTask now mapper # ms, Some (makeMapTask now mapper)))"

fun fetchReducer :: "int \<Rightarrow> ReducerTask list \<Rightarrow> ReducerTask list \<times> ReducerTask option" where
  "fetchReducer now [] = ([], None)"
| "fetchReducer now (reducer # rs) =
     (if rt_Assigned reducer \<or> rt_IsFinished reducer
      then (let (rs', r) = fetchReducer now rs in (reducer # rs', r))
      else (makeReduceTask now reducer # rs, Some (makeReduceTask now reducer)))"

definition FetchTask :: "int \<Rightarrow> Coordinator \<Rightarrow> Coordinator \<times> FetchTaskResponse" where
  "FetchTask now c =
     (if \<not> MapperFinished c then
        (let (ms, r) = fetchMapper now (Mappers c)
         in (c\<lparr>Mappers := ms\<rparr>, \<lparr>AllFinished = False, ft_MapperTask = r, ft_ReducerTask = None\<rparr>))
      else if \<not> ReducerFinished c then
        (let (rs, r) = fetchReducer now (Reducers c)
         in (c\<lparr>Reducers := rs\<rparr>, \<lparr>AllFinished = False, ft_MapperTask = None, ft_ReducerTask = r\<rparr>))
      else (c, \<lparr>AllFinished = True, ft_MapperTask = None, ft_ReducerTask = None\<rparr>))"

definition mapperTimeoutFun :: "int \<Rightarrow> Coordinator \<Rightarrow> Coordinator option" where
  "mapperTimeoutFun index c = do {
     mapper \<leftarrow> go_index (Mappers c) index;
     if \<not> mt_IsFinished mapper
     then Some (c\<lparr>Mappers := (Mappers c)[nat index := mapper\<lparr>mt_Assigned := False\<rparr>]\<rparr>)
     else Some c
   }"

definition reducerTimeoutFun :: "int \<Rightarrow> Coordinator \<Rightarrow> Coordinator option" where
  "reducerTimeoutFun index c = do {
     reducer \<leftarrow> go_index (Reducers c) index;
     if \<not> rt_IsFinished reducer
     then Some (c\<lparr>Reducers := (Reducers c)[nat index := reducer\<lparr>rt_Assigned := False\<rparr>]\<rparr>)
     else Some c
   }"

text \<open>Stopping a nil timer panics.\<close>

definition finishMapper :: "MapperTask \<Rightarrow> MapperTask option" where
  "finishMapper mapper = do {
     let m1 = mapper\<lparr>mt_IsFinished := True\<rparr>;
     timer \<leftarrow> mt_timeoutTimer m1;
     Some (m1\<lparr>mt_timeoutTimer := Some False\<rparr>)
   }"

definition finishReducer :: "ReducerTask \<Rightarrow> ReducerTask option" where
  "finishReducer reducer = do {
     let r1 = reducer\<lparr>rt_IsFinished := True\<rparr>;
     timer \<leftarrow> rt_timeoutTimer r1;
     Some (r1\<lparr>rt_timeoutTimer := Some False\<rparr>)
   }"

fun updateMappers :: "int \<Rightarrow> MapperTask list \<Rightarrow> bool \<Rightarrow> (MapperTask list \<times> bool) option" where
  "updateMappers index [] finished = Some ([], finished)"
| "updateMappers index (mapper # ms) finished = do {
     m1 \<leftarrow> (if mt_Index mapper = index \<and> mt_Assigned mapper \<and> \<not> mt_IsFinished mapper
            then finishMapper mapper else Some mapper);
     (ms', f) \<leftarrow> updateMappers index ms (finished \<and> mt_IsFinished m1);
     Some (m1 # ms', f)
   }"

fun updateReducers :: "int \<Rightarrow> ReducerTask list \<Rightarrow> bool \<Rightarrow> (ReducerTask list \<times> bool) option" where
  "updateReducers index [] finished = Some ([], finished)"
| "updateReducers index (reducer # rs) finished = do {
     r1 \<leftarrow> (if rt_Index reducer = index \<and> rt_Assigned reducer \<and> \<not> rt_IsFinished reducer
            then finishReducer reducer else Some reducer);
     (rs', f) \<leftarrow> updateReducers index rs (finished \<and> rt_IsFinished r1);
     Some (r1 # rs', f)
   }"

definition UpdateTask :: "UpdateTaskRequest \<Rightarrow> Coordinator \<Rightarrow> Coordinator option" where
  "UpdateTask req c = do {
     c1 \<leftarrow> (case ut_MapperTask req of
              None \<Rightarrow> Some c
            | Some mapper \<Rightarrow> do {
                (ms, finished) \<leftarrow> updateMappers (mt_Index mapper) (Mappers c) True;
                Some (c\<lparr>Mappers := ms, MapperFinished := finished\<rparr>)
              });
     (case ut_ReducerTask req of
        None \<Rightarrow> Some c1
      | Some reducer \<Rightarrow> do {
          (rs, finished) \<leftarrow> updateReducers (rt_Index reducer) (Reducers c1) True;
          Some (c1\<lparr>Reducers := rs, ReducerFinished := finished\<rparr>)
        })
   }"

definition Coordinator_Done :: "Coordinator \<Rightarrow> bool" where
  "Coordinator_Done c \<longleftrightarrow> MapperFinished c \<and> ReducerFinished c"

definition MakeCoordinator :: "int \<Rightarrow> string list \<Rightarrow> int \<Rightarrow> Coordinator" where
  "MakeCoordinator now names nReduce =
     \<lparr>MapperFinished = False, ReducerFinished = False,
      Mappers = map (\<lambda>(i, file). \<lparr>mt_Index = int i, mt_Assigned = False, mt_AssignedTime = now, mt_IsFinished = False,
                       mt_Inputfile = file, mt_ReducerCount = nReduce, mt_timeoutTimer = None\<rparr>) (enumerate 0 names),
      Reducers = map (\<lambda>i. \<lparr>rt_Index = int i, rt_Assigned = False, rt_AssignedTime = now, rt_IsFinished = False,
                       rt_MapperCount = int (length names), rt_timeoutTimer = None\<rparr>) [0..<nat nReduce]\<rparr>"

section \<open>The worker\<close>

text \<open>FNV-1a with 32 bits, the top bit cleared.\<close>

definition fnv32a :: "string \<Rightarrow> 32 word" where
  "fnv32a key = fold (\<lambda>c h. (h XOR word_of_nat (of_char c)) * 16777619) key 2166136261"

definition ihash :: "string \<Rightarrow> int" where
  "ihash key = uint (fnv32a key AND 0x7fffffff)"

text \<open>The distribution of the records over the reducers; a division by zero panics.\<close>

fun shuffle :: "int \<Rightarrow> KeyValue list \<Rightarrow> KeyValue list list \<Rightarrow> KeyValue list list option" where
  "shuffle n [] arr = Some arr"
| "shuffle n (kv # kva) arr = do {
     reduceNum \<leftarrow> (if n = 0 then None else Some (ihash (kvp_Key kv) mod n));
     kvs \<leftarrow> go_index arr reduceNum;
     arr1 \<leftarrow> go_store arr reduceNum (kvs @ [kv]);
     shuffle n kva arr1
   }"

definition mr_name :: "int \<Rightarrow> int \<Rightarrow> string" where
  "mr_name i j = ''mr-'' @ itoa i @ ''-'' @ itoa j"

definition out_name :: "int \<Rightarrow> string" where
  "out_name i = ''mr-out-'' @ itoa i"

text \<open>The partitions a mapper computes from its input.\<close>

definition mapperPartitions :: "(string \<Rightarrow> string \<Rightarrow> KeyValue list) \<Rightarrow> MapperTask \<Rightarrow> files \<Rightarrow> KeyValue list list option" where
  "mapperPartitions mapf mapper fs = do {
     file \<leftarrow> fs (mt_Inputfile mapper);
     content \<leftarrow> (case file of FileText s \<Rightarrow> Some s | FileRecords _ \<Rightarrow> None);
     let kva = mapf (mt_Inputfile mapper) content;
     arr \<leftarrow> (if mt_ReducerCount mapper < 0 then None else Some (replicate (nat (mt_ReducerCount mapper)) []));
     shuffle (mt_ReducerCount mapper) kva arr
   }"

text \<open>
  The calls on files.  An open file is known by the name under which it was created, which is right as long as nobody else creates or
  renames that name before it is closed; \<open>MR_System\<close> says so where it matters.
\<close>

definition os_Create :: "string \<Rightarrow> content \<Rightarrow> files \<Rightarrow> files" where
  "os_Create name blank fs = fs(name \<mapsto> blank)"

definition enc_Encode :: "string \<Rightarrow> KeyValue \<Rightarrow> files \<Rightarrow> files" where
  "enc_Encode name kv fs = (case fs name of Some (FileRecords kvs) \<Rightarrow> fs(name \<mapsto> FileRecords (kvs @ [kv])) | _ \<Rightarrow> fs)"

definition fmt_Fprintf :: "string \<Rightarrow> string \<Rightarrow> files \<Rightarrow> files" where
  "fmt_Fprintf name line fs = (case fs name of Some (FileText s) \<Rightarrow> fs(name \<mapsto> FileText (s @ line)) | _ \<Rightarrow> fs)"

text \<open>The error of \<^verbatim>\<open>os.Rename\<close> is not looked at.\<close>

definition os_Rename :: "string \<Rightarrow> string \<Rightarrow> files \<Rightarrow> files" where
  "os_Rename old new fs = (case fs old of None \<Rightarrow> fs | Some c \<Rightarrow> (fs(old := None))(new \<mapsto> c))"

text \<open>One intermediate file: sorted, written record by record under a temporary name, and renamed.\<close>

definition writePartition :: "(KeyValue list \<Rightarrow> KeyValue list) \<Rightarrow> int \<Rightarrow> nat \<Rightarrow> KeyValue list \<Rightarrow> files \<Rightarrow> files" where
  "writePartition sortf index i kvs fs =
     (let name = mr_name index (int i)
      in os_Rename (name @ ''.tmp'') name
           (fold (enc_Encode (name @ ''.tmp'')) (sortf kvs) (os_Create (name @ ''.tmp'') (FileRecords []) fs)))"

definition writePartitions :: "(KeyValue list \<Rightarrow> KeyValue list) \<Rightarrow> int \<Rightarrow> KeyValue list list \<Rightarrow> files \<Rightarrow> files" where
  "writePartitions sortf index arr fs = fold (\<lambda>(i, kvs). writePartition sortf index i kvs) (enumerate 0 arr) fs"

definition doMapperTask ::
    "(KeyValue list \<Rightarrow> KeyValue list) \<Rightarrow> (string \<Rightarrow> string \<Rightarrow> KeyValue list) \<Rightarrow> MapperTask \<Rightarrow> Coordinator \<times> files \<Rightarrow>
       (Coordinator \<times> files) option" where
  "doMapperTask sortf mapf mapper = (\<lambda>(c, fs). do {
     arr \<leftarrow> mapperPartitions mapf mapper fs;
     let fs1 = writePartitions sortf (mt_Index mapper) arr fs;
     c1 \<leftarrow> UpdateTask \<lparr>ut_MapperTask = Some mapper, ut_ReducerTask = None\<rparr> c;
     Some (c1, fs1)
   })"

fun readPartitions :: "int \<Rightarrow> nat list \<Rightarrow> files \<Rightarrow> KeyValue list option" where
  "readPartitions index [] fs = Some []"
| "readPartitions index (i # is) fs = do {
     file \<leftarrow> fs (mr_name (int i) index);
     kvs \<leftarrow> (case file of FileRecords kvs \<Rightarrow> Some kvs | FileText _ \<Rightarrow> None);
     rest \<leftarrow> readPartitions index is fs;
     Some (kvs @ rest)
   }"

text \<open>The loop over the groups of equal keys: \<open>j\<close> runs to the end of the group that starts at \<open>i\<close>.\<close>

fun groupEnd :: "string \<Rightarrow> KeyValue list \<Rightarrow> KeyValue list \<times> KeyValue list" where
  "groupEnd key [] = ([], [])"
| "groupEnd key (kv # kvs) =
     (if kvp_Key kv = key then (let (g, rest) = groupEnd key kvs in (kv # g, rest)) else ([], kv # kvs))"

lemma groupEnd_length [termination_simp]: "(g, rest) = groupEnd key kvs \<Longrightarrow> length rest \<le> length kvs"
  by (induction key kvs arbitrary: g rest rule: groupEnd.induct) (force split: if_splits prod.splits)+

definition outputLine :: "string \<Rightarrow> string \<Rightarrow> string" where
  "outputLine key output = key @ '' '' @ output @ [char_of (10 :: nat)]"

fun reduceGroups :: "(string \<Rightarrow> string list \<Rightarrow> string) \<Rightarrow> KeyValue list \<Rightarrow> string list" where
  "reduceGroups reducef [] = []"
| "reduceGroups reducef (kv # kvs) =
     (let (g, rest) = groupEnd (kvp_Key kv) kvs;
          values = map kvp_Value (kv # g);
          output = reducef (kvp_Key kv) values
      in outputLine (kvp_Key kv) output # reduceGroups reducef rest)"

definition writeOutput :: "int \<Rightarrow> string list \<Rightarrow> files \<Rightarrow> files" where
  "writeOutput index lines fs =
     (let name = out_name index
      in os_Rename (name @ ''.tmp'') name
           (fold (fmt_Fprintf (name @ ''.tmp'')) lines (os_Create (name @ ''.tmp'') (FileText []) fs)))"

text \<open>The lines a reducer writes.\<close>

definition reducerOutput ::
    "(KeyValue list \<Rightarrow> KeyValue list) \<Rightarrow> (string \<Rightarrow> string list \<Rightarrow> string) \<Rightarrow> ReducerTask \<Rightarrow> files \<Rightarrow> string list option" where
  "reducerOutput sortf reducef reducer fs = do {
     kvs \<leftarrow> readPartitions (rt_Index reducer) [0..<nat (rt_MapperCount reducer)] fs;
     Some (reduceGroups reducef (sortf kvs))
   }"

definition doReducerTask ::
    "(KeyValue list \<Rightarrow> KeyValue list) \<Rightarrow> (string \<Rightarrow> string list \<Rightarrow> string) \<Rightarrow> ReducerTask \<Rightarrow> Coordinator \<times> files \<Rightarrow>
       (Coordinator \<times> files) option" where
  "doReducerTask sortf reducef reducer = (\<lambda>(c, fs). do {
     lines \<leftarrow> reducerOutput sortf reducef reducer fs;
     let fs1 = writeOutput (rt_Index reducer) lines fs;
     c1 \<leftarrow> UpdateTask \<lparr>ut_MapperTask = None, ut_ReducerTask = Some reducer\<rparr> c;
     Some (c1, fs1)
   })"

text \<open>
  The loop of \<^verbatim>\<open>Worker\<close> when it is the only one: each turn is one call of \<^verbatim>\<open>FetchTask\<close> at the time \<open>now\<close>.  The list says for each
  turn whether the work takes more than ten seconds: then the coordinator's timer goes off before the report.  The
  outer option is a panic, the inner one a list that is too short.
\<close>

definition taskTimeout :: "FetchTaskResponse \<Rightarrow> Coordinator \<Rightarrow> Coordinator option" where
  "taskTimeout resp c = do {
     c1 \<leftarrow> (case ft_MapperTask resp of None \<Rightarrow> Some c | Some mapper \<Rightarrow> mapperTimeoutFun (mt_Index mapper) c);
     (case ft_ReducerTask resp of None \<Rightarrow> Some c1 | Some reducer \<Rightarrow> reducerTimeoutFun (rt_Index reducer) c1)
   }"

fun Worker ::
    "bool list \<Rightarrow> int \<Rightarrow> (KeyValue list \<Rightarrow> KeyValue list) \<Rightarrow> (string \<Rightarrow> string \<Rightarrow> KeyValue list) \<Rightarrow> (string \<Rightarrow> string list \<Rightarrow> string) \<Rightarrow>
       Coordinator \<times> files \<Rightarrow> (Coordinator \<times> files) option option" where
  "Worker [] now sortf mapf reducef s = Some None"
| "Worker (late # lates) now sortf mapf reducef (c, fs) =
     (let (c1, resp) = FetchTask now c in
      if AllFinished resp then Some (Some (c1, fs))
      else do {
        c2 \<leftarrow> (if late then taskTimeout resp c1 else Some c1);
        s1 \<leftarrow> (case ft_MapperTask resp of None \<Rightarrow> Some (c2, fs) | Some mapper \<Rightarrow> doMapperTask sortf mapf mapper (c2, fs));
        s2 \<leftarrow> (case ft_ReducerTask resp of None \<Rightarrow> Some s1 | Some reducer \<Rightarrow> doReducerTask sortf reducef reducer s1);
        Worker lates now sortf mapf reducef s2
      })"

section \<open>The sequential program\<close>

fun seqIntermediate :: "(string \<Rightarrow> string \<Rightarrow> KeyValue list) \<Rightarrow> string list \<Rightarrow> files \<Rightarrow> KeyValue list option" where
  "seqIntermediate mapf [] fs = Some []"
| "seqIntermediate mapf (name # names) fs = do {
     file \<leftarrow> fs name;
     content \<leftarrow> (case file of FileText s \<Rightarrow> Some s | FileRecords _ \<Rightarrow> None);
     rest \<leftarrow> seqIntermediate mapf names fs;
     Some (mapf name content @ rest)
   }"

definition mrsequential ::
    "(KeyValue list \<Rightarrow> KeyValue list) \<Rightarrow> (string \<Rightarrow> string \<Rightarrow> KeyValue list) \<Rightarrow> (string \<Rightarrow> string list \<Rightarrow> string) \<Rightarrow>
       string list \<Rightarrow> files \<Rightarrow> files option" where
  "mrsequential sortf mapf reducef names fs =
     (if names = [] then None
      else do {
        intermediate \<leftarrow> seqIntermediate mapf names fs;
        Some (fs(''mr-out-0'' \<mapsto> FileText (concat (reduceGroups reducef (sortf intermediate)))))
      })"

section \<open>Applications\<close>

text \<open>\<^verbatim>\<open>strings.FieldsFunc\<close>: the maximal runs of characters that are not separators.\<close>

fun fieldsLoop :: "(char \<Rightarrow> bool) \<Rightarrow> string \<Rightarrow> string \<Rightarrow> string list" where
  "fieldsLoop sep cur [] = (if cur = [] then [] else [cur])"
| "fieldsLoop sep cur (c # cs) =
     (if sep c then (if cur = [] then fieldsLoop sep [] cs else cur # fieldsLoop sep [] cs)
      else fieldsLoop sep (cur @ [c]) cs)"

definition FieldsFunc :: "string \<Rightarrow> (char \<Rightarrow> bool) \<Rightarrow> string list" where
  "FieldsFunc s sep = fieldsLoop sep [] s"

text \<open>\<open>isLetter\<close> is \<^verbatim>\<open>unicode.IsLetter\<close> on texts of one-byte characters.\<close>

definition isLetter :: "char \<Rightarrow> bool" where
  "isLetter c \<longleftrightarrow> (CHR ''A'' \<le> c \<and> c \<le> CHR ''Z'') \<or> (CHR ''a'' \<le> c \<and> c \<le> CHR ''z'')"

definition wc_Map :: "string \<Rightarrow> string \<Rightarrow> KeyValue list" where
  "wc_Map filename contents =
     map (\<lambda>w. \<lparr>kvp_Key = w, kvp_Value = ''1''\<rparr>) (FieldsFunc contents (\<lambda>r. \<not> isLetter r))"

definition wc_Reduce :: "string \<Rightarrow> string list \<Rightarrow> string" where
  "wc_Reduce key values = itoa (int (length values))"

text \<open>The words of a document once each; \<open>order\<close> lists the keys of the map in the order it is visited.\<close>

definition indexer_Map :: "(string list \<Rightarrow> string list) \<Rightarrow> string \<Rightarrow> string \<Rightarrow> KeyValue list" where
  "indexer_Map order document value =
     map (\<lambda>w. \<lparr>kvp_Key = w, kvp_Value = document\<rparr>) (order (remdups (FieldsFunc value (\<lambda>x. \<not> isLetter x))))"

fun joinWith :: "string \<Rightarrow> string list \<Rightarrow> string" where
  "joinWith sep [] = []"
| "joinWith sep [x] = x"
| "joinWith sep (x # y # xs) = x @ sep @ joinWith sep (y # xs)"

definition indexer_Reduce :: "string \<Rightarrow> string list \<Rightarrow> string" where
  "indexer_Reduce key values = itoa (int (length values)) @ '' '' @ joinWith '','' (sort values)"

text \<open>The Map and Reduce of \<^verbatim>\<open>crash.go\<close> after the call of \<^verbatim>\<open>maybeCrash\<close>, which is in theory \<open>MR_Probe\<close>: a worker that crashes is one that
  never reports.\<close>

definition crash_Map :: "string \<Rightarrow> string \<Rightarrow> KeyValue list" where
  "crash_Map filename contents =
     [\<lparr>kvp_Key = ''a'', kvp_Value = filename\<rparr>,
      \<lparr>kvp_Key = ''b'', kvp_Value = itoa (int (length filename))\<rparr>,
      \<lparr>kvp_Key = ''c'', kvp_Value = itoa (int (length contents))\<rparr>,
      \<lparr>kvp_Key = ''d'', kvp_Value = ''xyzzy''\<rparr>]"

definition crash_Reduce :: "string \<Rightarrow> string list \<Rightarrow> string" where
  "crash_Reduce key values = joinWith '' '' (sort values)"

definition nocrash_Map :: "string \<Rightarrow> string \<Rightarrow> KeyValue list" where
  "nocrash_Map filename contents =
     [\<lparr>kvp_Key = ''a'', kvp_Value = filename\<rparr>,
      \<lparr>kvp_Key = ''b'', kvp_Value = itoa (int (length filename))\<rparr>,
      \<lparr>kvp_Key = ''c'', kvp_Value = itoa (int (length contents))\<rparr>,
      \<lparr>kvp_Key = ''d'', kvp_Value = ''xyzzy''\<rparr>]"

definition nocrash_Reduce :: "string \<Rightarrow> string list \<Rightarrow> string" where
  "nocrash_Reduce key values = joinWith '' '' (sort values)"

definition early_exit_Map :: "string \<Rightarrow> string \<Rightarrow> KeyValue list" where
  "early_exit_Map filename contents = [\<lparr>kvp_Key = filename, kvp_Value = ''1''\<rparr>]"

definition early_exit_Reduce :: "string \<Rightarrow> string list \<Rightarrow> string" where
  "early_exit_Reduce key values = itoa (int (length values))"

end
