(* ===== verification/MR_Out.thy ===== *)
theory MR_Out
  imports MR_Job
begin

text \<open>
  What a MapReduce job computes, apart from who computes it: file names do not clash, the shuffle partitions the
  records by the hash of their key, and the lines of a reduce phase are one per key.  The
  locale \<open>reducer\<close> is the contract of a Reduce function, interpreted on the applications.
\<close>

section \<open>Names\<close>

lemma mr_name_inj: "mr_name (int i) (int j) = mr_name (int i') (int j') \<longleftrightarrow> i = i' \<and> j = j'"
proof
  assume "mr_name (int i) (int j) = mr_name (int i') (int j')"
  then have "digits i @ CHR ''-'' # digits j = digits i' @ CHR ''-'' # digits j'" by (simp add: mr_name_def)
  then show "i = i' \<and> j = j'" using append_dash_inj [of "digits i"] digits_no_dash digits_inj by blast
qed simp

lemma out_name_inj: "out_name (int i) = out_name (int j) \<longleftrightarrow> i = j"
  using digits_inj by (auto simp: out_name_def)

lemma mr_out_differ: "mr_name (int i) (int j) \<noteq> out_name (int k)"
proof
  assume "mr_name (int i) (int j) = out_name (int k)"
  then have e: "digits i @ ''-'' @ digits j = ''out-'' @ digits k" by (simp add: mr_name_def out_name_def)
  obtain c cs where c: "digits i = c # cs" by (cases "digits i") auto
  then have "c = CHR ''o''" using e by simp
  moreover have "(of_char c :: nat) \<le> 57" using digits_code [of c i] c by simp
  ultimately show False by simp
qed

lemma last_digit: "(of_char (last (digits n)) :: nat) \<le> 57"
  using digits_code [of "last (digits n)" n] by simp

lemma tmp_differ:
  "mr_name (int i) (int j) \<noteq> s @ ''.tmp''" "out_name (int k) \<noteq> s @ ''.tmp''"
proof -
  have p: "last (s @ ''.tmp'') = CHR ''p''" by simp
  show "mr_name (int i) (int j) \<noteq> s @ ''.tmp''"
  proof
    assume e: "mr_name (int i) (int j) = s @ ''.tmp''"
    have "last (mr_name (int i) (int j)) = last (digits j)" by (simp add: mr_name_def)
    then have "last (digits j) = CHR ''p''" using p e by simp
    then show False using last_digit [of j] by simp
  qed
  show "out_name (int k) \<noteq> s @ ''.tmp''"
  proof
    assume e: "out_name (int k) = s @ ''.tmp''"
    have "last (out_name (int k)) = last (digits k)" by (simp add: out_name_def)
    then have "last (digits k) = CHR ''p''" using p e by simp
    then show False using last_digit [of k] by simp
  qed
qed

lemma name_prefix: "take 3 (mr_name i j) = ''mr-''" "take 3 (out_name i) = ''mr-''"
    "take 3 (mr_name i j @ s) = ''mr-''" "take 3 (out_name i @ s) = ''mr-''"
  by (simp_all add: mr_name_def out_name_def)

section \<open>The shuffle\<close>

lemma ihash_range: "0 \<le> ihash key" "ihash key < 2 ^ 31"
proof -
  have "fnv32a key AND 0x7fffffff = take_bit 31 (fnv32a key)"
    by (simp add: take_bit_eq_mask mask_eq_exp_minus_1)
  then have "uint (fnv32a key AND 0x7fffffff) = take_bit 31 (uint (fnv32a key))"
    by (simp add: unsigned_take_bit_eq)
  then show "ihash key < 2 ^ 31" unfolding ihash_def by (simp only: take_bit_int_less_exp)
  show "0 \<le> ihash key" by (simp add: ihash_def)
qed

definition partition_of :: "nat \<Rightarrow> KeyValue \<Rightarrow> nat" where
  "partition_of n kv = nat (ihash (kvp_Key kv) mod int n)"

lemma partition_of_less: "0 < n \<Longrightarrow> partition_of n kv < n"
  by (simp add: partition_of_def nat_less_iff)

lemma shuffle_step:
  assumes "0 < n" "length arr = n"
  shows "shuffle (int n) (kv # kva) arr = shuffle (int n) kva (arr[partition_of n kv := arr ! partition_of n kv @ [kv]])"
  using assms by (simp add: go_index_def go_store_def partition_of_def)

lemma shuffle_result:
  assumes "0 < n" "length arr = n"
  shows "shuffle (int n) kva arr = Some (map (\<lambda>j. arr ! j @ filter (\<lambda>kv. partition_of n kv = j) kva) [0..<n])"
  using assms(2)
proof (induction kva arbitrary: arr)
  case Nil
  then show ?case by (auto intro: nth_equalityI)
next
  case (Cons kv kva)
  have len: "length (arr[partition_of n kv := arr ! partition_of n kv @ [kv]]) = n" using Cons.prems by simp
  show ?case
    unfolding shuffle_step [OF assms(1) Cons.prems] Cons.IH [OF len]
    using Cons.prems partition_of_less [OF assms(1), of kv] by (auto simp: nth_list_update)
qed

section \<open>The reduce phase\<close>

definition keys_of :: "KeyValue list \<Rightarrow> string set" where
  "keys_of kvs = kvp_Key ` set kvs"

definition values_of :: "string \<Rightarrow> KeyValue list \<Rightarrow> string list" where
  "values_of k kvs = map kvp_Value (filter (\<lambda>kv. kvp_Key kv = k) kvs)"

definition line_of :: "(string \<Rightarrow> string list \<Rightarrow> string) \<Rightarrow> KeyValue list \<Rightarrow> string \<Rightarrow> string" where
  "line_of f kvs k = outputLine k (f k (values_of k kvs))"

lemma groupEnd_sorted:
  assumes "sorted (map kvp_Key kvs)" "\<forall>kv\<in>set kvs. key \<le> kvp_Key kv"
  shows "groupEnd key kvs = (filter (\<lambda>kv. kvp_Key kv = key) kvs, filter (\<lambda>kv. kvp_Key kv \<noteq> key) kvs)"
  using assms
proof (induction kvs)
  case (Cons kv kvs)
  show ?case
  proof (cases "kvp_Key kv = key")
    case True
    then show ?thesis using Cons by simp
  next
    case False
    then have "\<forall>kv'\<in>set kvs. kvp_Key kv' \<noteq> key" using Cons.prems by force
    then show ?thesis using False by (simp add: filter_empty_conv filter_id_conv)
  qed
qed simp

text \<open>The lines of a reduce phase over a list that is sorted by key: one for each key, in the order of the keys, with all its values.\<close>

lemma reduceGroups_lines:
  assumes "sorted (map kvp_Key kvs)"
  shows "reduceGroups f kvs = map (line_of f kvs) (sorted_list_of_set (keys_of kvs))"
  using assms
proof (induction f kvs rule: reduceGroups.induct)
  case (2 f kv kvs)
  let ?k = "kvp_Key kv" and ?rest = "filter (\<lambda>x. kvp_Key x \<noteq> kvp_Key kv) kvs"
  have g: "groupEnd ?k kvs = (filter (\<lambda>x. kvp_Key x = ?k) kvs, ?rest)"
    using "2.prems" by (intro groupEnd_sorted) auto
  have "sorted (map kvp_Key ?rest)" using "2.prems" by (simp add: sorted_filter)
  then have IH: "reduceGroups f ?rest = map (line_of f ?rest) (sorted_list_of_set (keys_of ?rest))"
    using "2.IH" [OF refl g [symmetric] refl] g by metis
  have keys: "keys_of (kv # kvs) = insert ?k (keys_of ?rest)" "?k \<notin> keys_of ?rest" "finite (keys_of ?rest)"
    by (auto simp: keys_of_def)
  have least: "?k \<le> k" if "k \<in> keys_of ?rest" for k using "2.prems" that by (auto simp: keys_of_def)
  have "sorted_list_of_set (keys_of (kv # kvs)) = ?k # sorted_list_of_set (keys_of ?rest)"
    unfolding keys(1) using keys(2,3) least by (simp add: sorted_list_of_set.fold_insort_key.remove insort_is_Cons)
  moreover have "line_of f ?rest k = line_of f (kv # kvs) k" if "k \<in> keys_of ?rest" for k
  proof -
    have "k \<noteq> ?k" using that keys(2) by blast
    then have "values_of k ?rest = values_of k (kv # kvs)"
      unfolding values_of_def filter_filter by (auto intro!: arg_cong [of _ _ "map kvp_Value"] filter_cong)
    then show ?thesis by (simp add: line_of_def)
  qed
  moreover have "reduceGroups f (kv # kvs) = line_of f (kv # kvs) ?k # reduceGroups f ?rest"
    using g by (simp add: line_of_def values_of_def)
  ultimately show ?case using IH keys(3) by simp
qed (simp add: keys_of_def)

text \<open>The contract of a Reduce function: the order of the values does not matter.\<close>

locale reducer =
  fixes reducef :: "string \<Rightarrow> string list \<Rightarrow> string"
  assumes perm: "mset vs = mset ws \<Longrightarrow> reducef k vs = reducef k ws"
begin

lemma line_of_mset: "mset (filter (\<lambda>kv. kvp_Key kv = k) kvs) = mset (filter (\<lambda>kv. kvp_Key kv = k) kvs') \<Longrightarrow>
    line_of reducef kvs k = line_of reducef kvs' k"
  unfolding line_of_def values_of_def by (metis mset_map perm)

text \<open>Reducing one partition of a list gives the lines of its keys.\<close>

lemma partition_lines:
  assumes "sorted (map kvp_Key ps)" "mset ps = filter_mset (\<lambda>kv. partition_of n kv = j) (mset kvs)"
  shows "reduceGroups reducef ps = map (line_of reducef kvs) (sorted_list_of_set {k \<in> keys_of kvs. nat (ihash k mod int n) = j})"
proof -
  let ?K = "{k \<in> keys_of kvs. nat (ihash k mod int n) = j}"
  have "set ps = {kv \<in> set kvs. partition_of n kv = j}" using assms(2) by (metis set_mset_filter set_mset_mset)
  then have keys: "keys_of ps = ?K" by (auto simp: keys_of_def partition_of_def)
  have "line_of reducef ps k = line_of reducef kvs k" if "k \<in> ?K" for k
  proof (rule line_of_mset)
    have "mset (filter (\<lambda>kv. kvp_Key kv = k) ps) = filter_mset (\<lambda>kv. kvp_Key kv = k \<and> partition_of n kv = j) (mset kvs)"
      using assms(2) by (simp add: filter_filter_mset conj_commute)
    also have "\<dots> = filter_mset (\<lambda>kv. kvp_Key kv = k) (mset kvs)"
      using that by (intro filter_mset_cong) (auto simp: partition_of_def)
    finally show "mset (filter (\<lambda>kv. kvp_Key kv = k) ps) = mset (filter (\<lambda>kv. kvp_Key kv = k) kvs)" by simp
  qed
  moreover have "finite ?K" by (simp add: keys_of_def)
  ultimately show ?thesis using reduceGroups_lines [OF assms(1), of reducef] unfolding keys by simp
qed

lemma sorted_lines:
  assumes "sorted (map kvp_Key ps)" "mset ps = mset kvs"
  shows "reduceGroups reducef ps = map (line_of reducef kvs) (sorted_list_of_set (keys_of kvs))"
proof -
  have "keys_of ps = keys_of kvs" using assms(2) by (metis keys_of_def set_mset_mset)
  moreover have "line_of reducef ps = line_of reducef kvs"
    by (rule ext, rule line_of_mset) (use assms(2) in simp)
  ultimately show ?thesis using reduceGroups_lines [OF assms(1), of reducef] by simp
qed

end

interpretation wc: reducer wc_Reduce
  by unfold_locales (metis size_mset wc_Reduce_def)

interpretation indexer: reducer indexer_Reduce
  by unfold_locales (metis indexer_Reduce_def properties_for_sort mset_sort size_mset sorted_sort)

interpretation crash: reducer crash_Reduce
  by unfold_locales (metis crash_Reduce_def properties_for_sort mset_sort sorted_sort)

interpretation nocrash: reducer nocrash_Reduce
  by unfold_locales (metis nocrash_Reduce_def properties_for_sort mset_sort sorted_sort)

interpretation early_exit: reducer early_exit_Reduce
  by unfold_locales (metis size_mset early_exit_Reduce_def)

lemma sorts_sorted: "sorts sortf \<Longrightarrow> sorted (map kvp_Key (sortf kvs))"
  by (simp add: sorts_def ByKey_Less_def sorted_map not_less)

lemma sorts_mset: "sorts sortf \<Longrightarrow> mset (sortf kvs) = mset kvs"
  by (simp add: sorts_def)

lemma sorts_sort_key: "sorts (sort_key kvp_Key)"
proof -
  have "sorted_wrt (\<lambda>a b. \<not> ByKey_Less b a) (sort_key kvp_Key kvs)" for kvs :: "KeyValue list"
    unfolding ByKey_Less_def not_less using sorted_sort_key [of kvp_Key kvs] unfolding sorted_map .
  then show ?thesis by (simp add: sorts_def)
qed

end
