(* ===== verification/MR_System.thy ===== *)
theory MR_System
  imports MR_Out
begin

text \<open>
  A MapReduce job with any number of workers.  A worker fetches a task, computes, writes its files one after the other and
  reports; it may stop for ever at any point, and a task that is not reported in time is
  handed out again, so that several workers may be busy with the same task and reports
  may come late or be lost.  Creating a temporary file, writing one record or line to it and renaming it are steps of their own, as is
  reading one intermediate file.

  Workers that repeat a task use the same temporary names, and the code does not keep them apart.  An open file is known
  by its name here, so the steps describe the code in runs in which no two workers have the same temporary file open: \<open>exclusive_step\<close>.
\<close>

section \<open>The system\<close>

record job =
  jb_names :: "string list"
  jb_n :: nat
  jb_fs :: files
  jb_sort :: "KeyValue list \<Rightarrow> KeyValue list"
  jb_map :: "string \<Rightarrow> string \<Rightarrow> KeyValue list"
  jb_reduce :: "string \<Rightarrow> string list \<Rightarrow> string"

text \<open>
  What a worker is doing: \<open>MapFiles t arr k\<close> has written the first \<open>k\<close> partitions, \<open>MapFile t arr k kvs\<close> has the temporary
  file of partition \<open>k\<close> open and has still to write \<open>kvs\<close>; \<open>ReduceRead t i kvs\<close> has read the files of the first \<open>i\<close> mappers;
  \<open>ReduceFile t lines\<close> has its temporary file open and has still to write the lines.
\<close>

datatype work =
    Idle
  | MapStart MapperTask
  | MapFiles MapperTask "KeyValue list list" nat
  | MapFile MapperTask "KeyValue list list" nat "KeyValue list"
  | ReduceRead ReducerTask nat "KeyValue list"
  | ReduceFile ReducerTask "string list"
  | ReduceDone ReducerTask
  | Stopped

record mr_state =
  ms_c :: Coordinator
  ms_fs :: files
  ms_work :: "nat \<Rightarrow> work"

definition mr_init :: "job \<Rightarrow> mr_state \<Rightarrow> bool" where
  "mr_init J s \<longleftrightarrow> (\<exists>now. s = \<lparr>ms_c = MakeCoordinator now (jb_names J) (int (jb_n J)), ms_fs = jb_fs J, ms_work = (\<lambda>_. Idle)\<rparr>)"

abbreviation does :: "nat \<Rightarrow> work \<Rightarrow> mr_state \<Rightarrow> mr_state" where
  "does w x s \<equiv> s\<lparr>ms_work := (ms_work s)(w := x)\<rparr>"

text \<open>What a worker does with the answer to \<^verbatim>\<open>FetchTask\<close>.\<close>

definition next_work :: "FetchTaskResponse \<Rightarrow> work" where
  "next_work resp = (if AllFinished resp then Stopped else
     (case ft_MapperTask resp of Some t \<Rightarrow> MapStart t | None \<Rightarrow>
      (case ft_ReducerTask resp of Some t \<Rightarrow> ReduceRead t 0 [] | None \<Rightarrow> Idle)))"

definition map_tmp :: "MapperTask \<Rightarrow> nat \<Rightarrow> string" where
  "map_tmp t k = mr_name (mt_Index t) (int k) @ ''.tmp''"

definition out_tmp :: "ReducerTask \<Rightarrow> string" where
  "out_tmp t = out_name (rt_Index t) @ ''.tmp''"

inductive mr_step :: "job \<Rightarrow> mr_state \<Rightarrow> mr_state \<Rightarrow> bool" for J :: job where
  fetch: "ms_work s w = Idle \<Longrightarrow> FetchTask now (ms_c s) = (c, resp) \<Longrightarrow> mr_step J s (does w (next_work resp) (s\<lparr>ms_c := c\<rparr>))"
| fetch_lost: "ms_work s w = Idle \<Longrightarrow> FetchTask now (ms_c s) = (c, resp) \<Longrightarrow> mr_step J s (s\<lparr>ms_c := c\<rparr>)"
| map_compute: "ms_work s w = MapStart t \<Longrightarrow> mapperPartitions (jb_map J) t (ms_fs s) = Some arr \<Longrightarrow>
    mr_step J s (does w (MapFiles t arr 0) s)"
| map_create: "ms_work s w = MapFiles t arr k \<Longrightarrow> k < length arr \<Longrightarrow>
    mr_step J s (does w (MapFile t arr k (jb_sort J (arr ! k))) (s\<lparr>ms_fs := os_Create (map_tmp t k) (FileRecords []) (ms_fs s)\<rparr>))"
| map_write: "ms_work s w = MapFile t arr k (kv # kvs) \<Longrightarrow>
    mr_step J s (does w (MapFile t arr k kvs) (s\<lparr>ms_fs := enc_Encode (map_tmp t k) kv (ms_fs s)\<rparr>))"
| map_rename: "ms_work s w = MapFile t arr k [] \<Longrightarrow>
    mr_step J s (does w (MapFiles t arr (Suc k)) (s\<lparr>ms_fs := os_Rename (map_tmp t k) (mr_name (mt_Index t) (int k)) (ms_fs s)\<rparr>))"
| map_report: "ms_work s w = MapFiles t arr k \<Longrightarrow> k = length arr \<Longrightarrow>
    UpdateTask \<lparr>ut_MapperTask = Some t, ut_ReducerTask = None\<rparr> (ms_c s) = Some c \<Longrightarrow> mr_step J s (does w Idle (s\<lparr>ms_c := c\<rparr>))"
| reduce_read: "ms_work s w = ReduceRead t i kvs \<Longrightarrow> int i < rt_MapperCount t \<Longrightarrow> readPartitions (rt_Index t) [i] (ms_fs s) = Some kvs' \<Longrightarrow>
    mr_step J s (does w (ReduceRead t (Suc i) (kvs @ kvs')) s)"
| reduce_create: "ms_work s w = ReduceRead t i kvs \<Longrightarrow> rt_MapperCount t \<le> int i \<Longrightarrow>
    mr_step J s (does w (ReduceFile t (reduceGroups (jb_reduce J) (jb_sort J kvs))) (s\<lparr>ms_fs := os_Create (out_tmp t) (FileText []) (ms_fs s)\<rparr>))"
| reduce_write: "ms_work s w = ReduceFile t (line # lines) \<Longrightarrow>
    mr_step J s (does w (ReduceFile t lines) (s\<lparr>ms_fs := fmt_Fprintf (out_tmp t) line (ms_fs s)\<rparr>))"
| reduce_rename: "ms_work s w = ReduceFile t [] \<Longrightarrow>
    mr_step J s (does w (ReduceDone t) (s\<lparr>ms_fs := os_Rename (out_tmp t) (out_name (rt_Index t)) (ms_fs s)\<rparr>))"
| reduce_report: "ms_work s w = ReduceDone t \<Longrightarrow>
    UpdateTask \<lparr>ut_MapperTask = None, ut_ReducerTask = Some t\<rparr> (ms_c s) = Some c \<Longrightarrow> mr_step J s (does w Idle (s\<lparr>ms_c := c\<rparr>))"
| report_lost: "ms_work s w = MapFiles t arr (length arr) \<or> ms_work s w = ReduceDone t' \<Longrightarrow> mr_step J s (does w Idle s)"
| map_timeout: "i < length (Mappers (ms_c s)) \<Longrightarrow> mt_timeoutTimer (Mappers (ms_c s) ! i) = Some True \<Longrightarrow>
    mapperTimeoutFun (int i) (ms_c s) = Some c \<Longrightarrow> mr_step J s (s\<lparr>ms_c := c\<rparr>)"
| reduce_timeout: "i < length (Reducers (ms_c s)) \<Longrightarrow> rt_timeoutTimer (Reducers (ms_c s) ! i) = Some True \<Longrightarrow>
    reducerTimeoutFun (int i) (ms_c s) = Some c \<Longrightarrow> mr_step J s (s\<lparr>ms_c := c\<rparr>)"
| crash: "mr_step J s (does w Stopped s)"

text \<open>The temporary file a worker has open, and the steps after which no two workers have the same one open.\<close>

fun open_tmp :: "work \<Rightarrow> string option" where
  "open_tmp (MapFile t arr k kvs) = Some (map_tmp t k)"
| "open_tmp (ReduceFile t lines) = Some (out_tmp t)"
| "open_tmp _ = None"

definition exclusive :: "mr_state \<Rightarrow> bool" where
  "exclusive s \<longleftrightarrow> (\<forall>w w'. w \<noteq> w' \<longrightarrow> open_tmp (ms_work s w) \<noteq> None \<longrightarrow> open_tmp (ms_work s w) \<noteq> open_tmp (ms_work s w'))"

definition exclusive_step :: "job \<Rightarrow> mr_state \<Rightarrow> mr_state \<Rightarrow> bool" where
  "exclusive_step J s s' \<longleftrightarrow> mr_step J s s' \<and> exclusive s'"

section \<open>What the files should hold\<close>

definition input_text :: "job \<Rightarrow> nat \<Rightarrow> string" where
  "input_text J i = (case jb_fs J (jb_names J ! i) of Some (FileText s) \<Rightarrow> s | _ \<Rightarrow> [])"

definition mapped :: "job \<Rightarrow> nat \<Rightarrow> KeyValue list" where
  "mapped J i = jb_map J (jb_names J ! i) (input_text J i)"

definition part_spec :: "job \<Rightarrow> nat \<Rightarrow> nat \<Rightarrow> KeyValue list" where
  "part_spec J i j = filter (\<lambda>kv. partition_of (jb_n J) kv = j) (mapped J i)"

definition file_spec :: "job \<Rightarrow> nat \<Rightarrow> nat \<Rightarrow> content" where
  "file_spec J i j = FileRecords (jb_sort J (part_spec J i j))"

definition reduce_input :: "job \<Rightarrow> nat \<Rightarrow> KeyValue list" where
  "reduce_input J j = jb_sort J (concat (map (\<lambda>i. jb_sort J (part_spec J i j)) [0..<length (jb_names J)]))"

definition out_lines :: "job \<Rightarrow> nat \<Rightarrow> string list" where
  "out_lines J j = reduceGroups (jb_reduce J) (reduce_input J j)"

text \<open>A job that can run: there is at least one reducer, and every input is a text file of its own, whose name does
  not look like one of the job's own files.\<close>

definition job_ok :: "job \<Rightarrow> bool" where
  "job_ok J \<longleftrightarrow> 0 < jb_n J \<and> sorts (jb_sort J) \<and>
     (\<forall>name\<in>set (jb_names J). take 3 name \<noteq> ''mr-'' \<and> (\<exists>s. jb_fs J name = Some (FileText s)))"

section \<open>The coordinator\<close>

definition mapper_ok :: "job \<Rightarrow> nat \<Rightarrow> MapperTask \<Rightarrow> bool" where
  "mapper_ok J i t \<longleftrightarrow> mt_Index t = int i \<and> mt_Inputfile t = jb_names J ! i \<and> mt_ReducerCount t = int (jb_n J) \<and>
     (mt_Assigned t \<longrightarrow> mt_timeoutTimer t \<noteq> None)"

definition reducer_ok :: "job \<Rightarrow> nat \<Rightarrow> ReducerTask \<Rightarrow> bool" where
  "reducer_ok J i t \<longleftrightarrow> rt_Index t = int i \<and> rt_MapperCount t = int (length (jb_names J)) \<and>
     (rt_Assigned t \<longrightarrow> rt_timeoutTimer t \<noteq> None)"

definition coord_ok :: "job \<Rightarrow> Coordinator \<Rightarrow> bool" where
  "coord_ok J c \<longleftrightarrow> length (Mappers c) = length (jb_names J) \<and> length (Reducers c) = jb_n J \<and>
     (\<forall>i<length (jb_names J). mapper_ok J i (Mappers c ! i)) \<and> (\<forall>i<jb_n J. reducer_ok J i (Reducers c ! i)) \<and>
     (MapperFinished c \<longrightarrow> (\<forall>m\<in>set (Mappers c). mt_IsFinished m)) \<and>
     (ReducerFinished c \<longrightarrow> (\<forall>r\<in>set (Reducers c). rt_IsFinished r))"

lemma fetchMapper_cases:
  assumes "fetchMapper now ms = (ms', r)"
  shows "r = None \<and> ms' = ms \<and> (\<forall>m\<in>set ms. mt_Assigned m \<or> mt_IsFinished m) \<or>
    (\<exists>i<length ms. \<not> mt_Assigned (ms ! i) \<and> \<not> mt_IsFinished (ms ! i) \<and> ms' = ms[i := makeMapTask now (ms ! i)] \<and>
       r = Some (makeMapTask now (ms ! i)))"
  using assms
proof (induction ms arbitrary: ms' r)
  case (Cons m ms)
  show ?case
  proof (cases "mt_Assigned m \<or> mt_IsFinished m")
    case True
    obtain ms1 r1 where f: "fetchMapper now ms = (ms1, r1)" by fastforce
    then have e: "ms' = m # ms1" "r = r1" using Cons.prems True by auto
    show ?thesis
    proof (cases "r1 = None")
      case True
      then show ?thesis using Cons.IH [OF f] e \<open>mt_Assigned m \<or> mt_IsFinished m\<close> by auto
    next
      case False
      then obtain i where "i < length ms" "\<not> mt_Assigned (ms ! i)" "\<not> mt_IsFinished (ms ! i)"
          "ms1 = ms[i := makeMapTask now (ms ! i)]" "r1 = Some (makeMapTask now (ms ! i))"
        using Cons.IH [OF f] by auto
      then show ?thesis using e by (intro disjI2 exI [of _ "Suc i"]) simp
    qed
  next
    case False
    then show ?thesis using Cons.prems by (intro disjI2 exI [of _ 0]) auto
  qed
qed auto

lemma fetchReducer_cases:
  assumes "fetchReducer now rs = (rs', r)"
  shows "r = None \<and> rs' = rs \<and> (\<forall>m\<in>set rs. rt_Assigned m \<or> rt_IsFinished m) \<or>
    (\<exists>i<length rs. \<not> rt_Assigned (rs ! i) \<and> \<not> rt_IsFinished (rs ! i) \<and> rs' = rs[i := makeReduceTask now (rs ! i)] \<and>
       r = Some (makeReduceTask now (rs ! i)))"
  using assms
proof (induction rs arbitrary: rs' r)
  case (Cons m rs)
  show ?case
  proof (cases "rt_Assigned m \<or> rt_IsFinished m")
    case True
    obtain rs1 r1 where f: "fetchReducer now rs = (rs1, r1)" by fastforce
    then have e: "rs' = m # rs1" "r = r1" using Cons.prems True by auto
    show ?thesis
    proof (cases "r1 = None")
      case True
      then show ?thesis using Cons.IH [OF f] e \<open>rt_Assigned m \<or> rt_IsFinished m\<close> by auto
    next
      case False
      then obtain i where "i < length rs" "\<not> rt_Assigned (rs ! i)" "\<not> rt_IsFinished (rs ! i)"
          "rs1 = rs[i := makeReduceTask now (rs ! i)]" "r1 = Some (makeReduceTask now (rs ! i))"
        using Cons.IH [OF f] by auto
      then show ?thesis using e by (intro disjI2 exI [of _ "Suc i"]) simp
    qed
  next
    case False
    then show ?thesis using Cons.prems by (intro disjI2 exI [of _ 0]) auto
  qed
qed auto

text \<open>What a report does to a task.\<close>

definition report_mapper :: "int \<Rightarrow> MapperTask \<Rightarrow> MapperTask" where
  "report_mapper index m = (if mt_Index m = index \<and> mt_Assigned m \<and> \<not> mt_IsFinished m
     then m\<lparr>mt_IsFinished := True, mt_timeoutTimer := Some False\<rparr> else m)"

definition report_reducer :: "int \<Rightarrow> ReducerTask \<Rightarrow> ReducerTask" where
  "report_reducer index m = (if rt_Index m = index \<and> rt_Assigned m \<and> \<not> rt_IsFinished m
     then m\<lparr>rt_IsFinished := True, rt_timeoutTimer := Some False\<rparr> else m)"

lemma updateMappers_result:
  assumes "\<forall>m\<in>set ms. mt_Assigned m \<longrightarrow> mt_timeoutTimer m \<noteq> None"
  shows "updateMappers index ms b =
    Some (map (report_mapper index) ms, b \<and> (\<forall>m\<in>set ms. mt_IsFinished (report_mapper index m)))"
  using assms
proof (induction ms arbitrary: b)
  case (Cons m ms)
  have "(if mt_Index m = index \<and> mt_Assigned m \<and> \<not> mt_IsFinished m then finishMapper m else Some m) = Some (report_mapper index m)"
    using Cons.prems by (auto simp: finishMapper_def report_mapper_def Let_def)
  then show ?case using Cons by (simp add: conj_assoc)
qed simp

lemma updateReducers_result:
  assumes "\<forall>m\<in>set ms. rt_Assigned m \<longrightarrow> rt_timeoutTimer m \<noteq> None"
  shows "updateReducers index ms b =
    Some (map (report_reducer index) ms, b \<and> (\<forall>m\<in>set ms. rt_IsFinished (report_reducer index m)))"
  using assms
proof (induction ms arbitrary: b)
  case (Cons m ms)
  have "(if rt_Index m = index \<and> rt_Assigned m \<and> \<not> rt_IsFinished m then finishReducer m else Some m) = Some (report_reducer index m)"
    using Cons.prems by (auto simp: finishReducer_def report_reducer_def Let_def)
  then show ?case using Cons by (simp add: conj_assoc)
qed simp

lemma coord_timers:
  assumes "coord_ok J c"
  shows "\<forall>m\<in>set (Mappers c). mt_Assigned m \<longrightarrow> mt_timeoutTimer m \<noteq> None"
    "\<forall>m\<in>set (Reducers c). rt_Assigned m \<longrightarrow> rt_timeoutTimer m \<noteq> None"
  using assms by (auto simp: coord_ok_def mapper_ok_def reducer_ok_def in_set_conv_nth)

lemma UpdateTask_mapper:
  assumes "coord_ok J c"
  shows "UpdateTask \<lparr>ut_MapperTask = Some t, ut_ReducerTask = None\<rparr> c =
    Some (c\<lparr>Mappers := map (report_mapper (mt_Index t)) (Mappers c),
      MapperFinished := (\<forall>m\<in>set (Mappers c). mt_IsFinished (report_mapper (mt_Index t) m))\<rparr>)"
  using updateMappers_result [OF coord_timers(1) [OF assms]] by (simp add: UpdateTask_def)

lemma UpdateTask_reducer:
  assumes "coord_ok J c"
  shows "UpdateTask \<lparr>ut_MapperTask = None, ut_ReducerTask = Some t\<rparr> c =
    Some (c\<lparr>Reducers := map (report_reducer (rt_Index t)) (Reducers c),
      ReducerFinished := (\<forall>m\<in>set (Reducers c). rt_IsFinished (report_reducer (rt_Index t) m))\<rparr>)"
  using updateReducers_result [OF coord_timers(2) [OF assms]] by (simp add: UpdateTask_def)

section \<open>The files\<close>

definition mapper_id :: "job \<Rightarrow> nat \<Rightarrow> MapperTask \<Rightarrow> bool" where
  "mapper_id J i t \<longleftrightarrow> i < length (jb_names J) \<and> mt_Index t = int i \<and> mt_Inputfile t = jb_names J ! i \<and>
     mt_ReducerCount t = int (jb_n J)"

definition reducer_id :: "job \<Rightarrow> nat \<Rightarrow> ReducerTask \<Rightarrow> bool" where
  "reducer_id J j t \<longleftrightarrow> j < jb_n J \<and> rt_Index t = int j \<and> rt_MapperCount t = int (length (jb_names J))"

definition map_files :: "job \<Rightarrow> files \<Rightarrow> nat \<Rightarrow> nat \<Rightarrow> bool" where
  "map_files J fs i k \<longleftrightarrow> (\<forall>j<k. fs (mr_name (int i) (int j)) = Some (file_spec J i j))"

definition out_file :: "job \<Rightarrow> files \<Rightarrow> nat \<Rightarrow> bool" where
  "out_file J fs j \<longleftrightarrow> fs (out_name (int j)) = Some (FileText (concat (out_lines J j)))"

definition inputs_kept :: "job \<Rightarrow> files \<Rightarrow> bool" where
  "inputs_kept J fs \<longleftrightarrow> (\<forall>name\<in>set (jb_names J). fs name = jb_fs J name)"

text \<open>A change of the directory that loses nothing.\<close>

definition keeps :: "job \<Rightarrow> files \<Rightarrow> files \<Rightarrow> bool" where
  "keeps J fs fs' \<longleftrightarrow> (inputs_kept J fs \<longrightarrow> inputs_kept J fs') \<and> (\<forall>i k. map_files J fs i k \<longrightarrow> map_files J fs' i k) \<and>
     (\<forall>j. out_file J fs j \<longrightarrow> out_file J fs' j)"

lemma keeps_refl [simp]: "keeps J fs fs"
  by (simp add: keeps_def)

lemma fold_Encode:
  "fs name = Some (FileRecords kvs0) \<Longrightarrow> fold (enc_Encode name) kvs fs = fs(name \<mapsto> FileRecords (kvs0 @ kvs))"
  by (induction kvs arbitrary: fs kvs0) (auto simp: enc_Encode_def)

lemma fold_Fprintf:
  "fs name = Some (FileText s0) \<Longrightarrow> fold (fmt_Fprintf name) lines fs = fs(name \<mapsto> FileText (s0 @ concat lines))"
  by (induction lines arbitrary: fs s0) (auto simp: fmt_Fprintf_def)

lemma input_not_ours:
  assumes "job_ok J" "name \<in> set (jb_names J)"
  shows "name \<noteq> mr_name i j" "name \<noteq> mr_name i j @ s" "name \<noteq> out_name i" "name \<noteq> out_name i @ s"
proof -
  have "take 3 name \<noteq> ''mr-''" using assms by (simp add: job_ok_def)
  then show "name \<noteq> mr_name i j" "name \<noteq> mr_name i j @ s" "name \<noteq> out_name i" "name \<noteq> out_name i @ s"
    using name_prefix by metis+
qed

lemma keeps_map_tmp:
  assumes "job_ok J"
  shows "keeps J fs (fs(map_tmp t k := x))"
  using input_not_ours [OF assms] tmp_differ by (auto simp: keeps_def inputs_kept_def map_files_def out_file_def map_tmp_def)

lemma keeps_out_tmp:
  assumes "job_ok J"
  shows "keeps J fs (fs(out_tmp t := x))"
  using input_not_ours [OF assms] tmp_differ by (auto simp: keeps_def inputs_kept_def map_files_def out_file_def out_tmp_def)

lemma keeps_map_file:
  assumes "job_ok J"
  shows "keeps J fs (fs(mr_name (int i) (int k) \<mapsto> file_spec J i k))"
  using input_not_ours [OF assms] mr_out_differ [symmetric]
  by (auto simp: keeps_def inputs_kept_def map_files_def out_file_def mr_name_inj)

lemma keeps_out_file:
  assumes "job_ok J"
  shows "keeps J fs (fs(out_name (int j) \<mapsto> FileText (concat (out_lines J j))))"
  using input_not_ours [OF assms] mr_out_differ
  by (auto simp: keeps_def inputs_kept_def map_files_def out_file_def out_name_inj)

lemma keeps_trans: "keeps J fs fs' \<Longrightarrow> keeps J fs' fs'' \<Longrightarrow> keeps J fs fs''"
  by (simp add: keeps_def)

lemma mapperPartitions_result:
  assumes "job_ok J" "inputs_kept J fs" "mapper_id J i t"
  shows "mapperPartitions (jb_map J) t fs = Some (map (part_spec J i) [0..<jb_n J])"
proof -
  have nm: "jb_names J ! i \<in> set (jb_names J)" "0 < jb_n J" using assms(1,3) by (auto simp: mapper_id_def job_ok_def)
  then obtain tx where "jb_fs J (jb_names J ! i) = Some (FileText tx)" using assms(1) by (auto simp: job_ok_def)
  then have "fs (mt_Inputfile t) = Some (FileText (input_text J i))"
    using assms(2,3) nm by (simp add: inputs_kept_def mapper_id_def input_text_def)
  moreover have "shuffle (int (jb_n J)) (mapped J i) (replicate (jb_n J) []) = Some (map (part_spec J i) [0..<jb_n J])"
    using shuffle_result [OF nm(2), of "replicate (jb_n J) []" "mapped J i"] by (simp add: part_spec_def)
  ultimately show ?thesis using assms(3) by (simp add: mapperPartitions_def mapper_id_def mapped_def)
qed

lemma readPartitions_result:
  assumes "\<forall>i\<in>set ns. map_files J fs i (jb_n J)" "j < jb_n J"
  shows "readPartitions (int j) ns fs = Some (concat (map (\<lambda>i. jb_sort J (part_spec J i j)) ns))"
  using assms(1)
proof (induction ns)
  case (Cons i ns)
  have "fs (mr_name (int i) (int j)) = Some (file_spec J i j)" using Cons.prems assms(2) by (simp add: map_files_def)
  then show ?case using Cons by (simp add: file_spec_def)
qed simp

lemma reducerOutput_result:
  assumes "\<forall>i<length (jb_names J). map_files J fs i (jb_n J)" "reducer_id J j t"
  shows "reducerOutput (jb_sort J) (jb_reduce J) t fs = Some (out_lines J j)"
  using readPartitions_result [of "[0..<length (jb_names J)]" J fs j] assms
  by (simp add: reducerOutput_def reducer_id_def out_lines_def reduce_input_def)

section \<open>The invariant\<close>

definition files_ok :: "job \<Rightarrow> Coordinator \<Rightarrow> files \<Rightarrow> bool" where
  "files_ok J c fs \<longleftrightarrow> inputs_kept J fs \<and>
     (\<forall>i<length (jb_names J). mt_IsFinished (Mappers c ! i) \<longrightarrow> map_files J fs i (jb_n J)) \<and>
     (\<forall>j<jb_n J. rt_IsFinished (Reducers c ! j) \<longrightarrow> out_file J fs j)"

text \<open>What a worker has, and what it has written so far.\<close>

fun work_ok :: "job \<Rightarrow> Coordinator \<Rightarrow> files \<Rightarrow> work \<Rightarrow> bool" where
  "work_ok J c fs Idle \<longleftrightarrow> True"
| "work_ok J c fs Stopped \<longleftrightarrow> True"
| "work_ok J c fs (MapStart t) \<longleftrightarrow> (\<exists>i. mapper_id J i t)"
| "work_ok J c fs (MapFiles t arr k) \<longleftrightarrow>
     (\<exists>i. mapper_id J i t \<and> arr = map (part_spec J i) [0..<jb_n J] \<and> k \<le> jb_n J \<and> map_files J fs i k)"
| "work_ok J c fs (MapFile t arr k kvs) \<longleftrightarrow>
     (\<exists>i written. mapper_id J i t \<and> arr = map (part_spec J i) [0..<jb_n J] \<and> k < jb_n J \<and> map_files J fs i k \<and>
        written @ kvs = jb_sort J (part_spec J i k) \<and> fs (map_tmp t k) = Some (FileRecords written))"
| "work_ok J c fs (ReduceRead t i kvs) \<longleftrightarrow> (\<forall>m\<in>set (Mappers c). mt_IsFinished m) \<and>
     (\<exists>j. reducer_id J j t \<and> i \<le> length (jb_names J) \<and> kvs = concat (map (\<lambda>i. jb_sort J (part_spec J i j)) [0..<i]))"
| "work_ok J c fs (ReduceFile t lines) \<longleftrightarrow>
     (\<exists>j written. reducer_id J j t \<and> written @ lines = out_lines J j \<and> fs (out_tmp t) = Some (FileText (concat written)))"
| "work_ok J c fs (ReduceDone t) \<longleftrightarrow> (\<exists>j. reducer_id J j t \<and> out_file J fs j)"

definition mr_inv :: "job \<Rightarrow> mr_state \<Rightarrow> bool" where
  "mr_inv J s \<longleftrightarrow> coord_ok J (ms_c s) \<and> files_ok J (ms_c s) (ms_fs s) \<and> (\<forall>w. work_ok J (ms_c s) (ms_fs s) (ms_work s w)) \<and> exclusive s"

lemma mr_invD:
  assumes "mr_inv J s"
  shows "coord_ok J (ms_c s)" "files_ok J (ms_c s) (ms_fs s)" "work_ok J (ms_c s) (ms_fs s) (ms_work s w)" "exclusive s"
  using assms unfolding mr_inv_def by blast+

lemma files_ok_keep: "keeps J fs fs' \<Longrightarrow> files_ok J c fs \<Longrightarrow> files_ok J c fs'"
  by (simp add: keeps_def files_ok_def)

text \<open>A worker is not disturbed by changes to files that are not its own.\<close>

lemma work_ok_keep:
  assumes "keeps J fs fs'" "\<And>name. open_tmp x = Some name \<Longrightarrow> fs' name = fs name" "work_ok J c fs x"
  shows "work_ok J c fs' x"
  using assms by (cases x) (fastforce simp: keeps_def)+

text \<open>Nor by what the coordinator does, as long as finished mappers stay finished.\<close>

lemma work_ok_coord:
  assumes "(\<forall>m\<in>set (Mappers c). mt_IsFinished m) \<Longrightarrow> \<forall>m\<in>set (Mappers c'). mt_IsFinished m" "work_ok J c fs x"
  shows "work_ok J c' fs x"
  using assms by (cases x) auto

lemma mr_inv_init: "mr_init J s \<Longrightarrow> mr_inv J s"
  by (auto simp: mr_init_def mr_inv_def coord_ok_def files_ok_def MakeCoordinator_def inputs_kept_def exclusive_def
      mapper_ok_def reducer_ok_def nth_enumerate_eq)

text \<open>The two shapes of a step: the coordinator changes, or one worker changes its own temporary file or files that hold what they should.\<close>

lemma mr_inv_coord:
  assumes "mr_inv J s" "coord_ok J c" "files_ok J c (ms_fs s)"
    "(\<forall>m\<in>set (Mappers (ms_c s)). mt_IsFinished m) \<Longrightarrow> \<forall>m\<in>set (Mappers c). mt_IsFinished m"
    "work_ok J c (ms_fs s) x" "open_tmp x = None"
  shows "mr_inv J (does w x (s\<lparr>ms_c := c\<rparr>))" "mr_inv J (s\<lparr>ms_c := c\<rparr>)"
  using assms mr_invD [OF assms(1)] work_ok_coord [OF assms(4)] by (auto simp: mr_inv_def exclusive_def)

lemma open_tmp_name: "open_tmp x = Some name \<Longrightarrow> \<exists>b. name = b @ ''.tmp''"
  by (cases x) (auto simp: map_tmp_def out_tmp_def)

lemma mr_inv_files:
  assumes "mr_inv J s" "keeps J (ms_fs s) fs" "work_ok J (ms_c s) fs x" "exclusive (does w x (s\<lparr>ms_fs := fs\<rparr>))"
    "\<And>b. fs (b @ ''.tmp'') \<noteq> ms_fs s (b @ ''.tmp'') \<Longrightarrow> open_tmp x = Some (b @ ''.tmp'') \<or> open_tmp (ms_work s w) = Some (b @ ''.tmp'')"
  shows "mr_inv J (does w x (s\<lparr>ms_fs := fs\<rparr>))"
proof -
  note ok = mr_invD [OF assms(1)]
  have "work_ok J (ms_c s) fs (ms_work s w')" if "w' \<noteq> w" for w'
  proof (rule work_ok_keep [OF assms(2) _ ok(3)])
    fix name assume n: "open_tmp (ms_work s w') = Some name"
    then obtain b where b: "name = b @ ''.tmp''" using open_tmp_name by blast
    have "open_tmp (ms_work s w) \<noteq> Some name" using ok(4) that n by (metis exclusive_def option.distinct(1))
    moreover have "open_tmp x \<noteq> Some name"
    proof
      assume "open_tmp x = Some name"
      moreover have "open_tmp x \<noteq> None \<longrightarrow> open_tmp x \<noteq> open_tmp (ms_work s w')"
        using assms(4) that unfolding exclusive_def by (elim allE [of _ w] allE [of _ w']) simp
      ultimately show False using n by simp
    qed
    ultimately show "fs name = ms_fs s name" using assms(5) [of b] b by auto
  qed
  then show ?thesis using assms(3,4) ok(1) files_ok_keep [OF assms(2) ok(2)] by (simp add: mr_inv_def)
qed

lemma FetchTask_cases:
  assumes "FetchTask now c = (c', resp)"
  obtains (none) "c' = c" "ft_MapperTask resp = None" "ft_ReducerTask resp = None"
    | (mapper) i where "i < length (Mappers c)" "\<not> mt_IsFinished (Mappers c ! i)" "\<not> MapperFinished c" "\<not> AllFinished resp"
        "c' = c\<lparr>Mappers := (Mappers c)[i := makeMapTask now (Mappers c ! i)]\<rparr>"
        "ft_MapperTask resp = Some (makeMapTask now (Mappers c ! i))" "ft_ReducerTask resp = None"
    | (reducer) j where "j < length (Reducers c)" "\<not> rt_IsFinished (Reducers c ! j)" "MapperFinished c" "\<not> ReducerFinished c" "\<not> AllFinished resp"
        "c' = c\<lparr>Reducers := (Reducers c)[j := makeReduceTask now (Reducers c ! j)]\<rparr>"
        "ft_MapperTask resp = None" "ft_ReducerTask resp = Some (makeReduceTask now (Reducers c ! j))"
proof (cases "MapperFinished c")
  case False
  obtain ms r where f: "fetchMapper now (Mappers c) = (ms, r)" by fastforce
  then have e: "c' = c\<lparr>Mappers := ms\<rparr>" "ft_MapperTask resp = r" "ft_ReducerTask resp = None" "\<not> AllFinished resp"
    using assms False by (auto simp: FetchTask_def)
  show ?thesis using fetchMapper_cases [OF f] e False none mapper by auto
next
  case mf: True
  show ?thesis
  proof (cases "ReducerFinished c")
    case False
    obtain rs r where f: "fetchReducer now (Reducers c) = (rs, r)" by fastforce
    then have e: "c' = c\<lparr>Reducers := rs\<rparr>" "ft_MapperTask resp = None" "ft_ReducerTask resp = r" "\<not> AllFinished resp"
      using assms False mf by (auto simp: FetchTask_def)
    show ?thesis using fetchReducer_cases [OF f] e False mf none reducer by auto
  next
    case True
    then show ?thesis using none assms mf by (auto simp: FetchTask_def)
  qed
qed

lemma mr_inv_fetch:
  assumes "mr_inv J s" "FetchTask now (ms_c s) = (c, resp)"
  shows "mr_inv J (does w (next_work resp) (s\<lparr>ms_c := c\<rparr>))" "mr_inv J (s\<lparr>ms_c := c\<rparr>)"
proof -
  note ok = mr_invD [OF assms(1)]
  have "coord_ok J c \<and> files_ok J c (ms_fs s) \<and> ((\<forall>m\<in>set (Mappers (ms_c s)). mt_IsFinished m) \<longrightarrow> (\<forall>m\<in>set (Mappers c). mt_IsFinished m)) \<and>
      work_ok J c (ms_fs s) (next_work resp)"
    using assms(2)
  proof (cases rule: FetchTask_cases)
    case none
    then show ?thesis using ok(1,2) by (simp add: next_work_def)
  next
    case (mapper i)
    have i: "i < length (jb_names J)" "mapper_ok J i (Mappers (ms_c s) ! i)" using ok(1) mapper(1) by (auto simp: coord_ok_def)
    have "coord_ok J c" "files_ok J c (ms_fs s)"
      using ok(1,2) mapper i by (auto simp: coord_ok_def files_ok_def mapper_ok_def makeMapTask_def nth_list_update)
    moreover have "mapper_id J i (makeMapTask now (Mappers (ms_c s) ! i))"
      using i by (simp add: mapper_id_def mapper_ok_def makeMapTask_def)
    ultimately show ?thesis using mapper by (auto simp: next_work_def)
  next
    case (reducer j)
    have j: "j < jb_n J" "reducer_ok J j (Reducers (ms_c s) ! j)" using ok(1) reducer(1) by (auto simp: coord_ok_def)
    have "coord_ok J c" "files_ok J c (ms_fs s)"
      using ok(1,2) reducer j by (auto simp: coord_ok_def files_ok_def reducer_ok_def makeReduceTask_def nth_list_update)
    moreover have "reducer_id J j (makeReduceTask now (Reducers (ms_c s) ! j))"
      using j by (simp add: reducer_id_def reducer_ok_def makeReduceTask_def)
    moreover have "\<forall>m\<in>set (Mappers (ms_c s)). mt_IsFinished m" using ok(1) reducer(3) by (simp add: coord_ok_def)
    ultimately show ?thesis using reducer by (auto simp: next_work_def)
  qed
  moreover have "open_tmp (next_work resp) = None" by (auto simp: next_work_def split: option.splits)
  ultimately show "mr_inv J (does w (next_work resp) (s\<lparr>ms_c := c\<rparr>))" "mr_inv J (s\<lparr>ms_c := c\<rparr>)"
    using mr_inv_coord [OF assms(1)] by blast+
qed

lemma report_mapper_simps [simp]:
  "mt_Index (report_mapper x m) = mt_Index m" "mt_Inputfile (report_mapper x m) = mt_Inputfile m"
  "mt_ReducerCount (report_mapper x m) = mt_ReducerCount m"
  "mt_IsFinished m \<Longrightarrow> mt_IsFinished (report_mapper x m)"
  by (auto simp: report_mapper_def)

lemma report_mapper_index: "mt_IsFinished (report_mapper x m) \<Longrightarrow> \<not> mt_IsFinished m \<Longrightarrow> mt_Index m = x"
  by (auto simp: report_mapper_def split: if_splits)

lemma report_reducer_simps [simp]:
  "rt_Index (report_reducer x m) = rt_Index m" "rt_MapperCount (report_reducer x m) = rt_MapperCount m"
  "rt_IsFinished m \<Longrightarrow> rt_IsFinished (report_reducer x m)"
  by (auto simp: report_reducer_def)

lemma report_reducer_index: "rt_IsFinished (report_reducer x m) \<Longrightarrow> \<not> rt_IsFinished m \<Longrightarrow> rt_Index m = x"
  by (auto simp: report_reducer_def split: if_splits)

text \<open>Reports and timeouts, as changes of the coordinator.\<close>

lemma report_mapper_coord:
  assumes "coord_ok J c0" "files_ok J c0 fs" "mapper_id J i t" "map_files J fs i (jb_n J)"
    "UpdateTask \<lparr>ut_MapperTask = Some t, ut_ReducerTask = None\<rparr> c0 = Some c"
  shows "coord_ok J c" "files_ok J c fs" "(\<forall>m\<in>set (Mappers c0). mt_IsFinished m) \<longrightarrow> (\<forall>m\<in>set (Mappers c). mt_IsFinished m)"
proof -
  have c: "c = c0\<lparr>Mappers := map (report_mapper (int i)) (Mappers c0),
      MapperFinished := (\<forall>m\<in>set (Mappers c0). mt_IsFinished (report_mapper (int i) m))\<rparr>"
    using UpdateTask_mapper [OF assms(1), of t] assms(3,5) by (simp add: mapper_id_def)
  have "mapper_ok J j (report_mapper (int i) (Mappers c0 ! j))" if "mapper_ok J j (Mappers c0 ! j)" for j
    using that by (auto simp: mapper_ok_def report_mapper_def)
  then show "coord_ok J c" using assms(1) by (simp add: coord_ok_def c)
  have "map_files J fs j (jb_n J)"
    if "j < length (jb_names J)" "mt_IsFinished (report_mapper (int i) (Mappers c0 ! j))" for j
  proof (cases "mt_IsFinished (Mappers c0 ! j)")
    case True
    then show ?thesis using assms(2) that(1) by (simp add: files_ok_def)
  next
    case False
    then have "mt_Index (Mappers c0 ! j) = int i" using report_mapper_index [OF that(2)] by simp
    then have "j = i" using assms(1) that(1) by (simp add: coord_ok_def mapper_ok_def)
    then show ?thesis using assms(4) by simp
  qed
  then show "files_ok J c fs" using assms(1,2) by (auto simp: files_ok_def coord_ok_def c)
  show "(\<forall>m\<in>set (Mappers c0). mt_IsFinished m) \<longrightarrow> (\<forall>m\<in>set (Mappers c). mt_IsFinished m)" by (simp add: c)
qed

lemma report_reducer_coord:
  assumes "coord_ok J c0" "files_ok J c0 fs" "reducer_id J j t" "out_file J fs j"
    "UpdateTask \<lparr>ut_MapperTask = None, ut_ReducerTask = Some t\<rparr> c0 = Some c"
  shows "coord_ok J c" "files_ok J c fs" "Mappers c = Mappers c0"
proof -
  have c: "c = c0\<lparr>Reducers := map (report_reducer (int j)) (Reducers c0),
      ReducerFinished := (\<forall>m\<in>set (Reducers c0). rt_IsFinished (report_reducer (int j) m))\<rparr>"
    using UpdateTask_reducer [OF assms(1), of t] assms(3,5) by (simp add: reducer_id_def)
  have "reducer_ok J i (report_reducer (int j) (Reducers c0 ! i))" if "reducer_ok J i (Reducers c0 ! i)" for i
    using that by (auto simp: reducer_ok_def report_reducer_def)
  then show "coord_ok J c" using assms(1) by (simp add: coord_ok_def c)
  have "out_file J fs i" if "i < jb_n J" "rt_IsFinished (report_reducer (int j) (Reducers c0 ! i))" for i
  proof (cases "rt_IsFinished (Reducers c0 ! i)")
    case True
    then show ?thesis using assms(2) that(1) by (simp add: files_ok_def)
  next
    case False
    then have "rt_Index (Reducers c0 ! i) = int j" using report_reducer_index [OF that(2)] by simp
    then have "i = j" using assms(1) that(1) by (simp add: coord_ok_def reducer_ok_def)
    then show ?thesis using assms(4) by simp
  qed
  then show "files_ok J c fs" using assms(1,2) by (auto simp: files_ok_def coord_ok_def c)
  show "Mappers c = Mappers c0" by (simp add: c)
qed

lemma mapper_timeout_coord:
  assumes "coord_ok J c0" "files_ok J c0 fs" "i < length (Mappers c0)" "mapperTimeoutFun (int i) c0 = Some c"
  shows "coord_ok J c" "files_ok J c fs" "map mt_IsFinished (Mappers c) = map mt_IsFinished (Mappers c0)"
proof -
  have c: "c = (if mt_IsFinished (Mappers c0 ! i) then c0 else c0\<lparr>Mappers := (Mappers c0)[i := (Mappers c0 ! i)\<lparr>mt_Assigned := False\<rparr>]\<rparr>)"
    using assms(3,4) by (auto simp: mapperTimeoutFun_def split: if_splits)
  show "map mt_IsFinished (Mappers c) = map mt_IsFinished (Mappers c0)"
    using assms(3) by (auto simp: c nth_list_update intro!: nth_equalityI split: if_splits)
  have "\<not> MapperFinished c0" if "\<not> mt_IsFinished (Mappers c0 ! i)" using assms(1,3) that by (auto simp: coord_ok_def)
  then show "coord_ok J c" "files_ok J c fs"
    using assms(1-3) by (auto simp: coord_ok_def files_ok_def mapper_ok_def c nth_list_update)
qed

lemma reducer_timeout_coord:
  assumes "coord_ok J c0" "files_ok J c0 fs" "i < length (Reducers c0)" "reducerTimeoutFun (int i) c0 = Some c"
  shows "coord_ok J c" "files_ok J c fs" "Mappers c = Mappers c0"
proof -
  have c: "c = (if rt_IsFinished (Reducers c0 ! i) then c0 else c0\<lparr>Reducers := (Reducers c0)[i := (Reducers c0 ! i)\<lparr>rt_Assigned := False\<rparr>]\<rparr>)"
    using assms(3,4) by (auto simp: reducerTimeoutFun_def split: if_splits)
  show "Mappers c = Mappers c0" by (simp add: c)
  have "\<not> ReducerFinished c0" if "\<not> rt_IsFinished (Reducers c0 ! i)" using assms(1,3) that by (auto simp: coord_ok_def)
  then show "coord_ok J c" "files_ok J c fs"
    using assms(1-3) by (auto simp: coord_ok_def files_ok_def reducer_ok_def c nth_list_update)
qed

lemma finished_flags: "map mt_IsFinished ms = map mt_IsFinished ms' \<Longrightarrow> (\<forall>m\<in>set ms. mt_IsFinished m) \<longleftrightarrow> (\<forall>m\<in>set ms'. mt_IsFinished m)"
  by (metis (mono_tags, lifting) image_iff list.set_map)

section \<open>Steps of a worker\<close>

text \<open>A worker that changes nothing but its own temporary file.\<close>

lemma own_map_tmp:
  assumes "job_ok J" "mr_inv J s" "work_ok J (ms_c s) ((ms_fs s)(map_tmp t k := f)) x"
    "exclusive (does w x (s\<lparr>ms_fs := (ms_fs s)(map_tmp t k := f)\<rparr>))" "open_tmp x = Some (map_tmp t k)"
  shows "mr_inv J (does w x (s\<lparr>ms_fs := (ms_fs s)(map_tmp t k := f)\<rparr>))"
  by (rule mr_inv_files [OF assms(2) keeps_map_tmp [OF assms(1)] assms(3,4)]) (use assms(5) in \<open>auto split: if_splits\<close>)

lemma own_out_tmp:
  assumes "job_ok J" "mr_inv J s" "work_ok J (ms_c s) ((ms_fs s)(out_tmp t := f)) x"
    "exclusive (does w x (s\<lparr>ms_fs := (ms_fs s)(out_tmp t := f)\<rparr>))" "open_tmp x = Some (out_tmp t)"
  shows "mr_inv J (does w x (s\<lparr>ms_fs := (ms_fs s)(out_tmp t := f)\<rparr>))"
  by (rule mr_inv_files [OF assms(2) keeps_out_tmp [OF assms(1)] assms(3,4)]) (use assms(5) in \<open>auto split: if_splits\<close>)

lemma map_tmp_file: "mapper_id J i t \<Longrightarrow> map_files J (fs(map_tmp t k := f)) i' k' = map_files J fs i' k'"
  using tmp_differ by (simp add: map_files_def map_tmp_def)

lemma mr_inv_map_create:
  assumes "job_ok J" "mr_inv J s" "ms_work s w = MapFiles t arr k" "k < length arr"
    "exclusive (does w (MapFile t arr k (jb_sort J (arr ! k))) (s\<lparr>ms_fs := os_Create (map_tmp t k) (FileRecords []) (ms_fs s)\<rparr>))"
  shows "mr_inv J (does w (MapFile t arr k (jb_sort J (arr ! k))) (s\<lparr>ms_fs := os_Create (map_tmp t k) (FileRecords []) (ms_fs s)\<rparr>))"
proof -
  have "work_ok J (ms_c s) (ms_fs s) (MapFiles t arr k)" using mr_invD(3) [OF assms(2), of w] assms(3) by simp
  then have "work_ok J (ms_c s) ((ms_fs s)(map_tmp t k \<mapsto> FileRecords [])) (MapFile t arr k (jb_sort J (arr ! k)))"
    using assms(4) map_tmp_file by fastforce
  then show ?thesis using own_map_tmp [OF assms(1,2)] assms(5) by (simp add: os_Create_def)
qed

lemma mr_inv_map_write:
  assumes "job_ok J" "mr_inv J s" "ms_work s w = MapFile t arr k (kv # kvs)"
    "exclusive (does w (MapFile t arr k kvs) (s\<lparr>ms_fs := enc_Encode (map_tmp t k) kv (ms_fs s)\<rparr>))"
  shows "mr_inv J (does w (MapFile t arr k kvs) (s\<lparr>ms_fs := enc_Encode (map_tmp t k) kv (ms_fs s)\<rparr>))"
proof -
  have "work_ok J (ms_c s) (ms_fs s) (MapFile t arr k (kv # kvs))" using mr_invD(3) [OF assms(2), of w] assms(3) by simp
  then obtain i written where i: "mapper_id J i t" "arr = map (part_spec J i) [0..<jb_n J]" "k < jb_n J" "map_files J (ms_fs s) i k"
      "written @ kv # kvs = jb_sort J (part_spec J i k)" "ms_fs s (map_tmp t k) = Some (FileRecords written)" by auto
  then have fs: "enc_Encode (map_tmp t k) kv (ms_fs s) = (ms_fs s)(map_tmp t k \<mapsto> FileRecords (written @ [kv]))" by (simp add: enc_Encode_def)
  have "work_ok J (ms_c s) ((ms_fs s)(map_tmp t k \<mapsto> FileRecords (written @ [kv]))) (MapFile t arr k kvs)"
    using i map_tmp_file [OF i(1)] by auto
  then show ?thesis using own_map_tmp [OF assms(1,2)] assms(4) by (simp add: fs)
qed

lemma mr_inv_map_rename:
  assumes "job_ok J" "mr_inv J s" "ms_work s w = MapFile t arr k []"
  shows "mr_inv J (does w (MapFiles t arr (Suc k)) (s\<lparr>ms_fs := os_Rename (map_tmp t k) (mr_name (mt_Index t) (int k)) (ms_fs s)\<rparr>))"
proof -
  have "work_ok J (ms_c s) (ms_fs s) (MapFile t arr k [])" using mr_invD(3) [OF assms(2), of w] assms(3) by simp
  then obtain i where i: "mapper_id J i t" "arr = map (part_spec J i) [0..<jb_n J]" "k < jb_n J" "map_files J (ms_fs s) i k"
      "ms_fs s (map_tmp t k) = Some (file_spec J i k)" by (auto simp: file_spec_def)
  then have fs: "os_Rename (map_tmp t k) (mr_name (mt_Index t) (int k)) (ms_fs s) =
      ((ms_fs s)(map_tmp t k := None))(mr_name (int i) (int k) \<mapsto> file_spec J i k)" by (simp add: os_Rename_def mapper_id_def)
  let ?fs = "((ms_fs s)(map_tmp t k := None))(mr_name (int i) (int k) \<mapsto> file_spec J i k)"
  have keep: "keeps J (ms_fs s) ?fs" by (rule keeps_trans [OF keeps_map_tmp [OF assms(1)] keeps_map_file [OF assms(1)]])
  then have "map_files J ?fs i k" using i(4) by (simp add: keeps_def)
  then have "map_files J ?fs i (Suc k)" by (auto simp: map_files_def less_Suc_eq)
  then have "work_ok J (ms_c s) ?fs (MapFiles t arr (Suc k))" using i(1-3) by auto
  moreover have "exclusive (does w (MapFiles t arr (Suc k)) (s\<lparr>ms_fs := ?fs\<rparr>))"
    using mr_invD(4) [OF assms(2)] by (auto simp: exclusive_def)
  ultimately show ?thesis unfolding fs
    by (rule mr_inv_files [OF assms(2) keep]) (use assms(3) tmp_differ [symmetric] in \<open>auto split: if_splits\<close>)
qed

lemma mr_inv_reduce_create:
  assumes "job_ok J" "mr_inv J s" "ms_work s w = ReduceRead t i kvs" "rt_MapperCount t \<le> int i"
    "exclusive (does w (ReduceFile t (reduceGroups (jb_reduce J) (jb_sort J kvs))) (s\<lparr>ms_fs := os_Create (out_tmp t) (FileText []) (ms_fs s)\<rparr>))"
  shows "mr_inv J (does w (ReduceFile t (reduceGroups (jb_reduce J) (jb_sort J kvs))) (s\<lparr>ms_fs := os_Create (out_tmp t) (FileText []) (ms_fs s)\<rparr>))"
proof -
  have "work_ok J (ms_c s) (ms_fs s) (ReduceRead t i kvs)" using mr_invD(3) [OF assms(2), of w] assms(3) by simp
  then obtain j where j: "reducer_id J j t" "i = length (jb_names J)" "kvs = concat (map (\<lambda>i. jb_sort J (part_spec J i j)) [0..<i])"
    using assms(4) by (auto simp: reducer_id_def)
  then have "reduceGroups (jb_reduce J) (jb_sort J kvs) = out_lines J j" by (simp add: out_lines_def reduce_input_def)
  then have "work_ok J (ms_c s) ((ms_fs s)(out_tmp t \<mapsto> FileText [])) (ReduceFile t (reduceGroups (jb_reduce J) (jb_sort J kvs)))"
    using j(1) by auto
  then show ?thesis using own_out_tmp [OF assms(1,2)] assms(5) by (simp add: os_Create_def)
qed

lemma mr_inv_reduce_write:
  assumes "job_ok J" "mr_inv J s" "ms_work s w = ReduceFile t (line # lines)"
    "exclusive (does w (ReduceFile t lines) (s\<lparr>ms_fs := fmt_Fprintf (out_tmp t) line (ms_fs s)\<rparr>))"
  shows "mr_inv J (does w (ReduceFile t lines) (s\<lparr>ms_fs := fmt_Fprintf (out_tmp t) line (ms_fs s)\<rparr>))"
proof -
  have "work_ok J (ms_c s) (ms_fs s) (ReduceFile t (line # lines))" using mr_invD(3) [OF assms(2), of w] assms(3) by simp
  then obtain j written where j: "reducer_id J j t" "written @ line # lines = out_lines J j"
      "ms_fs s (out_tmp t) = Some (FileText (concat written))" by auto
  then have fs: "fmt_Fprintf (out_tmp t) line (ms_fs s) = (ms_fs s)(out_tmp t \<mapsto> FileText (concat (written @ [line])))" by (simp add: fmt_Fprintf_def)
  have "work_ok J (ms_c s) ((ms_fs s)(out_tmp t \<mapsto> FileText (concat (written @ [line])))) (ReduceFile t lines)"
    using j by (auto intro!: exI [of _ "written @ [line]"])
  then show ?thesis using own_out_tmp [OF assms(1,2)] assms(4) by (simp add: fs)
qed

lemma mr_inv_reduce_rename:
  assumes "job_ok J" "mr_inv J s" "ms_work s w = ReduceFile t []"
  shows "mr_inv J (does w (ReduceDone t) (s\<lparr>ms_fs := os_Rename (out_tmp t) (out_name (rt_Index t)) (ms_fs s)\<rparr>))"
proof -
  have "work_ok J (ms_c s) (ms_fs s) (ReduceFile t [])" using mr_invD(3) [OF assms(2), of w] assms(3) by simp
  then obtain j where j: "reducer_id J j t" "ms_fs s (out_tmp t) = Some (FileText (concat (out_lines J j)))" by auto
  let ?fs = "((ms_fs s)(out_tmp t := None))(out_name (int j) \<mapsto> FileText (concat (out_lines J j)))"
  have fs: "os_Rename (out_tmp t) (out_name (rt_Index t)) (ms_fs s) = ?fs" using j by (simp add: os_Rename_def reducer_id_def)
  have keep: "keeps J (ms_fs s) ?fs" by (rule keeps_trans [OF keeps_out_tmp [OF assms(1)] keeps_out_file [OF assms(1)]])
  have "work_ok J (ms_c s) ?fs (ReduceDone t)" using j(1) by (auto simp: out_file_def)
  moreover have "exclusive (does w (ReduceDone t) (s\<lparr>ms_fs := ?fs\<rparr>))"
    using mr_invD(4) [OF assms(2)] by (auto simp: exclusive_def)
  ultimately show ?thesis unfolding fs
    by (rule mr_inv_files [OF assms(2) keep]) (use assms(3) tmp_differ [symmetric] in \<open>auto split: if_splits\<close>)
qed

lemma readPartition_result:
  assumes "mr_inv J s" "ms_work s w = ReduceRead t i kvs" "int i < rt_MapperCount t"
  obtains j where "reducer_id J j t" "i < length (jb_names J)" "readPartitions (rt_Index t) [i] (ms_fs s) = Some (jb_sort J (part_spec J i j))"
    "kvs = concat (map (\<lambda>i. jb_sort J (part_spec J i j)) [0..<i])" "\<forall>m\<in>set (Mappers (ms_c s)). mt_IsFinished m"
proof -
  note ok = mr_invD [OF assms(1)]
  have "work_ok J (ms_c s) (ms_fs s) (ReduceRead t i kvs)" using ok(3) [of w] assms(2) by simp
  then obtain j where j: "reducer_id J j t" "i < length (jb_names J)" "kvs = concat (map (\<lambda>i. jb_sort J (part_spec J i j)) [0..<i])"
      "\<forall>m\<in>set (Mappers (ms_c s)). mt_IsFinished m" using assms(3) by (auto simp: reducer_id_def)
  then have "map_files J (ms_fs s) i (jb_n J)" using ok(1,2) by (auto simp: files_ok_def coord_ok_def)
  then have "readPartitions (rt_Index t) [i] (ms_fs s) = Some (jb_sort J (part_spec J i j))"
    using readPartitions_result [of "[i]" J "ms_fs s" j] j(1) by (simp add: reducer_id_def)
  then show ?thesis using j that by blast
qed

lemma mr_inv_reduce_read:
  assumes "mr_inv J s" "ms_work s w = ReduceRead t i kvs" "int i < rt_MapperCount t" "readPartitions (rt_Index t) [i] (ms_fs s) = Some kvs'"
  shows "mr_inv J (does w (ReduceRead t (Suc i) (kvs @ kvs')) s)"
proof -
  obtain j where "reducer_id J j t" "i < length (jb_names J)" "readPartitions (rt_Index t) [i] (ms_fs s) = Some (jb_sort J (part_spec J i j))"
    "kvs = concat (map (\<lambda>i. jb_sort J (part_spec J i j)) [0..<i])" "\<forall>m\<in>set (Mappers (ms_c s)). mt_IsFinished m"
    by (rule readPartition_result [OF assms(1-3)])
  then have "work_ok J (ms_c s) (ms_fs s) (ReduceRead t (Suc i) (kvs @ kvs'))" using assms(4) by auto
  then show ?thesis using mr_inv_coord(1) [OF assms(1) mr_invD(1,2) [OF assms(1)], of "ReduceRead t (Suc i) (kvs @ kvs')" w] by simp
qed

lemma mr_inv_other: "mr_inv J s \<Longrightarrow> work_ok J (ms_c s) (ms_fs s) x \<Longrightarrow> open_tmp x = None \<Longrightarrow> mr_inv J (does w x s)"
  using mr_inv_coord(1) [of J s "ms_c s" x w] mr_invD(1,2) [of J s] by simp

lemma mr_inv_step:
  assumes "job_ok J" "mr_inv J s" "exclusive_step J s s'"
  shows "mr_inv J s'"
proof -
  note ok = mr_invD [OF assms(2)]
  have ex: "exclusive s'" and "mr_step J s s'" using assms(3) by (auto simp: exclusive_step_def)
  from this(2) show ?thesis
  proof cases
    case (map_compute w t arr)
    then obtain i where i: "mapper_id J i t" using ok(3) [of w] by auto
    moreover have "inputs_kept J (ms_fs s)" using ok(2) by (simp add: files_ok_def)
    ultimately have "arr = map (part_spec J i) [0..<jb_n J]" using mapperPartitions_result [OF assms(1)] map_compute(3) by simp
    then show ?thesis unfolding map_compute(1) using i by (intro mr_inv_other [OF assms(2)]) (auto simp: map_files_def)
  next
    case (map_report w t arr k c)
    then obtain i where i: "mapper_id J i t" "map_files J (ms_fs s) i (jb_n J)" using ok(3) [of w] by auto
    then show ?thesis unfolding map_report(1) using report_mapper_coord [OF ok(1,2) i map_report(4)] by (intro mr_inv_coord(1) [OF assms(2)]) auto
  next
    case (reduce_report w t c)
    then obtain j where j: "reducer_id J j t" "out_file J (ms_fs s) j" using ok(3) [of w] by auto
    then show ?thesis unfolding reduce_report(1) using report_reducer_coord [OF ok(1,2) j reduce_report(3)] by (intro mr_inv_coord(1) [OF assms(2)]) auto
  next
    case (map_timeout i c)
    note t = mapper_timeout_coord [OF ok(1,2) map_timeout(2,4)]
    show ?thesis unfolding map_timeout(1) by (rule mr_inv_coord(2) [OF assms(2) t(1,2), of Idle]) (use finished_flags [OF t(3)] in auto)
  next
    case (reduce_timeout i c)
    note t = reducer_timeout_coord [OF ok(1,2) reduce_timeout(2,4)]
    show ?thesis unfolding reduce_timeout(1) by (rule mr_inv_coord(2) [OF assms(2) t(1,2), of Idle]) (use t(3) in auto)
  next
    case (map_create w t arr k)
    then show ?thesis using mr_inv_map_create [OF assms(1,2) map_create(2,3)] ex by simp
  next
    case (map_write w t arr k kv kvs)
    then show ?thesis using mr_inv_map_write [OF assms(1,2) map_write(2)] ex by simp
  next
    case (reduce_create w t i kvs)
    then show ?thesis using mr_inv_reduce_create [OF assms(1,2) reduce_create(2,3)] ex by simp
  next
    case (reduce_write w t line lines)
    then show ?thesis using mr_inv_reduce_write [OF assms(1,2) reduce_write(2)] ex by simp
  next
    case (fetch w now c resp)
    then show ?thesis using mr_inv_fetch(1) [OF assms(2)] by simp
  next
    case (map_rename w t arr k)
    then show ?thesis using mr_inv_map_rename [OF assms(1,2)] by simp
  next
    case (reduce_rename w t)
    then show ?thesis using mr_inv_reduce_rename [OF assms(1,2)] by simp
  qed (auto intro: mr_inv_fetch(2) [OF assms(2)] mr_inv_reduce_read [OF assms(2)] mr_inv_other [OF assms(2)])
qed

interpretation mr_system: transition_invariant "mr_init J" "exclusive_step J" "\<lambda>s. job_ok J \<longrightarrow> mr_inv J s" for J
  by unfold_locales (auto intro: mr_inv_init mr_inv_step)

end
