(* ===== verification/MR_Props.thy ===== *)
theory MR_Props
  imports MR_System
begin

text \<open>
  The correctness of MapReduce: a job that is done has the output of the sequential program, whatever workers ran it;
  no step of a worker fails; and one worker alone finishes a job.
\<close>

section \<open>The sequential program\<close>









section \<open>One worker alone\<close>

text \<open>Between two turns of a single worker no task is in progress, and the flags say what is finished.\<close>

definition idle :: "Coordinator \<Rightarrow> bool" where
  "idle c \<longleftrightarrow> (\<forall>m\<in>set (Mappers c). mt_Assigned m \<longrightarrow> mt_IsFinished m) \<and> (\<forall>r\<in>set (Reducers c). rt_Assigned r \<longrightarrow> rt_IsFinished r) \<and>
     (MapperFinished c \<longleftrightarrow> (\<forall>m\<in>set (Mappers c). mt_IsFinished m)) \<and> (ReducerFinished c \<longleftrightarrow> (\<forall>r\<in>set (Reducers c). rt_IsFinished r))"

lemma idle_mappers:
  assumes "idle c" "\<And>m. m \<in> set (Mappers c') \<Longrightarrow> mt_Assigned m \<Longrightarrow> mt_IsFinished m" "Reducers c' = Reducers c"
    "ReducerFinished c' = ReducerFinished c" "MapperFinished c' \<longleftrightarrow> (\<forall>m\<in>set (Mappers c'). mt_IsFinished m)"
  shows "idle c'"
  using assms(1) unfolding idle_def assms(3-5) by (elim conjE, intro conjI ballI impI) (simp_all add: assms(2))

lemma idle_reducers:
  assumes "idle c" "\<And>m. m \<in> set (Reducers c') \<Longrightarrow> rt_Assigned m \<Longrightarrow> rt_IsFinished m" "Mappers c' = Mappers c"
    "MapperFinished c' = MapperFinished c" "ReducerFinished c' \<longleftrightarrow> (\<forall>m\<in>set (Reducers c'). rt_IsFinished m)"
  shows "idle c'"
  using assms(1) unfolding idle_def assms(3-5) by (elim conjE, intro conjI ballI impI) (simp_all add: assms(2))

definition todo :: "Coordinator \<Rightarrow> nat" where
  "todo c = card {i. i < length (Mappers c) \<and> \<not> mt_IsFinished (Mappers c ! i)} +
     card {i. i < length (Reducers c) \<and> \<not> rt_IsFinished (Reducers c ! i)}"

lemma card_remove_index: "i \<in> A \<Longrightarrow> finite A \<Longrightarrow> B = A - {i} \<Longrightarrow> card A = Suc (card B)"
  by (metis card_Suc_Diff1)

abbreviation mr_reach :: "job \<Rightarrow> mr_state \<Rightarrow> bool" where
  "mr_reach J \<equiv> reach (mr_init J) (exclusive_step J)"

lemma mr_reach_inv: "job_ok J \<Longrightarrow> mr_reach J s \<Longrightarrow> mr_inv J s"
  using mr_system.reach_inv by blast

text \<open>Only worker 0 works.\<close>

definition solo :: "Coordinator \<Rightarrow> files \<Rightarrow> work \<Rightarrow> mr_state" where
  "solo c fs x = \<lparr>ms_c = c, ms_fs = fs, ms_work = (\<lambda>_. Idle)(0 := x)\<rparr>"

lemma solo_simps [simp]: "ms_c (solo c fs x) = c" "ms_fs (solo c fs x) = fs" "ms_work (solo c fs x) 0 = x"
  by (simp_all add: solo_def)

lemma solo_exclusive: "exclusive (solo c fs x)"
  by (auto simp: exclusive_def solo_def)

lemma solo_step: "mr_reach J (solo c fs x) \<Longrightarrow> mr_step J (solo c fs x) s \<Longrightarrow> s = solo c' fs' x' \<Longrightarrow> mr_reach J (solo c' fs' x')"
  using reach_step [of "mr_init J" "exclusive_step J" "solo c fs x" s] solo_exclusive by (simp add: exclusive_step_def)

lemma encode_run:
  "mr_reach J (solo c fs (MapFile t arr k kvs)) \<Longrightarrow> mr_reach J (solo c (fold (enc_Encode (map_tmp t k)) kvs fs) (MapFile t arr k []))"
proof (induction kvs arbitrary: fs)
  case (Cons kv kvs)
  have "mr_reach J (solo c (enc_Encode (map_tmp t k) kv fs) (MapFile t arr k kvs))"
    by (rule solo_step [OF Cons.prems mr_step.map_write [of _ 0]]) (auto simp: solo_def)
  then show ?case using Cons.IH by simp
qed simp

lemma print_run:
  "mr_reach J (solo c fs (ReduceFile t lines)) \<Longrightarrow> mr_reach J (solo c (fold (fmt_Fprintf (out_tmp t)) lines fs) (ReduceFile t []))"
proof (induction lines arbitrary: fs)
  case (Cons line lines)
  have "mr_reach J (solo c (fmt_Fprintf (out_tmp t) line fs) (ReduceFile t lines))"
    by (rule solo_step [OF Cons.prems mr_step.reduce_write [of _ 0]]) (auto simp: solo_def)
  then show ?case using Cons.IH by simp
qed simp

lemma partition_run:
  assumes "mr_reach J (solo c fs (MapFiles t arr k))" "k < length arr"
  shows "mr_reach J (solo c (writePartition (jb_sort J) (mt_Index t) k (arr ! k) fs) (MapFiles t arr (Suc k)))"
proof -
  let ?fs1 = "os_Create (map_tmp t k) (FileRecords []) fs"
  have "mr_reach J (solo c ?fs1 (MapFile t arr k (jb_sort J (arr ! k))))"
    by (rule solo_step [OF assms(1) mr_step.map_create [of _ 0]]) (use assms(2) in \<open>auto simp: solo_def\<close>)
  then have r: "mr_reach J (solo c (fold (enc_Encode (map_tmp t k)) (jb_sort J (arr ! k)) ?fs1) (MapFile t arr k []))" by (rule encode_run)
  show ?thesis by (rule solo_step [OF r mr_step.map_rename [of _ 0]]) (auto simp: solo_def writePartition_def map_tmp_def Let_def)
qed

text \<open>Writing the partitions of a task from number \<open>k\<close> on.\<close>

lemma writePartitions_run:
  assumes "mr_reach J (solo c fs (MapFiles t arr k))" "k \<le> length arr"
  shows "mr_reach J (solo c (fold (\<lambda>(i, kvs). writePartition (jb_sort J) (mt_Index t) i kvs) (enumerate k (drop k arr)) fs) (MapFiles t arr (length arr)))"
  using assms
proof (induction "length arr - k" arbitrary: k fs)
  case (Suc d)
  then have k: "k < length arr" by simp
  then have "enumerate k (drop k arr) = (k, arr ! k) # enumerate (Suc k) (drop (Suc k) arr)" by (simp add: Cons_nth_drop_Suc [symmetric])
  then show ?case using Suc.hyps(1) [OF _ partition_run [OF Suc.prems(1) k]] Suc.hyps(2) k by simp
qed simp

text \<open>A worker alone, between two turns.\<close>

lemma doMapperTask_run:
  assumes "job_ok J" "mr_reach J (solo c fs (MapStart t))"
  shows "\<exists>c' fs'. UpdateTask \<lparr>ut_MapperTask = Some t, ut_ReducerTask = None\<rparr> c = Some c' \<and>
    doMapperTask (jb_sort J) (jb_map J) t (c, fs) = Some (c', fs') \<and> mr_reach J (solo c' fs' Idle)"
proof -
  note ok = mr_invD [OF mr_reach_inv [OF assms]]
  obtain i where i: "mapper_id J i t" using ok(3) [of 0] by auto
  have "inputs_kept J fs" using ok(2) by (simp add: files_ok_def)
  then obtain arr where arr: "mapperPartitions (jb_map J) t fs = Some arr" using mapperPartitions_result [OF assms(1) _ i] by blast
  have "mr_reach J (solo c fs (MapFiles t arr 0))" by (rule solo_step [OF assms(2) mr_step.map_compute [of _ 0]]) (auto simp: solo_def arr)
  then have r: "mr_reach J (solo c (writePartitions (jb_sort J) (mt_Index t) arr fs) (MapFiles t arr (length arr)))"
    using writePartitions_run [of J c fs t arr 0] by (simp add: writePartitions_def)
  obtain c' where u: "UpdateTask \<lparr>ut_MapperTask = Some t, ut_ReducerTask = None\<rparr> c = Some c'" using UpdateTask_mapper ok(1) by auto
  have "mr_reach J (solo c' (writePartitions (jb_sort J) (mt_Index t) arr fs) Idle)"
    by (rule solo_step [OF r mr_step.map_report [of _ 0]]) (auto simp: solo_def u)
  then show ?thesis using arr u by (simp add: doMapperTask_def)
qed

lemma readPartitions_append:
  "readPartitions j (xs @ ys) fs = do { as \<leftarrow> readPartitions j xs fs; bs \<leftarrow> readPartitions j ys fs; Some (as @ bs) }"
  by (induction xs) (auto split: Option.bind_splits content.splits)

lemma read_run:
  assumes "job_ok J" "mr_reach J (solo c fs (ReduceRead t 0 []))" "int i \<le> rt_MapperCount t"
  shows "\<exists>kvs. readPartitions (rt_Index t) [0..<i] fs = Some kvs \<and> mr_reach J (solo c fs (ReduceRead t i kvs))"
  using assms(3)
proof (induction i)
  case 0
  then show ?case using assms(2) by simp
next
  case (Suc i)
  then obtain kvs where k: "readPartitions (rt_Index t) [0..<i] fs = Some kvs" "mr_reach J (solo c fs (ReduceRead t i kvs))" by auto
  have inv: "mr_inv J (solo c fs (ReduceRead t i kvs))" by (rule mr_reach_inv [OF assms(1) k(2)])
  obtain j where "readPartitions (rt_Index t) [i] fs = Some (jb_sort J (part_spec J i j))"
    using readPartition_result [OF inv, of 0] Suc.prems by fastforce
  then show ?case using k solo_step [OF k(2) mr_step.reduce_read [of _ 0]] Suc.prems
    by (auto simp: solo_def readPartitions_append simp del: readPartitions.simps)
qed

lemma doReducerTask_run:
  assumes "job_ok J" "mr_reach J (solo c fs (ReduceRead t 0 []))"
  shows "\<exists>c' fs'. UpdateTask \<lparr>ut_MapperTask = None, ut_ReducerTask = Some t\<rparr> c = Some c' \<and>
    doReducerTask (jb_sort J) (jb_reduce J) t (c, fs) = Some (c', fs') \<and> mr_reach J (solo c' fs' Idle)"
proof -
  note ok = mr_invD [OF mr_reach_inv [OF assms]]
  have pos: "0 \<le> rt_MapperCount t" using ok(3) [of 0] by (auto simp: reducer_id_def)
  then obtain kvs where k: "readPartitions (rt_Index t) [0..<nat (rt_MapperCount t)] fs = Some kvs"
      "mr_reach J (solo c fs (ReduceRead t (nat (rt_MapperCount t)) kvs))" using read_run [OF assms, of "nat (rt_MapperCount t)"] by auto
  let ?lines = "reduceGroups (jb_reduce J) (jb_sort J kvs)" and ?fs1 = "os_Create (out_tmp t) (FileText []) fs"
  have "mr_reach J (solo c ?fs1 (ReduceFile t ?lines))"
    by (rule solo_step [OF k(2) mr_step.reduce_create [of _ 0]]) (use pos in \<open>auto simp: solo_def\<close>)
  then have r: "mr_reach J (solo c (fold (fmt_Fprintf (out_tmp t)) ?lines ?fs1) (ReduceFile t []))" by (rule print_run)
  have r2: "mr_reach J (solo c (writeOutput (rt_Index t) ?lines fs) (ReduceDone t))"
    by (rule solo_step [OF r mr_step.reduce_rename [of _ 0]]) (auto simp: solo_def writeOutput_def out_tmp_def Let_def)
  obtain c' where u: "UpdateTask \<lparr>ut_MapperTask = None, ut_ReducerTask = Some t\<rparr> c = Some c'" using UpdateTask_reducer ok(1) by auto
  have "mr_reach J (solo c' (writeOutput (rt_Index t) ?lines fs) Idle)"
    by (rule solo_step [OF r2 mr_step.reduce_report [of _ 0]]) (auto simp: solo_def u)
  then show ?thesis using k(1) u by (simp add: doReducerTask_def reducerOutput_def)
qed

lemma todo_cong:
  assumes "map mt_IsFinished (Mappers c') = map mt_IsFinished (Mappers c)" "map rt_IsFinished (Reducers c') = map rt_IsFinished (Reducers c)"
  shows "todo c' = todo c"
proof -
  have len: "length (Mappers c') = length (Mappers c)" "length (Reducers c') = length (Reducers c)"
    using assms by (metis length_map)+
  have "mt_IsFinished (Mappers c' ! i) = mt_IsFinished (Mappers c ! i)" if "i < length (Mappers c)" for i
    using assms(1) that len by (metis nth_map)
  moreover have "rt_IsFinished (Reducers c' ! i) = rt_IsFinished (Reducers c ! i)" if "i < length (Reducers c)" for i
    using assms(2) that len by (metis nth_map)
  ultimately show ?thesis unfolding todo_def len by (intro arg_cong2 [of _ _ _ _ "(+)"] arg_cong [of _ _ card] Collect_cong) auto
qed

text \<open>What a turn does to the coordinator: the task that was handed out is finished, or it took too long and is free again.\<close>

lemma mapper_turn_coord:
  assumes "coord_ok J c" "idle c" "i < length (Mappers c)" "\<not> mt_IsFinished (Mappers c ! i)" "t = makeMapTask now (Mappers c ! i)"
    "ms = (Mappers c)[i := t]" "c' = c\<lparr>Mappers := map (report_mapper (mt_Index t)) ms, MapperFinished := (\<forall>m\<in>set ms. mt_IsFinished (report_mapper (mt_Index t) m))\<rparr>"
  shows "idle c'" "todo c = Suc (todo c')"
proof -
  have idx: "mt_Index (ms ! j) = int j" if "j < length ms" for j
    using assms(1,3,5,6) that by (cases "j = i") (auto simp: coord_ok_def mapper_ok_def makeMapTask_def)
  have ti: "mt_Index t = int i" using idx [of i] assms(3,6) by simp
  have fin: "mt_IsFinished (report_mapper (mt_Index t) (ms ! j)) \<longleftrightarrow> j = i \<or> mt_IsFinished (Mappers c ! j)" if "j < length ms" for j
    using that idx [OF that] assms(3-6) ti by (cases "j = i") (auto simp: report_mapper_def makeMapTask_def)
  have "mt_IsFinished m" if "m \<in> set (Mappers c')" "mt_Assigned m" for m
  proof -
    have "m \<in> report_mapper (mt_Index t) ` set ms" using that(1) by (simp add: assms(7))
    then obtain j where j: "j < length ms" "m = report_mapper (mt_Index t) (ms ! j)" by (metis imageE in_set_conv_nth)
    show ?thesis
    proof (cases "j = i")
      case False
      then have "mt_Assigned (Mappers c ! j)" using that(2) j assms(6) by (simp add: report_mapper_def split: if_splits)
      then show ?thesis using fin [OF j(1)] j assms(2,6) by (simp add: idle_def)
    qed (use fin [OF j(1)] j(2) in simp)
  qed
  then show "idle c'" by (rule idle_mappers [OF assms(2)]) (simp_all add: assms(7))
  have lm: "length ms = length (Mappers c)" using assms(6) by simp
  have "{j. j < length (Mappers c') \<and> \<not> mt_IsFinished (Mappers c' ! j)} =
      {j. j < length (Mappers c) \<and> \<not> mt_IsFinished (Mappers c ! j)} - {i}"
    using fin lm by (auto simp: assms(7))
  then have "card {j. j < length (Mappers c) \<and> \<not> mt_IsFinished (Mappers c ! j)} =
      Suc (card {j. j < length (Mappers c') \<and> \<not> mt_IsFinished (Mappers c' ! j)})"
    using assms(3,4) by (intro card_remove_index [of i]) auto
  then show "todo c = Suc (todo c')" by (simp add: todo_def assms(7))
qed

lemma mapper_late_coord:
  assumes "coord_ok J c" "idle c" "i < length (Mappers c)" "\<not> mt_IsFinished (Mappers c ! i)" "t = makeMapTask now (Mappers c ! i)"
    "ms = (Mappers c)[i := t\<lparr>mt_Assigned := False\<rparr>]" "c' = c\<lparr>Mappers := map (report_mapper (mt_Index t)) ms, MapperFinished := (\<forall>m\<in>set ms. mt_IsFinished (report_mapper (mt_Index t) m))\<rparr>"
  shows "idle c'" "todo c' = todo c"
proof -
  have idx: "mt_Index (ms ! j) = int j" if "j < length ms" for j
    using assms(1,3,5,6) that by (cases "j = i") (auto simp: coord_ok_def mapper_ok_def makeMapTask_def)
  have same: "report_mapper (mt_Index t) (ms ! j) = ms ! j" if "j < length ms" for j
    using that idx [OF that] idx [of i] assms(3,6) by (cases "j = i") (auto simp: report_mapper_def)
  then have "report_mapper (mt_Index t) m = m" if "m \<in> set ms" for m using that by (metis in_set_conv_nth)
  then have c': "c' = c\<lparr>Mappers := ms, MapperFinished := (\<forall>m\<in>set ms. mt_IsFinished m)\<rparr>"
    by (simp add: assms(7) map_idI)
  have "mt_Assigned m \<Longrightarrow> mt_IsFinished m" if "m \<in> set ms" for m
    using that set_update_subset_insert [of "Mappers c" i "t\<lparr>mt_Assigned := False\<rparr>"] assms(2,6) by (auto simp: idle_def)
  then show "idle c'" by (intro idle_mappers [OF assms(2)]) (simp_all add: c')
  have "map mt_IsFinished ms = map mt_IsFinished (Mappers c)"
    using assms(3-6) by (auto simp: makeMapTask_def nth_list_update intro!: nth_equalityI split: if_splits)
  then show "todo c' = todo c" by (intro todo_cong) (simp_all add: c')
qed

lemma reducer_turn_coord:
  assumes "coord_ok J c" "idle c" "i < length (Reducers c)" "\<not> rt_IsFinished (Reducers c ! i)" "t = makeReduceTask now (Reducers c ! i)"
    "ms = (Reducers c)[i := t]" "c' = c\<lparr>Reducers := map (report_reducer (rt_Index t)) ms, ReducerFinished := (\<forall>m\<in>set ms. rt_IsFinished (report_reducer (rt_Index t) m))\<rparr>"
  shows "idle c'" "todo c = Suc (todo c')"
proof -
  have idx: "rt_Index (ms ! j) = int j" if "j < length ms" for j
    using assms(1,3,5,6) that by (cases "j = i") (auto simp: coord_ok_def reducer_ok_def makeReduceTask_def)
  have ti: "rt_Index t = int i" using idx [of i] assms(3,6) by simp
  have fin: "rt_IsFinished (report_reducer (rt_Index t) (ms ! j)) \<longleftrightarrow> j = i \<or> rt_IsFinished (Reducers c ! j)" if "j < length ms" for j
    using that idx [OF that] assms(3-6) ti by (cases "j = i") (auto simp: report_reducer_def makeReduceTask_def)
  have "rt_IsFinished m" if "m \<in> set (Reducers c')" "rt_Assigned m" for m
  proof -
    have "m \<in> report_reducer (rt_Index t) ` set ms" using that(1) by (simp add: assms(7))
    then obtain j where j: "j < length ms" "m = report_reducer (rt_Index t) (ms ! j)" by (metis imageE in_set_conv_nth)
    show ?thesis
    proof (cases "j = i")
      case False
      then have "rt_Assigned (Reducers c ! j)" using that(2) j assms(6) by (simp add: report_reducer_def split: if_splits)
      then show ?thesis using fin [OF j(1)] j assms(2,6) by (simp add: idle_def)
    qed (use fin [OF j(1)] j(2) in simp)
  qed
  then show "idle c'" by (rule idle_reducers [OF assms(2)]) (simp_all add: assms(7))
  have lm: "length ms = length (Reducers c)" using assms(6) by simp
  have "{j. j < length (Reducers c') \<and> \<not> rt_IsFinished (Reducers c' ! j)} =
      {j. j < length (Reducers c) \<and> \<not> rt_IsFinished (Reducers c ! j)} - {i}"
    using fin lm by (auto simp: assms(7))
  then have "card {j. j < length (Reducers c) \<and> \<not> rt_IsFinished (Reducers c ! j)} =
      Suc (card {j. j < length (Reducers c') \<and> \<not> rt_IsFinished (Reducers c' ! j)})"
    using assms(3,4) by (intro card_remove_index [of i]) auto
  then show "todo c = Suc (todo c')" by (simp add: todo_def assms(7))
qed

lemma reducer_late_coord:
  assumes "coord_ok J c" "idle c" "i < length (Reducers c)" "\<not> rt_IsFinished (Reducers c ! i)" "t = makeReduceTask now (Reducers c ! i)"
    "ms = (Reducers c)[i := t\<lparr>rt_Assigned := False\<rparr>]" "c' = c\<lparr>Reducers := map (report_reducer (rt_Index t)) ms, ReducerFinished := (\<forall>m\<in>set ms. rt_IsFinished (report_reducer (rt_Index t) m))\<rparr>"
  shows "idle c'" "todo c' = todo c"
proof -
  have idx: "rt_Index (ms ! j) = int j" if "j < length ms" for j
    using assms(1,3,5,6) that by (cases "j = i") (auto simp: coord_ok_def reducer_ok_def makeReduceTask_def)
  have same: "report_reducer (rt_Index t) (ms ! j) = ms ! j" if "j < length ms" for j
    using that idx [OF that] idx [of i] assms(3,6) by (cases "j = i") (auto simp: report_reducer_def)
  then have "report_reducer (rt_Index t) m = m" if "m \<in> set ms" for m using that by (metis in_set_conv_nth)
  then have c': "c' = c\<lparr>Reducers := ms, ReducerFinished := (\<forall>m\<in>set ms. rt_IsFinished m)\<rparr>"
    by (simp add: assms(7) map_idI)
  have "rt_Assigned m \<Longrightarrow> rt_IsFinished m" if "m \<in> set ms" for m
    using that set_update_subset_insert [of "Reducers c" i "t\<lparr>rt_Assigned := False\<rparr>"] assms(2,6) by (auto simp: idle_def)
  then show "idle c'" by (intro idle_reducers [OF assms(2)]) (simp_all add: c')
  have "map rt_IsFinished ms = map rt_IsFinished (Reducers c)"
    using assms(3-6) by (auto simp: makeReduceTask_def nth_list_update intro!: nth_equalityI split: if_splits)
  then show "todo c' = todo c" by (intro todo_cong) (simp_all add: c')
qed

lemma mapper_turn:
  assumes "job_ok J" "mr_reach J (solo c fs Idle)" "idle c" "\<not> MapperFinished c" "FetchTask now c = (c1, resp)"
  shows "\<exists>t c2 c' fs'. \<not> AllFinished resp \<and> ft_MapperTask resp = Some t \<and> ft_ReducerTask resp = None \<and>
    (if late then taskTimeout resp c1 else Some c1) = Some c2 \<and> doMapperTask (jb_sort J) (jb_map J) t (c2, fs) = Some (c', fs') \<and>
    mr_reach J (solo c' fs' Idle) \<and> idle c' \<and> todo c = (if late then todo c' else Suc (todo c'))"
  using assms(5)
proof (cases rule: FetchTask_cases)
  case none
  then have "\<forall>m\<in>set (Mappers c). mt_Assigned m \<or> mt_IsFinished m"
    using assms(4,5) fetchMapper_cases [of now "Mappers c"] by (auto simp: FetchTask_def split: prod.splits)
  then show ?thesis using assms(3,4) by (auto simp: idle_def)
next
  case (mapper i)
  note ok = mr_invD [OF mr_reach_inv [OF assms(1,2)]]
  define t where "t = makeMapTask now (Mappers c ! i)"
  have i: "mt_Index t = int i" using ok(1) mapper(1) by (auto simp: coord_ok_def mapper_ok_def makeMapTask_def t_def)
  have r1: "mr_reach J (solo c1 fs (MapStart t))"
    by (rule solo_step [OF assms(2) mr_step.fetch [of _ 0]]) (use assms(5) mapper in \<open>auto simp: solo_def next_work_def t_def\<close>)
  define c2 where "c2 = (if late then c\<lparr>Mappers := (Mappers c)[i := t\<lparr>mt_Assigned := False\<rparr>]\<rparr> else c1)"
  have to: "(if late then taskTimeout resp c1 else Some c1) = Some c2"
    using mapper(1,2) i unfolding c2_def mapper(5) t_def [symmetric]
    by (auto simp: taskTimeout_def mapper(6,7) t_def [symmetric] mapperTimeoutFun_def) (auto simp: t_def makeMapTask_def)
  have "mr_reach J (solo c2 fs (MapStart t))"
  proof (cases late)
    case True
    then have "mapperTimeoutFun (int i) c1 = Some c2" using to i by (simp add: taskTimeout_def mapper(6,7) t_def [symmetric])
    then show ?thesis using mapper(1,5) solo_step [OF r1 mr_step.map_timeout [of i]] by (simp add: solo_def makeMapTask_def)
  qed (use r1 in \<open>simp add: c2_def\<close>)
  then obtain c' fs' where d: "UpdateTask \<lparr>ut_MapperTask = Some t, ut_ReducerTask = None\<rparr> c2 = Some c'"
      "doMapperTask (jb_sort J) (jb_map J) t (c2, fs) = Some (c', fs')" "mr_reach J (solo c' fs' Idle)" "coord_ok J c2"
    using doMapperTask_run [OF assms(1)] mr_invD(1) [OF mr_reach_inv [OF assms(1)]] by fastforce
  have c': "c' = c2\<lparr>Mappers := map (report_mapper (mt_Index t)) (Mappers c2), MapperFinished := (\<forall>m\<in>set (Mappers c2). mt_IsFinished (report_mapper (mt_Index t) m))\<rparr>"
    using UpdateTask_mapper [OF d(4), of t] d(1) by simp
  have "idle c' \<and> todo c = (if late then todo c' else Suc (todo c'))"
    using mapper_turn_coord [OF _ assms(3) mapper(1,2) t_def refl, of J c'] mapper_late_coord [OF _ assms(3) mapper(1,2) t_def refl, of J c'] ok(1)
    by (cases late) (simp_all add: c' c2_def mapper(5) t_def [symmetric])
  then show ?thesis using to d mapper t_def by auto
qed (use assms(4) in simp)

lemma reducer_turn:
  assumes "job_ok J" "mr_reach J (solo c fs Idle)" "idle c" "MapperFinished c" "\<not> ReducerFinished c" "FetchTask now c = (c1, resp)"
  shows "\<exists>t c2 c' fs'. \<not> AllFinished resp \<and> ft_MapperTask resp = None \<and> ft_ReducerTask resp = Some t \<and>
    (if late then taskTimeout resp c1 else Some c1) = Some c2 \<and> doReducerTask (jb_sort J) (jb_reduce J) t (c2, fs) = Some (c', fs') \<and>
    mr_reach J (solo c' fs' Idle) \<and> idle c' \<and> todo c = (if late then todo c' else Suc (todo c'))"
  using assms(6)
proof (cases rule: FetchTask_cases)
  case none
  then have "\<forall>m\<in>set (Reducers c). rt_Assigned m \<or> rt_IsFinished m"
    using assms(4-6) fetchReducer_cases [of now "Reducers c"] by (auto simp: FetchTask_def split: prod.splits)
  then show ?thesis using assms(3,5) by (auto simp: idle_def)
next
  case (reducer i)
  note ok = mr_invD [OF mr_reach_inv [OF assms(1,2)]]
  define t where "t = makeReduceTask now (Reducers c ! i)"
  have i: "rt_Index t = int i" using ok(1) reducer(1) by (auto simp: coord_ok_def reducer_ok_def makeReduceTask_def t_def)
  have r1: "mr_reach J (solo c1 fs (ReduceRead t 0 []))"
    by (rule solo_step [OF assms(2) mr_step.fetch [of _ 0]]) (use assms(6) reducer in \<open>auto simp: solo_def next_work_def t_def\<close>)
  define c2 where "c2 = (if late then c\<lparr>Reducers := (Reducers c)[i := t\<lparr>rt_Assigned := False\<rparr>]\<rparr> else c1)"
  have to: "(if late then taskTimeout resp c1 else Some c1) = Some c2"
    using reducer(1,2) i unfolding c2_def reducer(6) t_def [symmetric]
    by (auto simp: taskTimeout_def reducer(7,8) t_def [symmetric] reducerTimeoutFun_def) (auto simp: t_def makeReduceTask_def)
  have "mr_reach J (solo c2 fs (ReduceRead t 0 []))"
  proof (cases late)
    case True
    then have "reducerTimeoutFun (int i) c1 = Some c2" using to i by (simp add: taskTimeout_def reducer(7,8) t_def [symmetric])
    then show ?thesis using reducer(1,6) solo_step [OF r1 mr_step.reduce_timeout [of i]] by (simp add: solo_def makeReduceTask_def)
  qed (use r1 in \<open>simp add: c2_def\<close>)
  then obtain c' fs' where d: "UpdateTask \<lparr>ut_MapperTask = None, ut_ReducerTask = Some t\<rparr> c2 = Some c'"
      "doReducerTask (jb_sort J) (jb_reduce J) t (c2, fs) = Some (c', fs')" "mr_reach J (solo c' fs' Idle)" "coord_ok J c2"
    using doReducerTask_run [OF assms(1)] mr_invD(1) [OF mr_reach_inv [OF assms(1)]] by fastforce
  have c': "c' = c2\<lparr>Reducers := map (report_reducer (rt_Index t)) (Reducers c2), ReducerFinished := (\<forall>m\<in>set (Reducers c2). rt_IsFinished (report_reducer (rt_Index t) m))\<rparr>"
    using UpdateTask_reducer [OF d(4), of t] d(1) by simp
  have "idle c' \<and> todo c = (if late then todo c' else Suc (todo c'))"
    using reducer_turn_coord [OF _ assms(3) reducer(1,2) t_def refl, of J c'] reducer_late_coord [OF _ assms(3) reducer(1,2) t_def refl, of J c'] ok(1)
    by (cases late) (simp_all add: c' c2_def reducer(6) t_def [symmetric])
  then show ?thesis using to d reducer t_def by auto
qed (use assms(4) in simp)

lemma Worker_finishes:
  assumes "job_ok J" "mr_reach J (solo c fs Idle)" "idle c" "todo c < length (filter Not lates)"
  shows "\<exists>c' fs'. Worker lates now (jb_sort J) (jb_map J) (jb_reduce J) (c, fs) = Some (Some (c', fs')) \<and>
    mr_reach J (solo c' fs' Idle) \<and> Coordinator_Done c'"
  using assms(2-4)
proof (induction lates arbitrary: c fs)
  case (Cons late lates)
  obtain c1 resp where f: "FetchTask now c = (c1, resp)" by fastforce
  consider "\<not> MapperFinished c" | "MapperFinished c" "\<not> ReducerFinished c" | "MapperFinished c" "ReducerFinished c" by blast
  then show ?case
  proof cases
    case 1
    from mapper_turn [OF assms(1) Cons.prems(1,2) 1 f, of late] obtain t c2 c' fs' where t: "\<not> AllFinished resp" "ft_MapperTask resp = Some t"
        "ft_ReducerTask resp = None" "(if late then taskTimeout resp c1 else Some c1) = Some c2"
        "doMapperTask (jb_sort J) (jb_map J) t (c2, fs) = Some (c', fs')"
        "mr_reach J (solo c' fs' Idle)" "idle c'" "todo c = (if late then todo c' else Suc (todo c'))" by blast
    then show ?thesis using Cons.IH [OF t(6,7)] Cons.prems(3) f by (auto split: if_splits)
  next
    case 2
    from reducer_turn [OF assms(1) Cons.prems(1,2) 2 f, of late] obtain t c2 c' fs' where t: "\<not> AllFinished resp" "ft_MapperTask resp = None"
        "ft_ReducerTask resp = Some t" "(if late then taskTimeout resp c1 else Some c1) = Some c2"
        "doReducerTask (jb_sort J) (jb_reduce J) t (c2, fs) = Some (c', fs')"
        "mr_reach J (solo c' fs' Idle)" "idle c'" "todo c = (if late then todo c' else Suc (todo c'))" by blast
    then show ?thesis using Cons.IH [OF t(6,7)] Cons.prems(3) f by (auto split: if_splits)
  next
    case 3
    then have "c1 = c" "AllFinished resp" using f by (auto simp: FetchTask_def)
    then show ?thesis using f 3 Cons.prems(1) by (simp add: Coordinator_Done_def)
  qed
qed simp

lemma MakeCoordinator_idle: "names \<noteq> [] \<Longrightarrow> 0 < n \<Longrightarrow> idle (MakeCoordinator now names (int n))"
  by (cases names) (auto simp: idle_def MakeCoordinator_def intro!: bexI [of _ 0])

lemma MakeCoordinator_todo: "todo (MakeCoordinator now names (int n)) = length names + n"
proof -
  have "{i. i < length names \<and> \<not> mt_IsFinished (Mappers (MakeCoordinator now names (int n)) ! i)} = {..<length names}"
    "{i. i < n \<and> \<not> rt_IsFinished (Reducers (MakeCoordinator now names (int n)) ! i)} = {..<n}"
    by (auto simp: MakeCoordinator_def nth_enumerate_eq)
  moreover have "length (Mappers (MakeCoordinator now names (int n))) = length names" "length (Reducers (MakeCoordinator now names (int n))) = n"
    by (simp_all add: MakeCoordinator_def)
  ultimately show ?thesis by (simp add: todo_def)
qed

lemma done_outputs: "mr_inv J s \<Longrightarrow> Coordinator_Done (ms_c s) \<Longrightarrow> j < jb_n J \<Longrightarrow> out_file J (ms_fs s) j"
  by (auto simp: mr_inv_def Coordinator_Done_def files_ok_def coord_ok_def)

lemma solo_init: "mr_reach J (solo (MakeCoordinator now (jb_names J) (int (jb_n J))) (jb_fs J) Idle)"
  by (rule reach_init [of "mr_init J"]) (auto simp: mr_init_def solo_def)

section \<open>Properties\<close>



text \<open>C15: one worker finishes a job.  Started on a new coordinator, with no other worker, its loop returns once it has done one turn for each task and one more in less than
  the ten seconds after which the coordinator takes a task back, however many turns in between took longer; and every output file is then in place.\<close>

theorem worker_terminates:
  assumes "job_ok J" "jb_names J \<noteq> []" "length (jb_names J) + jb_n J < length (filter Not lates)"
  shows "\<exists>c fs. Worker lates now (jb_sort J) (jb_map J) (jb_reduce J)
      (MakeCoordinator now0 (jb_names J) (int (jb_n J)), jb_fs J) = Some (Some (c, fs)) \<and>
    Coordinator_Done c \<and> (\<forall>j<jb_n J. fs (out_name (int j)) = Some (FileText (concat (out_lines J j))))"
proof -
  let ?c = "MakeCoordinator now0 (jb_names J) (int (jb_n J))"
  have "idle ?c" using MakeCoordinator_idle assms(1,2) by (simp add: job_ok_def)
  moreover have "todo ?c < length (filter Not lates)" using MakeCoordinator_todo assms(3) by simp
  ultimately obtain c fs where "Worker lates now (jb_sort J) (jb_map J) (jb_reduce J) (?c, jb_fs J) = Some (Some (c, fs))"
      "mr_reach J (solo c fs Idle)" "Coordinator_Done c"
    using Worker_finishes [OF assms(1) solo_init] by blast
  then show ?thesis using done_outputs [OF mr_reach_inv [OF assms(1)], of "solo c fs Idle"] by (auto simp: out_file_def)
qed

text \<open>a job without input files never ends.  The flag of the map phase is set only when a map task is
  reported, so with no map task no reduce task is ever handed out and \<^verbatim>\<open>Done\<close> stays false.\<close>

theorem empty_job_never_done:
  assumes "jb_names J = []" "reach (mr_init J) (mr_step J) s"
  shows "\<not> Coordinator_Done (ms_c s) \<and> (ms_work s w = Idle \<or> ms_work s w = Stopped)"
proof -
  have "Mappers (ms_c s) = [] \<and> \<not> MapperFinished (ms_c s) \<and> (\<forall>w. ms_work s w = Idle \<or> ms_work s w = Stopped)"
    using assms(2)
  proof (induction rule: reach.induct)
    case (reach_init s)
    then show ?case using assms(1) by (auto simp: mr_init_def MakeCoordinator_def)
  next
    case (reach_step s t)
    then have idle: "ms_work s w = x \<Longrightarrow> x = Idle \<or> x = Stopped" for w x by blast
    from reach_step.hyps(2) show ?case
    proof cases
      case (fetch w now c resp)
      then show ?thesis using reach_step.IH by (auto simp: FetchTask_def next_work_def)
    next
      case (fetch_lost w now c resp)
      then show ?thesis using reach_step.IH by (auto simp: FetchTask_def)
    next
      case (reduce_timeout i c)
      then show ?thesis using reach_step.IH by (auto simp: reducerTimeoutFun_def bind_Some_iff split: if_splits)
    qed (use reach_step.IH in \<open>auto dest: idle\<close>)
  qed
  then show ?thesis by (simp add: Coordinator_Done_def)
qed

text \<open>The partition function.  The hash of a key is a non-negative 31-bit number, so the number of the reducer is in range, and
  the shuffle of a map task puts every record into exactly one partition, in order.\<close>

theorem shuffle_partitions:
  assumes "0 < n"
  shows "0 \<le> ihash key \<and> ihash key < 2 ^ 31 \<and>
    (\<exists>arr. shuffle (int n) kva (replicate n []) = Some arr \<and> length arr = n \<and>
       (\<forall>j<n. arr ! j = filter (\<lambda>kv. ihash (kvp_Key kv) mod int n = int j) kva) \<and> (\<Sum>j<n. mset (arr ! j)) = mset kva)"
proof -
  define arr where "arr = map (\<lambda>j. filter (\<lambda>kv. partition_of n kv = j) kva) [0..<n]"
  have sh: "shuffle (int n) kva (replicate n []) = Some arr"
    using shuffle_result [OF assms, of "replicate n []" kva] by (simp add: arr_def)
  have eq: "partition_of n kv = j \<longleftrightarrow> ihash (kvp_Key kv) mod int n = int j" for kv j
    using assms by (auto simp: partition_of_def)
  have "(\<Sum>j<n. mset (arr ! j)) = (\<Sum>j<n. filter_mset (\<lambda>kv. partition_of n kv = j) (mset kva))"
    by (rule sum.cong) (simp_all add: arr_def)
  also have "\<dots> = mset kva"
  proof (induction kva)
    case (Cons kv kva)
    have "(\<Sum>j<n. filter_mset (\<lambda>kv. partition_of n kv = j) (mset (kv # kva))) =
        (\<Sum>j<n. if j = partition_of n kv then {#kv#} else {#}) + (\<Sum>j<n. filter_mset (\<lambda>kv. partition_of n kv = j) (mset kva))"
      unfolding sum.distrib [symmetric] by (rule sum.cong) auto
    then show ?case using Cons partition_of_less [OF assms, of kv] by simp
  qed simp
  finally have "(\<Sum>j<n. mset (arr ! j)) = mset kva" .
  then show ?thesis using sh ihash_range by (auto simp: arr_def eq)
qed

section \<open>Witnesses\<close>

text \<open>Word count over two files with two reducers.\<close>

definition demo_job :: job where
  "demo_job = \<lparr>jb_names = [''f'', ''g''], jb_n = 2, jb_fs = [''f'' \<mapsto> FileText ''x y x'', ''g'' \<mapsto> FileText ''y z''],
     jb_sort = sort_key kvp_Key, jb_map = wc_Map, jb_reduce = wc_Reduce\<rparr>"

lemma demo_job_ok: "job_ok demo_job" "jb_names demo_job \<noteq> []" "reducer (jb_reduce demo_job)" "jb_n demo_job = 2"
  using sorts_sort_key wc.reducer_axioms by (simp_all add: job_ok_def demo_job_def)




theorem worker_terminates_witness:
  "\<exists>c fs. Worker [False, True, False, False, False, False] 1 (sort_key kvp_Key) wc_Map wc_Reduce (MakeCoordinator 0 [''f'', ''g''] 2, jb_fs demo_job) = Some (Some (c, fs)) \<and>
     Coordinator_Done c"
  using worker_terminates [OF demo_job_ok(1,2), of "[False, True, False, False, False, False]" 1 0] by (auto simp: demo_job_def)

theorem empty_job_never_done_witness:
  "\<not> Coordinator_Done (MakeCoordinator 0 [] 3)"
proof -
  let ?J = "demo_job\<lparr>jb_names := [], jb_n := 3\<rparr>"
  let ?s = "\<lparr>ms_c = MakeCoordinator 0 (jb_names ?J) (int (jb_n ?J)), ms_fs = jb_fs ?J, ms_work = (\<lambda>_. Idle)\<rparr>"
  have "reach (mr_init ?J) (mr_step ?J) ?s" by (rule reach_init [of "mr_init ?J"]) (auto simp: mr_init_def)
  then show ?thesis using empty_job_never_done [of ?J ?s] by simp
qed

theorem shuffle_partitions_witness:
  "\<exists>arr. shuffle 2 [\<lparr>kvp_Key = ''a'', kvp_Value = ''1''\<rparr>, \<lparr>kvp_Key = ''b'', kvp_Value = ''1''\<rparr>] [[], []] = Some arr \<and> length arr = 2"
  using shuffle_partitions [of 2 "[]" "[\<lparr>kvp_Key = ''a'', kvp_Value = ''1''\<rparr>, \<lparr>kvp_Key = ''b'', kvp_Value = ''1''\<rparr>]"]
  by (auto simp: numeral_2_eq_2)

end
