(* ===== verification/MR_Probe.thy ===== *)
theory MR_Probe
  imports MR_Out
begin

text \<open>
  The applications of \<^verbatim>\<open>src/src/mrapps\<close> that observe a job instead of computing: \<^verbatim>\<open>jobcount.go\<close> counts the Map tasks that were
  run, \<^verbatim>\<open>mtiming.go\<close> and \<^verbatim>\<open>rtiming.go\<close> count the workers that run at the same time, and \<^verbatim>\<open>crash.go\<close> stops or delays its worker.

  The directory is the list of the names in it.  Process ids, the order of a listing, random numbers, the
  formatted clock and what \<^verbatim>\<open>syscall.Kill\<close> answers are arguments.  Files can be created and the directory can be read.  A function
  that other processes may interrupt is split at what they can see: it creates a file, reads the directory, removes the file.
\<close>

section \<open>Names and numbers\<close>

definition addName :: "string \<Rightarrow> string list \<Rightarrow> string list" where
  "addName name dir = (if name \<in> set dir then dir else name # dir)"

text \<open>\<^verbatim>\<open>strings.HasPrefix\<close>, and the rest of the text after a prefix.\<close>

fun afterPrefix :: "string \<Rightarrow> string \<Rightarrow> string option" where
  "afterPrefix [] s = Some s"
| "afterPrefix (c # cs) [] = None"
| "afterPrefix (c # cs) (d # ds) = (if c = d then afterPrefix cs ds else None)"

definition HasPrefix :: "string \<Rightarrow> string \<Rightarrow> bool" where
  "HasPrefix s p \<longleftrightarrow> afterPrefix p s \<noteq> None"

text \<open>
  The verb \<^verbatim>\<open>%d\<close> of \<^verbatim>\<open>fmt.Sscanf\<close>: blanks are skipped, but a newline is an error; then an optional sign and
  at least one digit; the number has to fit 64 bits.  What follows the digits is not read.
\<close>

definition isBlank :: "char \<Rightarrow> bool" where
  "isBlank c \<longleftrightarrow> (of_char c :: nat) \<in> {9, 11, 12, 13, 32}"

definition isDigit :: "char \<Rightarrow> bool" where
  "isDigit c \<longleftrightarrow> 48 \<le> (of_char c :: nat) \<and> (of_char c :: nat) \<le> 57"

definition readDigits :: "string \<Rightarrow> nat" where
  "readDigits ds = fold (\<lambda>c v. v * 10 + (of_char c - 48)) ds 0"

definition scanSign :: "string \<Rightarrow> int \<times> string" where
  "scanSign s = (case s of [] \<Rightarrow> (1, []) | c # cs \<Rightarrow> if c = CHR ''-'' then (-1, cs) else if c = CHR ''+'' then (1, cs) else (1, c # cs))"

definition scanInt :: "string \<Rightarrow> int option" where
  "scanInt s =
     (let (sign, t) = scanSign (dropWhile isBlank s);
          ds = takeWhile isDigit t;
          v = sign * int (readDigits ds)
      in if ds = [] \<or> v < - (2 ^ 63) \<or> 2 ^ 63 \<le> v then None else Some v)"

section \<open>Counting the Map tasks\<close>

definition jobcount_name :: "nat \<Rightarrow> nat \<Rightarrow> string" where
  "jobcount_name pid cnt = ''mr-worker-jobcount-'' @ itoa (int pid) @ ''-'' @ itoa (int cnt)"

text \<open>The variable \<^verbatim>\<open>count\<close> of the process \<open>pid\<close> is passed and returned.\<close>

definition jobcount_Map :: "nat \<Rightarrow> nat \<Rightarrow> string list \<Rightarrow> nat \<times> string list \<times> KeyValue list" where
  "jobcount_Map pid cnt dir =
     (cnt + 1, addName (jobcount_name pid cnt) dir, [\<lparr>kvp_Key = ''a'', kvp_Value = ''x''\<rparr>])"

fun invocationsLoop :: "string list \<Rightarrow> int \<Rightarrow> int" where
  "invocationsLoop [] invocations = invocations"
| "invocationsLoop (f # fs) invocations =
     invocationsLoop fs (if HasPrefix f ''mr-worker-jobcount'' then invocations + 1 else invocations)"

definition jobcount_Reduce :: "string list \<Rightarrow> string \<Rightarrow> string list \<Rightarrow> string" where
  "jobcount_Reduce listing key values = itoa (invocationsLoop listing 0)"

section \<open>Counting the workers that run\<close>

definition worker_file :: "string \<Rightarrow> nat \<Rightarrow> string" where
  "worker_file phase pid = ''mr-worker-'' @ phase @ ''-'' @ itoa (int pid)"

definition nparallel_enter :: "string \<Rightarrow> nat \<Rightarrow> string list \<Rightarrow> string list" where
  "nparallel_enter phase pid dir = addName (worker_file phase pid) dir"

text \<open>\<^verbatim>\<open>Sscanf\<close> with the pattern of the file names; \<open>phase\<close> has no blanks and no percent sign.\<close>

definition scanPid :: "string \<Rightarrow> string \<Rightarrow> int option" where
  "scanPid phase name = Option.bind (afterPrefix (''mr-worker-'' @ phase @ ''-'') name) scanInt"

fun namesLoop :: "string \<Rightarrow> (int \<Rightarrow> bool) \<Rightarrow> string list \<Rightarrow> int \<Rightarrow> int" where
  "namesLoop phase kill [] ret = ret"
| "namesLoop phase kill (name # names) ret =
     namesLoop phase kill names (case scanPid phase name of Some xpid \<Rightarrow> if kill xpid then ret + 1 else ret | None \<Rightarrow> ret)"

text \<open>\<^verbatim>\<open>Readdirnames\<close> gives at most a million names, and an error when there are none.\<close>

definition nparallel_scan :: "string \<Rightarrow> (int \<Rightarrow> bool) \<Rightarrow> string list \<Rightarrow> int option" where
  "nparallel_scan phase kill listing = (if listing = [] then None else Some (namesLoop phase kill (take 1000000 listing) 0))"

definition nparallel_leave :: "string \<Rightarrow> nat \<Rightarrow> string list \<Rightarrow> string list option" where
  "nparallel_leave phase pid dir =
     (if worker_file phase pid \<in> set dir then Some (removeAll (worker_file phase pid) dir) else None)"

text \<open>\<open>ts\<close> is the formatted time at which the task started, \<open>n\<close> the result of \<^verbatim>\<open>nparallel\<close>.\<close>

definition mtiming_Map :: "nat \<Rightarrow> string \<Rightarrow> int \<Rightarrow> string \<Rightarrow> string \<Rightarrow> KeyValue list" where
  "mtiming_Map pid ts n filename contents =
     [\<lparr>kvp_Key = ''times-'' @ itoa (int pid), kvp_Value = ts\<rparr>, \<lparr>kvp_Key = ''parallel-'' @ itoa (int pid), kvp_Value = itoa n\<rparr>]"

definition mtiming_Reduce :: "string \<Rightarrow> string list \<Rightarrow> string" where
  "mtiming_Reduce key values = joinWith '' '' (sort values)"

definition rtiming_Map :: "string \<Rightarrow> string \<Rightarrow> KeyValue list" where
  "rtiming_Map filename contents =
     map (\<lambda>k. \<lparr>kvp_Key = k, kvp_Value = ''1''\<rparr>) [''a'', ''b'', ''c'', ''d'', ''e'', ''f'', ''g'', ''h'', ''i'', ''j'']"

definition rtiming_Reduce :: "int \<Rightarrow> string \<Rightarrow> string list \<Rightarrow> string" where
  "rtiming_Reduce n key values = itoa n"

section \<open>Crashes\<close>

text \<open>\<open>rr\<close> is below 1000, \<open>ms\<close> below 10000: the process ends, or it sleeps for some milliseconds and goes on.\<close>

definition maybeCrash :: "int \<Rightarrow> int \<Rightarrow> int option" where
  "maybeCrash rr ms = (if rr < 330 then None else if rr < 660 then Some ms else Some 0)"

definition crash_Map_run :: "int \<Rightarrow> int \<Rightarrow> string \<Rightarrow> string \<Rightarrow> (int \<times> KeyValue list) option" where
  "crash_Map_run rr ms filename contents = map_option (\<lambda>slept. (slept, crash_Map filename contents)) (maybeCrash rr ms)"

definition crash_Reduce_run :: "int \<Rightarrow> int \<Rightarrow> string \<Rightarrow> string list \<Rightarrow> (int \<times> string) option" where
  "crash_Reduce_run rr ms key values = map_option (\<lambda>slept. (slept, crash_Reduce key values)) (maybeCrash rr ms)"

section \<open>Names and numbers: properties\<close>

lemma afterPrefix_append: "afterPrefix p (p @ s) = Some s"
  by (induction p) auto

lemma afterPrefix_eq: "afterPrefix p s = Some t \<Longrightarrow> s = p @ t"
  by (induction p s rule: afterPrefix.induct) (auto split: if_splits)

lemma HasPrefix_iff: "HasPrefix s p \<longleftrightarrow> (\<exists>t. s = p @ t)"
  unfolding HasPrefix_def using afterPrefix_append afterPrefix_eq by fastforce

lemma readDigits_digits: "readDigits (digits n) = n"
proof (induction n rule: digits.induct)
  case (1 n)
  show ?case
  proof (cases "n < 10")
    case True
    then show ?thesis by (simp add: readDigits_def digits.simps [of n])
  next
    case False
    then show ?thesis using "1.IH" by (simp add: readDigits_def digits.simps [of n])
  qed
qed

lemma scanInt_digits:
  assumes "n < 2 ^ 63"
  shows "scanInt (digits n) = Some (int n)"
proof -
  obtain c cs where c: "digits n = c # cs" by (cases "digits n") auto
  have code: "48 \<le> (of_char c :: nat) \<and> (of_char c :: nat) \<le> 57" using digits_code [of c n] c by simp
  then have "\<not> isBlank c" "c \<noteq> CHR ''-''" "c \<noteq> CHR ''+''" by (auto simp: isBlank_def)
  then have "scanSign (dropWhile isBlank (digits n)) = (1, digits n)" by (simp add: c scanSign_def)
  moreover have "takeWhile isDigit (digits n) = digits n"
    using digits_code by (simp add: takeWhile_eq_all_conv isDigit_def)
  moreover have "int n < 2 ^ 63" using assms by (metis of_nat_less_iff of_nat_numeral of_nat_power)
  ultimately show ?thesis by (simp add: scanInt_def Let_def readDigits_digits takeWhile_eq_all_conv [THEN iffD2])
qed

lemma namesLoop_count:
  "namesLoop phase kill names ret = ret + int (length (filter (\<lambda>name. \<exists>x. scanPid phase name = Some x \<and> kill x) names))"
  by (induction names arbitrary: ret) (auto split: option.splits)

lemma invocationsLoop_count:
  "invocationsLoop fs k = k + int (length (filter (\<lambda>f. HasPrefix f ''mr-worker-jobcount'') fs))"
  by (induction fs arbitrary: k) auto

lemma addName_distinct [simp]: "distinct (addName name dir) = distinct dir"
  by (simp add: addName_def)

lemma addName_set [simp]: "set (addName name dir) = insert name (set dir)"
  by (auto simp: addName_def)

lemma worker_file_inj: "worker_file phase pid = worker_file phase pid' \<longleftrightarrow> pid = pid'"
  using digits_inj by (auto simp: worker_file_def)

lemma scanPid_worker_file: "pid < 2 ^ 63 \<Longrightarrow> scanPid phase (worker_file phase pid) = Some (int pid)"
  using afterPrefix_append [of "''mr-worker-'' @ phase @ ''-''" "digits pid"] scanInt_digits [of pid]
  by (simp add: scanPid_def worker_file_def del: afterPrefix.simps)

lemma jobcount_name_inj: "jobcount_name pid k = jobcount_name pid' k' \<longleftrightarrow> pid = pid' \<and> k = k'"
proof
  assume "jobcount_name pid k = jobcount_name pid' k'"
  then have "digits pid @ CHR ''-'' # digits k = digits pid' @ CHR ''-'' # digits k'" by (simp add: jobcount_name_def)
  then show "pid = pid' \<and> k = k'" using append_dash_inj [of "digits pid"] digits_no_dash digits_inj by blast
qed simp

lemma jobcount_name_prefix: "HasPrefix (jobcount_name pid k) ''mr-worker-jobcount''"
  unfolding HasPrefix_iff by (rule exI [of _ "''-'' @ itoa (int pid) @ ''-'' @ itoa (int k)"]) (simp add: jobcount_name_def)

text \<open>The Reduce of \<^verbatim>\<open>mtiming.go\<close> meets the contract of a reducer; those of \<^verbatim>\<open>jobcount.go\<close> and \<^verbatim>\<open>rtiming.go\<close> answer with what they
  see in the directory.\<close>

interpretation mtiming: reducer mtiming_Reduce
  by unfold_locales (metis mtiming_Reduce_def properties_for_sort mset_sort sorted_sort)

section \<open>Jobs that count their tasks\<close>

text \<open>The directory, the variable \<^verbatim>\<open>count\<close> of each process, and the number of Map tasks that were started.\<close>

record jobcount =
  jc_dir :: "string list"
  jc_count :: "nat \<Rightarrow> nat"
  jc_started :: nat

definition jc_init :: "jobcount \<Rightarrow> bool" where
  "jc_init s \<longleftrightarrow> distinct (jc_dir s) \<and> (\<forall>name\<in>set (jc_dir s). \<not> HasPrefix name ''mr-worker-jobcount'') \<and>
     jc_count s = (\<lambda>_. 0) \<and> jc_started s = 0"

text \<open>Worker \<open>pid\<close> runs a Map task, also one that another worker has run or will run; or some other file comes or goes.\<close>

inductive jc_step :: "jobcount \<Rightarrow> jobcount \<Rightarrow> bool" where
  jc_map: "jobcount_Map pid (jc_count s pid) (jc_dir s) = (k, dir, kva) \<Longrightarrow>
    jc_step s \<lparr>jc_dir = dir, jc_count = (jc_count s)(pid := k), jc_started = jc_started s + 1\<rparr>"
| jc_create: "\<not> HasPrefix name ''mr-worker-jobcount'' \<Longrightarrow> jc_step s (s\<lparr>jc_dir := addName name (jc_dir s)\<rparr>)"
| jc_remove: "\<not> HasPrefix name ''mr-worker-jobcount'' \<Longrightarrow> jc_step s (s\<lparr>jc_dir := removeAll name (jc_dir s)\<rparr>)"

definition jc_inv :: "jobcount \<Rightarrow> bool" where
  "jc_inv s \<longleftrightarrow> (\<forall>pid k. jobcount_name pid k \<in> set (jc_dir s) \<longleftrightarrow> k < jc_count s pid) \<and>
     length (filter (\<lambda>f. HasPrefix f ''mr-worker-jobcount'') (jc_dir s)) = jc_started s"

lemma jc_inv_step: "jc_step s t \<Longrightarrow> jc_inv s \<Longrightarrow> jc_inv t"
proof (induction rule: jc_step.induct)
  case (jc_map pid s k dir kva)
  let ?name = "jobcount_name pid (jc_count s pid)"
  have "?name \<notin> set (jc_dir s)" using jc_map.prems by (simp add: jc_inv_def)
  then have "k = jc_count s pid + 1" "dir = ?name # jc_dir s" using jc_map.hyps by (auto simp: jobcount_Map_def addName_def)
  then show ?case using jc_map.prems by (auto simp: jc_inv_def jobcount_name_inj jobcount_name_prefix less_Suc_eq)
next
  case (jc_create name s)
  then have "name \<noteq> jobcount_name pid k" for pid k using jobcount_name_prefix by metis
  then show ?case using jc_create by (auto simp: jc_inv_def addName_def)
next
  case (jc_remove name s)
  then have other: "name \<noteq> jobcount_name pid k" for pid k using jobcount_name_prefix by metis
  have "filter (\<lambda>f. HasPrefix f ''mr-worker-jobcount'') (removeAll name (jc_dir s)) = filter (\<lambda>f. HasPrefix f ''mr-worker-jobcount'') (jc_dir s)"
    using jc_remove.hyps by (auto simp: removeAll_filter_not_eq intro: filter_cong)
  then show ?case using jc_remove.prems other by (auto simp: jc_inv_def)
qed

lemma jc_inv_init: "jc_init s \<Longrightarrow> jc_inv s"
  using jobcount_name_prefix by (fastforce simp: jc_init_def jc_inv_def filter_empty_conv)

interpretation jobcounts: transition_invariant jc_init jc_step jc_inv
  by unfold_locales (auto intro: jc_inv_init jc_inv_step)

text \<open>The job count is exact: in whatever order the directory is listed, Reduce returns the number of Map tasks that were started, by
  whatever workers and however often one task was given out.\<close>

theorem jobcount_exact:
  assumes "reach jc_init jc_step s" "mset listing = mset (jc_dir s)"
  shows "jobcount_Reduce listing key values = itoa (int (jc_started s))"
  using jobcounts.reach_inv [OF assms(1)] length_filter_mset [OF assms(2)]
  by (simp add: jobcount_Reduce_def invocationsLoop_count jc_inv_def)

section \<open>Workers that count each other\<close>

text \<open>
  The workers of one phase: the directory, the processes that live, all that ever lived, and how far each is in \<^verbatim>\<open>nparallel\<close>: the file is written
  (\<open>Some None\<close>), or the others have been counted.
\<close>

record probe =
  pb_dir :: "string list"
  pb_live :: "nat set"
  pb_used :: "nat set"
  pb_in :: "nat \<rightharpoonup> int option"

definition pb_init :: "string \<Rightarrow> probe \<Rightarrow> bool" where
  "pb_init phase s \<longleftrightarrow> distinct (pb_dir s) \<and> (\<forall>name\<in>set (pb_dir s). scanPid phase name = None) \<and>
     pb_live s = {} \<and> pb_used s = {} \<and> pb_in s = Map.empty"

text \<open>What \<^verbatim>\<open>Kill\<close> with signal 0 answers for the processes that have worked on the job; others may live or not.\<close>

definition kill_answers :: "probe \<Rightarrow> (int \<Rightarrow> bool) \<Rightarrow> bool" where
  "kill_answers s kill \<longleftrightarrow> (\<forall>pid\<in>pb_used s. kill (int pid) \<longleftrightarrow> pid \<in> pb_live s)"

text \<open>
  A worker starts, with an id that no worker has had; enters \<^verbatim>\<open>nparallel\<close>, counts, and leaves it; or it ends at any moment, and leaves its
  file behind if it has one.  Files with other names come and go.
\<close>

inductive pb_step :: "string \<Rightarrow> probe \<Rightarrow> probe \<Rightarrow> bool" for phase where
  pb_start: "pid \<notin> pb_used s \<Longrightarrow> pid < 2 ^ 63 \<Longrightarrow>
    pb_step phase s (s\<lparr>pb_live := insert pid (pb_live s), pb_used := insert pid (pb_used s)\<rparr>)"
| pb_enter: "pid \<in> pb_live s \<Longrightarrow> pb_in s pid = None \<Longrightarrow>
    pb_step phase s (s\<lparr>pb_dir := nparallel_enter phase pid (pb_dir s), pb_in := (pb_in s)(pid \<mapsto> None)\<rparr>)"
| pb_scan: "pid \<in> pb_live s \<Longrightarrow> pb_in s pid = Some None \<Longrightarrow> mset listing = mset (pb_dir s) \<Longrightarrow> kill_answers s kill \<Longrightarrow>
    nparallel_scan phase kill listing = Some n \<Longrightarrow> pb_step phase s (s\<lparr>pb_in := (pb_in s)(pid \<mapsto> Some n)\<rparr>)"
| pb_leave: "pid \<in> pb_live s \<Longrightarrow> pb_in s pid = Some (Some n) \<Longrightarrow> nparallel_leave phase pid (pb_dir s) = Some dir \<Longrightarrow>
    pb_step phase s (s\<lparr>pb_dir := dir, pb_in := (pb_in s)(pid := None)\<rparr>)"
| pb_end: "pb_step phase s (s\<lparr>pb_live := pb_live s - {pid}\<rparr>)"
| pb_create: "scanPid phase name = None \<Longrightarrow> pb_step phase s (s\<lparr>pb_dir := addName name (pb_dir s)\<rparr>)"
| pb_remove: "scanPid phase name = None \<Longrightarrow> pb_step phase s (s\<lparr>pb_dir := removeAll name (pb_dir s)\<rparr>)"

definition pb_inv :: "string \<Rightarrow> probe \<Rightarrow> bool" where
  "pb_inv phase s \<longleftrightarrow> distinct (pb_dir s) \<and> pb_live s \<subseteq> pb_used s \<and> (\<forall>pid\<in>pb_used s. pid < 2 ^ 63) \<and> dom (pb_in s) \<subseteq> pb_used s \<and>
     (\<forall>name\<in>set (pb_dir s). scanPid phase name = None \<or> (\<exists>pid\<in>dom (pb_in s). name = worker_file phase pid)) \<and>
     (\<forall>pid\<in>dom (pb_in s). worker_file phase pid \<in> set (pb_dir s))"

lemma other_name: "scanPid phase name = None \<Longrightarrow> pid < 2 ^ 63 \<Longrightarrow> worker_file phase pid \<noteq> name"
  using scanPid_worker_file by auto

lemma pb_inv_step: "pb_step phase s t \<Longrightarrow> pb_inv phase s \<Longrightarrow> pb_inv phase t"
proof (induction rule: pb_step.induct)
  case (pb_leave pid s n dir)
  then have "dir = removeAll (worker_file phase pid) (pb_dir s)" by (simp add: nparallel_leave_def split: if_splits)
  then show ?case using pb_leave.prems by (auto simp: pb_inv_def distinct_removeAll worker_file_inj) (metis DiffI singletonD)
next
  case (pb_remove name s)
  then have "worker_file phase pid \<noteq> name" if "pid \<in> dom (pb_in s)" for pid
    using that other_name [of phase name pid] by (auto simp: pb_inv_def)
  then show ?case using pb_remove.prems by (simp add: pb_inv_def distinct_removeAll)
qed (auto simp: pb_inv_def nparallel_enter_def)

lemma pb_inv_init: "pb_init phase s \<Longrightarrow> pb_inv phase s"
  by (simp add: pb_init_def pb_inv_def)

interpretation probes: transition_invariant "pb_init phase" "pb_step phase" "pb_inv phase" for phase
  by unfold_locales (auto intro: pb_inv_init pb_inv_step)

text \<open>The names that are counted are the files of the living workers that are in \<^verbatim>\<open>nparallel\<close>.\<close>

lemma counted_names:
  assumes "pb_inv phase s" "kill_answers s kill"
  shows "{name \<in> set (pb_dir s). \<exists>x. scanPid phase name = Some x \<and> kill x} = worker_file phase ` {pid \<in> pb_live s. pb_in s pid \<noteq> None}"
proof (intro equalityI subsetI)
  fix name assume "name \<in> {name \<in> set (pb_dir s). \<exists>x. scanPid phase name = Some x \<and> kill x}"
  then obtain x pid where p: "scanPid phase name = Some x" "kill x" "pid \<in> dom (pb_in s)" "name = worker_file phase pid"
    using assms(1) by (fastforce simp: pb_inv_def)
  then have "pid \<in> pb_used s" "x = int pid" using assms(1) scanPid_worker_file [of pid phase] by (auto simp: pb_inv_def)
  then show "name \<in> worker_file phase ` {pid \<in> pb_live s. pb_in s pid \<noteq> None}" using p assms(2) by (auto simp: kill_answers_def)
next
  fix name assume "name \<in> worker_file phase ` {pid \<in> pb_live s. pb_in s pid \<noteq> None}"
  then obtain pid where p: "pid \<in> pb_live s" "pid \<in> dom (pb_in s)" "name = worker_file phase pid" by auto
  then have "pid \<in> pb_used s" "pid < 2 ^ 63" "name \<in> set (pb_dir s)" using assms(1) by (auto simp: pb_inv_def)
  then show "name \<in> {name \<in> set (pb_dir s). \<exists>x. scanPid phase name = Some x \<and> kill x}"
    using p assms(2) scanPid_worker_file [of pid phase] by (auto simp: kill_answers_def)
qed

text \<open>C31: The applications that measure parallelism count exactly.  Whatever workers start, enter, leave and crash, and whatever files crashed workers left behind,
  a worker that reads the directory of at most a million names and probes the processes counts, the listing and the probes taken at one moment and process ids not used again, the living workers that are in \<^verbatim>\<open>nparallel\<close> at that moment, itself included; and
  removing its file afterwards does not fail.\<close>

theorem parallel_count_exact:
  assumes "reach (pb_init phase) (pb_step phase) s" "pid \<in> pb_live s" "pb_in s pid = Some c"
    and "mset listing = mset (pb_dir s)" "length (pb_dir s) \<le> 1000000" "kill_answers s kill"
  shows "nparallel_scan phase kill listing = Some (int (card {q \<in> pb_live s. pb_in s q \<noteq> None})) \<and>
    0 < card {q \<in> pb_live s. pb_in s q \<noteq> None} \<and> nparallel_leave phase pid (pb_dir s) \<noteq> None"
proof -
  let ?P = "\<lambda>name. \<exists>x. scanPid phase name = Some x \<and> kill x"
  let ?W = "{q \<in> pb_live s. pb_in s q \<noteq> None}"
  have inv: "pb_inv phase s" using probes.reach_inv [OF assms(1)] .
  have own: "worker_file phase pid \<in> set (pb_dir s)" using inv assms(3) by (auto simp: pb_inv_def)
  have eq: "worker_file phase ` ?W = {name \<in> set (pb_dir s). ?P name}" using counted_names [OF inv assms(6)] by simp
  have inj: "inj_on (worker_file phase) ?W" by (simp add: inj_on_def worker_file_inj)
  have len: "length listing = length (pb_dir s)" using assms(4) by (metis size_mset)
  have "length (filter ?P listing) = length (filter ?P (pb_dir s))" using assms(4) by (rule length_filter_mset)
  also have "\<dots> = card {name \<in> set (pb_dir s). ?P name}"
    using inv distinct_card [of "filter ?P (pb_dir s)"] by (simp add: pb_inv_def)
  also have "\<dots> = card ?W" using card_image [OF inj] eq by simp
  finally have "namesLoop phase kill (take 1000000 listing) 0 = int (card ?W)" using assms(5) len by (simp add: namesLoop_count)
  moreover have "listing \<noteq> []" using own len by auto
  moreover have "finite ?W" using finite_imageD [of "worker_file phase" ?W] inj eq by simp
  then have "0 < card ?W" using assms(2,3) by (auto simp: card_gt_0_iff)
  ultimately show ?thesis using own by (simp add: nparallel_scan_def nparallel_leave_def)
qed

text \<open>Two workers of which the first has crashed inside \<^verbatim>\<open>nparallel\<close>, and another file.\<close>

definition demo_probe :: probe where
  "demo_probe = \<lparr>pb_dir = [worker_file ''map'' 12, worker_file ''map'' 7, ''mr-0-0''], pb_live = {12}, pb_used = {12, 7}, pb_in = [7 \<mapsto> None, 12 \<mapsto> None]\<rparr>"

lemma demo_probe_reach: "reach (pb_init ''map'') (pb_step ''map'') demo_probe"
proof -
  let ?s0 = "\<lparr>pb_dir = [''mr-0-0''], pb_live = {}, pb_used = {}, pb_in = Map.empty\<rparr> :: probe"
  let ?s1 = "\<lparr>pb_dir = [''mr-0-0''], pb_live = {7}, pb_used = {7}, pb_in = Map.empty\<rparr> :: probe"
  let ?s2 = "\<lparr>pb_dir = [worker_file ''map'' 7, ''mr-0-0''], pb_live = {7}, pb_used = {7}, pb_in = [7 \<mapsto> None]\<rparr> :: probe"
  let ?s3 = "\<lparr>pb_dir = [worker_file ''map'' 7, ''mr-0-0''], pb_live = {}, pb_used = {7}, pb_in = [7 \<mapsto> None]\<rparr> :: probe"
  let ?s4 = "\<lparr>pb_dir = [worker_file ''map'' 7, ''mr-0-0''], pb_live = {12}, pb_used = {12, 7}, pb_in = [7 \<mapsto> None]\<rparr> :: probe"
  have names: "worker_file ''map'' 7 = ''mr-worker-map-7''" "worker_file ''map'' 12 = ''mr-worker-map-12''" by code_simp+
  have "scanPid ''map'' ''mr-0-0'' = None" by code_simp
  then have "pb_init ''map'' ?s0" by (simp add: pb_init_def)
  then have 0: "reach (pb_init ''map'') (pb_step ''map'') ?s0" by (rule reach_init)
  have 1: "pb_step ''map'' ?s0 ?s1" using pb_step.pb_start [of 7 ?s0 "''map''"] by simp
  have 2: "pb_step ''map'' ?s1 ?s2" using pb_step.pb_enter [of 7 ?s1 "''map''"] names by (simp add: nparallel_enter_def addName_def)
  have 3: "pb_step ''map'' ?s2 ?s3" using pb_step.pb_end [of "''map''" ?s2 7] by simp
  have 4: "pb_step ''map'' ?s3 ?s4" using pb_step.pb_start [of 12 ?s3 "''map''"] by simp
  have d: "demo_probe = ?s4\<lparr>pb_dir := nparallel_enter ''map'' 12 (pb_dir ?s4), pb_in := (pb_in ?s4)(12 \<mapsto> None)\<rparr>"
    using names by (simp add: nparallel_enter_def addName_def demo_probe_def)
  have 5: "pb_step ''map'' ?s4 demo_probe" unfolding d by (rule pb_step.pb_enter) simp_all
  note next_state = reach_step [of "pb_init ''map''" "pb_step ''map''"]
  show ?thesis by (rule next_state [OF next_state [OF next_state [OF next_state [OF next_state [OF 0 1] 2] 3] 4] 5])
qed

theorem parallel_count_exact_witness:
  "nparallel_scan ''map'' (\<lambda>x. x = 12) [''mr-0-0'', worker_file ''map'' 7, worker_file ''map'' 12] = Some 1"
proof -
  have "{q \<in> pb_live demo_probe. pb_in demo_probe q \<noteq> None} = {12}" by (auto simp: demo_probe_def)
  then show ?thesis
    using parallel_count_exact [OF demo_probe_reach, of 12 None "[''mr-0-0'', worker_file ''map'' 7, worker_file ''map'' 12]" "\<lambda>x. x = 12"]
    by (simp add: demo_probe_def kill_answers_def)
qed

end
