(* ===== verification/Porcu_Bitset.thy ===== *)
theory Porcu_Bitset
  imports Go_Prelude "HOL-Library.Word"
begin

text \<open>
  The bit sets of the linearizability checker: \<^verbatim>\<open>src/src/porcupine/bitset.go\<close>.  A set is a list of 64-bit
  words; indexing out of range panics.  The locale \<open>bit_set\<close> is what the checker relies on:
  sets of numbers below a bound.
\<close>

unbundle bit_operations_syntax

type_synonym bitset = "64 word list"

definition newBitset :: "nat \<Rightarrow> bitset" where
  "newBitset bits =
     (let extra = (if bits mod 64 \<noteq> 0 then 1 else 0);
          chunks = bits div 64 + extra
      in replicate chunks 0)"

definition bitset_clone :: "bitset \<Rightarrow> bitset" where
  "bitset_clone b = map (\<lambda>i. b ! i) [0..<length b]"

definition bitsetIndex :: "nat \<Rightarrow> nat \<times> nat" where
  "bitsetIndex pos = (pos div 64, pos mod 64)"

definition bitset_set :: "nat \<Rightarrow> bitset \<Rightarrow> bitset option" where
  "bitset_set pos b =
     (let (major, minor) = bitsetIndex pos in do {
        w \<leftarrow> go_index b (int major);
        go_store b (int major) (w OR push_bit minor 1)
      })"

definition bitset_clear :: "nat \<Rightarrow> bitset \<Rightarrow> bitset option" where
  "bitset_clear pos b =
     (let (major, minor) = bitsetIndex pos in do {
        w \<leftarrow> go_index b (int major);
        go_store b (int major) (w AND NOT (push_bit minor 1))
      })"

definition bitset_get :: "nat \<Rightarrow> bitset \<Rightarrow> bool option" where
  "bitset_get pos b =
     (let (major, minor) = bitsetIndex pos in do {
        w \<leftarrow> go_index b (int major);
        Some (w AND push_bit minor 1 \<noteq> 0)
      })"

definition OnesCount64 :: "64 word \<Rightarrow> nat" where
  "OnesCount64 w = length (filter (bit w) [0..<64])"

definition bitset_popcnt :: "bitset \<Rightarrow> nat" where
  "bitset_popcnt b = fold (\<lambda>v total. total + OnesCount64 v) b 0"

definition bitset_hash :: "bitset \<Rightarrow> 64 word" where
  "bitset_hash b = fold (\<lambda>v hash. hash XOR v) b (word_of_nat (bitset_popcnt b))"

definition bitset_equals :: "bitset \<Rightarrow> bitset \<Rightarrow> bool" where
  "bitset_equals b b2 =
     (if length b \<noteq> length b2 then False else (\<forall>i\<in>set [0..<length b]. b ! i = b2 ! i))"

section \<open>The sets they stand for\<close>

definition members :: "bitset \<Rightarrow> nat set" where
  "members b = {p. p div 64 < length b \<and> bit (b ! (p div 64)) (p mod 64)}"

text \<open>A bit set for numbers below \<open>n\<close>.\<close>

definition bitset_ok :: "nat \<Rightarrow> bitset \<Rightarrow> bool" where
  "bitset_ok n b \<longleftrightarrow> length b = length (newBitset n) \<and> members b \<subseteq> {..<n}"

lemma bitset_clone_id [simp]: "bitset_clone b = b"
  by (simp add: bitset_clone_def map_nth)

lemma index_in_range:
  assumes "bitset_ok n b" "p < n"
  shows "p div 64 < length b"
proof -
  have "p div 64 \<le> n div 64" using assms(2) by (simp add: div_le_mono)
  moreover have "p div 64 < n div 64" if "n mod 64 = 0"
  proof -
    have "n = 64 * (n div 64)" using that by auto
    then show ?thesis using assms(2) by (metis less_mult_imp_div_less mult.commute)
  qed
  ultimately show ?thesis using assms(1) by (auto simp: bitset_ok_def newBitset_def Let_def)
qed

lemma one_bit: "m < 64 \<Longrightarrow> bit (2 ^ k :: 64 word) m \<longleftrightarrow> m = k"
  by (auto simp: bit_exp_iff)

lemma pos_eq: "(p :: nat) = q \<longleftrightarrow> p div 64 = q div 64 \<and> p mod 64 = q mod 64"
  by (metis div_mult_mod_eq)

lemma members_update:
  assumes "i < length b"
  shows "q \<in> members (b[i := w]) \<longleftrightarrow> (if q div 64 = i then bit w (q mod 64) else q \<in> members b)"
  using assms by (auto simp: members_def nth_list_update)

lemma bitset_set_result:
  assumes "bitset_ok n b" "p < n"
  shows "\<exists>b'. bitset_set p b = Some b' \<and> bitset_ok n b' \<and> members b' = insert p (members b)"
proof -
  note r = index_in_range [OF assms]
  define b' where "b' = b[p div 64 := b ! (p div 64) OR push_bit (p mod 64) 1]"
  have "bitset_set p b = Some b'" using r by (simp add: bitset_set_def bitsetIndex_def b'_def)
  moreover have "q \<in> members b' \<longleftrightarrow> q = p \<or> q \<in> members b" for q
    unfolding b'_def members_update [OF r] bit_or_iff pos_eq [of q p] using r by (auto simp: members_def one_bit)
  then have m: "members b' = insert p (members b)" by blast
  moreover have "bitset_ok n b'" using assms m by (auto simp: bitset_ok_def b'_def)
  ultimately show ?thesis by blast
qed

lemma bitset_clear_result:
  assumes "bitset_ok n b" "p < n"
  shows "\<exists>b'. bitset_clear p b = Some b' \<and> bitset_ok n b' \<and> members b' = members b - {p}"
proof -
  note r = index_in_range [OF assms]
  define b' where "b' = b[p div 64 := b ! (p div 64) AND NOT (push_bit (p mod 64) 1)]"
  have "bitset_clear p b = Some b'" using r by (simp add: bitset_clear_def bitsetIndex_def b'_def)
  moreover have "q \<in> members b' \<longleftrightarrow> q \<noteq> p \<and> q \<in> members b" for q
    unfolding b'_def members_update [OF r] pos_eq [of q p] using r by (auto simp: members_def bit_and_iff bit_not_iff one_bit)
  then have m: "members b' = members b - {p}" by blast
  moreover have "bitset_ok n b'" using assms m by (auto simp: bitset_ok_def b'_def)
  ultimately show ?thesis by blast
qed

lemma bitset_get_result:
  assumes "bitset_ok n b" "p < n"
  shows "bitset_get p b = Some (p \<in> members b)"
proof -
  note r = index_in_range [OF assms]
  have "w AND push_bit (p mod 64) 1 \<noteq> 0 \<longleftrightarrow> bit w (p mod 64)" for w :: "64 word"
    by (simp add: and_exp_eq_0_iff_not_bit push_bit_of_1 and.commute)
  then show ?thesis using r by (simp add: bitset_get_def bitsetIndex_def members_def)
qed

lemma newBitset_result: "bitset_ok n (newBitset n)" "members (newBitset n) = {}"
proof -
  have "members (replicate k 0) = {}" for k by (auto simp: members_def)
  then show "bitset_ok n (newBitset n)" "members (newBitset n) = {}"
    by (simp_all add: bitset_ok_def newBitset_def Let_def)
qed

lemma bitset_equals_result:
  assumes "bitset_ok n b" "bitset_ok n b'"
  shows "bitset_equals b b' \<longleftrightarrow> members b = members b'"
proof
  assume "bitset_equals b b'"
  then have "b = b'" by (auto simp: bitset_equals_def intro: nth_equalityI split: if_splits)
  then show "members b = members b'" by simp
next
  assume m: "members b = members b'"
  have len: "length b = length b'" using assms by (simp add: bitset_ok_def)
  have "b ! i = b' ! i" if i: "i < length b" for i
  proof (rule bit_word_eqI)
    fix k assume "k < LENGTH(64)"
    then have k: "(i * 64 + k) div 64 = i" "(i * 64 + k) mod 64 = k" by simp_all
    have "i * 64 + k \<in> members b \<longleftrightarrow> i * 64 + k \<in> members b'" using m by simp
    then show "bit (b ! i) k \<longleftrightarrow> bit (b' ! i) k" using i len k by (simp add: members_def)
  qed
  then show "bitset_equals b b'" using len by (simp add: bitset_equals_def)
qed

text \<open>The population count is the number of elements.\<close>

lemma members_snoc: "members (b @ [w]) = members b \<union> (\<lambda>k. length b * 64 + k) ` {k. k < 64 \<and> bit w k}"
proof (rule set_eqI)
  fix p :: nat
  have "p = length b * 64 + p mod 64" if "p div 64 = length b" using that div_mult_mod_eq [of p 64] by (simp add: mult.commute)
  then have "p \<in> (\<lambda>k. length b * 64 + k) ` {k. k < 64 \<and> bit w k} \<longleftrightarrow> p div 64 = length b \<and> bit w (p mod 64)"
    by (auto simp: image_iff intro!: exI [of _ "p mod 64"])
  then show "p \<in> members (b @ [w]) \<longleftrightarrow> p \<in> members b \<union> (\<lambda>k. length b * 64 + k) ` {k. k < 64 \<and> bit w k}"
    by (auto simp: members_def nth_append)
qed

lemma popcnt_card: "finite (members b) \<and> bitset_popcnt b = card (members b)"
proof (induction b rule: rev_induct)
  case Nil
  show ?case by (simp add: bitset_popcnt_def members_def)
next
  case (snoc w b)
  have "OnesCount64 w = card {k. k < 64 \<and> bit w k}"
    using distinct_card [of "filter (bit w) [0..<64]"] by (simp add: OnesCount64_def conj_commute)
  moreover have "card ((\<lambda>k. length b * 64 + k) ` {k. k < 64 \<and> bit w k}) = card {k. k < 64 \<and> bit w k}"
    by (rule card_image) (simp add: inj_on_def)
  moreover have "members b \<inter> (\<lambda>k. length b * 64 + k) ` {k. k < 64 \<and> bit w k} = {}"
    by (auto simp: members_def)
  ultimately show ?case using snoc unfolding members_snoc by (simp add: card_Un_disjoint bitset_popcnt_def)
qed

text \<open>The interface the checker uses.\<close>

locale bit_set =
  fixes ok :: "nat \<Rightarrow> 'b \<Rightarrow> bool" and elems :: "'b \<Rightarrow> nat set" and new :: "nat \<Rightarrow> 'b"
    and set1 :: "nat \<Rightarrow> 'b \<Rightarrow> 'b option" and clear1 :: "nat \<Rightarrow> 'b \<Rightarrow> 'b option" and equals :: "'b \<Rightarrow> 'b \<Rightarrow> bool"
  assumes new_law: "ok n (new n)" "elems (new n) = {}"
    and set_law: "ok n b \<Longrightarrow> p < n \<Longrightarrow> \<exists>b'. set1 p b = Some b' \<and> ok n b' \<and> elems b' = insert p (elems b)"
    and clear_law: "ok n b \<Longrightarrow> p < n \<Longrightarrow> \<exists>b'. clear1 p b = Some b' \<and> ok n b' \<and> elems b' = elems b - {p}"
    and equals_law: "ok n b \<Longrightarrow> ok n b' \<Longrightarrow> equals b b' \<longleftrightarrow> elems b = elems b'"
begin

text \<open>Setting and clearing an element that was not there gives back the same set.\<close>

lemma clear_after_set:
  assumes "ok n b" "p < n" "p \<notin> elems b"
  shows "\<exists>b1 b2. set1 p b = Some b1 \<and> clear1 p b1 = Some b2 \<and> equals b2 b"
proof -
  obtain b1 where b1: "set1 p b = Some b1" "ok n b1" "elems b1 = insert p (elems b)" using set_law [OF assms(1,2)] by blast
  obtain b2 where b2: "clear1 p b1 = Some b2" "ok n b2" "elems b2 = elems b1 - {p}" using clear_law [OF b1(2) assms(2)] by blast
  then show ?thesis using b1 assms equals_law [OF b2(2) assms(1)] by auto
qed

end

interpretation words: bit_set bitset_ok members newBitset bitset_set bitset_clear bitset_equals
  using newBitset_result bitset_set_result bitset_clear_result bitset_equals_result by unfold_locales auto

end
