(* ===== verification/Porcu_Check.thy ===== *)
theory Porcu_Check
  imports Porcu_Bitset KV_Model
begin

text \<open>
  The linearizability checker: \<^verbatim>\<open>src/src/porcupine/model.go\<close>, \<^verbatim>\<open>checker.go\<close> and \<^verbatim>\<open>porcupine.go\<close>.

  The doubly linked list of entries lives in a heap of nodes, a list in which the address of a node is its
  position; a nil pointer is \<open>None\<close>.  Values are inputs of calls and outputs of returns.  \<open>None\<close> is a
  panic.  \<^verbatim>\<open>sort.Sort\<close> is an argument, and so is the flag \<^verbatim>\<open>kill\<close> as each turn of the search
  reads it: the list of these readings also bounds the number of turns.  The functions that describe
  operations and states as text are left out.
\<close>

section \<open>Histories and models\<close>

datatype ('i, 'o) val = VIn 'i | VOut 'o | VNil

text \<open>\<open>False\<close> is a call, \<open>True\<close> a return.\<close>

record ('i, 'o) Event =
  ev_ClientId :: int
  ev_Kind :: bool
  ev_Value :: "('i, 'o) val"
  ev_Id :: int

record ('i, 'o, 's) Model =
  md_Partition :: "(('i, 'o) Operation list \<Rightarrow> ('i, 'o) Operation list list) option"
  md_PartitionEvent :: "(('i, 'o) Event list \<Rightarrow> ('i, 'o) Event list list) option"
  md_Init :: 's
  md_Step :: "'s \<Rightarrow> 'i \<Rightarrow> 'o \<Rightarrow> bool \<times> 's"
  md_Equal :: "('s \<Rightarrow> 's \<Rightarrow> bool) option"

definition NoPartition :: "('i, 'o) Operation list \<Rightarrow> ('i, 'o) Operation list list" where
  "NoPartition history = [history]"

definition NoPartitionEvent :: "('i, 'o) Event list \<Rightarrow> ('i, 'o) Event list list" where
  "NoPartitionEvent history = [history]"

definition ShallowEqual :: "'s \<Rightarrow> 's \<Rightarrow> bool" where
  "ShallowEqual state1 state2 \<longleftrightarrow> state1 = state2"

datatype CheckResult = Unknown | Ok | Illegal

section \<open>Entries\<close>

record ('i, 'o) entry =
  en_kind :: bool
  en_value :: "('i, 'o) val"
  en_id :: int
  en_time :: int
  en_clientId :: int

definition byTime_Less :: "('i, 'o) entry \<Rightarrow> ('i, 'o) entry \<Rightarrow> bool" where
  "byTime_Less a b =
     (if en_time a \<noteq> en_time b then en_time a < en_time b else \<not> en_kind a \<and> en_kind b)"

fun entriesLoop :: "int \<Rightarrow> ('i, 'o) Operation list \<Rightarrow> ('i, 'o) entry list" where
  "entriesLoop nid [] = []"
| "entriesLoop nid (elem # history) =
     \<lparr>en_kind = False, en_value = VIn (op_Input elem), en_id = nid, en_time = op_Call elem, en_clientId = op_ClientId elem\<rparr> #
     \<lparr>en_kind = True, en_value = VOut (op_Output elem), en_id = nid, en_time = op_Return elem, en_clientId = op_ClientId elem\<rparr> #
     entriesLoop (nid + 1) history"

definition makeEntries :: "(('i, 'o) entry list \<Rightarrow> ('i, 'o) entry list) \<Rightarrow> ('i, 'o) Operation list \<Rightarrow> ('i, 'o) entry list" where
  "makeEntries sortf history = sortf (entriesLoop 0 history)"

fun renumberLoop :: "(int \<rightharpoonup> int) \<Rightarrow> int \<Rightarrow> ('i, 'o) Event list \<Rightarrow> ('i, 'o) Event list" where
  "renumberLoop m nid [] = []"
| "renumberLoop m nid (v # events) =
     (case m (ev_Id v) of
        Some r \<Rightarrow> \<lparr>ev_ClientId = ev_ClientId v, ev_Kind = ev_Kind v, ev_Value = ev_Value v, ev_Id = r\<rparr> # renumberLoop m nid events
      | None \<Rightarrow> \<lparr>ev_ClientId = ev_ClientId v, ev_Kind = ev_Kind v, ev_Value = ev_Value v, ev_Id = nid\<rparr> #
          renumberLoop (m(ev_Id v \<mapsto> nid)) (nid + 1) events)"

definition renumber :: "('i, 'o) Event list \<Rightarrow> ('i, 'o) Event list" where
  "renumber events = renumberLoop Map.empty 0 events"

definition convertEntries :: "('i, 'o) Event list \<Rightarrow> ('i, 'o) entry list" where
  "convertEntries events =
     map (\<lambda>(i, elem). \<lparr>en_kind = ev_Kind elem, en_value = ev_Value elem, en_id = ev_Id elem, en_time = int i,
            en_clientId = ev_ClientId elem\<rparr>) (enumerate 0 events)"

section \<open>Linked lists\<close>

record ('i, 'o) node =
  nd_value :: "('i, 'o) val"
  nd_match :: "nat option"
  nd_id :: int
  nd_next :: "nat option"
  nd_prev :: "nat option"

type_synonym ('i, 'o) heap = "('i, 'o) node list"

definition set_next :: "nat \<Rightarrow> nat option \<Rightarrow> ('i, 'o) heap \<Rightarrow> ('i, 'o) heap" where
  "set_next a p h = h[a := (h ! a)\<lparr>nd_next := p\<rparr>]"

definition set_prev :: "nat \<Rightarrow> nat option \<Rightarrow> ('i, 'o) heap \<Rightarrow> ('i, 'o) heap" where
  "set_prev a p h = h[a := (h ! a)\<lparr>nd_prev := p\<rparr>]"

definition insertBefore :: "nat \<Rightarrow> nat option \<Rightarrow> ('i, 'o) heap \<Rightarrow> ('i, 'o) heap" where
  "insertBefore n mark h =
     (case mark of
        None \<Rightarrow> h
      | Some mk \<Rightarrow>
          (let beforeMark = nd_prev (h ! mk);
               h1 = set_prev mk (Some n) h;
               h2 = set_next n (Some mk) h1
           in case beforeMark of
                None \<Rightarrow> h2
              | Some b \<Rightarrow> set_next b (Some n) (set_prev n (Some b) h2)))"

text \<open>The number of nodes from \<open>n\<close> on; a list in the heap has at most as many nodes as the heap.\<close>

fun chainLength :: "nat \<Rightarrow> ('i, 'o) heap \<Rightarrow> nat option \<Rightarrow> nat" where
  "chainLength fuel h None = 0"
| "chainLength 0 h (Some n) = 0"
| "chainLength (Suc fuel) h (Some n) = Suc (chainLength fuel h (nd_next (h ! n)))"

fun linkLoop :: "('i, 'o) entry list \<Rightarrow> ('i, 'o) heap \<Rightarrow> nat option \<Rightarrow> (int \<rightharpoonup> nat) \<Rightarrow> ('i, 'o) heap \<times> nat option" where
  "linkLoop [] h root match = (h, root)"
| "linkLoop (elem # rest) h root match =
     (let a = length h in
      if en_kind elem then
        linkLoop rest (insertBefore a root (h @ [\<lparr>nd_value = en_value elem, nd_match = None, nd_id = en_id elem,
            nd_next = None, nd_prev = None\<rparr>])) (Some a) (match(en_id elem \<mapsto> a))
      else
        linkLoop rest (insertBefore a root (h @ [\<lparr>nd_value = en_value elem, nd_match = match (en_id elem), nd_id = en_id elem,
            nd_next = None, nd_prev = None\<rparr>])) (Some a) match)"

text \<open>The loop runs from the last entry to the first.\<close>

definition makeLinkedEntries :: "('i, 'o) entry list \<Rightarrow> ('i, 'o) heap \<times> nat option" where
  "makeLinkedEntries entries = linkLoop (rev entries) [] None Map.empty"

definition lift :: "nat \<Rightarrow> ('i, 'o) heap \<Rightarrow> ('i, 'o) heap option" where
  "lift entry h = do {
     p \<leftarrow> nd_prev (h ! entry);
     let h1 = set_next p (nd_next (h ! entry)) h;
     q \<leftarrow> nd_next (h1 ! entry);
     let h2 = set_prev q (nd_prev (h1 ! entry)) h1;
     m \<leftarrow> nd_match (h2 ! entry);
     mp \<leftarrow> nd_prev (h2 ! m);
     let h3 = set_next mp (nd_next (h2 ! m)) h2;
     Some (case nd_next (h3 ! m) of None \<Rightarrow> h3 | Some mq \<Rightarrow> set_prev mq (nd_prev (h3 ! m)) h3)
   }"

definition unlift :: "nat \<Rightarrow> ('i, 'o) heap \<Rightarrow> ('i, 'o) heap option" where
  "unlift entry h = do {
     m \<leftarrow> nd_match (h ! entry);
     mp \<leftarrow> nd_prev (h ! m);
     let h1 = set_next mp (Some m) h;
     let h2 = (case nd_next (h1 ! m) of None \<Rightarrow> h1 | Some mq \<Rightarrow> set_prev mq (Some m) h1);
     p \<leftarrow> nd_prev (h2 ! entry);
     let h3 = set_next p (Some entry) h2;
     q \<leftarrow> nd_next (h3 ! entry);
     Some (set_prev q (Some entry) h3)
   }"

section \<open>The search\<close>

type_synonym 's cache = "64 word \<Rightarrow> (bitset \<times> 's) list"

definition cacheContains :: "('s \<Rightarrow> 's \<Rightarrow> bool) \<Rightarrow> 's cache \<Rightarrow> bitset \<times> 's \<Rightarrow> bool" where
  "cacheContains equal cache entry =
     list_ex (\<lambda>elem. bitset_equals (fst entry) (fst elem) \<and> equal (snd entry) (snd elem)) (cache (bitset_hash (fst entry)))"

record ('i, 'o, 's) search =
  se_heap :: "('i, 'o) heap"
  se_entry :: "nat option"
  se_linearized :: bitset
  se_cache :: "'s cache"
  se_calls :: "(nat \<times> 's) list"
  se_longest :: "nat option list"
  se_seqs :: "int list list"
  se_state :: 's

text \<open>The conversion \<^verbatim>\<open>uint(id)\<close>.\<close>

definition uint_of :: "int \<Rightarrow> nat" where
  "uint_of i = nat (i mod 2 ^ 64)"

text \<open>The longest prefix for each entry: a pointer to a sequence in \<open>se_seqs\<close>, made when it is first needed.\<close>

fun longestLoop :: "('i, 'o) heap \<Rightarrow> (nat \<times> 's) list \<Rightarrow> (nat \<times> 's) list \<Rightarrow> nat option \<Rightarrow> nat option list \<times> int list list \<Rightarrow>
    (nat option list \<times> int list list) option" where
  "longestLoop h calls [] sq (longest, seqs) = Some (longest, seqs)"
| "longestLoop h calls (v # vs) sq (longest, seqs) = do {
     let vid = nd_id (h ! fst v);
     cur \<leftarrow> go_index longest vid;
     if (case cur of None \<Rightarrow> True | Some q \<Rightarrow> length (seqs ! q) < length calls) then do {
       let (q, seqs1) = (case sq of Some q \<Rightarrow> (q, seqs) | None \<Rightarrow> (length seqs, seqs @ [map (\<lambda>(a, _). nd_id (h ! a)) calls]));
       longest1 \<leftarrow> go_store longest vid (Some q);
       longestLoop h calls vs (Some q) (longest1, seqs1)
     } else longestLoop h calls vs sq (longest, seqs)
   }"

text \<open>One turn of the loop; the inner \<open>None\<close> is \<^verbatim>\<open>return false\<close>.\<close>

definition checkIter :: "('s \<Rightarrow> 'i \<Rightarrow> 'o \<Rightarrow> bool \<times> 's) \<Rightarrow> ('s \<Rightarrow> 's \<Rightarrow> bool) \<Rightarrow> bool \<Rightarrow> nat \<Rightarrow> ('i, 'o, 's) search \<Rightarrow>
    ('i, 'o, 's) search option option" where
  "checkIter step equal computePartial headEntry s = do {
     entry \<leftarrow> se_entry s;
     let nd = se_heap s ! entry;
     let advance = Some (Some (s\<lparr>se_entry := nd_next nd\<rparr>));
     case nd_match nd of
       Some matching \<Rightarrow>
         (case (nd_value nd, nd_value (se_heap s ! matching)) of
            (VIn inp, VOut out) \<Rightarrow>
              (let (ok, newState) = step (se_state s) inp out in
               if ok then do {
                 newLinearized \<leftarrow> bitset_set (uint_of (nd_id nd)) (bitset_clone (se_linearized s));
                 if \<not> cacheContains equal (se_cache s) (newLinearized, newState) then do {
                   let hash = bitset_hash newLinearized;
                   let cache1 = (se_cache s)(hash := se_cache s hash @ [(newLinearized, newState)]);
                   linearized1 \<leftarrow> bitset_set (uint_of (nd_id nd)) (se_linearized s);
                   h1 \<leftarrow> lift entry (se_heap s);
                   Some (Some (s\<lparr>se_cache := cache1, se_calls := se_calls s @ [(entry, se_state s)], se_state := newState,
                     se_linearized := linearized1, se_heap := h1, se_entry := nd_next (h1 ! headEntry)\<rparr>))
                 } else advance
               } else advance)
          | _ \<Rightarrow> None)
     | None \<Rightarrow>
         if se_calls s = [] then Some None
         else do {
           (longest1, seqs1) \<leftarrow>
             (if computePartial then longestLoop (se_heap s) (se_calls s) (se_calls s) None (se_longest s, se_seqs s)
              else Some (se_longest s, se_seqs s));
           let (e, st) = last (se_calls s);
           linearized1 \<leftarrow> bitset_clear (uint_of (nd_id (se_heap s ! e))) (se_linearized s);
           h1 \<leftarrow> unlift e (se_heap s);
           Some (Some (s\<lparr>se_longest := longest1, se_seqs := seqs1, se_state := st, se_linearized := linearized1,
             se_calls := butlast (se_calls s), se_heap := h1, se_entry := nd_next (h1 ! e)\<rparr>))
         }
   }"

text \<open>The loop; the inner option is the result, \<open>None\<close> when the readings of \<^verbatim>\<open>kill\<close> are used up.\<close>

fun checkLoop :: "('s \<Rightarrow> 'i \<Rightarrow> 'o \<Rightarrow> bool \<times> 's) \<Rightarrow> ('s \<Rightarrow> 's \<Rightarrow> bool) \<Rightarrow> bool \<Rightarrow> nat \<Rightarrow> bool list \<Rightarrow> ('i, 'o, 's) search \<Rightarrow>
    (bool \<times> ('i, 'o, 's) search) option option" where
  "checkLoop step equal computePartial headEntry kills s =
     (if nd_next (se_heap s ! headEntry) = None then Some (Some (True, s))
      else case kills of
          [] \<Rightarrow> Some None
        | kill # ks \<Rightarrow>
            if kill then Some (Some (False, s))
            else do {
              r \<leftarrow> checkIter step equal computePartial headEntry s;
              case r of
                None \<Rightarrow> Some (Some (False, s))
              | Some s1 \<Rightarrow> checkLoop step equal computePartial headEntry ks s1
            })"

declare checkLoop.simps [simp del]

definition startSearch :: "'s \<Rightarrow> ('i, 'o) entry list \<Rightarrow> ('i, 'o, 's) search \<times> nat \<times> nat" where
  "startSearch init history =
     (let (h, entry) = makeLinkedEntries history;
          n = chainLength (length h) h entry div 2;
          headEntry = length h;
          h1 = insertBefore headEntry entry (h @ [\<lparr>nd_value = VNil, nd_match = None, nd_id = -1, nd_next = None, nd_prev = None\<rparr>])
      in (\<lparr>se_heap = h1, se_entry = entry, se_linearized = newBitset n, se_cache = (\<lambda>_. []), se_calls = [],
           se_longest = replicate n None, se_seqs = [], se_state = init\<rparr>, headEntry, n))"

text \<open>The result: \<^verbatim>\<open>longest\<close> holds pointers to sequences, the numbers of the sequences that are given with it.\<close>

definition checkSingle :: "'s \<Rightarrow> ('s \<Rightarrow> 'i \<Rightarrow> 'o \<Rightarrow> bool \<times> 's) \<Rightarrow> ('s \<Rightarrow> 's \<Rightarrow> bool) \<Rightarrow> ('i, 'o) entry list \<Rightarrow> bool \<Rightarrow> bool list \<Rightarrow>
    (bool \<times> nat option list \<times> int list list) option option" where
  "checkSingle init step equal history computePartial kills =
     (let (s0, headEntry, n) = startSearch init history in do {
        r \<leftarrow> checkLoop step equal computePartial headEntry kills s0;
        Some (map_option (\<lambda>(ok, s).
          if ok then (True, replicate n (Some (length (se_seqs s))),
                      se_seqs s @ [map (\<lambda>(a, _). nd_id (se_heap s ! a)) (se_calls s)])
          else (False, se_longest s, se_seqs s)) r)
      })"

section \<open>Checking the partitions\<close>

definition fillDefault :: "('i, 'o, 's) Model \<Rightarrow> ('i, 'o, 's) Model" where
  "fillDefault model =
     (let m1 = (if md_Partition model = None then model\<lparr>md_Partition := Some NoPartition\<rparr> else model);
          m2 = (if md_PartitionEvent m1 = None then m1\<lparr>md_PartitionEvent := Some NoPartitionEvent\<rparr> else m1)
      in if md_Equal m2 = None then m2\<lparr>md_Equal := Some ShallowEqual\<rparr> else m2)"

text \<open>
  The loop that collects the results.  An arrival is the result of a partition, or \<open>None\<close> when the timer fires.
  The value is \<^verbatim>\<open>ok\<close>, \<^verbatim>\<open>timedOut\<close>, \<^verbatim>\<open>count\<close> and the arrivals that are left; it is \<open>None\<close> while the loop waits.
\<close>

fun collectLoop :: "bool \<Rightarrow> nat \<Rightarrow> bool option list \<Rightarrow> nat \<Rightarrow> bool \<Rightarrow> (bool \<times> bool \<times> nat \<times> bool option list) option" where
  "collectLoop computeInfo n [] cnt ok = None"
| "collectLoop computeInfo n (None # arrivals) cnt ok = Some (ok, True, cnt, arrivals)"
| "collectLoop computeInfo n (Some result # arrivals) cnt ok =
     (let cnt1 = cnt + 1; ok1 = (ok \<and> result) in
      if \<not> ok1 \<and> \<not> computeInfo then Some (ok1, False, cnt1, arrivals)
      else if n \<le> cnt1 then Some (ok1, False, cnt1, arrivals)
      else collectLoop computeInfo n arrivals cnt1 ok1)"

text \<open>The loop that waits for the remaining searches; \<open>None\<close> while it waits.\<close>

fun drainLoop :: "nat \<Rightarrow> nat \<Rightarrow> bool option list \<Rightarrow> unit option" where
  "drainLoop n cnt [] = (if cnt < n then None else Some ())"
| "drainLoop n cnt (None # arrivals) = (if cnt < n then drainLoop n cnt arrivals else Some ())"
| "drainLoop n cnt (Some r # arrivals) = (if cnt < n then drainLoop n (cnt + 1) arrivals else Some ())"

text \<open>The distinct sequences that \<^verbatim>\<open>longest\<close> points to; \<open>iter\<close> is the order in which Go visits the map.\<close>

definition partials :: "(nat list \<Rightarrow> nat list) \<Rightarrow> nat option list \<times> int list list \<Rightarrow> int list list" where
  "partials iter l = map (\<lambda>k. snd l ! k) (iter (remdups (concat (map (\<lambda>v. case v of None \<Rightarrow> [] | Some k \<Rightarrow> [k]) (fst l)))))"

text \<open>\<open>longests\<close> holds what each search has left in \<^verbatim>\<open>longest\<close>.\<close>

definition checkParallel :: "(nat list \<Rightarrow> nat list) \<Rightarrow> bool \<Rightarrow> nat \<Rightarrow> bool option list \<Rightarrow> (nat option list \<times> int list list) list \<Rightarrow>
    (CheckResult \<times> int list list list) option" where
  "checkParallel iter computeInfo n arrivals longests = do {
     (ok, timedOut, cnt, rest) \<leftarrow> collectLoop computeInfo n arrivals 0 True;
     info \<leftarrow> (if computeInfo then do { drainLoop n cnt rest; Some (map (partials iter) longests) } else Some []);
     Some (if \<not> ok then Illegal else if timedOut then Unknown else Ok, info)
   }"

text \<open>The histories that \<^verbatim>\<open>checkOperations\<close> and \<^verbatim>\<open>checkEvents\<close> hand to \<^verbatim>\<open>checkParallel\<close>; the functions of the
  model are set by \<^verbatim>\<open>fillDefault\<close> before.\<close>

definition operationParts :: "(('i, 'o) entry list \<Rightarrow> ('i, 'o) entry list) \<Rightarrow> ('i, 'o, 's) Model \<Rightarrow> ('i, 'o) Operation list \<Rightarrow>
    ('i, 'o) entry list list option" where
  "operationParts sortf model history = do {
     part \<leftarrow> md_Partition (fillDefault model);
     Some (map (makeEntries sortf) (part history))
   }"

definition eventParts :: "('i, 'o, 's) Model \<Rightarrow> ('i, 'o) Event list \<Rightarrow> ('i, 'o) entry list list option" where
  "eventParts model history = do {
     part \<leftarrow> md_PartitionEvent (fillDefault model);
     Some (map (\<lambda>sub. convertEntries (renumber sub)) (part history))
   }"

text \<open>
  A run without a timeout.  \<open>turns\<close> bounds the turns of each search, whose \<^verbatim>\<open>kill\<close> is not set before its result
  has arrived, and \<open>order\<close> lists the partitions in the order in which their searches end.  The value is \<open>None\<close> for a
  panic, for a search that needs more turns, and while the collecting loop waits.
\<close>

definition runSearch :: "('i, 'o, 's) Model \<Rightarrow> nat \<Rightarrow> ('i, 'o) entry list \<Rightarrow> bool option" where
  "runSearch model turns part = do {
     equal \<leftarrow> md_Equal (fillDefault model);
     r \<leftarrow> checkSingle (md_Init model) (md_Step model) equal part False (replicate turns False);
     map_option fst r
   }"

definition runParts :: "nat \<Rightarrow> nat list \<Rightarrow> ('i, 'o, 's) Model \<Rightarrow> ('i, 'o) entry list list \<Rightarrow> CheckResult option" where
  "runParts turns order model parts = do {
     results \<leftarrow> those (map (\<lambda>i. runSearch model turns (parts ! i)) order);
     map_option fst (checkParallel (\<lambda>ks. ks) False (length parts) (map Some results) [])
   }"

definition CheckOperations :: "(('i, 'o) entry list \<Rightarrow> ('i, 'o) entry list) \<Rightarrow> nat \<Rightarrow> nat list \<Rightarrow> ('i, 'o, 's) Model \<Rightarrow>
    ('i, 'o) Operation list \<Rightarrow> bool option" where
  "CheckOperations sortf turns order model history = do {
     parts \<leftarrow> operationParts sortf model history;
     res \<leftarrow> runParts turns order model parts;
     Some (res = Ok)
   }"

definition CheckEvents :: "nat \<Rightarrow> nat list \<Rightarrow> ('i, 'o, 's) Model \<Rightarrow> ('i, 'o) Event list \<Rightarrow> bool option" where
  "CheckEvents turns order model history = do {
     parts \<leftarrow> eventParts model history;
     res \<leftarrow> runParts turns order model parts;
     Some (res = Ok)
   }"

text \<open>The model of the key/value services, \<^verbatim>\<open>src/src/models/kv.go\<close>, as the checker gets it.\<close>

definition KvModel :: "(KvInput, KvOutput, string) Model" where
  "KvModel = \<lparr>md_Partition = Some KvModel_Partition, md_PartitionEvent = None, md_Init = KvModel_Init, md_Step = KvModel_Step,
     md_Equal = None\<rparr>"

end
