(* ===== verification/Porcu_List.thy ===== *)
theory Porcu_List
  imports Porcu_Check
begin

text \<open>
  The linked list of the checker.  \<open>dseg h p xs q\<close> says that the nodes \<open>xs\<close> of the heap are linked in both
  directions, from a predecessor \<open>p\<close> to a successor \<open>q\<close>.  Shown here: what \<^verbatim>\<open>insertBefore\<close>, \<^verbatim>\<open>lift\<close> and
  \<^verbatim>\<open>unlift\<close> do to such a list, that \<^verbatim>\<open>unlift\<close> restores the whole heap, and the list that
  \<^verbatim>\<open>makeLinkedEntries\<close> builds: the node of an entry has a smaller address than the nodes before it.
\<close>

section \<open>Segments\<close>

definition nxt :: "nat list \<Rightarrow> nat option \<Rightarrow> nat option" where
  "nxt xs q = (case xs of [] \<Rightarrow> q | y # ys \<Rightarrow> Some y)"

definition lst :: "nat option \<Rightarrow> nat list \<Rightarrow> nat option" where
  "lst p xs = (if xs = [] then p else Some (last xs))"

fun dseg :: "('i, 'o) heap \<Rightarrow> nat option \<Rightarrow> nat list \<Rightarrow> nat option \<Rightarrow> bool" where
  "dseg h p [] q = True"
| "dseg h p (x # xs) q =
     (x < length h \<and> nd_prev (h ! x) = p \<and> nd_next (h ! x) = nxt xs q \<and> dseg h (Some x) xs q)"

lemma nxt_simps [simp]: "nxt [] q = q" "nxt (x # xs) q = Some x" "nxt (xs @ ys) q = nxt xs (nxt ys q)"
  by (simp_all add: nxt_def split: list.splits)

lemma lst_simps [simp]: "lst p [] = p" "lst p (xs @ [x]) = Some x" "lst (Some x) xs = lst p (x # xs)"
    "lst p (xs @ y # ys) = lst p (y # ys)"
  by (simp_all add: lst_def)

lemma dseg_append: "dseg h p (xs @ ys) q \<longleftrightarrow> dseg h p xs (nxt ys q) \<and> dseg h (lst p xs) ys q"
  by (induction xs arbitrary: p) (auto simp: lst_def)

lemma dseg_range: "dseg h p xs q \<Longrightarrow> x \<in> set xs \<Longrightarrow> x < length h"
  by (induction xs arbitrary: p) auto

lemma length_set_next [simp]: "length (set_next a p h) = length h"
  by (simp add: set_next_def)

lemma length_set_prev [simp]: "length (set_prev a p h) = length h"
  by (simp add: set_prev_def)

lemma nth_set_next: "a < length h \<Longrightarrow> set_next a p h ! b = (if b = a then (h ! a)\<lparr>nd_next := p\<rparr> else h ! b)"
  by (simp add: set_next_def nth_list_update)

lemma nth_set_prev: "a < length h \<Longrightarrow> set_prev a p h ! b = (if b = a then (h ! a)\<lparr>nd_prev := p\<rparr> else h ! b)"
  by (simp add: set_prev_def nth_list_update)

lemma dseg_frame:
  assumes "dseg h p xs q" "length h \<le> length h'"
    "\<And>x. x \<in> set xs \<Longrightarrow> nd_prev (h' ! x) = nd_prev (h ! x) \<and> nd_next (h' ! x) = nd_next (h ! x)"
  shows "dseg h' p xs q"
  using assms by (induction xs arbitrary: p) auto

lemma dseg_set_last:
  assumes "dseg h p xs q" "xs \<noteq> []" "distinct xs"
  shows "dseg (set_next (last xs) r h) p xs r"
  using assms
proof (induction xs arbitrary: p)
  case (Cons x xs)
  then show ?case by (cases xs) (auto simp: nth_set_next dseg_range)
qed simp

lemma dseg_set_first:
  assumes "dseg h p (x # xs) q" "distinct (x # xs)"
  shows "dseg (set_prev x r h) r (x # xs) q"
proof -
  have "dseg (set_prev x r h) (Some x) xs q"
    by (rule dseg_frame [of h]) (use assms in \<open>auto simp: nth_set_prev\<close>)
  then show ?thesis using assms by (simp add: nth_set_prev)
qed

text \<open>The part of a node that the links do not touch.\<close>

definition same_data :: "('i, 'o) heap \<Rightarrow> ('i, 'o) heap \<Rightarrow> bool" where
  "same_data h h' \<longleftrightarrow> length h' = length h \<and>
     (\<forall>a < length h. nd_value (h' ! a) = nd_value (h ! a) \<and> nd_match (h' ! a) = nd_match (h ! a) \<and> nd_id (h' ! a) = nd_id (h ! a))"

lemma same_data_refl [simp]: "same_data h h"
  by (simp add: same_data_def)

lemma same_data_trans: "same_data h h1 \<Longrightarrow> same_data h1 h2 \<Longrightarrow> same_data h h2"
  by (simp add: same_data_def)

lemma same_data_set:
  "a < length h \<Longrightarrow> same_data h0 h \<Longrightarrow> same_data h0 (set_next a p h)"
  "a < length h \<Longrightarrow> same_data h0 h \<Longrightarrow> same_data h0 (set_prev a p h)"
  by (auto simp: same_data_def nth_set_next nth_set_prev)

section \<open>Taking a node out and putting it back\<close>

definition unlink :: "nat \<Rightarrow> ('i, 'o) heap \<Rightarrow> ('i, 'o) heap" where
  "unlink x h =
     (let h1 = set_next (the (nd_prev (h ! x))) (nd_next (h ! x)) h
      in case nd_next (h1 ! x) of None \<Rightarrow> h1 | Some q \<Rightarrow> set_prev q (nd_prev (h1 ! x)) h1)"

definition relink :: "nat \<Rightarrow> ('i, 'o) heap \<Rightarrow> ('i, 'o) heap" where
  "relink x h =
     (let h1 = set_next (the (nd_prev (h ! x))) (Some x) h
      in case nd_next (h1 ! x) of None \<Rightarrow> h1 | Some q \<Rightarrow> set_prev q (Some x) h1)"

lemma dseg_node:
  assumes "dseg h None (xs @ x # ys) None" "xs \<noteq> []"
  shows "x < length h" "nd_prev (h ! x) = Some (last xs)" "nd_next (h ! x) = nxt ys None"
    "last xs < length h" "nd_next (h ! last xs) = Some x"
proof -
  show "x < length h" "nd_prev (h ! x) = Some (last xs)" "nd_next (h ! x) = nxt ys None"
    using assms by (auto simp: dseg_append lst_def)
  have "dseg h None (butlast xs @ [last xs]) (Some x)" using assms by (simp add: dseg_append)
  then have "dseg h (lst None (butlast xs)) [last xs] (Some x)" unfolding dseg_append by blast
  then show "last xs < length h" "nd_next (h ! last xs) = Some x" by simp_all
qed

lemma dseg_node_next:
  assumes "dseg h None (xs @ x # y # ys) None"
  shows "y < length h" "nd_prev (h ! y) = Some x"
  using assms by (simp_all add: dseg_append)

lemma unlink_eq:
  assumes "dseg h None (xs @ x # ys) None" "distinct (xs @ x # ys)" "xs \<noteq> []"
  shows "unlink x h =
    (case ys of [] \<Rightarrow> set_next (last xs) None h | y # _ \<Rightarrow> set_prev y (Some (last xs)) (set_next (last xs) (Some y) h))"
proof -
  note n = dseg_node [OF assms(1,3)]
  have "x \<noteq> last xs" using assms(2,3) last_in_set [of xs] by auto
  then show ?thesis using n by (simp add: unlink_def Let_def nth_set_next nth_set_prev split: list.splits)
qed

lemma unlink_dseg:
  assumes "dseg h None (xs @ x # ys) None" "distinct (xs @ x # ys)" "xs \<noteq> []"
  shows "dseg (unlink x h) None (xs @ ys) None"
proof -
  note n = dseg_node [OF assms(1,3)]
  have l: "last xs \<in> set xs" "last xs \<notin> set ys" using assms(2,3) last_in_set [of xs] by (auto simp: disjoint_iff)
  have xs: "dseg (set_next (last xs) (nxt ys None) h) None xs (nxt ys None)"
    by (rule dseg_set_last) (use assms in \<open>auto simp: dseg_append\<close>)
  have ys: "dseg (set_next (last xs) (nxt ys None) h) (Some x) ys None"
    by (rule dseg_frame [of h]) (use assms l n in \<open>auto simp: dseg_append nth_set_next\<close>)
  show ?thesis
  proof (cases ys)
    case Nil
    then show ?thesis using xs unlink_eq [OF assms] by simp
  next
    case (Cons y zs)
    have "dseg (set_prev y (Some (last xs)) (set_next (last xs) (Some y) h)) None xs (Some y)"
      by (rule dseg_frame [OF xs [unfolded Cons nxt_simps(2)]])
        (use Cons assms n dseg_node_next(1) [of h xs x y zs] in \<open>auto simp: nth_set_prev\<close>)
    moreover have "dseg (set_prev y (Some (last xs)) (set_next (last xs) (Some y) h)) (Some (last xs)) ys None"
      unfolding Cons by (rule dseg_set_first) (use ys Cons assms in auto)
    ultimately show ?thesis using Cons unlink_eq [OF assms] assms(3) by (simp add: dseg_append lst_def)
  qed
qed

lemma unlink_data:
  assumes "dseg h None (xs @ x # ys) None" "distinct (xs @ x # ys)" "xs \<noteq> []"
  shows "same_data h (unlink x h)"
  using dseg_node [OF assms(1,3)] dseg_node_next(1) [of h xs x] assms(1)
  by (auto simp: unlink_eq [OF assms] intro!: same_data_set split: list.splits)

lemma unlink_self:
  assumes "dseg h None (xs @ x # ys) None" "distinct (xs @ x # ys)" "xs \<noteq> []"
  shows "nd_prev (unlink x h ! x) = Some (last xs)" "nd_next (unlink x h ! x) = nxt ys None"
proof -
  note n = dseg_node [OF assms(1,3)]
  have "x \<noteq> last xs" using assms(2,3) last_in_set [of xs] by auto
  moreover have "y < length h \<and> x \<noteq> y" if "ys = y # zs" for y zs
    using dseg_node_next(1) [of h xs x y zs] assms that by auto
  ultimately show "nd_prev (unlink x h ! x) = Some (last xs)" "nd_next (unlink x h ! x) = nxt ys None"
    using n by (auto simp: unlink_eq [OF assms] nth_set_next nth_set_prev split: list.splits)
qed

lemma node_restore: "a < length h \<Longrightarrow> nd_next (h ! a) = p \<Longrightarrow> set_next a p h = h"
  "a < length h \<Longrightarrow> nd_prev (h ! a) = q \<Longrightarrow> set_prev a q h = h"
  by (auto simp: set_next_def set_prev_def intro!: nth_equalityI simp: nth_list_update)

lemma relink_unlink:
  assumes "dseg h None (xs @ x # ys) None" "distinct (xs @ x # ys)" "xs \<noteq> []"
  shows "relink x (unlink x h) = h"
proof -
  note n = dseg_node [OF assms(1,3)]
  note u = unlink_self [OF assms]
  have x: "x \<noteq> last xs" using assms(2,3) last_in_set [of xs] by auto
  show ?thesis
  proof (cases ys)
    case Nil
    then have "relink x (unlink x h) = set_next (last xs) (Some x) (set_next (last xs) None h)"
      using u x n by (simp add: relink_def Let_def unlink_eq [OF assms] nth_set_next)
    also have "\<dots> = set_next (last xs) (Some x) h" using n by (auto intro!: nth_equalityI simp: nth_set_next)
    also have "\<dots> = h" using n by (intro node_restore) auto
    finally show ?thesis .
  next
    case (Cons y zs)
    have y: "y < length h" "nd_prev (h ! y) = Some x" using dseg_node_next [of h xs x y zs] assms(1) Cons by simp_all
    have ne: "y \<noteq> last xs" "x \<noteq> y" using assms(2,3) Cons last_in_set [of xs] by auto
    let ?p = "last xs"
    have "relink x (unlink x h) = set_prev y (Some x) (set_next ?p (Some x) (set_prev y (Some ?p) (set_next ?p (Some y) h)))"
      using u x ne n y Cons by (simp add: relink_def Let_def unlink_eq [OF assms] nth_set_next nth_set_prev)
    also have "\<dots> = set_prev y (Some x) (set_next ?p (Some x) h)"
      using ne n y by (auto intro!: nth_equalityI simp: nth_set_next nth_set_prev)
    also have "\<dots> = set_prev y (Some x) h" using n by (simp add: node_restore)
    also have "\<dots> = h" using y by (intro node_restore) auto
    finally show ?thesis .
  qed
qed

section \<open>Lift and unlift\<close>

lemma lift_unlink:
  assumes "dseg h None (xs @ e # ys @ m # zs) None" "distinct (xs @ e # ys @ m # zs)" "xs \<noteq> []"
    "nd_match (h ! e) = Some m"
  shows "lift e h = Some (unlink m (unlink e h))" "dseg (unlink m (unlink e h)) None (xs @ ys @ zs) None"
    "same_data h (unlink m (unlink e h))" "unlift e (unlink m (unlink e h)) = Some h"
proof -
  let ?h1 = "unlink e h" and ?h2 = "unlink m (unlink e h)"
  have d1: "dseg ?h1 None (xs @ ys @ m # zs) None" by (rule unlink_dseg [OF assms(1-3)])
  have d1': "dseg ?h1 None ((xs @ ys) @ m # zs) None" "distinct ((xs @ ys) @ m # zs)" "xs @ ys \<noteq> []"
    using d1 assms by auto
  show "dseg ?h2 None (xs @ ys @ zs) None" using unlink_dseg [OF d1'] by simp
  note s1 = unlink_data [OF assms(1-3)] and s2 = unlink_data [OF d1']
  show data: "same_data h ?h2" using s1 s2 by (rule same_data_trans)
  note n = dseg_node [OF assms(1,3)] and nm = dseg_node [OF d1'(1,3)]
  obtain q where q: "nxt (ys @ m # zs) None = Some q" by (cases ys) simp_all
  note u = unlink_self [OF assms(1-3)] and um = unlink_self [OF d1']
  have m1: "nd_match (?h1 ! e) = Some m" and m2: "nd_match (?h2 ! e) = Some m"
    using s1 data n assms(4) by (simp_all add: same_data_def)
  have xe: "e \<noteq> last xs" using assms(2,3) last_in_set [of xs] by auto
  have "lift e h = do { m \<leftarrow> nd_match (?h1 ! e); mp \<leftarrow> nd_prev (?h1 ! m);
     let h3 = set_next mp (nd_next (?h1 ! m)) ?h1;
     Some (case nd_next (h3 ! m) of None \<Rightarrow> h3 | Some mq \<Rightarrow> set_prev mq (nd_prev (h3 ! m)) h3) }"
    using n xe q by (simp add: lift_def unlink_def [of e] Let_def nth_set_next del: nxt_simps(3) cong: option.case_cong)
  also have "\<dots> = Some ?h2" using nm m1 by (simp add: unlink_def [of m] Let_def cong: option.case_cong)
  finally show "lift e h = Some ?h2" .
  have r: "relink m ?h2 = ?h1" "relink e ?h1 = h" using relink_unlink [OF d1'] relink_unlink [OF assms(1-3)] by auto
  have "unlift e ?h2 = do { p \<leftarrow> nd_prev (relink m ?h2 ! e);
     let h3 = set_next p (Some e) (relink m ?h2); q \<leftarrow> nd_next (h3 ! e); Some (set_prev q (Some e) h3) }"
    using m2 um by (simp add: unlift_def relink_def [of m] Let_def)
  also have "\<dots> = Some (relink e ?h1)"
    using u q n xe s1 unfolding r(1) by (simp add: relink_def [of e] Let_def nth_set_next same_data_def del: nxt_simps(3))
  finally show "unlift e ?h2 = Some h" unfolding r .
qed

section \<open>Building the list\<close>

lemma insertBefore_dseg:
  assumes "dseg h None xs None" "distinct xs" "nd_prev n = None" "nd_next n = None"
  defines "h' \<equiv> insertBefore (length h) (nxt xs None) (h @ [n])"
  shows "dseg h' None (length h # xs) None" "same_data (h @ [n]) h'"
proof -
  have fresh: "length h \<notin> set xs" using dseg_range [OF assms(1)] by blast
  have g: "dseg (h @ [n]) None xs None"
    by (rule dseg_frame [OF assms(1)]) (use dseg_range [OF assms(1)] in \<open>auto simp: nth_append\<close>)
  have "dseg h' None (length h # xs) None \<and> same_data (h @ [n]) h'"
  proof (cases xs)
    case Nil
    then show ?thesis using assms by (simp add: insertBefore_def)
  next
    case (Cons y ys)
    have y: "y < length h" "nd_prev (h ! y) = None" using assms(1) Cons by auto
    have h': "h' = set_next (length h) (Some y) (set_prev y (Some (length h)) (h @ [n]))"
      using y Cons by (simp add: h'_def insertBefore_def Let_def nth_append)
    have "dseg (set_prev y (Some (length h)) (h @ [n])) (Some (length h)) xs None"
      unfolding Cons by (rule dseg_set_first) (use g assms Cons in auto)
    then have "dseg h' (Some (length h)) xs None" unfolding h'
      by (rule dseg_frame) (use fresh in \<open>auto simp: nth_set_next\<close>)
    moreover have "same_data (h @ [n]) h'" unfolding h' using y by (intro same_data_set) auto
    ultimately show ?thesis using Cons y assms(3) by (simp add: h' nth_set_next nth_set_prev)
  qed
  then show "dseg h' None (length h # xs) None" "same_data (h @ [n]) h'" by blast+
qed

text \<open>The return entry that a call entry is matched with: the first one of its id after the call.\<close>

definition match_of :: "('i, 'o) entry list \<Rightarrow> nat \<Rightarrow> nat option" where
  "match_of R a = (if en_kind (R ! a) then None
     else find (\<lambda>b. en_kind (R ! b) \<and> en_id (R ! b) = en_id (R ! a)) (rev [0..<a]))"

text \<open>The heap for the entries \<open>R\<close>, last entry first.\<close>

definition heap_data :: "('i, 'o) entry list \<Rightarrow> ('i, 'o) heap \<Rightarrow> bool" where
  "heap_data R h \<longleftrightarrow> (\<forall>a < length R. nd_value (h ! a) = en_value (R ! a) \<and> nd_id (h ! a) = en_id (R ! a) \<and> nd_match (h ! a) = match_of R a)"

lemma match_of_prefix: "a < length R \<Longrightarrow> match_of (R @ R') a = match_of R a"
  by (auto simp: match_of_def nth_append intro!: find_cong)

lemma heap_data_snoc:
  assumes "heap_data R h" "length h = length R" "same_data (h @ [n]) h'"
    "nd_value n = en_value e" "nd_id n = en_id e" "nd_match n = match_of (R @ [e]) (length R)"
  shows "heap_data (R @ [e]) h'"
  unfolding heap_data_def
proof (intro allI impI)
  fix a assume a: "a < length (R @ [e])"
  have "nd_value (h' ! a) = nd_value ((h @ [n]) ! a) \<and> nd_match (h' ! a) = nd_match ((h @ [n]) ! a) \<and> nd_id (h' ! a) = nd_id ((h @ [n]) ! a)"
    using assms(2,3) a by (simp add: same_data_def)
  then show "nd_value (h' ! a) = en_value ((R @ [e]) ! a) \<and> nd_id (h' ! a) = en_id ((R @ [e]) ! a) \<and> nd_match (h' ! a) = match_of (R @ [e]) a"
    using a assms by (cases "a < length R") (auto simp: heap_data_def nth_append match_of_prefix less_Suc_eq)
qed

definition match_map :: "('i, 'o) entry list \<Rightarrow> (int \<rightharpoonup> nat) \<Rightarrow> bool" where
  "match_map R match \<longleftrightarrow> (\<forall>i. match i = find (\<lambda>b. en_kind (R ! b) \<and> en_id (R ! b) = i) (rev [0..<length R]))"

lemma match_map_snoc:
  assumes "match_map R match"
  shows "match_map (R @ [e]) (if en_kind e then match(en_id e \<mapsto> length R) else match)"
proof -
  have "find (\<lambda>b. en_kind ((R @ [e]) ! b) \<and> en_id ((R @ [e]) ! b) = i) (rev [0..<length R]) =
      find (\<lambda>b. en_kind (R ! b) \<and> en_id (R ! b) = i) (rev [0..<length R])" for i
    by (auto intro!: find_cong simp: nth_append)
  then show ?thesis using assms by (auto simp: match_map_def nth_append)
qed

lemma rev_upt_Suc: "rev [0..<Suc n] = n # rev [0..<n]"
  by simp

lemma linkLoop_result:
  assumes "dseg h None (rev [0..<length R]) None" "heap_data R h" "length h = length R" "match_map R match"
    "root = nxt (rev [0..<length R]) None"
  shows "\<exists>h'. linkLoop es h root match = (h', nxt (rev [0..<length (R @ es)]) None) \<and>
    dseg h' None (rev [0..<length (R @ es)]) None \<and> heap_data (R @ es) h' \<and> length h' = length (R @ es)"
  using assms
proof (induction es arbitrary: R h root match)
  case Nil
  then show ?case by simp
next
  case (Cons e es)
  define n where "n = \<lparr>nd_value = en_value e, nd_match = (if en_kind e then None else match (en_id e)), nd_id = en_id e,
    nd_next = None, nd_prev = None\<rparr>"
  define h1 where "h1 = insertBefore (length h) root (h @ [n])"
  define match1 where "match1 = (if en_kind e then match(en_id e \<mapsto> length h) else match)"
  have step: "linkLoop (e # es) h root match = linkLoop es h1 (Some (length h)) match1"
    by (simp add: n_def h1_def match1_def Let_def)
  note i = insertBefore_dseg [OF Cons.prems(1) _, of n, folded Cons.prems(5) h1_def]
  have n: "nd_prev n = None" "nd_next n = None" by (simp_all add: n_def)
  have "match_of (R @ [e]) (length R) = nd_match n"
    using Cons.prems(4) by (auto simp: n_def match_of_def match_map_def nth_append intro!: find_cong)
  then have d: "heap_data (R @ [e]) h1" using heap_data_snoc [OF Cons.prems(2,3) i(2)] n by (simp add: n_def)
  have l: "length h1 = length (R @ [e])" using i(2) n Cons.prems(3) by (simp add: same_data_def)
  have m: "match_map (R @ [e]) match1" using match_map_snoc [OF Cons.prems(4), of e] Cons.prems(3) by (simp add: match1_def split: if_splits)
  have s: "dseg h1 None (rev [0..<length (R @ [e])]) None" using i(1) n Cons.prems(3) by simp
  have r: "Some (length h) = nxt (rev [0..<length (R @ [e])]) None" using Cons.prems(3) by simp
  show ?case using Cons.IH [OF s d l m r] unfolding step by simp
qed

lemma makeLinkedEntries_result:
  "\<exists>h. makeLinkedEntries E = (h, nxt (rev [0..<length E]) None) \<and> dseg h None (rev [0..<length E]) None \<and>
     heap_data (rev E) h \<and> length h = length E"
  using linkLoop_result [of "[]" "[]" Map.empty None "rev E"]
  by (simp add: makeLinkedEntries_def heap_data_def match_map_def)

lemma chainLength_dseg: "dseg h p xs None \<Longrightarrow> length xs \<le> fuel \<Longrightarrow> chainLength fuel h (nxt xs None) = length xs"
proof (induction xs arbitrary: fuel p)
  case (Cons x xs)
  then show ?case by (cases fuel) auto
qed simp

text \<open>The list that a search starts with: the head, then the entries.\<close>

lemma startSearch_result:
  "\<exists>h. startSearch init E =
     (\<lparr>se_heap = h, se_entry = nxt (rev [0..<length E]) None, se_linearized = newBitset (length E div 2), se_cache = (\<lambda>_. []),
       se_calls = [], se_longest = replicate (length E div 2) None, se_seqs = [], se_state = init\<rparr>, length E, length E div 2) \<and>
     dseg h None (rev [0..<Suc (length E)]) None \<and> heap_data (rev E) h \<and> length h = Suc (length E)"
proof -
  obtain h where h: "makeLinkedEntries E = (h, nxt (rev [0..<length E]) None)" "dseg h None (rev [0..<length E]) None"
    "heap_data (rev E) h" "length h = length E" using makeLinkedEntries_result [of E] by blast
  define n :: "('a, 'b) node" where "n = \<lparr>nd_value = VNil, nd_match = None, nd_id = -1, nd_next = None, nd_prev = None\<rparr>"
  define h1 where "h1 = insertBefore (length h) (nxt (rev [0..<length E]) None) (h @ [n])"
  have i: "dseg h1 None (length h # rev [0..<length E]) None" "same_data (h @ [n]) h1"
    using insertBefore_dseg [OF h(2), of n] by (simp_all add: h1_def n_def)
  have len: "length h1 = Suc (length E)" using i(2) h(4) by (simp add: same_data_def)
  have d: "heap_data (rev E) h1" using h(3,4) i(2) by (simp add: heap_data_def same_data_def nth_append)
  have "chainLength (length h) h (nxt (rev [0..<length E]) None) = length E" using chainLength_dseg [OF h(2)] h(4) by simp
  then show ?thesis using i(1) len d h(1,4) by (intro exI [of _ h1]) (simp add: startSearch_def h1_def n_def Let_def)
qed

end
