(* ===== verification/Porcu_Spec.thy ===== *)
theory Porcu_Spec
  imports Porcu_List
begin

text \<open>
  What the checker decides.  A history is a list of call and return entries in the order of time; an order of its
  operations is a linearization when no operation stands before one that had returned before it was called, and
  the sequential model accepts the operations in that order.  The theory also holds the facts about
  well-formed histories and about the nodes that are still in the list after some operations have been lifted out.
\<close>

section \<open>Histories and linearizations\<close>

definition entry_ok :: "nat \<Rightarrow> ('i, 'o) entry \<Rightarrow> bool" where
  "entry_ok n e \<longleftrightarrow> 0 \<le> en_id e \<and> en_id e < int n \<and>
     (case en_value e of VIn _ \<Rightarrow> \<not> en_kind e | VOut _ \<Rightarrow> en_kind e | VNil \<Rightarrow> False)"

text \<open>Every operation is called once and returns once, later.\<close>

definition history_ok :: "('i, 'o) entry list \<Rightarrow> bool" where
  "history_ok E \<longleftrightarrow> length E < 2 ^ 63 \<and> length E mod 2 = 0 \<and> list_all (entry_ok (length E div 2)) E \<and>
     distinct (map (\<lambda>e. (en_kind e, en_id e)) E) \<and>
     sorted_wrt (\<lambda>a b. \<not> (en_kind a \<and> \<not> en_kind b \<and> en_id a = en_id b)) E"

text \<open>Operation \<open>i\<close> has returned before \<open>j\<close> is called.\<close>

definition precedes :: "('i, 'o) entry list \<Rightarrow> nat \<Rightarrow> nat \<Rightarrow> bool" where
  "precedes E i j \<longleftrightarrow> \<not> sorted_wrt (\<lambda>a b. \<not> (en_kind a \<and> en_id a = int i \<and> \<not> en_kind b \<and> en_id b = int j)) E"

definition stepOp :: "('i, 'o) entry list \<Rightarrow> ('s \<Rightarrow> 'i \<Rightarrow> 'o \<Rightarrow> bool \<times> 's) \<Rightarrow> 's \<Rightarrow> nat \<Rightarrow> 's option" where
  "stepOp E step st i = do {
     c \<leftarrow> find (\<lambda>e. \<not> en_kind e \<and> en_id e = int i) E;
     r \<leftarrow> find (\<lambda>e. en_kind e \<and> en_id e = int i) E;
     case (en_value c, en_value r) of
       (VIn inp, VOut out) \<Rightarrow> (let (ok, st') = step st inp out in if ok then Some st' else None)
     | _ \<Rightarrow> None
   }"

fun runOps :: "('i, 'o) entry list \<Rightarrow> ('s \<Rightarrow> 'i \<Rightarrow> 'o \<Rightarrow> bool \<times> 's) \<Rightarrow> 's \<Rightarrow> nat list \<Rightarrow> 's option" where
  "runOps E step st [] = Some st"
| "runOps E step st (i # ls) = do { st' \<leftarrow> stepOp E step st i; runOps E step st' ls }"

text \<open>The order \<open>ls\<close> completes a search that has linearized the operations \<open>S\<close> and reached \<open>st\<close>.\<close>

definition completes :: "('i, 'o) entry list \<Rightarrow> ('s \<Rightarrow> 'i \<Rightarrow> 'o \<Rightarrow> bool \<times> 's) \<Rightarrow> nat set \<Rightarrow> 's \<Rightarrow> nat list \<Rightarrow> bool" where
  "completes E step S st ls \<longleftrightarrow> distinct ls \<and> set ls = {..<length E div 2} - S \<and>
     sorted_wrt (\<lambda>i j. \<not> precedes E j i) ls \<and> runOps E step st ls \<noteq> None"

definition linearization :: "('i, 'o) entry list \<Rightarrow> ('s \<Rightarrow> 'i \<Rightarrow> 'o \<Rightarrow> bool \<times> 's) \<Rightarrow> 's \<Rightarrow> nat list \<Rightarrow> bool" where
  "linearization E step init ls \<longleftrightarrow> completes E step {} init ls"

definition dead_end :: "('i, 'o) entry list \<Rightarrow> ('s \<Rightarrow> 'i \<Rightarrow> 'o \<Rightarrow> bool \<times> 's) \<Rightarrow> nat set \<times> 's \<Rightarrow> bool" where
  "dead_end E step c \<longleftrightarrow> (\<nexists>ls. completes E step (fst c) (snd c) ls)"

lemma runOps_append: "runOps E step st (xs @ ys) = do { st' \<leftarrow> runOps E step st xs; runOps E step st' ys }"
  by (induction xs arbitrary: st) auto

lemma completes_Cons:
  assumes "completes E step S st (i # ls)"
  shows "i < length E div 2" "i \<notin> S" "\<And>j. j < length E div 2 \<Longrightarrow> j \<notin> S \<Longrightarrow> j \<noteq> i \<Longrightarrow> \<not> precedes E j i"
    "\<exists>st'. stepOp E step st i = Some st' \<and> completes E step (insert i S) st' ls"
proof -
  have c: "distinct (i # ls)" "set (i # ls) = {..<length E div 2} - S" "sorted_wrt (\<lambda>i j. \<not> precedes E j i) (i # ls)"
      "runOps E step st (i # ls) \<noteq> None"
    using assms unfolding completes_def by blast+
  have "i \<in> {..<length E div 2} - S" unfolding c(2) [symmetric] by simp
  then show "i < length E div 2" "i \<notin> S" by auto
  show "\<not> precedes E j i" if "j < length E div 2" "j \<notin> S" "j \<noteq> i" for j
  proof -
    have "j \<in> set (i # ls)" unfolding c(2) using that by simp
    then show ?thesis using c(3) that by auto
  qed
  obtain st' where st': "stepOp E step st i = Some st'" "runOps E step st' ls \<noteq> None" using c(4) by (auto simp: bind_eq_None_conv)
  have "set ls = {..<length E div 2} - insert i S" using c(1,2) by auto
  then have "completes E step (insert i S) st' ls" using c st' by (simp add: completes_def)
  then show "\<exists>st'. stepOp E step st i = Some st' \<and> completes E step (insert i S) st' ls" using st' by blast
qed

section \<open>Positions\<close>

text \<open>Positions count from the end of the history, as the addresses of the nodes do.\<close>

definition rid :: "('i, 'o) entry list \<Rightarrow> nat \<Rightarrow> nat" where
  "rid R a = nat (en_id (R ! a))"

lemma not_sorted_wrt_rev:
  "\<not> sorted_wrt P (rev R) \<longleftrightarrow> (\<exists>y x. y < x \<and> x < length R \<and> \<not> P (R ! x) (R ! y))"
  unfolding sorted_wrt_rev by (auto simp: sorted_wrt_iff_nth_less)

lemma ok_entry:
  assumes "history_ok (rev R)" "a < length R"
  shows "entry_ok (length R div 2) (R ! a)"
  using assms by (simp add: history_ok_def list_all_iff)

lemma ok_rid: "history_ok (rev R) \<Longrightarrow> a < length R \<Longrightarrow> en_id (R ! a) = int (rid R a) \<and> rid R a < length R div 2"
  using ok_entry [of R a] by (auto simp: entry_ok_def rid_def)

lemma ok_unique:
  assumes "history_ok (rev R)" "a < length R" "b < length R" "rid R a = rid R b" "en_kind (R ! a) = en_kind (R ! b)"
  shows "a = b"
proof -
  have "distinct (map (\<lambda>e. (en_kind e, en_id e)) R)" using assms(1) by (simp add: history_ok_def rev_map [symmetric])
  moreover have "en_id (R ! a) = en_id (R ! b)" using assms ok_rid [of R a] ok_rid [of R b] by simp
  ultimately show ?thesis using nth_eq_iff_index_eq [of "map (\<lambda>e. (en_kind e, en_id e)) R" a b] assms by simp
qed

lemma ok_call_first:
  assumes "history_ok (rev R)" "a < length R" "b < length R" "rid R a = rid R b" "\<not> en_kind (R ! a)" "en_kind (R ! b)"
  shows "b < a"
proof (rule ccontr)
  assume "\<not> b < a"
  then have "a < b" using assms(5,6) by (metis linorder_neqE_nat)
  then have "\<not> sorted_wrt (\<lambda>a b. \<not> (en_kind a \<and> \<not> en_kind b \<and> en_id a = en_id b)) (rev R)"
    unfolding not_sorted_wrt_rev using assms ok_rid [of R a] ok_rid [of R b]
    by (intro exI [of _ a] exI [of _ b]) simp
  then show False using assms(1) by (simp add: history_ok_def)
qed

lemma ok_position:
  assumes "history_ok (rev R)" "i < length R div 2"
  shows "\<exists>a<length R. rid R a = i \<and> en_kind (R ! a) = k"
proof -
  let ?f = "\<lambda>e. (en_kind e, en_id e)" and ?n = "length R div 2"
  have d: "distinct (map ?f R)" using assms(1) by (simp add: history_ok_def rev_map [symmetric])
  have sub: "set (map ?f R) \<subseteq> UNIV \<times> {0..<int ?n}"
    using assms(1) by (auto simp: history_ok_def list_all_iff entry_ok_def)
  have "card (set (map ?f R)) = length R" using distinct_card [OF d] by simp
  moreover have "card ((UNIV :: bool set) \<times> {0..<int ?n}) = length R"
    using assms(1) by (auto simp: card_cartesian_product history_ok_def)
  ultimately have "set (map ?f R) = UNIV \<times> {0..<int ?n}" using sub by (intro card_subset_eq) auto
  moreover have "(k, int i) \<in> UNIV \<times> {0..<int ?n}" using assms(2) by auto
  ultimately have "(k, int i) \<in> set (map ?f R)" by blast
  then obtain a where "a < length R" "?f (R ! a) = (k, int i)" by (auto simp: in_set_conv_nth)
  then show ?thesis by (auto simp: rid_def)
qed

lemma precedes_rev:
  assumes "history_ok (rev R)"
  shows "precedes (rev R) i j \<longleftrightarrow>
    (\<exists>y x. y < x \<and> x < length R \<and> en_kind (R ! x) \<and> rid R x = i \<and> \<not> en_kind (R ! y) \<and> rid R y = j)"
proof -
  have "y < x \<and> x < length R \<and> en_kind (R ! x) \<and> en_id (R ! x) = int i \<and> \<not> en_kind (R ! y) \<and> en_id (R ! y) = int j \<longleftrightarrow>
      y < x \<and> x < length R \<and> en_kind (R ! x) \<and> rid R x = i \<and> \<not> en_kind (R ! y) \<and> rid R y = j" for x y
    using ok_rid [OF assms, of x] ok_rid [OF assms, of y] by (cases "y < x \<and> x < length R") auto
  then show ?thesis unfolding precedes_def not_sorted_wrt_rev by (simp add: conj_ac)
qed

lemma find_unique:
  assumes "x \<in> set xs" "P x" "\<And>y. y \<in> set xs \<Longrightarrow> P y \<Longrightarrow> y = x"
  shows "find P xs = Some x"
proof -
  obtain y where y: "find P xs = Some y" using assms(1,2) by (cases "find P xs") (auto simp: find_None_iff)
  then have "y \<in> set xs" "P y" by (auto simp: find_Some_iff)
  then show ?thesis using y assms(3) by blast
qed

lemma find_position:
  assumes "history_ok (rev R)" "a < length R"
  shows "find (\<lambda>e. en_kind e = en_kind (R ! a) \<and> en_id e = int (rid R a)) (rev R) = Some (R ! a)"
proof (rule find_unique)
  fix y assume "y \<in> set (rev R)" and y: "en_kind y = en_kind (R ! a) \<and> en_id y = int (rid R a)"
  then obtain b where b: "b < length R" "y = R ! b" by (auto simp: in_set_conv_nth)
  then have "rid R a = rid R b" using y by (simp add: rid_def)
  then have "a = b" using ok_unique [OF assms b(1)] y b(2) by simp
  then show "y = R ! a" using b(2) by simp
next
  show "R ! a \<in> set (rev R)" using assms(2) by simp
  show "en_kind (R ! a) = en_kind (R ! a) \<and> en_id (R ! a) = int (rid R a)" using ok_rid [OF assms] by simp
qed

text \<open>The step that the search makes at a call node is the step of its operation.\<close>

lemma stepOp_position:
  assumes "history_ok (rev R)" "a < length R" "b < length R" "rid R a = rid R b" "\<not> en_kind (R ! a)" "en_kind (R ! b)"
  shows "\<exists>inp out. en_value (R ! a) = VIn inp \<and> en_value (R ! b) = VOut out \<and>
    stepOp (rev R) step st (rid R a) = (let (ok, st') = step st inp out in if ok then Some st' else None)"
proof -
  obtain inp where i: "en_value (R ! a) = VIn inp"
    using ok_entry [OF assms(1,2)] assms(5) by (auto simp: entry_ok_def split: val.splits)
  obtain out where o: "en_value (R ! b) = VOut out"
    using ok_entry [OF assms(1,3)] assms(6) by (auto simp: entry_ok_def split: val.splits)
  have "find (\<lambda>e. \<not> en_kind e \<and> en_id e = int (rid R a)) (rev R) = Some (R ! a)"
    "find (\<lambda>e. en_kind e \<and> en_id e = int (rid R a)) (rev R) = Some (R ! b)"
    using find_position [OF assms(1,2)] find_position [OF assms(1,3)] assms(4-6) by simp_all
  then show ?thesis using i o by (simp add: stepOp_def)
qed

lemma match_of_ok:
  assumes "history_ok (rev R)" "a < length R"
  shows "en_kind (R ! a) \<Longrightarrow> match_of R a = None"
    "\<not> en_kind (R ! a) \<Longrightarrow> \<exists>b. match_of R a = Some b \<and> b < a \<and> rid R b = rid R a \<and> en_kind (R ! b)"
proof -
  show "match_of R a = None" if "en_kind (R ! a)" using that by (simp add: match_of_def)
  assume k: "\<not> en_kind (R ! a)"
  obtain b where b: "b < length R" "rid R b = rid R a" "en_kind (R ! b)"
    using ok_position [of R "rid R a" True] assms ok_rid [OF assms] by auto
  have ba: "b < a" using ok_call_first [OF assms b(1)] b k by simp
  have "find (\<lambda>b. en_kind (R ! b) \<and> en_id (R ! b) = en_id (R ! a)) (rev [0..<a]) = Some b"
  proof (rule find_unique)
    fix y assume y: "y \<in> set (rev [0..<a])" "en_kind (R ! y) \<and> en_id (R ! y) = en_id (R ! a)"
    then show "y = b" using ok_unique [OF assms(1), of y b] b assms(2) by (auto simp: rid_def)
  qed (use ba b assms ok_rid [OF assms(1)] in auto)
  then show "\<exists>b. match_of R a = Some b \<and> b < a \<and> rid R b = rid R a \<and> en_kind (R ! b)" using k b ba by (auto simp: match_of_def)
qed

section \<open>The nodes that are left\<close>

definition alive :: "('i, 'o) entry list \<Rightarrow> nat set \<Rightarrow> nat list" where
  "alive R S = filter (\<lambda>a. rid R a \<notin> S) (rev [0..<length R])"

lemma alive_iff [simp]: "a \<in> set (alive R S) \<longleftrightarrow> a < length R \<and> rid R a \<notin> S"
  by (auto simp: alive_def)

lemma alive_set: "set (alive R S) = {a. a < length R \<and> rid R a \<notin> S}"
  by auto

lemma alive_sorted: "sorted_wrt (>) (alive R S)"
  unfolding alive_def by (intro sorted_wrt_filter) (simp add: sorted_wrt_rev)

lemma sorted_gt_distinct: "sorted_wrt (>) (xs :: nat list) \<Longrightarrow> distinct xs"
  by (induction xs) auto

lemma sorted_gt_unique:
  assumes "sorted_wrt (>) (xs :: nat list)" "sorted_wrt (>) ys" "set xs = set ys"
  shows "xs = ys"
proof -
  have w: "sorted (rev zs)" if "sorted_wrt (>) zs" for zs :: "nat list"
    unfolding sorted_wrt_rev by (rule sorted_wrt_mono_rel [OF _ that]) simp
  show ?thesis using sorted_distinct_set_unique [of "rev xs" "rev ys"] w assms sorted_gt_distinct by simp
qed

lemma alive_split:
  assumes "a \<in> set (alive R S)"
  obtains xs ys where "alive R S = xs @ a # ys" "set xs = {x \<in> set (alive R S). a < x}" "set ys = {x \<in> set (alive R S). x < a}"
proof -
  obtain xs ys where s: "alive R S = xs @ a # ys" using split_list [OF assms] by blast
  have "sorted_wrt (>) (xs @ a # ys)" using alive_sorted [of R S] s by simp
  then have *: "\<forall>x\<in>set xs. a < x" "\<forall>y\<in>set ys. y < a" by (auto simp: sorted_wrt_append)
  have e: "set (alive R S) = set xs \<union> {a} \<union> set ys" using s by auto
  have "set xs = {x \<in> set (alive R S). a < x}" "set ys = {x \<in> set (alive R S). x < a}" unfolding e using * by auto
  then show ?thesis using s that by blast
qed

text \<open>The links of a heap from which the operations \<open>S\<close> have been lifted.\<close>

definition heap_ok :: "('i, 'o) entry list \<Rightarrow> nat set \<Rightarrow> ('i, 'o) heap \<Rightarrow> bool" where
  "heap_ok R S h \<longleftrightarrow> dseg h None (length R # alive R S) None \<and> heap_data R h \<and> length h = Suc (length R)"

lemma heap_okD:
  assumes "heap_ok R S h" "a < length R"
  shows "nd_value (h ! a) = en_value (R ! a)" "nd_id (h ! a) = en_id (R ! a)" "nd_match (h ! a) = match_of R a"
  using assms by (simp_all add: heap_ok_def heap_data_def)

lemma heap_ok_head: "heap_ok R S h \<Longrightarrow> nd_next (h ! length R) = nxt (alive R S) None"
  by (simp add: heap_ok_def)

lemma heap_ok_next:
  assumes "heap_ok R S h" "a \<in> set (alive R S)" "b \<in> set (alive R S)" "b < a"
  shows "\<exists>d. nd_next (h ! a) = Some d \<and> d \<in> set (alive R S) \<and> d < a \<and> (\<forall>x\<in>set (alive R S). d < x \<longrightarrow> a \<le> x)"
proof -
  obtain xs ys where s: "alive R S = xs @ a # ys" "set xs = {x \<in> set (alive R S). a < x}" "set ys = {x \<in> set (alive R S). x < a}"
    using alive_split [OF assms(2)] by blast
  have "b \<in> set ys" using assms(3,4) unfolding s(3) by blast
  then obtain d zs where d: "ys = d # zs" by (cases ys) auto
  have "nd_next (h ! a) = Some d" using assms(1) s(1) d by (simp add: heap_ok_def dseg_append)
  moreover have "d \<in> set (alive R S)" "d < a" using s(3) d by auto
  moreover have "a \<le> x" if x: "x \<in> set (alive R S)" "d < x" for x
  proof (rule ccontr)
    assume "\<not> a \<le> x"
    then have "x \<in> set ys" unfolding s(3) using x(1) by simp
    moreover have "sorted_wrt (>) ys" using alive_sorted [of R S] s(1) by (simp add: sorted_wrt_append)
    ultimately show False using d x(2) by auto
  qed
  ultimately show ?thesis by blast
qed

lemma heap_ok_lift:
  assumes ok: "history_ok (rev R)" and h: "heap_ok R S h" and a: "a \<in> set (alive R S)" "\<not> en_kind (R ! a)"
  shows "\<exists>h'. lift a h = Some h' \<and> unlift a h' = Some h \<and> heap_ok R (insert (rid R a) S) h'"
proof -
  have al: "a < length R" using a by simp
  obtain m where m: "match_of R a = Some m" "m < a" "rid R m = rid R a" "en_kind (R ! m)"
    using match_of_ok(2) [OF ok al a(2)] by blast
  obtain xs ys where s: "alive R S = xs @ a # ys" "set xs = {x \<in> set (alive R S). a < x}" "set ys = {x \<in> set (alive R S). x < a}"
    using alive_split [OF a(1)] by blast
  have "m \<in> set ys" unfolding s(3) using m a by auto
  then obtain us vs where u: "ys = us @ m # vs" by (meson split_list)
  have srt: "sorted_wrt (>) (xs @ a # us @ m # vs)" using alive_sorted [of R S] s(1) u by simp
  note dist = sorted_gt_distinct [OF srt]
  have set1: "set (xs @ us @ vs) = set (alive R S) - {a, m}" unfolding s(1) u using dist by auto
  have "x \<in> {a, m} \<longleftrightarrow> rid R x = rid R a" if "x < length R" for x
    using ok_unique [OF ok that al] ok_unique [OF ok that, of m] m a al by auto
  then have "set (xs @ us @ vs) = set (alive R (insert (rid R a) S))" unfolding set1 alive_set by blast
  moreover have "sorted_wrt (>) (xs @ us @ vs)" using srt by (auto simp: sorted_wrt_append)
  ultimately have l: "xs @ us @ vs = alive R (insert (rid R a) S)" using alive_sorted sorted_gt_unique by blast
  have "length R \<notin> set (alive R S)" by simp
  then have d: "dseg h None ((length R # xs) @ a # us @ m # vs) None" "distinct ((length R # xs) @ a # us @ m # vs)"
    using h s(1) u dist by (auto simp: heap_ok_def)
  have nm: "nd_match (h ! a) = Some m" using heap_okD [OF h al] m by simp
  note r = lift_unlink [OF d _ nm, simplified]
  have "heap_ok R (insert (rid R a) S) (unlink m (unlink a h))"
    using r(2,3) h unfolding heap_ok_def l [symmetric] by (simp add: heap_data_def same_data_def)
  then show ?thesis using r by blast
qed

end
