(* ===== verification/Porcu_Search.thy ===== *)
theory Porcu_Search
  imports Porcu_Spec
begin

text \<open>
  The invariant of the search.  The calls on the stack are a partial linearization whose heaps can be restored one by
  one; every configuration in the cache, a set of operations and a state, is on the stack or cannot be completed to a linearization;
  and at every level of the stack the calls that the scan has passed lead to configurations in the cache.
\<close>

section \<open>The cache\<close>

definition cached :: "'s cache \<Rightarrow> (nat set \<times> 's) set" where
  "cached cache = {(members b, t) | b t hash. (b, t) \<in> set (cache hash)}"

definition cache_ok :: "nat \<Rightarrow> 's cache \<Rightarrow> bool" where
  "cache_ok n cache \<longleftrightarrow> (\<forall>hash b t. (b, t) \<in> set (cache hash) \<longrightarrow> hash = bitset_hash b \<and> bitset_ok n b)"

lemma bitset_eqI: "bitset_ok n b \<Longrightarrow> bitset_ok n b' \<Longrightarrow> members b = members b' \<Longrightarrow> b = b'"
  using words.equals_law [of n b b'] by (auto simp: bitset_equals_def intro: nth_equalityI split: if_splits)

lemma cacheContains_iff:
  assumes "cache_ok n cache" "bitset_ok n b"
  shows "cacheContains ShallowEqual cache (b, t) \<longleftrightarrow> (members b, t) \<in> cached cache"
proof -
  have "bitset_equals b b' \<longleftrightarrow> members b = members b'" if "(b', t) \<in> set (cache (bitset_hash b))" for b'
    using assms that words.equals_law unfolding cache_ok_def by blast
  then have "cacheContains ShallowEqual cache (b, t) \<longleftrightarrow> (\<exists>b'. (b', t) \<in> set (cache (bitset_hash b)) \<and> members b = members b')"
    unfolding cacheContains_def list_ex_iff ShallowEqual_def by (auto simp: Bex_def)
  also have "\<dots> \<longleftrightarrow> (\<exists>b' hash. (b', t) \<in> set (cache hash) \<and> members b = members b')"
    using assms bitset_eqI [of n b] unfolding cache_ok_def by blast
  finally show ?thesis by (auto simp: cached_def)
qed

lemma cached_insert:
  assumes "cache_ok n cache" "bitset_ok n b" "cache' = cache(bitset_hash b := cache (bitset_hash b) @ [(b, t)])"
  shows "cache_ok n cache'" "cached cache' = insert (members b, t) (cached cache)"
proof -
  have e: "(b', t') \<in> set (cache' hash) \<longleftrightarrow> (b', t') \<in> set (cache hash) \<or> (hash = bitset_hash b \<and> b' = b \<and> t' = t)" for b' t' hash
    by (auto simp: assms(3))
  show "cache_ok n cache'" using assms(1,2) unfolding cache_ok_def e by blast
  show "cached cache' = insert (members b, t) (cached cache)" unfolding cached_def e by blast
qed

section \<open>Configurations that can be reached\<close>

definition reach_cfg :: "('i, 'o) entry list \<Rightarrow> ('s \<Rightarrow> 'i \<Rightarrow> 'o \<Rightarrow> bool \<times> 's) \<Rightarrow> 's \<Rightarrow> (nat set \<times> 's) set" where
  "reach_cfg E step init = {(set ls, st) | ls st. distinct ls \<and> set ls \<subseteq> {..<length E div 2} \<and> runOps E step init ls = Some st}"

lemma finite_reach: "finite (reach_cfg E step init)"
proof -
  have "reach_cfg E step init \<subseteq> (\<lambda>ls. (set ls, the (runOps E step init ls))) ` {ls. distinct ls \<and> set ls \<subseteq> {..<length E div 2}}"
    by (force simp: reach_cfg_def)
  moreover have "finite {ls. distinct ls \<and> set ls \<subseteq> {..<length E div 2}}"
    using finite_subset_distinct [of "{..<length E div 2}"] by (simp add: conj_commute)
  ultimately show ?thesis by (meson finite_imageI finite_subset)
qed

section \<open>The stack\<close>

definition ids :: "('i, 'o) entry list \<Rightarrow> (nat \<times> 's) list \<Rightarrow> nat list" where
  "ids R calls = map (\<lambda>(a, _). rid R a) calls"

text \<open>The calls before \<open>c\<close> in the list have been tried.\<close>

definition scanned :: "('i, 'o) entry list \<Rightarrow> ('s \<Rightarrow> 'i \<Rightarrow> 'o \<Rightarrow> bool \<times> 's) \<Rightarrow> (nat set \<times> 's) set \<Rightarrow> nat set \<Rightarrow> 's \<Rightarrow> nat \<Rightarrow> bool" where
  "scanned R step C S st c \<longleftrightarrow> (\<forall>x. x < length R \<longrightarrow> rid R x \<notin> S \<longrightarrow> c < x \<longrightarrow>
     \<not> en_kind (R ! x) \<and> (\<forall>st'. stepOp (rev R) step st (rid R x) = Some st' \<longrightarrow> (insert (rid R x) S, st') \<in> C))"

inductive trail :: "('i, 'o) entry list \<Rightarrow> ('s \<Rightarrow> 'i \<Rightarrow> 'o \<Rightarrow> bool \<times> 's) \<Rightarrow> ('i, 'o) heap \<Rightarrow> 's \<Rightarrow> (nat set \<times> 's) set \<Rightarrow>
    ('i, 'o) heap \<Rightarrow> (nat \<times> 's) list \<Rightarrow> 's \<Rightarrow> (nat set \<times> 's) set \<Rightarrow> bool"
  for R step h0 init C where
  start: "trail R step h0 init C h0 [] init {}"
| push: "trail R step h0 init C h calls st Os \<Longrightarrow> a < length R \<Longrightarrow> rid R a \<notin> set (ids R calls) \<Longrightarrow> \<not> en_kind (R ! a) \<Longrightarrow>
    scanned R step C (set (ids R calls)) st a \<Longrightarrow> stepOp (rev R) step st (rid R a) = Some st' \<Longrightarrow>
    unlift a h' = Some h \<Longrightarrow> heap_ok R (set (ids R (calls @ [(a, st)]))) h' \<Longrightarrow> (set (ids R (calls @ [(a, st)])), st') \<in> C \<Longrightarrow>
    trail R step h0 init C h' (calls @ [(a, st)]) st' (insert (set (ids R (calls @ [(a, st)])), st') Os)"

inductive_cases trail_pop: "trail R step h0 init C h (calls @ [(a, st0)]) st Os"
inductive_cases trail_empty: "trail R step h0 init C h [] st Os"

lemma ids_snoc [simp]: "ids R (calls @ [(a, st)]) = ids R calls @ [rid R a]" "ids R [] = []" "length (ids R calls) = length calls"
  by (simp_all add: ids_def)

lemma scanned_mono: "scanned R step C S st c \<Longrightarrow> C \<subseteq> C' \<Longrightarrow> scanned R step C' S st c"
  unfolding scanned_def by blast

lemma trail_mono: "trail R step h0 init C h calls st Os \<Longrightarrow> C \<subseteq> C' \<Longrightarrow> trail R step h0 init C' h calls st Os"
proof (induction rule: trail.induct)
  case (push h calls st Os a st' h')
  have "scanned R step C' (set (ids R calls)) st a" using push.hyps(5) push.prems by (rule scanned_mono)
  then show ?case using push by (intro trail.push) auto
qed (rule trail.start)

text \<open>A call that the scan reaches may come next.\<close>

lemma scanned_available:
  assumes "history_ok (rev R)" "scanned R step C S st a" "a < length R" "\<not> en_kind (R ! a)" "j \<notin> S"
  shows "\<not> precedes (rev R) j (rid R a)"
proof
  assume "precedes (rev R) j (rid R a)"
  then obtain y x where p: "y < x" "x < length R" "en_kind (R ! x)" "rid R x = j" "\<not> en_kind (R ! y)" "rid R y = rid R a"
    unfolding precedes_rev [OF assms(1)] by blast
  have "y = a" using ok_unique [OF assms(1), of y a] p assms by simp
  then show False using assms(2,5) p unfolding scanned_def by blast
qed

definition trail_ok :: "('i, 'o) entry list \<Rightarrow> ('s \<Rightarrow> 'i \<Rightarrow> 'o \<Rightarrow> bool \<times> 's) \<Rightarrow> 's \<Rightarrow> (nat \<times> 's) list \<Rightarrow> 's \<Rightarrow> bool" where
  "trail_ok R step init calls st \<longleftrightarrow> distinct (ids R calls) \<and> (\<forall>(a, _)\<in>set calls. a < length R) \<and>
     runOps (rev R) step init (ids R calls) = Some st \<and> sorted_wrt (\<lambda>i j. \<not> precedes (rev R) j i) (ids R calls) \<and>
     (\<forall>i\<in>set (ids R calls). \<forall>j. j \<notin> set (ids R calls) \<longrightarrow> \<not> precedes (rev R) j i)"

lemma trail_facts:
  assumes "trail R step h0 init C h calls st Os" "history_ok (rev R)" "heap_ok R {} h0"
  shows "heap_ok R (set (ids R calls)) h \<and> trail_ok R step init calls st"
  using assms
proof (induction rule: trail.induct)
  case start
  then show ?case by (simp add: trail_ok_def)
next
  case (push h calls st Os a st' h')
  have IH: "trail_ok R step init calls st" using push by blast
  have av: "\<not> precedes (rev R) j (rid R a)" if "j \<notin> set (ids R calls)" for j
    using scanned_available [OF push.prems(1) push.hyps(5,2,4) that] .
  have "runOps (rev R) step init (ids R calls @ [rid R a]) = Some st'"
    using IH push.hyps(6) by (simp add: runOps_append trail_ok_def)
  moreover have "sorted_wrt (\<lambda>i j. \<not> precedes (rev R) j i) (ids R calls @ [rid R a])"
    using IH push.hyps(3) by (auto simp: trail_ok_def sorted_wrt_append)
  ultimately have "trail_ok R step init (calls @ [(a, st)]) st'"
    using IH push.hyps(2,3) av unfolding trail_ok_def by auto
  then show ?case using push.hyps(8) by blast
qed

lemma trail_sizes:
  assumes "trail R step h0 init C h calls st Os" "(S, t) \<in> Os"
  shows "card S \<le> length calls"
  using assms
proof (induction rule: trail.induct)
  case (push h calls st Os a st' h')
  then show ?case using card_length [of "ids R (calls @ [(a, st)])"] by auto
qed simp

lemma ids_range: "history_ok (rev R) \<Longrightarrow> \<forall>(a, _)\<in>set calls. a < length R \<Longrightarrow> set (ids R calls) \<subseteq> {..<length R div 2}"
  using ok_rid by (fastforce simp: ids_def)

section \<open>The invariant\<close>

definition cursor_ok :: "('i, 'o) entry list \<Rightarrow> ('s \<Rightarrow> 'i \<Rightarrow> 'o \<Rightarrow> bool \<times> 's) \<Rightarrow> (nat set \<times> 's) set \<Rightarrow> nat set \<Rightarrow> 's \<Rightarrow> nat option \<Rightarrow> bool" where
  "cursor_ok R step C S st p \<longleftrightarrow> (alive R S \<noteq> [] \<longrightarrow> (\<exists>c\<in>set (alive R S). p = Some c \<and> scanned R step C S st c))"

definition sinv :: "('i, 'o) entry list \<Rightarrow> ('s \<Rightarrow> 'i \<Rightarrow> 'o \<Rightarrow> bool \<times> 's) \<Rightarrow> ('i, 'o) heap \<Rightarrow> 's \<Rightarrow> ('i, 'o, 's) search \<Rightarrow> bool" where
  "sinv R step h0 init s \<longleftrightarrow>
     (\<exists>Os. trail R step h0 init (cached (se_cache s)) (se_heap s) (se_calls s) (se_state s) Os \<and>
        (\<forall>c\<in>cached (se_cache s). dead_end (rev R) step c \<or> c \<in> Os)) \<and>
     cached (se_cache s) \<subseteq> reach_cfg (rev R) step init \<and> cache_ok (length R div 2) (se_cache s) \<and>
     bitset_ok (length R div 2) (se_linearized s) \<and> members (se_linearized s) = set (ids R (se_calls s)) \<and>
     length (se_longest s) = length R div 2 \<and>
     cursor_ok R step (cached (se_cache s)) (set (ids R (se_calls s))) (se_state s) (se_entry s)"

lemma uint_of_rid: "history_ok (rev R) \<Longrightarrow> a < length R \<Longrightarrow> uint_of (en_id (R ! a)) = rid R a"
  using ok_rid [of R a] by (auto simp: uint_of_def history_ok_def)

lemma longestLoop_total:
  assumes "history_ok (rev R)" "heap_ok R S h" "\<forall>(a, _)\<in>set calls. a < length R" "length longest = length R div 2"
  shows "\<exists>longest' seqs'. longestLoop h calls0 calls sq (longest, seqs) = Some (longest', seqs') \<and> length longest' = length R div 2"
  using assms(3,4)
proof (induction calls arbitrary: sq longest seqs)
  case (Cons v calls)
  obtain a st where v: "v = (a, st)" by (cases v)
  have "nd_id (h ! a) = int (rid R a)" "rid R a < length R div 2"
    using Cons.prems(1) v ok_rid [OF assms(1)] heap_okD(2) [OF assms(2)] by auto
  then show ?case using Cons v by (auto simp: Let_def split: option.splits prod.splits)
qed simp

text \<open>The scan can only go on from a call: its return is still in the list.\<close>

lemma next_of_call:
  assumes "history_ok (rev R)" "heap_ok R S h" "a < length R" "rid R a \<notin> S" "\<not> en_kind (R ! a)"
  shows "\<exists>d. nd_next (h ! a) = Some d \<and> d \<in> set (alive R S) \<and> d < a \<and> (\<forall>x\<in>set (alive R S). d < x \<longrightarrow> a \<le> x)"
proof -
  obtain m where "m < a" "rid R m = rid R a" using match_of_ok(2) [OF assms(1,3,5)] by blast
  then show ?thesis using heap_ok_next [OF assms(2), of a m] assms by auto
qed

lemma scanned_next:
  assumes "scanned R step C S st a" "\<not> en_kind (R ! a)"
    "\<And>st'. stepOp (rev R) step st (rid R a) = Some st' \<Longrightarrow> (insert (rid R a) S, st') \<in> C"
    "\<forall>x\<in>set (alive R S). d < x \<longrightarrow> a \<le> x"
  shows "scanned R step C S st d"
  using assms unfolding scanned_def by (metis alive_iff le_neq_implies_less)

lemma scanned_first:
  assumes "nxt (alive R S) None = Some c"
  shows "scanned R step C S st c"
proof -
  obtain xs where "alive R S = c # xs" using assms by (cases "alive R S") auto
  then have "x \<le> c" if "x \<in> set (alive R S)" for x using alive_sorted [of R S] that by auto
  then show ?thesis by (fastforce simp: scanned_def)
qed

lemma cursor_first:
  assumes "heap_ok R S h"
  shows "cursor_ok R step C S st (nd_next (h ! length R))"
proof (cases "alive R S")
  case (Cons c cs)
  have n: "nd_next (h ! length R) = nxt (alive R S) None" by (rule heap_ok_head [OF assms])
  have "scanned R step C S st c" by (rule scanned_first) (simp add: Cons)
  then show ?thesis unfolding cursor_ok_def n Cons by simp
qed (simp add: cursor_ok_def)

text \<open>At a return node all choices have been tried.\<close>

lemma dead_at_return:
  assumes ok: "history_ok (rev R)" and c: "c < length R" "rid R c \<notin> S" "en_kind (R ! c)" "scanned R step C S st c"
    and d: "\<And>i st'. i < length R div 2 \<Longrightarrow> i \<notin> S \<Longrightarrow> (insert i S, st') \<in> C \<Longrightarrow> dead_end (rev R) step (insert i S, st')"
  shows "dead_end (rev R) step (S, st)"
  unfolding dead_end_def
proof
  assume "\<exists>ls. completes (rev R) step (fst (S, st)) (snd (S, st)) ls"
  then obtain ls where l: "completes (rev R) step S st ls" by auto
  have rc: "rid R c < length R div 2" using ok_rid [OF ok c(1)] by simp
  show False
  proof (cases ls)
    case Nil
    then show False using l rc c(2) by (auto simp: completes_def)
  next
    case (Cons i ls')
    note k = completes_Cons [OF l [unfolded Cons]]
    obtain a where a: "a < length R" "rid R a = i" "\<not> en_kind (R ! a)" using ok_position [OF ok, of i False] k(1) by auto
    obtain st' where st': "stepOp (rev R) step st i = Some st'" "completes (rev R) step (insert i S) st' ls'" using k(4) by blast
    show False
    proof (cases "c < a")
      case True
      then have "(insert i S, st') \<in> C" using c(4) a k(2) st'(1) unfolding scanned_def by blast
      then show False using d [of i st'] k(1,2) st'(2) by (auto simp: dead_end_def)
    next
      case False
      then have "a < c" using a(3) c(3) by (metis linorder_neqE_nat)
      then have "precedes (rev R) (rid R c) i" unfolding precedes_rev [OF ok] using a c by blast
      moreover have "rid R c \<noteq> i" using ok_call_first [OF ok a(1) c(1)] a c \<open>a < c\<close> by auto
      ultimately show False using k(3) [of "rid R c"] rc c(2) by auto
    qed
  qed
qed

lemma sinvD:
  assumes "sinv R step h0 init s" "history_ok (rev R)" "heap_ok R {} h0"
  shows "heap_ok R (set (ids R (se_calls s))) (se_heap s)" "trail_ok R step init (se_calls s) (se_state s)"
    "set (ids R (se_calls s)) \<subseteq> {..<length R div 2}"
proof -
  obtain Os where t: "trail R step h0 init (cached (se_cache s)) (se_heap s) (se_calls s) (se_state s) Os"
    using assms(1) unfolding sinv_def by blast
  show "heap_ok R (set (ids R (se_calls s))) (se_heap s)" "trail_ok R step init (se_calls s) (se_state s)"
    using trail_facts [OF t assms(2,3)] by auto
  then show "set (ids R (se_calls s)) \<subseteq> {..<length R div 2}"
    unfolding trail_ok_def by (intro ids_range [OF assms(2)]) blast
qed

section \<open>One turn\<close>

text \<open>The scan moves on.\<close>

lemma sinv_advance:
  assumes s: "sinv R step h0 init s" and ok: "history_ok (rev R)" "heap_ok R {} h0"
    and c: "se_entry s = Some c" "c < length R" "rid R c \<notin> set (ids R (se_calls s))" "\<not> en_kind (R ! c)"
      "scanned R step (cached (se_cache s)) (set (ids R (se_calls s))) (se_state s) c"
    and t: "\<And>st'. stepOp (rev R) step (se_state s) (rid R c) = Some st' \<Longrightarrow>
      (insert (rid R c) (set (ids R (se_calls s))), st') \<in> cached (se_cache s)"
  shows "\<exists>d. nd_next (se_heap s ! c) = Some d \<and> d < c \<and> sinv R step h0 init (s\<lparr>se_entry := Some d\<rparr>)"
proof -
  obtain d where d: "nd_next (se_heap s ! c) = Some d" "d \<in> set (alive R (set (ids R (se_calls s))))" "d < c"
      "\<forall>x\<in>set (alive R (set (ids R (se_calls s)))). d < x \<longrightarrow> c \<le> x"
    using next_of_call [OF ok(1) sinvD(1) [OF s ok] c(2-4)] by blast
  have "scanned R step (cached (se_cache s)) (set (ids R (se_calls s))) (se_state s) d"
    using scanned_next [OF c(5,4) t d(4)] .
  then have "sinv R step h0 init (s\<lparr>se_entry := Some d\<rparr>)" using s d(2) by (auto simp: sinv_def cursor_ok_def)
  then show ?thesis using d by blast
qed

text \<open>A call is linearized.\<close>

lemma sinv_push:
  assumes s: "sinv R step h0 init s" and ok: "history_ok (rev R)" "heap_ok R {} h0"
    and c: "c < length R" "rid R c \<notin> set (ids R (se_calls s))" "\<not> en_kind (R ! c)"
      "scanned R step (cached (se_cache s)) (set (ids R (se_calls s))) (se_state s) c"
    and t: "stepOp (rev R) step (se_state s) (rid R c) = Some st'"
    and b: "bitset_ok (length R div 2) b" "members b = insert (rid R c) (set (ids R (se_calls s)))"
    and h: "unlift c h' = Some (se_heap s)" "heap_ok R (insert (rid R c) (set (ids R (se_calls s)))) h'"
  defines "s1 \<equiv> s\<lparr>se_cache := (se_cache s)(bitset_hash b := se_cache s (bitset_hash b) @ [(b, st')]),
      se_calls := se_calls s @ [(c, se_state s)], se_state := st', se_linearized := b, se_heap := h', se_entry := nd_next (h' ! length R)\<rparr>"
  shows "sinv R step h0 init s1" "cached (se_cache s1) = insert (members b, st') (cached (se_cache s))"
    "(members b, st') \<in> reach_cfg (rev R) step init"
proof -
  let ?S = "set (ids R (se_calls s))" and ?S1 = "set (ids R (se_calls s @ [(c, se_state s)]))"
  have S1: "members b = ?S1" using b(2) by simp
  note tr = sinvD(2) [OF s ok]
  have "runOps (rev R) step init (ids R (se_calls s @ [(c, se_state s)])) = Some st'" "distinct (ids R (se_calls s @ [(c, se_state s)]))"
    using tr t c(2) by (simp_all add: runOps_append trail_ok_def)
  moreover have "?S1 \<subseteq> {..<length R div 2}" using sinvD(3) [OF s ok] ok_rid [OF ok(1) c(1)] by simp
  ultimately show r: "(members b, st') \<in> reach_cfg (rev R) step init"
    unfolding S1 reach_cfg_def by fastforce
  have co: "cache_ok (length R div 2) (se_cache s)" using s by (simp add: sinv_def)
  show ins: "cached (se_cache s1) = insert (members b, st') (cached (se_cache s))"
    using cached_insert(2) [OF co b(1)] by (simp add: s1_def)
  obtain Os where Os: "trail R step h0 init (cached (se_cache s)) (se_heap s) (se_calls s) (se_state s) Os"
      "\<forall>c\<in>cached (se_cache s). dead_end (rev R) step c \<or> c \<in> Os"
    using s unfolding sinv_def by blast
  have t1: "trail R step h0 init (cached (se_cache s1)) (se_heap s) (se_calls s) (se_state s) Os"
    by (rule trail_mono [OF Os(1)]) (use ins in auto)
  have "trail R step h0 init (cached (se_cache s1)) h' (se_calls s @ [(c, se_state s)]) st' (insert (?S1, st') Os)"
    by (rule trail.push [OF t1 c(1-3) scanned_mono [OF c(4)] t h(1)]) (use ins h(2) S1 in auto)
  moreover have "\<forall>c\<in>cached (se_cache s1). dead_end (rev R) step c \<or> c \<in> insert (?S1, st') Os"
    unfolding ins using Os(2) S1 by auto
  moreover have "cursor_ok R step (cached (se_cache s1)) ?S1 st' (nd_next (h' ! length R))"
    using cursor_first h(2) by simp
  moreover have "cache_ok (length R div 2) (se_cache s1)" using cached_insert(1) [OF co b(1)] by (simp add: s1_def)
  moreover have "cached (se_cache s1) \<subseteq> reach_cfg (rev R) step init" unfolding ins using r s by (auto simp: sinv_def)
  ultimately show "sinv R step h0 init s1" using s b S1 unfolding sinv_def s1_def by (auto simp del: ids_snoc)
qed

text \<open>The last call is taken back.\<close>

lemma sinv_pop:
  assumes s: "sinv R step h0 init s" and ok: "history_ok (rev R)" "heap_ok R {} h0"
    and c: "c < length R" "rid R c \<notin> set (ids R (se_calls s))" "en_kind (R ! c)"
      "scanned R step (cached (se_cache s)) (set (ids R (se_calls s))) (se_state s) c"
    and calls: "se_calls s = calls @ [(a, st)]"
    and b: "bitset_ok (length R div 2) b" "members b = set (ids R (se_calls s)) - {rid R a}" "length l = length R div 2"
  shows "\<exists>h'. unlift a (se_heap s) = Some h' \<and>
    sinv R step h0 init (s\<lparr>se_longest := l, se_seqs := q, se_state := st, se_linearized := b, se_calls := calls,
      se_heap := h', se_entry := nd_next (h' ! a)\<rparr>)"
proof -
  let ?C = "cached (se_cache s)" and ?S = "set (ids R calls)"
  obtain Os where "trail R step h0 init ?C (se_heap s) (se_calls s) (se_state s) Os" and Os: "\<forall>c\<in>?C. dead_end (rev R) step c \<or> c \<in> Os"
    using s unfolding sinv_def by blast
  then have tr: "trail R step h0 init ?C (se_heap s) (calls @ [(a, st)]) (se_state s) Os" by (simp add: calls)
  from tr obtain h' Os' where h': "trail R step h0 init ?C h' calls st Os'" "a < length R" "rid R a \<notin> ?S" "\<not> en_kind (R ! a)"
      "scanned R step ?C ?S st a" "stepOp (rev R) step st (rid R a) = Some (se_state s)" "unlift a (se_heap s) = Some h'"
      "(set (ids R (se_calls s)), se_state s) \<in> ?C" "Os = insert (set (ids R (se_calls s)), se_state s) Os'"
    by (rule trail_pop) (use calls in auto)
  have "dead_end (rev R) step (set (ids R (se_calls s)), se_state s)"
  proof (rule dead_at_return [OF ok(1) c])
    fix i st' assume i: "i \<notin> set (ids R (se_calls s))" "(insert i (set (ids R (se_calls s))), st') \<in> ?C"
    have "distinct (ids R (se_calls s))" using sinvD(2) [OF s ok] by (simp add: trail_ok_def)
    then have "card (insert i (set (ids R (se_calls s)))) = Suc (length (calls @ [(a, st)]))"
      using i(1) calls distinct_card by fastforce
    then show "dead_end (rev R) step (insert i (set (ids R (se_calls s))), st')" using trail_sizes [OF tr] Os i(2) by fastforce
  qed
  then have dead: "\<forall>c\<in>?C. dead_end (rev R) step c \<or> c \<in> Os'" using Os h'(9) by auto
  have hk: "heap_ok R ?S h'" using trail_facts [OF h'(1) ok] by blast
  obtain d where d: "nd_next (h' ! a) = Some d" "d \<in> set (alive R ?S)" "\<forall>x\<in>set (alive R ?S). d < x \<longrightarrow> a \<le> x"
    using next_of_call [OF ok(1) hk h'(2-4)] by blast
  have "scanned R step ?C ?S st d"
    by (rule scanned_next [OF h'(5,4) _ d(3)]) (use h'(6,8) calls in auto)
  then have "cursor_ok R step ?C ?S st (nd_next (h' ! a))" using d unfolding cursor_ok_def by blast
  moreover have "members b = ?S" using b(2) calls h'(3) by auto
  ultimately show ?thesis using s h'(1,7) dead b(1,3) unfolding sinv_def by auto
qed

text \<open>Every turn adds to the cache, or shortens the stack, or moves the scan on.\<close>

definition turn_rel :: "('i, 'o) entry list \<Rightarrow> ('s \<Rightarrow> 'i \<Rightarrow> 'o \<Rightarrow> bool \<times> 's) \<Rightarrow> 's \<Rightarrow> (('i, 'o, 's) search \<times> ('i, 'o, 's) search) set" where
  "turn_rel R step init = measures [\<lambda>s. card (reach_cfg (rev R) step init - cached (se_cache s)), \<lambda>s. length (se_calls s),
     \<lambda>s. case se_entry s of None \<Rightarrow> 0 | Some c \<Rightarrow> c]"

lemma turn_rel_push:
  assumes "cached (se_cache s1) = insert c (cached (se_cache s))" "c \<in> reach_cfg (rev R) step init" "c \<notin> cached (se_cache s)"
  shows "(s1, s) \<in> turn_rel R step init"
proof -
  let ?U = "reach_cfg (rev R) step init"
  have "?U - cached (se_cache s1) \<subset> ?U - cached (se_cache s)" using assms by auto
  then have "card (?U - cached (se_cache s1)) < card (?U - cached (se_cache s))"
    by (intro psubset_card_mono finite_Diff finite_reach)
  then show ?thesis by (simp add: turn_rel_def)
qed

definition turn_ok :: "('i, 'o) entry list \<Rightarrow> ('s \<Rightarrow> 'i \<Rightarrow> 'o \<Rightarrow> bool \<times> 's) \<Rightarrow> ('i, 'o) heap \<Rightarrow> 's \<Rightarrow> ('i, 'o, 's) search \<Rightarrow>
    ('i, 'o, 's) search option option \<Rightarrow> bool" where
  "turn_ok R step h0 init s r \<longleftrightarrow> (r = Some None \<and> dead_end (rev R) step ({}, init)) \<or>
     (\<exists>s1. r = Some (Some s1) \<and> sinv R step h0 init s1 \<and> (s1, s) \<in> turn_rel R step init)"

lemma turn_at_call:
  assumes s: "sinv R step h0 init s" and ok: "history_ok (rev R)" "heap_ok R {} h0"
    and c: "se_entry s = Some c" "c < length R" "rid R c \<notin> set (ids R (se_calls s))"
      "scanned R step (cached (se_cache s)) (set (ids R (se_calls s))) (se_state s) c"
    and k: "\<not> en_kind (R ! c)"
  shows "turn_ok R step h0 init s (checkIter step ShallowEqual cp (length R) s)"
proof -
  let ?S = "set (ids R (se_calls s))" and ?n = "length R div 2"
  note h = sinvD(1) [OF s ok]
  obtain m where m: "match_of R c = Some m" "m < c" "rid R m = rid R c" "en_kind (R ! m)" using match_of_ok(2) [OF ok(1) c(2) k] by blast
  have ml: "m < length R" using m c by simp
  obtain inp out where v: "en_value (R ! c) = VIn inp" "en_value (R ! m) = VOut out"
      "stepOp (rev R) step (se_state s) (rid R c) = (let (ok, st') = step (se_state s) inp out in if ok then Some st' else None)"
    using stepOp_position [OF ok(1) c(2) ml m(3) [symmetric] k m(4), of step "se_state s"] by blast
  obtain acc st' where st: "step (se_state s) inp out = (acc, st')" by (cases "step (se_state s) inp out")
  have so: "stepOp (rev R) step (se_state s) (rid R c) = (if acc then Some st' else None)" using v(3) st by simp
  have bs: "bitset_ok ?n (se_linearized s)" "members (se_linearized s) = ?S" "cache_ok ?n (se_cache s)" using s by (simp_all add: sinv_def)
  obtain b where b: "bitset_set (rid R c) (se_linearized s) = Some b" "bitset_ok ?n b" "members b = insert (rid R c) ?S"
    using words.set_law [OF bs(1), of "rid R c"] ok_rid [OF ok(1) c(2)] bs(2) by auto
  obtain h' where h': "lift c (se_heap s) = Some h'" "unlift c h' = Some (se_heap s)" "heap_ok R (insert (rid R c) ?S) h'"
    using heap_ok_lift [OF ok(1) h, of c] c k by auto
  note nd = heap_okD [OF h c(2)] heap_okD(1) [OF h ml]
  have cc: "cacheContains ShallowEqual (se_cache s) (b, st') \<longleftrightarrow> (insert (rid R c) ?S, st') \<in> cached (se_cache s)"
    using cacheContains_iff [OF bs(3) b(2)] b(3) by simp
  have iter: "checkIter step ShallowEqual cp (length R) s = Some (Some
      (if acc \<and> (insert (rid R c) ?S, st') \<notin> cached (se_cache s) then
         s\<lparr>se_cache := (se_cache s)(bitset_hash b := se_cache s (bitset_hash b) @ [(b, st')]),
           se_calls := se_calls s @ [(c, se_state s)], se_state := st', se_linearized := b, se_heap := h', se_entry := nd_next (h' ! length R)\<rparr>
       else s\<lparr>se_entry := nd_next (se_heap s ! c)\<rparr>))"
    using c(1) nd m(1) v(1,2) st b(1) h'(1) uint_of_rid [OF ok(1) c(2)] cc by (simp add: checkIter_def Let_def)
  show ?thesis
  proof (cases "acc \<and> (insert (rid R c) ?S, st') \<notin> cached (se_cache s)")
    case True
    have "stepOp (rev R) step (se_state s) (rid R c) = Some st'" using so True by simp
    note p = sinv_push [OF s ok c(2,3) k c(4) this b(2,3) h'(2,3)]
    show ?thesis unfolding turn_ok_def iter if_P [OF True] using True p(1) turn_rel_push [OF p(2,3)] b(3) by simp
  next
    case False
    obtain d where d: "nd_next (se_heap s ! c) = Some d" "d < c" "sinv R step h0 init (s\<lparr>se_entry := Some d\<rparr>)"
      using sinv_advance [OF s ok c(1-3) k c(4)] so False by (auto split: if_splits)
    have "(s\<lparr>se_entry := Some d\<rparr>, s) \<in> turn_rel R step init" using d(2) c(1) by (simp add: turn_rel_def)
    then show ?thesis unfolding turn_ok_def iter if_not_P [OF False] using d by simp
  qed
qed

lemma turn_at_return:
  assumes s: "sinv R step h0 init s" and ok: "history_ok (rev R)" "heap_ok R {} h0"
    and c: "se_entry s = Some c" "c < length R" "rid R c \<notin> set (ids R (se_calls s))"
      "scanned R step (cached (se_cache s)) (set (ids R (se_calls s))) (se_state s) c"
    and k: "en_kind (R ! c)"
  shows "turn_ok R step h0 init s (checkIter step ShallowEqual cp (length R) s)"
proof -
  note h = sinvD(1) [OF s ok] and tr = sinvD(2) [OF s ok]
  have nm: "nd_match (se_heap s ! c) = None" using heap_okD(3) [OF h c(2)] match_of_ok(1) [OF ok(1) c(2) k] by simp
  show ?thesis
  proof (cases "se_calls s = []")
    case True
    obtain Os where "trail R step h0 init (cached (se_cache s)) (se_heap s) [] (se_state s) Os"
        and Os: "\<forall>c\<in>cached (se_cache s). dead_end (rev R) step c \<or> c \<in> Os"
      using s True unfolding sinv_def by auto
    then have e: "se_state s = init" "Os = {}" by (auto elim: trail_empty)
    have "dead_end (rev R) step ({}, init)"
      by (rule dead_at_return [OF ok(1) c(2) _ k, of _ _ "cached (se_cache s)"]) (use c True e Os in auto)
    then show ?thesis using True c(1) nm by (simp add: turn_ok_def checkIter_def Let_def)
  next
    case False
    then obtain calls a st where calls: "se_calls s = calls @ [(a, st)]" by (metis append_butlast_last_id surj_pair)
    have al: "a < length R" using tr calls by (auto simp: trail_ok_def)
    have bs: "bitset_ok (length R div 2) (se_linearized s)" "members (se_linearized s) = set (ids R (se_calls s))"
        "length (se_longest s) = length R div 2" using s by (simp_all add: sinv_def)
    obtain b where b: "bitset_clear (rid R a) (se_linearized s) = Some b" "bitset_ok (length R div 2) b"
        "members b = set (ids R (se_calls s)) - {rid R a}"
      using words.clear_law [OF bs(1), of "rid R a"] ok_rid [OF ok(1) al] bs(2) by auto
    obtain l q where l: "(if cp then longestLoop (se_heap s) (se_calls s) (se_calls s) None (se_longest s, se_seqs s)
        else Some (se_longest s, se_seqs s)) = Some (l, q)" "length l = length R div 2"
      using longestLoop_total [OF ok(1) h, of "se_calls s" "se_longest s" "se_calls s" None "se_seqs s"] tr bs(3)
      unfolding trail_ok_def by (cases cp) auto
    obtain h' where h': "unlift a (se_heap s) = Some h'" "sinv R step h0 init (s\<lparr>se_longest := l, se_seqs := q, se_state := st,
        se_linearized := b, se_calls := calls, se_heap := h', se_entry := nd_next (h' ! a)\<rparr>)"
      using sinv_pop [OF s ok c(2,3) k c(4) calls b(2,3) l(2), of q] by blast
    have "checkIter step ShallowEqual cp (length R) s = Some (Some (s\<lparr>se_longest := l, se_seqs := q, se_state := st,
        se_linearized := b, se_calls := calls, se_heap := h', se_entry := nd_next (h' ! a)\<rparr>))"
      using c(1) nm calls l(1) b(1) h'(1) heap_okD(2) [OF h al] uint_of_rid [OF ok(1) al] by (simp add: checkIter_def Let_def)
    then show ?thesis using h'(2) calls by (simp add: turn_ok_def turn_rel_def)
  qed
qed

lemma checkIter_turn:
  assumes s: "sinv R step h0 init s" and ok: "history_ok (rev R)" "heap_ok R {} h0"
    and n: "nd_next (se_heap s ! length R) \<noteq> None"
  shows "turn_ok R step h0 init s (checkIter step ShallowEqual cp (length R) s)"
proof -
  have "alive R (set (ids R (se_calls s))) \<noteq> []" using n heap_ok_head [OF sinvD(1) [OF s ok]] by auto
  then obtain c where "c \<in> set (alive R (set (ids R (se_calls s))))" "se_entry s = Some c"
      "scanned R step (cached (se_cache s)) (set (ids R (se_calls s))) (se_state s) c"
    using s unfolding sinv_def cursor_ok_def by blast
  then show ?thesis using turn_at_call [OF s ok] turn_at_return [OF s ok] by (cases "en_kind (R ! c)") auto
qed

section \<open>The whole search\<close>

text \<open>What the result of a search must be; \<open>killed\<close> says whether a reading of \<^verbatim>\<open>kill\<close> has ended it.\<close>

definition result_ok :: "('i, 'o) entry list \<Rightarrow> ('s \<Rightarrow> 'i \<Rightarrow> 'o \<Rightarrow> bool \<times> 's) \<Rightarrow> 's \<Rightarrow> bool \<Rightarrow> bool \<times> ('i, 'o, 's) search \<Rightarrow> bool" where
  "result_ok R step init killed r \<longleftrightarrow> (case r of (b, s) \<Rightarrow>
     if b then linearization (rev R) step init (ids R (se_calls s)) \<and>
          map (\<lambda>(a, _). nd_id (se_heap s ! a)) (se_calls s) = map int (ids R (se_calls s))
     else killed \<or> (\<nexists>ls. linearization (rev R) step init ls))"

lemma result_at_end:
  assumes s: "sinv R step h0 init s" and ok: "history_ok (rev R)" "heap_ok R {} h0"
    and n: "nd_next (se_heap s ! length R) = None"
  shows "result_ok R step init k (True, s)"
proof -
  note h = sinvD(1) [OF s ok] and tr = sinvD(2) [OF s ok]
  have "alive R (set (ids R (se_calls s))) = []" using n heap_ok_head [OF h] by (cases "alive R (set (ids R (se_calls s)))") auto
  then have e: "a < length R \<Longrightarrow> rid R a \<in> set (ids R (se_calls s))" for a
    using alive_iff [of a R "set (ids R (se_calls s))"] by (simp del: alive_iff)
  have "{..<length R div 2} \<subseteq> set (ids R (se_calls s))"
  proof
    fix i assume "i \<in> {..<length R div 2}"
    then obtain a where "a < length R" "rid R a = i" using ok_position [OF ok(1), of i True] by auto
    then show "i \<in> set (ids R (se_calls s))" using e by blast
  qed
  then have "set (ids R (se_calls s)) = {..<length R div 2}" using sinvD(3) [OF s ok] by blast
  then have "linearization (rev R) step init (ids R (se_calls s))"
    using tr by (simp add: linearization_def completes_def trail_ok_def)
  moreover have "map (\<lambda>(a, _). nd_id (se_heap s ! a)) (se_calls s) = map int (ids R (se_calls s))"
    using tr heap_okD(2) [OF h] ok_rid [OF ok(1)] by (auto simp: ids_def trail_ok_def)
  ultimately show ?thesis by (simp add: result_ok_def)
qed

lemma checkLoop_correct:
  assumes ok: "history_ok (rev R)" "heap_ok R {} h0" and "sinv R step h0 init s"
  shows "\<exists>r. checkLoop step ShallowEqual cp (length R) kills s = Some r \<and> (\<forall>x. r = Some x \<longrightarrow> result_ok R step init (True \<in> set kills) x)"
  using assms(3)
proof (induction kills arbitrary: s)
  case Nil
  then show ?case using result_at_end [OF Nil ok] by (cases "nd_next (se_heap s ! length R)") (auto simp: checkLoop.simps [of _ _ _ _ _ s])
next
  case (Cons k ks)
  show ?case
  proof (cases "nd_next (se_heap s ! length R) = None")
    case True
    then show ?thesis using result_at_end [OF Cons.prems ok] by (simp add: checkLoop.simps [of _ _ _ _ _ s])
  next
    case False
    have "turn_ok R step h0 init s (checkIter step ShallowEqual cp (length R) s)" by (rule checkIter_turn [OF Cons.prems ok False])
    then consider "checkIter step ShallowEqual cp (length R) s = Some None" "dead_end (rev R) step ({}, init)"
      | s1 where "checkIter step ShallowEqual cp (length R) s = Some (Some s1)" "sinv R step h0 init s1"
      unfolding turn_ok_def by blast
    then show ?thesis
    proof cases
      case 1
      then show ?thesis using False by (auto simp: checkLoop.simps [of _ _ _ _ _ s] result_ok_def linearization_def dead_end_def)
    next
      case 2
      obtain r where "checkLoop step ShallowEqual cp (length R) ks s1 = Some r"
          "\<forall>x. r = Some x \<longrightarrow> result_ok R step init (True \<in> set ks) x" using Cons.IH [OF 2(2)] by blast
      then show ?thesis using False 2(1) by (cases k) (auto simp: checkLoop.simps [of _ _ _ _ _ s] result_ok_def)
    qed
  qed
qed

lemma checkLoop_terminates:
  assumes ok: "history_ok (rev R)" "heap_ok R {} h0" and "sinv R step h0 init s"
  shows "\<exists>t. \<forall>kills. t \<le> length kills \<longrightarrow> checkLoop step ShallowEqual cp (length R) kills s \<noteq> Some None"
proof -
  have "wf (turn_rel R step init)" by (simp add: turn_rel_def)
  then show ?thesis using assms(3)
  proof (induction s rule: wf_induct_rule)
    case (less s)
    show ?case
    proof (cases "nd_next (se_heap s ! length R) = None")
      case True
      then show ?thesis by (simp add: checkLoop.simps [of _ _ _ _ _ s])
    next
      case False
      note t = checkIter_turn [OF less.prems ok False, of cp]
      show ?thesis
      proof (cases "checkIter step ShallowEqual cp (length R) s = Some None")
        case True
        then show ?thesis using False by (intro exI [of _ 1]) (auto simp: checkLoop.simps [of _ _ _ _ _ s] split: list.splits)
      next
        case nf: False
        then obtain s1 where s1: "checkIter step ShallowEqual cp (length R) s = Some (Some s1)" "sinv R step h0 init s1"
            "(s1, s) \<in> turn_rel R step init" using t unfolding turn_ok_def by blast
        obtain n where n: "\<forall>kills. n \<le> length kills \<longrightarrow> checkLoop step ShallowEqual cp (length R) kills s1 \<noteq> Some None"
          using less.IH [OF s1(3,2)] by blast
        have "checkLoop step ShallowEqual cp (length R) kills s \<noteq> Some None" if l: "Suc n \<le> length kills" for kills
        proof -
          obtain k ks where "kills = k # ks" "n \<le> length ks" using l by (cases kills) auto
          then show ?thesis using False s1(1) n by (auto simp: checkLoop.simps [of _ _ _ _ _ s])
        qed
        then show ?thesis by blast
      qed
    qed
  qed
qed

end
