(* ===== verification/Porcu_Props.thy ===== *)
theory Porcu_Props
  imports Porcu_Search
begin

text \<open>
  The properties of the linearizability checker.  The search is a decision procedure: on every well-formed history it ends and
  finds a linearization exactly when there is one.  Through \<^verbatim>\<open>makeEntries\<close>, the partition by key and the
  collection of the results this becomes a statement about \<^verbatim>\<open>CheckOperations\<close>, as the tests call it, on histories of
  operations with their call and return times.
\<close>

section \<open>A single history\<close>

lemma sinv_start:
  fixes E :: "('i, 'o) entry list" and init :: 's
  shows "\<exists>h s. startSearch init E = (s, length E, length E div 2) \<and> heap_ok (rev E) {} h \<and> (\<forall>step. sinv (rev E) step h init s)"
proof -
  let ?s = "\<lambda>h. \<lparr>se_heap = h, se_entry = nxt (rev [0..<length E]) None, se_linearized = newBitset (length E div 2), se_cache = (\<lambda>_. []),
    se_calls = [], se_longest = replicate (length E div 2) None, se_seqs = [], se_state = init\<rparr>"
  obtain h where h: "startSearch init E = (?s h, length E, length E div 2)" "dseg h None (rev [0..<Suc (length E)]) None"
      "heap_data (rev E) h" "length h = Suc (length E)" using startSearch_result [of init E] by blast
  have al: "alive (rev E) {} = rev [0..<length E]" by (simp add: alive_def)
  have hk: "heap_ok (rev E) {} h" using h by (simp add: heap_ok_def al)
  have ce: "cached (\<lambda>_. [] :: (bitset \<times> 's) list) = {}" by (simp add: cached_def)
  have "sinv (rev E) step h init (?s h)" for step :: "'s \<Rightarrow> 'i \<Rightarrow> 'o \<Rightarrow> bool \<times> 's"
    using cursor_first [OF hk, of step "{}" init] heap_ok_head [OF hk] words.new_law [of "length E div 2"]
    unfolding sinv_def by (auto simp: al ce cache_ok_def intro: trail.start)
  then show ?thesis using h(1) hk by blast
qed

lemma checkSingle_result:
  assumes ok: "history_ok E"
  shows "\<exists>t. \<forall>kills. t \<le> length kills \<longrightarrow> (\<exists>b longest seqs.
      checkSingle init step ShallowEqual E cp kills = Some (Some (b, longest, seqs)) \<and>
      (if b then longest = replicate (length E div 2) (Some (length seqs - 1)) \<and>
            (\<exists>ls. last seqs = map int ls \<and> linearization E step init ls)
       else True \<in> set kills \<or> (\<nexists>ls. linearization E step init ls)))"
proof -
  obtain h s where h: "startSearch init E = (s, length E, length E div 2)" "heap_ok (rev E) {} h" "sinv (rev E) step h init s"
    using sinv_start [of init E] by blast
  have ok': "history_ok (rev (rev E))" using ok by simp
  obtain t where t: "\<forall>kills. t \<le> length kills \<longrightarrow> checkLoop step ShallowEqual cp (length E) kills s \<noteq> Some None"
    using checkLoop_terminates [OF ok' h(2,3), of cp] by auto
  show ?thesis
  proof (intro exI [of _ t] allI impI)
    fix kills :: "bool list" assume k: "t \<le> length kills"
    obtain r where r: "checkLoop step ShallowEqual cp (length E) kills s = Some r"
        "\<forall>x. r = Some x \<longrightarrow> result_ok (rev E) step init (True \<in> set kills) x"
      using checkLoop_correct [OF ok' h(2,3), of cp kills] by auto
    obtain b s1 where "r = Some (b, s1)" using r(1) t k by (cases r) auto
    then show "\<exists>b longest seqs. checkSingle init step ShallowEqual E cp kills = Some (Some (b, longest, seqs)) \<and>
      (if b then longest = replicate (length E div 2) (Some (length seqs - 1)) \<and>
            (\<exists>ls. last seqs = map int ls \<and> linearization E step init ls)
       else True \<in> set kills \<or> (\<nexists>ls. linearization E step init ls))"
      using h(1) r by (cases b) (auto simp: checkSingle_def result_ok_def)
  qed
qed

section \<open>Histories of operations\<close>

text \<open>What \<^verbatim>\<open>sort.Sort\<close> promises: a sorted permutation, which need not be stable.\<close>

definition sort_Sort :: "(('i, 'o) entry list \<Rightarrow> ('i, 'o) entry list) \<Rightarrow> bool" where
  "sort_Sort sortf \<longleftrightarrow> (\<forall>es. mset (sortf es) = mset es \<and> sorted_wrt (\<lambda>a b. \<not> byTime_Less b a) (sortf es))"

text \<open>An order of the operations: a permutation of their positions that respects time and that the model accepts.\<close>

definition op_linearization :: "('s \<Rightarrow> 'i \<Rightarrow> 'o \<Rightarrow> bool \<times> 's) \<Rightarrow> 's \<Rightarrow> ('i, 'o) Operation list \<Rightarrow> nat list \<Rightarrow> bool" where
  "op_linearization step init ops ls \<longleftrightarrow> distinct ls \<and> set ls = {..<length ops} \<and>
     sorted_wrt (\<lambda>i j. \<not> op_Return (ops ! j) < op_Call (ops ! i)) ls \<and>
     legal step init (map (\<lambda>i. (op_Input (ops ! i), op_Output (ops ! i))) ls)"

definition callE :: "nat \<Rightarrow> ('i, 'o) Operation \<Rightarrow> ('i, 'o) entry" where
  "callE i v = \<lparr>en_kind = False, en_value = VIn (op_Input v), en_id = int i, en_time = op_Call v, en_clientId = op_ClientId v\<rparr>"

definition retE :: "nat \<Rightarrow> ('i, 'o) Operation \<Rightarrow> ('i, 'o) entry" where
  "retE i v = \<lparr>en_kind = True, en_value = VOut (op_Output v), en_id = int i, en_time = op_Return v, en_clientId = op_ClientId v\<rparr>"

lemma entryE_simps [simp]:
  "en_kind (callE i v) = False" "en_value (callE i v) = VIn (op_Input v)" "en_id (callE i v) = int i" "en_time (callE i v) = op_Call v"
  "en_kind (retE i v) = True" "en_value (retE i v) = VOut (op_Output v)" "en_id (retE i v) = int i" "en_time (retE i v) = op_Return v"
  by (simp_all add: callE_def retE_def)

lemma entriesLoop_Cons: "entriesLoop (int k) (v # ops) = callE k v # retE k v # entriesLoop (int (Suc k)) ops"
  by (simp add: callE_def retE_def add.commute)

lemma entriesLoop_set: "e \<in> set (entriesLoop (int k) ops) \<longleftrightarrow> (\<exists>i<length ops. e = callE (k + i) (ops ! i) \<or> e = retE (k + i) (ops ! i))"
proof (induction ops arbitrary: k)
  case (Cons v ops)
  show ?case unfolding entriesLoop_Cons using Cons.IH [of "Suc k"] by (auto simp: less_Suc_eq_0_disj)
qed simp

lemma entriesLoop_length: "length (entriesLoop k ops) = 2 * length ops"
  by (induction k ops rule: entriesLoop.induct) simp_all

lemma entriesLoop_distinct: "distinct (map (\<lambda>e. (en_kind e, en_id e)) (entriesLoop (int k) ops))"
proof (induction ops arbitrary: k)
  case (Cons v ops)
  have "(x, int k) \<notin> (\<lambda>e. (en_kind e, en_id e)) ` set (entriesLoop (int (Suc k)) ops)" for x
    unfolding image_iff Bex_def entriesLoop_set by auto
  then show ?case unfolding entriesLoop_Cons using Cons.IH [of "Suc k"] by simp
qed simp

lemma makeEntries_facts:
  fixes ops :: "('i, 'o) Operation list"
  assumes "sort_Sort sortf"
  defines "E \<equiv> makeEntries sortf ops"
  shows "length E = 2 * length ops" "e \<in> set E \<longleftrightarrow> (\<exists>i<length ops. e = callE i (ops ! i) \<or> e = retE i (ops ! i))"
    "distinct (map (\<lambda>e. (en_kind e, en_id e)) E)" "sorted_wrt (\<lambda>a b. \<not> byTime_Less b a) E"
proof -
  have m: "mset E = mset (entriesLoop (int 0) ops)" and s: "sorted_wrt (\<lambda>a b. \<not> byTime_Less b a) E"
    using assms(1) by (simp_all add: E_def makeEntries_def sort_Sort_def)
  show "length E = 2 * length ops" using mset_eq_length [OF m] by (simp add: entriesLoop_length)
  show "e \<in> set E \<longleftrightarrow> (\<exists>i<length ops. e = callE i (ops ! i) \<or> e = retE i (ops ! i))"
    using mset_eq_setD [OF m] entriesLoop_set [of e 0 ops] by simp
  have "mset (map (\<lambda>e. (en_kind e, en_id e)) E) = mset (map (\<lambda>e. (en_kind e, en_id e)) (entriesLoop (int 0) ops))" using m by simp
  then show "distinct (map (\<lambda>e. (en_kind e, en_id e)) E)" using mset_eq_imp_distinct_iff entriesLoop_distinct by blast
  show "sorted_wrt (\<lambda>a b. \<not> byTime_Less b a) E" by (rule s)
qed

lemma sorted_wrt_pair: "sorted_wrt P xs \<Longrightarrow> a < b \<Longrightarrow> b < length xs \<Longrightarrow> P (xs ! a) (xs ! b)"
  by (simp add: sorted_wrt_iff_nth_less)

lemma makeEntries_ok:
  assumes "sort_Sort sortf" "\<forall>v\<in>set ops. op_Call v \<le> op_Return v" "length ops < 2 ^ 62"
  shows "history_ok (makeEntries sortf ops)"
proof -
  let ?E = "makeEntries sortf ops"
  note f = makeEntries_facts [where ops = ops, OF assms(1)]
  have "list_all (entry_ok (length ?E div 2)) ?E" unfolding list_all_iff f(1) by (auto simp: f(2) entry_ok_def)
  moreover have "sorted_wrt (\<lambda>a b. \<not> (en_kind a \<and> \<not> en_kind b \<and> en_id a = en_id b)) ?E"
  proof (rule sorted_wrt_mono_rel [OF _ f(4)])
    fix a b assume ab: "a \<in> set ?E" "b \<in> set ?E" "\<not> byTime_Less b a"
    show "\<not> (en_kind a \<and> \<not> en_kind b \<and> en_id a = en_id b)"
    proof
      assume k: "en_kind a \<and> \<not> en_kind b \<and> en_id a = en_id b"
      then obtain i where "i < length ops" "a = retE i (ops ! i)" "b = callE i (ops ! i)" using ab(1,2) unfolding f(2) by auto
      moreover from this have "op_Call (ops ! i) \<le> op_Return (ops ! i)" using assms(2) by simp
      ultimately show False using ab(3) by (simp add: byTime_Less_def split: if_splits)
    qed
  qed
  ultimately show ?thesis using f(1,3) assms(3) by (simp add: history_ok_def)
qed

lemma makeEntries_precedes:
  assumes "sort_Sort sortf" "i < length ops" "j < length ops"
  shows "precedes (makeEntries sortf ops) i j \<longleftrightarrow> op_Return (ops ! i) < op_Call (ops ! j)"
proof -
  let ?E = "makeEntries sortf ops" and ?P = "\<lambda>a b. \<not> (en_kind a \<and> en_id a = int i \<and> \<not> en_kind b \<and> en_id b = int j)"
  note f = makeEntries_facts [where ops = ops, OF assms(1)]
  have is_ret: "e = retE i (ops ! i)" if "e \<in> set ?E" "en_kind e" "en_id e = int i" for e using that unfolding f(2) by auto
  have is_call: "e = callE j (ops ! j)" if "e \<in> set ?E" "\<not> en_kind e" "en_id e = int j" for e using that unfolding f(2) by auto
  show ?thesis
  proof
    assume "precedes ?E i j"
    then obtain a b where ab: "a < b" "b < length ?E" "\<not> ?P (?E ! a) (?E ! b)"
      unfolding precedes_def sorted_wrt_iff_nth_less by auto
    then have "?E ! a = retE i (ops ! i)" "?E ! b = callE j (ops ! j)" using is_ret is_call by simp_all
    then have "\<not> byTime_Less (callE j (ops ! j)) (retE i (ops ! i))" using sorted_wrt_pair [OF f(4) ab(1,2)] by simp
    then show "op_Return (ops ! i) < op_Call (ops ! j)" by (auto simp: byTime_Less_def split: if_splits)
  next
    assume t: "op_Return (ops ! i) < op_Call (ops ! j)"
    have "retE i (ops ! i) \<in> set ?E" "callE j (ops ! j) \<in> set ?E" using assms(2,3) unfolding f(2) by auto
    then obtain a b where ab: "a < length ?E" "?E ! a = retE i (ops ! i)" "b < length ?E" "?E ! b = callE j (ops ! j)"
      by (auto simp: in_set_conv_nth)
    have "\<not> b < a"
    proof
      assume "b < a"
      then have "\<not> byTime_Less (retE i (ops ! i)) (callE j (ops ! j))" using sorted_wrt_pair [OF f(4) _ ab(1)] ab by metis
      then show False using t by (auto simp: byTime_Less_def)
    qed
    moreover have "a \<noteq> b" using ab(2,4) by (metis entryE_simps(1,5))
    ultimately have "a < b" by simp
    then have "\<not> ?P (?E ! a) (?E ! b)" using ab by simp
    then show "precedes ?E i j" unfolding precedes_def using sorted_wrt_pair [of ?P ?E a b] ab(3) \<open>a < b\<close> by blast
  qed
qed

lemma makeEntries_step:
  assumes "sort_Sort sortf" "i < length ops"
  shows "stepOp (makeEntries sortf ops) step st i =
    (let (ok, st') = step st (op_Input (ops ! i)) (op_Output (ops ! i)) in if ok then Some st' else None)"
proof -
  let ?E = "makeEntries sortf ops"
  note f = makeEntries_facts [where ops = ops, OF assms(1)]
  have "find (\<lambda>e. \<not> en_kind e \<and> en_id e = int i) ?E = Some (callE i (ops ! i))"
    by (rule find_unique) (use assms(2) in \<open>auto simp: f(2)\<close>)
  moreover have "find (\<lambda>e. en_kind e \<and> en_id e = int i) ?E = Some (retE i (ops ! i))"
    by (rule find_unique) (use assms(2) in \<open>auto simp: f(2)\<close>)
  ultimately show ?thesis by (simp add: stepOp_def)
qed

lemma makeEntries_legal:
  assumes "sort_Sort sortf" "set ls \<subseteq> {..<length ops}"
  shows "runOps (makeEntries sortf ops) step st ls \<noteq> None \<longleftrightarrow> legal step st (map (\<lambda>i. (op_Input (ops ! i), op_Output (ops ! i))) ls)"
  using assms(2)
proof (induction ls arbitrary: st)
  case (Cons i ls)
  obtain ok st' where "step st (op_Input (ops ! i)) (op_Output (ops ! i)) = (ok, st')" by fastforce
  then show ?case using Cons makeEntries_step [OF assms(1), of i ops step st] by (cases ok) simp_all
qed simp

lemma makeEntries_linearization:
  assumes "sort_Sort sortf"
  shows "linearization (makeEntries sortf ops) step init ls \<longleftrightarrow> op_linearization step init ops ls"
proof -
  have n: "length (makeEntries sortf ops) div 2 = length ops" using makeEntries_facts(1) [where ops = ops, OF assms] by simp
  have "sorted_wrt (\<lambda>i j. \<not> precedes (makeEntries sortf ops) j i) ls \<longleftrightarrow>
      sorted_wrt (\<lambda>i j. \<not> op_Return (ops ! j) < op_Call (ops ! i)) ls" if "set ls = {..<length ops}"
    using that makeEntries_precedes [OF assms] by (intro iffI; elim sorted_wrt_mono_rel [rotated]) auto
  then show ?thesis using makeEntries_legal [OF assms, of ls ops step init]
    unfolding linearization_def completes_def op_linearization_def n by auto
qed

section \<open>The partitions\<close>

text \<open>When all results arrive and no timer fires, the conjunction of the results decides.\<close>

lemma collectLoop_all:
  assumes "rs \<noteq> []" "cnt + length rs = n"
  shows "\<exists>cnt' rest. collectLoop info n (map Some rs) cnt ok = Some (ok \<and> (\<forall>r\<in>set rs. r), False, cnt', rest)"
  using assms
proof (induction rs arbitrary: cnt ok)
  case (Cons r rs)
  show ?case
  proof (cases "\<not> (ok \<and> r) \<and> \<not> info \<or> n \<le> cnt + 1")
    case True
    then show ?thesis using Cons.prems by (cases rs) (auto simp: Let_def)
  next
    case False
    then have "rs \<noteq> []" using Cons.prems by (cases rs) auto
    then show ?thesis using False Cons.IH [of "cnt + 1" "ok \<and> r"] Cons.prems by (auto simp: Let_def)
  qed
qed simp

lemma runParts_result:
  assumes "parts \<noteq> []" "mset order = mset [0..<length parts]"
    "\<And>p. p \<in> set parts \<Longrightarrow> runSearch model turns p = Some (P p)"
  shows "runParts turns order model parts = Some (if \<forall>p\<in>set parts. P p then Ok else Illegal)"
proof -
  have so: "set order = {..<length parts}" using mset_eq_setD [OF assms(2)] by (simp add: lessThan_atLeast0)
  have len: "length order = length parts" using mset_eq_length [OF assms(2)] by simp
  have "map (\<lambda>i. runSearch model turns (parts ! i)) order = map Some (map (\<lambda>i. P (parts ! i)) order)"
    using assms(3) so by auto
  moreover have those: "those (map Some xs) = Some xs" for xs :: "bool list" by (induction xs) simp_all
  ultimately have t: "those (map (\<lambda>i. runSearch model turns (parts ! i)) order) = Some (map (\<lambda>i. P (parts ! i)) order)" by metis
  have all: "(\<forall>r\<in>set (map (\<lambda>i. P (parts ! i)) order). r) \<longleftrightarrow> (\<forall>p\<in>set parts. P p)"
    using so by (auto simp: all_set_conv_all_nth)
  have "map (\<lambda>i. P (parts ! i)) order \<noteq> []" using assms(1) len by auto
  then obtain cnt rest where "collectLoop False (length parts) (map Some (map (\<lambda>i. P (parts ! i)) order)) 0 True =
      Some (\<forall>p\<in>set parts. P p, False, cnt, rest)"
    using collectLoop_all [of "map (\<lambda>i. P (parts ! i)) order" 0 "length parts" False True] len unfolding all by auto
  then show ?thesis unfolding runParts_def t checkParallel_def by simp
qed

lemma runSearch_result:
  assumes "history_ok E" "md_Equal model = None"
  shows "\<exists>t. \<forall>turns\<ge>t. runSearch model turns E = Some (\<exists>ls. linearization E (md_Step model) (md_Init model) ls)"
proof -
  have eq: "md_Equal (fillDefault model) = Some ShallowEqual" using assms(2) by (simp add: fillDefault_def Let_def)
  obtain t where t: "\<forall>kills. t \<le> length kills \<longrightarrow> (\<exists>b longest seqs.
      checkSingle (md_Init model) (md_Step model) ShallowEqual E False kills = Some (Some (b, longest, seqs)) \<and>
      (if b then longest = replicate (length E div 2) (Some (length seqs - 1)) \<and>
            (\<exists>ls. last seqs = map int ls \<and> linearization E (md_Step model) (md_Init model) ls)
       else True \<in> set kills \<or> (\<nexists>ls. linearization E (md_Step model) (md_Init model) ls)))"
    using checkSingle_result [OF assms(1), of "md_Init model" "md_Step model" False] by (elim exE) (rule that)
  have "runSearch model turns E = Some (\<exists>ls. linearization E (md_Step model) (md_Init model) ls)" if "t \<le> turns" for turns
    using t [rule_format, of "replicate turns False"] that eq by (auto simp: runSearch_def split: if_splits)
  then show ?thesis by blast
qed

lemma enough_turns:
  assumes "\<And>p. p \<in> set ps \<Longrightarrow> \<exists>t. \<forall>turns\<ge>t. Q p turns"
  shows "\<exists>t :: nat. \<forall>turns\<ge>t. \<forall>p\<in>set ps. Q p turns"
  using assms
proof (induction ps)
  case (Cons p ps)
  obtain t1 where t1: "\<forall>turns\<ge>t1. Q p turns" using Cons.prems [of p] by auto
  obtain t2 where t2: "\<forall>turns\<ge>t2. \<forall>p\<in>set ps. Q p turns" using Cons by auto
  show ?case using t1 t2 by (intro exI [of _ "max t1 t2"]) auto
qed simp

lemma CheckOperations_result:
  assumes sort: "sort_Sort sortf" and model: "md_Equal model = None" "md_Partition (fillDefault model) = Some part"
    and parts: "part history \<noteq> []" "\<And>ops. ops \<in> set (part history) \<Longrightarrow> length ops < 2 ^ 62 \<and> (\<forall>v\<in>set ops. op_Call v \<le> op_Return v)"
  shows "\<exists>t. \<forall>turns\<ge>t. \<forall>order. mset order = mset [0..<length (part history)] \<longrightarrow>
    CheckOperations sortf turns order model history =
      Some (\<forall>ops\<in>set (part history). \<exists>ls. op_linearization (md_Step model) (md_Init model) ops ls)"
proof -
  let ?P = "\<lambda>E. \<exists>ls. linearization E (md_Step model) (md_Init model) ls" and ?parts = "map (makeEntries sortf) (part history)"
  have "\<exists>t. \<forall>turns\<ge>t. runSearch model turns E = Some (?P E)" if "E \<in> set ?parts" for E
    using that parts(2) makeEntries_ok [OF sort] runSearch_result [OF _ model(1)] by auto
  then obtain t where t: "\<forall>turns\<ge>t. \<forall>E\<in>set ?parts. runSearch model turns E = Some (?P E)"
    using enough_turns [of ?parts "\<lambda>E turns. runSearch model turns E = Some (?P E)"] by blast
  have "CheckOperations sortf turns order model history =
      Some (\<forall>ops\<in>set (part history). \<exists>ls. op_linearization (md_Step model) (md_Init model) ops ls)"
    if "t \<le> turns" "mset order = mset [0..<length (part history)]" for turns order
  proof -
    have "runParts turns order model ?parts = Some (if \<forall>E\<in>set ?parts. ?P E then Ok else Illegal)"
      by (rule runParts_result) (use t that parts(1) in auto)
    moreover have "operationParts sortf model history = Some ?parts" using model(2) by (simp add: operationParts_def)
    moreover have "?P (makeEntries sortf ops) \<longleftrightarrow> (\<exists>ls. op_linearization (md_Step model) (md_Init model) ops ls)" for ops
      by (simp only: makeEntries_linearization [OF sort])
    ultimately show ?thesis by (simp add: CheckOperations_def)
  qed
  then show ?thesis by blast
qed

section \<open>Renumbering\<close>

lemma renumberLoop_result:
  assumes "bij_betw (\<lambda>i. the (m i)) (dom m) {0..<nid}" "finite (dom m)" "0 \<le> nid"
  shows "\<exists>f. (\<forall>i\<in>dom m. f i = the (m i)) \<and> renumberLoop m nid evs = map (\<lambda>v. v\<lparr>ev_Id := f (ev_Id v)\<rparr>) evs \<and>
    bij_betw f (dom m \<union> ev_Id ` set evs) {0..<int (card (dom m \<union> ev_Id ` set evs))}"
  using assms
proof (induction evs arbitrary: m nid)
  case Nil
  have "int (card (dom m)) = nid" using bij_betw_same_card [OF Nil.prems(1)] Nil.prems(3) by simp
  then show ?case using Nil.prems(1) by (intro exI [of _ "\<lambda>i. the (m i)"]) simp
next
  case (Cons v evs)
  show ?case
  proof (cases "m (ev_Id v)")
    case (Some r)
    obtain f where f: "\<forall>i\<in>dom m. f i = the (m i)" "renumberLoop m nid evs = map (\<lambda>v. v\<lparr>ev_Id := f (ev_Id v)\<rparr>) evs"
        "bij_betw f (dom m \<union> ev_Id ` set evs) {0..<int (card (dom m \<union> ev_Id ` set evs))}" using Cons.IH [OF Cons.prems] by blast
    have e: "dom m \<union> ev_Id ` set (v # evs) = dom m \<union> ev_Id ` set evs" "f (ev_Id v) = r" using Some bspec [OF f(1), of "ev_Id v"] by auto
    then show ?thesis using f Some by (intro exI [of _ f]) (simp add: e)
  next
    case None
    let ?m = "m(ev_Id v \<mapsto> nid)"
    have "bij_betw (\<lambda>i. the (?m i)) (dom m) {0..<nid}"
      using Cons.prems(1) None by (subst bij_betw_cong [of _ _ "\<lambda>i. the (m i)"]) auto
    then have "bij_betw (\<lambda>i. the (?m i)) (dom m \<union> {ev_Id v}) ({0..<nid} \<union> {nid})"
      using None notIn_Un_bij_betw [of "ev_Id v" "dom m" "\<lambda>i. the (?m i)" "{0..<nid}"] by auto
    moreover have "{0..<nid} \<union> {nid} = {0..<nid + 1}" using Cons.prems(3) by auto
    ultimately have b: "bij_betw (\<lambda>i. the (?m i)) (dom ?m) {0..<nid + 1}" by (simp add: insert_is_Un [symmetric])
    have fin: "finite (dom ?m)" "0 \<le> nid + 1" using Cons.prems(2,3) by simp_all
    obtain f where f: "\<forall>i\<in>dom ?m. f i = the (?m i)" "renumberLoop ?m (nid + 1) evs = map (\<lambda>v. v\<lparr>ev_Id := f (ev_Id v)\<rparr>) evs"
        "bij_betw f (dom ?m \<union> ev_Id ` set evs) {0..<int (card (dom ?m \<union> ev_Id ` set evs))}"
      using Cons.IH [OF b fin] by blast
    have e: "dom m \<union> ev_Id ` set (v # evs) = dom ?m \<union> ev_Id ` set evs" by auto
    have "f (ev_Id v) = nid" "\<forall>i\<in>dom m. f i = the (m i)" using f(1) None by auto
    then show ?thesis unfolding e using f(2,3) None by (intro exI [of _ f]) simp
  qed
qed

section \<open>Properties\<close>

text \<open>C4: The search of the checker is a decision procedure for linearizability: on a history in which every operation is called once
  and returns once, later, it ends after finitely many turns and never panics; a positive result comes with a linearization of the whole
  history, and a negative one, unless the search was killed, means that there is none.\<close>

theorem checkSingle_decides:
  assumes "history_ok E"
  shows "\<exists>t. \<forall>kills. t \<le> length kills \<longrightarrow> (\<exists>b longest seqs.
      checkSingle init step ShallowEqual E computePartial kills = Some (Some (b, longest, seqs)) \<and>
      (if b then longest = replicate (length E div 2) (Some (length seqs - 1)) \<and>
            (\<exists>ls. last seqs = map int ls \<and> linearization E step init ls)
       else True \<in> set kills \<or> (\<nexists>ls. linearization E step init ls)))"
  using assms by (rule checkSingle_result)

definition demo_history :: "(KvInput, KvOutput) entry list" where
  "demo_history =
     [\<lparr>en_kind = False, en_value = VIn \<lparr>ki_Op = 1, ki_Key = ''x'', ki_Value = ''a''\<rparr>, en_id = 0, en_time = 0, en_clientId = 0\<rparr>,
      \<lparr>en_kind = False, en_value = VIn \<lparr>ki_Op = 0, ki_Key = ''x'', ki_Value = ''''\<rparr>, en_id = 1, en_time = 1, en_clientId = 1\<rparr>,
      \<lparr>en_kind = True, en_value = VOut \<lparr>ko_Value = ''''\<rparr>, en_id = 0, en_time = 2, en_clientId = 0\<rparr>,
      \<lparr>en_kind = True, en_value = VOut \<lparr>ko_Value = ''''\<rparr>, en_id = 1, en_time = 3, en_clientId = 1\<rparr>]"

text \<open>A get that overlaps a put may still return the old value: the order is get, put.\<close>

theorem checkSingle_decides_witness:
  "history_ok demo_history \<and> linearization demo_history KvModel_Step KvModel_Init [1, 0] \<and>
   (\<exists>t. \<forall>kills. t \<le> length kills \<longrightarrow> True \<notin> set kills \<longrightarrow> (\<exists>longest seqs.
      checkSingle KvModel_Init KvModel_Step ShallowEqual demo_history False kills = Some (Some (True, longest, seqs))))"
proof -
  have ok: "history_ok demo_history" by (simp add: history_ok_def demo_history_def entry_ok_def)
  have "runOps demo_history KvModel_Step KvModel_Init [1, 0] \<noteq> None" by code_simp
  moreover have "\<not> precedes demo_history 0 1" by code_simp
  ultimately have lin: "linearization demo_history KvModel_Step KvModel_Init [1, 0]"
    by (auto simp: linearization_def completes_def demo_history_def)
  obtain t where t: "\<forall>kills. t \<le> length kills \<longrightarrow> (\<exists>b longest seqs.
      checkSingle KvModel_Init KvModel_Step ShallowEqual demo_history False kills = Some (Some (b, longest, seqs)) \<and>
      (if b then longest = replicate (length demo_history div 2) (Some (length seqs - 1)) \<and>
            (\<exists>ls. last seqs = map int ls \<and> linearization demo_history KvModel_Step KvModel_Init ls)
       else True \<in> set kills \<or> (\<nexists>ls. linearization demo_history KvModel_Step KvModel_Init ls)))"
    using checkSingle_decides [OF ok, of KvModel_Init KvModel_Step False] by (elim exE) (rule that)
  have "\<exists>longest seqs. checkSingle KvModel_Init KvModel_Step ShallowEqual demo_history False kills = Some (Some (True, longest, seqs))"
    if "t \<le> length kills" "True \<notin> set kills" for kills
    using t [rule_format, OF that(1)] that(2) lin by (auto split: if_splits)
  then show ?thesis using ok lin by blast
qed

text \<open>Backtracking restores the history exactly: lifting a call and its return out of the doubly linked list leaves the list of the other
  entries, and \<^verbatim>\<open>unlift\<close> gives back the heap as it was, every pointer of every node included.\<close>

theorem unlift_lift:
  assumes "dseg h None (xs @ e # ys @ m # zs) None" "distinct (xs @ e # ys @ m # zs)" "xs \<noteq> []" "nd_match (h ! e) = Some m"
  shows "\<exists>h'. lift e h = Some h' \<and> dseg h' None (xs @ ys @ zs) None \<and> unlift e h' = Some h"
  using lift_unlink [OF assms] by blast

definition demo_heap :: "(KvInput, KvOutput) heap" where
  "demo_heap = se_heap (fst (startSearch KvModel_Init demo_history))"

text \<open>The history of the example: the head is node 4, and the put is lifted.\<close>

theorem unlift_lift_witness:
  "dseg demo_heap None ([4] @ 3 # [2] @ 1 # [0]) None \<and>
   (\<exists>h'. lift 3 demo_heap = Some h' \<and> dseg h' None ([4] @ [2] @ [0]) None \<and> unlift 3 h' = Some demo_heap)"
proof -
  have d: "dseg demo_heap None ([4] @ 3 # [2] @ 1 # [0]) None" "nd_match (demo_heap ! 3) = Some 1" by code_simp+
  show ?thesis using d(1) unlift_lift [OF d(1) _ _ d(2)] by simp
qed

text \<open>C36: The bit sets implement finite sets of numbers: setting, clearing, reading, comparing and counting the bits of the words are insertion,
  removal, membership, equality and cardinality, and a position beyond the words panics.\<close>

theorem bitset_refines:
  assumes "bitset_ok n b" "bitset_ok n b'" "p < n"
  shows "(\<exists>b1. bitset_set p b = Some b1 \<and> bitset_ok n b1 \<and> members b1 = insert p (members b)) \<and>
    (\<exists>b1. bitset_clear p b = Some b1 \<and> bitset_ok n b1 \<and> members b1 = members b - {p}) \<and>
    bitset_get p b = Some (p \<in> members b) \<and> (bitset_equals b b' \<longleftrightarrow> members b = members b') \<and>
    bitset_popcnt b = card (members b) \<and> bitset_set (64 * length b + q) b = None"
  using bitset_set_result [OF assms(1,3)] bitset_clear_result [OF assms(1,3)] bitset_get_result [OF assms(1,3)]
    bitset_equals_result [OF assms(1,2)] popcnt_card [of b]
  by (simp add: bitset_set_def bitsetIndex_def go_index_def)

theorem bitset_refines_witness:
  "bitset_ok 70 (newBitset 70) \<and> (\<exists>b. bitset_set 65 (newBitset 70) = Some b \<and> members b = {65}) \<and>
   bitset_get 65 (newBitset 70) = Some False"
  using bitset_refines [of 70 "newBitset 70" "newBitset 70" 65 0] newBitset_result [of 70] by auto

text \<open>\<^verbatim>\<open>renumber\<close> changes nothing but the ids, and relabels them by a bijection onto the numbers from 0 on, as the
  bit sets of the search need.\<close>

theorem renumber_bijection:
  "\<exists>f. renumber evs = map (\<lambda>v. v\<lparr>ev_Id := f (ev_Id v)\<rparr>) evs \<and>
     bij_betw f (ev_Id ` set evs) {0..<int (card (ev_Id ` set evs))}"
  using renumberLoop_result [of Map.empty 0 evs] by (auto simp: renumber_def bij_betw_def)

end
