(* ===== verification/Porcu_Local.thy ===== *)
theory Porcu_Local
  imports Porcu_Props
begin

text \<open>
  Checking each key on its own is enough.  \<^verbatim>\<open>KvModel\<close> models a single key and relies on the partition of a history by key;
  here a history is shown to be linearizable for the whole key/value store exactly when its part for each key is
  linearizable for that key.  Orders for the keys are merged along linearization points, times inside the intervals
  of the operations that increase along each order.
\<close>

section \<open>The whole store\<close>

definition KvMap_Step :: "(string \<Rightarrow> string) \<Rightarrow> KvInput \<Rightarrow> KvOutput \<Rightarrow> bool \<times> (string \<Rightarrow> string)" where
  "KvMap_Step st inp out = (let (ok, v) = KvModel_Step (st (ki_Key inp)) inp out in (ok, st(ki_Key inp := v)))"

lemma legal_map:
  "legal KvMap_Step st h \<longleftrightarrow> (\<forall>k. legal KvModel_Step (st k) (filter (\<lambda>x. ki_Key (fst x) = k) h))"
proof (induction h arbitrary: st)
  case (Cons x h)
  obtain i o' where x: "x = (i, o')" by (cases x)
  obtain ok v where s: "KvModel_Step (st (ki_Key i)) i o' = (ok, v)" by fastforce
  have "KvMap_Step st i o' = (ok, st(ki_Key i := v))" using s by (simp add: KvMap_Step_def)
  then have "legal KvMap_Step st (x # h) \<longleftrightarrow>
      ok \<and> (\<forall>k. legal KvModel_Step ((st(ki_Key i := v)) k) (filter (\<lambda>x. ki_Key (fst x) = k) h))"
    unfolding x Cons.IH [of "st(ki_Key i := v)", symmetric] by (simp del: fun_upd_apply)
  moreover have "legal KvModel_Step (st k) (filter (\<lambda>x. ki_Key (fst x) = k) (x # h)) \<longleftrightarrow>
      (k = ki_Key i \<longrightarrow> ok) \<and> legal KvModel_Step ((st(ki_Key i := v)) k) (filter (\<lambda>x. ki_Key (fst x) = k) h)" for k
    using s by (auto simp: x)
  ultimately show ?case by blast
qed simp

text \<open>Orders of some of the operations of a history, given by their positions.\<close>

definition op_order :: "('s \<Rightarrow> 'i \<Rightarrow> 'o \<Rightarrow> bool \<times> 's) \<Rightarrow> 's \<Rightarrow> ('i, 'o) Operation list \<Rightarrow> nat set \<Rightarrow> nat list \<Rightarrow> bool" where
  "op_order step init ops I ls \<longleftrightarrow> distinct ls \<and> set ls = I \<and>
     sorted_wrt (\<lambda>i j. \<not> op_Return (ops ! j) < op_Call (ops ! i)) ls \<and>
     legal step init (map (\<lambda>i. (op_Input (ops ! i), op_Output (ops ! i))) ls)"

lemma op_linearization_order: "op_linearization step init ops ls \<longleftrightarrow> op_order step init ops {..<length ops} ls"
  by (simp add: op_linearization_def op_order_def)

lemma filter_positions: "filter P xs = map (\<lambda>i. xs ! i) (filter (\<lambda>i. P (xs ! i)) [0..<length xs])"
proof -
  have "filter P xs = filter P (map (\<lambda>i. xs ! i) [0..<length xs])" by (simp add: map_nth)
  then show ?thesis by (simp only: filter_map o_def)
qed

text \<open>An order of a part of a history is an order of the positions of that part.\<close>

lemma op_linearization_part:
  "(\<exists>ls. op_linearization step init (filter P ops) ls) \<longleftrightarrow>
   (\<exists>gs. op_order step init ops {i. i < length ops \<and> P (ops ! i)} gs)"
proof -
  define js where "js = filter (\<lambda>i. P (ops ! i)) [0..<length ops]"
  have f: "filter P ops = map (\<lambda>i. ops ! i) js" unfolding js_def by (rule filter_positions)
  have dj: "distinct js" and sj: "set js = {i. i < length ops \<and> P (ops ! i)}" by (auto simp: js_def)
  have eq: "op_linearization step init (filter P ops) ls \<longleftrightarrow> op_order step init ops (set js) (map (\<lambda>a. js ! a) ls)"
    if ls: "set ls = {..<length js}" for ls
  proof -
    have a: "distinct (map (\<lambda>a. js ! a) ls) \<longleftrightarrow> distinct ls"
      using ls dj by (auto simp: distinct_map inj_on_def nth_eq_iff_index_eq)
    have b: "set (map (\<lambda>a. js ! a) ls) = set js" unfolding set_map ls by (auto simp: set_conv_nth)
    have c: "sorted_wrt (\<lambda>i j. \<not> op_Return (filter P ops ! j) < op_Call (filter P ops ! i)) ls \<longleftrightarrow>
        sorted_wrt (\<lambda>i j. \<not> op_Return (ops ! j) < op_Call (ops ! i)) (map (\<lambda>a. js ! a) ls)"
      unfolding sorted_wrt_map using ls by (intro iffI; elim sorted_wrt_mono_rel [rotated]) (auto simp: f)
    have d: "map (\<lambda>i. (op_Input (filter P ops ! i), op_Output (filter P ops ! i))) ls =
        map (\<lambda>i. (op_Input (ops ! i), op_Output (ops ! i))) (map (\<lambda>a. js ! a) ls)" using ls by (simp add: f)
    have "length (filter P ops) = length js" by (simp add: f)
    then show ?thesis unfolding op_linearization_def op_order_def a b c d ls by simp
  qed
  show ?thesis
  proof
    assume "\<exists>ls. op_linearization step init (filter P ops) ls"
    then obtain ls where l: "op_linearization step init (filter P ops) ls" by blast
    then have "set ls = {..<length js}" by (simp add: op_linearization_def f)
    then show "\<exists>gs. op_order step init ops {i. i < length ops \<and> P (ops ! i)} gs" using eq l unfolding sj by blast
  next
    assume "\<exists>gs. op_order step init ops {i. i < length ops \<and> P (ops ! i)} gs"
    then obtain gs where g: "op_order step init ops (set js) gs" unfolding sj by blast
    then have sg: "set gs = set js" by (simp add: op_order_def)
    define pos where "pos g = (SOME a. a < length js \<and> js ! a = g)" for g
    have pos: "pos g < length js \<and> js ! pos g = g" if "g \<in> set js" for g
      unfolding pos_def using that by (intro someI_ex [of "\<lambda>a. a < length js \<and> js ! a = g"]) (auto simp: in_set_conv_nth)
    have m: "map (\<lambda>a. js ! a) (map pos gs) = gs" unfolding map_map by (rule map_idI) (use pos sg in auto)
    have "set (map pos gs) = {..<length js}"
    proof
      show "set (map pos gs) \<subseteq> {..<length js}" using pos sg by auto
      show "{..<length js} \<subseteq> set (map pos gs)"
      proof
        fix a assume a: "a \<in> {..<length js}"
        then have "pos (js ! a) = a" using pos [of "js ! a"] dj by (auto simp: nth_eq_iff_index_eq)
        then show "a \<in> set (map pos gs)" using a sg nth_mem [of a js] unfolding set_map by (intro image_eqI [of _ _ "js ! a"]) auto
      qed
    qed
    then show "\<exists>ls. op_linearization step init (filter P ops) ls" using eq g m by metis
  qed
qed

section \<open>Merging\<close>

lemma points:
  assumes "sorted_wrt (\<lambda>i j. \<not> R j < (C i :: int)) gs" "\<forall>g\<in>set gs. C g \<le> R g" "distinct gs"
  shows "\<exists>p. (\<forall>g\<in>set gs. C g \<le> p g \<and> p g \<le> R g) \<and> sorted (map p gs)"
  using assms
proof (induction gs)
  case (Cons x gs)
  obtain p where p: "\<forall>g\<in>set gs. C g \<le> p g \<and> p g \<le> R g" "sorted (map p gs)" using Cons by auto
  define q where "q y = (if y = x then C x else max (p y) (C x))" for y
  have "\<forall>g\<in>set (x # gs). C g \<le> q g \<and> q g \<le> R g" using p(1) Cons.prems by (auto simp: q_def)
  moreover have "sorted (map q gs)"
    unfolding sorted_map by (rule sorted_wrt_mono_rel [OF _ p(2) [unfolded sorted_map]]) (use Cons.prems(3) in \<open>auto simp: q_def\<close>)
  then have "sorted (map q (x # gs))" using Cons.prems(3) by (auto simp: q_def)
  ultimately show ?case by blast
qed simp

lemma points_order:
  assumes "op_order step init ops I gs" "\<forall>i\<in>I. op_Call (ops ! i) \<le> op_Return (ops ! i)"
  shows "\<exists>p. (\<forall>i\<in>I. op_Call (ops ! i) \<le> p i \<and> p i \<le> op_Return (ops ! i)) \<and> sorted (map p gs)"
  using points [of "\<lambda>i. op_Return (ops ! i)" "\<lambda>i. op_Call (ops ! i)" gs] assms by (auto simp: op_order_def)

abbreviation key_of :: "kv_operation list \<Rightarrow> nat \<Rightarrow> string" where
  "key_of ops i \<equiv> ki_Key (op_Input (ops ! i))"

lemma filter_concat_keys:
  assumes "distinct ks" "\<And>k. k \<in> set ks \<Longrightarrow> \<forall>i\<in>set (g k). f i = k"
  shows "filter (\<lambda>i. f i = k) (concat (map g ks)) = (if k \<in> set ks then g k else [])"
  using assms
proof (induction ks)
  case (Cons a ks)
  have "filter (\<lambda>i. f i = k) (g a) = (if k = a then g a else [])"
    using Cons.prems(2) [of a] by (auto simp: filter_empty_conv)
  then show ?case using Cons by auto
qed simp

lemma distinct_concat_keys:
  assumes "distinct ks" "\<And>k. k \<in> set ks \<Longrightarrow> (\<forall>i\<in>set (g k). f i = k) \<and> distinct (g k)"
  shows "distinct (concat (map g ks))"
  using assms
proof (induction ks)
  case (Cons a ks)
  have "set (g a) \<inter> set (g k) = {}" if "k \<in> set ks" for k
    using Cons.prems(1) Cons.prems(2) [of a] Cons.prems(2) [of k] that by auto
  then show ?case using Cons by auto
qed simp

text \<open>Restricting an order of the whole history to a key.\<close>

lemma order_of_key:
  assumes "op_order KvMap_Step (\<lambda>_. KvModel_Init) ops {..<length ops} G"
  shows "op_order KvModel_Step KvModel_Init ops {i. i < length ops \<and> key_of ops i = k} (filter (\<lambda>i. key_of ops i = k) G)"
proof -
  have "legal KvModel_Step KvModel_Init
      (filter (\<lambda>x. ki_Key (fst x) = k) (map (\<lambda>i. (op_Input (ops ! i), op_Output (ops ! i))) G))"
    using assms unfolding op_order_def legal_map by blast
  then show ?thesis using assms unfolding op_order_def by (auto simp: filter_map o_def intro: sorted_wrt_filter)
qed

lemma merge_orders:
  fixes ops :: "kv_operation list"
  assumes t: "\<forall>v\<in>set ops. op_Call v \<le> op_Return v"
    and o: "\<And>k. \<exists>gs. op_order KvModel_Step KvModel_Init ops {i. i < length ops \<and> key_of ops i = k} gs"
  shows "\<exists>G. op_order KvMap_Step (\<lambda>_. KvModel_Init) ops {..<length ops} G"
proof -
  obtain g where g: "\<And>k. op_order KvModel_Step KvModel_Init ops {i. i < length ops \<and> key_of ops i = k} (g k)" using o by metis
  have "\<exists>p. (\<forall>i\<in>{i. i < length ops \<and> key_of ops i = k}. op_Call (ops ! i) \<le> p i \<and> p i \<le> op_Return (ops ! i)) \<and> sorted (map p (g k))" for k
    by (rule points_order [OF g]) (use t in auto)
  then obtain p where p: "\<And>k i. i < length ops \<Longrightarrow> key_of ops i = k \<Longrightarrow> op_Call (ops ! i) \<le> p k i \<and> p k i \<le> op_Return (ops ! i)"
      "\<And>k. sorted (map (p k) (g k))" by (metis (mono_tags, lifting) mem_Collect_eq)
  have sg: "set (g k) = {i. i < length ops \<and> key_of ops i = k}" "distinct (g k)" for k using g [of k] by (auto simp: op_order_def)
  define P where "P i = p (key_of ops i) i" for i
  define ks where "ks = remdups (map (key_of ops) [0..<length ops])"
  define G where "G = sort_key P (concat (map g ks))"
  have pk: "map P (g k) = map (p k) (g k)" for k using sg by (auto simp: P_def)
  have "filter (\<lambda>i. key_of ops i = k) (concat (map g ks)) = (if k \<in> set ks then g k else [])" for k
    by (rule filter_concat_keys) (auto simp: ks_def sg)
  moreover have "g k = []" if "k \<notin> set ks" for k
  proof -
    have "set (g k) = {}" unfolding sg(1) using that by (auto simp: ks_def)
    then show ?thesis by simp
  qed
  ultimately have "filter (\<lambda>i. key_of ops i = k) (concat (map g ks)) = g k" for k by simp
  then have fk: "filter (\<lambda>i. key_of ops i = k) G = g k" for k
    using sort_key_id_if_sorted [of P "g k"] p(2) [of k] unfolding G_def filter_sort pk by simp
  have "legal KvMap_Step (\<lambda>_. KvModel_Init) (map (\<lambda>i. (op_Input (ops ! i), op_Output (ops ! i))) G)"
    unfolding legal_map filter_map o_def using g by (simp add: fk op_order_def)
  moreover have "distinct (concat (map g ks))" by (rule distinct_concat_keys [of _ _ "key_of ops"]) (auto simp: ks_def sg)
  then have "distinct G" by (simp add: G_def)
  moreover have sG: "set G = {..<length ops}" unfolding G_def ks_def by (auto simp: sg)
  moreover have "sorted_wrt (\<lambda>i j. P i \<le> P j) G" using sorted_sort_key [of P] unfolding G_def sorted_map .
  then have "sorted_wrt (\<lambda>i j. \<not> op_Return (ops ! j) < op_Call (ops ! i)) G"
  proof (rule sorted_wrt_mono_rel [rotated])
    fix i j assume ij: "i \<in> set G" "j \<in> set G" "P i \<le> P j"
    then show "\<not> op_Return (ops ! j) < op_Call (ops ! i)" using p(1) [of i] p(1) [of j] sG unfolding P_def by fastforce
  qed
  ultimately show ?thesis unfolding op_order_def by blast
qed

lemma op_linearization_by_key:
  assumes "\<forall>v\<in>set ops. op_Call v \<le> op_Return v"
  shows "(\<forall>part\<in>set (KvModel_Partition ops). \<exists>ls. op_linearization KvModel_Step KvModel_Init part ls) \<longleftrightarrow>
    (\<exists>ls. op_linearization KvMap_Step (\<lambda>_. KvModel_Init) ops ls)" (is "?L \<longleftrightarrow> ?R")
proof -
  let ?keys = "(\<lambda>v. ki_Key (op_Input v)) ` set ops"
  have "?L \<longleftrightarrow> (\<forall>k\<in>?keys. \<exists>gs. op_order KvModel_Step KvModel_Init ops {i. i < length ops \<and> key_of ops i = k} gs)"
    by (simp add: Partition_by_key op_linearization_part)
  also have "\<dots> \<longleftrightarrow> (\<forall>k. \<exists>gs. op_order KvModel_Step KvModel_Init ops {i. i < length ops \<and> key_of ops i = k} gs)"
  proof -
    have "\<exists>gs. op_order KvModel_Step KvModel_Init ops {i. i < length ops \<and> key_of ops i = k} gs" if "k \<notin> ?keys" for k
    proof -
      have "{i. i < length ops \<and> key_of ops i = k} = {}" using that by (auto simp: image_iff)
      then show ?thesis by (intro exI [of _ "[]"]) (simp add: op_order_def)
    qed
    then show ?thesis by blast
  qed
  also have "\<dots> \<longleftrightarrow> ?R"
    unfolding op_linearization_order using merge_orders [OF assms] order_of_key by blast
  finally show ?thesis .
qed

section \<open>Properties\<close>

lemma KvModel_parts:
  shows "history \<noteq> [] \<Longrightarrow> KvModel_Partition history \<noteq> []"
    and "length history < 2 ^ 62 \<Longrightarrow> \<forall>v\<in>set history. op_Call v \<le> op_Return v \<Longrightarrow> ops \<in> set (KvModel_Partition history) \<Longrightarrow>
      length ops < 2 ^ 62 \<and> (\<forall>v\<in>set ops. op_Call v \<le> op_Return v)"
proof -
  show "KvModel_Partition history \<noteq> []" if "history \<noteq> []" using that by (simp add: Partition_by_key)
  assume h: "length history < 2 ^ 62" "\<forall>v\<in>set history. op_Call v \<le> op_Return v" "ops \<in> set (KvModel_Partition history)"
  then obtain k where "ops = filter (\<lambda>v. ki_Key (op_Input v) = k) history" by (auto simp: Partition_by_key)
  then have "length ops \<le> length history" "set ops \<subseteq> set history" by auto
  then show "length ops < 2 ^ 62 \<and> (\<forall>v\<in>set ops. op_Call v \<le> op_Return v)" using h by auto
qed

text \<open>C3: The check that the tests of the key/value services rely on is right: \<^verbatim>\<open>CheckOperations\<close> with \<^verbatim>\<open>KvModel\<close> on a non-empty
  history of operations, each with a call time that is not after its return time, always comes to a result, whatever order
  the sort leaves equal entries in and in whatever order the searches of the keys end, and the result is true exactly when the
  whole history is linearizable for the key/value store, although the model only describes a single key.\<close>

theorem kv_check_decides:
  assumes "sort_Sort sortf" "history \<noteq> []" "length history < 2 ^ 62" "\<forall>v\<in>set history. op_Call v \<le> op_Return v"
  shows "\<exists>t. \<forall>turns\<ge>t. \<forall>order. mset order = mset [0..<length (KvModel_Partition history)] \<longrightarrow>
    CheckOperations sortf turns order KvModel history =
      Some (\<exists>ls. op_linearization KvMap_Step (\<lambda>_. KvModel_Init) history ls)"
proof -
  have m: "md_Equal KvModel = None" "md_Partition (fillDefault KvModel) = Some KvModel_Partition"
    by (simp_all add: KvModel_def fillDefault_def)
  note ne = KvModel_parts(1) [OF assms(2)] and pr = KvModel_parts(2) [OF assms(3,4)]
  have s: "md_Step KvModel = KvModel_Step" "md_Init KvModel = KvModel_Init" by (simp_all add: KvModel_def)
  show ?thesis using CheckOperations_result [OF assms(1) m ne pr] unfolding s op_linearization_by_key [OF assms(4)] .
qed

text \<open>A sort that satisfies the contract of \<^verbatim>\<open>sort.Sort\<close>.\<close>

definition demo_sort :: "('i, 'o) entry list \<Rightarrow> ('i, 'o) entry list" where
  "demo_sort = sort_key (\<lambda>e. 2 * en_time e + (if en_kind e then 1 else 0))"

lemma demo_sort_sorts: "sort_Sort (demo_sort :: ('i, 'o) entry list \<Rightarrow> ('i, 'o) entry list)"
proof -
  have less: "byTime_Less b a \<Longrightarrow> 2 * en_time b + (if en_kind b then 1 else 0) < 2 * en_time a + (if en_kind a then 1 else 0)"
    for a b :: "('i, 'o) entry" by (auto simp: byTime_Less_def split: if_splits)
  have "sorted_wrt (\<lambda>a b. \<not> byTime_Less b a) (demo_sort es)" for es :: "('i, 'o) entry list"
  proof -
    have "sorted_wrt (\<lambda>a b. 2 * en_time a + (if en_kind a then 1 else 0) \<le> 2 * en_time b + (if en_kind b then 1 else 0)) (demo_sort es)"
      using sorted_sort_key [of "\<lambda>e. 2 * en_time e + (if en_kind e then 1 else 0)" es] unfolding demo_sort_def sorted_map .
    then show ?thesis by (rule sorted_wrt_mono_rel [rotated]) (use less in \<open>fastforce\<close>)
  qed
  then show ?thesis by (simp add: sort_Sort_def demo_sort_def)
qed

definition demo_ops :: "kv_operation list" where
  "demo_ops =
     [\<lparr>op_ClientId = 0, op_Input = \<lparr>ki_Op = 1, ki_Key = ''x'', ki_Value = ''a''\<rparr>, op_Call = 0, op_Output = \<lparr>ko_Value = ''''\<rparr>, op_Return = 5\<rparr>,
      \<lparr>op_ClientId = 1, op_Input = \<lparr>ki_Op = 0, ki_Key = ''x'', ki_Value = ''''\<rparr>, op_Call = 1, op_Output = \<lparr>ko_Value = ''''\<rparr>, op_Return = 2\<rparr>,
      \<lparr>op_ClientId = 1, op_Input = \<lparr>ki_Op = 0, ki_Key = ''y'', ki_Value = ''''\<rparr>, op_Call = 3, op_Output = \<lparr>ko_Value = ''''\<rparr>, op_Return = 4\<rparr>]"

theorem kv_check_decides_witness:
  "op_linearization KvMap_Step (\<lambda>_. KvModel_Init) demo_ops [1, 0, 2] \<and>
   (\<exists>t. \<forall>turns\<ge>t. CheckOperations demo_sort turns [1, 0] KvModel demo_ops = Some True)"
proof -
  have l: "op_linearization KvMap_Step (\<lambda>_. KvModel_Init) demo_ops [1, 0, 2]"
    by (auto simp: op_linearization_def demo_ops_def KvMap_Step_def KvModel_Step_def KvModel_Init_def)
  have "length (KvModel_Partition demo_ops) = 2" by code_simp
  then have m: "mset [1, 0] = mset [0..<length (KvModel_Partition demo_ops)]" by (simp add: upt_rec)
  have "demo_ops \<noteq> []" "length demo_ops < 2 ^ 62" "\<forall>v\<in>set demo_ops. op_Call v \<le> op_Return v" by (simp_all add: demo_ops_def)
  note d = kv_check_decides [OF demo_sort_sorts this]
  have "(\<exists>ls. op_linearization KvMap_Step (\<lambda>_. KvModel_Init) demo_ops ls) = True" using l by blast
  then show ?thesis using d m l by metis
qed

text \<open>On an empty history \<^verbatim>\<open>CheckOperations\<close> with \<^verbatim>\<open>KvModel\<close> never returns: the history has no parts, the loop of
  \<^verbatim>\<open>checkParallel\<close> tests the number of results only after one has arrived, and none ever does.  With a timeout the
  check ends as undecided.\<close>

theorem empty_check_blocks:
  "operationParts sortf KvModel [] = Some [] \<and> CheckOperations sortf turns [] KvModel [] = None \<and>
   checkParallel iter info 0 [] [] = None \<and> checkParallel iter info 0 [None] [] = Some (Unknown, [])"
proof -
  have "md_Partition (fillDefault KvModel) = Some KvModel_Partition" by (simp add: KvModel_def fillDefault_def)
  then have p: "operationParts sortf KvModel [] = Some []" by (simp add: operationParts_def Partition_by_key)
  then show ?thesis by (auto simp: CheckOperations_def runParts_def checkParallel_def)
qed

end
