(* ===== verification/Porcu_Visual.thy ===== *)
theory Porcu_Visual
  imports Porcu_Local
begin

text \<open>
  The verbose entry points of the checker and the data that is shown of a checked history: \<^verbatim>\<open>src/src/porcupine/porcupine.go\<close>
  and \<^verbatim>\<open>visualization.go\<close>.

  The functions that describe operations and states, \<^verbatim>\<open>sort.Slice\<close>, \<^verbatim>\<open>json.Marshal\<close> and the output are arguments.  A Go map with
  values of an interface type is a function that gives \<open>VNil\<close> where there is no key.  \<open>None\<close> is a panic.  The theory shows
  that the partial linearizations that the search records are what their name says, so that the panic of
  \<^verbatim>\<open>computeVisualizationData\<close> is never reached.
\<close>

section \<open>Verbose checks\<close>

record ('i, 'o) linearizationInfo =
  li_history :: "('i, 'o) entry list list"
  li_partials :: "int list list list"

text \<open>The searches of the partitions, each with its readings of \<^verbatim>\<open>kill\<close>.\<close>

definition verboseSearches :: "('i, 'o, 's) Model \<Rightarrow> bool list list \<Rightarrow> ('i, 'o) entry list list \<Rightarrow>
    (bool \<times> nat option list \<times> int list list) list option" where
  "verboseSearches model kills parts = do {
     equal \<leftarrow> md_Equal (fillDefault model);
     those (map (\<lambda>(part, ks). do {
       r \<leftarrow> checkSingle (md_Init model) (md_Step model) equal part True ks;
       r
     }) (zip parts kills))
   }"

text \<open>\<open>order\<close> is the order of the arrivals: the number of a partition whose search has ended, or \<open>None\<close> for the timer.\<close>

definition parallelVerbose :: "(nat list \<Rightarrow> nat list) \<Rightarrow> bool list list \<Rightarrow> nat option list \<Rightarrow> ('i, 'o, 's) Model \<Rightarrow>
    ('i, 'o) entry list list \<Rightarrow> (CheckResult \<times> ('i, 'o) linearizationInfo) option" where
  "parallelVerbose iter kills order model parts = do {
     rs \<leftarrow> verboseSearches model kills parts;
     (res, lins) \<leftarrow> checkParallel iter True (length parts) (map (map_option (\<lambda>i. fst (rs ! i))) order) (map snd rs);
     Some (res, \<lparr>li_history = parts, li_partials = lins\<rparr>)
   }"

definition CheckOperationsVerbose :: "(('i, 'o) entry list \<Rightarrow> ('i, 'o) entry list) \<Rightarrow> (nat list \<Rightarrow> nat list) \<Rightarrow> bool list list \<Rightarrow>
    nat option list \<Rightarrow> ('i, 'o, 's) Model \<Rightarrow> ('i, 'o) Operation list \<Rightarrow> (CheckResult \<times> ('i, 'o) linearizationInfo) option" where
  "CheckOperationsVerbose sortf iter kills order model history = do {
     parts \<leftarrow> operationParts sortf model history;
     parallelVerbose iter kills order model parts
   }"

definition CheckEventsVerbose :: "(nat list \<Rightarrow> nat list) \<Rightarrow> bool list list \<Rightarrow> nat option list \<Rightarrow> ('i, 'o, 's) Model \<Rightarrow>
    ('i, 'o) Event list \<Rightarrow> (CheckResult \<times> ('i, 'o) linearizationInfo) option" where
  "CheckEventsVerbose iter kills order model history = do {
     parts \<leftarrow> eventParts model history;
     parallelVerbose iter kills order model parts
   }"

section \<open>The data that is shown\<close>

record historyElement =
  he_ClientId :: int
  he_Start :: int
  he_End :: int
  he_Description :: string

record linearizationStep =
  ls_Index :: int
  ls_StateDescription :: string

record partitionVisualizationData =
  pv_History :: "historyElement list"
  pv_PartialLinearizations :: "linearizationStep list list"
  pv_Largest :: "int \<rightharpoonup> nat"

type_synonym ('i, 'o) val_map = "int \<Rightarrow> ('i, 'o) val"

fun historyLoop :: "(('i, 'o) val \<Rightarrow> ('i, 'o) val \<Rightarrow> string option) \<Rightarrow> ('i, 'o) entry list \<Rightarrow>
    historyElement list \<times> ('i, 'o) val_map \<times> ('i, 'o) val_map \<Rightarrow> (historyElement list \<times> ('i, 'o) val_map \<times> ('i, 'o) val_map) option" where
  "historyLoop describeOp [] acc = Some acc"
| "historyLoop describeOp (elem # rest) (history, callValue, returnValue) = do {
     he \<leftarrow> go_index history (en_id elem);
     if \<not> en_kind elem then do {
       history1 \<leftarrow> go_store history (en_id elem) (he\<lparr>he_ClientId := en_clientId elem, he_Start := en_time elem\<rparr>);
       historyLoop describeOp rest (history1, callValue(en_id elem := en_value elem), returnValue)
     } else do {
       description \<leftarrow> describeOp (callValue (en_id elem)) (en_value elem);
       history1 \<leftarrow> go_store history (en_id elem) (he\<lparr>he_End := en_time elem, he_Description := description\<rparr>);
       historyLoop describeOp rest (history1, callValue, returnValue(en_id elem := en_value elem))
     }
   }"

text \<open>The inner loop over one partial linearization, the \<open>i\<close>-th, of length \<open>len\<close>.\<close>

fun partialLoop :: "('s \<Rightarrow> 'i \<Rightarrow> 'o \<Rightarrow> bool \<times> 's) \<Rightarrow> ('s \<Rightarrow> string) \<Rightarrow> ('i, 'o) val_map \<Rightarrow> ('i, 'o) val_map \<Rightarrow> nat \<Rightarrow> nat \<Rightarrow> int list \<Rightarrow> 's \<Rightarrow>
    (int \<Rightarrow> nat) \<times> (int \<rightharpoonup> nat) \<Rightarrow> (linearizationStep list \<times> (int \<Rightarrow> nat) \<times> (int \<rightharpoonup> nat)) option" where
  "partialLoop step describeState callValue returnValue i len [] st largest = Some ([], largest)"
| "partialLoop step describeState callValue returnValue i len (histId # rest) st (largestSize, largestIndex) =
     (case (callValue histId, returnValue histId) of
        (VIn inp, VOut out) \<Rightarrow>
          (let (ok, st1) = step st inp out in
           if \<not> ok then None
           else do {
             let largest = (if largestSize histId < len then (largestSize(histId := len), largestIndex(histId \<mapsto> i))
                            else (largestSize, largestIndex));
             (steps, largest1) \<leftarrow> partialLoop step describeState callValue returnValue i len rest st1 largest;
             Some (\<lparr>ls_Index = histId, ls_StateDescription = describeState st1\<rparr> # steps, largest1)
           })
      | _ \<Rightarrow> None)"

fun partialsLoop :: "('s \<Rightarrow> 'i \<Rightarrow> 'o \<Rightarrow> bool \<times> 's) \<Rightarrow> ('s \<Rightarrow> string) \<Rightarrow> ('i, 'o) val_map \<Rightarrow> ('i, 'o) val_map \<Rightarrow> 's \<Rightarrow> nat \<Rightarrow> int list list \<Rightarrow>
    (int \<Rightarrow> nat) \<times> (int \<rightharpoonup> nat) \<Rightarrow> (linearizationStep list list \<times> (int \<Rightarrow> nat) \<times> (int \<rightharpoonup> nat)) option" where
  "partialsLoop step describeState callValue returnValue init i [] largest = Some ([], largest)"
| "partialsLoop step describeState callValue returnValue init i (partial # rest) largest = do {
     (linearization, largest1) \<leftarrow> partialLoop step describeState callValue returnValue i (length partial) partial init largest;
     (linearizations, largest2) \<leftarrow> partialsLoop step describeState callValue returnValue init (i + 1) rest largest1;
     Some (linearization # linearizations, largest2)
   }"

text \<open>One partition.  \<^verbatim>\<open>sort.Slice\<close> works in place, so the sorted list is also what the argument \<^verbatim>\<open>info\<close> holds afterwards.\<close>

definition partitionData :: "(int list list \<Rightarrow> int list list) \<Rightarrow> (('i, 'o) val \<Rightarrow> ('i, 'o) val \<Rightarrow> string option) \<Rightarrow> ('s \<Rightarrow> string) \<Rightarrow>
    ('i, 'o, 's) Model \<Rightarrow> ('i, 'o) entry list \<Rightarrow> int list list \<Rightarrow> (partitionVisualizationData \<times> int list list) option" where
  "partitionData sortSlice describeOp describeState model entries lins = do {
     let n = length entries div 2;
     (history, callValue, returnValue) \<leftarrow> historyLoop describeOp entries
       (replicate n \<lparr>he_ClientId = 0, he_Start = 0, he_End = 0, he_Description = ''''\<rparr>, (\<lambda>_. VNil), (\<lambda>_. VNil));
     let sorted = sortSlice lins;
     (linearizations, largestSize, largestIndex) \<leftarrow>
       partialsLoop (md_Step model) describeState callValue returnValue (md_Init model) 0 sorted ((\<lambda>_. 0), Map.empty);
     Some (\<lparr>pv_History = history, pv_PartialLinearizations = linearizations, pv_Largest = largestIndex\<rparr>, sorted)
   }"

definition computeVisualizationData :: "(int list list \<Rightarrow> int list list) \<Rightarrow> (('i, 'o) val \<Rightarrow> ('i, 'o) val \<Rightarrow> string option) \<Rightarrow> ('s \<Rightarrow> string) \<Rightarrow>
    ('i, 'o, 's) Model \<Rightarrow> ('i, 'o) linearizationInfo \<Rightarrow> (partitionVisualizationData list \<times> ('i, 'o) linearizationInfo) option" where
  "computeVisualizationData sortSlice describeOp describeState model info = do {
     ps \<leftarrow> those (map (\<lambda>partition. do {
       lins \<leftarrow> go_index (li_partials info) (int partition);
       partitionData sortSlice describeOp describeState (fillDefault model) (li_history info ! partition) lins
     }) [0..<length (li_history info)]);
     Some (map fst ps, info\<lparr>li_partials := map snd ps @ drop (length ps) (li_partials info)\<rparr>)
   }"

text \<open>The page: \<open>marshal\<close> and \<open>fprintf\<close> give an error or go on; \<open>create\<close> opens the file.  A panic is \<open>None\<close>.\<close>

definition Visualize :: "(int list list \<Rightarrow> int list list) \<Rightarrow> (('i, 'o) val \<Rightarrow> ('i, 'o) val \<Rightarrow> string option) \<Rightarrow> ('s \<Rightarrow> string) \<Rightarrow>
    (partitionVisualizationData list \<Rightarrow> 'e + string) \<Rightarrow> (string \<Rightarrow> 'f \<Rightarrow> 'e option \<times> 'f) \<Rightarrow>
    ('i, 'o, 's) Model \<Rightarrow> ('i, 'o) linearizationInfo \<Rightarrow> 'f \<Rightarrow> ('e option \<times> 'f) option" where
  "Visualize sortSlice describeOp describeState marshal fprintf model info output = do {
     (vis, _) \<leftarrow> computeVisualizationData sortSlice describeOp describeState model info;
     Some (case marshal vis of
        Inl err \<Rightarrow> (Some err, output)
      | Inr jsonData \<Rightarrow> fprintf jsonData output)
   }"

definition VisualizePath :: "(string \<Rightarrow> 'e + 'f) \<Rightarrow> (int list list \<Rightarrow> int list list) \<Rightarrow> (('i, 'o) val \<Rightarrow> ('i, 'o) val \<Rightarrow> string option) \<Rightarrow>
    ('s \<Rightarrow> string) \<Rightarrow> (partitionVisualizationData list \<Rightarrow> 'e + string) \<Rightarrow> (string \<Rightarrow> 'f \<Rightarrow> 'e option \<times> 'f) \<Rightarrow>
    ('i, 'o, 's) Model \<Rightarrow> ('i, 'o) linearizationInfo \<Rightarrow> string \<Rightarrow> ('e option \<times> 'f option) option" where
  "VisualizePath create sortSlice describeOp describeState marshal fprintf model info path =
     (case create path of
        Inl err \<Rightarrow> Some (Some err, None)
      | Inr f \<Rightarrow> do {
          (err, f1) \<leftarrow> Visualize sortSlice describeOp describeState marshal fprintf model info f;
          Some (err, Some f1)
        })"

text \<open>How the model of the key/value services describes its operations, \<^verbatim>\<open>src/src/models/kv.go\<close>; a value of another type panics.\<close>

fun KvModel_DescribeOperation :: "(KvInput, KvOutput) val \<Rightarrow> (KvInput, KvOutput) val \<Rightarrow> string option" where
  "KvModel_DescribeOperation (VIn inp) (VOut out) = Some (
     if ki_Op inp = 0 then ''get('' @ [CHR 0x27] @ ki_Key inp @ [CHR 0x27] @ '') -> '' @ [CHR 0x27] @ ko_Value out @ [CHR 0x27]
     else if ki_Op inp = 1 then ''put('' @ [CHR 0x27] @ ki_Key inp @ [CHR 0x27] @ '', '' @ [CHR 0x27] @ ki_Value inp @ [CHR 0x27] @ '')''
     else if ki_Op inp = 2 then ''append('' @ [CHR 0x27] @ ki_Key inp @ [CHR 0x27] @ '', '' @ [CHR 0x27] @ ki_Value inp @ [CHR 0x27] @ '')''
     else ''<invalid>'')"
| "KvModel_DescribeOperation _ _ = None"


section \<open>The sequences that the search records\<close>

definition partial_lin :: "('i, 'o) entry list \<Rightarrow> ('s \<Rightarrow> 'i \<Rightarrow> 'o \<Rightarrow> bool \<times> 's) \<Rightarrow> 's \<Rightarrow> nat list \<Rightarrow> bool" where
  "partial_lin E step init ls \<longleftrightarrow> distinct ls \<and> set ls \<subseteq> {..<length E div 2} \<and> sorted_wrt (\<lambda>i j. \<not> precedes E j i) ls \<and>
     (\<forall>i\<in>set ls. \<forall>j. j \<notin> set ls \<longrightarrow> \<not> precedes E j i) \<and> runOps E step init ls \<noteq> None"

definition is_partial :: "('i, 'o) entry list \<Rightarrow> ('s \<Rightarrow> 'i \<Rightarrow> 'o \<Rightarrow> bool \<times> 's) \<Rightarrow> 's \<Rightarrow> int list \<Rightarrow> bool" where
  "is_partial E step init sq \<longleftrightarrow> (\<exists>ls. sq = map int ls \<and> partial_lin E step init ls)"

definition seqs_ok :: "(int list \<Rightarrow> bool) \<Rightarrow> nat option list \<Rightarrow> int list list \<Rightarrow> bool" where
  "seqs_ok P longest seqs \<longleftrightarrow> (\<forall>q. Some q \<in> set longest \<longrightarrow> q < length seqs) \<and> list_all P seqs"

lemma seqs_ok_store: "seqs_ok P longest seqs \<Longrightarrow> q < length seqs \<Longrightarrow> seqs_ok P (longest[k := Some q]) seqs"
  unfolding seqs_ok_def using set_update_subset_insert [of longest k "Some q"] by blast

lemma seqs_ok_more: "seqs_ok P longest seqs \<Longrightarrow> P sq \<Longrightarrow> seqs_ok P longest (seqs @ [sq])"
  unfolding seqs_ok_def by (auto simp: less_Suc_eq)

lemma longestLoop_seqs:
  assumes "longestLoop h calls vs sq (longest, seqs) = Some (longest', seqs')" "seqs_ok P longest seqs"
    "P (map (\<lambda>(a, _). nd_id (h ! a)) calls)" "\<forall>q. sq = Some q \<longrightarrow> q < length seqs"
  shows "seqs_ok P longest' seqs'"
  using assms(1,2,4)
proof (induction vs arbitrary: sq longest seqs)
  case (Cons v vs)
  obtain cur where cur: "go_index longest (nd_id (h ! fst v)) = Some cur" using Cons.prems(1) by (auto simp: Let_def bind_eq_Some_conv)
  show ?case
  proof (cases "case cur of None \<Rightarrow> True | Some q \<Rightarrow> length (seqs ! q) < length calls")
    case False
    then show ?thesis using Cons.IH [of sq longest seqs] Cons.prems cur by (simp add: Let_def)
  next
    case True
    define r where "r = (case sq of Some q \<Rightarrow> (q, seqs) | None \<Rightarrow> (length seqs, seqs @ [map (\<lambda>(a, _). nd_id (h ! a)) calls]))"
    have r: "seqs_ok P longest (snd r)" "fst r < length (snd r)"
      using Cons.prems(2,3) assms(3) seqs_ok_more by (auto simp: r_def split: option.splits)
    have "longestLoop h calls vs (Some (fst r)) (longest[nat (nd_id (h ! fst v)) := Some (fst r)], snd r) = Some (longest', seqs')"
      using Cons.prems(1) cur True by (auto simp: Let_def r_def split_beta bind_eq_Some_conv go_store_eq_Some)
    then show ?thesis using Cons.IH seqs_ok_store [OF r] r(2) by blast
  qed
qed simp

lemma stack_partial:
  assumes s: "sinv R step h0 init s" and ok: "history_ok (rev R)" "heap_ok R {} h0"
  shows "is_partial (rev R) step init (map (\<lambda>(a, _). nd_id (se_heap s ! a)) (se_calls s))"
proof -
  note h = sinvD(1) [OF s ok] and tr = sinvD(2) [OF s ok]
  have "map (\<lambda>(a, _). nd_id (se_heap s ! a)) (se_calls s) = map int (ids R (se_calls s))"
    using tr heap_okD(2) [OF h] ok_rid [OF ok(1)] by (auto simp: ids_def trail_ok_def)
  moreover have "partial_lin (rev R) step init (ids R (se_calls s))"
    using tr sinvD(3) [OF s ok] by (simp add: partial_lin_def trail_ok_def)
  ultimately show ?thesis unfolding is_partial_def by blast
qed

lemma checkIter_seqs:
  assumes "sinv R step h0 init s" "history_ok (rev R)" "heap_ok R {} h0"
    and "checkIter step equal cp he s = Some (Some s1)" "seqs_ok (is_partial (rev R) step init) (se_longest s) (se_seqs s)"
  shows "seqs_ok (is_partial (rev R) step init) (se_longest s1) (se_seqs s1)"
proof -
  obtain c where c: "se_entry s = Some c" using assms(4) by (auto simp: checkIter_def bind_eq_Some_conv)
  show ?thesis
  proof (cases "nd_match (se_heap s ! c)")
    case (Some m)
    have "se_longest s1 = se_longest s \<and> se_seqs s1 = se_seqs s"
      using assms(4) c Some
      by (auto simp: checkIter_def Let_def bind_eq_Some_conv split: val.splits if_splits prod.splits)
    then show ?thesis using assms(5) by simp
  next
    case None
    obtain e st where "last (se_calls s) = (e, st)" by fastforce
    then obtain longest seqs where l: "(if cp then longestLoop (se_heap s) (se_calls s) (se_calls s) None (se_longest s, se_seqs s)
        else Some (se_longest s, se_seqs s)) = Some (longest, seqs)" "se_longest s1 = longest" "se_seqs s1 = seqs"
      using assms(4) c None
      by (auto simp: checkIter_def Let_def bind_eq_Some_conv split: if_splits prod.splits)
    show ?thesis
    proof (cases cp)
      case True
      then show ?thesis using longestLoop_seqs [OF _ assms(5) stack_partial [OF assms(1-3)], of _ None] l by simp
    qed (use l assms(5) in simp)
  qed
qed

lemma checkLoop_seqs:
  assumes ok: "history_ok (rev R)" "heap_ok R {} h0" and "sinv R step h0 init s"
    and "checkLoop step ShallowEqual cp (length R) kills s = Some (Some (b, s1))"
    and "seqs_ok (is_partial (rev R) step init) (se_longest s) (se_seqs s)"
  shows "seqs_ok (is_partial (rev R) step init) (se_longest s1) (se_seqs s1) \<and> sinv R step h0 init s1"
  using assms(3-5)
proof (induction kills arbitrary: s)
  case Nil
  then show ?case by (auto simp: checkLoop.simps [of _ _ _ _ _ s] split: if_splits)
next
  case (Cons k ks)
  show ?case
  proof (cases "nd_next (se_heap s ! length R) = None \<or> k \<or> checkIter step ShallowEqual cp (length R) s = Some None")
    case True
    then show ?thesis using Cons.prems by (auto simp: checkLoop.simps [of _ _ _ _ _ s] split: if_splits)
  next
    case False
    obtain s2 where s2: "checkIter step ShallowEqual cp (length R) s = Some (Some s2)" "sinv R step h0 init s2"
      using checkIter_turn [OF Cons.prems(1) ok, of cp] False unfolding turn_ok_def by auto
    have "checkLoop step ShallowEqual cp (length R) ks s2 = Some (Some (b, s1))"
      using Cons.prems(2) False s2(1) by (auto simp: checkLoop.simps [of _ _ _ _ _ s])
    then show ?thesis using Cons.IH [OF s2(2)] checkIter_seqs [OF Cons.prems(1) ok s2(1) Cons.prems(3)] by blast
  qed
qed

text \<open>Whatever ends the search, every sequence it has recorded is a partial linearization.\<close>

lemma checkSingle_partials:
  assumes "history_ok E" "checkSingle init step ShallowEqual E cp kills = Some (Some (b, longest, seqs))"
  shows "seqs_ok (is_partial E step init) longest seqs"
proof -
  obtain h s where h: "startSearch init E = (s, length E, length E div 2)" "heap_ok (rev E) {} h" "sinv (rev E) step h init s"
    using sinv_start [of init E] by blast
  have l: "length (se_longest s) = length E div 2" using h(3) by (simp add: sinv_def)
  have ok: "history_ok (rev (rev E))" using assms(1) by simp
  have "se_longest s = replicate (length E div 2) None" "se_seqs s = []"
    using h(1) by (auto simp: startSearch_def Let_def split: prod.splits)
  then have i: "seqs_ok (is_partial (rev (rev E)) step init) (se_longest s) (se_seqs s)" by (simp add: seqs_ok_def)
  obtain s1 where s1: "checkLoop step ShallowEqual cp (length E) kills s = Some (Some (b, s1))"
      "(longest, seqs) = (if b then (replicate (length E div 2) (Some (length (se_seqs s1))),
          se_seqs s1 @ [map (\<lambda>(a, _). nd_id (se_heap s1 ! a)) (se_calls s1)]) else (se_longest s1, se_seqs s1))"
    using assms(2) h(1) by (auto simp: checkSingle_def bind_eq_Some_conv split: if_splits)
  have r: "seqs_ok (is_partial E step init) (se_longest s1) (se_seqs s1)" "sinv (rev E) step h init s1"
    using checkLoop_seqs [OF ok h(2,3) _ i, of cp kills b s1] s1(1) by simp_all
  show ?thesis using r(1) stack_partial [OF r(2) ok h(2)] s1(2) by (cases b) (auto simp: seqs_ok_def)
qed

section \<open>What is shown\<close>

text \<open>The entry of an operation in the history that is shown, and the values kept for it, after the entries \<open>pre\<close> have been read.\<close>

definition shown :: "(('i, 'o) val \<Rightarrow> ('i, 'o) val \<Rightarrow> string option) \<Rightarrow> ('i, 'o) Operation list \<Rightarrow> ('i, 'o) entry list \<Rightarrow> nat \<Rightarrow> historyElement" where
  "shown describeOp ops pre i =
     \<lparr>he_ClientId = (if callE i (ops ! i) \<in> set pre then op_ClientId (ops ! i) else 0),
      he_Start = (if callE i (ops ! i) \<in> set pre then op_Call (ops ! i) else 0),
      he_End = (if retE i (ops ! i) \<in> set pre then op_Return (ops ! i) else 0),
      he_Description = (if retE i (ops ! i) \<in> set pre
        then the (describeOp (VIn (op_Input (ops ! i))) (VOut (op_Output (ops ! i)))) else '''')\<rparr>"

definition read_values :: "('i, 'o) Operation list \<Rightarrow> ('i, 'o) entry list \<Rightarrow> ('i, 'o) val_map \<Rightarrow> ('i, 'o) val_map \<Rightarrow> bool" where
  "read_values ops pre callValue returnValue \<longleftrightarrow> (\<forall>i<length ops.
     (callE i (ops ! i) \<in> set pre \<longrightarrow> callValue (int i) = VIn (op_Input (ops ! i))) \<and>
     (retE i (ops ! i) \<in> set pre \<longrightarrow> returnValue (int i) = VOut (op_Output (ops ! i))))"

text \<open>A list of the entries of \<open>ops\<close> in which no operation returns before it is called.\<close>

definition entries_of :: "('i, 'o) Operation list \<Rightarrow> ('i, 'o) entry list \<Rightarrow> bool" where
  "entries_of ops E \<longleftrightarrow> (\<forall>e\<in>set E. \<exists>i<length ops. e = callE i (ops ! i) \<or> e = retE i (ops ! i)) \<and>
     (\<forall>pre rest i. E = pre @ retE i (ops ! i) # rest \<longrightarrow> callE i (ops ! i) \<in> set pre)"

lemma callE_ne_retE [simp]: "callE i v \<noteq> retE j w" "retE j w \<noteq> callE i v"
  by (metis entryE_simps(1,5))+

lemma entryE_eq: "callE i v = callE j w \<Longrightarrow> i = j" "retE i v = retE j w \<Longrightarrow> i = j"
  by (metis entryE_simps(3) of_nat_eq_iff) (metis entryE_simps(7) of_nat_eq_iff)

lemma entryE_client [simp]: "en_clientId (callE i v) = op_ClientId v" "en_clientId (retE i v) = op_ClientId v"
  by (simp_all add: callE_def retE_def)

lemma shown_call:
  assumes "i < length ops"
  shows "map (shown describeOp ops (pre @ [callE i (ops ! i)])) [0..<length ops] =
    (map (shown describeOp ops pre) [0..<length ops])[i := (shown describeOp ops pre i)\<lparr>he_ClientId := op_ClientId (ops ! i), he_Start := op_Call (ops ! i)\<rparr>]"
  by (rule nth_equalityI) (use assms in \<open>auto simp: nth_list_update shown_def dest: entryE_eq\<close>)

lemma shown_return:
  assumes "i < length ops" "describeOp (VIn (op_Input (ops ! i))) (VOut (op_Output (ops ! i))) = Some d"
  shows "map (shown describeOp ops (pre @ [retE i (ops ! i)])) [0..<length ops] =
    (map (shown describeOp ops pre) [0..<length ops])[i := (shown describeOp ops pre i)\<lparr>he_End := op_Return (ops ! i), he_Description := d\<rparr>]"
  by (rule nth_equalityI) (use assms in \<open>auto simp: nth_list_update shown_def dest: entryE_eq\<close>)

lemma historyLoop_run:
  assumes "entries_of ops (pre @ rest)" and d: "\<And>i o'. describeOp (VIn i) (VOut o') \<noteq> None"
    and "read_values ops pre callValue returnValue"
  shows "\<exists>cv rv. historyLoop describeOp rest (map (shown describeOp ops pre) [0..<length ops], callValue, returnValue) =
      Some (map (shown describeOp ops (pre @ rest)) [0..<length ops], cv, rv) \<and> read_values ops (pre @ rest) cv rv"
  using assms(1,3)
proof (induction rest arbitrary: pre callValue returnValue)
  case (Cons e rest)
  obtain i where i: "i < length ops" "e = callE i (ops ! i) \<or> e = retE i (ops ! i)" using Cons.prems(1) by (auto simp: entries_of_def)
  have E: "entries_of ops ((pre @ [e]) @ rest)" using Cons.prems(1) by simp
  from i(2) show ?case
  proof
    assume e: "e = callE i (ops ! i)"
    have "read_values ops (pre @ [e]) (callValue(int i := VIn (op_Input (ops ! i)))) returnValue"
      using Cons.prems(2) e by (auto simp: read_values_def dest: entryE_eq)
    then show ?thesis using Cons.IH [OF E] i(1) e shown_call [OF i(1), of describeOp pre] by simp
  next
    assume e: "e = retE i (ops ! i)"
    then have "callE i (ops ! i) \<in> set pre" using Cons.prems(1) unfolding entries_of_def by blast
    then have c: "callValue (int i) = VIn (op_Input (ops ! i))" using Cons.prems(2) i(1) by (simp add: read_values_def)
    obtain ds where ds: "describeOp (VIn (op_Input (ops ! i))) (VOut (op_Output (ops ! i))) = Some ds" using d by blast
    have "read_values ops (pre @ [e]) callValue (returnValue(int i := VOut (op_Output (ops ! i))))"
      using Cons.prems(2) e by (auto simp: read_values_def dest: entryE_eq)
    then show ?thesis using Cons.IH [OF E] i(1) e ds c shown_return [of i ops describeOp ds pre, OF i(1) ds] by simp
  qed
qed auto

lemma makeEntries_entries:
  assumes "sort_Sort sortf" "\<forall>v\<in>set ops. op_Call v \<le> op_Return v" "length ops < 2 ^ 62"
  shows "entries_of ops (makeEntries sortf ops)"
proof -
  let ?E = "makeEntries sortf ops"
  note f = makeEntries_facts [where ops = ops, OF assms(1)] and ok = makeEntries_ok [OF assms]
  have "callE i (ops ! i) \<in> set pre" if E: "?E = pre @ retE i (ops ! i) # rest" for pre rest i
  proof -
    have "retE i (ops ! i) \<in> set ?E" using E by simp
    then have "i < length ops" unfolding f(2) by (auto dest: entryE_eq)
    then have "callE i (ops ! i) \<in> set (pre @ retE i (ops ! i) # rest)" unfolding E [symmetric] f(2) by blast
    moreover have "callE i (ops ! i) \<notin> set rest" using ok unfolding history_ok_def E by (auto simp: sorted_wrt_append)
    ultimately show ?thesis by simp
  qed
  moreover have "\<forall>e\<in>set ?E. \<exists>i<length ops. e = callE i (ops ! i) \<or> e = retE i (ops ! i)" using f(2) by blast
  ultimately show ?thesis unfolding entries_of_def by blast
qed

text \<open>The states that a list of operations goes through, and the steps that are shown of it.\<close>

fun states :: "('s \<Rightarrow> 'i \<Rightarrow> 'o \<Rightarrow> bool \<times> 's) \<Rightarrow> 's \<Rightarrow> ('i \<times> 'o) list \<Rightarrow> 's list" where
  "states step st [] = []"
| "states step st (x # xs) = (let st1 = snd (step st (fst x) (snd x)) in st1 # states step st1 xs)"

definition op_pairs :: "('i, 'o) Operation list \<Rightarrow> nat list \<Rightarrow> ('i \<times> 'o) list" where
  "op_pairs ops ls = map (\<lambda>i. (op_Input (ops ! i), op_Output (ops ! i))) ls"

definition steps_of :: "('s \<Rightarrow> 'i \<Rightarrow> 'o \<Rightarrow> bool \<times> 's) \<Rightarrow> ('s \<Rightarrow> string) \<Rightarrow> ('i, 'o) Operation list \<Rightarrow> 's \<Rightarrow> nat list \<Rightarrow> linearizationStep list" where
  "steps_of step describeState ops init ls =
     map2 (\<lambda>i st. \<lparr>ls_Index = int i, ls_StateDescription = describeState st\<rparr>) ls (states step init (op_pairs ops ls))"

definition raise_largest :: "nat \<Rightarrow> nat \<Rightarrow> int set \<Rightarrow> (int \<Rightarrow> nat) \<times> (int \<rightharpoonup> nat) \<Rightarrow> (int \<Rightarrow> nat) \<times> (int \<rightharpoonup> nat)" where
  "raise_largest i len H l = ((\<lambda>h. if h \<in> H \<and> fst l h < len then len else fst l h),
     (\<lambda>h. if h \<in> H \<and> fst l h < len then Some i else snd l h))"

lemma raise_largest_Cons:
  "raise_largest i len H (if sz h < len then (sz(h := len), ix(h \<mapsto> i)) else (sz, ix)) = raise_largest i len (insert h H) (sz, ix)"
  by (auto simp: raise_largest_def fun_eq_iff)

lemma partialLoop_run:
  assumes "read_values ops E cv rv" "\<forall>i<length ops. callE i (ops ! i) \<in> set E \<and> retE i (ops ! i) \<in> set E"
    "set ls \<subseteq> {..<length ops}" "legal step st (op_pairs ops ls)"
  shows "partialLoop step describeState cv rv i len (map int ls) st l =
    Some (steps_of step describeState ops st ls, raise_largest i len (int ` set ls) l)"
  using assms(3,4)
proof (induction ls arbitrary: st l)
  case Nil
  then show ?case by (cases l) (simp add: steps_of_def raise_largest_def op_pairs_def)
next
  case (Cons k ls)
  obtain sz ix where l: "l = (sz, ix)" by (cases l)
  obtain st1 where st1: "step st (op_Input (ops ! k)) (op_Output (ops ! k)) = (True, st1)" "legal step st1 (op_pairs ops ls)"
    using Cons.prems(2) by (cases "step st (op_Input (ops ! k)) (op_Output (ops ! k))") (auto simp: op_pairs_def)
  have "cv (int k) = VIn (op_Input (ops ! k))" "rv (int k) = VOut (op_Output (ops ! k))"
    using assms(1,2) Cons.prems(1) by (auto simp: read_values_def)
  then show ?case
    using Cons.IH [OF _ st1(2), of "if sz (int k) < len then (sz(int k := len), ix(int k \<mapsto> i)) else (sz, ix)"] Cons.prems(1) st1(1) l
    by (simp add: raise_largest_Cons steps_of_def op_pairs_def del: fun_upd_apply)
qed

text \<open>\<open>largest\<close> points for every operation to a longest sequence that contains it.\<close>

definition largest_at :: "int list list \<Rightarrow> int \<Rightarrow> nat \<Rightarrow> nat option \<Rightarrow> bool" where
  "largest_at sqs h sz idx \<longleftrightarrow> (case idx of
     None \<Rightarrow> sz = 0 \<and> (\<forall>sq\<in>set sqs. h \<notin> set sq)
   | Some k \<Rightarrow> k < length sqs \<and> h \<in> set (sqs ! k) \<and> sz = length (sqs ! k) \<and>
       (\<forall>sq\<in>set sqs. h \<in> set sq \<longrightarrow> length sq \<le> length (sqs ! k)))"

definition largest_ok :: "int list list \<Rightarrow> (int \<Rightarrow> nat) \<times> (int \<rightharpoonup> nat) \<Rightarrow> bool" where
  "largest_ok sqs l \<longleftrightarrow> (\<forall>h. largest_at sqs h (fst l h) (snd l h))"

lemma largest_at_snoc:
  assumes "largest_at sqs h sz idx"
  shows "h \<in> set sq \<and> sz < length sq \<Longrightarrow> largest_at (sqs @ [sq]) h (length sq) (Some (length sqs))"
    "\<not> (h \<in> set sq \<and> sz < length sq) \<Longrightarrow> largest_at (sqs @ [sq]) h sz idx"
proof -
  show "largest_at (sqs @ [sq]) h (length sq) (Some (length sqs))" if "h \<in> set sq \<and> sz < length sq"
    using assms that unfolding largest_at_def by (auto split: option.splits)
  show "largest_at (sqs @ [sq]) h sz idx" if "\<not> (h \<in> set sq \<and> sz < length sq)"
    using assms that unfolding largest_at_def by (auto simp: nth_append split: option.splits)
qed

lemma largest_ok_snoc:
  assumes "largest_ok sqs l"
  shows "largest_ok (sqs @ [sq]) (raise_largest (length sqs) (length sq) (set sq) l)"
proof -
  have "largest_at sqs h (fst l h) (snd l h)" for h using assms by (simp add: largest_ok_def)
  note at = largest_at_snoc [OF this]
  have "largest_at (sqs @ [sq]) h (if h \<in> set sq \<and> fst l h < length sq then length sq else fst l h)
      (if h \<in> set sq \<and> fst l h < length sq then Some (length sqs) else snd l h)" for h
    using at(1) [of h sq] at(2) [of h sq] by (cases "h \<in> set sq \<and> fst l h < length sq") (simp_all only: if_True if_False simp_thms)
  then show ?thesis unfolding largest_ok_def raise_largest_def fst_conv snd_conv by (rule allI)
qed

lemma partialsLoop_run:
  assumes "read_values ops E cv rv" "\<forall>i<length ops. callE i (ops ! i) \<in> set E \<and> retE i (ops ! i) \<in> set E"
    "\<forall>ls\<in>set lss. set ls \<subseteq> {..<length ops} \<and> legal step init (op_pairs ops ls)" "largest_ok sqs l" "i = length sqs"
  shows "\<exists>l'. partialsLoop step describeState cv rv init i (map (map int) lss) l = Some (map (steps_of step describeState ops init) lss, l') \<and>
    largest_ok (sqs @ map (map int) lss) l'"
  using assms(3-5)
proof (induction lss arbitrary: i l sqs)
  case (Cons ls lss)
  let ?l1 = "raise_largest i (length ls) (int ` set ls) l"
  have "largest_ok (sqs @ [map int ls]) ?l1" using largest_ok_snoc [OF Cons.prems(2), of "map int ls"] Cons.prems(3) by simp
  then obtain l' where "partialsLoop step describeState cv rv init (i + 1) (map (map int) lss) ?l1 =
      Some (map (steps_of step describeState ops init) lss, l')" "largest_ok ((sqs @ [map int ls]) @ map (map int) lss) l'"
    using Cons.IH [of "sqs @ [map int ls]" ?l1 "i + 1"] Cons.prems by auto
  then show ?case using partialLoop_run [OF assms(1,2), of ls step init describeState i "length ls" l] Cons.prems(1) by simp
qed simp

section \<open>Partitions\<close>

text \<open>A partial linearization of a list of operations: it respects time, holds with an operation all that had returned before it was called, and
  the model accepts it.\<close>

definition op_partial :: "('s \<Rightarrow> 'i \<Rightarrow> 'o \<Rightarrow> bool \<times> 's) \<Rightarrow> 's \<Rightarrow> ('i, 'o) Operation list \<Rightarrow> nat list \<Rightarrow> bool" where
  "op_partial step init ops ls \<longleftrightarrow> distinct ls \<and> set ls \<subseteq> {..<length ops} \<and>
     sorted_wrt (\<lambda>i j. \<not> op_Return (ops ! j) < op_Call (ops ! i)) ls \<and>
     (\<forall>i\<in>set ls. \<forall>j<length ops. j \<notin> set ls \<longrightarrow> \<not> op_Return (ops ! j) < op_Call (ops ! i)) \<and> legal step init (op_pairs ops ls)"

lemma partial_lin_ops:
  assumes "sort_Sort sortf" "partial_lin (makeEntries sortf ops) step init ls"
  shows "op_partial step init ops ls"
proof -
  have n: "length (makeEntries sortf ops) div 2 = length ops" using makeEntries_facts(1) [where ops = ops, OF assms(1)] by simp
  have r: "set ls \<subseteq> {..<length ops}" using assms(2) by (simp add: partial_lin_def n)
  have "sorted_wrt (\<lambda>i j. \<not> op_Return (ops ! j) < op_Call (ops ! i)) ls"
  proof (rule sorted_wrt_mono_rel)
    show "sorted_wrt (\<lambda>i j. \<not> precedes (makeEntries sortf ops) j i) ls" using assms(2) by (simp add: partial_lin_def)
    fix i j assume "i \<in> set ls" "j \<in> set ls" "\<not> precedes (makeEntries sortf ops) j i"
    then show "\<not> op_Return (ops ! j) < op_Call (ops ! i)" using makeEntries_precedes [OF assms(1), of j ops i] r by auto
  qed
  moreover have "\<not> op_Return (ops ! j) < op_Call (ops ! i)" if "i \<in> set ls" "j < length ops" "j \<notin> set ls" for i j
    using that assms(2) r makeEntries_precedes [OF assms(1), of j ops i] unfolding partial_lin_def by auto
  ultimately show ?thesis using assms(2) r makeEntries_legal [OF assms(1) r, of step init]
    unfolding partial_lin_def op_partial_def op_pairs_def by blast
qed

text \<open>What \<^verbatim>\<open>sort.Slice\<close> promises for the order by decreasing length.\<close>

definition sort_Slice :: "(int list list \<Rightarrow> int list list) \<Rightarrow> bool" where
  "sort_Slice sortSlice \<longleftrightarrow> (\<forall>xs. mset (sortSlice xs) = mset xs \<and> sorted_wrt (\<lambda>a b. \<not> length a < length b) (sortSlice xs))"

text \<open>The data \<open>d\<close> show the operations \<open>ops\<close> and the sequences \<open>lins\<close>.\<close>

definition visualizes :: "(('i, 'o) val \<Rightarrow> ('i, 'o) val \<Rightarrow> string option) \<Rightarrow> ('s \<Rightarrow> string) \<Rightarrow> ('i, 'o, 's) Model \<Rightarrow>
    ('i, 'o) Operation list \<Rightarrow> int list list \<Rightarrow> partitionVisualizationData \<Rightarrow> bool" where
  "visualizes describeOp describeState model ops lins d \<longleftrightarrow>
     pv_History d = map (\<lambda>v. \<lparr>he_ClientId = op_ClientId v, he_Start = op_Call v, he_End = op_Return v,
       he_Description = the (describeOp (VIn (op_Input v)) (VOut (op_Output v)))\<rparr>) ops \<and>
     (\<exists>lss. mset (map (map int) lss) = mset lins \<and> sorted_wrt (\<lambda>a b. length b \<le> length a) lss \<and>
        (\<forall>ls\<in>set lss. op_partial (md_Step model) (md_Init model) ops ls) \<and>
        pv_PartialLinearizations d = map (steps_of (md_Step model) describeState ops (md_Init model)) lss \<and>
        (\<forall>i. case pv_Largest d (int i) of
           None \<Rightarrow> \<forall>ls\<in>set lss. i \<notin> set ls
         | Some k \<Rightarrow> k < length lss \<and> i \<in> set (lss ! k) \<and> (\<forall>ls\<in>set lss. i \<in> set ls \<longrightarrow> length ls \<le> length (lss ! k))))"

lemma shown_all:
  assumes "\<forall>i<length ops. callE i (ops ! i) \<in> set E \<and> retE i (ops ! i) \<in> set E"
  shows "map (shown describeOp ops E) [0..<length ops] = map (\<lambda>v. \<lparr>he_ClientId = op_ClientId v, he_Start = op_Call v, he_End = op_Return v,
       he_Description = the (describeOp (VIn (op_Input v)) (VOut (op_Output v)))\<rparr>) ops"
  by (rule nth_equalityI) (use assms in \<open>auto simp: shown_def\<close>)

lemma largest_okD:
  assumes "largest_ok (map (map int) lss) l"
  shows "case snd l (int i) of None \<Rightarrow> \<forall>ls\<in>set lss. i \<notin> set ls
    | Some k \<Rightarrow> k < length lss \<and> i \<in> set (lss ! k) \<and> (\<forall>ls\<in>set lss. i \<in> set ls \<longrightarrow> length ls \<le> length (lss ! k))"
proof -
  have "largest_at (map (map int) lss) (int i) (fst l (int i)) (snd l (int i))" using assms by (simp add: largest_ok_def)
  then show ?thesis by (auto simp: largest_at_def split: option.splits)
qed

lemma sorted_partials:
  assumes sort: "sort_Sort sortf" "sort_Slice sortSlice"
    and lins: "\<forall>sq\<in>set lins. is_partial (makeEntries sortf ops) step init sq"
  shows "\<exists>lss. map (map int) lss = sortSlice lins \<and> mset (map (map int) lss) = mset lins \<and> sorted_wrt (\<lambda>a b. length b \<le> length a) lss \<and>
    (\<forall>ls\<in>set lss. op_partial step init ops ls)"
proof -
  let ?lss = "map (map nat) (sortSlice lins)"
  have m: "mset (sortSlice lins) = mset lins" "sorted_wrt (\<lambda>a b. \<not> length a < length b) (sortSlice lins)"
    using sort(2) by (simp_all add: sort_Slice_def)
  have pn: "map int (map nat sq) = sq \<and> op_partial step init ops (map nat sq)" if sq: "sq \<in> set (sortSlice lins)" for sq
  proof -
    have "sq \<in> set lins" using sq mset_eq_setD [OF m(1)] by simp
    then have "is_partial (makeEntries sortf ops) step init sq" by (rule lins [rule_format])
    then obtain ls where "sq = map int ls" "partial_lin (makeEntries sortf ops) step init ls" unfolding is_partial_def by (elim exE conjE)
    moreover from this(2) have "op_partial step init ops ls" by (rule partial_lin_ops [OF sort(1)])
    ultimately show ?thesis by (simp add: o_def)
  qed
  have "map (map int) ?lss = sortSlice lins" using pn by (simp add: map_idI)
  moreover have "sorted_wrt (\<lambda>a b. length b \<le> length a) ?lss" unfolding sorted_wrt_map using m(2) by (simp add: not_less)
  moreover have "\<forall>ls\<in>set ?lss. op_partial step init ops ls" using pn by simp
  ultimately show ?thesis using m(1) by metis
qed

lemma partitionData_run:
  assumes sort: "sort_Sort sortf" "sort_Slice sortSlice" and d: "\<And>i o'. describeOp (VIn i) (VOut o') \<noteq> None"
    and ops: "\<forall>v\<in>set ops. op_Call v \<le> op_Return v" "length ops < 2 ^ 62"
    and lins: "\<forall>sq\<in>set lins. is_partial (makeEntries sortf ops) (md_Step model) (md_Init model) sq"
  shows "\<exists>p. partitionData sortSlice describeOp describeState model (makeEntries sortf ops) lins = Some (p, sortSlice lins) \<and>
    visualizes describeOp describeState model ops lins p"
proof -
  let ?E = "makeEntries sortf ops"
  note f = makeEntries_facts [where ops = ops, OF sort(1)]
  have n: "length ?E div 2 = length ops" using f(1) by simp
  have all: "\<forall>i<length ops. callE i (ops ! i) \<in> set ?E \<and> retE i (ops ! i) \<in> set ?E" unfolding f(2) by blast
  have zero: "map (shown describeOp ops []) [0..<length ops] = replicate (length ops) \<lparr>he_ClientId = 0, he_Start = 0, he_End = 0, he_Description = ''''\<rparr>"
    by (rule nth_equalityI) (auto simp: shown_def)
  obtain cv rv where h: "historyLoop describeOp ?E (replicate (length ops) \<lparr>he_ClientId = 0, he_Start = 0, he_End = 0, he_Description = ''''\<rparr>,
      \<lambda>_. VNil, \<lambda>_. VNil) = Some (map (shown describeOp ops ?E) [0..<length ops], cv, rv)" "read_values ops ?E cv rv"
    using historyLoop_run [of ops "[]" ?E describeOp "\<lambda>_. VNil" "\<lambda>_. VNil"] makeEntries_entries [OF sort(1) ops] d
    by (auto simp: zero read_values_def)
  obtain lss where s: "map (map int) lss = sortSlice lins" "mset (map (map int) lss) = mset lins" "sorted_wrt (\<lambda>a b. length b \<le> length a) lss"
      "\<forall>ls\<in>set lss. op_partial (md_Step model) (md_Init model) ops ls"
    using sorted_partials [OF sort lins] by (elim exE conjE)
  have lg: "\<forall>ls\<in>set lss. set ls \<subseteq> {..<length ops} \<and> legal (md_Step model) (md_Init model) (op_pairs ops ls)"
    using s(4) by (simp add: op_partial_def)
  have lo: "largest_ok [] ((\<lambda>_. 0), Map.empty)" by (simp add: largest_ok_def largest_at_def)
  obtain l where l: "partialsLoop (md_Step model) describeState cv rv (md_Init model) 0 (map (map int) lss) ((\<lambda>_. 0), Map.empty) =
      Some (map (steps_of (md_Step model) describeState ops (md_Init model)) lss, l)" "largest_ok (map (map int) lss) l"
    using partialsLoop_run [OF h(2) all lg lo, of 0 describeState] by auto
  have "visualizes describeOp describeState model ops lins \<lparr>pv_History = map (shown describeOp ops ?E) [0..<length ops],
      pv_PartialLinearizations = map (steps_of (md_Step model) describeState ops (md_Init model)) lss, pv_Largest = snd l\<rparr>"
    unfolding visualizes_def using s(2-4) largest_okD [OF l(2)] shown_all [OF all] by (auto intro!: exI [of _ lss])
  then show ?thesis using h(1) l(1) s(1) unfolding partitionData_def n by (simp add: Let_def split_beta)
qed

section \<open>The whole history\<close>

lemma verboseSearches_eq_Some:
  assumes "md_Equal model = None" "length kills = length parts"
  shows "verboseSearches model kills parts = Some rs \<longleftrightarrow> length rs = length parts \<and>
    (\<forall>p<length parts. checkSingle (md_Init model) (md_Step model) ShallowEqual (parts ! p) True (kills ! p) = Some (Some (rs ! p)))"
proof -
  have eq: "md_Equal (fillDefault model) = Some ShallowEqual" using assms(1) by (simp add: fillDefault_def Let_def)
  have b: "(do { r \<leftarrow> c; r }) = Some x \<longleftrightarrow> c = Some (Some x)" for c and x :: "bool \<times> nat option list \<times> int list list"
    by (cases c) auto
  show ?thesis unfolding verboseSearches_def eq using assms(2)
    by (auto simp: those_eq_Some list_eq_iff_nth_eq b)
qed

lemma collectLoop_verbose:
  assumes "rs \<noteq> []" "cnt + length rs = n"
  shows "collectLoop True n (map Some rs) cnt ok = Some (ok \<and> (\<forall>r\<in>set rs. r), False, n, [])"
  using assms
proof (induction rs arbitrary: cnt ok)
  case (Cons r rs)
  then show ?case
  proof (cases "rs = []")
    case False
    then have "collectLoop True n (map Some rs) (cnt + 1) (ok \<and> r) = Some ((ok \<and> r) \<and> (\<forall>r\<in>set rs. r), False, n, [])"
      using Cons.prems(2) by (intro Cons.IH) simp_all
    then show ?thesis using False Cons.prems(2) by (cases rs) (simp_all add: Let_def)
  qed (auto simp: Let_def)
qed simp

lemma parallelVerbose_result:
  assumes "md_Equal model = None" "length kills = length parts" "parts \<noteq> []" "mset order = mset (map Some [0..<length parts])"
    "\<And>p. p < length parts \<Longrightarrow> \<exists>l. checkSingle (md_Init model) (md_Step model) ShallowEqual (parts ! p) True (kills ! p) = Some (Some (P p, l))"
  shows "\<exists>info. parallelVerbose iter kills order model parts = Some (if \<forall>p<length parts. P p then Ok else Illegal, info)"
proof -
  obtain f where f: "checkSingle (md_Init model) (md_Step model) ShallowEqual (parts ! p) True (kills ! p) = Some (Some (P p, f p))"
    if "p < length parts" for p using assms(5) by metis
  define rs where "rs = map (\<lambda>p. (P p, f p)) [0..<length parts]"
  have "verboseSearches model kills parts = Some rs" using verboseSearches_eq_Some [OF assms(1,2)] f by (simp add: rs_def)
  have so: "set order = Some ` {..<length parts}" using mset_eq_setD [OF assms(4)] by (simp add: lessThan_atLeast0)
  then have o: "\<exists>is. order = map Some is" using ex_map_conv [of order Some] by auto
  then obtain iss where iss: "order = map Some iss" by blast
  have len: "length order = length parts" using mset_eq_length [OF assms(4)] by simp
  have "set iss = {..<length parts}" using so unfolding iss by (auto simp: image_iff)
  then have arr: "map (map_option (\<lambda>i. fst (rs ! i))) order = map Some (map P iss)" unfolding iss by (auto simp: rs_def)
  have "map P iss \<noteq> []" "0 + length (map P iss) = length parts" using len assms(3) iss by auto
  from collectLoop_verbose [OF this, of True]
  have c: "collectLoop True (length parts) (map Some (map P iss)) 0 True = Some (\<forall>p<length parts. P p, False, length parts, [])"
    using \<open>set iss = _\<close> by auto
  show ?thesis unfolding parallelVerbose_def checkParallel_def \<open>verboseSearches model kills parts = Some rs\<close>
    by (simp add: arr c del: map_map)
qed

lemma partials_recorded:
  assumes "seqs_ok P (fst l) (snd l)" "\<And>ks. mset (iter ks) = mset ks"
  shows "\<forall>sq\<in>set (partials iter l). P sq"
proof
  fix sq assume "sq \<in> set (partials iter l)"
  then obtain k where k: "Some k \<in> set (fst l)" "sq = snd l ! k"
    using mset_eq_setD [OF assms(2)] by (auto simp: partials_def split: option.splits)
  then show "P sq" using assms(1) unfolding seqs_ok_def list_all_iff by (metis nth_mem)
qed

lemma parallelVerbose_partials:
  assumes "md_Equal model = None" "length kills = length parts" "\<And>ks. mset (iter ks) = mset ks" "\<forall>E\<in>set parts. history_ok E"
    "parallelVerbose iter kills order model parts = Some (res, info)"
  shows "li_history info = parts \<and> length (li_partials info) = length parts \<and>
    (\<forall>p<length parts. \<forall>sq\<in>set (li_partials info ! p). is_partial (parts ! p) (md_Step model) (md_Init model) sq)"
proof -
  obtain rs where rs: "verboseSearches model kills parts = Some rs" "li_history info = parts" "li_partials info = map (partials iter) (map snd rs)"
    using assms(5) by (auto simp: parallelVerbose_def checkParallel_def bind_eq_Some_conv split: prod.splits if_splits)
  have r: "length rs = length parts" "\<And>p. p < length parts \<Longrightarrow>
      checkSingle (md_Init model) (md_Step model) ShallowEqual (parts ! p) True (kills ! p) = Some (Some (rs ! p))"
    using rs(1) verboseSearches_eq_Some [OF assms(1,2), of rs] by simp_all
  have "\<forall>sq\<in>set (partials iter (snd (rs ! p))). is_partial (parts ! p) (md_Step model) (md_Init model) sq" if p: "p < length parts" for p
  proof -
    obtain b l s where "rs ! p = (b, l, s)" using prod_cases3 by blast
    moreover from this have "seqs_ok (is_partial (parts ! p) (md_Step model) (md_Init model)) l s"
      using r(2) [OF p] assms(4) p by (intro checkSingle_partials [where cp = True and kills = "kills ! p" and b = b]) simp_all
    ultimately show ?thesis using partials_recorded [OF _ assms(3), of _ "(l, s)"] by simp
  qed
  then show ?thesis using rs(2,3) r(1) by simp
qed

lemma computeVisualizationData_run:
  assumes "length (li_partials info) = length (li_history info)"
    "\<And>p. p < length (li_history info) \<Longrightarrow>
      \<exists>d. partitionData sortSlice describeOp describeState (fillDefault model) (li_history info ! p) (li_partials info ! p) = Some (d, srt p) \<and> Q p d"
  shows "\<exists>data. computeVisualizationData sortSlice describeOp describeState model info =
      Some (data, info\<lparr>li_partials := map srt [0..<length (li_history info)]\<rparr>) \<and> length data = length (li_history info) \<and>
    (\<forall>p<length data. Q p (data ! p))"
proof -
  let ?n = "length (li_history info)"
  obtain f where f: "partitionData sortSlice describeOp describeState (fillDefault model) (li_history info ! p) (li_partials info ! p) = Some (f p, srt p)"
      "Q p (f p)" if "p < ?n" for p using assms(2) by metis
  have "those (map (\<lambda>p. do {
       lins \<leftarrow> go_index (li_partials info) (int p);
       partitionData sortSlice describeOp describeState (fillDefault model) (li_history info ! p) lins
     }) [0..<?n]) = Some (map (\<lambda>p. (f p, srt p)) [0..<?n])"
    unfolding those_eq_Some using f(1) assms(1) by simp
  then have "computeVisualizationData sortSlice describeOp describeState model info =
      Some (map f [0..<?n], info\<lparr>li_partials := map srt [0..<?n]\<rparr>)"
    using assms(1) by (simp add: computeVisualizationData_def o_def)
  then show ?thesis using f(2) by (intro exI [of _ "map f [0..<?n]"]) simp
qed

lemma fillDefault_simps [simp]: "md_Step (fillDefault model) = md_Step model" "md_Init (fillDefault model) = md_Init model"
  by (simp_all add: fillDefault_def Let_def)

lemma visualizes_default: "visualizes describeOp describeState (fillDefault model) = visualizes describeOp describeState model"
  by (intro ext) (simp add: visualizes_def)

lemma checkSingle_verdict:
  assumes "history_ok E"
  shows "\<exists>t. \<forall>turns\<ge>t. \<forall>ks. turns \<le> length ks \<longrightarrow> True \<notin> set ks \<longrightarrow>
    (\<exists>l. checkSingle init step ShallowEqual E cp ks = Some (Some (\<exists>ls. linearization E step init ls, l)))"
proof -
  obtain t where t: "\<forall>kills. t \<le> length kills \<longrightarrow> (\<exists>b longest seqs.
      checkSingle init step ShallowEqual E cp kills = Some (Some (b, longest, seqs)) \<and>
      (if b then longest = replicate (length E div 2) (Some (length seqs - 1)) \<and>
            (\<exists>ls. last seqs = map int ls \<and> linearization E step init ls)
       else True \<in> set kills \<or> (\<nexists>ls. linearization E step init ls)))"
    using checkSingle_result [OF assms, of init step cp] by (elim exE) (rule that)
  have "\<exists>l. checkSingle init step ShallowEqual E cp ks = Some (Some (\<exists>ls. linearization E step init ls, l))"
    if "t \<le> length ks" "True \<notin> set ks" for ks
    using t [rule_format, OF that(1)] that(2) by (auto split: if_splits)
  then show ?thesis by (meson order_trans)
qed

lemma verbose_returns:
  assumes sort: "sort_Sort sortf" and model: "md_Equal model = None" "md_Partition (fillDefault model) = Some part"
    and parts: "part history \<noteq> []" "\<And>ops. ops \<in> set (part history) \<Longrightarrow> length ops < 2 ^ 62 \<and> (\<forall>v\<in>set ops. op_Call v \<le> op_Return v)"
  shows "\<exists>t. \<forall>kills order. length kills = length (part history) \<longrightarrow> (\<forall>ks\<in>set kills. t \<le> length ks \<and> True \<notin> set ks) \<longrightarrow>
    mset order = mset (map Some [0..<length (part history)]) \<longrightarrow>
    (\<exists>info. CheckOperationsVerbose sortf iter kills order model history =
      Some (if \<forall>ops\<in>set (part history). \<exists>ls. op_linearization (md_Step model) (md_Init model) ops ls then Ok else Illegal, info))"
proof -
  let ?P = "\<lambda>E. \<exists>ls. linearization E (md_Step model) (md_Init model) ls" and ?parts = "map (makeEntries sortf) (part history)"
  let ?Q = "\<lambda>E t. \<forall>ks. t \<le> length ks \<longrightarrow> True \<notin> set ks \<longrightarrow>
    (\<exists>l. checkSingle (md_Init model) (md_Step model) ShallowEqual E True ks = Some (Some (?P E, l)))"
  have "\<exists>t. \<forall>turns\<ge>t. ?Q E turns" if "E \<in> set ?parts" for E
  proof -
    have ok: "history_ok E" using that parts(2) makeEntries_ok [OF sort] by auto
    show ?thesis by (rule checkSingle_verdict [OF ok])
  qed
  then obtain t where t: "\<forall>turns\<ge>t. \<forall>E\<in>set ?parts. ?Q E turns" using enough_turns [of ?parts ?Q] by blast
  have "\<exists>info. CheckOperationsVerbose sortf iter kills order model history =
      Some (if \<forall>ops\<in>set (part history). \<exists>ls. op_linearization (md_Step model) (md_Init model) ops ls then Ok else Illegal, info)"
    if k: "length kills = length (part history)" "\<forall>ks\<in>set kills. t \<le> length ks \<and> True \<notin> set ks"
      "mset order = mset (map Some [0..<length (part history)])" for kills order
  proof -
    have "\<exists>l. checkSingle (md_Init model) (md_Step model) ShallowEqual (?parts ! p) True (kills ! p) = Some (Some (?P (?parts ! p), l))"
      if p: "p < length ?parts" for p
      using t [rule_format, OF order_refl, of "?parts ! p" "kills ! p"] p k(1,2) by (simp del: split_paired_Ex)
    then have "\<exists>info. parallelVerbose iter kills order model ?parts = Some (if \<forall>p<length ?parts. ?P (?parts ! p) then Ok else Illegal, info)"
      using k parts(1) by (intro parallelVerbose_result [OF model(1)]) simp_all
    then obtain info where
      "parallelVerbose iter kills order model ?parts = Some (if \<forall>p<length ?parts. ?P (?parts ! p) then Ok else Illegal, info)" ..
    moreover have "(\<forall>p<length ?parts. ?P (?parts ! p)) \<longleftrightarrow>
        (\<forall>ops\<in>set (part history). \<exists>ls. op_linearization (md_Step model) (md_Init model) ops ls)"
      by (simp add: makeEntries_linearization [OF sort] all_set_conv_all_nth)
    ultimately show ?thesis using model(2) by (auto simp: CheckOperationsVerbose_def operationParts_def)
  qed
  then show ?thesis by blast
qed

lemma verbose_visualizes:
  assumes sort: "sort_Sort sortf" "sort_Slice sortSlice" and model: "md_Equal model = None" "md_Partition (fillDefault model) = Some part"
    and parts: "\<And>ops. ops \<in> set (part history) \<Longrightarrow> length ops < 2 ^ 62 \<and> (\<forall>v\<in>set ops. op_Call v \<le> op_Return v)"
    and args: "\<And>ks. mset (iter ks) = mset ks" "\<And>i o'. describeOp (VIn i) (VOut o') \<noteq> None"
    and run: "length kills = length (part history)" "CheckOperationsVerbose sortf iter kills order model history = Some (res, info)"
  shows "\<exists>data info'. computeVisualizationData sortSlice describeOp describeState model info = Some (data, info') \<and>
    length data = length (part history) \<and>
    (\<forall>p<length data. visualizes describeOp describeState model (part history ! p) (li_partials info ! p) (data ! p))"
proof -
  let ?parts = "map (makeEntries sortf) (part history)"
  have pv: "parallelVerbose iter kills order model ?parts = Some (res, info)"
    using run(2) model(2) by (simp add: CheckOperationsVerbose_def operationParts_def)
  have ok: "\<forall>E\<in>set ?parts. history_ok E" using parts makeEntries_ok [OF sort(1)] by auto
  have i: "li_history info = ?parts" "length (li_partials info) = length ?parts"
      "\<And>p. p < length ?parts \<Longrightarrow> \<forall>sq\<in>set (li_partials info ! p). is_partial (?parts ! p) (md_Step model) (md_Init model) sq"
    using parallelVerbose_partials [OF model(1) _ args(1) ok pv] run(1) by simp_all
  have "\<exists>d. partitionData sortSlice describeOp describeState (fillDefault model) (li_history info ! p) (li_partials info ! p) =
        Some (d, sortSlice (li_partials info ! p)) \<and> visualizes describeOp describeState model (part history ! p) (li_partials info ! p) d"
    if p: "p < length (li_history info)" for p
    using partitionData_run [where describeOp = describeOp and ops = "part history ! p" and lins = "li_partials info ! p" and
      model = "fillDefault model", OF sort args(2)] parts [of "part history ! p"] i p
    by (simp add: visualizes_default)
  from computeVisualizationData_run [OF _ this] show ?thesis using i(1,2) by auto
qed

section \<open>The key/value histories\<close>

text \<open>C30: A verbose check of a key/value history returns once its searches have enough turns, in whatever order they end, and decides
  linearizability; and whatever the kill flags and the timer did, \<^verbatim>\<open>computeVisualizationData\<close> accepts what the check returned:
  its panic \<^verbatim>\<open>valid partial linearization returned non-ok result\<close> is never reached.  For every key the data show each
  operation with its client and times; the sequences, longest first, are partial linearizations with the states they
  go through; and \<^verbatim>\<open>Largest\<close> gives for each operation a longest sequence that contains it.\<close>

theorem kv_visualization:
  assumes "sort_Sort sortf" "sort_Slice sortSlice" "\<And>ks. mset (iter ks) = mset ks"
    and "history \<noteq> []" "length history < 2 ^ 62" "\<forall>v\<in>set history. op_Call v \<le> op_Return v"
  shows "(\<exists>t. \<forall>kills order. length kills = length (KvModel_Partition history) \<longrightarrow> (\<forall>ks\<in>set kills. t \<le> length ks \<and> True \<notin> set ks) \<longrightarrow>
      mset order = mset (map Some [0..<length (KvModel_Partition history)]) \<longrightarrow>
      (\<exists>info. CheckOperationsVerbose sortf iter kills order KvModel history =
        Some (if \<exists>ls. op_linearization KvMap_Step (\<lambda>_. KvModel_Init) history ls then Ok else Illegal, info))) \<and>
    (\<forall>kills order res info. length kills = length (KvModel_Partition history) \<longrightarrow>
      CheckOperationsVerbose sortf iter kills order KvModel history = Some (res, info) \<longrightarrow>
      (\<exists>data info'. computeVisualizationData sortSlice KvModel_DescribeOperation describeState KvModel info = Some (data, info') \<and>
        length data = length (KvModel_Partition history) \<and>
        (\<forall>p<length data. visualizes KvModel_DescribeOperation describeState KvModel
          (KvModel_Partition history ! p) (li_partials info ! p) (data ! p))))"
proof -
  have m: "md_Equal KvModel = None" "md_Partition (fillDefault KvModel) = Some KvModel_Partition"
    by (simp_all add: KvModel_def fillDefault_def)
  have s: "md_Step KvModel = KvModel_Step" "md_Init KvModel = KvModel_Init" by (simp_all add: KvModel_def)
  note parts = KvModel_parts(2) [OF assms(5,6)]
  have "\<exists>t. \<forall>kills order. length kills = length (KvModel_Partition history) \<longrightarrow> (\<forall>ks\<in>set kills. t \<le> length ks \<and> True \<notin> set ks) \<longrightarrow>
      mset order = mset (map Some [0..<length (KvModel_Partition history)]) \<longrightarrow>
      (\<exists>info. CheckOperationsVerbose sortf iter kills order KvModel history =
        Some (if \<exists>ls. op_linearization KvMap_Step (\<lambda>_. KvModel_Init) history ls then Ok else Illegal, info))"
    using verbose_returns [OF assms(1) m KvModel_parts(1) [OF assms(4)] parts, of iter] unfolding s op_linearization_by_key [OF assms(6)] .
  moreover have "KvModel_DescribeOperation (VIn i) (VOut o') \<noteq> None" for i o' by simp
  ultimately show ?thesis using verbose_visualizes [OF assms(1,2) m parts assms(3)] by blast
qed

definition demo_slice :: "int list list \<Rightarrow> int list list" where
  "demo_slice = sort_key (\<lambda>l. - int (length l))"

lemma demo_slice_sorts: "sort_Slice demo_slice"
proof -
  have "sorted_wrt (\<lambda>a b. \<not> length a < length b) (demo_slice xs)" for xs
    using sorted_sort_key [of "\<lambda>l. - int (length l)" xs] unfolding sorted_map demo_slice_def
    by (rule sorted_wrt_mono_rel [rotated]) simp
  then show ?thesis by (simp add: sort_Slice_def demo_slice_def)
qed

theorem kv_visualization_witness:
  "\<exists>t. \<exists>info data info'. CheckOperationsVerbose demo_sort (\<lambda>ks. ks) [replicate t False, replicate t False] [Some 1, Some 0] KvModel demo_ops = Some (Ok, info) \<and>
     computeVisualizationData demo_slice KvModel_DescribeOperation (\<lambda>st. st) KvModel info = Some (data, info') \<and> length data = 2"
proof -
  have l: "op_linearization KvMap_Step (\<lambda>_. KvModel_Init) demo_ops [1, 0, 2]"
    by (auto simp: op_linearization_def demo_ops_def KvMap_Step_def KvModel_Step_def KvModel_Init_def)
  have n: "length (KvModel_Partition demo_ops) = 2" by code_simp
  have h: "demo_ops \<noteq> []" "length demo_ops < 2 ^ 62" "\<forall>v\<in>set demo_ops. op_Call v \<le> op_Return v" by (simp_all add: demo_ops_def)
  note d = kv_visualization [OF demo_sort_sorts demo_slice_sorts _ h, of "\<lambda>ks. ks" "\<lambda>st. st", OF refl, unfolded n]
  obtain t info where t: "CheckOperationsVerbose demo_sort (\<lambda>ks. ks) [replicate t False, replicate t False] [Some 1, Some 0] KvModel demo_ops =
      Some (if \<exists>ls. op_linearization KvMap_Step (\<lambda>_. KvModel_Init) demo_ops ls then Ok else Illegal, info)"
  proof -
    from conjunct1 [OF d] obtain t where t: "length kills = 2 \<Longrightarrow> (\<forall>ks\<in>set kills. t \<le> length ks \<and> True \<notin> set ks) \<Longrightarrow>
        mset order = mset (map Some [0..<2]) \<Longrightarrow> \<exists>info. CheckOperationsVerbose demo_sort (\<lambda>ks. ks) kills order KvModel demo_ops =
        Some (if \<exists>ls. op_linearization KvMap_Step (\<lambda>_. KvModel_Init) demo_ops ls then Ok else Illegal, info)" for kills order by blast
    have "mset [Some 1, Some 0] = mset (map Some [0..<2 :: nat])" by (simp add: upt_rec)
    then show ?thesis using t [of "[replicate t False, replicate t False]" "[Some 1, Some 0]"] that by auto
  qed
  then have "CheckOperationsVerbose demo_sort (\<lambda>ks. ks) [replicate t False, replicate t False] [Some 1, Some 0] KvModel demo_ops = Some (Ok, info)"
    using l by auto
  moreover from this obtain data info' where
    "computeVisualizationData demo_slice KvModel_DescribeOperation (\<lambda>st. st) KvModel info = Some (data, info')" "length data = 2"
    using conjunct2 [OF d, rule_format, of "[replicate t False, replicate t False]" "[Some 1, Some 0]" Ok info] by auto
  ultimately show ?thesis by blast
qed

end
