(* ===== verification/Lab_RPC.thy ===== *)
theory Lab_RPC
  imports Go_Prelude "HOL-Library.Word"
begin

text \<open>
  The simulated network of the laboratory: \<^verbatim>\<open>src/src/labrpc/labrpc.go\<close>.

  A remote call is a goroutine in \<^verbatim>\<open>ClientEnd.Call\<close>, one in \<^verbatim>\<open>processReq\<close> and one that runs the handler.  They meet only
  at the channels of the call and at the lock of the network, so a call is a record with the phase that
  \<^verbatim>\<open>processReq\<close> has reached and the state of its handler; each phase change is one function, and the
  phases of different calls interleave with each other and with the methods of the network.  Servers are
  pointers into a heap, since \<^verbatim>\<open>isServerDead\<close> compares pointers.  Random numbers are arguments.  A method of a service is
  found by reflection: it is a function from the encoded arguments to the encoded reply that changes the
  state \<open>'w\<close> of the program, which includes decoding, the body of the method and encoding.  \<open>None\<close> is a panic or
  \<^verbatim>\<open>log.Fatalf\<close>.  Counters have their width.
\<close>

section \<open>Data\<close>

type_synonym bytes = "8 word list"

record 'e reqMsg =
  rq_endname :: 'e
  rq_svcMeth :: string
  rq_args :: bytes

record replyMsg =
  rp_ok :: bool
  rp_reply :: bytes

record 'e ClientEnd =
  ce_endname :: 'e

text \<open>What reflection tells about a method: whether it is exported, the number of its arguments with the receiver, whether the last of three is
  a pointer, and the number of its results.\<close>

record 'w Method =
  me_Name :: string
  me_PkgPath :: string
  me_NumIn :: nat
  me_In2_Ptr :: bool
  me_NumOut :: nat
  me_Func :: "bytes \<Rightarrow> 'w \<Rightarrow> bytes \<times> 'w"

record 'w Service =
  svc_name :: string
  svc_methods :: "string \<rightharpoonup> 'w Method"

record 'w Server =
  srv_services :: "string \<rightharpoonup> 'w Service"
  srv_count :: int

record ('e, 'v) Network =
  nw_reliable :: bool
  nw_longDelays :: bool
  nw_longReordering :: bool
  nw_ends :: "'e \<rightharpoonup> 'e ClientEnd"
  nw_enabled :: "'e \<rightharpoonup> bool"
  nw_servers :: "'v \<rightharpoonup> nat option"
  nw_connections :: "'e \<rightharpoonup> 'v option"
  nw_done :: bool
  nw_count :: "32 word"
  nw_bytes :: "64 word"

section \<open>Services and servers\<close>

definition handler_ok :: "'w Method \<Rightarrow> bool" where
  "handler_ok m \<longleftrightarrow> \<not> (me_PkgPath m \<noteq> '''' \<or> me_NumIn m \<noteq> 3 \<or> \<not> me_In2_Ptr m \<or> me_NumOut m \<noteq> 0)"

definition MakeService :: "string \<Rightarrow> 'w Method list \<Rightarrow> 'w Service" where
  "MakeService name ms =
     \<lparr>svc_name = name, svc_methods = fold (\<lambda>m methods. if handler_ok m then methods(me_Name m \<mapsto> m) else methods) ms Map.empty\<rparr>"

definition Service_dispatch :: "string \<Rightarrow> 'e reqMsg \<Rightarrow> 'w Service \<Rightarrow> 'w \<Rightarrow> (replyMsg \<times> 'w) option" where
  "Service_dispatch methname req svc w = do {
     m \<leftarrow> svc_methods svc methname;
     let (reply, w1) = me_Func m (rq_args req) w;
     Some (\<lparr>rp_ok = True, rp_reply = reply\<rparr>, w1)
   }"

definition MakeServer :: "'w Server" where
  "MakeServer = \<lparr>srv_services = Map.empty, srv_count = 0\<rparr>"

definition AddService :: "'w Service \<Rightarrow> 'w Server \<Rightarrow> 'w Server" where
  "AddService svc rs = rs\<lparr>srv_services := (srv_services rs)(svc_name svc \<mapsto> svc)\<rparr>"

text \<open>\<^verbatim>\<open>strings.LastIndex(s, ".")\<close>.\<close>

definition LastIndex_dot :: "string \<Rightarrow> int" where
  "LastIndex_dot s = int (length s) - 1 - int (length (takeWhile (\<lambda>c. c \<noteq> CHR ''.'') (rev s)))"

definition Server_dispatch :: "'e reqMsg \<Rightarrow> 'w Server \<Rightarrow> 'w \<Rightarrow> ('w Server \<times> replyMsg \<times> 'w) option" where
  "Server_dispatch req rs w = do {
     let rs1 = rs\<lparr>srv_count := srv_count rs + 1\<rparr>;
     let dot = LastIndex_dot (rq_svcMeth req);
     serviceName \<leftarrow> go_slice_to (rq_svcMeth req) dot;
     methodName \<leftarrow> go_slice_from (rq_svcMeth req) (dot + 1);
     service \<leftarrow> srv_services rs1 serviceName;
     (reply, w1) \<leftarrow> Service_dispatch methodName req service w;
     Some (rs1, reply, w1)
   }"

definition Server_GetCount :: "'w Server \<Rightarrow> int" where
  "Server_GetCount rs = srv_count rs"

section \<open>The network\<close>

definition MakeNetwork :: "('e, 'v) Network" where
  "MakeNetwork = \<lparr>nw_reliable = True, nw_longDelays = False, nw_longReordering = False, nw_ends = Map.empty, nw_enabled = Map.empty,
     nw_servers = Map.empty, nw_connections = Map.empty, nw_done = False, nw_count = 0, nw_bytes = 0\<rparr>"

text \<open>Closing a channel twice panics.\<close>

definition Cleanup :: "('e, 'v) Network \<Rightarrow> ('e, 'v) Network option" where
  "Cleanup rn = (if nw_done rn then None else Some (rn\<lparr>nw_done := True\<rparr>))"

definition Reliable :: "bool \<Rightarrow> ('e, 'v) Network \<Rightarrow> ('e, 'v) Network" where
  "Reliable yes rn = rn\<lparr>nw_reliable := yes\<rparr>"

definition LongReordering :: "bool \<Rightarrow> ('e, 'v) Network \<Rightarrow> ('e, 'v) Network" where
  "LongReordering yes rn = rn\<lparr>nw_longReordering := yes\<rparr>"

definition LongDelays :: "bool \<Rightarrow> ('e, 'v) Network \<Rightarrow> ('e, 'v) Network" where
  "LongDelays yes rn = rn\<lparr>nw_longDelays := yes\<rparr>"

text \<open>Reading a missing key of a map gives the zero value: \<^verbatim>\<open>false\<close> or \<^verbatim>\<open>nil\<close>.\<close>

definition is_enabled :: "('e, 'v) Network \<Rightarrow> 'e \<Rightarrow> bool" where
  "is_enabled rn endname = (case nw_enabled rn endname of None \<Rightarrow> False | Some b \<Rightarrow> b)"

definition server_at :: "('e, 'v) Network \<Rightarrow> 'v \<Rightarrow> nat option" where
  "server_at rn servername = (case nw_servers rn servername of None \<Rightarrow> None | Some p \<Rightarrow> p)"

definition readEndnameInfo :: "'e \<Rightarrow> ('e, 'v) Network \<Rightarrow> bool \<times> 'v option \<times> nat option \<times> bool \<times> bool" where
  "readEndnameInfo endname rn =
     (let servername = (case nw_connections rn endname of None \<Rightarrow> None | Some p \<Rightarrow> p);
          server = (case servername of None \<Rightarrow> None | Some sn \<Rightarrow> server_at rn sn)
      in (is_enabled rn endname, servername, server, nw_reliable rn, nw_longReordering rn))"

definition isServerDead :: "'e \<Rightarrow> 'v \<Rightarrow> nat \<Rightarrow> ('e, 'v) Network \<Rightarrow> bool" where
  "isServerDead endname servername server rn \<longleftrightarrow> \<not> is_enabled rn endname \<or> server_at rn servername \<noteq> Some server"

definition MakeEnd :: "'e \<Rightarrow> ('e, 'v) Network \<Rightarrow> (('e, 'v) Network \<times> 'e ClientEnd) option" where
  "MakeEnd endname rn =
     (if nw_ends rn endname \<noteq> None then None
      else (let e = \<lparr>ce_endname = endname\<rparr> in
        Some (rn\<lparr>nw_ends := (nw_ends rn)(endname \<mapsto> e), nw_enabled := (nw_enabled rn)(endname \<mapsto> False),
                nw_connections := (nw_connections rn)(endname \<mapsto> None)\<rparr>, e)))"

definition AddServer :: "'v \<Rightarrow> nat \<Rightarrow> ('e, 'v) Network \<Rightarrow> ('e, 'v) Network" where
  "AddServer servername rs rn = rn\<lparr>nw_servers := (nw_servers rn)(servername \<mapsto> Some rs)\<rparr>"

definition DeleteServer :: "'v \<Rightarrow> ('e, 'v) Network \<Rightarrow> ('e, 'v) Network" where
  "DeleteServer servername rn = rn\<lparr>nw_servers := (nw_servers rn)(servername \<mapsto> None)\<rparr>"

definition Connect :: "'e \<Rightarrow> 'v \<Rightarrow> ('e, 'v) Network \<Rightarrow> ('e, 'v) Network" where
  "Connect endname servername rn = rn\<lparr>nw_connections := (nw_connections rn)(endname \<mapsto> Some servername)\<rparr>"

definition Enable :: "'e \<Rightarrow> bool \<Rightarrow> ('e, 'v) Network \<Rightarrow> ('e, 'v) Network" where
  "Enable endname enabled rn = rn\<lparr>nw_enabled := (nw_enabled rn)(endname \<mapsto> enabled)\<rparr>"

definition GetCount :: "'v \<Rightarrow> 'w Server list \<Rightarrow> ('e, 'v) Network \<Rightarrow> int option" where
  "GetCount servername heap rn = do {
     svr \<leftarrow> server_at rn servername;
     Some (Server_GetCount (heap ! svr))
   }"

definition GetTotalCount :: "('e, 'v) Network \<Rightarrow> int" where
  "GetTotalCount rn = sint (nw_count rn)"

definition GetTotalBytes :: "('e, 'v) Network \<Rightarrow> int" where
  "GetTotalBytes rn = sint (nw_bytes rn)"

section \<open>Calls\<close>

text \<open>
  The phases of \<^verbatim>\<open>processReq\<close>.  \<open>Started\<close> to \<open>Waited\<close> carry what \<^verbatim>\<open>readEndnameInfo\<close> returned: server name, server, reliable and long reordering.
  \<open>Waited\<close> is after the waiting loop, with the reply unless the server was found dead.  In \<open>Late\<close> and \<open>Unreachable\<close> a timer is running.
\<close>

datatype 'v phase =
    Sent
  | Started 'v nat bool bool
  | Waiting 'v nat bool bool
  | Waited 'v nat bool bool "replyMsg option"
  | Late replyMsg
  | Unreachable
  | Replied replyMsg

datatype exec = NotCalled | Running nat | Returned replyMsg

record ('e, 'v) call =
  cl_req :: "'e reqMsg"
  cl_phase :: "'v phase"
  cl_exec :: exec

text \<open>The state of a program that uses the network.  \<open>rs_runs\<close> is history: the handlers that have run, by call, with their replies.\<close>

record ('e, 'v, 'w) rpc_state =
  rs_net :: "('e, 'v) Network"
  rs_heap :: "'w Server list"
  rs_calls :: "('e, 'v) call list"
  rs_world :: 'w
  rs_runs :: "(nat \<times> replyMsg) list"

definition noReply :: replyMsg where
  "noReply = \<lparr>rp_ok = False, rp_reply = []\<rparr>"

definition set_call :: "nat \<Rightarrow> ('e, 'v) call \<Rightarrow> ('e, 'v, 'w) rpc_state \<Rightarrow> ('e, 'v, 'w) rpc_state" where
  "set_call i c s = s\<lparr>rs_calls := (rs_calls s)[i := c]\<rparr>"

text \<open>The first half of \<^verbatim>\<open>ClientEnd.Call\<close> and the goroutine of \<^verbatim>\<open>MakeNetwork\<close>, which counts the request; on a network that has been cleaned up the call
  fails (\<open>Inr False\<close>).\<close>

definition Call_send :: "'e ClientEnd \<Rightarrow> string \<Rightarrow> bytes \<Rightarrow> ('e, 'v, 'w) rpc_state \<Rightarrow> ('e, 'v, 'w) rpc_state + bool" where
  "Call_send e svcMeth args s =
     (if nw_done (rs_net s) then Inr False
      else Inl (s\<lparr>rs_net := (rs_net s)\<lparr>nw_count := nw_count (rs_net s) + 1,
                    nw_bytes := nw_bytes (rs_net s) + word_of_nat (length args)\<rparr>,
                  rs_calls := rs_calls s @
                    [\<lparr>cl_req = \<lparr>rq_endname = ce_endname e, rq_svcMeth = svcMeth, rq_args = args\<rparr>, cl_phase = Sent, cl_exec = NotCalled\<rparr>]\<rparr>))"

definition processReq_begin :: "nat \<Rightarrow> ('e, 'v, 'w) rpc_state \<Rightarrow> ('e, 'v, 'w) rpc_state option" where
  "processReq_begin i s =
     (let c = rs_calls s ! i in
      case cl_phase c of
        Sent \<Rightarrow>
          (case readEndnameInfo (rq_endname (cl_req c)) (rs_net s) of
             (True, Some servername, Some server, reliable, longreordering) \<Rightarrow>
               Some (set_call i (c\<lparr>cl_phase := Started servername server reliable longreordering\<rparr>) s)
           | _ \<Rightarrow> Some (set_call i (c\<lparr>cl_phase := Unreachable\<rparr>) s))
      | _ \<Rightarrow> None)"

text \<open>After the short delay: the request is dropped, or the handler is started.\<close>

definition processReq_start :: "nat \<Rightarrow> nat \<Rightarrow> ('e, 'v, 'w) rpc_state \<Rightarrow> ('e, 'v, 'w) rpc_state option" where
  "processReq_start i rnd s =
     (let c = rs_calls s ! i in
      case cl_phase c of
        Started servername server reliable longreordering \<Rightarrow>
          if \<not> reliable \<and> rnd mod 1000 < 100 then Some (set_call i (c\<lparr>cl_phase := Replied noReply\<rparr>) s)
          else Some (set_call i (c\<lparr>cl_phase := Waiting servername server reliable longreordering, cl_exec := Running server\<rparr>) s)
      | _ \<Rightarrow> None)"

text \<open>The goroutine that executes the request, at the moment its handler returns.  While a handler runs, what it and others do to the
  program's state are other steps; one that never returns is a call for which this step is never taken.\<close>

definition runHandler :: "nat \<Rightarrow> ('e, 'v, 'w) rpc_state \<Rightarrow> ('e, 'v, 'w) rpc_state option" where
  "runHandler i s =
     (let c = rs_calls s ! i in
      case cl_exec c of
        Running server \<Rightarrow> do {
          (rs1, reply, w1) \<leftarrow> Server_dispatch (cl_req c) (rs_heap s ! server) (rs_world s);
          Some ((set_call i (c\<lparr>cl_exec := Returned reply\<rparr>) s)\<lparr>rs_heap := (rs_heap s)[server := rs1], rs_world := w1,
            rs_runs := rs_runs s @ [(i, reply)]\<rparr>)
        }
      | _ \<Rightarrow> None)"

text \<open>The two cases of the waiting loop: the reply arrives, or the timer fires.\<close>

definition processReq_receive :: "nat \<Rightarrow> ('e, 'v, 'w) rpc_state \<Rightarrow> ('e, 'v, 'w) rpc_state option" where
  "processReq_receive i s =
     (let c = rs_calls s ! i in
      case (cl_phase c, cl_exec c) of
        (Waiting servername server reliable longreordering, Returned reply) \<Rightarrow>
          Some (set_call i (c\<lparr>cl_phase := Waited servername server reliable longreordering (Some reply)\<rparr>) s)
      | _ \<Rightarrow> None)"

definition processReq_tick :: "nat \<Rightarrow> ('e, 'v, 'w) rpc_state \<Rightarrow> ('e, 'v, 'w) rpc_state option" where
  "processReq_tick i s =
     (let c = rs_calls s ! i in
      case cl_phase c of
        Waiting servername server reliable longreordering \<Rightarrow>
          if isServerDead (rq_endname (cl_req c)) servername server (rs_net s)
          then Some (set_call i (c\<lparr>cl_phase := Waited servername server reliable longreordering None\<rparr>) s)
          else Some s
      | _ \<Rightarrow> None)"

definition send_reply :: "nat \<Rightarrow> replyMsg \<Rightarrow> ('e, 'v, 'w) rpc_state \<Rightarrow> ('e, 'v, 'w) rpc_state" where
  "send_reply i reply s =
     (set_call i ((rs_calls s ! i)\<lparr>cl_phase := Replied reply\<rparr>) s)
       \<lparr>rs_net := (rs_net s)\<lparr>nw_bytes := nw_bytes (rs_net s) + word_of_nat (length (rp_reply reply))\<rparr>\<rparr>"

text \<open>After the loop; \<open>rnd\<close> is \<^verbatim>\<open>rand.Int()\<close> and \<open>rnd900\<close> is \<^verbatim>\<open>rand.Intn(900)\<close>.\<close>

definition processReq_reply :: "nat \<Rightarrow> nat \<Rightarrow> nat \<Rightarrow> ('e, 'v, 'w) rpc_state \<Rightarrow> ('e, 'v, 'w) rpc_state option" where
  "processReq_reply i rnd rnd900 s =
     (let c = rs_calls s ! i in
      case cl_phase c of
        Waited servername server reliable longreordering r \<Rightarrow>
          (let serverDead = isServerDead (rq_endname (cl_req c)) servername server (rs_net s) in
           case r of
             None \<Rightarrow> Some (set_call i (c\<lparr>cl_phase := Replied noReply\<rparr>) s)
           | Some reply \<Rightarrow>
               if serverDead then Some (set_call i (c\<lparr>cl_phase := Replied noReply\<rparr>) s)
               else if \<not> reliable \<and> rnd mod 1000 < 100 then Some (set_call i (c\<lparr>cl_phase := Replied noReply\<rparr>) s)
               else if longreordering \<and> rnd900 < 600 then Some (set_call i (c\<lparr>cl_phase := Late reply\<rparr>) s)
               else Some (send_reply i reply s))
      | _ \<Rightarrow> None)"

text \<open>The two functions that run when a timer fires.\<close>

definition processReq_timer :: "nat \<Rightarrow> ('e, 'v, 'w) rpc_state \<Rightarrow> ('e, 'v, 'w) rpc_state option" where
  "processReq_timer i s =
     (let c = rs_calls s ! i in
      case cl_phase c of
        Late reply \<Rightarrow> Some (send_reply i reply s)
      | Unreachable \<Rightarrow> Some (set_call i (c\<lparr>cl_phase := Replied noReply\<rparr>) s)
      | _ \<Rightarrow> None)"

text \<open>The second half of \<^verbatim>\<open>ClientEnd.Call\<close>: what the caller gets, \<open>None\<close> for \<^verbatim>\<open>false\<close>; \<open>dec\<close> is the decoder.\<close>

definition Call_return :: "(bytes \<Rightarrow> 'r option) \<Rightarrow> replyMsg \<Rightarrow> 'r option option" where
  "Call_return dec rep = (if rp_ok rep then map_option Some (dec (rp_reply rep)) else Some None)"

text \<open>One step of the program: a call is sent or goes on, the network or its servers are changed, or the
  program does something else.\<close>

inductive rpc_step :: "('e, 'v, 'w) rpc_state \<Rightarrow> ('e, 'v, 'w) rpc_state \<Rightarrow> bool" where
  step_send: "Call_send e svcMeth args s = Inl t \<Longrightarrow> rpc_step s t"
| step_begin: "i < length (rs_calls s) \<Longrightarrow> processReq_begin i s = Some t \<Longrightarrow> rpc_step s t"
| step_start: "i < length (rs_calls s) \<Longrightarrow> processReq_start i rnd s = Some t \<Longrightarrow> rpc_step s t"
| step_run: "i < length (rs_calls s) \<Longrightarrow> runHandler i s = Some t \<Longrightarrow> rpc_step s t"
| step_receive: "i < length (rs_calls s) \<Longrightarrow> processReq_receive i s = Some t \<Longrightarrow> rpc_step s t"
| step_tick: "i < length (rs_calls s) \<Longrightarrow> processReq_tick i s = Some t \<Longrightarrow> rpc_step s t"
| step_reply: "i < length (rs_calls s) \<Longrightarrow> processReq_reply i rnd rnd900 s = Some t \<Longrightarrow> rpc_step s t"
| step_timer: "i < length (rs_calls s) \<Longrightarrow> processReq_timer i s = Some t \<Longrightarrow> rpc_step s t"
| step_reliable: "rpc_step s (s\<lparr>rs_net := Reliable yes (rs_net s)\<rparr>)"
| step_reordering: "rpc_step s (s\<lparr>rs_net := LongReordering yes (rs_net s)\<rparr>)"
| step_delays: "rpc_step s (s\<lparr>rs_net := LongDelays yes (rs_net s)\<rparr>)"
| step_cleanup: "Cleanup (rs_net s) = Some rn \<Longrightarrow> rpc_step s (s\<lparr>rs_net := rn\<rparr>)"
| step_end: "MakeEnd endname (rs_net s) = Some (rn, e) \<Longrightarrow> rpc_step s (s\<lparr>rs_net := rn\<rparr>)"
| step_connect: "rpc_step s (s\<lparr>rs_net := Connect endname servername (rs_net s)\<rparr>)"
| step_enable: "rpc_step s (s\<lparr>rs_net := Enable endname enabled (rs_net s)\<rparr>)"
| step_add: "rs < length (rs_heap s) \<Longrightarrow> rpc_step s (s\<lparr>rs_net := AddServer servername rs (rs_net s)\<rparr>)"
| step_delete: "rpc_step s (s\<lparr>rs_net := DeleteServer servername (rs_net s)\<rparr>)"
| step_server: "rpc_step s (s\<lparr>rs_heap := rs_heap s @ [MakeServer]\<rparr>)"
| step_service: "rs < length (rs_heap s) \<Longrightarrow> rpc_step s (s\<lparr>rs_heap := (rs_heap s)[rs := AddService svc (rs_heap s ! rs)]\<rparr>)"
| step_world: "rpc_step s (s\<lparr>rs_world := w\<rparr>)"

definition rpc_init :: "('e, 'v, 'w) rpc_state \<Rightarrow> bool" where
  "rpc_init s \<longleftrightarrow> rs_net s = MakeNetwork \<and> rs_heap s = [] \<and> rs_calls s = [] \<and> rs_runs s = []"

end
