(* ===== verification/Lab_RPC_Props.thy ===== *)
theory Lab_RPC_Props
  imports Lab_RPC
begin

text \<open>
  What the services rely on of the network: a handler runs at most once for each call, a caller gets \<^verbatim>\<open>true\<close> only with the
  reply of that run, a call to a living server on a reliable network succeeds, and the reply of a server that has been deleted is not delivered.
\<close>

section \<open>The invariant of a call\<close>

definition call_ok :: "('e, 'v) call \<Rightarrow> bool" where
  "call_ok c \<longleftrightarrow> (case cl_phase c of
       Sent \<Rightarrow> cl_exec c = NotCalled
     | Started _ _ _ _ \<Rightarrow> cl_exec c = NotCalled
     | Waiting _ p _ _ \<Rightarrow> cl_exec c = Running p \<or> (\<exists>r. cl_exec c = Returned r)
     | Waited _ _ _ _ None \<Rightarrow> cl_exec c \<noteq> NotCalled
     | Waited _ _ _ _ (Some r) \<Rightarrow> cl_exec c = Returned r
     | Late r \<Rightarrow> cl_exec c = Returned r
     | Unreachable \<Rightarrow> cl_exec c = NotCalled
     | Replied r \<Rightarrow> r = noReply \<or> cl_exec c = Returned r)"

definition call_runs :: "nat \<Rightarrow> ('e, 'v) call \<Rightarrow> (nat \<times> replyMsg) list" where
  "call_runs i c = (case cl_exec c of Returned r \<Rightarrow> [(i, r)] | _ \<Rightarrow> [])"

text \<open>The servers a call refers to are in the heap.\<close>

definition call_ptrs :: "nat \<Rightarrow> ('e, 'v) call \<Rightarrow> bool" where
  "call_ptrs n c \<longleftrightarrow> (case cl_phase c of Started _ p _ _ \<Rightarrow> p < n | _ \<Rightarrow> True) \<and> (case cl_exec c of Running p \<Rightarrow> p < n | _ \<Rightarrow> True)"

definition reply_bytes :: "('e, 'v) call \<Rightarrow> nat" where
  "reply_bytes c = (case cl_phase c of Replied r \<Rightarrow> length (rp_reply r) | _ \<Rightarrow> 0)"

definition total_bytes :: "('e, 'v) call list \<Rightarrow> nat" where
  "total_bytes cs = sum_list (map (\<lambda>c. length (rq_args (cl_req c)) + reply_bytes c) cs)"

definition runs_of :: "nat \<Rightarrow> (nat \<times> replyMsg) list \<Rightarrow> (nat \<times> replyMsg) list" where
  "runs_of i runs = filter (\<lambda>x. fst x = i) runs"

definition calls_inv :: "nat \<Rightarrow> ('e, 'v) call list \<Rightarrow> (nat \<times> replyMsg) list \<Rightarrow> bool" where
  "calls_inv n cs runs \<longleftrightarrow> (\<forall>i<length cs. call_ok (cs ! i) \<and> call_ptrs n (cs ! i) \<and> runs_of i runs = call_runs i (cs ! i)) \<and>
     (\<forall>x\<in>set runs. fst x < length cs)"

definition net_inv :: "nat \<Rightarrow> ('e, 'v) Network \<Rightarrow> bool" where
  "net_inv n rn \<longleftrightarrow> (\<forall>sn p. server_at rn sn = Some p \<longrightarrow> p < n)"

definition rpc_inv :: "('e, 'v, 'w) rpc_state \<Rightarrow> bool" where
  "rpc_inv s \<longleftrightarrow> calls_inv (length (rs_heap s)) (rs_calls s) (rs_runs s) \<and> net_inv (length (rs_heap s)) (rs_net s) \<and>
     nw_count (rs_net s) = word_of_nat (length (rs_calls s)) \<and> nw_bytes (rs_net s) = word_of_nat (total_bytes (rs_calls s))"

lemma set_call_simps [simp]:
  "rs_calls (set_call i c s) = (rs_calls s)[i := c]" "rs_net (set_call i c s) = rs_net s" "rs_heap (set_call i c s) = rs_heap s"
  "rs_runs (set_call i c s) = rs_runs s" "rs_world (set_call i c s) = rs_world s"
  by (simp_all add: set_call_def)

lemma total_bytes_update:
  assumes "i < length cs" "cl_req c = cl_req (cs ! i)"
  shows "total_bytes (cs[i := c]) + reply_bytes (cs ! i) = total_bytes cs + reply_bytes c"
proof -
  let ?f = "\<lambda>c. length (rq_args (cl_req c)) + reply_bytes c"
  have "sum_list ((map ?f cs)[i := ?f c]) + ?f (cs ! i) = sum_list (map ?f cs) + ?f c"
    using assms(1) member_le_sum_list [of "?f (cs ! i)" "map ?f cs"] by (simp add: sum_list_update)
  then show ?thesis using assms by (simp add: total_bytes_def map_update)
qed

lemma calls_inv_update:
  assumes "calls_inv n cs runs" "i < length cs" "call_ok c" "call_ptrs n c" "call_runs i c = call_runs i (cs ! i)"
  shows "calls_inv n (cs[i := c]) runs"
  using assms by (auto simp: calls_inv_def nth_list_update)

text \<open>A call goes on without sending a reply.\<close>

lemma rpc_inv_silent:
  assumes "rpc_inv s" "i < length (rs_calls s)" "call_ok c" "call_ptrs (length (rs_heap s)) c"
    "cl_exec c = cl_exec (rs_calls s ! i) \<or> (\<exists>p. cl_exec (rs_calls s ! i) = NotCalled \<and> cl_exec c = Running p)"
    "cl_req c = cl_req (rs_calls s ! i)" "reply_bytes c = reply_bytes (rs_calls s ! i)"
  shows "rpc_inv (set_call i c s)"
proof -
  have "call_runs i c = call_runs i (rs_calls s ! i)" using assms(5) by (auto simp: call_runs_def)
  then have "calls_inv (length (rs_heap s)) ((rs_calls s)[i := c]) (rs_runs s)"
    using calls_inv_update assms(1-4) unfolding rpc_inv_def by blast
  moreover have "total_bytes ((rs_calls s)[i := c]) = total_bytes (rs_calls s)"
    using total_bytes_update [OF assms(2,6)] assms(7) by simp
  ultimately show ?thesis using assms(1) by (simp add: rpc_inv_def)
qed

lemma rpc_inv_reply:
  assumes "rpc_inv s" "i < length (rs_calls s)" "cl_exec (rs_calls s ! i) = Returned r" "reply_bytes (rs_calls s ! i) = 0"
  shows "rpc_inv (send_reply i r s)"
proof -
  let ?c = "(rs_calls s ! i)\<lparr>cl_phase := Replied r\<rparr>"
  have "call_ok ?c" "call_ptrs (length (rs_heap s)) ?c" "call_runs i ?c = call_runs i (rs_calls s ! i)"
    using assms(3) by (simp_all add: call_ok_def call_ptrs_def call_runs_def)
  then have "calls_inv (length (rs_heap s)) ((rs_calls s)[i := ?c]) (rs_runs s)"
    using calls_inv_update assms(1,2) unfolding rpc_inv_def by blast
  moreover have "total_bytes ((rs_calls s)[i := ?c]) = total_bytes (rs_calls s) + length (rp_reply r)"
    using total_bytes_update [of i "rs_calls s" ?c] assms(2,4) by (simp add: reply_bytes_def)
  ultimately show ?thesis using assms(1) by (simp add: rpc_inv_def send_reply_def net_inv_def server_at_def)
qed

lemma rpc_inv_run:
  assumes "rpc_inv s" "i < length (rs_calls s)" "cl_exec (rs_calls s ! i) = Running p" "runHandler i s = Some t"
  shows "rpc_inv t"
proof -
  obtain rs1 reply w1 where d: "Server_dispatch (cl_req (rs_calls s ! i)) (rs_heap s ! p) (rs_world s) = Some (rs1, reply, w1)"
      "t = (set_call i ((rs_calls s ! i)\<lparr>cl_exec := Returned reply\<rparr>) s)\<lparr>rs_heap := (rs_heap s)[p := rs1], rs_world := w1,
            rs_runs := rs_runs s @ [(i, reply)]\<rparr>"
    using assms(3,4) by (auto simp: runHandler_def Let_def bind_eq_Some_conv)
  let ?c = "(rs_calls s ! i)\<lparr>cl_exec := Returned reply\<rparr>"
  have inv: "calls_inv (length (rs_heap s)) (rs_calls s) (rs_runs s)" using assms(1) by (simp add: rpc_inv_def)
  then have old: "call_ok (rs_calls s ! i)" "call_ptrs (length (rs_heap s)) (rs_calls s ! i)" "runs_of i (rs_runs s) = []"
    using assms(2,3) by (auto simp: calls_inv_def call_runs_def)
  have "call_ok ?c" "call_ptrs (length (rs_heap s)) ?c"
    using old(1,2) assms(3) by (auto simp: call_ok_def call_ptrs_def split: phase.splits option.splits)
  then have "calls_inv (length (rs_heap s)) ((rs_calls s)[i := ?c]) (rs_runs s @ [(i, reply)])"
    using inv old(3) assms(2) unfolding calls_inv_def by (auto simp: nth_list_update runs_of_def call_runs_def)
  moreover have "total_bytes ((rs_calls s)[i := ?c]) = total_bytes (rs_calls s)"
    using total_bytes_update [of i "rs_calls s" ?c] assms(2) by (simp add: reply_bytes_def)
  ultimately show ?thesis using assms(1) by (simp add: rpc_inv_def d(2))
qed

lemma calls_invD:
  assumes "rpc_inv s" "i < length (rs_calls s)"
  shows "call_ok (rs_calls s ! i)" "call_ptrs (length (rs_heap s)) (rs_calls s ! i)"
    "runs_of i (rs_runs s) = call_runs i (rs_calls s ! i)" "net_inv (length (rs_heap s)) (rs_net s)"
  using assms by (simp_all add: rpc_inv_def calls_inv_def)

lemma begin_inv:
  assumes "rpc_inv s" "i < length (rs_calls s)" "processReq_begin i s = Some t"
  shows "rpc_inv t"
proof -
  note d = calls_invD [OF assms(1,2)]
  obtain ph where t: "t = set_call i ((rs_calls s ! i)\<lparr>cl_phase := ph\<rparr>) s" "cl_phase (rs_calls s ! i) = Sent"
      "ph = Unreachable \<or> (\<exists>sn p a b. ph = Started sn p a b \<and> server_at (rs_net s) sn = Some p)"
    using assms(3) by (auto simp: processReq_begin_def Let_def readEndnameInfo_def split: phase.splits option.splits bool.splits)
  show ?thesis unfolding t(1)
    by (rule rpc_inv_silent [OF assms(1,2)])
      (use d t(2,3) in \<open>auto simp: call_ok_def call_ptrs_def reply_bytes_def net_inv_def\<close>)
qed

lemma start_inv:
  assumes "rpc_inv s" "i < length (rs_calls s)" "processReq_start i rnd s = Some t"
  shows "rpc_inv t"
proof -
  note d = calls_invD [OF assms(1,2)]
  obtain sn p a b where ph: "cl_phase (rs_calls s ! i) = Started sn p a b"
    using assms(3) by (auto simp: processReq_start_def Let_def split: phase.splits)
  then have e: "cl_exec (rs_calls s ! i) = NotCalled" "p < length (rs_heap s)" using d by (auto simp: call_ok_def call_ptrs_def)
  have "rpc_inv (set_call i ((rs_calls s ! i)\<lparr>cl_phase := Replied noReply\<rparr>) s)"
    by (rule rpc_inv_silent [OF assms(1,2)]) (use d e ph in \<open>auto simp: call_ok_def call_ptrs_def reply_bytes_def noReply_def\<close>)
  moreover have "rpc_inv (set_call i ((rs_calls s ! i)\<lparr>cl_phase := Waiting sn p a b, cl_exec := Running p\<rparr>) s)"
    by (rule rpc_inv_silent [OF assms(1,2)]) (use d e ph in \<open>auto simp: call_ok_def call_ptrs_def reply_bytes_def\<close>)
  ultimately show ?thesis using assms(3) ph by (auto simp: processReq_start_def Let_def split: if_splits)
qed

lemma wait_inv:
  assumes "rpc_inv s" "i < length (rs_calls s)" "processReq_receive i s = Some t \<or> processReq_tick i s = Some t"
  shows "rpc_inv t"
proof -
  note d = calls_invD [OF assms(1,2)]
  have w: "rpc_inv (set_call i ((rs_calls s ! i)\<lparr>cl_phase := Waited sn p a b r\<rparr>) s)"
    if "cl_phase (rs_calls s ! i) = Waiting sn p a b" "r = None \<or> (\<exists>m. r = Some m \<and> cl_exec (rs_calls s ! i) = Returned m)" for sn p a b r
    by (rule rpc_inv_silent [OF assms(1,2)]) (use d that in \<open>auto simp: call_ok_def call_ptrs_def reply_bytes_def\<close>)
  from assms(3) show ?thesis
  proof
    assume "processReq_receive i s = Some t"
    then show ?thesis using w by (auto simp: processReq_receive_def Let_def split: phase.splits exec.splits)
  next
    assume "processReq_tick i s = Some t"
    then show ?thesis using w assms(1) by (auto simp: processReq_tick_def Let_def split: phase.splits if_splits)
  qed
qed

lemma reply_inv:
  assumes "rpc_inv s" "i < length (rs_calls s)" "processReq_reply i rnd rnd900 s = Some t \<or> processReq_timer i s = Some t"
  shows "rpc_inv t"
proof -
  note d = calls_invD [OF assms(1,2)]
  let ?c = "rs_calls s ! i"
  have n: "rpc_inv (set_call i (?c\<lparr>cl_phase := Replied noReply\<rparr>) s)" if "reply_bytes ?c = 0"
    by (rule rpc_inv_silent [OF assms(1,2)]) (use d that in \<open>auto simp: call_ok_def call_ptrs_def reply_bytes_def noReply_def\<close>)
  have l: "rpc_inv (set_call i (?c\<lparr>cl_phase := Late r\<rparr>) s)" if "reply_bytes ?c = 0" "cl_exec ?c = Returned r" for r
    by (rule rpc_inv_silent [OF assms(1,2)]) (use d that in \<open>auto simp: call_ok_def call_ptrs_def reply_bytes_def\<close>)
  note r = rpc_inv_reply [OF assms(1,2)]
  from assms(3) show ?thesis
  proof
    assume a: "processReq_reply i rnd rnd900 s = Some t"
    then obtain sn p x y o' where ph: "cl_phase ?c = Waited sn p x y o'" by (auto simp: processReq_reply_def Let_def split: phase.splits)
    then have z: "reply_bytes ?c = 0" by (simp add: reply_bytes_def)
    show ?thesis
    proof (cases o')
      case None
      then show ?thesis using a ph n [OF z] by (auto simp: processReq_reply_def Let_def)
    next
      case (Some m)
      then have "cl_exec ?c = Returned m" using d(1) ph by (simp add: call_ok_def)
      then show ?thesis using a ph Some n [OF z] l [OF z] r [OF _ z] by (auto simp: processReq_reply_def Let_def split: if_splits)
    qed
  next
    assume a: "processReq_timer i s = Some t"
    then have z: "reply_bytes ?c = 0" by (auto simp: processReq_timer_def Let_def reply_bytes_def split: phase.splits)
    show ?thesis using a n [OF z] r [OF _ z] d(1) by (auto simp: processReq_timer_def Let_def call_ok_def split: phase.splits)
  qed
qed

lemma rpc_inv_net:
  assumes "rpc_inv s" "net_inv (length (rs_heap s)) rn" "nw_count rn = nw_count (rs_net s)" "nw_bytes rn = nw_bytes (rs_net s)"
  shows "rpc_inv (s\<lparr>rs_net := rn\<rparr>)"
  using assms by (simp add: rpc_inv_def)

lemma rpc_inv_send:
  assumes "rpc_inv s" "Call_send e m args s = Inl t"
  shows "rpc_inv t"
proof -
  define c :: "('a, 'b) call" where
    "c = \<lparr>cl_req = \<lparr>rq_endname = ce_endname e, rq_svcMeth = m, rq_args = args\<rparr>, cl_phase = Sent, cl_exec = NotCalled\<rparr>"
  have t: "rs_calls t = rs_calls s @ [c]" "rs_heap t = rs_heap s" "rs_runs t = rs_runs s"
      "rs_net t = (rs_net s)\<lparr>nw_count := nw_count (rs_net s) + 1, nw_bytes := nw_bytes (rs_net s) + word_of_nat (length args)\<rparr>"
    using assms(2) by (auto simp: Call_send_def c_def split: if_splits)
  have inv: "calls_inv (length (rs_heap s)) (rs_calls s) (rs_runs s)" using assms(1) by (simp add: rpc_inv_def)
  have fresh: "runs_of (length (rs_calls s)) (rs_runs s) = []"
    unfolding runs_of_def filter_empty_conv using inv unfolding calls_inv_def by auto
  have "call_ok c" "call_ptrs (length (rs_heap s)) c" "call_runs (length (rs_calls s)) c = []"
    by (simp_all add: c_def call_ok_def call_ptrs_def call_runs_def)
  then have "calls_inv (length (rs_heap s)) (rs_calls s @ [c]) (rs_runs s)"
    using inv fresh unfolding calls_inv_def by (auto simp: nth_append less_Suc_eq)
  moreover have "total_bytes (rs_calls s @ [c]) = total_bytes (rs_calls s) + length args"
    by (simp add: total_bytes_def c_def reply_bytes_def)
  ultimately show ?thesis using assms(1) by (simp add: rpc_inv_def t net_inv_def server_at_def)
qed

lemma call_ptrs_heap: "call_ptrs n c \<Longrightarrow> n \<le> n' \<Longrightarrow> call_ptrs n' c"
  by (auto simp: call_ptrs_def split: phase.splits exec.splits)

lemma calls_inv_heap: "calls_inv n cs runs \<Longrightarrow> n \<le> n' \<Longrightarrow> calls_inv n' cs runs"
  using call_ptrs_heap unfolding calls_inv_def by blast

lemmas net_ops = Reliable_def LongReordering_def LongDelays_def Cleanup_def MakeEnd_def Connect_def Enable_def AddServer_def
  DeleteServer_def Let_def server_at_def net_inv_def

lemma rpc_inv_step:
  assumes "rpc_inv s" "rpc_step s t"
  shows "rpc_inv t"
  using assms(2)
proof cases
  case step_send
  then show ?thesis using rpc_inv_send [OF assms(1)] by blast
next
  case step_begin
  then show ?thesis using begin_inv [OF assms(1)] by blast
next
  case step_start
  then show ?thesis using start_inv [OF assms(1)] by blast
next
  case step_run
  then show ?thesis using rpc_inv_run [OF assms(1)] by (auto simp: runHandler_def Let_def split: exec.splits)
next
  case step_receive
  then show ?thesis using wait_inv [OF assms(1)] by blast
next
  case step_tick
  then show ?thesis using wait_inv [OF assms(1)] by blast
next
  case step_reply
  then show ?thesis using reply_inv [OF assms(1)] by blast
next
  case step_timer
  then show ?thesis using reply_inv [OF assms(1)] by blast
next
  case step_server
  then show ?thesis using assms(1) calls_inv_heap by (fastforce simp: rpc_inv_def net_inv_def)
next
  case step_service
  then show ?thesis using assms(1) by (simp add: rpc_inv_def)
next
  case step_world
  then show ?thesis using assms(1) by (simp add: rpc_inv_def)
qed (use assms(1) in \<open>auto intro!: rpc_inv_net simp: rpc_inv_def net_ops split: if_splits option.splits\<close>)

lemma rpc_inv_init: "rpc_init s \<Longrightarrow> rpc_inv s"
  by (simp add: rpc_init_def rpc_inv_def calls_inv_def net_inv_def MakeNetwork_def server_at_def total_bytes_def)

interpretation rpc: transition_invariant rpc_init rpc_step rpc_inv
  by unfold_locales (auto intro: rpc_inv_init rpc_inv_step)

section \<open>Calls that go on\<close>

lemma LastIndex_dot_split: "CHR ''.'' \<notin> set meth \<Longrightarrow> LastIndex_dot (svc @ CHR ''.'' # meth) = int (length svc)"
proof -
  assume "CHR ''.'' \<notin> set meth"
  then have "takeWhile (\<lambda>c. c \<noteq> CHR ''.'') (rev meth @ CHR ''.'' # rev svc) = rev meth"
    by (subst takeWhile_append2) auto
  then show ?thesis by (simp add: LastIndex_dot_def)
qed

lemma Server_dispatch_split:
  assumes "CHR ''.'' \<notin> set meth" "rq_svcMeth req = svc @ CHR ''.'' # meth"
  shows "Server_dispatch req rs w = do {
    service \<leftarrow> srv_services rs svc;
    (reply, w1) \<leftarrow> Service_dispatch meth req service w;
    Some (rs\<lparr>srv_count := srv_count rs + 1\<rparr>, reply, w1) }"
proof -
  have "go_slice_to (svc @ CHR ''.'' # meth) (int (length svc)) = Some svc"
    "go_slice_from (svc @ CHR ''.'' # meth) (int (length svc) + 1) = Some meth"
    using go_slice_to_Some [of "int (length svc)" "svc @ CHR ''.'' # meth"]
      go_slice_from_Some [of "int (length svc) + 1" "svc @ CHR ''.'' # meth"] by (simp_all add: nat_add_distrib)
  then show ?thesis using LastIndex_dot_split [OF assms(1)] by (simp add: Server_dispatch_def assms(2) Let_def)
qed

lemma dispatch_server: "Server_dispatch req rs w = Some (rs1, reply, w1) \<Longrightarrow> rs1 = rs\<lparr>srv_count := srv_count rs + 1\<rparr>"
  by (auto simp: Server_dispatch_def Let_def bind_eq_Some_conv)

lemma begin_total:
  assumes "cl_phase (rs_calls s ! i) = Sent"
  shows "\<exists>ph. processReq_begin i s = Some (set_call i ((rs_calls s ! i)\<lparr>cl_phase := ph\<rparr>) s) \<and>
    (ph = Unreachable \<or> (\<exists>sn p a b. ph = Started sn p a b))"
proof -
  obtain e sn sv a b where "readEndnameInfo (rq_endname (cl_req (rs_calls s ! i))) (rs_net s) = (e, sn, sv, a, b)" by (rule prod_cases5)
  then show ?thesis using assms by (cases e; cases sn; cases sv) (auto simp: processReq_begin_def Let_def)
qed

definition rank :: "('e, 'v) call \<Rightarrow> nat" where
  "rank c = (case cl_phase c of
       Sent \<Rightarrow> 6
     | Started _ _ _ _ \<Rightarrow> 5
     | Waiting _ _ _ _ \<Rightarrow> (case cl_exec c of Returned _ \<Rightarrow> 3 | _ \<Rightarrow> 4)
     | Waited _ _ _ _ _ \<Rightarrow> 2
     | Late _ \<Rightarrow> 1
     | Unreachable \<Rightarrow> 1
     | Replied _ \<Rightarrow> 0)"

text \<open>A step of the program either leaves a call as it is or is one of the call's own.\<close>

lemma own_update:
  "processReq_begin j s = Some t \<Longrightarrow> \<exists>c. rs_calls t = (rs_calls s)[j := c]"
  "processReq_start j rnd s = Some t \<Longrightarrow> \<exists>c. rs_calls t = (rs_calls s)[j := c]"
  "runHandler j s = Some t \<Longrightarrow> \<exists>c. rs_calls t = (rs_calls s)[j := c]"
  "processReq_receive j s = Some t \<Longrightarrow> \<exists>c. rs_calls t = (rs_calls s)[j := c]"
  "processReq_tick j s = Some t \<Longrightarrow> \<exists>c. rs_calls t = (rs_calls s)[j := c]"
  "processReq_reply j rnd rnd900 s = Some t \<Longrightarrow> \<exists>c. rs_calls t = (rs_calls s)[j := c]"
  "processReq_timer j s = Some t \<Longrightarrow> \<exists>c. rs_calls t = (rs_calls s)[j := c]"
        apply (auto simp: processReq_begin_def Let_def split: phase.splits prod.splits option.splits bool.splits)[1]
       apply (auto simp: processReq_start_def Let_def split: phase.splits if_splits)[1]
      apply (auto simp: runHandler_def Let_def bind_eq_Some_conv split: exec.splits)[1]
     apply (auto simp: processReq_receive_def Let_def split: phase.splits exec.splits)[1]
    apply (auto simp: processReq_tick_def Let_def split: phase.splits if_splits intro: exI [of _ "rs_calls s ! j"])[1]
   apply (auto simp: processReq_reply_def send_reply_def Let_def split: phase.splits option.splits if_splits)[1]
  apply (auto simp: processReq_timer_def send_reply_def Let_def split: phase.splits)[1]
  done

lemma call_step_cases:
  assumes "rpc_step s t" "i < length (rs_calls s)"
  shows "i < length (rs_calls t) \<and> (rs_calls t ! i = rs_calls s ! i \<or> processReq_begin i s = Some t \<or>
    (\<exists>rnd. processReq_start i rnd s = Some t) \<or> runHandler i s = Some t \<or> processReq_receive i s = Some t \<or>
    processReq_tick i s = Some t \<or> (\<exists>a b. processReq_reply i a b s = Some t) \<or> processReq_timer i s = Some t)"
proof -
  have other: "i < length (rs_calls t) \<and> (j \<noteq> i \<longrightarrow> rs_calls t ! i = rs_calls s ! i)"
    if "\<exists>c. rs_calls t = (rs_calls s)[j := c]" for j using that assms(2) by auto
  from assms(1) show ?thesis
  proof cases
    case (step_send e svcMeth args)
    then show ?thesis using assms(2) by (auto simp: Call_send_def nth_append split: if_splits)
  next
    case (step_begin j)
    then show ?thesis using other [OF own_update(1) [OF step_begin(2)]] by (cases "j = i") auto
  next
    case (step_start j rnd)
    then show ?thesis using other [OF own_update(2) [OF step_start(2)]] by (cases "j = i") auto
  next
    case (step_run j)
    then show ?thesis using other [OF own_update(3) [OF step_run(2)]] by (cases "j = i") auto
  next
    case (step_receive j)
    then show ?thesis using other [OF own_update(4) [OF step_receive(2)]] by (cases "j = i") auto
  next
    case (step_tick j)
    then show ?thesis using other [OF own_update(5) [OF step_tick(2)]] by (cases "j = i") auto
  next
    case (step_reply j rnd rnd900)
    then show ?thesis using other [OF own_update(6) [OF step_reply(2)]] by (cases "j = i") auto
  next
    case (step_timer j)
    then show ?thesis using other [OF own_update(7) [OF step_timer(2)]] by (cases "j = i") auto
  qed (use assms(2) in simp_all)
qed

text \<open>Runs of the program along which a condition on the states holds.\<close>

definition rpc_while :: "(('e, 'v, 'w) rpc_state \<Rightarrow> bool) \<Rightarrow> ('e, 'v, 'w) rpc_state \<Rightarrow> ('e, 'v, 'w) rpc_state \<Rightarrow> bool" where
  "rpc_while P s t \<longleftrightarrow> rpc_step s t \<and> P t"

lemma rpc_while_last: "(rpc_while P)\<^sup>*\<^sup>* s t \<Longrightarrow> P s \<Longrightarrow> P t"
  by (induction rule: rtranclp_induct) (auto simp: rpc_while_def)

section \<open>A call to a living server\<close>

text \<open>The network is reliable and does not reorder, the end of the call is enabled and connected to a server that is registered and offers the service.\<close>

definition calm :: "nat \<Rightarrow> 'v \<Rightarrow> nat \<Rightarrow> string \<Rightarrow> 'w Service \<Rightarrow> ('e, 'v, 'w) rpc_state \<Rightarrow> bool" where
  "calm i sn p svc service s \<longleftrightarrow> i < length (rs_calls s) \<and>
     (let e = rq_endname (cl_req (rs_calls s ! i)) in is_enabled (rs_net s) e \<and> nw_connections (rs_net s) e = Some (Some sn)) \<and>
     server_at (rs_net s) sn = Some p \<and> p < length (rs_heap s) \<and> nw_reliable (rs_net s) \<and> \<not> nw_longReordering (rs_net s) \<and>
     srv_services (rs_heap s ! p) svc = Some service"

definition calm_call :: "'e reqMsg \<Rightarrow> 'v \<Rightarrow> nat \<Rightarrow> (replyMsg \<Rightarrow> bool) \<Rightarrow> ('e, 'v) call \<Rightarrow> bool" where
  "calm_call req sn p answered c \<longleftrightarrow> cl_req c = req \<and>
     (cl_phase c = Sent \<and> cl_exec c = NotCalled \<or>
      cl_phase c = Started sn p True False \<and> cl_exec c = NotCalled \<or>
      cl_phase c = Waiting sn p True False \<and> cl_exec c = Running p \<or>
      (\<exists>r. answered r \<and> cl_exec c = Returned r \<and>
         (cl_phase c = Waiting sn p True False \<or> cl_phase c = Waited sn p True False (Some r) \<or> cl_phase c = Replied r)))"

lemma calm_call_mono: "calm_call req sn p A c \<Longrightarrow> (\<And>r. A r \<Longrightarrow> B r) \<Longrightarrow> calm_call req sn p B c"
  unfolding calm_call_def by blast

lemma calmD:
  assumes "calm i sn p svc service s"
  shows "i < length (rs_calls s)" "readEndnameInfo (rq_endname (cl_req (rs_calls s ! i))) (rs_net s) = (True, Some sn, Some p, True, False)"
    "\<not> isServerDead (rq_endname (cl_req (rs_calls s ! i))) sn p (rs_net s)" "p < length (rs_heap s)"
    "srv_services (rs_heap s ! p) svc = Some service"
  using assms by (auto simp: calm_def Let_def readEndnameInfo_def isServerDead_def)

lemma calm_set_call: "calm i sn p svc service s \<Longrightarrow> cl_req c = cl_req (rs_calls s ! i) \<Longrightarrow> calm i sn p svc service (set_call i c s)"
  by (simp add: calm_def)

text \<open>What a step does to such a call.\<close>

lemma calm_call_step:
  assumes calm: "calm i sn p svc service s" and step: "rpc_step s t" and c: "calm_call req sn p A (rs_calls s ! i)"
    and name: "rq_svcMeth req = svc @ CHR ''.'' # meth" "CHR ''.'' \<notin> set meth" "svc_methods service meth = Some m"
  shows "calm_call req sn p (\<lambda>r. A r \<or> r = \<lparr>rp_ok = True, rp_reply = fst (me_Func m (rq_args req) (rs_world s))\<rparr>) (rs_calls t ! i)"
    (is "calm_call req sn p ?B _")
proof -
  note d = calmD [OF calm]
  have req: "cl_req (rs_calls s ! i) = req" using c by (simp add: calm_call_def)
  have keep: "calm_call req sn p ?B (rs_calls s ! i)" using c by (rule calm_call_mono) simp
  consider "rs_calls t ! i = rs_calls s ! i" | "processReq_begin i s = Some t" | rnd where "processReq_start i rnd s = Some t"
    | "runHandler i s = Some t" | "processReq_receive i s = Some t" | "processReq_tick i s = Some t"
    | a b where "processReq_reply i a b s = Some t" | "processReq_timer i s = Some t"
    using call_step_cases [OF step d(1)] by blast
  then show ?thesis
  proof cases
    case 2
    then have "rs_calls t ! i = (rs_calls s ! i)\<lparr>cl_phase := Started sn p True False\<rparr>" "cl_exec (rs_calls s ! i) = NotCalled"
      using d(1,2) c by (auto simp: processReq_begin_def Let_def calm_call_def split: phase.splits)
    then show ?thesis using req by (simp add: calm_call_def)
  next
    case 3
    then have "rs_calls t ! i = (rs_calls s ! i)\<lparr>cl_phase := Waiting sn p True False, cl_exec := Running p\<rparr>"
      using d(1) c by (auto simp: processReq_start_def Let_def calm_call_def split: phase.splits)
    then show ?thesis using req by (simp add: calm_call_def)
  next
    case 4
    then have ph: "cl_phase (rs_calls s ! i) = Waiting sn p True False" "cl_exec (rs_calls s ! i) = Running p"
      using c by (auto simp: runHandler_def Let_def calm_call_def split: exec.splits)
    then have "rs_calls t ! i = (rs_calls s ! i)\<lparr>cl_exec := Returned \<lparr>rp_ok = True, rp_reply = fst (me_Func m (rq_args req) (rs_world s))\<rparr>\<rparr>"
      using 4 d(1,5) name(3) req
      by (auto simp: runHandler_def Let_def Server_dispatch_split [OF name(2,1)] Service_dispatch_def bind_eq_Some_conv split: prod.splits)
    then show ?thesis using req ph(1) by (simp add: calm_call_def)
  next
    case 5
    then obtain r where "cl_exec (rs_calls s ! i) = Returned r" "rs_calls t ! i = (rs_calls s ! i)\<lparr>cl_phase := Waited sn p True False (Some r)\<rparr>" "A r"
      using d(1) c by (auto simp: processReq_receive_def Let_def calm_call_def split: phase.splits exec.splits)
    then show ?thesis using req by (simp add: calm_call_def)
  next
    case 6
    then have "t = s" using d(3) c by (auto simp: processReq_tick_def Let_def calm_call_def split: phase.splits if_splits)
    then show ?thesis using keep by simp
  next
    case 7
    then obtain r where "cl_exec (rs_calls s ! i) = Returned r" "rs_calls t ! i = (rs_calls s ! i)\<lparr>cl_phase := Replied r\<rparr>" "A r"
      using d(1,3) c by (auto simp: processReq_reply_def send_reply_def Let_def calm_call_def split: phase.splits)
    then show ?thesis using req by (simp add: calm_call_def)
  next
    case 8
    then show ?thesis using c by (auto simp: processReq_timer_def Let_def calm_call_def split: phase.splits)
  qed (use keep in simp)
qed

lemma calm_run:
  assumes P: "P = calm i sn p svc service"
    and run: "(rpc_while P)\<^sup>*\<^sup>* s t" "P s" and sent: "rs_calls s ! i = \<lparr>cl_req = req, cl_phase = Sent, cl_exec = NotCalled\<rparr>"
    and name: "rq_svcMeth req = svc @ CHR ''.'' # meth" "CHR ''.'' \<notin> set meth" "svc_methods service meth = Some m"
  shows "calm_call req sn p (\<lambda>r. \<exists>u. (rpc_while P)\<^sup>*\<^sup>* s u \<and> (rpc_while P)\<^sup>*\<^sup>* u t \<and>
    r = \<lparr>rp_ok = True, rp_reply = fst (me_Func m (rq_args req) (rs_world u))\<rparr>) (rs_calls t ! i)"
  using run(1)
proof (induction rule: rtranclp_induct)
  case base
  then show ?case using sent by (simp add: calm_call_def)
next
  case (step t t')
  have "calm i sn p svc service t" using rpc_while_last [OF step(1) run(2)] by (simp add: P)
  moreover have "rpc_step t t'" using step(2) by (simp add: rpc_while_def)
  ultimately have "calm_call req sn p (\<lambda>r. (\<exists>u. (rpc_while P)\<^sup>*\<^sup>* s u \<and> (rpc_while P)\<^sup>*\<^sup>* u t \<and>
      r = \<lparr>rp_ok = True, rp_reply = fst (me_Func m (rq_args req) (rs_world u))\<rparr>) \<or>
      r = \<lparr>rp_ok = True, rp_reply = fst (me_Func m (rq_args req) (rs_world t))\<rparr>) (rs_calls t' ! i)"
    by (rule calm_call_step [OF _ _ step.IH name])
  then show ?case
  proof (rule calm_call_mono)
    fix r
    assume "(\<exists>u. (rpc_while P)\<^sup>*\<^sup>* s u \<and> (rpc_while P)\<^sup>*\<^sup>* u t \<and> r = \<lparr>rp_ok = True, rp_reply = fst (me_Func m (rq_args req) (rs_world u))\<rparr>) \<or>
        r = \<lparr>rp_ok = True, rp_reply = fst (me_Func m (rq_args req) (rs_world t))\<rparr>"
    then obtain u where "(rpc_while P)\<^sup>*\<^sup>* s u" "(rpc_while P)\<^sup>*\<^sup>* u t"
      "r = \<lparr>rp_ok = True, rp_reply = fst (me_Func m (rq_args req) (rs_world u))\<rparr>" using step(1) by blast
    then show "\<exists>u. (rpc_while P)\<^sup>*\<^sup>* s u \<and> (rpc_while P)\<^sup>*\<^sup>* u t' \<and> r = \<lparr>rp_ok = True, rp_reply = fst (me_Func m (rq_args req) (rs_world u))\<rparr>"
      using rtranclp.rtrancl_into_rtrancl [of "rpc_while P", OF _ step(2)] by blast
  qed
qed

text \<open>It goes on until it is answered.\<close>

lemma calm_progress:
  assumes calm: "calm i sn p svc service s" and c: "calm_call req sn p A (rs_calls s ! i)" and rank: "0 < rank (rs_calls s ! i)"
    and name: "rq_svcMeth req = svc @ CHR ''.'' # meth" "CHR ''.'' \<notin> set meth" "svc_methods service meth = Some m"
  shows "\<exists>t. rpc_while (calm i sn p svc service) s t \<and> rank (rs_calls t ! i) < rank (rs_calls s ! i)"
proof -
  note d = calmD [OF calm]
  let ?c = "rs_calls s ! i"
  have req: "cl_req ?c = req" using c by (simp add: calm_call_def)
  note set_call = calm_set_call [OF calm]
  consider "cl_phase ?c = Sent" | "cl_phase ?c = Started sn p True False"
    | "cl_phase ?c = Waiting sn p True False" "cl_exec ?c = Running p"
    | r where "cl_phase ?c = Waiting sn p True False" "cl_exec ?c = Returned r"
    | r where "cl_phase ?c = Waited sn p True False (Some r)"
    using c rank by (auto simp: calm_call_def rank_def)
  then show ?thesis
  proof cases
    case 1
    let ?t = "set_call i (?c\<lparr>cl_phase := Started sn p True False\<rparr>) s"
    have "processReq_begin i s = Some ?t" using 1 d(2) by (simp add: processReq_begin_def Let_def)
    then show ?thesis using step_begin [OF d(1)] 1 d(1) set_call by (intro exI [of _ ?t]) (simp add: rpc_while_def rank_def)
  next
    case 2
    let ?t = "set_call i (?c\<lparr>cl_phase := Waiting sn p True False, cl_exec := Running p\<rparr>) s"
    have "processReq_start i 0 s = Some ?t" using 2 by (simp add: processReq_start_def Let_def)
    then show ?thesis using step_start [OF d(1)] 2 d(1) set_call by (intro exI [of _ ?t]) (simp add: rpc_while_def rank_def)
  next
    case 3
    define reply where "reply = \<lparr>rp_ok = True, rp_reply = fst (me_Func m (rq_args req) (rs_world s))\<rparr>"
    let ?t = "(set_call i (?c\<lparr>cl_exec := Returned reply\<rparr>) s)\<lparr>rs_heap := (rs_heap s)[p := (rs_heap s ! p)\<lparr>srv_count := srv_count (rs_heap s ! p) + 1\<rparr>],
        rs_world := snd (me_Func m (rq_args req) (rs_world s)), rs_runs := rs_runs s @ [(i, reply)]\<rparr>"
    have run: "runHandler i s = Some ?t"
      using 3 d(5) name(3) req
      by (simp add: runHandler_def Let_def Server_dispatch_split [OF name(2,1)] Service_dispatch_def reply_def split: prod.splits)
    have "calm i sn p svc service ?t" using calm by (simp add: calm_def)
    then show ?thesis using step_run [OF d(1) run] 3 d(1) by (intro exI [of _ ?t]) (simp add: rpc_while_def rank_def)
  next
    case 4
    let ?t = "set_call i (?c\<lparr>cl_phase := Waited sn p True False (Some r)\<rparr>) s"
    have "processReq_receive i s = Some ?t" using 4 by (simp add: processReq_receive_def Let_def)
    then show ?thesis using step_receive [OF d(1)] 4 d(1) set_call by (intro exI [of _ ?t]) (simp add: rpc_while_def rank_def)
  next
    case 5
    let ?t = "send_reply i r s"
    have run: "processReq_reply i 0 0 s = Some ?t" using 5 d(3) by (simp add: processReq_reply_def Let_def)
    have "calm i sn p svc service ?t" using calm by (simp add: calm_def send_reply_def is_enabled_def server_at_def)
    then show ?thesis using step_reply [OF d(1) run] 5 d(1) by (intro exI [of _ ?t]) (simp add: rpc_while_def rank_def send_reply_def)
  qed
qed

lemma rank_0: "rank c = 0 \<longleftrightarrow> (\<exists>r. cl_phase c = Replied r)"
  by (auto simp: rank_def split: phase.splits exec.splits)

lemma calm_ends:
  assumes calm: "calm i sn p svc service s" and c: "calm_call req sn p A (rs_calls s ! i)"
    and name: "rq_svcMeth req = svc @ CHR ''.'' # meth" "CHR ''.'' \<notin> set meth" "svc_methods service meth = Some m"
  shows "\<exists>t r. (rpc_while (calm i sn p svc service))\<^sup>*\<^sup>* s t \<and> cl_phase (rs_calls t ! i) = Replied r"
  using calm c
proof (induction "rank (rs_calls s ! i)" arbitrary: s A rule: less_induct)
  case less
  show ?case
  proof (cases "rank (rs_calls s ! i) = 0")
    case True
    then show ?thesis using rank_0 by blast
  next
    case False
    then obtain t where t: "rpc_while (calm i sn p svc service) s t" "rank (rs_calls t ! i) < rank (rs_calls s ! i)"
      using calm_progress [OF less.prems _ name] by auto
    then have "rpc_step s t" "calm i sn p svc service t" by (auto simp: rpc_while_def)
    from less.hyps [OF t(2) this(2) calm_call_step [OF less.prems(1) this(1) less.prems(2) name]]
    obtain u r where "(rpc_while (calm i sn p svc service))\<^sup>*\<^sup>* t u" "cl_phase (rs_calls u ! i) = Replied r" by blast
    then show ?thesis using converse_rtranclp_into_rtranclp [of "rpc_while (calm i sn p svc service)", OF t(1)] by blast
  qed
qed

section \<open>A call to a dead server\<close>

text \<open>The server that a call has been handed to is no longer the one registered under its name.\<close>

definition gone :: "nat \<Rightarrow> 'v \<Rightarrow> nat \<Rightarrow> ('e, 'v, 'w) rpc_state \<Rightarrow> bool" where
  "gone i sn p s \<longleftrightarrow> i < length (rs_calls s) \<and> server_at (rs_net s) sn \<noteq> Some p"

definition handed_to :: "'v \<Rightarrow> nat \<Rightarrow> ('e, 'v) call \<Rightarrow> bool" where
  "handed_to sn p c \<longleftrightarrow> (\<exists>a b r. cl_phase c \<in> {Started sn p a b, Waiting sn p a b, Waited sn p a b r})"

lemma gone_step:
  assumes "gone i sn p s" "rpc_step s t" "handed_to sn p (rs_calls s ! i) \<or> cl_phase (rs_calls s ! i) = Replied noReply"
  shows "handed_to sn p (rs_calls t ! i) \<or> cl_phase (rs_calls t ! i) = Replied noReply"
proof -
  have i: "i < length (rs_calls s)" and dead: "isServerDead e sn p (rs_net s)" for e
    using assms(1) by (auto simp: gone_def isServerDead_def)
  consider "rs_calls t ! i = rs_calls s ! i" | "processReq_begin i s = Some t" | rnd where "processReq_start i rnd s = Some t"
    | "runHandler i s = Some t" | "processReq_receive i s = Some t" | "processReq_tick i s = Some t"
    | a b where "processReq_reply i a b s = Some t" | "processReq_timer i s = Some t"
    using call_step_cases [OF assms(2) i] by blast
  then show ?thesis
  proof cases
    case 2
    then show ?thesis using assms(3) by (auto simp: processReq_begin_def handed_to_def Let_def split: phase.splits)
  next
    case 3
    then show ?thesis using assms(3) i by (auto simp: processReq_start_def handed_to_def Let_def split: phase.splits if_splits)
  next
    case 4
    then have "cl_phase (rs_calls t ! i) = cl_phase (rs_calls s ! i)"
      using i by (auto simp: runHandler_def Let_def bind_eq_Some_conv split: exec.splits)
    then show ?thesis using assms(3) by (simp add: handed_to_def)
  next
    case 5
    then show ?thesis using assms(3) i by (auto simp: processReq_receive_def handed_to_def Let_def split: phase.splits exec.splits)
  next
    case 6
    then show ?thesis using assms(3) i by (auto simp: processReq_tick_def handed_to_def Let_def split: phase.splits if_splits)
  next
    case 7
    then show ?thesis using assms(3) i dead
      by (auto simp: processReq_reply_def handed_to_def Let_def split: phase.splits option.splits if_splits)
  next
    case 8
    then show ?thesis using assms(3) by (auto simp: processReq_timer_def handed_to_def Let_def split: phase.splits)
  qed (use assms(3) in simp)
qed

section \<open>Properties\<close>

text \<open>The course of a call on which nothing goes wrong.\<close>

definition call_path :: "nat \<Rightarrow> nat \<Rightarrow> nat \<Rightarrow> nat \<Rightarrow> ('e, 'v, 'w) rpc_state \<Rightarrow> ('e, 'v, 'w) rpc_state option" where
  "call_path i rnd1 rnd2 rnd900 s = do {
     s1 \<leftarrow> processReq_begin i s;
     s2 \<leftarrow> processReq_start i rnd1 s1;
     s3 \<leftarrow> runHandler i s2;
     s4 \<leftarrow> processReq_receive i s3;
     processReq_reply i rnd2 rnd900 s4
   }"

text \<open>C19: The network executes the handler of a call at most once, whatever it delays, drops or reorders and whatever servers are added,
  deleted and disconnected meanwhile, and a caller is told that its call succeeded only with the reply that this one execution returned.\<close>

theorem rpc_at_most_once:
  assumes "reach rpc_init rpc_step s" "i < length (rs_calls s)"
  shows "length (runs_of i (rs_runs s)) \<le> 1 \<and>
    (\<forall>r. cl_phase (rs_calls s ! i) = Replied r \<and> rp_ok r \<longrightarrow> runs_of i (rs_runs s) = [(i, r)])"
proof -
  note d = calls_invD [OF rpc.reach_inv [OF assms(1)] assms(2)]
  have "length (call_runs i (rs_calls s ! i)) \<le> 1" by (simp add: call_runs_def split: exec.splits)
  moreover have "call_runs i (rs_calls s ! i) = [(i, r)]" if "cl_phase (rs_calls s ! i) = Replied r" "rp_ok r" for r
    using d(1) that by (auto simp: call_ok_def noReply_def call_runs_def)
  ultimately show ?thesis using d(3) by auto
qed

text \<open>C20: a call to a living server succeeds.  From when a call was sent, consider any run of the program, with every interleaving of this and other
  calls, timers and random numbers, along which the network stays reliable and without long reordering and the
  call's end stays enabled and connected to the same registered server, which offers the service under the
  part of the name before its last dot.  If the call has been answered, it has succeeded, with the reply that the method returned when it ran in a state
  of the run; and from every state of the run the call can go on, within such runs, until it is answered, the handler's return being one of the steps.\<close>

theorem rpc_reliable_call:
  assumes "calm i sn p svc service s" "rs_calls s ! i = \<lparr>cl_req = req, cl_phase = Sent, cl_exec = NotCalled\<rparr>"
    "rq_svcMeth req = svc @ CHR ''.'' # meth" "CHR ''.'' \<notin> set meth" "svc_methods service meth = Some m"
    "(rpc_while (calm i sn p svc service))\<^sup>*\<^sup>* s t"
  shows "(\<forall>r. cl_phase (rs_calls t ! i) = Replied r \<longrightarrow>
      (\<exists>u. (rpc_while (calm i sn p svc service))\<^sup>*\<^sup>* s u \<and> (rpc_while (calm i sn p svc service))\<^sup>*\<^sup>* u t \<and>
         r = \<lparr>rp_ok = True, rp_reply = fst (me_Func m (rq_args req) (rs_world u))\<rparr>)) \<and>
    (\<exists>u r. (rpc_while (calm i sn p svc service))\<^sup>*\<^sup>* t u \<and> cl_phase (rs_calls u ! i) = Replied r)"
proof -
  note c = calm_run [OF refl assms(6,1,2,3,4,5)]
  have "calm i sn p svc service t" by (rule rpc_while_last [OF assms(6,1)])
  from calm_ends [OF this c assms(3-5)] c show ?thesis unfolding calm_call_def by auto
qed

text \<open>C21: a caller does not get the reply of a server that has been deleted.  Once the server that a call was handed to is no longer registered under its name, and the
  call's reply is not yet decided on or delayed, the call is never answered with success as long as the server is not
  registered again, even when the handler still runs to its end and whatever else happens; and the wait for a handler
  that does not return ends: the next timer stops it, and the call is answered \<^verbatim>\<open>false\<close>.\<close>

theorem rpc_no_reply_from_deleted:
  assumes "gone i sn p s" "handed_to sn p (rs_calls s ! i)" "(rpc_while (gone i sn p))\<^sup>*\<^sup>* s t"
  shows "(\<forall>r. cl_phase (rs_calls t ! i) = Replied r \<longrightarrow> r = noReply) \<and>
    (\<forall>a b. cl_phase (rs_calls t ! i) = Waiting sn p a b \<longrightarrow>
       (\<exists>t'. processReq_tick i t = Some t' \<and> (\<forall>rnd rnd900. \<exists>t''. processReq_reply i rnd rnd900 t' = Some t'' \<and>
          cl_phase (rs_calls t'' ! i) = Replied noReply \<and> rs_runs t'' = rs_runs t)))"
proof -
  have "handed_to sn p (rs_calls t ! i) \<or> cl_phase (rs_calls t ! i) = Replied noReply"
    using assms(3)
  proof (induction rule: rtranclp_induct)
    case (step t t')
    have "gone i sn p t" by (rule rpc_while_last [OF step(1) assms(1)])
    moreover have "rpc_step t t'" using step(2) by (simp add: rpc_while_def)
    ultimately show ?case using step.IH by (rule gone_step)
  qed (use assms(2) in simp)
  then have "r = noReply" if "cl_phase (rs_calls t ! i) = Replied r" for r using that by (auto simp: handed_to_def)
  moreover have "gone i sn p t" by (rule rpc_while_last [OF assms(3,1)])
  then have "i < length (rs_calls t)" "isServerDead (rq_endname (cl_req (rs_calls t ! i))) sn p (rs_net t)"
    by (auto simp: gone_def isServerDead_def)
  ultimately show ?thesis by (auto simp: processReq_tick_def processReq_reply_def Let_def)
qed

text \<open>The statistics are right up to the width of the counters: the number of calls and the bytes of all arguments and of all
  replies that were handed to a caller, so \<^verbatim>\<open>GetTotalCount\<close> is exact below \<open>2 ^ 31\<close> calls and wraps around beyond.\<close>

theorem rpc_statistics:
  assumes "reach rpc_init rpc_step s"
  shows "GetTotalCount (rs_net s) = signed_take_bit 31 (int (length (rs_calls s))) \<and>
    GetTotalBytes (rs_net s) = signed_take_bit 63 (int (total_bytes (rs_calls s))) \<and>
    (length (rs_calls s) < 2 ^ 31 \<longrightarrow> GetTotalCount (rs_net s) = int (length (rs_calls s)))"
proof -
  have "rpc_inv s" using rpc.reach_inv [OF assms] .
  then have c: "nw_count (rs_net s) = word_of_int (int (length (rs_calls s)))" "nw_bytes (rs_net s) = word_of_int (int (total_bytes (rs_calls s)))"
    by (simp_all add: rpc_inv_def)
  have t: "GetTotalCount (rs_net s) = signed_take_bit 31 (int (length (rs_calls s)))"
    unfolding GetTotalCount_def c sint_sbintrunc' by simp
  moreover have "GetTotalBytes (rs_net s) = signed_take_bit 63 (int (total_bytes (rs_calls s)))"
    unfolding GetTotalBytes_def c sint_sbintrunc' by simp
  moreover have "signed_take_bit 31 (int (length (rs_calls s))) = int (length (rs_calls s))" if "length (rs_calls s) < 2 ^ 31"
    using that by (subst signed_take_bit_int_eq_self_iff) simp
  ultimately show ?thesis by simp
qed

section \<open>Examples\<close>

definition demo_method :: "nat Method" where
  "demo_method = \<lparr>me_Name = ''Inc'', me_PkgPath = '''', me_NumIn = 3, me_In2_Ptr = True, me_NumOut = 0, me_Func = (\<lambda>args w. (args, Suc w))\<rparr>"

definition demo_ready :: "(nat, nat, nat) rpc_state" where
  "demo_ready =
     (let s0 = \<lparr>rs_net = MakeNetwork, rs_heap = [], rs_calls = [], rs_world = 0, rs_runs = []\<rparr>;
          s1 = s0\<lparr>rs_heap := rs_heap s0 @ [MakeServer]\<rparr>;
          s2 = s1\<lparr>rs_heap := (rs_heap s1)[0 := AddService (MakeService ''Raft.Echo'' [demo_method]) (rs_heap s1 ! 0)]\<rparr>;
          s3 = s2\<lparr>rs_net := AddServer 5 0 (rs_net s2)\<rparr>;
          s4 = s3\<lparr>rs_net := Connect 1 5 (rs_net s3)\<rparr>
      in s4\<lparr>rs_net := Enable 1 True (rs_net s4)\<rparr>)"

lemma demo_ready_reach: "reach rpc_init rpc_step demo_ready"
  unfolding demo_ready_def Let_def
  by (intro reach_step [where step = rpc_step, OF _ step_enable] reach_step [where step = rpc_step, OF _ step_connect] reach_step [where step = rpc_step, OF _ step_add] reach_step [where step = rpc_step, OF _ step_service]
      reach_step [where step = rpc_step, OF _ step_server] reach_init) (simp_all add: rpc_init_def)

definition demo_sent :: "(nat, nat, nat) rpc_state" where
  "demo_sent = projl (Call_send \<lparr>ce_endname = 1\<rparr> ''Raft.Echo.Inc'' [7] demo_ready)"

lemma demo_sent_reach: "reach rpc_init rpc_step demo_sent"
proof (rule reach_step [OF demo_ready_reach])
  have "\<exists>t. Call_send \<lparr>ce_endname = 1\<rparr> ''Raft.Echo.Inc'' [7] demo_ready = Inl t"
    by (simp add: Call_send_def demo_ready_def Let_def MakeNetwork_def AddServer_def Connect_def Enable_def)
  then show "rpc_step demo_ready demo_sent" unfolding demo_sent_def by (metis step_send sum.sel(1))
qed

lemma call_path_reach:
  assumes "reach rpc_init rpc_step s" "i < length (rs_calls s)" "call_path i r1 r2 r3 s = Some t"
  shows "reach rpc_init rpc_step t"
proof -
  obtain s1 s2 s3 s4 where p: "processReq_begin i s = Some s1" "processReq_start i r1 s1 = Some s2" "runHandler i s2 = Some s3"
      "processReq_receive i s3 = Some s4" "processReq_reply i r2 r3 s4 = Some t"
    using assms(3) by (auto simp: call_path_def bind_eq_Some_conv)
  have "cl_phase (rs_calls s ! i) = Sent" using p(1) by (auto simp: processReq_begin_def Let_def split: phase.splits)
  then have "length (rs_calls s1) = length (rs_calls s)" using begin_total [of s i] p(1) by auto
  moreover have "length (rs_calls s2) = length (rs_calls s1)" using p(2) by (auto simp: processReq_start_def Let_def split: phase.splits if_splits)
  moreover have "length (rs_calls s3) = length (rs_calls s2)" using p(3) by (auto simp: runHandler_def Let_def bind_eq_Some_conv split: exec.splits)
  moreover have "length (rs_calls s4) = length (rs_calls s3)" using p(4) by (auto simp: processReq_receive_def Let_def split: phase.splits exec.splits)
  ultimately have "i < length (rs_calls s1)" "i < length (rs_calls s2)" "i < length (rs_calls s3)" "i < length (rs_calls s4)"
    using assms(2) by simp_all
  note len = assms(2) this
  note go = reach_step [where step = rpc_step]
  show ?thesis
    by (rule go [OF go [OF go [OF go [OF go [OF assms(1) step_begin [OF len(1) p(1)]] step_start [OF len(2) p(2)]] step_run [OF len(3) p(3)]]
        step_receive [OF len(4) p(4)]] step_reply [OF len(5) p(5)]])
qed

text \<open>The call of the example, with the facts the theorems ask for.\<close>

lemma demo_sent_call:
  "length (rs_calls demo_sent) = 1"
  "rs_calls demo_sent ! 0 = \<lparr>cl_req = \<lparr>rq_endname = 1, rq_svcMeth = ''Raft.Echo.Inc'', rq_args = [7]\<rparr>, cl_phase = Sent, cl_exec = NotCalled\<rparr>"
  "is_enabled (rs_net demo_sent) 1" "nw_connections (rs_net demo_sent) 1 = Some (Some 5)" "server_at (rs_net demo_sent) 5 = Some 0"
  "0 < length (rs_heap demo_sent)" "nw_reliable (rs_net demo_sent)" "\<not> nw_longReordering (rs_net demo_sent)" "rs_world demo_sent = 0"
  "srv_services (rs_heap demo_sent ! 0) ''Raft.Echo'' = Some (MakeService ''Raft.Echo'' [demo_method])"
  "svc_methods (MakeService ''Raft.Echo'' [demo_method]) ''Inc'' = Some demo_method"
  by (simp_all add: demo_sent_def Call_send_def demo_ready_def Let_def MakeNetwork_def AddServer_def Connect_def Enable_def MakeService_def
      demo_method_def handler_ok_def AddService_def MakeServer_def is_enabled_def server_at_def)

lemma demo_sent_calm: "calm 0 5 0 ''Raft.Echo'' (MakeService ''Raft.Echo'' [demo_method]) demo_sent"
  using demo_sent_call(3,4,6) by (simp add: calm_def demo_sent_call)

theorem rpc_reliable_call_witness:
  "\<exists>u r. (rpc_while (calm 0 5 0 ''Raft.Echo'' (MakeService ''Raft.Echo'' [demo_method])))\<^sup>*\<^sup>* demo_sent u \<and>
     cl_phase (rs_calls u ! 0) = Replied r"
  using rpc_reliable_call [OF demo_sent_calm demo_sent_call(2) _ _ demo_sent_call(11), where t = demo_sent] by fastforce

definition demo_done :: "(nat, nat, nat) rpc_state" where
  "demo_done = the (call_path 0 0 0 0 demo_sent)"

lemma demo_done_run: "call_path 0 0 0 0 demo_sent = Some demo_done" "length (rs_calls demo_done) = 1"
    "cl_phase (rs_calls demo_done ! 0) = Replied \<lparr>rp_ok = True, rp_reply = [7]\<rparr>"
proof -
  have "map_option (\<lambda>t. (length (rs_calls t), cl_phase (rs_calls t ! 0))) (call_path 0 0 0 0 demo_sent) =
      Some (1, Replied \<lparr>rp_ok = True, rp_reply = [7]\<rparr>)" by code_simp
  then show "call_path 0 0 0 0 demo_sent = Some demo_done" "length (rs_calls demo_done) = 1"
      "cl_phase (rs_calls demo_done ! 0) = Replied \<lparr>rp_ok = True, rp_reply = [7]\<rparr>"
    unfolding demo_done_def by auto
qed

theorem rpc_at_most_once_witness:
  "reach rpc_init rpc_step demo_done \<and> runs_of 0 (rs_runs demo_done) = [(0, \<lparr>rp_ok = True, rp_reply = [7]\<rparr>)]"
proof -
  have r: "reach rpc_init rpc_step demo_done"
    by (rule call_path_reach [OF demo_sent_reach _ demo_done_run(1)]) (simp add: demo_sent_call)
  then show ?thesis using rpc_at_most_once [OF r, of 0] demo_done_run(2,3) by simp
qed

theorem rpc_statistics_witness: "GetTotalCount (rs_net demo_sent) = 1 \<and> GetTotalBytes (rs_net demo_sent) = 1"
proof -
  have "total_bytes (rs_calls demo_sent) = 1" by code_simp
  then show ?thesis using rpc_statistics [OF demo_sent_reach] demo_sent_call(1) by simp
qed

definition demo_waiting :: "(nat, nat, nat) rpc_state" where
  "demo_waiting = (let s = the (processReq_start 0 0 (the (processReq_begin 0 demo_sent)))
     in s\<lparr>rs_net := DeleteServer 5 (rs_net s)\<rparr>)"

theorem rpc_no_reply_from_deleted_witness:
  "\<exists>t' t''. processReq_tick 0 demo_waiting = Some t' \<and> processReq_reply 0 7 7 t' = Some t'' \<and>
     cl_phase (rs_calls t'' ! 0) = Replied noReply"
proof -
  have ph: "cl_phase (rs_calls demo_waiting ! 0) = Waiting 5 0 True False" "length (rs_calls demo_waiting) = 1"
    "server_at (rs_net demo_waiting) 5 = None" by code_simp+
  then have "gone 0 5 0 demo_waiting" "handed_to 5 0 (rs_calls demo_waiting ! 0)" by (auto simp: gone_def handed_to_def)
  from rpc_no_reply_from_deleted [OF this rtranclp.rtrancl_refl] ph(1) show ?thesis by blast
qed

end
