(* ===== verification/Lab_Gob.thy ===== *)
theory Lab_Gob
  imports Go_Prelude Complex_Main "HOL-Library.Char_ord"
begin

text \<open>
  The wrapper around Go's encoder: \<^verbatim>\<open>src/src/labgob/labgob.go\<close>.

  The types of a program are the elements of a finite type \<open>'t\<close>, the identities that reflection compares, and a table gives
  the kind of each; types may be recursive.  A value is what reflection sees of it.  The package's variables
  are the record \<open>gob_state\<close>, with the printed warnings.  \<^verbatim>\<open>encoding/gob\<close> itself is an argument.  Names are ASCII.  \<open>None\<close> is a panic.
\<close>

section \<open>Types and values\<close>

datatype 't gkind =
    GStruct "(string \<times> 't) list"
  | GSlice 't
  | GArray 't
  | GPtr 't
  | GMap 't 't
  | GBasic

datatype warning = LowerCase string | NonDefault string

record 't gob_state =
  gb_errorCount :: int
  gb_checked :: "'t set"
  gb_out :: "warning list"

text \<open>\<^verbatim>\<open>unicode.IsUpper\<close> of the first character of a name.\<close>

fun IsUpper_first :: "string \<Rightarrow> bool" where
  "IsUpper_first [] = False"
| "IsUpper_first (c # cs) = (CHR ''A'' \<le> c \<and> c \<le> CHR ''Z'')"

section \<open>Checking types\<close>

definition complain :: "string \<Rightarrow> 't gob_state \<Rightarrow> 't gob_state" where
  "complain name st = (if IsUpper_first name then st
     else st\<lparr>gb_out := gb_out st @ [LowerCase name], gb_errorCount := gb_errorCount st + 1\<rparr>)"

function checkType :: "('t :: finite \<Rightarrow> 't gkind) \<Rightarrow> 't \<Rightarrow> 't gob_state \<Rightarrow> 't gob_state"
  and checkFields :: "('t \<Rightarrow> 't gkind) \<Rightarrow> (string \<times> 't) list \<Rightarrow> 't gob_state \<Rightarrow> 't gob_state" where
  "checkType tt t st =
     (if t \<in> gb_checked st then st
      else case tt t of
          GStruct fs \<Rightarrow> checkFields tt fs (st\<lparr>gb_checked := insert t (gb_checked st)\<rparr>)
        | GSlice u \<Rightarrow> checkType tt u (st\<lparr>gb_checked := insert t (gb_checked st)\<rparr>)
        | GArray u \<Rightarrow> checkType tt u (st\<lparr>gb_checked := insert t (gb_checked st)\<rparr>)
        | GPtr u \<Rightarrow> checkType tt u (st\<lparr>gb_checked := insert t (gb_checked st)\<rparr>)
        | GMap elem key \<Rightarrow> checkType tt key (checkType tt elem (st\<lparr>gb_checked := insert t (gb_checked st)\<rparr>))
        | GBasic \<Rightarrow> st\<lparr>gb_checked := insert t (gb_checked st)\<rparr>)"
| "checkFields tt [] st = st"
| "checkFields tt ((name, ft) # fs) st = checkFields tt fs (checkType tt ft (complain name st))"
  by pat_completeness auto

lemma complain_checked [simp]: "gb_checked (complain name st) = gb_checked st"
  by (simp add: complain_def)

text \<open>The set of checked types only grows, so every call leaves fewer types to check.\<close>

lemma checked_grows:
  shows "checkType_checkFields_dom (Inl (tt, t, st)) \<Longrightarrow> gb_checked st \<subseteq> gb_checked (checkType tt t st)"
    and "checkType_checkFields_dom (Inr (tt, fs, st)) \<Longrightarrow> gb_checked st \<subseteq> gb_checked (checkFields tt fs st)"
proof (induction tt t st and tt fs st rule: checkType_checkFields.pinduct)
  case (1 tt t st)
  then show ?case by (auto simp: checkType.psimps split: gkind.splits) (meson subsetD)
next
  case (2 tt st)
  then show ?case by (simp add: checkFields.psimps)
next
  case (3 tt name ft fs st)
  then show ?case by (auto simp: checkFields.psimps)
qed

lemma unchecked_less: "t \<notin> C \<Longrightarrow> insert t C \<subseteq> C' \<Longrightarrow> card (UNIV - C' :: 't :: finite set) < card (UNIV - C)"
  by (intro psubset_card_mono) auto

lemma unchecked_pos: "t \<notin> C \<Longrightarrow> 0 < card (UNIV - C :: 't :: finite set)"
  by (auto simp: card_gt_0_iff)

lemma unchecked_le: "C \<subseteq> C' \<Longrightarrow> card (UNIV - C' :: 't :: finite set) \<le> card (UNIV - C)"
  by (intro card_mono) auto

termination checkType
proof (relation "measures [\<lambda>x. case x of Inl (tt, t, st) \<Rightarrow> card (UNIV - gb_checked st) | Inr (tt, fs, st) \<Rightarrow> card (UNIV - gb_checked st),
    \<lambda>x. case x of Inl _ \<Rightarrow> 0 | Inr (tt, fs, st) \<Rightarrow> Suc (length fs)]", goal_cases)
  case (7 tt t st elem key)
  then show ?case using checked_grows(1) [OF 7(3)] by (simp add: unchecked_less)
next
  case (9 tt name ft fs st)
  then show ?case using unchecked_le [OF checked_grows(1) [OF 9]] by auto
qed (auto simp: unchecked_pos)

declare checkType.simps [simp del]

text \<open>\<^verbatim>\<open>reflect.TypeOf(nil)\<close> is nil, and asking it for its kind panics.\<close>

definition checkValue :: "('t :: finite \<Rightarrow> 't gkind) \<Rightarrow> 't option \<Rightarrow> 't gob_state \<Rightarrow> 't gob_state option" where
  "checkValue tt ty st = do {
     t \<leftarrow> ty;
     Some (checkType tt t st)
   }"

section \<open>Checking for default values\<close>

text \<open>Floating-point numbers that are finite are rational numbers; \<open>None\<close> stands for the others.\<close>

datatype scalar = SBool bool | SInt int | SFloat "rat option" | SString string

text \<open>A field has a name, says whether it is embedded, and has a value; a scalar has the name of its type.\<close>

datatype gval =
    VStruct "(string \<times> bool \<times> gval) list"
  | VPtrNil
  | VPtr gval
  | VScalar string scalar
  | VOther

fun is_Zero :: "scalar \<Rightarrow> bool" where
  "is_Zero (SBool b) = (\<not> b)"
| "is_Zero (SInt i) = (i = 0)"
| "is_Zero (SFloat r) = (r = Some 0)"
| "is_Zero (SString s) = (s = '''')"

definition warnDefault :: "string \<Rightarrow> string \<Rightarrow> 't gob_state \<Rightarrow> 't gob_state" where
  "warnDefault name tname st =
     (let st1 = (if gb_errorCount st < 1 then st\<lparr>gb_out := gb_out st @ [NonDefault (if name = '''' then tname else name)]\<rparr> else st)
      in st1\<lparr>gb_errorCount := gb_errorCount st1 + 1\<rparr>)"

text \<open>
  Reflection marks a value that was reached through a lower-case field as read-only: for good when the field is not
  embedded, until the next field otherwise.  \<^verbatim>\<open>Interface\<close> panics on such a value.
\<close>

fun checkDefault1 :: "gval \<Rightarrow> nat \<Rightarrow> string \<Rightarrow> bool \<times> bool \<Rightarrow> 't gob_state \<Rightarrow> 't gob_state option"
  and checkDefaultFields :: "(string \<times> bool \<times> gval) list \<Rightarrow> nat \<Rightarrow> string \<Rightarrow> bool \<times> bool \<Rightarrow> 't gob_state \<Rightarrow> 't gob_state option" where
  "checkDefault1 (VStruct fs) depth name ro st = (if 3 < depth then Some st else checkDefaultFields fs depth name ro st)"
| "checkDefault1 VPtrNil depth name ro st = Some st"
| "checkDefault1 (VPtr v) depth name ro st = (if 3 < depth then Some st else checkDefault1 v (depth + 1) name ro st)"
| "checkDefault1 (VScalar tname sc) depth name ro st =
     (if 3 < depth then Some st
      else if fst ro \<or> snd ro then None
      else if is_Zero sc then Some st else Some (warnDefault name tname st))"
| "checkDefault1 VOther depth name ro st = Some st"
| "checkDefaultFields [] depth name ro st = Some st"
| "checkDefaultFields ((fname, embedded, v) # fs) depth name ro st = do {
     let name1 = (if name \<noteq> '''' then name @ ''.'' @ fname else fname);
     let lower = (\<not> IsUpper_first fname);
     st1 \<leftarrow> checkDefault1 v (depth + 1) name1 (fst ro \<or> (lower \<and> \<not> embedded), lower \<and> embedded) st;
     checkDefaultFields fs depth name ro st1
   }"

definition checkDefault :: "gval option \<Rightarrow> 't gob_state \<Rightarrow> 't gob_state option" where
  "checkDefault v st = (case v of None \<Rightarrow> Some st | Some gv \<Rightarrow> checkDefault1 gv 1 '''' (False, False) st)"

section \<open>The wrapper\<close>

text \<open>The encoder's and decoder's own work is the argument; \<open>ty\<close> is the type of the value.\<close>

definition Encode :: "('t :: finite \<Rightarrow> 't gkind) \<Rightarrow> ('v \<Rightarrow> 'b \<Rightarrow> 'r) \<Rightarrow> 't option \<Rightarrow> 'v \<Rightarrow> 'b \<Rightarrow> 't gob_state \<Rightarrow> ('r \<times> 't gob_state) option" where
  "Encode tt gobEncode ty v buf st = do {
     st1 \<leftarrow> checkValue tt ty st;
     Some (gobEncode v buf, st1)
   }"

text \<open>\<^verbatim>\<open>EncodeValue\<close> is given the value by reflection; \<open>valueInterface\<close> is its \<^verbatim>\<open>Interface\<close>, with the type it has.\<close>

definition EncodeValue :: "('t :: finite \<Rightarrow> 't gkind) \<Rightarrow> ('x \<Rightarrow> 't option) \<Rightarrow> ('x \<Rightarrow> 'b \<Rightarrow> 'r) \<Rightarrow> 'x \<Rightarrow> 'b \<Rightarrow> 't gob_state \<Rightarrow> ('r \<times> 't gob_state) option" where
  "EncodeValue tt valueInterface gobEncodeValue v buf st = do {
     st1 \<leftarrow> checkValue tt (valueInterface v) st;
     Some (gobEncodeValue v buf, st1)
   }"

definition Decode :: "('t :: finite \<Rightarrow> 't gkind) \<Rightarrow> ('b \<Rightarrow> 'r) \<Rightarrow> 't option \<Rightarrow> gval option \<Rightarrow> 'b \<Rightarrow> 't gob_state \<Rightarrow> ('r \<times> 't gob_state) option" where
  "Decode tt gobDecode ty v buf st = do {
     st1 \<leftarrow> checkValue tt ty st;
     st2 \<leftarrow> checkDefault v st1;
     Some (gobDecode buf, st2)
   }"

definition Register :: "('t :: finite \<Rightarrow> 't gkind) \<Rightarrow> ('v \<Rightarrow> 'g \<Rightarrow> 'g) \<Rightarrow> 't option \<Rightarrow> 'v \<Rightarrow> 'g \<Rightarrow> 't gob_state \<Rightarrow> ('g \<times> 't gob_state) option" where
  "Register tt gobRegister ty v g st = do {
     st1 \<leftarrow> checkValue tt ty st;
     Some (gobRegister v g, st1)
   }"

definition RegisterName :: "('t :: finite \<Rightarrow> 't gkind) \<Rightarrow> (string \<Rightarrow> 'v \<Rightarrow> 'g \<Rightarrow> 'g) \<Rightarrow> string \<Rightarrow> 't option \<Rightarrow> 'v \<Rightarrow> 'g \<Rightarrow> 't gob_state \<Rightarrow> ('g \<times> 't gob_state) option" where
  "RegisterName tt gobRegisterName name ty v g st = do {
     st1 \<leftarrow> checkValue tt ty st;
     Some (gobRegisterName name v g, st1)
   }"

section \<open>What is checked\<close>

fun children :: "'t gkind \<Rightarrow> 't list" where
  "children (GStruct fs) = map snd fs"
| "children (GSlice u) = [u]"
| "children (GArray u) = [u]"
| "children (GPtr u) = [u]"
| "children (GMap elem key) = [elem, key]"
| "children GBasic = []"

fun lowers :: "'t gkind \<Rightarrow> nat" where
  "lowers (GStruct fs) = length (filter (\<lambda>f. \<not> IsUpper_first (fst f)) fs)"
| "lowers _ = 0"

text \<open>The types that the declaration of \<open>t\<close> leads to.\<close>

definition parts :: "('t \<Rightarrow> 't gkind) \<Rightarrow> 't \<Rightarrow> 't set" where
  "parts tt t = {u. (\<lambda>a b. b \<in> set (children (tt a)))\<^sup>*\<^sup>* t u}"

text \<open>Between calls every part of a checked type is checked.\<close>

definition parts_checked :: "('t \<Rightarrow> 't gkind) \<Rightarrow> 't set \<Rightarrow> bool" where
  "parts_checked tt C \<longleftrightarrow> (\<forall>t\<in>C. set (children (tt t)) \<subseteq> C)"

text \<open>What a call adds: parts of \<open>T\<close>, whose own parts are checked too, with one error per lower-case field.\<close>

definition adds :: "('t :: finite \<Rightarrow> 't gkind) \<Rightarrow> 't set \<Rightarrow> nat \<Rightarrow> 't gob_state \<Rightarrow> 't gob_state \<Rightarrow> bool" where
  "adds tt T n st st' \<longleftrightarrow> gb_checked st \<subseteq> gb_checked st' \<and> T \<subseteq> gb_checked st' \<and>
     gb_checked st' \<subseteq> gb_checked st \<union> (\<Union>t\<in>T. parts tt t) \<and>
     (\<forall>u\<in>gb_checked st' - gb_checked st. set (children (tt u)) \<subseteq> gb_checked st') \<and>
     gb_errorCount st' = gb_errorCount st + int n + int (\<Sum>u\<in>gb_checked st' - gb_checked st. lowers (tt u))"

lemma adds_refl: "T \<subseteq> gb_checked st \<Longrightarrow> adds tt T 0 st st"
  by (auto simp: adds_def)

lemma adds_trans:
  assumes "adds tt T1 n1 st st1" "adds tt T2 n2 st1 st2"
  shows "adds tt (T1 \<union> T2) (n1 + n2) st st2"
proof -
  let ?A = "gb_checked st1 - gb_checked st" and ?B = "gb_checked st2 - gb_checked st1"
  have e: "gb_checked st2 - gb_checked st = ?A \<union> ?B" using assms by (auto simp: adds_def)
  have "(\<Sum>u\<in>?A \<union> ?B. lowers (tt u)) = (\<Sum>u\<in>?A. lowers (tt u)) + (\<Sum>u\<in>?B. lowers (tt u))" by (rule sum.union_disjoint) auto
  then have "gb_errorCount st2 = gb_errorCount st + int (n1 + n2) + int (\<Sum>u\<in>gb_checked st2 - gb_checked st. lowers (tt u))"
    unfolding e using assms by (simp add: adds_def)
  moreover have "\<forall>u\<in>gb_checked st2 - gb_checked st. set (children (tt u)) \<subseteq> gb_checked st2"
    unfolding e using assms unfolding adds_def by blast
  moreover have "gb_checked st2 \<subseteq> gb_checked st \<union> (\<Union>t\<in>T1 \<union> T2. parts tt t)" using assms unfolding adds_def by blast
  ultimately show ?thesis using assms unfolding adds_def by blast
qed

lemma adds_complain: "adds tt {} (if IsUpper_first name then 0 else 1) st (complain name st)"
  by (auto simp: adds_def complain_def)

lemma parts_refl [simp]: "t \<in> parts tt t"
  by (simp add: parts_def)

lemma parts_child: "u \<in> set (children (tt t)) \<Longrightarrow> parts tt u \<subseteq> parts tt t"
  by (auto simp: parts_def intro: converse_rtranclp_into_rtranclp)

text \<open>A type is marked, then its parts are checked.\<close>

lemma adds_mark:
  assumes "t \<notin> gb_checked st" "adds tt (set (children (tt t))) (lowers (tt t)) (st\<lparr>gb_checked := insert t (gb_checked st)\<rparr>) st'"
  shows "adds tt {t} 0 st st'"
proof -
  let ?C = "insert t (gb_checked st)"
  have d: "?C \<subseteq> gb_checked st'" "set (children (tt t)) \<subseteq> gb_checked st'" "gb_checked st' \<subseteq> ?C \<union> (\<Union>u\<in>set (children (tt t)). parts tt u)"
      "\<forall>u\<in>gb_checked st' - ?C. set (children (tt u)) \<subseteq> gb_checked st'"
      "gb_errorCount st' = gb_errorCount st + int (lowers (tt t)) + int (\<Sum>u\<in>gb_checked st' - ?C. lowers (tt u))"
    using assms(2) unfolding adds_def by simp_all
  have "gb_checked st' - gb_checked st = insert t (gb_checked st' - ?C)" using d(1) assms(1) by auto
  then have "(\<Sum>u\<in>gb_checked st' - gb_checked st. lowers (tt u)) = lowers (tt t) + (\<Sum>u\<in>gb_checked st' - ?C. lowers (tt u))" by simp
  then have "gb_errorCount st' = gb_errorCount st + int (\<Sum>u\<in>gb_checked st' - gb_checked st. lowers (tt u))" using d(5) by simp
  moreover have "?C \<union> (\<Union>u\<in>set (children (tt t)). parts tt u) \<subseteq> gb_checked st \<union> parts tt t"
    using UN_least [of "set (children (tt t))" "parts tt" "parts tt t", OF parts_child] by (simp add: subset_Un_eq Un_ac insert_absorb)
  then have "gb_checked st' \<subseteq> gb_checked st \<union> parts tt t" using d(3) by (rule order_trans [rotated])
  moreover have "\<forall>u\<in>gb_checked st' - gb_checked st. set (children (tt u)) \<subseteq> gb_checked st'" using d(2,4) by (metis Diff_iff insert_iff)
  ultimately show ?thesis using d(1) by (simp add: adds_def)
qed

lemma checkType_adds:
  shows "adds tt {t} 0 st (checkType tt t st)"
    and "adds tt (set (map snd fs)) (length (filter (\<lambda>f. \<not> IsUpper_first (fst f)) fs)) st (checkFields tt fs st)"
proof (induction tt t st and tt fs st rule: checkType_checkFields.induct)
  case (1 tt t st)
  show ?case
  proof (cases "t \<in> gb_checked st")
    case True
    then show ?thesis by (simp add: checkType.simps adds_refl)
  next
    case False
    show ?thesis
    proof (rule adds_mark [OF False])
      let ?st = "st\<lparr>gb_checked := insert t (gb_checked st)\<rparr>"
      show "adds tt (set (children (tt t))) (lowers (tt t)) ?st (checkType tt t st)"
      proof (cases "tt t")
        case (GMap elem key)
        have "adds tt ({elem} \<union> {key}) (0 + 0) ?st (checkType tt key (checkType tt elem ?st))"
          using 1(5,6) [OF False GMap] by (rule adds_trans)
        then show ?thesis using False GMap by (simp add: checkType.simps [of tt t] insert_commute)
      qed (use 1 False in \<open>auto simp: checkType.simps [of tt t] adds_refl\<close>)
    qed
  qed
next
  case (2 tt st)
  then show ?case by (simp add: adds_refl)
next
  case (3 tt name ft fs st)
  show ?case using adds_trans [OF adds_trans [OF adds_complain [of tt name st] 3(1)] 3(2)] by (simp split: if_splits)
qed

lemma parts_closed:
  assumes "parts_checked tt C" "t \<in> C"
  shows "parts tt t \<subseteq> C"
proof
  fix u assume "u \<in> parts tt t"
  then have "(\<lambda>a b. b \<in> set (children (tt a)))\<^sup>*\<^sup>* t u" by (simp add: parts_def)
  then show "u \<in> C" by (induction rule: rtranclp_induct) (use assms in \<open>auto simp: parts_checked_def\<close>)
qed

section \<open>Default values\<close>

text \<open>The values that differ from their default within the three levels that are looked at.\<close>

fun nonDefaults :: "gval \<Rightarrow> nat \<Rightarrow> nat" and nonDefaultFields :: "(string \<times> bool \<times> gval) list \<Rightarrow> nat \<Rightarrow> nat" where
  "nonDefaults (VStruct fs) depth = (if 3 < depth then 0 else nonDefaultFields fs depth)"
| "nonDefaults VPtrNil depth = 0"
| "nonDefaults (VPtr v) depth = (if 3 < depth then 0 else nonDefaults v (depth + 1))"
| "nonDefaults (VScalar tname sc) depth = (if 3 < depth \<or> is_Zero sc then 0 else 1)"
| "nonDefaults VOther depth = 0"
| "nonDefaultFields [] depth = 0"
| "nonDefaultFields ((fname, embedded, v) # fs) depth = nonDefaults v (depth + 1) + nonDefaultFields fs depth"

fun exported :: "gval \<Rightarrow> bool" and exportedFields :: "(string \<times> bool \<times> gval) list \<Rightarrow> bool" where
  "exported (VStruct fs) = exportedFields fs"
| "exported (VPtr v) = exported v"
| "exported _ = True"
| "exportedFields [] = True"
| "exportedFields ((fname, embedded, v) # fs) = (IsUpper_first fname \<and> exported v \<and> exportedFields fs)"

lemma warnDefault_count [simp]: "gb_errorCount (warnDefault name tname st) = gb_errorCount st + 1"
    "gb_checked (warnDefault name tname st) = gb_checked st"
  by (simp_all add: warnDefault_def Let_def)

lemma checkDefault1_counts:
  shows "exported v \<Longrightarrow> \<exists>st'. checkDefault1 v depth name (False, False) st = Some st' \<and>
      gb_errorCount st' = gb_errorCount st + int (nonDefaults v depth) \<and> gb_checked st' = gb_checked st"
    and "exportedFields fs \<Longrightarrow> \<exists>st'. checkDefaultFields fs depth name (False, False) st = Some st' \<and>
      gb_errorCount st' = gb_errorCount st + int (nonDefaultFields fs depth) \<and> gb_checked st' = gb_checked st"
proof (induction v depth and fs depth arbitrary: name st and name st rule: nonDefaults_nonDefaultFields.induct)
  case (7 fname embedded v fs depth)
  let ?name = "if name \<noteq> '''' then name @ ''.'' @ fname else fname"
  have u: "IsUpper_first fname" "exported v" "exportedFields fs" using "7.prems" by simp_all
  obtain st1 where 1: "checkDefault1 v (depth + 1) ?name (False, False) st = Some st1"
      "gb_errorCount st1 = gb_errorCount st + int (nonDefaults v (depth + 1))" "gb_checked st1 = gb_checked st"
    using "7.IH"(1) [OF u(2), of ?name st] by blast
  obtain st2 where 2: "checkDefaultFields fs depth name (False, False) st1 = Some st2"
      "gb_errorCount st2 = gb_errorCount st1 + int (nonDefaultFields fs depth)" "gb_checked st2 = gb_checked st1"
    using "7.IH"(2) [OF u(3), of name st1] by blast
  show ?case using 1 2 u(1) by (simp add: Let_def)
qed auto

lemma lower_scalar_panics:
  assumes "(fname, embedded, VScalar tname sc) \<in> set fs" "\<not> IsUpper_first fname" "depth < 3"
  shows "checkDefaultFields fs depth name ro st = None"
  using assms(1)
proof (induction fs arbitrary: st)
  case (Cons f fs)
  obtain a b v where f: "f = (a, b, v)" by (cases f)
  show ?case
  proof (cases "f = (fname, embedded, VScalar tname sc)")
    case True
    then show ?thesis using assms(2,3) by (cases embedded) (simp_all add: Let_def)
  next
    case False
    then have "(fname, embedded, VScalar tname sc) \<in> set fs" using Cons.prems by auto
    then show ?thesis using Cons.IH by (auto simp: f Let_def bind_eq_None_conv)
  qed
qed simp

section \<open>Properties\<close>

text \<open>C22: The check of a type follows its declaration through structs, slices, arrays, pointers and maps, also when the type is recursive, and always
  ends.  Afterwards exactly the types that the declaration leads to have been checked in addition, and the error count has grown by one
  for each lower-case field of a type that had not been checked before: nothing is missed and nothing is reported twice.\<close>

theorem checkType_exact:
  assumes "parts_checked tt (gb_checked st)"
  shows "gb_checked (checkType tt t st) = gb_checked st \<union> parts tt t \<and> parts_checked tt (gb_checked (checkType tt t st)) \<and>
    gb_errorCount (checkType tt t st) = gb_errorCount st + int (\<Sum>u\<in>parts tt t - gb_checked st. lowers (tt u))"
proof -
  let ?st' = "checkType tt t st"
  have a: "gb_checked st \<subseteq> gb_checked ?st'" "t \<in> gb_checked ?st'" "gb_checked ?st' \<subseteq> gb_checked st \<union> parts tt t"
      "\<forall>u\<in>gb_checked ?st' - gb_checked st. set (children (tt u)) \<subseteq> gb_checked ?st'"
      "gb_errorCount ?st' = gb_errorCount st + int (\<Sum>u\<in>gb_checked ?st' - gb_checked st. lowers (tt u))"
    using checkType_adds(1) [of tt t st] by (simp_all add: adds_def)
  have c: "parts_checked tt (gb_checked ?st')" using a(1,4) assms unfolding parts_checked_def by blast
  then have "parts tt t \<subseteq> gb_checked ?st'" using parts_closed [OF _ a(2)] by simp
  then have e: "gb_checked ?st' = gb_checked st \<union> parts tt t" using a(1,3) by blast
  then have "gb_checked ?st' - gb_checked st = parts tt t - gb_checked st" by blast
  then show ?thesis using a(5) c e by simp
qed

text \<open>The types of the example: a struct that holds itself through a map and a pointer, with a lower-case field.\<close>

datatype demo_ty = TNode | TMap | TPtr | TInt

instance demo_ty :: finite
proof
  have "(UNIV :: demo_ty set) = {TNode, TMap, TPtr, TInt}" using demo_ty.exhaust by auto
  then show "finite (UNIV :: demo_ty set)" by (metis finite.emptyI finite.insertI)
qed

fun demo_table :: "demo_ty \<Rightarrow> demo_ty gkind" where
  "demo_table TNode = GStruct [(''Next'', TMap), (''id'', TInt)]"
| "demo_table TMap = GMap TPtr TInt"
| "demo_table TPtr = GPtr TNode"
| "demo_table TInt = GBasic"

definition demo_gob :: "demo_ty gob_state" where
  "demo_gob = \<lparr>gb_errorCount = 0, gb_checked = {}, gb_out = []\<rparr>"

theorem checkType_exact_witness:
  "gb_checked (checkType demo_table TNode demo_gob) = parts demo_table TNode \<and>
   gb_errorCount (checkType demo_table TNode demo_gob) = int (\<Sum>u\<in>parts demo_table TNode. lowers (demo_table u)) \<and>
   gb_errorCount (checkType demo_table TNode demo_gob) = 1"
proof -
  have "parts_checked demo_table (gb_checked demo_gob)" by (simp add: parts_checked_def demo_gob_def)
  moreover have "gb_errorCount (checkType demo_table TNode demo_gob) = 1"
    by (simp add: checkType.simps demo_gob_def complain_def)
  ultimately show ?thesis using checkType_exact [of demo_table demo_gob TNode] by (simp add: demo_gob_def)
qed

text \<open>\<^verbatim>\<open>Decode\<close> into a struct with a lower-case field of a basic type does not just warn, as it is meant to: whatever the
  buffer holds, it panics, because \<^verbatim>\<open>checkDefault1\<close> asks for the interface of a field that reflection may not read.\<close>

theorem decode_lower_case_panics:
  assumes "(fname, embedded, VScalar tname sc) \<in> set fs" "\<not> IsUpper_first fname"
  shows "Decode tt gobDecode ty (Some (VPtr (VStruct fs))) buf st = None"
  by (simp add: Decode_def checkDefault_def numeral_2_eq_2 bind_eq_None_conv lower_scalar_panics [OF assms])

theorem decode_lower_case_panics_witness:
  "Decode demo_table (\<lambda>b. b) (Some TPtr) (Some (VPtr (VStruct [(''id'', False, VScalar ''int'' (SInt 0))]))) () demo_gob = None"
  using decode_lower_case_panics [of "''id''" False "''int''" "SInt 0" "[(''id'', False, VScalar ''int'' (SInt 0))]"] by simp

end
