(* ===== verification/Test_Net.thy ===== *)
theory Test_Net
  imports Lab_RPC
begin

text \<open>
  What the \<^verbatim>\<open>config.go\<close> files of the packages share: how they create the ends of a server or a client, and how
  they switch ends on and off.  The names of the ends that server \<open>i\<close> sends through are a slice that is nil until
  the server is started for the first time.
\<close>

type_synonym endnames = "string list option list"

text \<open>Indexing a nil slice panics like indexing an empty one.\<close>

definition the_slice :: "'a list option \<Rightarrow> 'a list" where
  "the_slice s = (case s of None \<Rightarrow> [] | Some xs \<Rightarrow> xs)"

text \<open>\<^verbatim>\<open>cfg.net.Enable(cfg.endnames[i][j], b)\<close> for each pair of the list.\<close>

fun enableEnds :: "endnames \<Rightarrow> bool \<Rightarrow> (int \<times> int) list \<Rightarrow> (string, 'v) Network \<Rightarrow> (string, 'v) Network option" where
  "enableEnds ens b [] net = Some net"
| "enableEnds ens b ((i, j) # ps) net = do {
     names \<leftarrow> go_index ens i;
     endname \<leftarrow> go_index (the_slice names) j;
     enableEnds ens b ps (Enable endname b net)
   }"

text \<open>
  A set of ends with the given names, the \<open>j\<close>-th of them for the server \<open>sname j\<close>.  \<^verbatim>\<open>MakeEnd\<close> stops the program when a
  name is taken.
\<close>

fun makeEnds :: "(nat \<Rightarrow> 'v) \<Rightarrow> nat \<Rightarrow> string list \<Rightarrow> (string, 'v) Network \<Rightarrow> ((string, 'v) Network \<times> string ClientEnd list) option" where
  "makeEnds sname j [] net = Some (net, [])"
| "makeEnds sname j (name # names) net = do {
     (net1, e) \<leftarrow> MakeEnd name net;
     (net2, es) \<leftarrow> makeEnds sname (j + 1) names (Connect name (sname j) net1);
     Some (net2, e # es)
   }"

section \<open>What the operations change\<close>

lemma is_enabled_Enable [simp]: "is_enabled (Enable e b net) e' = (if e' = e then b else is_enabled net e')"
  by (simp add: is_enabled_def Enable_def)

definition pair_names :: "endnames \<Rightarrow> (int \<times> int) list \<Rightarrow> string set" where
  "pair_names ens ps = {the_slice (ens ! nat i) ! nat j | i j. (i, j) \<in> set ps}"

lemma pair_names_simps [simp]:
  "pair_names ens [] = {}" "pair_names ens ((i, j) # ps) = insert (the_slice (ens ! nat i) ! nat j) (pair_names ens ps)"
  by (auto simp: pair_names_def)

lemma enableEnds_frame:
  assumes "enableEnds ens b ps net = Some net'"
  shows "\<exists>en. net' = net\<lparr>nw_enabled := en\<rparr>"
    "is_enabled net' e = (if e \<in> pair_names ens ps then b else is_enabled net e)"
proof -
  have "(\<exists>en. net' = net\<lparr>nw_enabled := en\<rparr>) \<and> is_enabled net' e = (if e \<in> pair_names ens ps then b else is_enabled net e)"
    using assms
  proof (induction ens b ps net rule: enableEnds.induct)
    case (1 ens b net)
    have "\<exists>en. net = net\<lparr>nw_enabled := en\<rparr>" by (rule exI [of _ "nw_enabled net"]) simp
    then show ?case using 1 by simp
  next
    case (2 ens b i j ps net)
    obtain names endname where e: "go_index ens i = Some names" "go_index (the_slice names) j = Some endname"
        "enableEnds ens b ps (Enable endname b net) = Some net'" using 2(2) by (auto simp: bind_eq_Some_conv)
    then have "names = ens ! nat i" "endname = the_slice names ! nat j" by (auto simp: go_index_eq_Some)
    moreover have "\<exists>en. net' = net\<lparr>nw_enabled := en\<rparr>" using 2(1) [OF e] by (auto simp: Enable_def)
    ultimately show ?case using 2(1) [OF e] by auto
  qed
  then show "\<exists>en. net' = net\<lparr>nw_enabled := en\<rparr>" "is_enabled net' e = (if e \<in> pair_names ens ps then b else is_enabled net e)" by auto
qed

lemma enableEnds_net [simp]:
  assumes "enableEnds ens b ps net = Some net'"
  shows "nw_ends net' = nw_ends net" "nw_connections net' = nw_connections net" "nw_servers net' = nw_servers net"
    "server_at net' v = server_at net v"
  using enableEnds_frame(1) [OF assms] by (auto simp: server_at_def)

lemma enableEnds_total:
  assumes "\<forall>(i, j)\<in>set ps. 0 \<le> i \<and> i < int (length ens) \<and> 0 \<le> j \<and> j < int (length (the_slice (ens ! nat i)))"
  shows "\<exists>net'. enableEnds ens b ps net = Some net'"
  using assms by (induction ens b ps net rule: enableEnds.induct) (auto simp: go_simps)

lemma makeEnds_frame:
  assumes "makeEnds sname j names net = Some (net', es)"
  shows "distinct names \<and> set names \<inter> dom (nw_ends net) = {} \<and> dom (nw_ends net') = dom (nw_ends net) \<union> set names \<and>
    nw_servers net' = nw_servers net \<and> length es = length names \<and>
    (\<forall>e. is_enabled net' e \<longleftrightarrow> e \<notin> set names \<and> is_enabled net e) \<and>
    (\<forall>e. e \<notin> set names \<longrightarrow> nw_connections net' e = nw_connections net e) \<and>
    (\<forall>k<length names. nw_connections net' (names ! k) = Some (Some (sname (j + k))) \<and> ce_endname (es ! k) = names ! k)"
  using assms
proof (induction sname j names net arbitrary: net' es rule: makeEnds.induct)
  case (2 sname j name names net)
  obtain net1 e es1 where m: "MakeEnd name net = Some (net1, e)" "makeEnds sname (j + 1) names (Connect name (sname j) net1) = Some (net', es1)" "es = e # es1"
    using 2(2) by (auto simp: bind_eq_Some_conv)
  note IH = 2(1) [OF m(1) refl m(2)]
  have n1: "nw_ends net name = None" "e = \<lparr>ce_endname = name\<rparr>" "dom (nw_ends net1) = insert name (dom (nw_ends net))" "nw_servers net1 = nw_servers net"
      "\<And>x. is_enabled net1 x \<longleftrightarrow> x \<noteq> name \<and> is_enabled net x" "\<And>x. x \<noteq> name \<Longrightarrow> nw_connections net1 x = nw_connections net x"
    using m(1) by (auto simp: MakeEnd_def Let_def is_enabled_def split: if_splits)
  have c: "nw_ends (Connect name (sname j) net1) = nw_ends net1" "nw_servers (Connect name (sname j) net1) = nw_servers net1"
      "is_enabled (Connect name (sname j) net1) x = is_enabled net1 x"
      "nw_connections (Connect name (sname j) net1) x = (if x = name then Some (Some (sname j)) else nw_connections net1 x)" for x
    by (simp_all add: Connect_def is_enabled_def)
  have "name \<notin> set names" using IH n1(3) c(1) by auto
  moreover have "nw_connections net' ((name # names) ! k) = Some (Some (sname (j + k))) \<and> ce_endname (es ! k) = (name # names) ! k"
    if "k < length (name # names)" for k
  proof (cases k)
    case 0
    then show ?thesis using IH c(4) \<open>name \<notin> set names\<close> n1(2) m(3) by simp
  next
    case (Suc k')
    then show ?thesis using IH that m(3) by simp
  qed
  ultimately show ?case using IH n1 c m(3) by auto
qed (simp add: is_enabled_def)

section \<open>Which ends are on\<close>

definition end_at :: "endnames \<Rightarrow> nat \<Rightarrow> nat \<Rightarrow> string" where
  "end_at ens i j = the_slice (ens ! i) ! j"

definition live :: "nat \<Rightarrow> endnames \<Rightarrow> (nat \<times> nat) set" where
  "live n ens = {(i, j). i < n \<and> j < n \<and> ens ! i \<noteq> None}"

text \<open>
  The end from \<open>i\<close> to \<open>j\<close> belongs to the server \<open>j\<close>, and is on exactly when \<open>L i j\<close>; apart from the ends of the servers that
  have been started last and the ends \<open>X\<close> of others, every end is off.
\<close>

definition ends_inv :: "(nat \<Rightarrow> 'v) \<Rightarrow> nat \<Rightarrow> endnames \<Rightarrow> string set \<Rightarrow> (nat \<Rightarrow> nat \<Rightarrow> bool) \<Rightarrow> (string, 'v) Network \<Rightarrow> bool" where
  "ends_inv sname n ens X L net \<longleftrightarrow> length ens = n \<and> (\<forall>i<n. \<forall>ns. ens ! i = Some ns \<longrightarrow> length ns = n) \<and>
     inj_on (\<lambda>(i, j). end_at ens i j) (live n ens) \<and> X \<subseteq> dom (nw_ends net) \<and>
     (\<forall>(i, j)\<in>live n ens. end_at ens i j \<in> dom (nw_ends net) - X \<and> nw_connections net (end_at ens i j) = Some (Some (sname j)) \<and>
        (is_enabled net (end_at ens i j) \<longleftrightarrow> L i j)) \<and>
     (\<forall>e. e \<notin> (\<lambda>(i, j). end_at ens i j) ` live n ens \<union> X \<longrightarrow> \<not> is_enabled net e)"

definition int_pair :: "nat \<times> nat \<Rightarrow> int \<times> int" where
  "int_pair p = (int (fst p), int (snd p))"

lemma int_pair_simps [simp]: "int_pair (i, j) = (int i, int j)"
  by (simp add: int_pair_def)

lemma pairs_map:
  "map (\<lambda>j. (int i, int j)) js = map int_pair (map (\<lambda>j. (i, j)) js)" "map (\<lambda>j. (int j, int i)) js = map int_pair (map (\<lambda>j. (j, i)) js)"
  by simp_all

lemma enableEnds_live:
  assumes "enableEnds ens b (map int_pair ps) net = Some net'" "length ens = n" "\<forall>i<n. \<forall>ns. ens ! i = Some ns \<longrightarrow> length ns = n"
  shows "set ps \<subseteq> live n ens"
  using assms(1)
proof (induction ps arbitrary: net)
  case (Cons p ps)
  obtain i j where p: "p = (i, j)" by (cases p)
  obtain names endname net1 where e: "go_index ens (int i) = Some names" "go_index (the_slice names) (int j) = Some endname"
      "enableEnds ens b (map int_pair ps) net1 = Some net'"
    using Cons.prems p by (auto simp: bind_eq_Some_conv)
  have "(i, j) \<in> live n ens"
  proof (cases names)
    case (Some ns)
    have "j < length (the_slice names)" using e(2) by (simp add: go_index_eq_Some)
    then have "i < n" "ens ! i = Some ns" "j < length ns" using e(1) Some assms(2) by (auto simp: go_index_eq_Some the_slice_def)
    then show ?thesis using assms(3) by (simp add: live_def)
  qed (use e(2) in \<open>simp add: the_slice_def go_index_def\<close>)
  then show ?case using Cons.IH [OF e(3)] p by simp
qed simp

lemma pair_names_live: "pair_names ens (map int_pair ps) = (\<lambda>(i, j). end_at ens i j) ` set ps"
  by (induction ps) (auto simp: end_at_def)

lemma ends_inv_enable:
  assumes inv: "ends_inv sname n ens X L net" and e: "enableEnds ens b (map int_pair ps) net = Some net'"
  shows "set ps \<subseteq> live n ens" "ends_inv sname n ens X (\<lambda>i j. if (i, j) \<in> set ps then b else L i j) net'"
proof -
  show ps: "set ps \<subseteq> live n ens" using enableEnds_live [OF e] inv by (simp add: ends_inv_def)
  have en: "is_enabled net' x = (if x \<in> (\<lambda>(i, j). end_at ens i j) ` set ps then b else is_enabled net x)" for x
    using enableEnds_frame(2) [OF e, of x] unfolding pair_names_live .
  have inj: "inj_on (\<lambda>(i, j). end_at ens i j) (live n ens)" using inv by (simp add: ends_inv_def)
  have "is_enabled net' (end_at ens i j) \<longleftrightarrow> (if (i, j) \<in> set ps then b else L i j)" if "(i, j) \<in> live n ens" for i j
  proof -
    have "end_at ens i j \<in> (\<lambda>(i, j). end_at ens i j) ` set ps \<longleftrightarrow> (i, j) \<in> set ps"
      using inj_on_image_mem_iff [OF inj that ps] by simp
    moreover have "is_enabled net (end_at ens i j) \<longleftrightarrow> L i j" using inv that by (auto simp: ends_inv_def)
    ultimately show ?thesis using en by simp
  qed
  moreover have "\<not> is_enabled net' x" if "x \<notin> (\<lambda>(i, j). end_at ens i j) ` live n ens \<union> X" for x
    using that ps inv en unfolding ends_inv_def by auto
  ultimately show "ends_inv sname n ens X (\<lambda>i j. if (i, j) \<in> set ps then b else L i j) net'"
    using inv e unfolding ends_inv_def by auto
qed

lemma ends_inv_cong: "(\<And>i j. (i, j) \<in> live n ens \<Longrightarrow> L i j \<longleftrightarrow> L' i j) \<Longrightarrow> ends_inv sname n ens X L net \<Longrightarrow> ends_inv sname n ens X L' net"
  unfolding ends_inv_def by auto

lemma ends_inv_net:
  assumes "ends_inv sname n ens X L net" "nw_ends net' = nw_ends net" "nw_connections net' = nw_connections net" "nw_enabled net' = nw_enabled net"
  shows "ends_inv sname n ens X L net'"
  using assms unfolding ends_inv_def is_enabled_def by simp

text \<open>A server that is started again gets new ends, which are off; its old ends must have been switched off.\<close>

lemma ends_start_facts:
  assumes "i < n" "length ens = n"
  shows "b < n \<Longrightarrow> end_at (ens[i := Some (map names [0..<n])]) a b = (if a = i then names b else end_at ens a b)"
    "(a, b) \<in> live n (ens[i := Some (map names [0..<n])]) \<longleftrightarrow> a < n \<and> b < n \<and> (a = i \<or> (a, b) \<in> live n ens)"
  using assms by (auto simp: live_def end_at_def the_slice_def nth_list_update)

lemma ends_inj_start:
  assumes inj: "inj_on (\<lambda>(i, j). end_at ens i j) (live n ens)" and i: "i < n" "length ens = n"
    and old: "\<forall>(a, b)\<in>live n ens. end_at ens a b \<in> D" and new: "distinct (map names [0..<n])" "\<And>b. b < n \<Longrightarrow> names b \<notin> D"
  shows "inj_on (\<lambda>(a, b). end_at (ens[i := Some (map names [0..<n])]) a b) (live n (ens[i := Some (map names [0..<n])]))"
proof (rule inj_onI, clarify)
  let ?ens = "ens[i := Some (map names [0..<n])]"
  fix a b c d assume p: "(a, b) \<in> live n ?ens" "(c, d) \<in> live n ?ens" "end_at ?ens a b = end_at ?ens c d"
  note at = ends_start_facts [where names = names, OF i]
  have r: "b < n" "d < n" "a = i \<or> (a, b) \<in> live n ens" "c = i \<or> (c, d) \<in> live n ens" using p(1,2) unfolding at(2) by blast+
  have e: "(if a = i then names b else end_at ens a b) = (if c = i then names d else end_at ens c d)"
    using p(3) at(1) [OF r(1)] at(1) [OF r(2)] by simp
  have di: "names b = names d \<Longrightarrow> b = d" using new(1) r(1,2) by (auto simp: distinct_map inj_on_def)
  show "a = c \<and> b = d"
  proof (cases "a = i"; cases "c = i")
    assume "a \<noteq> i" "c \<noteq> i"
    then show ?thesis using e r inj_onD [OF inj, of "(a, b)" "(c, d)"] by simp
  next
    assume "a = i" "c \<noteq> i"
    then have "names b \<in> D" using e r(4) old by auto
    then show ?thesis using new(2) r(1) by blast
  next
    assume "a \<noteq> i" "c = i"
    then have "names d \<in> D" using e r(3) old by auto
    then show ?thesis using new(2) r(2) by blast
  qed (use e di in simp)
qed

lemma ends_inv_start:
  assumes inv: "ends_inv sname n ens X L net" and i: "i < n" "\<And>j. j < n \<Longrightarrow> \<not> L i j"
    and m: "makeEnds sname 0 (map names [0..<n]) net = Some (net', es)"
  shows "ends_inv sname n (ens[i := Some (map names [0..<n])]) X L net'"
proof -
  let ?ens = "ens[i := Some (map names [0..<n])]" and ?N = "set (map names [0..<n])"
  have l: "length ens = n" and inj: "inj_on (\<lambda>(i, j). end_at ens i j) (live n ens)" and X: "X \<subseteq> dom (nw_ends net)"
    using inv by (simp_all add: ends_inv_def)
  have f: "distinct (map names [0..<n])" "?N \<inter> dom (nw_ends net) = {}" "dom (nw_ends net') = dom (nw_ends net) \<union> ?N"
      "\<And>e. is_enabled net' e \<longleftrightarrow> e \<notin> ?N \<and> is_enabled net e" "\<And>e. e \<notin> ?N \<Longrightarrow> nw_connections net' e = nw_connections net e"
      "\<And>k. k < n \<Longrightarrow> nw_connections net' (names k) = Some (Some (sname k))"
    using makeEnds_frame [OF m] by auto
  have N: "b < n \<Longrightarrow> names b \<in> ?N" for b by simp
  note at = ends_start_facts [where names = names, OF i(1) l]
  have old: "end_at ens a b \<in> dom (nw_ends net)" "end_at ens a b \<notin> X" "nw_connections net (end_at ens a b) = Some (Some (sname b))"
      "is_enabled net (end_at ens a b) \<longleftrightarrow> L a b" if "(a, b) \<in> live n ens" for a b
    using inv that by (auto simp: ends_inv_def)
  have "inj_on (\<lambda>(i, j). end_at ?ens i j) (live n ?ens)"
    by (rule ends_inj_start [OF inj i(1) l, where D = "dom (nw_ends net)"]) (use old(1) f(1,2) N in blast)+
  moreover have "end_at ?ens a b \<in> dom (nw_ends net') - X \<and> nw_connections net' (end_at ?ens a b) = Some (Some (sname b)) \<and>
      (is_enabled net' (end_at ?ens a b) \<longleftrightarrow> L a b)" if ab: "(a, b) \<in> live n ?ens" for a b
  proof (cases "a = i")
    case True
    have b: "b < n" using ab unfolding at(2) by blast
    have "names b \<notin> X" using N [OF b] f(2) X by blast
    then show ?thesis using True f(3,4) f(6) [OF b] N [OF b] at(1) [OF b] i(2) [OF b] by simp
  next
    case False
    then have o: "(a, b) \<in> live n ens" "b < n" using ab unfolding at(2) by blast+
    then have "end_at ens a b \<notin> ?N" using old(1) f(2) by blast
    then show ?thesis using False f(3-5) at(1) [OF o(2)] old [OF o(1)] by simp
  qed
  moreover have "\<not> is_enabled net' e" if e: "e \<notin> (\<lambda>(i, j). end_at ?ens i j) ` live n ?ens \<union> X" for e
  proof
    assume "is_enabled net' e"
    then have on: "is_enabled net e" using f(4) by blast
    have "e \<in> (\<lambda>(i, j). end_at ens i j) ` live n ens"
    proof (rule ccontr)
      assume "e \<notin> (\<lambda>(i, j). end_at ens i j) ` live n ens"
      then show False using inv e on by (simp add: ends_inv_def)
    qed
    then obtain a b where ab: "e = end_at ens a b" "(a, b) \<in> live n ens" by auto
    have r: "a < n" "b < n" using ab(2) by (simp_all add: live_def)
    have "a \<noteq> i" using ab old(4) on i(2) r(2) by blast
    then have "e = (\<lambda>(i, j). end_at ?ens i j) (a, b)" using ab(1) at(1) [OF r(2)] by simp
    moreover have "(a, b) \<in> live n ?ens" unfolding at(2) using r ab(2) by blast
    ultimately show False using e by blast
  qed
  moreover have "length ?ens = n \<and> (\<forall>a<n. \<forall>ns. ?ens ! a = Some ns \<longrightarrow> length ns = n) \<and> X \<subseteq> dom (nw_ends net')"
  proof (intro conjI allI impI)
    fix a ns assume "a < n" "?ens ! a = Some ns"
    then show "length ns = n" using inv l by (cases "a = i") (auto simp: ends_inv_def)
  qed (use f(3) l X in auto)
  ultimately show ?thesis unfolding ends_inv_def by blast
qed

text \<open>New ends for somebody else.\<close>

lemma ends_inv_client:
  assumes inv: "ends_inv sname n ens X L net" and m: "makeEnds sn j ns net = Some (net', es)"
  shows "ends_inv sname n ens (X \<union> set ns) L net'"
proof -
  have f: "set ns \<inter> dom (nw_ends net) = {}" "dom (nw_ends net') = dom (nw_ends net) \<union> set ns"
      "\<And>e. is_enabled net' e \<longleftrightarrow> e \<notin> set ns \<and> is_enabled net e" "\<And>e. e \<notin> set ns \<Longrightarrow> nw_connections net' e = nw_connections net e"
    using makeEnds_frame [OF m] by auto
  have "end_at ens a b \<in> dom (nw_ends net') - (X \<union> set ns) \<and> nw_connections net' (end_at ens a b) = Some (Some (sname b)) \<and>
      (is_enabled net' (end_at ens a b) \<longleftrightarrow> L a b)" if "(a, b) \<in> live n ens" for a b
  proof -
    have o: "end_at ens a b \<in> dom (nw_ends net) - X" "nw_connections net (end_at ens a b) = Some (Some (sname b))" "is_enabled net (end_at ens a b) \<longleftrightarrow> L a b"
      using inv that by (auto simp: ends_inv_def)
    then have "end_at ens a b \<notin> set ns" using f(1) by blast
    then show ?thesis using o f(2-4) by simp
  qed
  moreover have "\<not> is_enabled net' e" if "e \<notin> (\<lambda>(i, j). end_at ens i j) ` live n ens \<union> (X \<union> set ns)" for e
    using that inv f(3) unfolding ends_inv_def by blast
  moreover have "X \<union> set ns \<subseteq> dom (nw_ends net')" using inv f(2) unfolding ends_inv_def by blast
  ultimately show ?thesis using inv unfolding ends_inv_def by blast
qed

lemma ends_inv_enable_other:
  assumes "ends_inv sname n ens X L net" "e \<in> X"
  shows "ends_inv sname n ens X L (Enable e b net)"
proof -
  have "is_enabled (Enable e b net) (end_at ens i j) \<longleftrightarrow> is_enabled net (end_at ens i j)" if "(i, j) \<in> live n ens" for i j
  proof -
    have "end_at ens i j \<noteq> e" using assms that unfolding ends_inv_def by blast
    then show ?thesis by simp
  qed
  moreover have "nw_ends (Enable e b net) = nw_ends net" "nw_connections (Enable e b net) = nw_connections net" by (simp_all add: Enable_def)
  ultimately show ?thesis using assms unfolding ends_inv_def by auto
qed

lemma makeEnds_total:
  assumes "distinct names" "set names \<inter> dom (nw_ends net) = {}"
  shows "\<exists>net' es. makeEnds sname j names net = Some (net', es)"
  using assms
proof (induction names arbitrary: j net)
  case (Cons name names)
  have "nw_ends net name = None" using Cons.prems by auto
  then obtain net1 e where m: "MakeEnd name net = Some (net1, e)" "dom (nw_ends (Connect name (sname j) net1)) = insert name (dom (nw_ends net))"
    by (simp add: MakeEnd_def Connect_def Let_def)
  then show ?case using Cons.IH [of "Connect name (sname j) net1" "j + 1"] Cons.prems by auto
qed simp

end
