(* ===== verification/Raft_Harness.thy ===== *)
theory Raft_Harness
  imports Test_Net Raft_Props
begin

text \<open>
  The test harness of \<^verbatim>\<open>src/src/raft/config.go\<close>: it starts, crashes and connects the peers, watches what they apply and
  checks leaders, terms and agreement.

  The record \<open>config\<close> has the peers as they are at one moment.  While peer \<open>i\<close> runs, \<^verbatim>\<open>cfg.saved[i]\<close> is the persister
  inside the peer, so \<open>cf_saved\<close> counts only for a peer that does not run (\<open>savedOf\<close>).  The peers
  keep running while a check of the harness reads them one after the other: a check gets, for each of its
  readings, the configuration at that moment.  Random names, clocks and the order in which Go visits a map are arguments; \<open>names\<close> are the
  names that \<^verbatim>\<open>randstring\<close> gives.  \<open>None\<close> is a panic or \<^verbatim>\<open>log.Fatalf\<close>, and a \<open>failure\<close> is a call of \<^verbatim>\<open>t.Fatal\<close>.
\<close>

section \<open>The configuration\<close>

text \<open>The two readers of an apply channel that a test can choose; an error that a reader finds.\<close>

datatype applier = Applier | ApplierSnap

datatype 'c apply_error = Differs nat int "'c option" nat "'c option" | OutOfOrder nat int

text \<open>The last two fields are not in the code: the readers that have been started, with their servers, and the errors that a
  reader has found and is about to report with \<^verbatim>\<open>log.Fatalf\<close>, which ends the test.\<close>

record ('c, 's, 'w) config =
  cf_net :: "(string, nat) Network"
  cf_heap :: "'w Server list"
  cf_n :: nat
  cf_rafts :: "('c, 's) Raft option list"
  cf_applyErr :: "string list"
  cf_connected :: "bool list"
  cf_saved :: "('c gob, 's) Persister option list"
  cf_endnames :: endnames
  cf_logs :: "(int \<rightharpoonup> 'c option) list"
  cf_rpcs0 :: int
  cf_cmds0 :: int
  cf_bytes0 :: int
  cf_maxIndex :: int
  cf_maxIndex0 :: int
  cf_appliers :: "(nat \<times> applier) list"
  cf_found :: "'c apply_error list"

datatype failure =
    GoPanic
  | TookTooLong
  | ManyLeaders int nat
  | NoLeader
  | TermsDiffer
  | UnexpectedLeader nat
  | ApplyFailed string
  | CommittedDiffer int
  | TooFewDecided nat int int
  | NoAgreement

definition savedOf :: "('c, 's, 'w) config \<Rightarrow> nat \<Rightarrow> ('c gob, 's) Persister option" where
  "savedOf cfg i = (case cf_rafts cfg ! i of Some rf \<Rightarrow> Some (persister rf) | None \<Rightarrow> cf_saved cfg ! i)"

section \<open>Starting and stopping\<close>

definition cfg_connect :: "nat \<Rightarrow> ('c, 's, 'w) config \<Rightarrow> ('c, 's, 'w) config option" where
  "cfg_connect i cfg = do {
     conn \<leftarrow> go_store (cf_connected cfg) (int i) True;
     let js = filter (\<lambda>j. conn ! j) [0..<cf_n cfg];
     net1 \<leftarrow> enableEnds (cf_endnames cfg) True (map (\<lambda>j. (int i, int j)) js) (cf_net cfg);
     net2 \<leftarrow> enableEnds (cf_endnames cfg) True (map (\<lambda>j. (int j, int i)) js) net1;
     Some (cfg\<lparr>cf_connected := conn, cf_net := net2\<rparr>)
   }"

definition cfg_disconnect :: "nat \<Rightarrow> ('c, 's, 'w) config \<Rightarrow> ('c, 's, 'w) config option" where
  "cfg_disconnect i cfg = do {
     conn \<leftarrow> go_store (cf_connected cfg) (int i) False;
     net1 \<leftarrow> enableEnds (cf_endnames cfg) False
       (map (\<lambda>j. (int i, int j)) (filter (\<lambda>j. cf_endnames cfg ! i \<noteq> None) [0..<cf_n cfg])) (cf_net cfg);
     net2 \<leftarrow> enableEnds (cf_endnames cfg) False
       (map (\<lambda>j. (int j, int i)) (filter (\<lambda>j. cf_endnames cfg ! j \<noteq> None) [0..<cf_n cfg])) net1;
     Some (cfg\<lparr>cf_connected := conn, cf_net := net2\<rparr>)
   }"

text \<open>Shutting a server down: the persister is copied before the peer is killed.\<close>

definition cfg_crash1 :: "nat \<Rightarrow> ('c, 's, 'w) config \<Rightarrow> ('c, 's, 'w) config option" where
  "cfg_crash1 i cfg = do {
     cfg1 \<leftarrow> cfg_disconnect i cfg;
     let net = DeleteServer i (cf_net cfg1);
     let saved = map_option Persister_Copy (savedOf cfg1 i);
     let saved1 = map_option (\<lambda>ps. SaveStateAndSnapshot (ReadRaftState ps) (ReadSnapshot ps) \<lparr>raftstate = [], snapshot = []\<rparr>) saved;
     Some (cfg1\<lparr>cf_net := net, cf_rafts := (cf_rafts cfg1)[i := None], cf_saved := (cf_saved cfg1)[i := saved1]\<rparr>)
   }"

text \<open>\<open>methods\<close> is what reflection tells about the methods of a peer.\<close>

definition cfg_start1 :: "(nat \<Rightarrow> string) \<Rightarrow> 'w Method list \<Rightarrow> applier \<Rightarrow> nat \<Rightarrow> ('c, 's, 'w) config \<Rightarrow> ('c, 's, 'w) config option" where
  "cfg_start1 names methods ap i cfg = do {
     cfg1 \<leftarrow> cfg_crash1 i cfg;
     let ens = (cf_endnames cfg1)[i := Some (map names [0..<cf_n cfg1])];
     (net1, ends) \<leftarrow> makeEnds (\<lambda>j. j) 0 (map names [0..<cf_n cfg1]) (cf_net cfg1);
     let saved = (case savedOf cfg1 i of Some ps \<Rightarrow> Persister_Copy ps | None \<Rightarrow> MakePersister);
     let appliers = cf_appliers cfg1 @ [(i, ap)];
     rf \<leftarrow> Make (length ends) i saved;
     let srv = AddService (MakeService ''Raft'' methods) MakeServer;
     let net2 = AddServer i (length (cf_heap cfg1)) net1;
     Some (cfg1\<lparr>cf_endnames := ens, cf_net := net2, cf_saved := (cf_saved cfg1)[i := Some saved],
       cf_rafts := (cf_rafts cfg1)[i := Some rf], cf_heap := cf_heap cfg1 @ [srv], cf_appliers := appliers\<rparr>)
   }"

definition cfg_setunreliable :: "bool \<Rightarrow> ('c, 's, 'w) config \<Rightarrow> ('c, 's, 'w) config" where
  "cfg_setunreliable unrel cfg = cfg\<lparr>cf_net := Reliable (\<not> unrel) (cf_net cfg)\<rparr>"

definition cfg_setlongreordering :: "bool \<Rightarrow> ('c, 's, 'w) config \<Rightarrow> ('c, 's, 'w) config" where
  "cfg_setlongreordering longrel cfg = cfg\<lparr>cf_net := LongReordering longrel (cf_net cfg)\<rparr>"

fun startLoop :: "(nat \<Rightarrow> nat \<Rightarrow> string) \<Rightarrow> 'w Method list \<Rightarrow> applier \<Rightarrow> nat list \<Rightarrow> ('c, 's, 'w) config \<Rightarrow> ('c, 's, 'w) config option" where
  "startLoop names methods ap [] cfg = Some cfg"
| "startLoop names methods ap (i # is) cfg = do {
     cfg1 \<leftarrow> cfg_start1 (names i) methods ap i (cfg\<lparr>cf_logs := (cf_logs cfg)[i := Map.empty]\<rparr>);
     startLoop names methods ap is cfg1
   }"

fun connectLoop :: "nat list \<Rightarrow> ('c, 's, 'w) config \<Rightarrow> ('c, 's, 'w) config option" where
  "connectLoop [] cfg = Some cfg"
| "connectLoop (i # is) cfg = do {
     cfg1 \<leftarrow> cfg_connect i cfg;
     connectLoop is cfg1
   }"

text \<open>The configuration before the first server is started.\<close>

definition new_config :: "nat \<Rightarrow> bool \<Rightarrow> ('c, 's, 'w) config" where
  "new_config n unreliable =
     (let cfg = \<lparr>cf_net = MakeNetwork, cf_heap = [], cf_n = n, cf_rafts = replicate n None, cf_applyErr = replicate n '''',
        cf_connected = replicate n False, cf_saved = replicate n None, cf_endnames = replicate n None, cf_logs = replicate n Map.empty,
        cf_rpcs0 = 0, cf_cmds0 = 0, cf_bytes0 = 0, cf_maxIndex = 0, cf_maxIndex0 = 0, cf_appliers = [], cf_found = []\<rparr>;
        cfg1 = cfg_setunreliable unreliable cfg
      in cfg1\<lparr>cf_net := LongDelays True (cf_net cfg1)\<rparr>)"

definition make_config :: "(nat \<Rightarrow> nat \<Rightarrow> string) \<Rightarrow> 'w Method list \<Rightarrow> nat \<Rightarrow> bool \<Rightarrow> bool \<Rightarrow> ('c, 's, 'w) config option" where
  "make_config names methods n unreliable snaps = do {
     let ap = (if snaps then ApplierSnap else Applier);
     cfg1 \<leftarrow> startLoop names methods ap [0..<n] (new_config n unreliable);
     connectLoop [0..<n] cfg1
   }"

definition checkTimeout :: "bool \<Rightarrow> int \<Rightarrow> failure + unit" where
  "checkTimeout failed seconds = (if \<not> failed \<and> seconds > 120 then Inl TookTooLong else Inr ())"

definition cfg_cleanup :: "bool \<Rightarrow> int \<Rightarrow> ('c, 's, 'w) config \<Rightarrow> (('c, 's, 'w) config \<times> (failure + unit)) option" where
  "cfg_cleanup failed seconds cfg = do {
     let rafts = map (map_option Raft_Kill) (cf_rafts cfg);
     net \<leftarrow> Cleanup (cf_net cfg);
     Some (cfg\<lparr>cf_rafts := rafts, cf_net := net\<rparr>, checkTimeout failed seconds)
   }"

section \<open>Watching what is applied\<close>

fun checkLogsLoop :: "nat \<Rightarrow> int \<Rightarrow> 'c option \<Rightarrow> (int \<rightharpoonup> 'c option) list \<Rightarrow> nat \<Rightarrow> 'c apply_error option \<Rightarrow> 'c apply_error option" where
  "checkLogsLoop i index v [] j err = err"
| "checkLogsLoop i index v (lg # lgs) j err =
     checkLogsLoop i index v lgs (j + 1)
       (case lg index of
          Some old \<Rightarrow> if old \<noteq> v then Some (Differs i index v j old) else err
        | None \<Rightarrow> err)"

definition cfg_checkLogs :: "nat \<Rightarrow> ('c, 's) ApplyMsg \<Rightarrow> ('c, 's, 'w) config \<Rightarrow>
    (('c, 's, 'w) config \<times> 'c apply_error option \<times> bool) option" where
  "cfg_checkLogs i m cfg = do {
     let v = am_Command m;
     let err_msg = checkLogsLoop i (am_CommandIndex m) v (cf_logs cfg) 0 None;
     lg \<leftarrow> go_index (cf_logs cfg) (int i);
     let prevok = (lg (am_CommandIndex m - 1) \<noteq> None);
     logs1 \<leftarrow> go_store (cf_logs cfg) (int i) (lg(am_CommandIndex m \<mapsto> v));
     Some (cfg\<lparr>cf_logs := logs1, cf_maxIndex := (if am_CommandIndex m > cf_maxIndex cfg then am_CommandIndex m else cf_maxIndex cfg)\<rparr>,
       err_msg, prevok)
   }"

text \<open>A command arrives.  It is stored under the lock, and then, without the lock, the reader looks at what the check told it: an error is
  from then on in \<open>cf_found\<close>, and while the reader goes to \<^verbatim>\<open>log.Fatalf\<close> the others run on.\<close>

definition checkCommand :: "nat \<Rightarrow> ('c, 's) ApplyMsg \<Rightarrow> ('c, 's, 'w) config \<Rightarrow> (('c, 's, 'w) config \<times> 'c apply_error option) option" where
  "checkCommand i m cfg = do {
     (cfg1, err_msg, prevok) \<leftarrow> cfg_checkLogs i m cfg;
     let err = (if am_CommandIndex m > 1 \<and> \<not> prevok then Some (OutOfOrder i (am_CommandIndex m)) else err_msg);
     Some (case err of Some e \<Rightarrow> cfg1\<lparr>cf_found := cf_found cfg1 @ [e]\<rparr> | None \<Rightarrow> cfg1, err)
   }"

text \<open>One message of \<^verbatim>\<open>applier\<close>.\<close>

definition cfg_applier :: "nat \<Rightarrow> ('c, 's) ApplyMsg \<Rightarrow> ('c, 's, 'w) config \<Rightarrow> ('c, 's, 'w) config option" where
  "cfg_applier i m cfg = (if \<not> am_CommandValid m then Some cfg else map_option fst (checkCommand i m cfg))"

definition SnapShotInterval :: int where "SnapShotInterval = 10"

text \<open>
  One message of \<^verbatim>\<open>applierSnap\<close>, whose variable \<^verbatim>\<open>lastApplied\<close> is passed along, up to the snapshot it may take, which is a
  step of its own.  A command is encoded into and decoded from the bytes of a snapshot by the arguments; \<open>cap\<close> is the
  capacity of the slices that the peer copies.
\<close>

definition cfg_applierSnap :: "('s list \<Rightarrow> 'c option) \<Rightarrow> int \<Rightarrow> nat \<Rightarrow> ('c, 's) ApplyMsg \<Rightarrow> int \<Rightarrow> ('c, 's, 'w) config \<Rightarrow>
    (int \<times> ('c, 's, 'w) config) option" where
  "cfg_applierSnap decode cap i m lastApp cfg =
     (if am_SnapshotValid m then do {
        r \<leftarrow> go_index (cf_rafts cfg) (int i);
        rf \<leftarrow> r;
        (rf1, ok) \<leftarrow> CondInstallSnapshot cap (am_SnapshotTerm m) (am_SnapshotIndex m) (am_Snapshot m) rf;
        let cfg1 = cfg\<lparr>cf_rafts := (cf_rafts cfg)[i := Some rf1]\<rparr>;
        if ok then do {
          v \<leftarrow> decode (am_Snapshot m);
          logs1 \<leftarrow> go_store (cf_logs cfg1) (int i) [am_SnapshotIndex m \<mapsto> Some v];
          Some (am_SnapshotIndex m, cfg1\<lparr>cf_logs := logs1\<rparr>)
        } else Some (lastApp, cfg1)
      }
      else if am_CommandValid m \<and> am_CommandIndex m > lastApp then do {
        (cfg1, err) \<leftarrow> checkCommand i m cfg;
        Some (case err of Some e \<Rightarrow> lastApp | None \<Rightarrow> am_CommandIndex m, cfg1)
      }
      else Some (lastApp, cfg))"

definition applierSnap_snapshot :: "('c option \<Rightarrow> 's list) \<Rightarrow> int \<Rightarrow> nat \<Rightarrow> ('c, 's) ApplyMsg \<Rightarrow> ('c, 's, 'w) config \<Rightarrow> ('c, 's, 'w) config option" where
  "applierSnap_snapshot encode cap i m cfg =
     (if (am_CommandIndex m + 1) mod SnapShotInterval = 0 then do {
        r \<leftarrow> go_index (cf_rafts cfg) (int i);
        rf \<leftarrow> r;
        rf1 \<leftarrow> Snapshot cap (am_CommandIndex m) (encode (am_Command m)) rf;
        Some (cfg\<lparr>cf_rafts := (cf_rafts cfg)[i := Some rf1]\<rparr>)
      } else Some cfg)"

section \<open>Checking leaders and terms\<close>

text \<open>\<^verbatim>\<open>cfg.rafts[i].GetState()\<close>; a nil peer panics.\<close>

definition peerState :: "('c, 's, 'w) config \<Rightarrow> nat \<Rightarrow> failure + int \<times> bool" where
  "peerState cfg i = (case cf_rafts cfg ! i of None \<Rightarrow> Inl GoPanic | Some rf \<Rightarrow> Inr (GetState rf))"

text \<open>The leaders that a round finds, by term; \<open>view i\<close> is the configuration when peer \<open>i\<close> is read.\<close>

fun leadersLoop :: "(nat \<Rightarrow> ('c, 's, 'w) config) \<Rightarrow> nat list \<Rightarrow> (int, nat list) gomap \<Rightarrow> failure + (int, nat list) gomap" where
  "leadersLoop view [] leaders = Inr leaders"
| "leadersLoop view (i # is) leaders =
     (if cf_connected (view i) ! i then
        case peerState (view i) i of
          Inl e \<Rightarrow> Inl e
        | Inr (term, leader) \<Rightarrow>
            leadersLoop view is (if leader then
              AList.update term ((case map_of leaders term of None \<Rightarrow> [] | Some ls \<Rightarrow> ls) @ [i]) leaders else leaders)
      else leadersLoop view is leaders)"

fun lastTermLoop :: "(int, nat list) gomap \<Rightarrow> int \<Rightarrow> failure + int" where
  "lastTermLoop [] lastTermWithLeader = Inr lastTermWithLeader"
| "lastTermLoop ((term, leaders) # rest) lastTermWithLeader =
     (if length leaders > 1 then Inl (ManyLeaders term (length leaders))
      else lastTermLoop rest (if term > lastTermWithLeader then term else lastTermWithLeader))"

text \<open>\<open>iter\<close> is the order in which Go visits the map; \<open>views k i\<close> is the configuration when round \<open>k\<close> reads peer \<open>i\<close>.\<close>

fun oneLeaderLoop :: "((int, nat list) gomap \<Rightarrow> (int, nat list) gomap) \<Rightarrow> (nat \<Rightarrow> nat \<Rightarrow> ('c, 's, 'w) config) \<Rightarrow> nat \<Rightarrow> nat list \<Rightarrow> failure + nat" where
  "oneLeaderLoop iter views n [] = Inl NoLeader"
| "oneLeaderLoop iter views n (k # ks) =
     (case leadersLoop (views k) [0..<n] [] of
        Inl e \<Rightarrow> Inl e
      | Inr leaders \<Rightarrow>
          (case lastTermLoop (iter leaders) (-1) of
             Inl e \<Rightarrow> Inl e
           | Inr lastTerm \<Rightarrow>
               if leaders \<noteq> [] then
                 (case map_of leaders lastTerm of Some (l # ls) \<Rightarrow> Inr l | _ \<Rightarrow> Inl GoPanic)
               else oneLeaderLoop iter views n ks))"

definition checkOneLeader :: "((int, nat list) gomap \<Rightarrow> (int, nat list) gomap) \<Rightarrow> (nat \<Rightarrow> nat \<Rightarrow> ('c, 's, 'w) config) \<Rightarrow> nat \<Rightarrow> failure + nat" where
  "checkOneLeader iter views n = oneLeaderLoop iter views n [0..<10]"

fun termsLoop :: "(nat \<Rightarrow> ('c, 's, 'w) config) \<Rightarrow> nat list \<Rightarrow> int \<Rightarrow> failure + int" where
  "termsLoop view [] term = Inr term"
| "termsLoop view (i # is) term =
     (if cf_connected (view i) ! i then
        case peerState (view i) i of
          Inl e \<Rightarrow> Inl e
        | Inr (xterm, _) \<Rightarrow>
            if term = -1 then termsLoop view is xterm
            else if term \<noteq> xterm then Inl TermsDiffer
            else termsLoop view is term
      else termsLoop view is term)"

definition checkTerms :: "(nat \<Rightarrow> ('c, 's, 'w) config) \<Rightarrow> nat \<Rightarrow> failure + int" where
  "checkTerms view n = termsLoop view [0..<n] (-1)"

fun noLeaderLoop :: "(nat \<Rightarrow> ('c, 's, 'w) config) \<Rightarrow> nat list \<Rightarrow> failure + unit" where
  "noLeaderLoop view [] = Inr ()"
| "noLeaderLoop view (i # is) =
     (if cf_connected (view i) ! i then
        case peerState (view i) i of
          Inl e \<Rightarrow> Inl e
        | Inr (_, is_leader) \<Rightarrow> if is_leader then Inl (UnexpectedLeader i) else noLeaderLoop view is
      else noLeaderLoop view is)"

definition checkNoLeader :: "(nat \<Rightarrow> ('c, 's, 'w) config) \<Rightarrow> nat \<Rightarrow> failure + unit" where
  "checkNoLeader view n = noLeaderLoop view [0..<n]"

section \<open>Checking agreement\<close>

fun committedLoop :: "int \<Rightarrow> (nat \<Rightarrow> ('c, 's, 'w) config) \<Rightarrow> nat list \<Rightarrow> nat \<Rightarrow> 'c option \<Rightarrow> failure + nat \<times> 'c option" where
  "committedLoop index view [] cnt cmd = Inr (cnt, cmd)"
| "committedLoop index view (i # is) cnt cmd =
     (if cf_applyErr (view i) ! i \<noteq> '''' then Inl (ApplyFailed (cf_applyErr (view i) ! i))
      else case (cf_logs (view i) ! i) index of
          Some cmd1 \<Rightarrow>
            if cnt > 0 \<and> cmd \<noteq> cmd1 then Inl (CommittedDiffer index)
            else committedLoop index view is (cnt + 1) cmd1
        | None \<Rightarrow> committedLoop index view is cnt cmd)"

definition nCommitted :: "int \<Rightarrow> (nat \<Rightarrow> ('c, 's, 'w) config) \<Rightarrow> nat \<Rightarrow> failure + nat \<times> 'c option" where
  "nCommitted index view n = committedLoop index view [0..<n] 0 None"

text \<open>What \<^verbatim>\<open>wait\<close> returns: the command, or \<^verbatim>\<open>-1\<close> when a peer has a later term.\<close>

datatype 'c waited = MovedOn | Decided "'c option"

fun laterTerm :: "int \<Rightarrow> (nat \<Rightarrow> ('c, 's, 'w) config) \<Rightarrow> nat list \<Rightarrow> failure + bool" where
  "laterTerm startTerm poll [] = Inr False"
| "laterTerm startTerm poll (i # is) =
     (case peerState (poll i) i of
        Inl e \<Rightarrow> Inl e
      | Inr (t, _) \<Rightarrow> if t > startTerm then Inr True else laterTerm startTerm poll is)"

fun waitLoop :: "(nat \<Rightarrow> nat \<Rightarrow> ('c, 's, 'w) config) \<Rightarrow> (nat \<Rightarrow> nat \<Rightarrow> ('c, 's, 'w) config) \<Rightarrow> nat \<Rightarrow> int \<Rightarrow> int \<Rightarrow> int \<Rightarrow> nat list \<Rightarrow> failure + bool" where
  "waitLoop views polls np index n startTerm [] = Inr False"
| "waitLoop views polls np index n startTerm (k # ks) =
     (case nCommitted index (views k) np of
        Inl e \<Rightarrow> Inl e
      | Inr (nd, _) \<Rightarrow>
          if int nd \<ge> n then Inr False
          else if startTerm > -1 then
            (case laterTerm startTerm (polls k) [0..<np] of
               Inl e \<Rightarrow> Inl e
             | Inr moved \<Rightarrow> if moved then Inr True else waitLoop views polls np index n startTerm ks)
          else waitLoop views polls np index n startTerm ks)"

definition cfg_wait :: "(nat \<Rightarrow> nat \<Rightarrow> ('c, 's, 'w) config) \<Rightarrow> (nat \<Rightarrow> nat \<Rightarrow> ('c, 's, 'w) config) \<Rightarrow> nat \<Rightarrow> int \<Rightarrow> int \<Rightarrow> int \<Rightarrow> failure + 'c waited" where
  "cfg_wait views polls np index n startTerm =
     (case waitLoop views polls np index n startTerm [0..<30] of
        Inl e \<Rightarrow> Inl e
      | Inr moved \<Rightarrow>
          if moved then Inr MovedOn
          else (case nCommitted index (views 30) np of
             Inl e \<Rightarrow> Inl e
           | Inr (nd, cmd) \<Rightarrow> if int nd < n then Inl (TooFewDecided nd index n) else Inr (Decided cmd)))"

text \<open>Submitting a command: the peers are tried in turn; the value is the last peer tried and the index, \<open>-1\<close> when nobody leads.\<close>

fun submitLoop :: "'c \<Rightarrow> (nat \<Rightarrow> ('c, 's, 'w) config) \<Rightarrow> nat \<Rightarrow> nat list \<Rightarrow> nat \<Rightarrow> failure + nat \<times> int" where
  "submitLoop cmd view n [] starts = Inr (starts, -1)"
| "submitLoop cmd view n (si # sis) starts =
     (let starts1 = (starts + 1) mod n;
          rf = (if cf_connected (view si) ! starts1 then cf_rafts (view si) ! starts1 else None)
      in case rf of
           None \<Rightarrow> submitLoop cmd view n sis starts1
         | Some r \<Rightarrow>
             (case Start cmd r of
                None \<Rightarrow> Inl GoPanic
              | Some (_, (index1, _, ok), _) \<Rightarrow>
                  if ok then Inr (starts1, index1) else submitLoop cmd view n sis starts1))"

fun agreeLoop :: "'c \<Rightarrow> int \<Rightarrow> int \<Rightarrow> (nat \<Rightarrow> nat \<Rightarrow> ('c, 's, 'w) config) \<Rightarrow> nat \<Rightarrow> nat list \<Rightarrow> failure + bool" where
  "agreeLoop cmd expectedServers index looks n [] = Inr False"
| "agreeLoop cmd expectedServers index looks n (t # ts) =
     (case nCommitted index (looks t) n of
        Inl e \<Rightarrow> Inl e
      | Inr (nd, cmd1) \<Rightarrow>
          if nd > 0 \<and> int nd \<ge> expectedServers \<and> cmd1 = Some cmd then Inr True
          else agreeLoop cmd expectedServers index looks n ts)"

text \<open>
  The clock decides how many rounds there are and how often a round looks for agreement: \<open>rounds\<close> has the number of
  looks of each round.  \<open>tries r si\<close> and \<open>looks r t i\<close> are the configurations that round \<open>r\<close> reads.
\<close>

fun oneLoop :: "'c \<Rightarrow> int \<Rightarrow> bool \<Rightarrow> nat \<Rightarrow> (nat \<Rightarrow> nat \<Rightarrow> ('c, 's, 'w) config) \<Rightarrow> (nat \<Rightarrow> nat \<Rightarrow> nat \<Rightarrow> ('c, 's, 'w) config) \<Rightarrow>
    nat \<Rightarrow> nat list \<Rightarrow> nat \<Rightarrow> failure + int" where
  "oneLoop cmd expectedServers retry n tries looks r [] starts = Inl NoAgreement"
| "oneLoop cmd expectedServers retry n tries looks r (turns # rounds) starts =
     (case submitLoop cmd (tries r) n [0..<n] starts of
        Inl e \<Rightarrow> Inl e
      | Inr (starts1, index) \<Rightarrow>
          if index \<noteq> -1 then
            (case agreeLoop cmd expectedServers index (looks r) n [0..<turns] of
               Inl e \<Rightarrow> Inl e
             | Inr agreed \<Rightarrow>
                 if agreed then Inr index
                 else if \<not> retry then Inl NoAgreement
                 else oneLoop cmd expectedServers retry n tries looks (r + 1) rounds starts1)
          else oneLoop cmd expectedServers retry n tries looks (r + 1) rounds starts1)"

definition cfg_one :: "'c \<Rightarrow> int \<Rightarrow> bool \<Rightarrow> nat \<Rightarrow> (nat \<Rightarrow> nat \<Rightarrow> ('c, 's, 'w) config) \<Rightarrow> (nat \<Rightarrow> nat \<Rightarrow> nat \<Rightarrow> ('c, 's, 'w) config) \<Rightarrow>
    nat list \<Rightarrow> failure + int" where
  "cfg_one cmd expectedServers retry n tries looks rounds = oneLoop cmd expectedServers retry n tries looks 0 rounds 0"

section \<open>Statistics\<close>

definition rpcCount :: "nat \<Rightarrow> ('c, 's, 'w) config \<Rightarrow> int option" where
  "rpcCount server cfg = GetCount server (cf_heap cfg) (cf_net cfg)"

definition rpcTotal :: "('c, 's, 'w) config \<Rightarrow> int" where
  "rpcTotal cfg = GetTotalCount (cf_net cfg)"

definition bytesTotal :: "('c, 's, 'w) config \<Rightarrow> int" where
  "bytesTotal cfg = GetTotalBytes (cf_net cfg)"

definition cfg_begin :: "('c, 's, 'w) config \<Rightarrow> ('c, 's, 'w) config" where
  "cfg_begin cfg = cfg\<lparr>cf_rpcs0 := rpcTotal cfg, cf_bytes0 := bytesTotal cfg, cf_cmds0 := 0, cf_maxIndex0 := cf_maxIndex cfg\<rparr>"

text \<open>What \<^verbatim>\<open>end\<close> prints: peers, calls, bytes and commands; nothing when the test has failed.\<close>

definition cfg_end :: "bool \<Rightarrow> int \<Rightarrow> ('c, 's, 'w) config \<Rightarrow> failure + (nat \<times> int \<times> int \<times> int) option" where
  "cfg_end failed seconds cfg =
     (case checkTimeout failed seconds of
        Inl e \<Rightarrow> Inl e
      | Inr _ \<Rightarrow> Inr (if \<not> failed
          then Some (cf_n cfg, rpcTotal cfg - cf_rpcs0 cfg, bytesTotal cfg - cf_bytes0 cfg, cf_maxIndex cfg - cf_maxIndex0 cfg)
          else None))"

fun logSizeLoop :: "('c gob list \<Rightarrow> int) \<Rightarrow> ('c, 's, 'w) config \<Rightarrow> nat list \<Rightarrow> int \<Rightarrow> int option" where
  "logSizeLoop size_of cfg [] logsize = Some logsize"
| "logSizeLoop size_of cfg (i # is) logsize = do {
     ps \<leftarrow> savedOf cfg i;
     let n = RaftStateSize size_of ps;
     logSizeLoop size_of cfg is (if n > logsize then n else logsize)
   }"

definition LogSize :: "('c gob list \<Rightarrow> int) \<Rightarrow> ('c, 's, 'w) config \<Rightarrow> int option" where
  "LogSize size_of cfg = logSizeLoop size_of cfg [0..<cf_n cfg] 0"

end
