(* ===== verification/Raft_Harness_Props.thy ===== *)
theory Raft_Harness_Props
  imports Raft_Harness
begin

text \<open>
  What the harness of the Raft tests guarantees: it controls exactly the links it means to, its check of
  the applied commands is sound, and its check for a single leader never fails on this implementation.
\<close>

section \<open>The links\<close>

definition both :: "bool list \<Rightarrow> nat \<Rightarrow> nat \<Rightarrow> bool" where
  "both conn i j \<longleftrightarrow> conn ! i \<and> conn ! j"

definition sizes_ok :: "('c, 's, 'w) config \<Rightarrow> bool" where
  "sizes_ok cfg \<longleftrightarrow> length (cf_connected cfg) = cf_n cfg \<and> length (cf_rafts cfg) = cf_n cfg \<and> length (cf_saved cfg) = cf_n cfg \<and>
     length (cf_logs cfg) = cf_n cfg \<and> cf_applyErr cfg = replicate (cf_n cfg) ''''"

definition links_inv :: "('c, 's, 'w) config \<Rightarrow> bool" where
  "links_inv cfg \<longleftrightarrow> sizes_ok cfg \<and>
     ends_inv (\<lambda>j. j) (cf_n cfg) (cf_endnames cfg) {} (both (cf_connected cfg)) (cf_net cfg) \<and>
     (\<forall>i<cf_n cfg. (server_at (cf_net cfg) i = None \<longleftrightarrow> cf_rafts cfg ! i = None) \<and>
        (cf_connected cfg ! i \<or> cf_rafts cfg ! i \<noteq> None \<longrightarrow> cf_endnames cfg ! i \<noteq> None))"

lemma connect_links:
  assumes inv: "links_inv cfg" and c: "cfg_connect i cfg = Some cfg'"
  shows "links_inv cfg' \<and> cf_n cfg' = cf_n cfg \<and> cf_logs cfg' = cf_logs cfg \<and> cf_maxIndex cfg' = cf_maxIndex cfg \<and>
    cf_appliers cfg' = cf_appliers cfg \<and> cf_found cfg' = cf_found cfg"
proof -
  let ?n = "cf_n cfg" and ?conn = "(cf_connected cfg)[i := True]"
  have s: "sizes_ok cfg" and ends: "ends_inv (\<lambda>j. j) ?n (cf_endnames cfg) {} (both (cf_connected cfg)) (cf_net cfg)"
    using inv by (simp_all add: links_inv_def)
  obtain net1 net2 where n: "enableEnds (cf_endnames cfg) True (map int_pair (map (\<lambda>j. (i, j)) (filter (\<lambda>j. ?conn ! j) [0..<?n]))) (cf_net cfg) = Some net1"
      "enableEnds (cf_endnames cfg) True (map int_pair (map (\<lambda>j. (j, i)) (filter (\<lambda>j. ?conn ! j) [0..<?n]))) net1 = Some net2"
      "i < ?n" "cfg' = cfg\<lparr>cf_connected := ?conn, cf_net := net2\<rparr>"
    using c s unfolding cfg_connect_def pairs_map by (auto simp: bind_eq_Some_conv Let_def go_store_eq_Some sizes_ok_def)
  note e1 = ends_inv_enable [OF ends n(1)]
  note e2 = ends_inv_enable(2) [OF e1(2) n(2)]
  have l: "(i, i) \<in> live ?n (cf_endnames cfg)" using e1(1) n(3) s by (auto simp: sizes_ok_def)
  have "ends_inv (\<lambda>j. j) ?n (cf_endnames cfg) {} (both ?conn) net2"
    by (rule ends_inv_cong [OF _ e2]) (use s n(3) in \<open>auto simp: live_def both_def sizes_ok_def nth_list_update split: if_splits\<close>)
  moreover have "server_at net2 v = server_at (cf_net cfg) v" for v using n(1,2) by simp
  ultimately show ?thesis using inv n(3,4) l by (auto simp: links_inv_def sizes_ok_def live_def nth_list_update split: if_splits)
qed

lemma disconnect_links:
  assumes inv: "links_inv cfg" and c: "cfg_disconnect i cfg = Some cfg'"
  shows "links_inv cfg' \<and> i < cf_n cfg \<and> (\<exists>net. cfg' = cfg\<lparr>cf_connected := (cf_connected cfg)[i := False], cf_net := net\<rparr>)"
proof -
  let ?n = "cf_n cfg" and ?conn = "(cf_connected cfg)[i := False]"
  have s: "sizes_ok cfg" and ends: "ends_inv (\<lambda>j. j) ?n (cf_endnames cfg) {} (both (cf_connected cfg)) (cf_net cfg)"
    using inv by (simp_all add: links_inv_def)
  obtain net1 net2 where n: "enableEnds (cf_endnames cfg) False (map int_pair (map (\<lambda>j. (i, j)) (filter (\<lambda>j. cf_endnames cfg ! i \<noteq> None) [0..<?n]))) (cf_net cfg) = Some net1"
      "enableEnds (cf_endnames cfg) False (map int_pair (map (\<lambda>j. (j, i)) (filter (\<lambda>j. cf_endnames cfg ! j \<noteq> None) [0..<?n]))) net1 = Some net2"
      "i < ?n" "cfg' = cfg\<lparr>cf_connected := ?conn, cf_net := net2\<rparr>"
    using c s unfolding cfg_disconnect_def pairs_map by (auto simp: bind_eq_Some_conv Let_def go_store_eq_Some sizes_ok_def)
  note e1 = ends_inv_enable(2) [OF ends n(1)]
  note e2 = ends_inv_enable(2) [OF e1 n(2)]
  have "ends_inv (\<lambda>j. j) ?n (cf_endnames cfg) {} (both ?conn) net2"
    by (rule ends_inv_cong [OF _ e2]) (use s n(3) in \<open>auto simp: live_def both_def sizes_ok_def nth_list_update split: if_splits\<close>)
  moreover have "server_at net2 v = server_at (cf_net cfg) v" for v using n(1,2) by simp
  ultimately show ?thesis using inv n(3,4) by (auto simp: links_inv_def sizes_ok_def nth_list_update split: if_splits)
qed

lemma save_read: "SaveStateAndSnapshot (ReadRaftState ps) (ReadSnapshot ps) \<lparr>raftstate = [], snapshot = []\<rparr> = ps"
  by (simp add: SaveStateAndSnapshot_def ReadRaftState_def ReadSnapshot_def clone_def map_nth)

lemma copy_id: "map_option Persister_Copy p = p"
  by (cases p) (simp_all add: Persister_Copy_def MakePersister_def)

lemma crash_links:
  assumes inv: "links_inv cfg" and c: "cfg_crash1 i cfg = Some cfg'"
  shows "links_inv cfg' \<and> i < cf_n cfg \<and> \<not> cf_connected cfg' ! i \<and> cf_rafts cfg' ! i = None \<and> cf_n cfg' = cf_n cfg \<and> cf_logs cfg' = cf_logs cfg \<and>
    cf_maxIndex cfg' = cf_maxIndex cfg \<and> cf_saved cfg' ! i = savedOf cfg i \<and>
    cf_appliers cfg' = cf_appliers cfg \<and> cf_found cfg' = cf_found cfg"
proof -
  obtain cfg1 where d: "cfg_disconnect i cfg = Some cfg1" using c by (auto simp: cfg_crash1_def bind_eq_Some_conv)
  obtain net where f: "links_inv cfg1" "i < cf_n cfg" "cfg1 = cfg\<lparr>cf_connected := (cf_connected cfg)[i := False], cf_net := net\<rparr>"
    using disconnect_links [OF inv d] by blast
  have sv: "savedOf cfg1 i = savedOf cfg i" using f(3) by (simp add: savedOf_def split: option.splits)
  have c': "cfg' = cfg1\<lparr>cf_net := DeleteServer i (cf_net cfg1), cf_rafts := (cf_rafts cfg1)[i := None],
      cf_saved := (cf_saved cfg1)[i := savedOf cfg i]\<rparr>"
    using c d by (auto simp: cfg_crash1_def Let_def sv option.map_comp o_def save_read copy_id option.map_ident)
  have sa: "server_at (DeleteServer i (cf_net cfg1)) j = (if j = i then None else server_at (cf_net cfg1) j)" for j
    by (simp add: server_at_def DeleteServer_def)
  have "ends_inv (\<lambda>j. j) (cf_n cfg1) (cf_endnames cfg1) {} (both (cf_connected cfg1)) (DeleteServer i (cf_net cfg1))"
    by (rule ends_inv_net [where net = "cf_net cfg1"]) (use f(1) in \<open>simp_all add: links_inv_def DeleteServer_def\<close>)
  then have "links_inv cfg'" using f(1,2) sa unfolding c' by (auto simp: links_inv_def sizes_ok_def nth_list_update)
  moreover have "length (cf_connected cfg) = cf_n cfg" "length (cf_rafts cfg) = cf_n cfg" "length (cf_saved cfg) = cf_n cfg"
    using inv by (simp_all add: links_inv_def sizes_ok_def)
  ultimately show ?thesis using f(2,3) unfolding c' by simp
qed

lemma start_links:
  assumes inv: "links_inv cfg" and c: "cfg_start1 names methods ap i cfg = Some cfg'"
  shows "links_inv cfg' \<and> cf_n cfg' = cf_n cfg \<and> cf_logs cfg' = cf_logs cfg \<and> cf_maxIndex cfg' = cf_maxIndex cfg \<and> i < cf_n cfg \<and>
    cf_appliers cfg' = cf_appliers cfg @ [(i, ap)] \<and> cf_found cfg' = cf_found cfg \<and>
    (\<exists>rf. cf_rafts cfg' ! i = Some rf \<and>
       Make (cf_n cfg) i (case savedOf cfg i of None \<Rightarrow> MakePersister | Some ps \<Rightarrow> Persister_Copy ps) = Some rf)"
proof -
  obtain cfg1 where d: "cfg_crash1 i cfg = Some cfg1" using c by (auto simp: cfg_start1_def bind_eq_Some_conv)
  have f: "links_inv cfg1" "i < cf_n cfg1" "\<not> cf_connected cfg1 ! i" "cf_rafts cfg1 ! i = None" "cf_n cfg1 = cf_n cfg" "cf_logs cfg1 = cf_logs cfg"
      "cf_maxIndex cfg1 = cf_maxIndex cfg" "cf_saved cfg1 ! i = savedOf cfg i"
      "cf_appliers cfg1 = cf_appliers cfg" "cf_found cfg1 = cf_found cfg" using crash_links [OF inv d] by simp_all
  let ?n = "cf_n cfg1" and ?ps = "case savedOf cfg i of Some ps \<Rightarrow> Persister_Copy ps | None \<Rightarrow> MakePersister"
  have sv: "savedOf cfg1 i = savedOf cfg i" using f(4,8) by (simp add: savedOf_def)
  obtain net1 ends rf where m: "makeEnds (\<lambda>j. j) 0 (map names [0..<?n]) (cf_net cfg1) = Some (net1, ends)" "Make (length ends) i ?ps = Some rf"
      "cfg' = cfg1\<lparr>cf_endnames := (cf_endnames cfg1)[i := Some (map names [0..<?n])], cf_net := AddServer i (length (cf_heap cfg1)) net1,
        cf_saved := (cf_saved cfg1)[i := Some ?ps], cf_rafts := (cf_rafts cfg1)[i := Some rf],
        cf_heap := cf_heap cfg1 @ [AddService (MakeService ''Raft'' methods) MakeServer], cf_appliers := cf_appliers cfg1 @ [(i, ap)]\<rparr>"
    using c d sv by (auto simp: cfg_start1_def bind_eq_Some_conv Let_def)
  have s: "sizes_ok cfg1" and ends: "ends_inv (\<lambda>j. j) ?n (cf_endnames cfg1) {} (both (cf_connected cfg1)) (cf_net cfg1)"
    using f(1) by (simp_all add: links_inv_def)
  have "ends_inv (\<lambda>j. j) ?n ((cf_endnames cfg1)[i := Some (map names [0..<?n])]) {} (both (cf_connected cfg1)) net1"
    by (rule ends_inv_start [OF ends f(2) _ m(1)]) (use f(3) in \<open>simp add: both_def\<close>)
  then have e: "ends_inv (\<lambda>j. j) ?n ((cf_endnames cfg1)[i := Some (map names [0..<?n])]) {} (both (cf_connected cfg1))
      (AddServer i (length (cf_heap cfg1)) net1)"
    by (rule ends_inv_net) (simp_all add: AddServer_def)
  have l: "length (cf_endnames cfg1) = ?n" using ends by (simp add: ends_inv_def)
  have mf: "length ends = ?n" "nw_servers net1 = nw_servers (cf_net cfg1)" using makeEnds_frame [OF m(1)] by simp_all
  have sa: "server_at (AddServer i (length (cf_heap cfg1)) net1) j = (if j = i then Some (length (cf_heap cfg1)) else server_at (cf_net cfg1) j)" for j
    using mf(2) by (simp add: server_at_def AddServer_def)
  have "links_inv cfg'" using f(1,2) e sa s l unfolding m(3) by (auto simp: links_inv_def sizes_ok_def nth_list_update split: if_splits)
  then show ?thesis using f m mf(1) s by (auto simp: sizes_ok_def)
qed

section \<open>The applied commands\<close>

definition agree :: "(int \<rightharpoonup> 'v) set \<Rightarrow> bool" where
  "agree lgs \<longleftrightarrow> (\<forall>lg\<in>lgs. \<forall>lg'\<in>lgs. \<forall>k v w. lg k = Some v \<longrightarrow> lg' k = Some w \<longrightarrow> v = w)"

definition no_gap :: "int \<Rightarrow> (int \<rightharpoonup> 'v) \<Rightarrow> bool" where
  "no_gap mx lg \<longleftrightarrow> (\<exists>m. 0 \<le> m \<and> m \<le> mx \<and> dom lg = {1..m})"

text \<open>All servers agree, no server has a gap, and \<^verbatim>\<open>maxIndex\<close> bounds what has been applied.\<close>

definition logs_inv :: "('c, 's, 'w) config \<Rightarrow> bool" where
  "logs_inv cfg \<longleftrightarrow> 0 \<le> cf_maxIndex cfg \<and> agree (set (cf_logs cfg)) \<and> (\<forall>lg\<in>set (cf_logs cfg). no_gap (cf_maxIndex cfg) lg)"

lemma agree_subset: "agree A \<Longrightarrow> B \<subseteq> A \<Longrightarrow> agree B"
  unfolding agree_def by blast

lemma agree_insert:
  assumes "agree A" "lg \<in> A" "\<forall>l\<in>A. \<forall>old. l k = Some old \<longrightarrow> old = c"
  shows "agree (insert (lg(k \<mapsto> c)) A)"
proof -
  have old: "v = w" if "l \<in> A" "l' \<in> A" "l x = Some v" "l' x = Some w" for l l' x v w using assms(1) that unfolding agree_def by blast
  have mix: "v = w" if "l \<in> A" "(lg(k \<mapsto> c)) x = Some v" "l x = Some w" for l x v w
    using old [OF assms(2) that(1)] assms(3) that by (cases "x = k") auto
  have mix': "w = v" if "l \<in> A" "(lg(k \<mapsto> c)) x = Some v" "l x = Some w" for l x v w using mix [OF that] by simp
  show ?thesis unfolding agree_def by (intro ballI allI impI; elim insertE) (use mix mix' old in \<open>simp_all only: option.inject\<close>)
qed

lemma no_gap_update:
  assumes "no_gap mx lg" "1 \<le> k" "1 < k \<Longrightarrow> lg (k - 1) \<noteq> None"
  shows "no_gap (max k mx) (lg(k \<mapsto> c))"
proof -
  obtain m where m: "0 \<le> m" "m \<le> mx" "dom lg = {1..m}" using assms(1) by (auto simp: no_gap_def)
  have "k \<le> m + 1"
  proof (cases "1 < k")
    case True
    then have "k - 1 \<in> dom lg" using assms(3) by (simp add: domIff)
    then show ?thesis unfolding m(3) by simp
  qed (use m in simp)
  then have "dom (lg(k \<mapsto> c)) = {1..max m k}" using m(1,3) assms(2) by (auto simp: max_def)
  then show ?thesis unfolding no_gap_def using m by (intro exI [of _ "max m k"]) auto
qed

lemma no_gap_mono: "no_gap mx lg \<Longrightarrow> mx \<le> mx' \<Longrightarrow> no_gap mx' lg"
  unfolding no_gap_def by (meson order_trans)

lemma checkLogsLoop_None:
  "checkLogsLoop i index v lgs j err = None \<longleftrightarrow> err = None \<and> (\<forall>lg\<in>set lgs. \<forall>old. lg index = Some old \<longrightarrow> old = v)"
  by (induction i index v lgs j err rule: checkLogsLoop.induct) (auto split: option.splits)

text \<open>Nothing else changes when a command is checked; without an error it was the next one and differs from no other server's.\<close>

lemma checkCommand_frame:
  assumes "checkCommand i m cfg = Some (cfg', err)"
  shows "i < length (cf_logs cfg) \<and> (\<exists>mx. cfg' = cfg\<lparr>cf_logs := (cf_logs cfg)[i := (cf_logs cfg ! i)(am_CommandIndex m \<mapsto> am_Command m)],
      cf_maxIndex := mx, cf_found := cf_found cfg @ (case err of None \<Rightarrow> [] | Some e \<Rightarrow> [e])\<rparr>)"
  using assms unfolding checkCommand_def cfg_checkLogs_def
  by (auto simp: Let_def bind_eq_Some_conv go_index_eq_Some go_store_eq_Some split: option.splits)

lemma checkCommand_ok:
  assumes "checkCommand i m cfg = Some (cfg', None)"
  shows "(\<forall>lg\<in>set (cf_logs cfg). \<forall>old. lg (am_CommandIndex m) = Some old \<longrightarrow> old = am_Command m) \<and>
    (am_CommandIndex m > 1 \<longrightarrow> (cf_logs cfg ! i) (am_CommandIndex m - 1) \<noteq> None) \<and>
    cf_maxIndex cfg' = max (am_CommandIndex m) (cf_maxIndex cfg)"
  using assms unfolding checkCommand_def cfg_checkLogs_def
  by (auto simp: Let_def bind_eq_Some_conv go_index_eq_Some go_store_eq_Some checkLogsLoop_None max_def split: option.splits if_splits)

lemma checkCommand_logs:
  assumes inv: "logs_inv cfg" and a: "checkCommand i m cfg = Some (cfg', None)" and idx: "1 \<le> am_CommandIndex m"
  shows "logs_inv cfg'"
proof -
  let ?k = "am_CommandIndex m" and ?lg = "cf_logs cfg ! i"
  note r = checkCommand_frame [OF a] and ok = checkCommand_ok [OF a]
  have i: "?lg \<in> set (cf_logs cfg)" using r by simp
  have sub: "set (cf_logs cfg') \<subseteq> insert (?lg(?k \<mapsto> am_Command m)) (set (cf_logs cfg))"
    using r set_update_subset_insert by fastforce
  have mx: "cf_maxIndex cfg' = max ?k (cf_maxIndex cfg)" using ok by simp
  have "agree (insert (?lg(?k \<mapsto> am_Command m)) (set (cf_logs cfg)))"
    by (rule agree_insert [OF _ i]) (use inv ok in \<open>simp_all add: logs_inv_def\<close>)
  then have "agree (set (cf_logs cfg'))" using sub by (rule agree_subset)
  moreover have "no_gap (cf_maxIndex cfg') lg" if "lg \<in> set (cf_logs cfg')" for lg
  proof (cases "lg \<in> set (cf_logs cfg)")
    case True
    then show ?thesis using inv unfolding logs_inv_def mx by (auto intro: no_gap_mono)
  next
    case False
    then have "lg = ?lg(?k \<mapsto> am_Command m)" using that sub by blast
    then show ?thesis unfolding mx using no_gap_update [of "cf_maxIndex cfg" ?lg ?k] inv i ok idx by (simp add: logs_inv_def)
  qed
  ultimately show ?thesis using inv unfolding logs_inv_def mx by (simp add: le_max_iff_disj)
qed

section \<open>Runs of the harness\<close>

text \<open>
  The test connects and disconnects servers, crashes and restarts them with one or the other reader; meanwhile peers change their state,
  messages travel and the readers that have been started, those of earlier instances included, get what peers apply.  A test that
  has found an error may still take some steps before \<^verbatim>\<open>log.Fatalf\<close> ends it.  A command has an index of at least 1.
\<close>

inductive harness_step :: "('c, 's, 'w) config \<Rightarrow> ('c, 's, 'w) config \<Rightarrow> bool" where
  connect: "cfg_connect i cfg = Some cfg' \<Longrightarrow> harness_step cfg cfg'"
| disconnect: "cfg_disconnect i cfg = Some cfg' \<Longrightarrow> harness_step cfg cfg'"
| crash: "cfg_crash1 i cfg = Some cfg' \<Longrightarrow> harness_step cfg cfg'"
| start: "cfg_start1 names methods ap i cfg = Some cfg' \<Longrightarrow> harness_step cfg cfg'"
| peer: "i < cf_n cfg \<Longrightarrow> cf_rafts cfg ! i = Some rf \<Longrightarrow> harness_step cfg (cfg\<lparr>cf_rafts := (cf_rafts cfg)[i := Some rf']\<rparr>)"
| traffic: "harness_step cfg (cfg\<lparr>cf_net := (cf_net cfg)\<lparr>nw_count := cnt, nw_bytes := bytes\<rparr>\<rparr>)"
| unreliable: "harness_step cfg (cfg_setunreliable unrel cfg)"
| reordering: "harness_step cfg (cfg_setlongreordering longrel cfg)"
| begin_test: "harness_step cfg (cfg_begin cfg)"
| apply_msg: "(i, Applier) \<in> set (cf_appliers cfg) \<Longrightarrow> cfg_applier i m cfg = Some cfg' \<Longrightarrow>
    (am_CommandValid m \<Longrightarrow> 1 \<le> am_CommandIndex m) \<Longrightarrow> harness_step cfg cfg'"
| apply_snap: "(i, ApplierSnap) \<in> set (cf_appliers cfg) \<Longrightarrow> cfg_applierSnap decode cap i m lastApp cfg = Some (lastApp', cfg') \<Longrightarrow>
    harness_step cfg cfg'"
| take_snap: "(i, ApplierSnap) \<in> set (cf_appliers cfg) \<Longrightarrow> applierSnap_snapshot encode cap i m cfg = Some cfg' \<Longrightarrow> harness_step cfg cfg'"

definition harness_init :: "('c, 's, 'w) config \<Rightarrow> bool" where
  "harness_init cfg \<longleftrightarrow> (\<exists>names methods n unreliable snaps. make_config names methods n unreliable snaps = Some cfg)"

text \<open>A test without snapshots in which no error has been found.\<close>

definition undisturbed :: "('c, 's, 'w) config \<Rightarrow> bool" where
  "undisturbed cfg \<longleftrightarrow> cf_found cfg = [] \<and> (\<forall>i. (i, ApplierSnap) \<notin> set (cf_appliers cfg))"

definition harness_inv :: "('c, 's, 'w) config \<Rightarrow> bool" where
  "harness_inv cfg \<longleftrightarrow> links_inv cfg \<and> (undisturbed cfg \<longrightarrow> logs_inv cfg)"

lemma harness_inv_quiet:
  assumes "harness_inv cfg" "cf_n cfg' = cf_n cfg" "cf_logs cfg' = cf_logs cfg" "cf_maxIndex cfg' = cf_maxIndex cfg" "links_inv cfg'"
    "undisturbed cfg' \<Longrightarrow> undisturbed cfg"
  shows "harness_inv cfg'"
  using assms by (simp add: harness_inv_def logs_inv_def)

text \<open>What a snapshot does to the peers does not concern the links.\<close>

lemma links_inv_raft:
  assumes "links_inv cfg" "i < cf_n cfg" "cf_rafts cfg ! i \<noteq> None" "length lgs = length (cf_logs cfg)"
  shows "links_inv (cfg\<lparr>cf_rafts := (cf_rafts cfg)[i := Some rf], cf_logs := lgs\<rparr>)"
  using assms by (auto simp: links_inv_def sizes_ok_def nth_list_update)

lemma links_inv_command:
  assumes "links_inv cfg" "checkCommand i m cfg = Some (cfg', err)"
  shows "links_inv cfg'"
  using checkCommand_frame [OF assms(2)] assms(1) by (auto simp: links_inv_def sizes_ok_def)

lemma apply_snap_links:
  assumes "links_inv cfg" "cfg_applierSnap decode cap i m lastApp cfg = Some (lastApp', cfg')"
  shows "links_inv cfg' \<and> cf_n cfg' = cf_n cfg \<and> cf_appliers cfg' = cf_appliers cfg"
proof -
  have len: "length (cf_rafts cfg) = cf_n cfg" using assms(1) by (simp add: links_inv_def sizes_ok_def)
  consider rf rf1 lgs where "i < cf_n cfg" "cf_rafts cfg ! i = Some rf" "length lgs = length (cf_logs cfg)"
      "cfg' = cfg\<lparr>cf_rafts := (cf_rafts cfg)[i := Some rf1], cf_logs := lgs\<rparr>"
    | err where "checkCommand i m cfg = Some (cfg', err)" | "cfg' = cfg"
  proof (cases "am_SnapshotValid m")
    case True
    then obtain rf rf1 ok where r: "i < cf_n cfg" "cf_rafts cfg ! i = Some rf"
      "CondInstallSnapshot cap (am_SnapshotTerm m) (am_SnapshotIndex m) (am_Snapshot m) rf = Some (rf1, ok)"
      using assms(2) len by (auto simp: cfg_applierSnap_def bind_eq_Some_conv go_index_eq_Some)
    show ?thesis
    proof (cases ok)
      case True
      then obtain v where "cfg' = cfg\<lparr>cf_rafts := (cf_rafts cfg)[i := Some rf1], cf_logs := (cf_logs cfg)[i := [am_SnapshotIndex m \<mapsto> Some v]]\<rparr>"
        using assms(2) len r \<open>am_SnapshotValid m\<close>
        by (auto simp: cfg_applierSnap_def Let_def bind_eq_Some_conv go_index_eq_Some go_store_eq_Some)
      then show ?thesis by (intro that(1) [OF r(1,2)]) simp_all
    next
      case False
      then have "cfg' = cfg\<lparr>cf_rafts := (cf_rafts cfg)[i := Some rf1], cf_logs := cf_logs cfg\<rparr>"
        using assms(2) len r \<open>am_SnapshotValid m\<close>
        by (auto simp: cfg_applierSnap_def Let_def bind_eq_Some_conv go_index_eq_Some)
      then show ?thesis using that(1) [OF r(1,2) refl] by simp
    qed
  next
    case False
    show ?thesis
    proof (cases "am_CommandValid m \<and> am_CommandIndex m > lastApp")
      case True
      then obtain err where "checkCommand i m cfg = Some (cfg', err)"
        using assms(2) False by (auto simp: cfg_applierSnap_def bind_eq_Some_conv)
      then show ?thesis by (rule that(2))
    next
      case n: False
      have "cfg' = cfg" using assms(2) unfolding cfg_applierSnap_def if_not_P [OF False] if_not_P [OF n] by simp
      then show ?thesis by (rule that(3))
    qed
  qed
  then show ?thesis
  proof cases
    case 1
    then show ?thesis using links_inv_raft [OF assms(1)] by simp
  next
    case 2
    then show ?thesis using links_inv_command [OF assms(1) 2] checkCommand_frame [OF 2] by auto
  qed (use assms(1) in simp)
qed

lemma take_snap_links:
  assumes "links_inv cfg" "applierSnap_snapshot encode cap i m cfg = Some cfg'"
  shows "links_inv cfg' \<and> cf_n cfg' = cf_n cfg \<and> cf_appliers cfg' = cf_appliers cfg"
proof -
  have len: "length (cf_rafts cfg) = cf_n cfg" using assms(1) by (simp add: links_inv_def sizes_ok_def)
  show ?thesis
  proof (cases "(am_CommandIndex m + 1) mod SnapShotInterval = 0")
    case True
    then obtain rf rf1 where r: "i < cf_n cfg" "cf_rafts cfg ! i = Some rf" "cfg' = cfg\<lparr>cf_rafts := (cf_rafts cfg)[i := Some rf1]\<rparr>"
      using assms(2) len unfolding applierSnap_snapshot_def if_P [OF True] by (auto simp: bind_eq_Some_conv go_index_eq_Some)
    then have "cfg' = cfg\<lparr>cf_rafts := (cf_rafts cfg)[i := Some rf1], cf_logs := cf_logs cfg\<rparr>" by simp
    then show ?thesis using links_inv_raft [OF assms(1) r(1), of "cf_logs cfg" rf1] r(2) by simp
  next
    case False
    then show ?thesis using assms unfolding applierSnap_snapshot_def if_not_P [OF False] by simp
  qed
qed

lemma links_inv_net:
  assumes "links_inv cfg" "nw_ends net = nw_ends (cf_net cfg)" "nw_connections net = nw_connections (cf_net cfg)"
    "nw_enabled net = nw_enabled (cf_net cfg)" "nw_servers net = nw_servers (cf_net cfg)"
  shows "links_inv (cfg\<lparr>cf_net := net\<rparr>)"
proof -
  have "server_at net v = server_at (cf_net cfg) v" for v using assms(5) by (simp add: server_at_def)
  then show ?thesis using assms(1) ends_inv_net [OF _ assms(2-4)] unfolding links_inv_def sizes_ok_def by auto
qed

lemma harness_inv_net:
  assumes "harness_inv cfg" "nw_ends net = nw_ends (cf_net cfg)" "nw_connections net = nw_connections (cf_net cfg)"
    "nw_enabled net = nw_enabled (cf_net cfg)" "nw_servers net = nw_servers (cf_net cfg)"
  shows "harness_inv (cfg\<lparr>cf_net := net\<rparr>)"
proof (rule harness_inv_quiet [OF assms(1)])
  show "links_inv (cfg\<lparr>cf_net := net\<rparr>)" by (rule links_inv_net) (use assms in \<open>simp_all add: harness_inv_def\<close>)
qed (simp_all add: undisturbed_def)

lemma applier_inv:
  assumes "harness_inv cfg" "cfg_applier i m cfg = Some cfg'" "am_CommandValid m \<Longrightarrow> 1 \<le> am_CommandIndex m"
  shows "harness_inv cfg'"
proof (cases "am_CommandValid m")
  case True
  then obtain err where a: "checkCommand i m cfg = Some (cfg', err)" using assms(2) by (auto simp: cfg_applier_def)
  note f = checkCommand_frame [OF a]
  have l: "links_inv cfg'" using links_inv_command [OF _ a] assms(1) by (simp add: harness_inv_def)
  have "logs_inv cfg'" if u: "undisturbed cfg'"
  proof -
    have n: "err = None" "undisturbed cfg" using u f by (auto simp: undisturbed_def split: option.splits)
    then show ?thesis using checkCommand_logs [of cfg i m cfg'] a assms(1) assms(3) [OF True] by (simp add: harness_inv_def)
  qed
  with l show ?thesis by (simp add: harness_inv_def)
qed (use assms in \<open>simp add: cfg_applier_def\<close>)

lemma harness_inv_step:
  assumes "harness_inv cfg" "harness_step cfg cfg'"
  shows "harness_inv cfg'"
  using assms(2)
proof cases
  case (connect i)
  then show ?thesis using connect_links [of cfg i cfg'] assms(1)
    by (intro harness_inv_quiet [OF assms(1)]) (simp_all add: harness_inv_def undisturbed_def)
next
  case (disconnect i)
  then obtain net where "links_inv cfg'" "cfg' = cfg\<lparr>cf_connected := (cf_connected cfg)[i := False], cf_net := net\<rparr>"
    using assms(1) disconnect_links unfolding harness_inv_def by blast
  then show ?thesis using assms(1) by (intro harness_inv_quiet [OF assms(1)]) (simp_all add: undisturbed_def)
next
  case (crash i)
  then show ?thesis using crash_links [of cfg i cfg'] assms(1)
    by (intro harness_inv_quiet [OF assms(1)]) (simp_all add: harness_inv_def undisturbed_def)
next
  case (start names methods ap i)
  then show ?thesis using start_links [of cfg names methods ap i cfg'] assms(1)
    by (intro harness_inv_quiet [OF assms(1)]) (auto simp: harness_inv_def undisturbed_def)
next
  case (peer i rf rf')
  then show ?thesis using assms(1)
    by (auto simp: harness_inv_def links_inv_def sizes_ok_def logs_inv_def undisturbed_def nth_list_update)
next
  case (traffic cnt bytes)
  then show ?thesis by (simp only:) (rule harness_inv_net [OF assms(1)]; simp)
next
  case (unreliable unrel)
  then show ?thesis by (simp only: cfg_setunreliable_def) (rule harness_inv_net [OF assms(1)]; simp add: Reliable_def)
next
  case (reordering longrel)
  then show ?thesis by (simp only: cfg_setlongreordering_def) (rule harness_inv_net [OF assms(1)]; simp add: LongReordering_def)
next
  case begin_test
  then show ?thesis using assms(1) by (auto simp: harness_inv_def links_inv_def sizes_ok_def logs_inv_def undisturbed_def cfg_begin_def)
next
  case (apply_msg i m)
  then show ?thesis using applier_inv assms(1) by blast
next
  case (apply_snap i decode cap m lastApp lastApp')
  then show ?thesis using apply_snap_links [of cfg decode cap i m lastApp lastApp' cfg'] assms(1)
    by (auto simp: harness_inv_def undisturbed_def)
next
  case (take_snap i encode cap m)
  then show ?thesis using take_snap_links [of cfg encode cap i m cfg'] assms(1) by (auto simp: harness_inv_def undisturbed_def)
qed

lemma new_config_inv: "harness_inv (new_config n unreliable)"
proof -
  have no_live: "live n (replicate n None) = {}" by (auto simp: live_def)
  have "ends_inv (\<lambda>j. j) n (replicate n None) {} (both (replicate n False)) (LongDelays True (Reliable (\<not> unreliable) MakeNetwork))"
    using no_live by (auto simp: ends_inv_def MakeNetwork_def LongDelays_def Reliable_def is_enabled_def)
  then show ?thesis
    by (auto simp: harness_inv_def links_inv_def sizes_ok_def logs_inv_def new_config_def Let_def cfg_setunreliable_def server_at_def
      MakeNetwork_def LongDelays_def Reliable_def agree_def no_gap_def intro!: exI [of _ 0])
qed

lemma logs_inv_reset:
  assumes "logs_inv cfg"
  shows "logs_inv (cfg\<lparr>cf_logs := (cf_logs cfg)[i := Map.empty]\<rparr>)"
proof -
  have sub: "set ((cf_logs cfg)[i := Map.empty]) \<subseteq> insert Map.empty (set (cf_logs cfg))" by (rule set_update_subset_insert)
  have "agree (insert Map.empty (set (cf_logs cfg)))" using assms unfolding logs_inv_def agree_def by auto
  then have "agree (set ((cf_logs cfg)[i := Map.empty]))" using sub by (rule agree_subset)
  moreover have "no_gap (cf_maxIndex cfg) Map.empty" using assms unfolding logs_inv_def no_gap_def by (auto intro: exI [of _ 0])
  ultimately show ?thesis using assms sub unfolding logs_inv_def by auto
qed

lemma startLoop_inv: "harness_inv cfg \<Longrightarrow> startLoop names methods ap ks cfg = Some cfg' \<Longrightarrow> harness_inv cfg'"
proof (induction names methods ap ks cfg rule: startLoop.induct)
  case (2 names methods ap i ks cfg)
  let ?cfg = "cfg\<lparr>cf_logs := (cf_logs cfg)[i := Map.empty]\<rparr>"
  obtain cfg1 where c: "cfg_start1 (names i) methods ap i ?cfg = Some cfg1" "startLoop names methods ap ks cfg1 = Some cfg'"
    using 2(3) by (auto simp: bind_eq_Some_conv)
  have "harness_inv ?cfg" using 2(2) logs_inv_reset by (auto simp: harness_inv_def links_inv_def sizes_ok_def undisturbed_def)
  then show ?case using 2(1) [OF c(1) _ c(2)] harness_inv_step harness_step.start c(1) by blast
qed simp

lemma connectLoop_inv: "harness_inv cfg \<Longrightarrow> connectLoop ks cfg = Some cfg' \<Longrightarrow> harness_inv cfg'"
proof (induction ks cfg rule: connectLoop.induct)
  case (2 i ks cfg)
  obtain cfg1 where c: "cfg_connect i cfg = Some cfg1" "connectLoop ks cfg1 = Some cfg'" using 2(3) by (auto simp: bind_eq_Some_conv)
  then show ?case using 2(1) [OF c(1) _ c(2)] harness_inv_step harness_step.connect 2(2) by blast
qed simp

interpretation harness: transition_invariant harness_init harness_step harness_inv
proof
  fix cfg :: "('a, 'b, 'c) config"
  assume "harness_init cfg"
  then show "harness_inv cfg"
    using new_config_inv startLoop_inv connectLoop_inv by (fastforce simp: harness_init_def make_config_def bind_eq_Some_conv)
qed (rule harness_inv_step)

section \<open>Counting servers that have committed\<close>

text \<open>What the log of server \<open>i\<close> has at the index when the server is read.\<close>

definition has_at :: "int \<Rightarrow> (nat \<Rightarrow> ('c, 's, 'w) config) \<Rightarrow> nat \<Rightarrow> 'c option option" where
  "has_at index view i = (cf_logs (view i) ! i) index"

lemma committedLoop_Cons:
  assumes "committedLoop index view (i # ks) cnt cmd = Inr r"
  shows "has_at index view i = None \<Longrightarrow> committedLoop index view ks cnt cmd = Inr r"
    "has_at index view i = Some cmd1 \<Longrightarrow> committedLoop index view ks (cnt + 1) cmd1 = Inr r \<and> (cnt > 0 \<longrightarrow> cmd = cmd1)"
  using assms by (auto simp: has_at_def split: if_splits)

lemma committedLoop_result:
  assumes "committedLoop index view ks cnt cmd = Inr (c, v)"
  shows "c = cnt + length (filter (\<lambda>i. has_at index view i \<noteq> None) ks) \<and> (\<forall>i\<in>set ks. \<forall>w. has_at index view i = Some w \<longrightarrow> w = v) \<and>
    (cnt > 0 \<longrightarrow> v = cmd)"
  using assms
proof (induction ks arbitrary: cnt cmd)
  case (Cons i ks)
  show ?case
  proof (cases "has_at index view i")
    case None
    then show ?thesis using Cons.IH [OF committedLoop_Cons(1) [OF Cons.prems None]] by auto
  next
    case (Some cmd1)
    note c = committedLoop_Cons(2) [OF Cons.prems Some]
    show ?thesis using Cons.IH [OF conjunct1 [OF c]] Some c by auto
  qed
qed simp

lemma committedLoop_total:
  assumes "\<forall>i\<in>set ks. cf_applyErr (view i) ! i = '''' \<and> (\<forall>w. has_at index view i = Some w \<longrightarrow> w = v)" "cnt > 0 \<longrightarrow> cmd = v"
  shows "\<exists>r. committedLoop index view ks cnt cmd = Inr r"
  using assms
proof (induction ks arbitrary: cnt cmd)
  case (Cons i ks)
  have e: "cf_applyErr (view i) ! i = ''''" and w: "has_at index view i = Some w \<Longrightarrow> w = v" for w using Cons.prems(1) by simp_all
  have rest: "\<forall>i\<in>set ks. cf_applyErr (view i) ! i = '''' \<and> (\<forall>w. has_at index view i = Some w \<longrightarrow> w = v)" using Cons.prems(1) by simp
  show ?case
  proof (cases "has_at index view i")
    case None
    then show ?thesis using Cons.IH [OF rest Cons.prems(2)] e by (simp add: has_at_def)
  next
    case (Some x)
    then show ?thesis using Cons.IH [OF rest, of "cnt + 1" v] Cons.prems(2) e w [OF Some] by (auto simp: has_at_def)
  qed
qed simp

lemma nCommitted_result:
  assumes "nCommitted index view n = Inr (nd, cmd)"
  shows "nd = card {i. i < n \<and> has_at index view i \<noteq> None} \<and> (\<forall>i<n. \<forall>w. has_at index view i = Some w \<longrightarrow> w = cmd)"
proof -
  let ?f = "filter (\<lambda>i. has_at index view i \<noteq> None) [0..<n]"
  have r: "nd = length ?f" "\<forall>i\<in>set [0..<n]. \<forall>w. has_at index view i = Some w \<longrightarrow> w = cmd"
    using committedLoop_result [OF assms [unfolded nCommitted_def]] by simp_all
  have "card (set ?f) = length ?f" by (rule distinct_card) simp
  moreover have "set ?f = {i. i < n \<and> has_at index view i \<noteq> None}" by (simp only: set_filter set_upt) (rule Collect_cong, simp)
  ultimately show ?thesis using r by (simp only: atLeastLessThan_iff set_upt) simp
qed

text \<open>Logs only grow.\<close>

lemma step_undisturbed:
  assumes "harness_inv cfg" "harness_step cfg cfg'" "undisturbed cfg'"
  shows "undisturbed cfg"
proof -
  have l: "links_inv cfg" using assms(1) by (simp add: harness_inv_def)
  from assms(2) show ?thesis
  proof cases
    case (connect j)
    then show ?thesis using connect_links [OF l, of j cfg'] assms(3) by (simp add: undisturbed_def)
  next
    case (disconnect j)
    then show ?thesis using disconnect_links [OF l, of j cfg'] assms(3) by (auto simp: undisturbed_def)
  next
    case (crash j)
    then show ?thesis using crash_links [OF l, of j cfg'] assms(3) by (simp add: undisturbed_def)
  next
    case (start names methods ap j)
    then show ?thesis using start_links [OF l, of names methods ap j cfg'] assms(3) by (auto simp: undisturbed_def)
  next
    case (apply_msg j m)
    then show ?thesis using checkCommand_frame [of j m cfg cfg'] assms(3) by (auto simp: cfg_applier_def undisturbed_def split: if_splits)
  next
    case (apply_snap j decode cap m lastApp lastApp')
    then show ?thesis using apply_snap_links [OF l, of decode cap j m lastApp lastApp' cfg'] assms(3) by (auto simp: undisturbed_def)
  next
    case (take_snap j encode cap m)
    then show ?thesis using take_snap_links [OF l, of encode cap j m cfg'] assms(3) by (auto simp: undisturbed_def)
  qed (use assms(3) in \<open>simp_all add: undisturbed_def cfg_setunreliable_def cfg_setlongreordering_def cfg_begin_def\<close>)
qed

lemma step_logs:
  assumes "harness_inv cfg" "harness_step cfg cfg'" "undisturbed cfg'" "i < cf_n cfg"
  shows "cf_n cfg' = cf_n cfg \<and> cf_logs cfg ! i \<subseteq>\<^sub>m cf_logs cfg' ! i"
proof -
  have u: "undisturbed cfg" by (rule step_undisturbed [OF assms(1-3)])
  from assms(2) show ?thesis
  proof cases
    case (connect j)
    then show ?thesis using connect_links [of cfg j cfg'] assms(1) by (simp add: harness_inv_def)
  next
    case (disconnect j)
    then show ?thesis using disconnect_links [of cfg j cfg'] assms(1) by (auto simp: harness_inv_def)
  next
    case (crash j)
    then show ?thesis using crash_links [of cfg j cfg'] assms(1) by (simp add: harness_inv_def)
  next
    case (start names methods ap j)
    then show ?thesis using start_links [of cfg names methods ap j cfg'] assms(1) by (simp add: harness_inv_def)
  next
    case (apply_msg j m)
    show ?thesis
    proof (cases "am_CommandValid m")
      case True
      then obtain err where a: "checkCommand j m cfg = Some (cfg', err)" using apply_msg(2) by (auto simp: cfg_applier_def)
      note f = checkCommand_frame [OF a]
      have "err = None" using f assms(3) by (auto simp: undisturbed_def split: option.splits)
      then have "(cf_logs cfg ! j) (am_CommandIndex m) = Some v \<Longrightarrow> v = am_Command m" for v
        using checkCommand_ok [of j m cfg cfg'] a f by (meson nth_mem)
      then show ?thesis using f by (cases "i = j") (auto simp: map_le_def)
    qed (use apply_msg(2) in \<open>simp add: cfg_applier_def\<close>)
  qed (use u in \<open>auto simp: undisturbed_def cfg_setunreliable_def cfg_setlongreordering_def cfg_begin_def\<close>)
qed

lemma run_logs:
  assumes "reach harness_init harness_step cfg" "harness_step\<^sup>*\<^sup>* cfg cfg'" "undisturbed cfg'" "i < cf_n cfg"
  shows "reach harness_init harness_step cfg' \<and> cf_n cfg' = cf_n cfg \<and> cf_logs cfg ! i \<subseteq>\<^sub>m cf_logs cfg' ! i"
  using assms(2,3)
proof (induction rule: rtranclp_induct)
  case (step y z)
  have y: "reach harness_init harness_step y" using step.hyps(1)
    by (induction rule: rtranclp_induct) (use assms(1) in \<open>auto intro: reach_step [of _ harness_step]\<close>)
  note inv = harness.reach_inv [OF y]
  have IH: "reach harness_init harness_step y" "cf_n y = cf_n cfg" "cf_logs cfg ! i \<subseteq>\<^sub>m cf_logs y ! i"
    using step.IH [OF step_undisturbed [OF inv step.hyps(2) step.prems]] by simp_all
  have "reach harness_init harness_step z" by (rule reach_step [of _ harness_step, OF y step.hyps(2)])
  moreover have "cf_n z = cf_n y \<and> cf_logs y ! i \<subseteq>\<^sub>m cf_logs z ! i"
    by (rule step_logs [OF inv step.hyps(2) step.prems]) (use IH(2) assms(4) in simp)
  ultimately show ?case using IH map_le_trans by metis
qed (use assms(1) in simp)

lemma views_mono:
  assumes "\<And>k. step\<^sup>*\<^sup>* (view k) (view (Suc k))" "i \<le> j"
  shows "step\<^sup>*\<^sup>* (view i) (view j)"
  using assms(2)
proof (induction j)
  case (Suc j)
  then show ?case using assms(1) by (cases "i = Suc j") (auto intro: rtranclp_trans)
qed simp

lemma reach_inv_agree:
  assumes "reach harness_init harness_step cfg" "undisturbed cfg" "i < cf_n cfg" "j < cf_n cfg" "(cf_logs cfg ! i) k = Some v" "(cf_logs cfg ! j) k = Some w"
  shows "v = w"
proof -
  have "agree (set (cf_logs cfg))" "length (cf_logs cfg) = cf_n cfg"
    using harness.reach_inv [OF assms(1)] assms(2) by (simp_all add: harness_inv_def logs_inv_def links_inv_def sizes_ok_def)
  then show ?thesis using assms(3-6) nth_mem unfolding agree_def by metis
qed

section \<open>Leaders over time\<close>

lemma cluster_step_grows:
  assumes inv: "cluster_inv n s" and "cluster_step n s s'"
  shows "voted s \<subseteq> voted s' \<and> (\<forall>i<n. currentTerm (nodes s i) \<le> currentTerm (nodes s' i))"
proof -
  have kept: "currentTerm (nodes s i) \<le> currentTerm rf'" if "i < n" "raft_step ev (nodes s i) = Some rf'" for i ev rf'
    using raft_step_vote_kept [OF that(2)] inv that(1) by (auto simp: cluster_inv_def nodes_inv_def vote_kept_def)
  have rng: "c_from c < n" "c_to c < n" if "c \<in> calls s" for c
    using inv that by (auto simp: cluster_inv_def calls_inv_def Raft_Cluster.call_ok_def)
  from assms(2) show ?thesis
  proof cases
    case (timeout i rf' g eff)
    then show ?thesis using kept [of i EvElectionTimeout rf'] by auto
  next
    case (deliver c rf' resp)
    then show ?thesis using kept [of "c_to c" "EvRequestVote (c_req c)" rf'] rng by auto
  next
    case (answer c resp i t rf' g' eff)
    then show ?thesis using kept [of i "EvVoteReply (c_req c) resp (granted s i t)" rf'] rng by auto
  next
    case (other i ev rf')
    then show ?thesis using kept [of i ev rf'] by auto
  next
    case (restart i rf')
    have "restored (persister (nodes s i)) = (currentTerm (nodes s i), votedFor (nodes s i), logs (nodes s i))"
      using inv restart(2) by (simp add: cluster_inv_def nodes_inv_def durable_def)
    then show ?thesis using restart Make_frame [OF restart(3)] by (auto simp: Persister_Copy_def MakePersister_def)
  qed auto
qed

lemma cluster_run_grows:
  assumes "reach (cluster_init n) (cluster_step n) s" "(cluster_step n)\<^sup>*\<^sup>* s s'"
  shows "reach (cluster_init n) (cluster_step n) s' \<and> voted s \<subseteq> voted s'"
  using assms(2)
proof (induction rule: rtranclp_induct)
  case (step y z)
  then show ?case using cluster_step_grows [OF raft_cluster.reach_inv step.hyps(2)] by (blast intro: reach_step)
qed (use assms(1) in simp)

lemma cluster_terms:
  assumes "reach (cluster_init n) (cluster_step n) s" "i < n"
  shows "0 \<le> currentTerm (nodes s i)"
  using assms(1)
proof (induction rule: reach.induct)
  case (reach_init s)
  then have "Make n i MakePersister = Some (nodes s i)" using assms(2) by (simp add: cluster_init_def)
  then show ?case using Make_frame by (force simp: restored_def MakePersister_def)
next
  case (reach_step s t)
  then show ?case using cluster_step_grows [OF raft_cluster.reach_inv reach_step.hyps(2)] assms(2) by fastforce
qed

text \<open>Two peers that lead in the same term, be it at different moments of a run, are the same.\<close>

lemma one_leader_over_time:
  assumes "reach (cluster_init n) (cluster_step n) s" "(cluster_step n)\<^sup>*\<^sup>* s s'" "i < n" "j < n"
    "state (nodes s i) = StateLeader" "state (nodes s' j) = StateLeader" "currentTerm (nodes s i) = currentTerm (nodes s' j)"
  shows "i = j"
proof -
  have r: "reach (cluster_init n) (cluster_step n) s'" "voted s \<subseteq> voted s'" using cluster_run_grows [OF assms(1,2)] by auto
  have inv: "voted_inv n s" "counted_inv n s" "voted_inv n s'" "counted_inv n s'"
    using raft_cluster.reach_inv assms(1) r(1) by (auto simp: cluster_inv_def)
  let ?V = "\<lambda>s p. {v. (v, currentTerm (nodes s' j), p) \<in> voted s}"
  have "n div 2 < card (?V s i)" "n div 2 < card (?V s' j)" using inv(2,4) assms(3-7) by (auto simp: counted_inv_def)
  moreover have "?V s i \<subseteq> {..<n}" "?V s' j \<subseteq> {..<n}" using inv(1,3) by (auto simp: voted_inv_def)
  ultimately obtain v where "v \<in> ?V s i" "v \<in> ?V s' j" using majorities_meet by blast
  then show ?thesis using inv(3) r(2) unfolding voted_inv_def by blast
qed

section \<open>The check for one leader\<close>

text \<open>Peer \<open>i\<close> is connected and says that it leads in term \<open>t\<close> when it is read.\<close>

definition observed :: "(nat \<Rightarrow> ('c, 's, 'w) config) \<Rightarrow> int \<Rightarrow> nat \<Rightarrow> bool" where
  "observed view t i \<longleftrightarrow> cf_connected (view i) ! i \<and> (\<exists>rf. cf_rafts (view i) ! i = Some rf \<and> GetState rf = (t, True))"

definition some_list :: "'a list \<Rightarrow> 'a list option" where
  "some_list l = (if l = [] then None else Some l)"

lemma leadersLoop_result:
  assumes "\<forall>i\<in>set ks. cf_connected (view i) ! i \<longrightarrow> cf_rafts (view i) ! i \<noteq> None" "gm_wf leaders" "\<forall>t. map_of leaders t \<noteq> Some []"
  shows "\<exists>m. leadersLoop view ks leaders = Inr m \<and> gm_wf m \<and>
    (\<forall>t. map_of m t = some_list (the_slice (map_of leaders t) @ filter (observed view t) ks))"
  using assms
proof (induction ks arbitrary: leaders)
  case Nil
  have "map_of leaders t = some_list (the_slice (map_of leaders t))" for t
    using Nil.prems(3) by (auto simp: some_list_def the_slice_def split: option.splits)
  then show ?case using Nil.prems(2) by simp
next
  case (Cons i ks)
  have rest: "\<forall>i\<in>set ks. cf_connected (view i) ! i \<longrightarrow> cf_rafts (view i) ! i \<noteq> None" using Cons.prems(1) by simp
  show ?case
  proof (cases "\<exists>t. observed view t i")
    case True
    then obtain t rf where t: "cf_connected (view i) ! i" "cf_rafts (view i) ! i = Some rf" "GetState rf = (t, True)"
      by (auto simp: observed_def)
    let ?l = "AList.update t (the_slice (map_of leaders t) @ [i]) leaders"
    have o: "observed view t' i \<longleftrightarrow> t' = t" for t' using t by (auto simp: observed_def)
    have ne: "\<forall>t'. map_of ?l t' \<noteq> Some []" using Cons.prems(3) by (simp add: update_conv')
    obtain m where m: "leadersLoop view ks ?l = Inr m" "gm_wf m"
        "\<And>t'. map_of m t' = some_list (the_slice (map_of ?l t') @ filter (observed view t') ks)"
      using Cons.IH [OF rest _ ne] Cons.prems(2) by auto
    have "leadersLoop view (i # ks) leaders = Inr m" using m(1) t by (simp add: peerState_def the_slice_def)
    moreover have "map_of m t' = some_list (the_slice (map_of leaders t') @ filter (observed view t') (i # ks))" for t'
      using m(3) o by (simp add: update_conv' the_slice_def)
    ultimately show ?thesis using m(2) by blast
  next
    case False
    then have "leadersLoop view (i # ks) leaders = leadersLoop view ks leaders"
      using Cons.prems(1) by (auto simp: observed_def peerState_def GetState_def)
    then show ?thesis using Cons.IH [OF rest Cons.prems(2,3)] False by auto
  qed
qed

lemma lastTermLoop_result:
  assumes "\<forall>(t, l)\<in>set m. length l \<le> 1"
  shows "\<exists>t. lastTermLoop m t0 = Inr t \<and> t0 \<le> t \<and> (t = t0 \<or> t \<in> fst ` set m) \<and> (\<forall>x\<in>fst ` set m. x \<le> t)"
  using assms
proof (induction m arbitrary: t0)
  case (Cons p m)
  obtain tm l where p: "p = (tm, l)" by (cases p)
  obtain t where "lastTermLoop m (max tm t0) = Inr t" "max tm t0 \<le> t" "t = max tm t0 \<or> t \<in> fst ` set m" "\<forall>x\<in>fst ` set m. x \<le> t"
    using Cons.IH [of "max tm t0"] Cons.prems by auto
  then show ?case using Cons.prems p by (intro exI [of _ t]) (auto simp: max_def split: if_splits)
qed simp

lemma filter_single:
  assumes "distinct xs" "\<And>i j. i \<in> set xs \<Longrightarrow> j \<in> set xs \<Longrightarrow> P i \<Longrightarrow> P j \<Longrightarrow> i = j"
  shows "length (filter P xs) \<le> 1"
proof -
  have "card (set (filter P xs)) \<le> 1" using assms(2) by (auto simp: card_le_Suc0_iff_eq)
  then show ?thesis using distinct_card [of "filter P xs"] assms(1) by simp
qed

text \<open>One round: there is at most one leader in a term, so the round finds nobody or the leader of the latest term.\<close>

lemma oneLeader_round:
  assumes iter: "\<And>m. mset (iter m) = mset m"
    and peers: "\<forall>i<n. cf_connected (view i) ! i \<longrightarrow> cf_rafts (view i) ! i \<noteq> None"
    and one: "\<And>i j t. i < n \<Longrightarrow> j < n \<Longrightarrow> observed view t i \<Longrightarrow> observed view t j \<Longrightarrow> i = j"
    and pos: "\<And>i t. i < n \<Longrightarrow> observed view t i \<Longrightarrow> 0 \<le> t"
  shows "\<exists>m lt. leadersLoop view [0..<n] [] = Inr m \<and> lastTermLoop (iter m) (-1) = Inr lt \<and>
    (m = [] \<longrightarrow> (\<forall>i<n. \<forall>t. \<not> observed view t i)) \<and>
    (m \<noteq> [] \<longrightarrow> (\<exists>l. map_of m lt = Some [l] \<and> l < n \<and> observed view lt l \<and>
       (\<forall>i<n. \<forall>t. observed view t i \<longrightarrow> t \<le> lt \<and> (t = lt \<longrightarrow> i = l))))"
proof -
  obtain m where m: "leadersLoop view [0..<n] [] = Inr m" "gm_wf m" "\<And>t. map_of m t = some_list (filter (observed view t) [0..<n])"
    using leadersLoop_result [of "[0..<n]" view "[]"] peers by (auto simp: the_slice_def)
  have keys: "(t, l) \<in> set m \<longleftrightarrow> l \<noteq> [] \<and> l = filter (observed view t) [0..<n]" for t l
    using m(2,3) map_of_eq_Some_iff [of m t l] by (auto simp: some_list_def split: if_splits)
  have single: "length (filter (observed view t) [0..<n]) \<le> 1" for t by (rule filter_single) (use one in auto)
  have obs: "t \<in> fst ` set m" if "i < n" "observed view t i" for i t
    using that keys [of t "filter (observed view t) [0..<n]"] by (force simp: filter_empty_conv)
  have si: "set (iter m) = set m" using mset_eq_setD [OF iter] .
  have "\<forall>(t, l)\<in>set (iter m). length l \<le> 1" unfolding si using keys single by auto
  from lastTermLoop_result [OF this, of "-1"] obtain lt where lt: "lastTermLoop (iter m) (-1) = Inr lt"
      "lt = -1 \<or> lt \<in> fst ` set m" "\<forall>x\<in>fst ` set m. x \<le> lt" unfolding si by auto
  have main: "\<exists>l. map_of m lt = Some [l] \<and> l < n \<and> observed view lt l \<and> (\<forall>i<n. \<forall>t. observed view t i \<longrightarrow> t \<le> lt \<and> (t = lt \<longrightarrow> i = l))"
    if ne: "m \<noteq> []"
  proof -
    have "lt \<in> fst ` set m"
    proof (cases "lt = -1")
      case True
      obtain t ls where "(t, ls) \<in> set m" using ne by (cases m) auto
      then obtain i where "i < n" "observed view t i" using keys [of t ls] by (auto simp: filter_empty_conv)
      then show ?thesis using pos obs lt(3) True by fastforce
    qed (use lt(2) in simp)
    then obtain ls where ls: "(lt, ls) \<in> set m" by auto
    then have "ls \<noteq> []" "length ls \<le> 1" using keys [of lt ls] single [of lt] by auto
    then obtain l where l: "ls = [l]" by (cases ls) auto
    then have "l \<in> set (filter (observed view lt) [0..<n])" using keys [of lt ls] ls by (metis list.set_intros(1))
    then show ?thesis using ls l m(2) obs lt(3) one by (intro exI [of _ l]) auto
  qed
  have none: "\<forall>i<n. \<forall>t. \<not> observed view t i" if "m = []" using obs that by force
  show ?thesis by (intro exI [of _ m] exI [of _ lt] conjI impI m(1) lt(1) main none)
qed

lemma oneLeaderLoop_result:
  assumes "\<And>k. k \<in> set ks \<Longrightarrow> \<exists>m lt. leadersLoop (views k) [0..<n] [] = Inr m \<and> lastTermLoop (iter m) (-1) = Inr lt \<and>
    (m = [] \<longrightarrow> (\<forall>i<n. \<forall>t. \<not> observed (views k) t i)) \<and> (m \<noteq> [] \<longrightarrow> (\<exists>l. map_of m lt = Some [l] \<and> Q k lt l))"
  shows "oneLeaderLoop iter views n ks = Inl NoLeader \<and> (\<forall>k\<in>set ks. \<forall>i<n. \<forall>t. \<not> observed (views k) t i) \<or>
    (\<exists>k\<in>set ks. \<exists>l t. oneLeaderLoop iter views n ks = Inr l \<and> Q k t l)"
  using assms
proof (induction ks)
  case (Cons k ks)
  obtain m lt where m: "leadersLoop (views k) [0..<n] [] = Inr m" "lastTermLoop (iter m) (-1) = Inr lt"
      "m = [] \<longrightarrow> (\<forall>i<n. \<forall>t. \<not> observed (views k) t i)" "m \<noteq> [] \<longrightarrow> (\<exists>l. map_of m lt = Some [l] \<and> Q k lt l)"
    using Cons.prems [of k] by auto
  show ?case
  proof (cases "m = []")
    case True
    then have "oneLeaderLoop iter views n (k # ks) = oneLeaderLoop iter views n ks" using m(1,2) by simp
    then show ?thesis using Cons.IH Cons.prems m(3) True by auto
  next
    case False
    then obtain l where "map_of m lt = Some [l]" "Q k lt l" using m(4) by blast
    then show ?thesis using m(1,2) False by auto
  qed
qed simp

lemma agreeLoop_True:
  assumes "agreeLoop cmd expectedServers index lk n ts = Inr True"
  shows "\<exists>t\<in>set ts. \<exists>nd. nCommitted index (lk t) n = Inr (nd, Some cmd) \<and> nd > 0 \<and> int nd \<ge> expectedServers"
  using assms by (induction ts) (auto split: sum.splits prod.splits if_splits)

lemma oneLoop_Inr:
  assumes "oneLoop cmd expectedServers retry n tries looks r rounds starts = Inr index"
  shows "\<exists>j t nd. j < length rounds \<and> t < rounds ! j \<and> nCommitted index (looks (r + j) t) n = Inr (nd, Some cmd) \<and> nd > 0 \<and> int nd \<ge> expectedServers"
  using assms
proof (induction rounds arbitrary: r starts)
  case (Cons turns rounds)
  consider (here) "agreeLoop cmd expectedServers index (looks r) n [0..<turns] = Inr True"
    | (later) starts1 where "oneLoop cmd expectedServers retry n tries looks (r + 1) rounds starts1 = Inr index"
    using Cons.prems by (auto split: sum.splits prod.splits if_splits)
  then show ?case
  proof cases
    case here
    from agreeLoop_True [OF this] obtain t nd where "t \<in> set [0..<turns]" "nCommitted index (looks r t) n = Inr (nd, Some cmd)" "nd > 0" "int nd \<ge> expectedServers"
      by blast
    then show ?thesis by (intro exI [of _ 0] exI [of _ t] exI [of _ nd]) simp
  next
    case later
    then obtain j t nd where "j < length rounds" "t < rounds ! j" "nCommitted index (looks (r + 1 + j) t) n = Inr (nd, Some cmd)"
        "nd > 0" "int nd \<ge> expectedServers" using Cons.IH by blast
    then show ?thesis by (intro exI [of _ "Suc j"] exI [of _ t] exI [of _ nd]) simp
  qed
qed simp

section \<open>Properties\<close>

text \<open>C23: \<^verbatim>\<open>checkOneLeader\<close> never fails with two leaders of one term, and never panics, on this implementation of Raft: when every server that is connected runs, and however the cluster moves on
  while the peers are read one after the other, each of its ten rounds finds nobody or the only leader of the latest term among those
  it has read, and then this is the result; it reports that there is no leader only when no round has seen one.\<close>

theorem checkOneLeader_sound:
  assumes "\<And>m. mset (iter m) = mset m"
    and "\<And>k. reach (cluster_init n) (cluster_step n) (at k 0)" "\<And>k i. (cluster_step n)\<^sup>*\<^sup>* (at k i) (at k (Suc i))"
    and "\<And>k i. i < n \<Longrightarrow> cf_connected (views k i) ! i \<Longrightarrow> cf_rafts (views k i) ! i = Some (nodes (at k i) i)"
  shows "checkOneLeader iter views n = Inl NoLeader \<and> (\<forall>k<10. \<forall>i<n. \<forall>t. \<not> observed (views k) t i) \<or>
    (\<exists>k<10. \<exists>l t. checkOneLeader iter views n = Inr l \<and> l < n \<and> observed (views k) t l \<and>
       (\<forall>i<n. \<forall>t'. observed (views k) t' i \<longrightarrow> t' \<le> t \<and> (t' = t \<longrightarrow> i = l)))"
proof -
  have obs: "currentTerm (nodes (at k i) i) = t \<and> state (nodes (at k i) i) = StateLeader" if "i < n" "observed (views k) t i" for k i t
    using that assms(4) [OF that(1)] by (auto simp: observed_def GetState_def)
  have later: "reach (cluster_init n) (cluster_step n) (at k i)" "i \<le> j \<Longrightarrow> (cluster_step n)\<^sup>*\<^sup>* (at k i) (at k j)" for k i j
    using cluster_run_grows [OF assms(2) views_mono [of "cluster_step n" "at k" 0 i, OF assms(3)]] views_mono [of "cluster_step n" "at k", OF assms(3)] by auto
  have one: "i = j" if ij: "i < n" "j < n" "observed (views k) t i" "observed (views k) t j" for k i j t
  proof (cases "i \<le> j")
    case True
    show ?thesis by (rule one_leader_over_time [OF later(1) later(2) [OF True] ij(1,2)]) (use obs ij in auto)
  next
    case False
    then have "j = i" by (intro one_leader_over_time [OF later(1) later(2) [of j i] ij(2,1)]) (use obs ij in auto)
    then show ?thesis ..
  qed
  have pos: "0 \<le> t" if "i < n" "observed (views k) t i" for k i t using cluster_terms [OF later(1) that(1)] obs [OF that] by metis
  have "\<exists>m lt. leadersLoop (views k) [0..<n] [] = Inr m \<and> lastTermLoop (iter m) (-1) = Inr lt \<and>
      (m = [] \<longrightarrow> (\<forall>i<n. \<forall>t. \<not> observed (views k) t i)) \<and> (m \<noteq> [] \<longrightarrow> (\<exists>l. map_of m lt = Some [l] \<and> l < n \<and> observed (views k) lt l \<and>
         (\<forall>i<n. \<forall>t. observed (views k) t i \<longrightarrow> t \<le> lt \<and> (t = lt \<longrightarrow> i = l))))" for k
    by (rule oneLeader_round [OF assms(1)]) (use assms(4) one pos in \<open>blast\<close>)+
  from oneLeaderLoop_result [where ks = "[0..<10]" and views = views and Q = "\<lambda>k lt l. l < n \<and> observed (views k) lt l \<and>
      (\<forall>i<n. \<forall>t. observed (views k) t i \<longrightarrow> t \<le> lt \<and> (t = lt \<longrightarrow> i = l))", OF this, folded checkOneLeader_def]
  show ?thesis
  proof
    assume "checkOneLeader iter views n = Inl NoLeader \<and> (\<forall>k\<in>set [0..<10]. \<forall>i<n. \<forall>t. \<not> observed (views k) t i)"
    then show ?thesis by (intro disjI1) simp
  next
    assume "\<exists>k\<in>set [0..<10]. \<exists>l t. checkOneLeader iter views n = Inr l \<and> l < n \<and> observed (views k) t l \<and>
      (\<forall>i<n. \<forall>t'. observed (views k) t' i \<longrightarrow> t' \<le> t \<and> (t' = t \<longrightarrow> i = l))"
    then obtain k l t where "k \<in> set [0..<10]" and r: "checkOneLeader iter views n = Inr l \<and> l < n \<and> observed (views k) t l \<and>
      (\<forall>i<n. \<forall>t'. observed (views k) t' i \<longrightarrow> t' \<le> t \<and> (t' = t \<longrightarrow> i = l))" by (elim bexE exE)
    then have "k < 10" by simp
    then have "k < 10 \<and> (\<exists>l t. checkOneLeader iter views n = Inr l \<and> l < n \<and> observed (views k) t l \<and>
      (\<forall>i<n. \<forall>t'. observed (views k) t' i \<longrightarrow> t' \<le> t \<and> (t' = t \<longrightarrow> i = l)))" by (rule conjI) (rule exI [of _ l], rule exI [of _ t], rule r)
    then show ?thesis by (intro disjI2) (rule exI [of _ k])
  qed
qed

text \<open>C25: the harness controls exactly the links it means to.  However servers are started, crashed, restarted, connected and disconnected, a call of a
  running peer \<open>i\<close> to \<open>j\<close> is let through exactly when both are marked connected, and reaches the instance of \<open>j\<close> that runs, if one does; and
  every end that is switched on is a current end between two servers that are marked connected, so those that earlier instances of
  restarted servers had are off.\<close>

theorem harness_links:
  assumes "reach harness_init harness_step cfg" "i < cf_n cfg" "j < cf_n cfg" "cf_rafts cfg ! i \<noteq> None"
  shows "readEndnameInfo (end_at (cf_endnames cfg) i j) (cf_net cfg) =
      (cf_connected cfg ! i \<and> cf_connected cfg ! j, Some j, server_at (cf_net cfg) j, nw_reliable (cf_net cfg), nw_longReordering (cf_net cfg)) \<and>
    (server_at (cf_net cfg) j = None \<longleftrightarrow> cf_rafts cfg ! j = None) \<and>
    (\<forall>e. is_enabled (cf_net cfg) e \<longrightarrow> (\<exists>a<cf_n cfg. \<exists>b<cf_n cfg. e = end_at (cf_endnames cfg) a b \<and> cf_connected cfg ! a \<and> cf_connected cfg ! b))"
proof -
  have inv: "links_inv cfg" using harness.reach_inv [OF assms(1)] by (simp add: harness_inv_def)
  then have e: "ends_inv (\<lambda>j. j) (cf_n cfg) (cf_endnames cfg) {} (both (cf_connected cfg)) (cf_net cfg)" by (simp add: links_inv_def)
  have "(i, j) \<in> live (cf_n cfg) (cf_endnames cfg)" using inv assms(2-4) by (auto simp: links_inv_def live_def)
  then have "nw_connections (cf_net cfg) (end_at (cf_endnames cfg) i j) = Some (Some j) \<and>
      (is_enabled (cf_net cfg) (end_at (cf_endnames cfg) i j) \<longleftrightarrow> both (cf_connected cfg) i j)"
    using e unfolding ends_inv_def by blast
  moreover have "\<exists>a<cf_n cfg. \<exists>b<cf_n cfg. x = end_at (cf_endnames cfg) a b \<and> cf_connected cfg ! a \<and> cf_connected cfg ! b"
    if x: "is_enabled (cf_net cfg) x" for x
  proof -
    have "x \<in> (\<lambda>(i, j). end_at (cf_endnames cfg) i j) ` live (cf_n cfg) (cf_endnames cfg)" using e x unfolding ends_inv_def by blast
    then obtain a b where ab: "x = end_at (cf_endnames cfg) a b" "(a, b) \<in> live (cf_n cfg) (cf_endnames cfg)" by auto
    then have "both (cf_connected cfg) a b" using e x unfolding ends_inv_def by blast
    then show ?thesis using ab by (auto simp: live_def both_def)
  qed
  ultimately show ?thesis using inv assms(3) by (simp add: readEndnameInfo_def both_def links_inv_def)
qed

text \<open>C24: the check of applied commands is sound, over crashes and restarts, in tests without snapshots.  As long as every reader is \<^verbatim>\<open>applier\<close>, commands have indices of
  at least 1 and no reader has found an error (from the moment it finds one, before \<^verbatim>\<open>log.Fatalf\<close> ends the test), all servers agree on every
  index that two of them have applied, and no server has skipped an index; and \<^verbatim>\<open>nCommitted\<close>, which reads the servers one after
  the other while such a test runs on, never reports a difference and counts the servers that have applied the index.\<close>

theorem apply_check_sound:
  assumes "reach harness_init harness_step (view 0)" "\<And>k. harness_step\<^sup>*\<^sup>* (view k) (view (Suc k))" "\<And>k. undisturbed (view k)"
    "n = cf_n (view 0)"
  shows "(\<forall>i<n. \<forall>j<n. \<forall>k v w. (cf_logs (view 0) ! i) k = Some v \<longrightarrow> (cf_logs (view 0) ! j) k = Some w \<longrightarrow> v = w) \<and>
    (\<forall>i<n. \<exists>m. dom (cf_logs (view 0) ! i) = {1..m} \<and> m \<le> cf_maxIndex (view 0)) \<and>
    (\<exists>cmd. nCommitted index view n = Inr (card {i. i < n \<and> has_at index view i \<noteq> None}, cmd) \<and>
       (\<forall>i<n. \<forall>w. has_at index view i = Some w \<longrightarrow> w = cmd))"
proof -
  have inv: "harness_inv (view 0)" using harness.reach_inv [OF assms(1)] .
  have gap: "\<exists>m. dom (cf_logs (view 0) ! i) = {1..m} \<and> m \<le> cf_maxIndex (view 0)" if "i < n" for i
  proof -
    have "cf_logs (view 0) ! i \<in> set (cf_logs (view 0))" using inv that assms(4) by (simp add: harness_inv_def links_inv_def sizes_ok_def)
    then show ?thesis using inv assms(3) [of 0] unfolding harness_inv_def logs_inv_def no_gap_def by blast
  qed
  have run: "reach harness_init harness_step (view k) \<and> cf_n (view k) = n" if "0 < n" for k
    using run_logs [OF assms(1) views_mono [of harness_step view 0 k, OF assms(2)] assms(3), of 0] that assms(4) by auto
  have same: "v = w" if ij: "i < n" "j < n" "has_at index view i = Some v" "has_at index view j = Some w" "i \<le> j" for i j v w
  proof -
    have r: "reach harness_init harness_step (view i)" "reach harness_init harness_step (view j)" "cf_n (view i) = n" "cf_n (view j) = n" using run ij(1) by auto
    have "cf_logs (view i) ! i \<subseteq>\<^sub>m cf_logs (view j) ! i"
      using run_logs [OF r(1) views_mono [of harness_step view i j, OF assms(2) ij(5)] assms(3), of i] r(3) ij(1) by simp
    then have "(cf_logs (view j) ! i) index = Some v" using ij(3) by (auto simp: has_at_def map_le_def dom_def)
    then show ?thesis using reach_inv_agree [OF r(2) assms(3), of i j] r(4) ij by (simp add: has_at_def)
  qed
  obtain c where c: "\<forall>i<n. \<forall>w. has_at index view i = Some w \<longrightarrow> w = c"
  proof (cases "\<exists>i<n. has_at index view i \<noteq> None")
    case True
    then obtain i v where i: "i < n" "has_at index view i = Some v" by auto
    have "w = v" if "j < n" "has_at index view j = Some w" for j w
      using same [OF i(1) that(1) i(2) that(2)] same [OF that(1) i(1) that(2) i(2)] by (cases "i \<le> j") auto
    then show ?thesis using that by blast
  qed (use that in blast)
  have "cf_applyErr (view i) ! i = ''''" if "i < n" for i
    using harness.reach_inv [of "view i"] run [of i] that by (auto simp: harness_inv_def links_inv_def sizes_ok_def)
  then obtain r where "nCommitted index view n = Inr r"
    unfolding nCommitted_def using committedLoop_total [of "[0..<n]" view index c 0 None] c by auto
  then obtain nd cmd where "nCommitted index view n = Inr (nd, cmd)" by (cases r) auto
  then show ?thesis using nCommitted_result [of index view n nd cmd] reach_inv_agree [OF assms(1) assms(3)] assms(4) gap by auto
qed

text \<open>When \<^verbatim>\<open>one\<close> returns an index, at least the expected number of servers had applied the command at this index when
  they were read, and every other server that had applied the index had the same command.\<close>

theorem one_agreement:
  assumes "cfg_one cmd expectedServers retry n tries looks rounds = Inr index"
  shows "\<exists>r t. r < length rounds \<and> t < rounds ! r \<and>
    (let S = {i. i < n \<and> has_at index (looks r t) i = Some (Some cmd)} in
       S \<noteq> {} \<and> expectedServers \<le> int (card S) \<and> S = {i. i < n \<and> has_at index (looks r t) i \<noteq> None})"
proof -
  obtain j t nd where j: "j < length rounds" "t < rounds ! j" "nCommitted index (looks j t) n = Inr (nd, Some cmd)" "nd > 0" "int nd \<ge> expectedServers"
    using oneLoop_Inr [OF assms [unfolded cfg_one_def]] by auto
  note c = nCommitted_result [OF j(3)]
  have S: "{i. i < n \<and> has_at index (looks j t) i = Some (Some cmd)} = {i. i < n \<and> has_at index (looks j t) i \<noteq> None}" using c by auto
  have card: "card {i. i < n \<and> has_at index (looks j t) i \<noteq> None} = nd" using c by simp
  have "{i. i < n \<and> has_at index (looks j t) i \<noteq> None} \<noteq> {}" using card j(4) by (metis card.empty less_numeral_extra(3))
  then show ?thesis unfolding Let_def
    by (intro exI [of _ j] exI [of _ t] conjI) (simp_all only: S card j not_False_eq_True)
qed

section \<open>Witnesses\<close>

definition demo_names :: "nat \<Rightarrow> nat \<Rightarrow> string" where
  "demo_names i j = [char_of (65 + i), char_of (65 + j)]"

definition demo_config :: "(nat, unit, unit) config" where
  "demo_config = the (make_config demo_names [] 3 False False)"

definition demo_crashed :: "(nat, unit, unit) config" where
  "demo_crashed = the (cfg_crash1 1 demo_config)"

lemma demo_config_reach: "reach harness_init harness_step demo_config"
proof -
  have "make_config demo_names [] 3 False False \<noteq> (None :: (nat, unit, unit) config option)" by code_simp
  then have "make_config demo_names [] 3 False False = Some demo_config" by (simp add: demo_config_def)
  then have "harness_init demo_config" unfolding harness_init_def by blast
  then show ?thesis by (rule reach_init)
qed

theorem harness_links_witness:
  "reach harness_init harness_step demo_crashed \<and> cf_connected demo_crashed = [True, False, True] \<and>
    readEndnameInfo (end_at (cf_endnames demo_crashed) 0 2) (cf_net demo_crashed) = (True, Some 2, Some 2, True, False) \<and>
    readEndnameInfo (end_at (cf_endnames demo_crashed) 0 1) (cf_net demo_crashed) = (False, Some 1, None, True, False)"
proof -
  have "cfg_crash1 1 demo_config \<noteq> None" by code_simp
  then have "cfg_crash1 1 demo_config = Some demo_crashed" by (simp add: demo_crashed_def)
  from harness_step.crash [OF this] have r: "reach harness_init harness_step demo_crashed"
    by (rule reach_step [of _ harness_step, OF demo_config_reach])
  have c: "cf_n demo_crashed = 3" "cf_connected demo_crashed = [True, False, True]" "cf_rafts demo_crashed ! 0 \<noteq> None"
    "cf_rafts demo_crashed ! 1 = None" "server_at (cf_net demo_crashed) 2 = Some 2" "nw_reliable (cf_net demo_crashed)"
    "\<not> nw_longReordering (cf_net demo_crashed)"
    by code_simp+
  show ?thesis using harness_links [OF r, of 0 1] harness_links [OF r, of 0 2] r c by simp
qed

definition demo_applyMsg :: "int \<Rightarrow> (nat, unit) ApplyMsg" where
  "demo_applyMsg index = commandMsg \<lparr>e_Index = index, e_Term = 1, e_Command = Some 7\<rparr>"

definition demo_applied1 :: "(nat, unit, unit) config" where
  "demo_applied1 = the (cfg_applier 0 (demo_applyMsg 1) demo_config)"

definition demo_applied2 :: "(nat, unit, unit) config" where
  "demo_applied2 = the (cfg_applier 2 (demo_applyMsg 1) demo_applied1)"

lemma demo_applied_reach: "reach harness_init harness_step demo_applied2"
proof -
  have m: "am_CommandIndex (demo_applyMsg 1) = 1" by code_simp
  have r: "(0, Applier) \<in> set (cf_appliers demo_config)" "(2, Applier) \<in> set (cf_appliers demo_applied1)" by code_simp+
  have "cfg_applier 0 (demo_applyMsg 1) demo_config \<noteq> None" "cfg_applier 2 (demo_applyMsg 1) demo_applied1 \<noteq> None" by code_simp+
  then have "cfg_applier 0 (demo_applyMsg 1) demo_config = Some demo_applied1" "cfg_applier 2 (demo_applyMsg 1) demo_applied1 = Some demo_applied2"
    by (simp_all add: demo_applied1_def demo_applied2_def)
  from harness_step.apply_msg [OF r(1) this(1)] harness_step.apply_msg [OF r(2) this(2)]
  have "harness_step demo_config demo_applied1" "harness_step demo_applied1 demo_applied2" using m by simp_all
  then show ?thesis
    by - (rule reach_step [of _ harness_step, OF reach_step [of _ harness_step, OF demo_config_reach]])
qed

theorem apply_check_sound_witness:
  "nCommitted 1 (\<lambda>k. demo_applied2) 3 = Inr (2, Some 7) \<and> (\<exists>m. dom (cf_logs demo_applied2 ! 0) = {1..m} \<and> m \<le> 1)"
proof -
  have c: "3 = cf_n demo_applied2" "cf_maxIndex demo_applied2 = 1" "nCommitted 1 (\<lambda>k. demo_applied2) 3 = Inr (2, Some 7)"
    "cf_found demo_applied2 = []" "cf_appliers demo_applied2 = [(0, Applier), (1, Applier), (2, Applier)]" by code_simp+
  then have u: "undisturbed demo_applied2" by (simp add: undisturbed_def)
  show ?thesis
    using apply_check_sound [of "\<lambda>k. demo_applied2" 3 1, OF demo_applied_reach _ u c(1)] c(2,3) by force
qed

definition demo_led :: "(nat, unit, unit) config" where
  "demo_led = demo_config\<lparr>cf_rafts := (cf_rafts demo_config)[0 := Some demo_leader]\<rparr>"

definition demo_agreed :: "(nat, unit, unit) config" where
  "demo_agreed = demo_led\<lparr>cf_logs := [[3 \<mapsto> Some 7], [3 \<mapsto> Some 7], Map.empty]\<rparr>"

theorem one_agreement_witness:
  "cfg_one 7 2 True 3 (\<lambda>r si. demo_led) (\<lambda>r t i. if t = 0 then demo_led else demo_agreed) [2] = Inr 3 \<and>
    2 \<le> int (card {i. i < 3 \<and> has_at 3 (\<lambda>i. demo_agreed) i = Some (Some 7)})"
proof -
  have c: "cfg_one 7 2 True 3 (\<lambda>r si. demo_led) (\<lambda>r t i. if t = 0 then demo_led else demo_agreed) [2] = Inr 3" by code_simp
  have "has_at 3 (\<lambda>i. demo_led) i \<noteq> Some (Some 7)" if "i < 3" for i
  proof -
    have "\<forall>i\<in>{0, 1, 2}. has_at 3 (\<lambda>i. demo_led) i = None" by code_simp
    moreover have "i \<in> {0, 1, 2}" using that by auto
    ultimately show ?thesis by auto
  qed
  with one_agreement [OF c] c show ?thesis by (auto simp: Let_def less_2_cases_iff)
qed

lemma disj_second: "A \<and> N \<or> B \<Longrightarrow> \<not> N \<Longrightarrow> B"
  by blast

theorem checkOneLeader_sound_witness:
  "\<exists>cfg :: (nat, unit, unit) config. \<exists>l<3. checkOneLeader (\<lambda>m. m) (\<lambda>k i. cfg) 3 = Inr l \<and> (\<exists>t\<ge>1. observed (\<lambda>i. cfg) t l)"
proof -
  obtain s :: "(nat, unit) cluster" where s: "reach (cluster_init 3) (cluster_step 3) s"
    "state (nodes s 0) = StateLeader" "currentTerm (nodes s 0) = 1"
    using demo_election by blast
  define cfg where "cfg = demo_config\<lparr>cf_rafts := map (\<lambda>i. Some (nodes s i)) [0..<3]\<rparr>"
  have "cf_connected cfg = [True, True, True]" unfolding cfg_def by code_simp
  then have o: "observed (\<lambda>i. cfg) 1 0" using s(2,3) by (simp add: observed_def cfg_def GetState_def)
  have peers: "cf_rafts cfg ! i = Some (nodes s i)" if "i < 3" "cf_connected cfg ! i" for i using that by (simp add: cfg_def)
  have seen: "\<not> (\<forall>k<10::nat. \<forall>i<3. \<forall>t. \<not> observed (\<lambda>i. cfg) t i)"
  proof
    assume "\<forall>k<10::nat. \<forall>i<3. \<forall>t. \<not> observed (\<lambda>i. cfg) t i"
    from this [rule_format, of 0 0 1] o show False by simp
  qed
  have "\<exists>k<10::nat. \<exists>l t. checkOneLeader (\<lambda>m. m) (\<lambda>k i. cfg) 3 = Inr l \<and> l < 3 \<and> observed (\<lambda>i. cfg) t l \<and>
      (\<forall>i<3. \<forall>t'. observed (\<lambda>i. cfg) t' i \<longrightarrow> t' \<le> t \<and> (t' = t \<longrightarrow> i = l))"
    by (rule disj_second [OF checkOneLeader_sound [of "\<lambda>m. m" 3 "\<lambda>k i. s" "\<lambda>k i. cfg"] seen]) (simp_all add: s(1) peers)
  then obtain l t where l: "checkOneLeader (\<lambda>m. m) (\<lambda>k i. cfg) 3 = Inr l" "l < 3" "observed (\<lambda>i. cfg) t l"
      "\<forall>i<3. \<forall>t'. observed (\<lambda>i. cfg) t' i \<longrightarrow> t' \<le> t \<and> (t' = t \<longrightarrow> i = l)" by blast
  from l(4) [rule_format, of 0 1] o have "1 \<le> t" by simp
  then show ?thesis using l(1-3) by blast
qed

end
