(* ===== verification/Svc_Harness.thy ===== *)
theory Svc_Harness
  imports Raft_Harness KV_Server Ctrl_Server
begin

text \<open>
  The test harnesses of the replicated services, \<^verbatim>\<open>src/src/kvraft/config.go\<close> and \<^verbatim>\<open>src/src/shardctrler/config.go\<close>.  The second repeats most of
  the first word for word, with another type of servers.  So the record \<open>svc_config\<close> and the operations on it are parametrised by the servers, and
  each harness is an instance.  \<open>rfOf\<close> gives the Raft peer of a server, and \<open>start\<close> makes a server.

  As in the harness of Raft, the persister of a server that runs is the one in its peer (\<open>svc_savedOf\<close>), random names and numbers are
  arguments, and \<open>None\<close> is a panic.  A clerk is a position in the list \<open>hc_made\<close> of all clerks that have been made, each with the ends it sends through.
\<close>

section \<open>The configuration\<close>

record ('srv, 'ck, 'c, 's, 'w) svc_config =
  hc_net :: "(string, nat) Network"
  hc_heap :: "'w Server list"
  hc_n :: nat
  hc_servers :: "'srv option list"
  hc_saved :: "('c gob, 's) Persister option list"
  hc_endnames :: endnames
  hc_clerks :: "nat \<rightharpoonup> string list"
  hc_made :: "(string ClientEnd list \<times> 'ck) list"
  hc_nextClientId :: int

definition svc_savedOf :: "('srv \<Rightarrow> ('c, 's) Raft) \<Rightarrow> ('srv, 'ck, 'c, 's, 'w, 'z) svc_config_scheme \<Rightarrow> nat \<Rightarrow> ('c gob, 's) Persister option" where
  "svc_savedOf rfOf cfg i = (case hc_servers cfg ! i of Some srv \<Rightarrow> Some (persister (rfOf srv)) | None \<Rightarrow> hc_saved cfg ! i)"

text \<open>\<^verbatim>\<open>random_handles\<close>; \<open>rnd i\<close> is the random number of turn \<open>i\<close>, which \<^verbatim>\<open>rand.Intn(i + 1)\<close> reduces.\<close>

fun shuffleLoop :: "(nat \<Rightarrow> nat) \<Rightarrow> nat list \<Rightarrow> 'a list \<Rightarrow> 'a list" where
  "shuffleLoop rnd [] sa = sa"
| "shuffleLoop rnd (i # is) sa = (let j = rnd i mod (i + 1) in shuffleLoop rnd is (sa[i := sa ! j, j := sa ! i]))"

definition random_handles :: "(nat \<Rightarrow> nat) \<Rightarrow> 'a list \<Rightarrow> 'a list" where
  "random_handles rnd kvh = shuffleLoop rnd [0..<length kvh] kvh"

section \<open>Links between the servers\<close>

definition connectUnlocked :: "nat \<Rightarrow> nat list \<Rightarrow> ('srv, 'ck, 'c, 's, 'w, 'z) svc_config_scheme \<Rightarrow> ('srv, 'ck, 'c, 's, 'w, 'z) svc_config_scheme option" where
  "connectUnlocked i to cfg = do {
     net1 \<leftarrow> enableEnds (hc_endnames cfg) True (map (\<lambda>j. (int i, int j)) to) (hc_net cfg);
     net2 \<leftarrow> enableEnds (hc_endnames cfg) True (map (\<lambda>j. (int j, int i)) to) net1;
     Some (cfg\<lparr>hc_net := net2\<rparr>)
   }"

text \<open>The incoming ends.  The code tests the names of server \<open>j\<close>, the position in the list, and not those of the server at this position.\<close>

fun disconnectIncoming :: "endnames \<Rightarrow> nat \<Rightarrow> nat list \<Rightarrow> nat \<Rightarrow> (string, nat) Network \<Rightarrow> (string, nat) Network option" where
  "disconnectIncoming ens i [] j net = Some net"
| "disconnectIncoming ens i (f # fs) j net = do {
     names \<leftarrow> go_index ens (int j);
     net1 \<leftarrow> (if names \<noteq> None then enableEnds ens False [(int f, int i)] net else Some net);
     disconnectIncoming ens i fs (j + 1) net1
   }"

definition disconnectUnlocked :: "nat \<Rightarrow> nat list \<Rightarrow> ('srv, 'ck, 'c, 's, 'w, 'z) svc_config_scheme \<Rightarrow> ('srv, 'ck, 'c, 's, 'w, 'z) svc_config_scheme option" where
  "disconnectUnlocked i from cfg = do {
     net1 \<leftarrow> (if from = [] then Some (hc_net cfg) else do {
       names \<leftarrow> go_index (hc_endnames cfg) (int i);
       if names \<noteq> None then enableEnds (hc_endnames cfg) False (map (\<lambda>j. (int i, int j)) from) (hc_net cfg) else Some (hc_net cfg)
     });
     net2 \<leftarrow> disconnectIncoming (hc_endnames cfg) i from 0 net1;
     Some (cfg\<lparr>hc_net := net2\<rparr>)
   }"

definition All :: "('srv, 'ck, 'c, 's, 'w, 'z) svc_config_scheme \<Rightarrow> nat list" where
  "All cfg = [0..<hc_n cfg]"

fun connectAllLoop :: "nat list \<Rightarrow> ('srv, 'ck, 'c, 's, 'w, 'z) svc_config_scheme \<Rightarrow> ('srv, 'ck, 'c, 's, 'w, 'z) svc_config_scheme option" where
  "connectAllLoop [] cfg = Some cfg"
| "connectAllLoop (i # is) cfg = do { cfg1 \<leftarrow> connectUnlocked i (All cfg) cfg; connectAllLoop is cfg1 }"

definition ConnectAll :: "('srv, 'ck, 'c, 's, 'w, 'z) svc_config_scheme \<Rightarrow> ('srv, 'ck, 'c, 's, 'w, 'z) svc_config_scheme option" where
  "ConnectAll cfg = connectAllLoop [0..<hc_n cfg] cfg"

text \<open>The loop for one side: each of its servers is cut off from the other side and connected to its own.\<close>

fun sideLoop :: "nat list \<Rightarrow> nat list \<Rightarrow> nat list \<Rightarrow> ('srv, 'ck, 'c, 's, 'w, 'z) svc_config_scheme \<Rightarrow> ('srv, 'ck, 'c, 's, 'w, 'z) svc_config_scheme option" where
  "sideLoop mine other [] cfg = Some cfg"
| "sideLoop mine other (i # is) cfg = do {
     cfg1 \<leftarrow> disconnectUnlocked i other cfg;
     cfg2 \<leftarrow> connectUnlocked i mine cfg1;
     sideLoop mine other is cfg2
   }"

definition svc_partition :: "nat list \<Rightarrow> nat list \<Rightarrow> ('srv, 'ck, 'c, 's, 'w, 'z) svc_config_scheme \<Rightarrow> ('srv, 'ck, 'c, 's, 'w, 'z) svc_config_scheme option" where
  "svc_partition p1 p2 cfg = do { cfg1 \<leftarrow> sideLoop p1 p2 p1 cfg; sideLoop p2 p1 p2 cfg1 }"

section \<open>Clients\<close>

fun enableNames :: "string list \<Rightarrow> bool \<Rightarrow> nat list \<Rightarrow> (string, nat) Network \<Rightarrow> (string, nat) Network option" where
  "enableNames names b [] net = Some net"
| "enableNames names b (j # js) net = do { s \<leftarrow> go_index names (int j); enableNames names b js (Enable s b net) }"

definition ConnectClientUnlocked :: "nat \<Rightarrow> nat list \<Rightarrow> ('srv, 'ck, 'c, 's, 'w, 'z) svc_config_scheme \<Rightarrow> ('srv, 'ck, 'c, 's, 'w, 'z) svc_config_scheme option" where
  "ConnectClientUnlocked ck to cfg = do {
     net \<leftarrow> enableNames (the_slice (hc_clerks cfg ck)) True to (hc_net cfg);
     Some (cfg\<lparr>hc_net := net\<rparr>)
   }"

definition DisconnectClientUnlocked :: "nat \<Rightarrow> nat list \<Rightarrow> ('srv, 'ck, 'c, 's, 'w, 'z) svc_config_scheme \<Rightarrow> ('srv, 'ck, 'c, 's, 'w, 'z) svc_config_scheme option" where
  "DisconnectClientUnlocked ck from cfg = do {
     net \<leftarrow> enableNames (the_slice (hc_clerks cfg ck)) False from (hc_net cfg);
     Some (cfg\<lparr>hc_net := net\<rparr>)
   }"

definition makeClient :: "(nat \<Rightarrow> 'ck) \<Rightarrow> (nat \<Rightarrow> string) \<Rightarrow> (nat \<Rightarrow> nat) \<Rightarrow> nat list \<Rightarrow> ('srv, 'ck, 'c, 's, 'w, 'z) svc_config_scheme \<Rightarrow>
    (('srv, 'ck, 'c, 's, 'w, 'z) svc_config_scheme \<times> nat) option" where
  "makeClient mkClerk names rnd to cfg = do {
     let endnames = map names [0..<hc_n cfg];
     (net1, ends) \<leftarrow> makeEnds (\<lambda>j. j) 0 endnames (hc_net cfg);
     let handles = random_handles rnd ends;
     let ck = length (hc_made cfg);
     cfg1 \<leftarrow> ConnectClientUnlocked ck to (cfg\<lparr>hc_net := net1, hc_made := hc_made cfg @ [(handles, mkClerk (length handles))],
       hc_clerks := (hc_clerks cfg)(ck \<mapsto> endnames), hc_nextClientId := hc_nextClientId cfg + 1\<rparr>);
     Some (cfg1, ck)
   }"

text \<open>\<^verbatim>\<open>deleteClient\<close> also removes files with the names of the ends, which do not exist.\<close>

definition deleteClient :: "nat \<Rightarrow> ('srv, 'ck, 'c, 's, 'w, 'z) svc_config_scheme \<Rightarrow> ('srv, 'ck, 'c, 's, 'w, 'z) svc_config_scheme" where
  "deleteClient ck cfg = cfg\<lparr>hc_clerks := (hc_clerks cfg)(ck := None)\<rparr>"

section \<open>Starting and stopping servers\<close>

definition ShutdownServer :: "('srv \<Rightarrow> ('c, 's) Raft) \<Rightarrow> nat \<Rightarrow> ('srv, 'ck, 'c, 's, 'w, 'z) svc_config_scheme \<Rightarrow> ('srv, 'ck, 'c, 's, 'w, 'z) svc_config_scheme option" where
  "ShutdownServer rfOf i cfg = do {
     cfg1 \<leftarrow> disconnectUnlocked i (All cfg) cfg;
     let net = DeleteServer i (hc_net cfg1);
     saved \<leftarrow> go_store (hc_saved cfg1) (int i) (map_option Persister_Copy (svc_savedOf rfOf cfg1 i));
     servers \<leftarrow> go_store (hc_servers cfg1) (int i) None;
     Some (cfg1\<lparr>hc_net := net, hc_saved := saved, hc_servers := servers\<rparr>)
   }"

text \<open>\<open>start\<close> gets the number of ends, the position and the persister.\<close>

definition svc_StartServer :: "(nat \<Rightarrow> nat \<Rightarrow> ('c gob, 's) Persister \<Rightarrow> 'srv option) \<Rightarrow> ('srv \<Rightarrow> ('c, 's) Raft) \<Rightarrow> 'w Service \<Rightarrow> 'w Service \<Rightarrow>
    (nat \<Rightarrow> string) \<Rightarrow> nat \<Rightarrow> ('srv, 'ck, 'c, 's, 'w, 'z) svc_config_scheme \<Rightarrow> ('srv, 'ck, 'c, 's, 'w, 'z) svc_config_scheme option" where
  "svc_StartServer start rfOf kvsvc rfsvc names i cfg = do {
     ens \<leftarrow> go_store (hc_endnames cfg) (int i) (Some (map names [0..<hc_n cfg]));
     (net1, ends) \<leftarrow> makeEnds (\<lambda>j. j) 0 (map names [0..<hc_n cfg]) (hc_net cfg);
     let ps = (case svc_savedOf rfOf cfg i of Some ps \<Rightarrow> Persister_Copy ps | None \<Rightarrow> MakePersister);
     saved \<leftarrow> go_store (hc_saved cfg) (int i) (Some ps);
     srv \<leftarrow> start (length ends) i ps;
     servers \<leftarrow> go_store (hc_servers cfg) (int i) (Some srv);
     let rs = AddService rfsvc (AddService kvsvc MakeServer);
     let net2 = AddServer i (length (hc_heap cfg)) net1;
     Some (cfg\<lparr>hc_endnames := ens, hc_net := net2, hc_saved := saved, hc_servers := servers, hc_heap := hc_heap cfg @ [rs]\<rparr>)
   }"

definition svc_cleanup :: "('srv \<Rightarrow> 'srv) \<Rightarrow> bool \<Rightarrow> int \<Rightarrow> ('srv, 'ck, 'c, 's, 'w, 'z) svc_config_scheme \<Rightarrow>
    (('srv, 'ck, 'c, 's, 'w, 'z) svc_config_scheme \<times> (failure + unit)) option" where
  "svc_cleanup kill failed seconds cfg = do {
     let servers = map (map_option kill) (hc_servers cfg);
     net \<leftarrow> Cleanup (hc_net cfg);
     Some (cfg\<lparr>hc_servers := servers, hc_net := net\<rparr>, checkTimeout failed seconds)
   }"

text \<open>The largest size over all persisters; a persister that is nil panics.\<close>

fun maxSizeLoop :: "(('c gob, 's) Persister \<Rightarrow> int) \<Rightarrow> ('srv \<Rightarrow> ('c, 's) Raft) \<Rightarrow> ('srv, 'ck, 'c, 's, 'w, 'z) svc_config_scheme \<Rightarrow> nat list \<Rightarrow> int \<Rightarrow> int option" where
  "maxSizeLoop sz rfOf cfg [] m = Some m"
| "maxSizeLoop sz rfOf cfg (i # is) m = do {
     ps \<leftarrow> svc_savedOf rfOf cfg i;
     let n = sz ps;
     maxSizeLoop sz rfOf cfg is (if n > m then n else m)
   }"

section \<open>Splitting the servers\<close>

text \<open>The loop of \<^verbatim>\<open>make_partition\<close> over the servers; \<open>l\<close> is the leader.\<close>

fun splitLoop :: "nat \<Rightarrow> nat list \<Rightarrow> nat \<Rightarrow> nat list \<Rightarrow> nat list \<Rightarrow> (nat list \<times> nat list) option" where
  "splitLoop l [] j p1 p2 = Some (p1, p2)"
| "splitLoop l (i # is) j p1 p2 =
     (if i \<noteq> l then
        (if j < length p1 then do { p1' \<leftarrow> go_store p1 (int j) i; splitLoop l is (j + 1) p1' p2 }
         else do { p2' \<leftarrow> go_store p2 (int j - int (length p1)) i; splitLoop l is (j + 1) p1 p2' })
      else splitLoop l is j p1 p2)"

definition splitServers :: "nat \<Rightarrow> nat \<Rightarrow> (nat list \<times> nat list) option" where
  "splitServers n l = do {
     (p1, p2) \<leftarrow> splitLoop l [0..<n] 0 (replicate (n div 2 + 1) 0) (replicate (n div 2) 0);
     p2' \<leftarrow> go_store p2 (int (length p2) - 1) l;
     Some (p1, p2')
   }"

section \<open>The harness of the key/value service\<close>

record ('srv, 'ck, 'c, 's, 'w) kvh_config = "('srv, 'ck, 'c, 's, 'w) svc_config" +
  kh_maxraftstate :: int
  kh_rpcs0 :: int
  kh_ops :: "32 word"

type_synonym 'w kv_config = "(KVServer, Clerk, CommandRequest, kv_gob, 'w) kvh_config"

definition kv_StartServer :: "'w Method list \<Rightarrow> 'w Method list \<Rightarrow> (nat \<Rightarrow> string) \<Rightarrow> nat \<Rightarrow> 'w kv_config \<Rightarrow> 'w kv_config option" where
  "kv_StartServer kvm rfm names i cfg =
     svc_StartServer (\<lambda>n i ps. StartKVServer n i ps (kh_maxraftstate cfg)) kv_rf (MakeService ''KVServer'' kvm) (MakeService ''Raft'' rfm) names i cfg"

definition kv_ShutdownServer :: "nat \<Rightarrow> 'w kv_config \<Rightarrow> 'w kv_config option" where
  "kv_ShutdownServer i cfg = ShutdownServer kv_rf i cfg"

definition kv_cleanup :: "bool \<Rightarrow> int \<Rightarrow> 'w kv_config \<Rightarrow> ('w kv_config \<times> (failure + unit)) option" where
  "kv_cleanup failed seconds cfg = svc_cleanup KVServer_Kill failed seconds cfg"

definition kv_makeClient :: "int \<Rightarrow> (nat \<Rightarrow> string) \<Rightarrow> (nat \<Rightarrow> nat) \<Rightarrow> nat list \<Rightarrow> 'w kv_config \<Rightarrow> ('w kv_config \<times> nat) option" where
  "kv_makeClient nrand names rnd to cfg = makeClient (\<lambda>n. MakeClerk n nrand) names rnd to cfg"

definition kv_LogSize :: "(CommandRequest gob list \<Rightarrow> int) \<Rightarrow> 'w kv_config \<Rightarrow> int option" where
  "kv_LogSize size_of cfg = maxSizeLoop (RaftStateSize size_of) kv_rf cfg [0..<hc_n cfg] 0"

definition kv_SnapshotSize :: "(kv_gob list \<Rightarrow> int) \<Rightarrow> 'w kv_config \<Rightarrow> int option" where
  "kv_SnapshotSize size_of cfg = maxSizeLoop (SnapshotSize size_of) kv_rf cfg [0..<hc_n cfg] 0"

text \<open>The servers run on while \<^verbatim>\<open>Leader\<close> reads them; \<open>view i\<close> is the configuration when server \<open>i\<close> is read.\<close>

fun kv_leaderLoop :: "(nat \<Rightarrow> 'w kv_config) \<Rightarrow> nat list \<Rightarrow> (bool \<times> nat) option" where
  "kv_leaderLoop view [] = Some (False, 0)"
| "kv_leaderLoop view (i # is) = do {
     srv \<leftarrow> hc_servers (view i) ! i;
     if snd (GetState (kv_rf srv)) then Some (True, i) else kv_leaderLoop view is
   }"

definition kv_Leader :: "(nat \<Rightarrow> 'w kv_config) \<Rightarrow> nat \<Rightarrow> (bool \<times> nat) option" where
  "kv_Leader view n = kv_leaderLoop view [0..<n]"

definition kv_make_partition :: "(nat \<Rightarrow> 'w kv_config) \<Rightarrow> nat \<Rightarrow> (nat list \<times> nat list) option" where
  "kv_make_partition view n = do { (_, l) \<leftarrow> kv_Leader view n; splitServers n l }"

definition kv_new_config :: "nat \<Rightarrow> int \<Rightarrow> 'w kv_config" where
  "kv_new_config n maxraftstate = \<lparr>hc_net = MakeNetwork, hc_heap = [], hc_n = n, hc_servers = replicate n None, hc_saved = replicate n None,
     hc_endnames = replicate n None, hc_clerks = Map.empty, hc_made = [], hc_nextClientId = int n + 1000,
     kh_maxraftstate = maxraftstate, kh_rpcs0 = 0, kh_ops = 0\<rparr>"

fun kv_startLoop :: "'w Method list \<Rightarrow> 'w Method list \<Rightarrow> (nat \<Rightarrow> nat \<Rightarrow> string) \<Rightarrow> nat list \<Rightarrow> 'w kv_config \<Rightarrow> 'w kv_config option" where
  "kv_startLoop kvm rfm names [] cfg = Some cfg"
| "kv_startLoop kvm rfm names (i # is) cfg = do { cfg1 \<leftarrow> kv_StartServer kvm rfm (names i) i cfg; kv_startLoop kvm rfm names is cfg1 }"

definition kv_make_config :: "'w Method list \<Rightarrow> 'w Method list \<Rightarrow> (nat \<Rightarrow> nat \<Rightarrow> string) \<Rightarrow> nat \<Rightarrow> bool \<Rightarrow> int \<Rightarrow> 'w kv_config option" where
  "kv_make_config kvm rfm names n unreliable maxraftstate = do {
     cfg1 \<leftarrow> kv_startLoop kvm rfm names [0..<n] (kv_new_config n maxraftstate);
     cfg2 \<leftarrow> ConnectAll cfg1;
     Some (cfg2\<lparr>hc_net := Reliable (\<not> unreliable) (hc_net cfg2)\<rparr>)
   }"

definition kv_rpcTotal :: "'w kv_config \<Rightarrow> int" where
  "kv_rpcTotal cfg = GetTotalCount (hc_net cfg)"

definition kv_begin :: "'w kv_config \<Rightarrow> 'w kv_config" where
  "kv_begin cfg = cfg\<lparr>kh_rpcs0 := kv_rpcTotal cfg, kh_ops := 0\<rparr>"

definition kvh_op :: "'w kv_config \<Rightarrow> 'w kv_config" where
  "kvh_op cfg = cfg\<lparr>kh_ops := kh_ops cfg + 1\<rparr>"

text \<open>What \<^verbatim>\<open>end\<close> prints: servers, calls and operations; nothing when the test has failed.\<close>

definition kv_end :: "bool \<Rightarrow> int \<Rightarrow> 'w kv_config \<Rightarrow> failure + (nat \<times> int \<times> int) option" where
  "kv_end failed seconds cfg =
     (case checkTimeout failed seconds of
        Inl e \<Rightarrow> Inl e
      | Inr _ \<Rightarrow> Inr (if \<not> failed then Some (hc_n cfg, kv_rpcTotal cfg - kh_rpcs0 cfg, sint (kh_ops cfg)) else None))"

section \<open>The harness of the shard controller\<close>

type_synonym ('s, 'w) ctrl_config = "('s ShardCtrler, CtrlClerk, CtrlRequest, 's, 'w) svc_config"

definition ctrlh_StartServer :: "'w Method list \<Rightarrow> 'w Method list \<Rightarrow> (nat \<Rightarrow> string) \<Rightarrow> nat \<Rightarrow> ('s, 'w) ctrl_config \<Rightarrow> ('s, 'w) ctrl_config option" where
  "ctrlh_StartServer kvm rfm names i cfg =
     svc_StartServer ctrl_StartServer sc_rf (MakeService ''ShardCtrler'' kvm) (MakeService ''Raft'' rfm) names i cfg"

definition ctrlh_ShutdownServer :: "nat \<Rightarrow> ('s, 'w) ctrl_config \<Rightarrow> ('s, 'w) ctrl_config option" where
  "ctrlh_ShutdownServer i cfg = ShutdownServer sc_rf i cfg"

definition ctrlh_cleanup :: "bool \<Rightarrow> int \<Rightarrow> ('s, 'w) ctrl_config \<Rightarrow> (('s, 'w) ctrl_config \<times> (failure + unit)) option" where
  "ctrlh_cleanup failed seconds cfg = svc_cleanup ShardCtrler_Kill failed seconds cfg"

definition ctrlh_LogSize :: "(CtrlRequest gob list \<Rightarrow> int) \<Rightarrow> ('s, 'w) ctrl_config \<Rightarrow> int option" where
  "ctrlh_LogSize size_of cfg = maxSizeLoop (RaftStateSize size_of) sc_rf cfg [0..<hc_n cfg] 0"

definition ctrlh_connect :: "nat \<Rightarrow> nat list \<Rightarrow> ('s, 'w) ctrl_config \<Rightarrow> ('s, 'w) ctrl_config option" where
  "ctrlh_connect = connectUnlocked"

definition ctrlh_disconnect :: "nat \<Rightarrow> nat list \<Rightarrow> ('s, 'w) ctrl_config \<Rightarrow> ('s, 'w) ctrl_config option" where
  "ctrlh_disconnect = disconnectUnlocked"

definition ctrlh_ConnectAll :: "('s, 'w) ctrl_config \<Rightarrow> ('s, 'w) ctrl_config option" where
  "ctrlh_ConnectAll = ConnectAll"

definition ctrlh_partition :: "nat list \<Rightarrow> nat list \<Rightarrow> ('s, 'w) ctrl_config \<Rightarrow> ('s, 'w) ctrl_config option" where
  "ctrlh_partition = svc_partition"

definition ctrlh_makeClient :: "int \<Rightarrow> (nat \<Rightarrow> string) \<Rightarrow> (nat \<Rightarrow> nat) \<Rightarrow> nat list \<Rightarrow> ('s, 'w) ctrl_config \<Rightarrow> (('s, 'w) ctrl_config \<times> nat) option" where
  "ctrlh_makeClient nrand names rnd to cfg = makeClient (\<lambda>n. ctrl_MakeClerk n nrand) names rnd to cfg"

definition ctrlh_deleteClient :: "nat \<Rightarrow> ('s, 'w) ctrl_config \<Rightarrow> ('s, 'w) ctrl_config" where
  "ctrlh_deleteClient = deleteClient"

definition ctrlh_ConnectClient :: "nat \<Rightarrow> nat list \<Rightarrow> ('s, 'w) ctrl_config \<Rightarrow> ('s, 'w) ctrl_config option" where
  "ctrlh_ConnectClient = ConnectClientUnlocked"

definition ctrlh_DisconnectClient :: "nat \<Rightarrow> nat list \<Rightarrow> ('s, 'w) ctrl_config \<Rightarrow> ('s, 'w) ctrl_config option" where
  "ctrlh_DisconnectClient = DisconnectClientUnlocked"

text \<open>Unlike the harness of the key/value service, this one passes over servers that do not run.\<close>

fun ctrlh_leaderLoop :: "(nat \<Rightarrow> ('s, 'w) ctrl_config) \<Rightarrow> nat list \<Rightarrow> bool \<times> nat" where
  "ctrlh_leaderLoop view [] = (False, 0)"
| "ctrlh_leaderLoop view (i # is) =
     (case hc_servers (view i) ! i of
        Some srv \<Rightarrow> if snd (GetState (sc_rf srv)) then (True, i) else ctrlh_leaderLoop view is
      | None \<Rightarrow> ctrlh_leaderLoop view is)"

definition ctrlh_Leader :: "(nat \<Rightarrow> ('s, 'w) ctrl_config) \<Rightarrow> nat \<Rightarrow> bool \<times> nat" where
  "ctrlh_Leader view n = ctrlh_leaderLoop view [0..<n]"

definition ctrlh_make_partition :: "(nat \<Rightarrow> ('s, 'w) ctrl_config) \<Rightarrow> nat \<Rightarrow> (nat list \<times> nat list) option" where
  "ctrlh_make_partition view n = splitServers n (snd (ctrlh_Leader view n))"

definition ctrlh_new_config :: "nat \<Rightarrow> ('s, 'w) ctrl_config" where
  "ctrlh_new_config n = \<lparr>hc_net = MakeNetwork, hc_heap = [], hc_n = n, hc_servers = replicate n None, hc_saved = replicate n None,
     hc_endnames = replicate n None, hc_clerks = Map.empty, hc_made = [], hc_nextClientId = int n + 1000\<rparr>"

fun ctrlh_startLoop :: "'w Method list \<Rightarrow> 'w Method list \<Rightarrow> (nat \<Rightarrow> nat \<Rightarrow> string) \<Rightarrow> nat list \<Rightarrow> ('s, 'w) ctrl_config \<Rightarrow> ('s, 'w) ctrl_config option" where
  "ctrlh_startLoop kvm rfm names [] cfg = Some cfg"
| "ctrlh_startLoop kvm rfm names (i # is) cfg = do { cfg1 \<leftarrow> ctrlh_StartServer kvm rfm (names i) i cfg; ctrlh_startLoop kvm rfm names is cfg1 }"

definition ctrlh_make_config :: "'w Method list \<Rightarrow> 'w Method list \<Rightarrow> (nat \<Rightarrow> nat \<Rightarrow> string) \<Rightarrow> nat \<Rightarrow> bool \<Rightarrow> ('s, 'w) ctrl_config option" where
  "ctrlh_make_config kvm rfm names n unreliable = do {
     cfg1 \<leftarrow> ctrlh_startLoop kvm rfm names [0..<n] (ctrlh_new_config n);
     cfg2 \<leftarrow> ctrlh_ConnectAll cfg1;
     Some (cfg2\<lparr>hc_net := Reliable (\<not> unreliable) (hc_net cfg2)\<rparr>)
   }"

end
