(* ===== verification/Svc_Harness_Props.thy ===== *)
theory Svc_Harness_Props
  imports Svc_Harness
begin

text \<open>
  What the harnesses of the replicated services guarantee: which links are on, what a partition does, and what a restarted server
  starts from.
\<close>

section \<open>Links between the servers\<close>

definition link_on :: "('srv, 'ck, 'c, 's, 'w, 'z) svc_config_scheme \<Rightarrow> nat \<Rightarrow> nat \<Rightarrow> bool" where
  "link_on cfg i j \<longleftrightarrow> hc_endnames cfg ! i \<noteq> None \<and> is_enabled (hc_net cfg) (end_at (hc_endnames cfg) i j)"

definition made_ends :: "('srv, 'ck, 'c, 's, 'w, 'z) svc_config_scheme \<Rightarrow> string set" where
  "made_ends cfg = (\<Union>p\<in>set (hc_made cfg). ce_endname ` set (fst p))"

abbreviation svc_ends :: "('srv, 'ck, 'c, 's, 'w, 'z) svc_config_scheme \<Rightarrow> (nat \<Rightarrow> nat \<Rightarrow> bool) \<Rightarrow> bool" where
  "svc_ends cfg L \<equiv> ends_inv (\<lambda>j. j) (hc_n cfg) (hc_endnames cfg) (made_ends cfg) L (hc_net cfg)"

lemma made_ends_net [simp]: "made_ends (cfg\<lparr>hc_net := net\<rparr>) = made_ends cfg"
  by (simp add: made_ends_def)

lemma svc_ends_link_on: "svc_ends cfg L \<Longrightarrow> i < hc_n cfg \<Longrightarrow> j < hc_n cfg \<Longrightarrow> link_on cfg i j \<longleftrightarrow> hc_endnames cfg ! i \<noteq> None \<and> L i j"
  unfolding ends_inv_def live_def link_on_def by auto

lemma svc_ends_canonical:
  assumes "svc_ends cfg L"
  shows "svc_ends cfg (link_on cfg)"
proof (rule ends_inv_cong [OF _ assms])
  fix i j assume "(i, j) \<in> live (hc_n cfg) (hc_endnames cfg)"
  then show "L i j \<longleftrightarrow> link_on cfg i j" using svc_ends_link_on [OF assms] by (auto simp: live_def)
qed

lemma connectUnlocked_links:
  assumes inv: "svc_ends cfg L" and c: "connectUnlocked i to cfg = Some cfg'"
  obtains net where "cfg' = cfg\<lparr>hc_net := net\<rparr>" "nw_servers net = nw_servers (hc_net cfg)" "nw_connections net = nw_connections (hc_net cfg)"
    "svc_ends cfg' (\<lambda>a b. a = i \<and> b \<in> set to \<or> b = i \<and> a \<in> set to \<or> L a b)"
proof -
  obtain net1 net2 where n: "enableEnds (hc_endnames cfg) True (map int_pair (map (\<lambda>j. (i, j)) to)) (hc_net cfg) = Some net1"
      "enableEnds (hc_endnames cfg) True (map int_pair (map (\<lambda>j. (j, i)) to)) net1 = Some net2" "cfg' = cfg\<lparr>hc_net := net2\<rparr>"
    using c unfolding connectUnlocked_def pairs_map by (auto simp: bind_eq_Some_conv simp del: map_map)
  note e1 = ends_inv_enable(2) [OF inv n(1)]
  note e2 = ends_inv_enable(2) [OF e1 n(2)]
  have "svc_ends cfg' (\<lambda>a b. a = i \<and> b \<in> set to \<or> b = i \<and> a \<in> set to \<or> L a b)"
    unfolding n(3) by simp (rule ends_inv_cong [OF _ e2], auto)
  then show ?thesis using that [of net2] n by simp
qed

lemma disconnectIncoming_links:
  assumes "ends_inv (\<lambda>j. j) n ens X L net" "disconnectIncoming ens i from j net = Some net'"
  shows "nw_servers net' = nw_servers net \<and> nw_connections net' = nw_connections net \<and>
    ends_inv (\<lambda>j. j) n ens X (\<lambda>a b. L a b \<and> \<not> (b = i \<and> (\<exists>k<length from. a = from ! k \<and> ens ! (j + k) \<noteq> None))) net'"
  using assms
proof (induction ens i "from" j net arbitrary: L rule: disconnectIncoming.induct)
  case (1 ens i j net)
  then show ?case by simp
next
  case (2 ens i f fs j net)
  obtain names net1 where n: "go_index ens (int j) = Some names"
      "(if names \<noteq> None then enableEnds ens False [(int f, int i)] net else Some net) = Some net1"
      "disconnectIncoming ens i fs (j + 1) net1 = Some net'"
    using 2(3) by (auto simp: bind_eq_Some_conv)
  have names: "names = ens ! j" using n(1) by (simp add: go_index_eq_Some)
  have e1: "nw_servers net1 = nw_servers net \<and> nw_connections net1 = nw_connections net \<and>
      ends_inv (\<lambda>j. j) n ens X (\<lambda>a b. L a b \<and> \<not> (b = i \<and> a = f \<and> ens ! j \<noteq> None)) net1"
  proof (cases "names = None")
    case True
    then show ?thesis using n(2) 2(2) names by simp
  next
    case False
    then have e: "enableEnds ens False (map int_pair [(f, i)]) net = Some net1" using n(2) by simp
    have "ends_inv (\<lambda>j. j) n ens X (\<lambda>a b. L a b \<and> \<not> (b = i \<and> a = f \<and> ens ! j \<noteq> None)) net1"
      by (rule ends_inv_cong [OF _ ends_inv_enable(2) [OF 2(2) e]]) (use False names in auto)
    then show ?thesis using enableEnds_net(2,3) [OF e] by blast
  qed
  then have "ends_inv (\<lambda>j. j) n ens X (\<lambda>a b. L a b \<and> \<not> (b = i \<and> a = f \<and> ens ! j \<noteq> None)) net1" by simp
  from 2(1) [OF n(1,2) this n(3)] e1 show ?case
  proof (elim conjE, intro conjI)
    assume "ends_inv (\<lambda>j. j) n ens X (\<lambda>a b. (L a b \<and> \<not> (b = i \<and> a = f \<and> ens ! j \<noteq> None)) \<and>
      \<not> (b = i \<and> (\<exists>k<length fs. a = fs ! k \<and> ens ! (j + 1 + k) \<noteq> None))) net'"
    then show "ends_inv (\<lambda>j. j) n ens X (\<lambda>a b. L a b \<and> \<not> (b = i \<and> (\<exists>k<length (f # fs). a = (f # fs) ! k \<and> ens ! (j + k) \<noteq> None))) net'"
      by (rule ends_inv_cong [rotated]) (auto simp: Ex_less_Suc2)
  qed simp_all
qed

lemma disconnectUnlocked_links:
  assumes inv: "svc_ends cfg L" and c: "disconnectUnlocked i from cfg = Some cfg'"
  obtains net where "cfg' = cfg\<lparr>hc_net := net\<rparr>" "nw_servers net = nw_servers (hc_net cfg)" "nw_connections net = nw_connections (hc_net cfg)"
    "svc_ends cfg' (\<lambda>a b. L a b \<and> \<not> (a = i \<and> b \<in> set from) \<and>
       \<not> (b = i \<and> (\<exists>k<length from. a = from ! k \<and> hc_endnames cfg ! k \<noteq> None)))"
proof -
  obtain net1 net2 where n: "disconnectIncoming (hc_endnames cfg) i from 0 net1 = Some net2" "cfg' = cfg\<lparr>hc_net := net2\<rparr>"
      "(if from = [] then Some (hc_net cfg) else do {
         names \<leftarrow> go_index (hc_endnames cfg) (int i);
         if names \<noteq> None then enableEnds (hc_endnames cfg) False (map int_pair (map (\<lambda>j. (i, j)) from)) (hc_net cfg) else Some (hc_net cfg)
       }) = Some net1"
    using c unfolding disconnectUnlocked_def pairs_map by (auto simp: bind_eq_Some_conv simp del: map_map)
  have e1: "nw_servers net1 = nw_servers (hc_net cfg) \<and> nw_connections net1 = nw_connections (hc_net cfg) \<and>
      ends_inv (\<lambda>j. j) (hc_n cfg) (hc_endnames cfg) (made_ends cfg) (\<lambda>a b. L a b \<and> \<not> (a = i \<and> b \<in> set from)) net1"
  proof (cases "from = [] \<or> hc_endnames cfg ! i = None")
    case True
    then have "net1 = hc_net cfg" using n(3) by (auto simp: bind_eq_Some_conv go_index_eq_Some split: if_splits)
    moreover have "svc_ends cfg (\<lambda>a b. L a b \<and> \<not> (a = i \<and> b \<in> set from))"
      by (rule ends_inv_cong [OF _ inv]) (use True in \<open>auto simp: live_def\<close>)
    ultimately show ?thesis by simp
  next
    case False
    then have e: "enableEnds (hc_endnames cfg) False (map int_pair (map (\<lambda>j. (i, j)) from)) (hc_net cfg) = Some net1"
      using n(3) by (auto simp: bind_eq_Some_conv go_index_eq_Some split: if_splits)
    have "ends_inv (\<lambda>j. j) (hc_n cfg) (hc_endnames cfg) (made_ends cfg) (\<lambda>a b. L a b \<and> \<not> (a = i \<and> b \<in> set from)) net1"
      by (rule ends_inv_cong [OF _ ends_inv_enable(2) [OF inv e]]) auto
    then show ?thesis using e by simp
  qed
  then have "ends_inv (\<lambda>j. j) (hc_n cfg) (hc_endnames cfg) (made_ends cfg) (\<lambda>a b. L a b \<and> \<not> (a = i \<and> b \<in> set from)) net1" by simp
  note e2 = disconnectIncoming_links [OF this n(1)]
  show ?thesis using that [of net2] n(2) e1 e2 by (simp add: conj_assoc)
qed

text \<open>When all servers have been started, connecting and disconnecting succeed and do what they say.\<close>

definition all_started :: "('srv, 'ck, 'c, 's, 'w, 'z) svc_config_scheme \<Rightarrow> bool" where
  "all_started cfg \<longleftrightarrow> (\<forall>i<hc_n cfg. hc_endnames cfg ! i \<noteq> None)"

lemma enableEnds_started:
  assumes "ends_inv sname n ens X L net" "\<forall>i<n. ens ! i \<noteq> None" "set ps \<subseteq> {..<n} \<times> {..<n}"
  shows "\<exists>net'. enableEnds ens b (map int_pair ps) net1 = Some net'"
proof (rule enableEnds_total, clarify)
  fix i j assume "(i, j) \<in> set (map int_pair ps)"
  then obtain a b where ab: "i = int a" "j = int b" "(a, b) \<in> set ps" by auto
  then have "a < n" "b < n" using assms(3) by auto
  then show "0 \<le> i \<and> i < int (length ens) \<and> 0 \<le> j \<and> j < int (length (the_slice (ens ! nat i)))"
    using ab(1,2) assms(1,2) by (auto simp: ends_inv_def the_slice_def)
qed

lemma connect_started:
  assumes "svc_ends cfg L" "all_started cfg" "i < hc_n cfg" "set to \<subseteq> {..<hc_n cfg}"
  obtains net where "connectUnlocked i to cfg = Some (cfg\<lparr>hc_net := net\<rparr>)"
    "svc_ends (cfg\<lparr>hc_net := net\<rparr>) (\<lambda>a b. a = i \<and> b \<in> set to \<or> b = i \<and> a \<in> set to \<or> L a b)"
proof -
  have en: "\<exists>net'. enableEnds (hc_endnames cfg) True (map int_pair ps) net1 = Some net'" if "set ps \<subseteq> {..<hc_n cfg} \<times> {..<hc_n cfg}" for ps net1
    by (rule enableEnds_started [OF assms(1)]) (use assms(2) that in \<open>auto simp: all_started_def\<close>)
  obtain net1 where n1: "enableEnds (hc_endnames cfg) True (map int_pair (map (\<lambda>j. (i, j)) to)) (hc_net cfg) = Some net1"
    using en [of "map (\<lambda>j. (i, j)) to"] assms(3,4) by auto
  obtain net2 where n2: "enableEnds (hc_endnames cfg) True (map int_pair (map (\<lambda>j. (j, i)) to)) net1 = Some net2"
    using en [of "map (\<lambda>j. (j, i)) to"] assms(3,4) by auto
  have c: "connectUnlocked i to cfg = Some (cfg\<lparr>hc_net := net2\<rparr>)"
    using n1 n2 by (simp add: connectUnlocked_def pairs_map del: map_map)
  show ?thesis by (rule connectUnlocked_links [OF assms(1) c]) (use c that in simp)
qed

lemma disconnectIncoming_total:
  assumes "ends_inv sname n ens X L net" "\<forall>i<n. ens ! i \<noteq> None" "i < n" "set from \<subseteq> {..<n}" "j + length from \<le> n"
  shows "\<exists>net'. disconnectIncoming ens i from j net1 = Some net'"
  using assms(4,5)
proof (induction "from" arbitrary: j net1)
  case (Cons f fs)
  have l: "length ens = n" using assms(1) by (simp add: ends_inv_def)
  obtain net2 where "enableEnds ens False (map int_pair [(f, i)]) net1 = Some net2"
    using enableEnds_started [OF assms(1,2), of "[(f, i)]"] Cons.prems assms(3) by fastforce
  then have "enableEnds ens False [(int f, int i)] net1 = Some net2" by simp
  moreover have "go_index ens (int j) = Some (ens ! j)" "ens ! j \<noteq> None" using Cons.prems l assms(2) by (auto simp: go_simps)
  ultimately show ?case using Cons.IH [of "j + 1" net2] Cons.prems by simp
qed simp

lemma disconnect_started:
  assumes "svc_ends cfg L" "all_started cfg" "i < hc_n cfg" "set from \<subseteq> {..<hc_n cfg}" "distinct from"
  obtains net where "disconnectUnlocked i from cfg = Some (cfg\<lparr>hc_net := net\<rparr>)"
    "svc_ends (cfg\<lparr>hc_net := net\<rparr>) (\<lambda>a b. L a b \<and> \<not> (a = i \<and> b \<in> set from) \<and> \<not> (b = i \<and> a \<in> set from))"
proof -
  have st: "\<forall>i<hc_n cfg. hc_endnames cfg ! i \<noteq> None" using assms(2) by (simp add: all_started_def)
  have len: "length from \<le> hc_n cfg" using card_mono [OF _ assms(4)] distinct_card [OF assms(5)] by simp
  obtain net1 where n1: "enableEnds (hc_endnames cfg) False (map int_pair (map (\<lambda>j. (i, j)) from)) (hc_net cfg) = Some net1"
    using enableEnds_started [OF assms(1) st, of "map (\<lambda>j. (i, j)) from"] assms(3,4) by fastforce
  have "go_index (hc_endnames cfg) (int i) = Some (hc_endnames cfg ! i)" using assms(1,3) by (simp add: ends_inv_def go_simps)
  then have n1': "(if from = [] then Some (hc_net cfg) else do {
         names \<leftarrow> go_index (hc_endnames cfg) (int i);
         if names \<noteq> None then enableEnds (hc_endnames cfg) False (map int_pair (map (\<lambda>j. (i, j)) from)) (hc_net cfg) else Some (hc_net cfg)
       }) = Some net1" using n1 st assms(3) by (cases "from = []") auto
  obtain net2 where n2: "disconnectIncoming (hc_endnames cfg) i from 0 net1 = Some net2"
    using disconnectIncoming_total [OF assms(1) st assms(3,4)] len by fastforce
  have c: "disconnectUnlocked i from cfg = Some (cfg\<lparr>hc_net := net2\<rparr>)"
    unfolding disconnectUnlocked_def pairs_map n1' by (simp add: n2)
  show ?thesis
  proof (rule disconnectUnlocked_links [OF assms(1) c])
    fix net assume n: "cfg\<lparr>hc_net := net2\<rparr> = cfg\<lparr>hc_net := net\<rparr>"
      and e: "svc_ends (cfg\<lparr>hc_net := net2\<rparr>) (\<lambda>a b. L a b \<and> \<not> (a = i \<and> b \<in> set from) \<and>
        \<not> (b = i \<and> (\<exists>k<length from. a = from ! k \<and> hc_endnames cfg ! k \<noteq> None)))"
    have "(\<exists>k<length from. a = from ! k \<and> hc_endnames cfg ! k \<noteq> None) \<longleftrightarrow> a \<in> set from" for a
      using st len by (force simp: in_set_conv_nth)
    then show ?thesis using that [OF c] e by simp
  qed
qed

section \<open>Partitions\<close>

lemma all_started_net [simp]: "all_started (cfg\<lparr>hc_net := net\<rparr>) = all_started cfg"
  by (simp add: all_started_def)

text \<open>The links after the servers in \<open>done\<close> of one side have been treated.\<close>

definition side_links :: "nat set \<Rightarrow> nat set \<Rightarrow> nat set \<Rightarrow> (nat \<Rightarrow> nat \<Rightarrow> bool) \<Rightarrow> nat \<Rightarrow> nat \<Rightarrow> bool" where
  "side_links mine other treated L a b \<longleftrightarrow>
     a \<in> treated \<and> b \<in> mine \<or> b \<in> treated \<and> a \<in> mine \<or> L a b \<and> \<not> (a \<in> treated \<and> b \<in> other) \<and> \<not> (b \<in> treated \<and> a \<in> other)"

lemma sideLoop_links:
  assumes "svc_ends cfg L" "all_started cfg" "set mine \<subseteq> {..<hc_n cfg}" "set other \<subseteq> {..<hc_n cfg}" "distinct other"
    "set mine \<inter> set other = {}" "set xs \<subseteq> set mine"
  shows "\<exists>net. sideLoop mine other xs cfg = Some (cfg\<lparr>hc_net := net\<rparr>) \<and>
    svc_ends (cfg\<lparr>hc_net := net\<rparr>) (side_links (set mine) (set other) (set xs) L)"
  using assms
proof (induction xs arbitrary: cfg L)
  case Nil
  have "svc_ends cfg (side_links (set mine) (set other) {} L)" by (rule ends_inv_cong [OF _ Nil(1)]) (simp add: side_links_def)
  then show ?case by (intro exI [of _ "hc_net cfg"]) simp
next
  case (Cons x xs)
  have x: "x < hc_n cfg" using Cons.prems by auto
  obtain net1 where n1: "disconnectUnlocked x other cfg = Some (cfg\<lparr>hc_net := net1\<rparr>)"
      "svc_ends (cfg\<lparr>hc_net := net1\<rparr>) (\<lambda>a b. L a b \<and> \<not> (a = x \<and> b \<in> set other) \<and> \<not> (b = x \<and> a \<in> set other))" (is "svc_ends _ ?L1")
    by (rule disconnect_started [OF Cons.prems(1,2) x Cons.prems(4,5)]) blast
  obtain net2 where n2: "connectUnlocked x mine (cfg\<lparr>hc_net := net1\<rparr>) = Some (cfg\<lparr>hc_net := net2\<rparr>)"
      "svc_ends (cfg\<lparr>hc_net := net2\<rparr>) (\<lambda>a b. a = x \<and> b \<in> set mine \<or> b = x \<and> a \<in> set mine \<or> ?L1 a b)" (is "svc_ends _ ?L2")
    by (rule connect_started [OF n1(2), of x mine]) (use Cons.prems(2,3) x in auto)
  obtain net3 where n3: "sideLoop mine other xs (cfg\<lparr>hc_net := net2\<rparr>) = Some (cfg\<lparr>hc_net := net3\<rparr>)"
      "svc_ends (cfg\<lparr>hc_net := net3\<rparr>) (side_links (set mine) (set other) (set xs) ?L2)"
    using Cons.IH [OF n2(2)] Cons.prems by auto
  have "svc_ends (cfg\<lparr>hc_net := net3\<rparr>) (side_links (set mine) (set other) (set (x # xs)) L)"
    by (rule ends_inv_cong [OF _ n3(2)]) (use Cons.prems(6,7) in \<open>auto simp: side_links_def\<close>)
  then show ?case using n1(1) n2(1) n3(1) by (intro exI [of _ net3]) simp
qed

lemma svc_partition_links:
  assumes "svc_ends cfg L" "all_started cfg" "distinct p1" "distinct p2" "set p1 \<inter> set p2 = {}" "set p1 \<union> set p2 = {..<hc_n cfg}"
  shows "\<exists>net. svc_partition p1 p2 cfg = Some (cfg\<lparr>hc_net := net\<rparr>) \<and> svc_ends (cfg\<lparr>hc_net := net\<rparr>) (\<lambda>a b. a \<in> set p1 \<longleftrightarrow> b \<in> set p1)"
proof -
  have sub: "set p1 \<subseteq> {..<hc_n cfg}" "set p2 \<subseteq> {..<hc_n cfg}" using assms(6) by auto
  obtain net1 where n1: "sideLoop p1 p2 p1 cfg = Some (cfg\<lparr>hc_net := net1\<rparr>)" "svc_ends (cfg\<lparr>hc_net := net1\<rparr>) (side_links (set p1) (set p2) (set p1) L)"
    using sideLoop_links [OF assms(1,2) sub assms(4,5) subset_refl] by blast
  obtain net2 where n2: "sideLoop p2 p1 p2 (cfg\<lparr>hc_net := net1\<rparr>) = Some (cfg\<lparr>hc_net := net2\<rparr>)"
      "svc_ends (cfg\<lparr>hc_net := net2\<rparr>) (side_links (set p2) (set p1) (set p2) (side_links (set p1) (set p2) (set p1) L))"
    using sideLoop_links [OF n1(2), of p2 p1 p2] assms(2,3,5) sub by auto
  have "svc_ends (cfg\<lparr>hc_net := net2\<rparr>) (\<lambda>a b. a \<in> set p1 \<longleftrightarrow> b \<in> set p1)"
    by (rule ends_inv_cong [OF _ n2(2)]) (use assms(5,6) in \<open>auto simp: side_links_def live_def\<close>)
  then show ?thesis using n1(1) n2(1) by (intro exI [of _ net2]) (simp add: svc_partition_def)
qed

text \<open>The other servers in order, and how the loop of \<^verbatim>\<open>make_partition\<close> fills the two slices with them.\<close>

definition halves :: "nat \<Rightarrow> nat list \<Rightarrow> nat list \<times> nat list" where
  "halves k d = (take (k + 1) d @ replicate (k + 1 - length d) 0, drop (k + 1) d @ replicate (k - (length d - (k + 1))) 0)"

lemma fill_next: "length d < m \<Longrightarrow> (d @ replicate (m - length d) x)[length d := i] = (d @ [i]) @ replicate (m - length (d @ [i])) x"
  by (cases "m - length d") (auto simp: list_update_append)

lemma halves_length [simp]: "length d \<le> 2 * k + 1 \<Longrightarrow> length (fst (halves k d)) = k + 1" "length d \<le> 2 * k + 1 \<Longrightarrow> length (snd (halves k d)) = k"
  by (simp_all add: halves_def)

lemma halves_first: "length d < k + 1 \<Longrightarrow> halves k (d @ [i]) = ((fst (halves k d))[length d := i], snd (halves k d))"
  using fill_next [of d "k + 1" 0 i] by (simp add: halves_def)

lemma halves_second:
  assumes "k + 1 \<le> length d" "length d < 2 * k + 1"
  shows "halves k (d @ [i]) = (fst (halves k d), (snd (halves k d))[length d - (k + 1) := i])"
  using fill_next [of "drop (k + 1) d" k 0 i] assms by (simp add: halves_def)

lemma splitLoop_halves:
  assumes "length (d @ filter (\<lambda>i. i \<noteq> l) xs) \<le> 2 * k + 1"
  shows "splitLoop l xs (length d) (fst (halves k d)) (snd (halves k d)) = Some (halves k (d @ filter (\<lambda>i. i \<noteq> l) xs))"
  using assms
proof (induction xs arbitrary: d)
  case (Cons x xs)
  show ?case
  proof (cases "x = l")
    case False
    then have len: "length d < 2 * k + 1" "length ((d @ [x]) @ filter (\<lambda>i. i \<noteq> l) xs) \<le> 2 * k + 1" using Cons.prems by auto
    note IH = Cons.IH [OF len(2)]
    show ?thesis
    proof (cases "length d < k + 1")
      case True
      then show ?thesis using IH False len(1) halves_first [OF True, of x] by (simp add: go_simps)
    next
      case F: False
      then have "go_store (snd (halves k d)) (int (length d) - int (length (fst (halves k d)))) x = Some ((snd (halves k d))[length d - (k + 1) := x])"
        using len(1) by (simp add: go_store_def nat_diff_distrib nat_add_distrib)
      then show ?thesis using IH False F len(1) halves_second [of k d x] by simp
    qed
  qed (use Cons in simp)
qed simp

lemma go_store_last: "go_store (xs @ [x]) (int (length (xs @ [x])) - 1) y = Some (xs @ [y])"
  by (simp add: go_store_def)

lemma splitServers_odd:
  assumes "n = 2 * k + 1" "0 < k" "l < n"
  shows "splitServers n l = Some (take (k + 1) (filter (\<lambda>i. i \<noteq> l) [0..<n]), drop (k + 1) (filter (\<lambda>i. i \<noteq> l) [0..<n]) @ [l])"
proof -
  let ?d = "filter (\<lambda>i. i \<noteq> l) [0..<n]"
  have "set ?d = {..<n} - {l}" by auto
  then have "length ?d = card ({..<n} - {l})" using distinct_card [of ?d] by simp
  then have len: "length ?d = 2 * k" using assms by simp
  have z: "halves k [] = (replicate (k + 1) 0, replicate k 0)" by (simp add: halves_def)
  have "n div 2 = k" using assms(1) by simp
  then have s: "splitLoop l [0..<n] 0 (replicate (n div 2 + 1) 0) (replicate (n div 2) 0) = Some (halves k ?d)"
    using splitLoop_halves [of "[]" l "[0..<n]" k] len z by simp
  have "halves k ?d = (take (k + 1) ?d, drop (k + 1) ?d @ [0])" using len assms(2) by (simp add: halves_def)
  then show ?thesis unfolding splitServers_def s using go_store_last [of "drop (k + 1) ?d" 0 l] by simp
qed

section \<open>The invariant\<close>

definition client_names :: "('srv, 'ck, 'c, 's, 'w, 'z) svc_config_scheme \<Rightarrow> string list \<Rightarrow> bool" where
  "client_names cfg ns \<longleftrightarrow> length ns = hc_n cfg \<and> set ns \<subseteq> made_ends cfg \<and> (\<forall>j<hc_n cfg. nw_connections (hc_net cfg) (ns ! j) = Some (Some j))"

definition svc_inv :: "('srv, 'ck, 'c, 's, 'w, 'z) svc_config_scheme \<Rightarrow> bool" where
  "svc_inv cfg \<longleftrightarrow> length (hc_servers cfg) = hc_n cfg \<and> length (hc_saved cfg) = hc_n cfg \<and> svc_ends cfg (link_on cfg) \<and>
     (\<forall>i<hc_n cfg. (hc_servers cfg ! i = None \<longrightarrow> (\<forall>j<hc_n cfg. \<not> link_on cfg i j)) \<and>
        (hc_servers cfg ! i \<noteq> None \<longrightarrow> hc_endnames cfg ! i \<noteq> None) \<and> (server_at (hc_net cfg) i = None \<longleftrightarrow> hc_servers cfg ! i = None)) \<and>
     (\<forall>ck ns. hc_clerks cfg ck = Some ns \<longrightarrow> client_names cfg ns)"

definition runs :: "nat \<Rightarrow> ('srv, 'ck, 'c, 's, 'w, 'z) svc_config_scheme \<Rightarrow> bool" where
  "runs i cfg \<longleftrightarrow> i < hc_n cfg \<and> hc_servers cfg ! i \<noteq> None"

lemma svc_inv_net:
  assumes inv: "svc_inv cfg" and e: "svc_ends (cfg\<lparr>hc_net := net\<rparr>) L"
    and n: "nw_servers net = nw_servers (hc_net cfg)" "nw_connections net = nw_connections (hc_net cfg)"
    and off: "\<And>i j. i < hc_n cfg \<Longrightarrow> j < hc_n cfg \<Longrightarrow> hc_servers cfg ! i = None \<Longrightarrow> L i j \<Longrightarrow> link_on cfg i j"
  shows "svc_inv (cfg\<lparr>hc_net := net\<rparr>)"
proof -
  have "server_at net i = server_at (hc_net cfg) i" for i using n(1) by (simp add: server_at_def)
  moreover have "\<not> link_on (cfg\<lparr>hc_net := net\<rparr>) i j" if "i < hc_n cfg" "j < hc_n cfg" "hc_servers cfg ! i = None" for i j
    using svc_ends_link_on [OF e, of i j] off [OF that] that inv by (auto simp: svc_inv_def)
  moreover have "svc_ends (cfg\<lparr>hc_net := net\<rparr>) (link_on (cfg\<lparr>hc_net := net\<rparr>))" using svc_ends_canonical [OF e] .
  ultimately show ?thesis using inv n(2) by (simp add: svc_inv_def client_names_def)
qed

lemma connect_inv:
  assumes inv: "svc_inv cfg" and c: "connectUnlocked i to cfg = Some cfg'" and r: "runs i cfg" "\<forall>j\<in>set to. runs j cfg"
  shows "svc_inv cfg' \<and> hc_n cfg' = hc_n cfg \<and> hc_servers cfg' = hc_servers cfg"
proof -
  have ends: "svc_ends cfg (link_on cfg)" using inv by (simp add: svc_inv_def)
  show ?thesis
  proof (rule connectUnlocked_links [OF ends c])
    fix net assume n: "cfg' = cfg\<lparr>hc_net := net\<rparr>" "nw_servers net = nw_servers (hc_net cfg)" "nw_connections net = nw_connections (hc_net cfg)"
      and e: "svc_ends cfg' (\<lambda>a b. a = i \<and> b \<in> set to \<or> b = i \<and> a \<in> set to \<or> link_on cfg a b)"
    have "svc_inv (cfg\<lparr>hc_net := net\<rparr>)"
      by (rule svc_inv_net [OF inv e [unfolded n(1)] n(2,3)]) (use r in \<open>auto simp: runs_def\<close>)
    then show ?thesis using n(1) by simp
  qed
qed

lemma disconnect_inv:
  assumes inv: "svc_inv cfg" and c: "disconnectUnlocked i from cfg = Some cfg'"
  shows "svc_inv cfg' \<and> (\<exists>net. cfg' = cfg\<lparr>hc_net := net\<rparr>) \<and> (\<forall>j\<in>set from. j < hc_n cfg \<and> i < hc_n cfg \<longrightarrow> \<not> link_on cfg' i j)"
proof -
  have ends: "svc_ends cfg (link_on cfg)" using inv by (simp add: svc_inv_def)
  show ?thesis
  proof (rule disconnectUnlocked_links [OF ends c])
    fix net assume n: "cfg' = cfg\<lparr>hc_net := net\<rparr>" "nw_servers net = nw_servers (hc_net cfg)" "nw_connections net = nw_connections (hc_net cfg)"
      and e: "svc_ends cfg' (\<lambda>a b. link_on cfg a b \<and> \<not> (a = i \<and> b \<in> set from) \<and>
        \<not> (b = i \<and> (\<exists>k<length from. a = from ! k \<and> hc_endnames cfg ! k \<noteq> None)))"
    have "svc_inv (cfg\<lparr>hc_net := net\<rparr>)" by (rule svc_inv_net [OF inv e [unfolded n(1)] n(2,3)]) blast
    then show ?thesis using n(1) svc_ends_link_on [OF e] by auto
  qed
qed

lemma shutdown_inv:
  assumes inv: "svc_inv cfg" and c: "ShutdownServer rfOf i cfg = Some cfg'"
  shows "svc_inv cfg'"
proof -
  obtain cfg1 where d: "disconnectUnlocked i (All cfg) cfg = Some cfg1" and i: "i < hc_n cfg1" and cfg': "cfg' = cfg1\<lparr>hc_net := DeleteServer i (hc_net cfg1),
      hc_saved := (hc_saved cfg1)[i := map_option Persister_Copy (svc_savedOf rfOf cfg1 i)], hc_servers := (hc_servers cfg1)[i := None]\<rparr>"
    using c inv disconnect_inv [OF inv, of i "All cfg"] by (auto simp: ShutdownServer_def bind_eq_Some_conv go_store_eq_Some Let_def svc_inv_def)
  have inv1: "svc_inv cfg1" and off: "\<And>j. j < hc_n cfg1 \<Longrightarrow> \<not> link_on cfg1 i j"
    using disconnect_inv [OF inv d] i by (auto simp: All_def)
  have links: "link_on cfg' = link_on cfg1" by (auto simp: cfg' link_on_def DeleteServer_def is_enabled_def fun_eq_iff)
  have "svc_ends cfg' (link_on cfg1)"
  proof -
    have "ends_inv (\<lambda>j. j) (hc_n cfg1) (hc_endnames cfg1) (made_ends cfg1) (link_on cfg1) (DeleteServer i (hc_net cfg1))"
      by (rule ends_inv_net) (use inv1 in \<open>auto simp: svc_inv_def DeleteServer_def\<close>)
    then show ?thesis by (simp add: cfg' made_ends_def)
  qed
  moreover have "server_at (DeleteServer i (hc_net cfg1)) j = (if j = i then None else server_at (hc_net cfg1) j)" for j
    by (simp add: server_at_def DeleteServer_def)
  moreover have "client_names cfg' = client_names cfg1" by (auto simp: cfg' client_names_def made_ends_def DeleteServer_def fun_eq_iff)
  ultimately show ?thesis using inv1 i off links unfolding svc_inv_def by (auto simp: cfg' nth_list_update)
qed

lemma svc_start_inv:
  assumes inv: "svc_inv cfg" and c: "svc_StartServer start rfOf kvsvc rfsvc names i cfg = Some cfg'" and stopped: "hc_servers cfg ! i = None"
  shows "svc_inv cfg' \<and> hc_n cfg' = hc_n cfg \<and> (\<exists>srv. hc_servers cfg' = (hc_servers cfg)[i := Some srv])"
proof -
  obtain net1 es ps srv rs where m: "makeEnds (\<lambda>j. j) 0 (map names [0..<hc_n cfg]) (hc_net cfg) = Some (net1, es)" and i: "i < hc_n cfg"
      and cfg': "cfg' = cfg\<lparr>hc_endnames := (hc_endnames cfg)[i := Some (map names [0..<hc_n cfg])], hc_net := AddServer i (length (hc_heap cfg)) net1,
        hc_saved := (hc_saved cfg)[i := Some ps], hc_servers := (hc_servers cfg)[i := Some srv], hc_heap := hc_heap cfg @ [rs]\<rparr>"
    using c inv by (auto simp: svc_StartServer_def bind_eq_Some_conv go_store_eq_Some Let_def svc_inv_def)
  have ends: "svc_ends cfg (link_on cfg)" and off: "\<And>j. j < hc_n cfg \<Longrightarrow> \<not> link_on cfg i j" using inv i stopped by (auto simp: svc_inv_def)
  have "svc_ends cfg' (link_on cfg)"
    unfolding cfg' made_ends_def using ends_inv_start [OF ends i off m] ends_inv_net [of "\<lambda>j. j"]
    by (simp add: AddServer_def made_ends_def)
  note e = this svc_ends_canonical [OF this]
  have lo: "\<not> link_on cfg' a b" if "a < hc_n cfg" "b < hc_n cfg" "hc_servers cfg ! a = None" for a b
  proof -
    have "\<not> link_on cfg a b" using inv that by (auto simp: svc_inv_def)
    then show ?thesis using svc_ends_link_on [OF e(1), of a b] that by (auto simp: cfg')
  qed
  have f: "set (map names [0..<hc_n cfg]) \<inter> dom (nw_ends (hc_net cfg)) = {}" "nw_servers net1 = nw_servers (hc_net cfg)"
      "\<And>e. e \<notin> set (map names [0..<hc_n cfg]) \<Longrightarrow> nw_connections net1 e = nw_connections (hc_net cfg) e"
    using makeEnds_frame [OF m] by auto
  have cl: "client_names cfg' ns" if ns: "client_names cfg ns" for ns
  proof -
    have "made_ends cfg \<subseteq> dom (nw_ends (hc_net cfg))" using ends by (simp add: ends_inv_def)
    then have "ns ! j \<notin> set (map names [0..<hc_n cfg])" if "j < hc_n cfg" for j
      using ns that f(1) unfolding client_names_def by (metis disjoint_iff nth_mem subsetD)
    then show ?thesis using ns f(3) by (simp add: client_names_def cfg' made_ends_def AddServer_def)
  qed
  have sa: "server_at (AddServer i p net1) j = (if j = i then Some p else server_at (hc_net cfg) j)" for j p
    by (simp add: server_at_def AddServer_def f(2))
  have fs: "hc_n cfg' = hc_n cfg" "hc_servers cfg' = (hc_servers cfg)[i := Some srv]" "length (hc_saved cfg') = length (hc_saved cfg)"
      "hc_endnames cfg' = (hc_endnames cfg)[i := Some (map names [0..<hc_n cfg])]" "hc_clerks cfg' = hc_clerks cfg"
      "server_at (hc_net cfg') j = (if j = i then Some (length (hc_heap cfg)) else server_at (hc_net cfg) j)" for j
    by (simp_all add: cfg' sa)
  have each: "(hc_servers cfg' ! a = None \<longrightarrow> (\<forall>j<hc_n cfg'. \<not> link_on cfg' a j)) \<and> (hc_servers cfg' ! a \<noteq> None \<longrightarrow> hc_endnames cfg' ! a \<noteq> None) \<and>
      (server_at (hc_net cfg') a = None \<longleftrightarrow> hc_servers cfg' ! a = None)" if a: "a < hc_n cfg" for a
    using inv a i lo [OF a] unfolding fs svc_inv_def by (cases "a = i") (auto simp: ends_inv_def)
  have "svc_inv cfg'" unfolding svc_inv_def
    by (intro conjI allI impI) (use inv e(2) cl each fs in \<open>auto simp: svc_inv_def\<close>)
  then show ?thesis by (auto simp: cfg')
qed

section \<open>Clients\<close>

lemma enableNames_ends:
  assumes "ends_inv sname n ens X L net" "set ns \<subseteq> X" "enableNames ns b js net = Some net'"
  shows "ends_inv sname n ens X L net' \<and> nw_servers net' = nw_servers net \<and> nw_connections net' = nw_connections net \<and>
    (\<forall>e. is_enabled net' e = (if e \<in> (\<lambda>j. ns ! j) ` set js then b else is_enabled net e))"
  using assms(1,3)
proof (induction js arbitrary: net)
  case (Cons j js)
  obtain s where s: "go_index ns (int j) = Some s" "enableNames ns b js (Enable s b net) = Some net'" using Cons.prems(2) by (auto simp: bind_eq_Some_conv)
  have e: "s = ns ! j" "s \<in> X" using s(1) assms(2) by (auto simp: go_index_eq_Some)
  have "nw_servers (Enable s b net) = nw_servers net" "nw_connections (Enable s b net) = nw_connections net" by (simp_all add: Enable_def)
  then show ?case using Cons.IH [OF ends_inv_enable_other [OF Cons.prems(1) e(2)] s(2)] e(1) by auto
qed simp

lemma client_links_inv:
  assumes inv: "svc_inv cfg" and c: "enableNames (the_slice (hc_clerks cfg ck)) b js (hc_net cfg) = Some net"
  shows "svc_inv (cfg\<lparr>hc_net := net\<rparr>)"
proof -
  have "set (the_slice (hc_clerks cfg ck)) \<subseteq> made_ends cfg"
  proof (cases "hc_clerks cfg ck")
    case (Some ns)
    then have "client_names cfg ns" using inv by (simp add: svc_inv_def)
    then show ?thesis using Some by (simp add: the_slice_def client_names_def)
  qed (simp add: the_slice_def)
  moreover have "svc_ends cfg (link_on cfg)" using inv by (simp add: svc_inv_def)
  ultimately have "svc_ends (cfg\<lparr>hc_net := net\<rparr>) (link_on cfg)" "nw_servers net = nw_servers (hc_net cfg)" "nw_connections net = nw_connections (hc_net cfg)"
    using enableNames_ends [OF _ _ c] by auto
  then show ?thesis by (rule svc_inv_net [OF inv]) blast
qed

lemma shuffleLoop_mset: "\<forall>i\<in>set is. i < length sa \<Longrightarrow> mset (shuffleLoop rnd is sa) = mset sa \<and> length (shuffleLoop rnd is sa) = length sa"
proof (induction rnd "is" sa rule: shuffleLoop.induct)
  case (2 rnd i "is" sa)
  have i: "i < length sa" using 2(2) by simp
  have "rnd i mod (i + 1) < i + 1" by (rule mod_less_divisor) simp
  then have "rnd i mod (i + 1) < length sa" using i by linarith
  from this i have "mset (sa[i := sa ! (rnd i mod (i + 1)), rnd i mod (i + 1) := sa ! i]) = mset sa" by (rule mset_swap)
  then show ?case using 2 by (simp add: Let_def)
qed simp

lemma random_handles_mset: "mset (random_handles rnd kvh) = mset kvh"
  using shuffleLoop_mset [of "[0..<length kvh]" kvh rnd] by (simp add: random_handles_def)

lemma makeClient_inv:
  assumes inv: "svc_inv cfg" and c: "makeClient mk names rnd to cfg = Some (cfg', ck)"
  shows "svc_inv cfg'"
proof -
  let ?ns = "map names [0..<hc_n cfg]"
  obtain net1 es where m: "makeEnds (\<lambda>j. j) 0 ?ns (hc_net cfg) = Some (net1, es)" and k: "ck = length (hc_made cfg)"
      and cc: "ConnectClientUnlocked ck to (cfg\<lparr>hc_net := net1, hc_made := hc_made cfg @ [(random_handles rnd es, mk (length (random_handles rnd es)))],
        hc_clerks := (hc_clerks cfg)(ck \<mapsto> ?ns), hc_nextClientId := hc_nextClientId cfg + 1\<rparr>) = Some cfg'" (is "ConnectClientUnlocked ck to ?cfg1 = _")
    using c by (auto simp: makeClient_def bind_eq_Some_conv Let_def split: prod.splits)
  have ends: "svc_ends cfg (link_on cfg)" using inv by (simp add: svc_inv_def)
  have f: "set ?ns \<inter> dom (nw_ends (hc_net cfg)) = {}" "nw_servers net1 = nw_servers (hc_net cfg)" "length es = hc_n cfg"
      "\<And>e. e \<notin> set ?ns \<Longrightarrow> nw_connections net1 e = nw_connections (hc_net cfg) e"
      "\<And>k. k < hc_n cfg \<Longrightarrow> nw_connections net1 (?ns ! k) = Some (Some k) \<and> ce_endname (es ! k) = ?ns ! k"
    using makeEnds_frame [OF m] by auto
  have "map ce_endname es = ?ns" by (rule nth_equalityI) (use f(3,5) in auto)
  moreover have "set (random_handles rnd es) = set es" using random_handles_mset by (metis set_mset_mset)
  ultimately have "ce_endname ` set (random_handles rnd es) = set ?ns" by (metis set_map)
  then have made: "made_ends ?cfg1 = made_ends cfg \<union> set ?ns" unfolding made_ends_def by simp blast
  have e: "svc_ends ?cfg1 (link_on cfg)" unfolding made using ends_inv_client [OF ends m] by simp
  have lo: "link_on ?cfg1 a b \<longleftrightarrow> link_on cfg a b" if "a < hc_n cfg" "b < hc_n cfg" for a b
    using svc_ends_link_on [OF e, of a b] that by (auto simp: link_on_def)
  have sub: "made_ends cfg \<subseteq> dom (nw_ends (hc_net cfg))" using ends by (simp add: ends_inv_def)
  have cl: "client_names ?cfg1 ns" if "((hc_clerks cfg)(ck \<mapsto> ?ns)) k = Some ns" for k ns
  proof (cases "k = ck")
    case True
    then show ?thesis using that f(5) made by (auto simp: client_names_def)
  next
    case False
    then have ns: "client_names cfg ns" using that inv by (simp add: svc_inv_def)
    then have "ns ! j \<notin> set ?ns" if "j < hc_n cfg" for j
      using that f(1) sub unfolding client_names_def by (metis disjoint_iff nth_mem subsetD)
    then show ?thesis using ns f(4) made unfolding client_names_def by simp blast
  qed
  have sa: "server_at net1 j = server_at (hc_net cfg) j" for j using f(2) by (simp add: server_at_def)
  have "svc_inv ?cfg1" unfolding svc_inv_def
    by (intro conjI allI impI) (use inv svc_ends_canonical [OF e] lo cl sa in \<open>auto simp: svc_inv_def\<close>)
  then show ?thesis using client_links_inv [of ?cfg1 ck True to] cc by (auto simp: ConnectClientUnlocked_def bind_eq_Some_conv)
qed

lemma deleteClient_inv: "svc_inv cfg \<Longrightarrow> svc_inv (deleteClient ck cfg)"
proof -
  assume inv: "svc_inv cfg"
  have "link_on (deleteClient ck cfg) = link_on cfg" "made_ends (deleteClient ck cfg) = made_ends cfg" "client_names (deleteClient ck cfg) = client_names cfg"
    by (auto simp: deleteClient_def link_on_def made_ends_def client_names_def fun_eq_iff)
  then show ?thesis using inv unfolding svc_inv_def by (simp add: deleteClient_def)
qed

section \<open>Runs of the harness\<close>

text \<open>
  What a test may do, in any order, while the servers change their state and messages travel.  A server is started only when it has been
  shut down, as the comment of \<^verbatim>\<open>StartServer\<close> asks, and only servers that run are connected.
\<close>

inductive svc_step :: "('srv, 'ck, 'c, 's, 'w, 'z) svc_config_scheme \<Rightarrow> ('srv, 'ck, 'c, 's, 'w, 'z) svc_config_scheme \<Rightarrow> bool" where
  connect: "connectUnlocked i to cfg = Some cfg' \<Longrightarrow> runs i cfg \<Longrightarrow> \<forall>j\<in>set to. runs j cfg \<Longrightarrow> svc_step cfg cfg'"
| disconnect: "disconnectUnlocked i from cfg = Some cfg' \<Longrightarrow> svc_step cfg cfg'"
| connect_all: "ConnectAll cfg = Some cfg' \<Longrightarrow> \<forall>j<hc_n cfg. runs j cfg \<Longrightarrow> svc_step cfg cfg'"
| split: "svc_partition p1 p2 cfg = Some cfg' \<Longrightarrow> \<forall>j\<in>set p1 \<union> set p2. runs j cfg \<Longrightarrow> svc_step cfg cfg'"
| shutdown: "ShutdownServer rfOf i cfg = Some cfg' \<Longrightarrow> svc_step cfg cfg'"
| start: "svc_StartServer start rfOf kvsvc rfsvc names i cfg = Some cfg' \<Longrightarrow> hc_servers cfg ! i = None \<Longrightarrow> svc_step cfg cfg'"
| new_client: "makeClient mk names rnd to cfg = Some (cfg', ck) \<Longrightarrow> svc_step cfg cfg'"
| delete_client: "svc_step cfg (deleteClient ck cfg)"
| connect_client: "ConnectClientUnlocked ck to cfg = Some cfg' \<Longrightarrow> svc_step cfg cfg'"
| disconnect_client: "DisconnectClientUnlocked ck from cfg = Some cfg' \<Longrightarrow> svc_step cfg cfg'"
| server: "hc_servers cfg ! i = Some srv \<Longrightarrow> svc_step cfg (cfg\<lparr>hc_servers := (hc_servers cfg)[i := Some srv']\<rparr>)"
| traffic: "svc_step cfg (cfg\<lparr>hc_net := (hc_net cfg)\<lparr>nw_count := cnt, nw_bytes := bytes\<rparr>\<rparr>)"
| statistics: "svc_step cfg (svc_config.more_update f cfg)"

lemma connectAllLoop_inv:
  assumes "svc_inv cfg" "\<forall>j<hc_n cfg. runs j cfg" "connectAllLoop xs cfg = Some cfg'" "set xs \<subseteq> {..<hc_n cfg}"
  shows "svc_inv cfg'"
  using assms
proof (induction xs cfg rule: connectAllLoop.induct)
  case (2 i xs cfg)
  then obtain cfg1 where c: "connectUnlocked i (All cfg) cfg = Some cfg1" "connectAllLoop xs cfg1 = Some cfg'" by (auto simp: bind_eq_Some_conv)
  have "svc_inv cfg1 \<and> hc_n cfg1 = hc_n cfg \<and> hc_servers cfg1 = hc_servers cfg" by (rule connect_inv [OF 2(2) c(1)]) (use 2(3,5) in \<open>auto simp: All_def\<close>)
  then show ?case using 2(1) [OF c(1) _ _ c(2)] 2(3,5) by (simp add: runs_def)
qed simp

lemma sideLoop_inv:
  assumes "svc_inv cfg" "\<forall>j\<in>set mine \<union> set xs. runs j cfg" "sideLoop mine other xs cfg = Some cfg'"
  shows "svc_inv cfg' \<and> hc_n cfg' = hc_n cfg \<and> hc_servers cfg' = hc_servers cfg"
  using assms
proof (induction xs arbitrary: cfg)
  case (Cons i xs)
  obtain cfg1 cfg2 where c: "disconnectUnlocked i other cfg = Some cfg1" "connectUnlocked i mine cfg1 = Some cfg2" "sideLoop mine other xs cfg2 = Some cfg'"
    using Cons.prems(3) by (auto simp: bind_eq_Some_conv)
  have d: "svc_inv cfg1" "hc_n cfg1 = hc_n cfg" "hc_servers cfg1 = hc_servers cfg" using disconnect_inv [OF Cons.prems(1) c(1)] by auto
  then have r: "\<forall>j\<in>set mine \<union> set (i # xs). runs j cfg1" using Cons.prems(2) by (simp add: runs_def)
  then have e: "svc_inv cfg2 \<and> hc_n cfg2 = hc_n cfg1 \<and> hc_servers cfg2 = hc_servers cfg1" by (intro connect_inv [OF d(1) c(2)]) auto
  then have "\<forall>j\<in>set mine \<union> set xs. runs j cfg2" using r by (simp add: runs_def)
  then show ?case using Cons.IH [OF _ _ c(3)] e d by simp
qed simp

lemma partition_inv:
  assumes "svc_inv cfg" "\<forall>j\<in>set p1 \<union> set p2. runs j cfg" "svc_partition p1 p2 cfg = Some cfg'"
  shows "svc_inv cfg'"
proof -
  obtain cfg1 where c: "sideLoop p1 p2 p1 cfg = Some cfg1" "sideLoop p2 p1 p2 cfg1 = Some cfg'" using assms(3) by (auto simp: svc_partition_def bind_eq_Some_conv)
  have "svc_inv cfg1 \<and> hc_n cfg1 = hc_n cfg \<and> hc_servers cfg1 = hc_servers cfg" using sideLoop_inv [OF assms(1) _ c(1)] assms(2) by blast
  then show ?thesis using sideLoop_inv [OF _ _ c(2)] assms(2) by (simp add: runs_def)
qed

lemma svc_inv_quiet:
  assumes "svc_inv cfg" "hc_n cfg' = hc_n cfg" "map (\<lambda>s. s = None) (hc_servers cfg') = map (\<lambda>s. s = None) (hc_servers cfg)" "hc_saved cfg' = hc_saved cfg"
    "hc_endnames cfg' = hc_endnames cfg" "hc_clerks cfg' = hc_clerks cfg" "hc_made cfg' = hc_made cfg"
    "nw_ends (hc_net cfg') = nw_ends (hc_net cfg)" "nw_connections (hc_net cfg') = nw_connections (hc_net cfg)"
    "nw_enabled (hc_net cfg') = nw_enabled (hc_net cfg)" "nw_servers (hc_net cfg') = nw_servers (hc_net cfg)"
  shows "svc_inv cfg'"
proof -
  have l: "link_on cfg' = link_on cfg" using assms by (simp add: link_on_def is_enabled_def fun_eq_iff)
  have m: "made_ends cfg' = made_ends cfg" using assms(7) by (simp add: made_ends_def)
  have c: "client_names cfg' = client_names cfg" using assms m by (simp add: client_names_def fun_eq_iff)
  have len: "length (hc_servers cfg') = length (hc_servers cfg)" using assms(3) by (metis length_map)
  have s: "hc_servers cfg' ! i = None \<longleftrightarrow> hc_servers cfg ! i = None" if "i < hc_n cfg" for i
  proof -
    have "i < length (hc_servers cfg)" using that assms(1) by (simp add: svc_inv_def)
    then show ?thesis using arg_cong [OF assms(3), of "\<lambda>l. l ! i"] len by simp
  qed
  have "svc_ends cfg (link_on cfg)" using assms(1) by (simp add: svc_inv_def)
  from ends_inv_net [OF this assms(8-10)] have e: "svc_ends cfg' (link_on cfg')" unfolding l m assms(2,5) .
  have sa: "server_at (hc_net cfg') = server_at (hc_net cfg)" using assms(11) by (simp add: server_at_def fun_eq_iff)
  show ?thesis unfolding svc_inv_def
  proof (intro conjI allI impI)
    fix ck ns assume "hc_clerks cfg' ck = Some ns"
    then show "client_names cfg' ns" using assms(1) unfolding c assms(6) by (simp add: svc_inv_def)
  qed (use assms(1) e in \<open>simp_all add: svc_inv_def l sa len s assms(2,4,5)\<close>)
qed

lemma svc_inv_step:
  assumes "svc_inv cfg" "svc_step cfg cfg'"
  shows "svc_inv cfg'"
  using assms(2,1)
proof cases
  case (connect_all)
  then show ?thesis using connectAllLoop_inv [OF assms(1)] by (simp add: ConnectAll_def lessThan_atLeast0)
next
  case (server i srv srv')
  have "map (\<lambda>s. s = None) ((hc_servers cfg)[i := Some srv']) = map (\<lambda>s. s = None) (hc_servers cfg)"
  proof (rule nth_equalityI)
    fix k assume "k < length (map (\<lambda>s. s = None) ((hc_servers cfg)[i := Some srv']))"
    then show "map (\<lambda>s. s = None) ((hc_servers cfg)[i := Some srv']) ! k = map (\<lambda>s. s = None) (hc_servers cfg) ! k"
      using server(2) by (cases "k = i") simp_all
  qed simp
  then show ?thesis unfolding server(1) by (intro svc_inv_quiet [OF assms(1)]) simp_all
next
  case (traffic cnt bytes)
  then show ?thesis by (intro svc_inv_quiet [OF assms(1)]) simp_all
next
  case (statistics f)
  then show ?thesis by (intro svc_inv_quiet [OF assms(1)]) simp_all
qed (auto simp: ConnectClientUnlocked_def DisconnectClientUnlocked_def bind_eq_Some_conv
  intro: deleteClient_inv client_links_inv dest: connect_inv disconnect_inv shutdown_inv svc_start_inv makeClient_inv partition_inv)

lemma svc_inv_new:
  assumes "hc_net cfg = MakeNetwork" "hc_servers cfg = replicate (hc_n cfg) None" "hc_saved cfg = replicate (hc_n cfg) None"
    "hc_endnames cfg = replicate (hc_n cfg) None" "hc_clerks cfg = Map.empty" "hc_made cfg = []"
  shows "svc_inv cfg"
proof -
  have "live (hc_n cfg) (hc_endnames cfg) = {}" using assms by (auto simp: live_def)
  then show ?thesis using assms by (simp add: svc_inv_def ends_inv_def made_ends_def MakeNetwork_def is_enabled_def link_on_def server_at_def)
qed

text \<open>The servers that are started one after the other by \<^verbatim>\<open>make_config\<close>.\<close>

definition started_to :: "nat \<Rightarrow> ('srv, 'ck, 'c, 's, 'w, 'z) svc_config_scheme \<Rightarrow> bool" where
  "started_to k cfg \<longleftrightarrow> svc_inv cfg \<and> (\<forall>i<hc_n cfg. hc_servers cfg ! i \<noteq> None \<longleftrightarrow> i < k)"

lemma started_to_step:
  assumes "started_to k cfg" "svc_StartServer start rfOf kvsvc rfsvc names k cfg = Some cfg'" "k < hc_n cfg"
  shows "started_to (Suc k) cfg' \<and> hc_n cfg' = hc_n cfg"
proof -
  have s: "svc_inv cfg" "hc_servers cfg ! k = None" "length (hc_servers cfg) = hc_n cfg" using assms(1,3) by (auto simp: started_to_def svc_inv_def)
  then obtain srv where i: "svc_inv cfg'" "hc_n cfg' = hc_n cfg" "hc_servers cfg' = (hc_servers cfg)[k := Some srv]" using svc_start_inv [OF _ assms(2)] by blast
  have "hc_servers cfg' ! a \<noteq> None \<longleftrightarrow> a < Suc k" if "a < hc_n cfg" for a
    using assms(1,3) that s(3) i(3) by (cases "a = k") (auto simp: started_to_def)
  then show ?thesis using i(1,2) by (simp add: started_to_def)
qed

lemma kv_startLoop_started:
  "started_to k cfg \<Longrightarrow> kv_startLoop kvm rfm names [k..<n] cfg = Some cfg' \<Longrightarrow> n = hc_n cfg \<Longrightarrow> k \<le> n \<Longrightarrow> started_to n cfg' \<and> hc_n cfg' = n"
proof (induction "n - k" arbitrary: k cfg)
  case (Suc d)
  then have k: "k < n" "[k..<n] = k # [Suc k..<n]" by (simp_all add: upt_conv_Cons)
  then obtain cfg1 where c: "kv_StartServer kvm rfm (names k) k cfg = Some cfg1" "kv_startLoop kvm rfm names [Suc k..<n] cfg1 = Some cfg'"
    using Suc.prems(2) by (auto simp: bind_eq_Some_conv)
  have "started_to (Suc k) cfg1 \<and> hc_n cfg1 = hc_n cfg"
    by (rule started_to_step [OF Suc.prems(1) c(1) [unfolded kv_StartServer_def]]) (use k Suc.prems in simp)
  then show ?case using Suc.hyps(1) [OF _ _ c(2)] Suc.hyps(2) Suc.prems k by simp
qed simp

lemma ctrlh_startLoop_started:
  "started_to k cfg \<Longrightarrow> ctrlh_startLoop kvm rfm names [k..<n] cfg = Some cfg' \<Longrightarrow> n = hc_n cfg \<Longrightarrow> k \<le> n \<Longrightarrow> started_to n cfg' \<and> hc_n cfg' = n"
proof (induction "n - k" arbitrary: k cfg)
  case (Suc d)
  then have k: "k < n" "[k..<n] = k # [Suc k..<n]" by (simp_all add: upt_conv_Cons)
  then obtain cfg1 where c: "ctrlh_StartServer kvm rfm (names k) k cfg = Some cfg1" "ctrlh_startLoop kvm rfm names [Suc k..<n] cfg1 = Some cfg'"
    using Suc.prems(2) by (auto simp: bind_eq_Some_conv)
  have "started_to (Suc k) cfg1 \<and> hc_n cfg1 = hc_n cfg"
    by (rule started_to_step [OF Suc.prems(1) c(1) [unfolded ctrlh_StartServer_def]]) (use k Suc.prems in simp)
  then show ?case using Suc.hyps(1) [OF _ _ c(2)] Suc.hyps(2) Suc.prems k by simp
qed simp

lemma started_connected:
  assumes "started_to (hc_n cfg) cfg" "ConnectAll cfg = Some cfg'"
  shows "svc_inv (cfg'\<lparr>hc_net := Reliable b (hc_net cfg')\<rparr>)"
proof -
  have "svc_inv cfg'" using connectAllLoop_inv [of cfg "[0..<hc_n cfg]" cfg'] assms by (auto simp: started_to_def ConnectAll_def runs_def lessThan_atLeast0)
  then show ?thesis by (rule svc_inv_quiet) (simp_all add: Reliable_def)
qed

definition kv_harness :: "'w kv_config \<Rightarrow> bool" where
  "kv_harness cfg \<longleftrightarrow> (\<exists>kvm rfm names n unreliable maxraftstate. kv_make_config kvm rfm names n unreliable maxraftstate = Some cfg)"

definition ctrl_harness :: "('s, 'w) ctrl_config \<Rightarrow> bool" where
  "ctrl_harness cfg \<longleftrightarrow> (\<exists>kvm rfm names n unreliable. ctrlh_make_config kvm rfm names n unreliable = Some cfg)"

lemma new_started: "started_to 0 (kv_new_config n maxraftstate)" "started_to 0 (ctrlh_new_config n)"
proof -
  have "svc_inv (kv_new_config n maxraftstate)" "svc_inv (ctrlh_new_config n)" by (rule svc_inv_new; simp add: kv_new_config_def ctrlh_new_config_def)+
  then show "started_to 0 (kv_new_config n maxraftstate)" "started_to 0 (ctrlh_new_config n)"
    by (simp_all add: started_to_def kv_new_config_def ctrlh_new_config_def)
qed

interpretation kvh: transition_invariant kv_harness svc_step svc_inv
proof (unfold_locales, goal_cases)
  case (1 cfg)
  then obtain kvm rfm names n unreliable maxraftstate cfg1 cfg2 where c: "kv_startLoop kvm rfm names [0..<n] (kv_new_config n maxraftstate) = Some cfg1"
      "ConnectAll cfg1 = Some cfg2" "cfg = cfg2\<lparr>hc_net := Reliable (\<not> unreliable) (hc_net cfg2)\<rparr>"
    unfolding kv_harness_def kv_make_config_def by (auto simp: bind_eq_Some_conv)
  have "started_to n cfg1 \<and> hc_n cfg1 = n" using kv_startLoop_started [OF new_started(1) c(1)] by (simp add: kv_new_config_def)
  then show ?case using started_connected [OF _ c(2)] c(3) by simp
qed (rule svc_inv_step)

interpretation ctrlh: transition_invariant ctrl_harness svc_step svc_inv
proof (unfold_locales, goal_cases)
  case (1 cfg)
  then obtain kvm rfm names n unreliable cfg1 cfg2 where c: "ctrlh_startLoop kvm rfm names [0..<n] (ctrlh_new_config n) = Some cfg1"
      "ConnectAll cfg1 = Some cfg2" "cfg = cfg2\<lparr>hc_net := Reliable (\<not> unreliable) (hc_net cfg2)\<rparr>"
    unfolding ctrl_harness_def ctrlh_make_config_def ctrlh_ConnectAll_def by (auto simp: bind_eq_Some_conv)
  have "started_to n cfg1 \<and> hc_n cfg1 = n" using ctrlh_startLoop_started [OF new_started(2) c(1)] by (simp add: ctrlh_new_config_def)
  then show ?case using started_connected [OF _ c(2)] c(3) by simp
qed (rule svc_inv_step)

section \<open>What a test relies on\<close>

lemma disconnectIncoming_all:
  assumes "length ens = n" "\<forall>i<n. \<forall>ns. ens ! i = Some ns \<longrightarrow> length ns = n" "i < n"
  shows "\<exists>net'. disconnectIncoming ens i [k..<n] k net = Some net'"
proof (induction "n - k" arbitrary: k net)
  case (Suc d)
  then have k: "k < n" "[k..<n] = k # [Suc k..<n]" by (simp_all add: upt_conv_Cons)
  have g: "go_index ens (int k) = Some (ens ! k)" using k(1) assms(1) by (simp add: go_simps)
  have "\<exists>net1. enableEnds ens False [(int k, int i)] net = Some net1" if "ens ! k \<noteq> None"
    by (rule enableEnds_total) (use that k(1) assms in \<open>auto simp: the_slice_def\<close>)
  then obtain net1 where "(if ens ! k \<noteq> None then enableEnds ens False [(int k, int i)] net else Some net) = Some net1"
    by (cases "ens ! k = None") (simp_all del: enableEnds.simps, blast)
  then show ?case using g k(2) Suc.hyps(1) [of "Suc k" net1] Suc.hyps(2) by auto
qed simp

lemma disconnectIncoming_frame: "disconnectIncoming ens i from j net = Some net' \<Longrightarrow> nw_ends net' = nw_ends net"
proof (induction "from" arbitrary: j net)
  case (Cons f fs)
  then obtain names net1 where "go_index ens (int j) = Some names" "disconnectIncoming ens i fs (j + 1) net1 = Some net'"
      "(if names \<noteq> None then enableEnds ens False [(int f, int i)] net else Some net) = Some net1"
    by (auto simp: bind_eq_Some_conv simp del: enableEnds.simps)
  then show ?case using Cons.IH enableEnds_net(1) by (metis option.inject)
qed simp

lemma shutdown_total:
  assumes inv: "svc_inv cfg" and i: "i < hc_n cfg" and running: "hc_servers cfg ! i = Some srv"
  obtains net where "ShutdownServer rfOf i cfg = Some (cfg\<lparr>hc_net := net, hc_saved := (hc_saved cfg)[i := Some (Persister_Copy (persister (rfOf srv)))],
      hc_servers := (hc_servers cfg)[i := None]\<rparr>)" "nw_ends net = nw_ends (hc_net cfg)"
proof -
  have ends: "svc_ends cfg (link_on cfg)" and l: "length (hc_servers cfg) = hc_n cfg" "length (hc_saved cfg) = hc_n cfg" and st: "hc_endnames cfg ! i \<noteq> None"
    using inv i running by (auto simp: svc_inv_def)
  then have e: "length (hc_endnames cfg) = hc_n cfg" "\<forall>a<hc_n cfg. \<forall>ns. hc_endnames cfg ! a = Some ns \<longrightarrow> length ns = hc_n cfg" by (auto simp: ends_inv_def)
  have g: "go_index (hc_endnames cfg) (int i) = Some (hc_endnames cfg ! i)" using i e(1) by (simp add: go_simps)
  obtain net1 where n1: "enableEnds (hc_endnames cfg) False (map (\<lambda>j. (int i, int j)) [0..<hc_n cfg]) (hc_net cfg) = Some net1"
    using enableEnds_total [of "map (\<lambda>j. (int i, int j)) [0..<hc_n cfg]" "hc_endnames cfg" False "hc_net cfg"] i e st by (auto simp: the_slice_def)
  obtain net2 where n2: "disconnectIncoming (hc_endnames cfg) i [0..<hc_n cfg] 0 net1 = Some net2" using disconnectIncoming_all [OF e i] by blast
  have d: "disconnectUnlocked i (All cfg) cfg = Some (cfg\<lparr>hc_net := net2\<rparr>)"
    using g n1 n2 st i unfolding disconnectUnlocked_def All_def by auto
  have "nw_ends net1 = nw_ends (hc_net cfg)" using n1 by simp
  moreover have "nw_ends net2 = nw_ends net1" using disconnectIncoming_frame [OF n2] by simp
  ultimately show ?thesis
    using that [of "DeleteServer i net2"] d i l running by (simp add: ShutdownServer_def Let_def svc_savedOf_def go_store_def DeleteServer_def)
qed

lemma svc_restart:
  assumes inv: "svc_inv cfg" and i: "i < hc_n cfg" and running: "hc_servers cfg ! i = Some srv"
    and names: "distinct (map names [0..<hc_n cfg])" "set (map names [0..<hc_n cfg]) \<inter> dom (nw_ends (hc_net cfg)) = {}"
    and start: "start (hc_n cfg) i (Persister_Copy (Persister_Copy (persister (rfOf srv)))) = Some srv'"
  obtains cfg1 cfg2 where "ShutdownServer rfOf i cfg = Some cfg1" "svc_config.more cfg1 = svc_config.more cfg" "svc_inv cfg2"
    "svc_StartServer start rfOf kvsvc rfsvc names i cfg1 = Some cfg2" "hc_servers cfg2 = (hc_servers cfg)[i := Some srv']" "hc_n cfg2 = hc_n cfg"
proof -
  have l: "length (hc_servers cfg) = hc_n cfg" "length (hc_saved cfg) = hc_n cfg" "length (hc_endnames cfg) = hc_n cfg"
    using inv by (auto simp: svc_inv_def ends_inv_def)
  obtain net where sd: "ShutdownServer rfOf i cfg = Some (cfg\<lparr>hc_net := net, hc_saved := (hc_saved cfg)[i := Some (Persister_Copy (persister (rfOf srv)))],
      hc_servers := (hc_servers cfg)[i := None]\<rparr>)" (is "_ = Some ?cfg1") and e: "nw_ends net = nw_ends (hc_net cfg)"
    using shutdown_total [OF inv i running] by blast
  have inv1: "svc_inv ?cfg1" using shutdown_inv [OF inv sd] .
  obtain net1 es where m: "makeEnds (\<lambda>j. j) 0 (map names [0..<hc_n cfg]) net = Some (net1, es)"
    using makeEnds_total [of "map names [0..<hc_n cfg]" net "\<lambda>j. j" 0] names e by auto
  have len: "length es = hc_n cfg" using makeEnds_frame [OF m] by simp
  define cfg2 where "cfg2 = ?cfg1\<lparr>hc_endnames := (hc_endnames cfg)[i := Some (map names [0..<hc_n cfg])], hc_net := AddServer i (length (hc_heap cfg)) net1,
    hc_saved := (hc_saved cfg)[i := Some (Persister_Copy (Persister_Copy (persister (rfOf srv))))], hc_servers := (hc_servers cfg)[i := Some srv'],
    hc_heap := hc_heap cfg @ [AddService rfsvc (AddService kvsvc MakeServer)]\<rparr>"
  have ss: "svc_StartServer start rfOf kvsvc rfsvc names i ?cfg1 = Some cfg2"
    using m len start i l by (simp add: svc_StartServer_def svc_savedOf_def go_store_def Let_def cfg2_def)
  have "svc_inv cfg2" using svc_start_inv [OF inv1 ss] i l by simp
  then show ?thesis using that [OF sd _ _ ss] by (simp add: cfg2_def)
qed

lemma svc_inv_links:
  assumes inv: "svc_inv cfg" and i: "i < hc_n cfg" "j < hc_n cfg"
  shows "hc_servers cfg ! i \<noteq> None \<Longrightarrow> nw_connections (hc_net cfg) (end_at (hc_endnames cfg) i j) = Some (Some j)"
    "server_at (hc_net cfg) j = None \<longleftrightarrow> hc_servers cfg ! j = None"
    "hc_clerks cfg ck = Some ns \<Longrightarrow> nw_connections (hc_net cfg) (ns ! j) = Some (Some j)"
    "is_enabled (hc_net cfg) e \<Longrightarrow> e \<in> made_ends cfg \<or> (\<exists>a<hc_n cfg. \<exists>b<hc_n cfg. hc_servers cfg ! a \<noteq> None \<and> e = end_at (hc_endnames cfg) a b)"
proof -
  have ends: "svc_ends cfg (link_on cfg)" using inv by (simp add: svc_inv_def)
  show "nw_connections (hc_net cfg) (end_at (hc_endnames cfg) i j) = Some (Some j)" if "hc_servers cfg ! i \<noteq> None"
  proof -
    have "(i, j) \<in> live (hc_n cfg) (hc_endnames cfg)" using inv i that by (auto simp: svc_inv_def live_def)
    then show ?thesis using ends unfolding ends_inv_def by blast
  qed
  show "server_at (hc_net cfg) j = None \<longleftrightarrow> hc_servers cfg ! j = None" using inv i(2) by (simp add: svc_inv_def)
  show "nw_connections (hc_net cfg) (ns ! j) = Some (Some j)" if "hc_clerks cfg ck = Some ns"
  proof -
    have "client_names cfg ns" using inv that by (simp add: svc_inv_def)
    then show ?thesis using i(2) by (simp add: client_names_def)
  qed
  show "e \<in> made_ends cfg \<or> (\<exists>a<hc_n cfg. \<exists>b<hc_n cfg. hc_servers cfg ! a \<noteq> None \<and> e = end_at (hc_endnames cfg) a b)" if on: "is_enabled (hc_net cfg) e"
  proof (rule disjCI)
    assume "\<not> (\<exists>a<hc_n cfg. \<exists>b<hc_n cfg. hc_servers cfg ! a \<noteq> None \<and> e = end_at (hc_endnames cfg) a b)"
    note none = this
    have "e \<noteq> end_at (hc_endnames cfg) a b" if ab: "(a, b) \<in> live (hc_n cfg) (hc_endnames cfg)" for a b
    proof (cases "hc_servers cfg ! a = None")
      case True
      have "a < hc_n cfg" "b < hc_n cfg" "hc_endnames cfg ! a \<noteq> None" using ab by (auto simp: live_def)
      then have "\<not> is_enabled (hc_net cfg) (end_at (hc_endnames cfg) a b)" using inv True by (auto simp: svc_inv_def link_on_def)
      then show ?thesis using on by auto
    next
      case False
      moreover have "a < hc_n cfg" "b < hc_n cfg" using ab by (simp_all add: live_def)
      ultimately show ?thesis using none by blast
    qed
    then have "e \<notin> (\<lambda>(i, j). end_at (hc_endnames cfg) i j) ` live (hc_n cfg) (hc_endnames cfg)" by auto
    then show "e \<in> made_ends cfg" using ends on unfolding ends_inv_def by blast
  qed
qed

lemma kv_leaderLoop_found:
  assumes "\<forall>i\<in>set xs. hc_servers (view i) ! i \<noteq> None"
  shows "\<exists>b l. kv_leaderLoop view xs = Some (b, l) \<and> (l \<in> set xs \<or> l = 0) \<and>
    ((\<exists>i\<in>set xs. snd (GetState (kv_rf (the (hc_servers (view i) ! i))))) \<longrightarrow> l \<in> set xs \<and> snd (GetState (kv_rf (the (hc_servers (view l) ! l)))))"
  using assms by (induction xs) auto

lemma kv_Leader_found:
  assumes "0 < n" "\<forall>i<n. hc_servers (view i) ! i \<noteq> None"
  shows "\<exists>b l. kv_Leader view n = Some (b, l) \<and> l < n \<and>
    ((\<exists>i<n. snd (GetState (kv_rf (the (hc_servers (view i) ! i))))) \<longrightarrow> snd (GetState (kv_rf (the (hc_servers (view l) ! l)))))"
proof -
  have "\<forall>i\<in>set [0..<n]. hc_servers (view i) ! i \<noteq> None" using assms(2) by simp
  from kv_leaderLoop_found [OF this] obtain b l where l: "kv_Leader view n = Some (b, l)" "l \<in> set [0..<n] \<or> l = 0"
      "(\<exists>i\<in>set [0..<n]. snd (GetState (kv_rf (the (hc_servers (view i) ! i))))) \<longrightarrow> l \<in> set [0..<n] \<and> snd (GetState (kv_rf (the (hc_servers (view l) ! l))))"
    unfolding kv_Leader_def by (elim exE conjE)
  then have "l < n" using assms(1) by auto
  then show ?thesis using l(1,3) by (intro exI [of _ b] exI [of _ l]) auto
qed

section \<open>Properties\<close>

text \<open>C27: \<^verbatim>\<open>make_partition\<close> and \<^verbatim>\<open>partition\<close> cut an odd number of servers in two.  When all servers run, the call gives a majority and a minority that
  together are all servers; the minority has a server that leads, if one of the servers led when it was read; and afterwards a link is on exactly
  when both its servers are on the same side.\<close>

theorem kv_partition_splits:
  assumes "reach kv_harness svc_step cfg" "hc_n cfg = 2 * k + 1" "0 < k" "\<forall>i<hc_n cfg. hc_servers cfg ! i \<noteq> None"
    "\<forall>i<hc_n cfg. hc_servers (view i) ! i \<noteq> None"
  shows "\<exists>p1 p2 l cfg'. kv_make_partition view (hc_n cfg) = Some (p1, p2) \<and> svc_partition p1 p2 cfg = Some cfg' \<and>
    distinct (p1 @ p2) \<and> set (p1 @ p2) = {..<hc_n cfg} \<and> length p1 = k + 1 \<and> l \<in> set p2 \<and>
    ((\<exists>i<hc_n cfg. snd (GetState (kv_rf (the (hc_servers (view i) ! i))))) \<longrightarrow> snd (GetState (kv_rf (the (hc_servers (view l) ! l))))) \<and>
    (\<forall>i<hc_n cfg. \<forall>j<hc_n cfg. is_enabled (hc_net cfg') (end_at (hc_endnames cfg') i j) \<longleftrightarrow> (i \<in> set p1 \<longleftrightarrow> j \<in> set p1))"
proof -
  let ?n = "hc_n cfg"
  have inv: "svc_inv cfg" using kvh.reach_inv [OF assms(1)] .
  have ends: "svc_ends cfg (link_on cfg)" and st: "all_started cfg" using inv assms(4) by (auto simp: svc_inv_def all_started_def)
  obtain b l where l: "kv_Leader view ?n = Some (b, l)" "l < ?n"
      "(\<exists>i<?n. snd (GetState (kv_rf (the (hc_servers (view i) ! i))))) \<longrightarrow> snd (GetState (kv_rf (the (hc_servers (view l) ! l))))"
    using kv_Leader_found [of ?n view] assms(2,5) by auto
  let ?d = "filter (\<lambda>i. i \<noteq> l) [0..<?n]"
  let ?p1 = "take (k + 1) ?d" and ?p2 = "drop (k + 1) ?d @ [l]"
  have p: "kv_make_partition view ?n = Some (?p1, ?p2)" using l(1) splitServers_odd [OF assms(2,3) l(2)] by (simp add: kv_make_partition_def)
  have sd: "set ?d = {..<?n} - {l}" "distinct ?d" by auto
  then have len: "length ?d = 2 * k" using distinct_card [of ?d] l(2) assms(2) by simp
  have app: "?p1 @ ?p2 = ?d @ [l]" by simp
  have d: "distinct (?p1 @ ?p2)" "set (?p1 @ ?p2) = {..<?n}" unfolding app using sd l(2) by auto
  then have "set ?p1 \<inter> set ?p2 = {}" "distinct ?p1" "distinct ?p2" "set ?p1 \<union> set ?p2 = {..<?n}" by (simp_all only: distinct_append set_append)
  from svc_partition_links [OF ends st this(2,3,1,4)] obtain net where n: "svc_partition ?p1 ?p2 cfg = Some (cfg\<lparr>hc_net := net\<rparr>)"
      "svc_ends (cfg\<lparr>hc_net := net\<rparr>) (\<lambda>a b. a \<in> set ?p1 \<longleftrightarrow> b \<in> set ?p1)" by blast
  have "is_enabled net (end_at (hc_endnames cfg) i j) \<longleftrightarrow> (i \<in> set ?p1 \<longleftrightarrow> j \<in> set ?p1)" if "i < ?n" "j < ?n" for i j
    using svc_ends_link_on [OF n(2), of i j] that st by (simp add: link_on_def all_started_def)
  then show ?thesis
    by (intro exI [of _ ?p1] exI [of _ ?p2] exI [of _ l] exI [of _ "cfg\<lparr>hc_net := net\<rparr>"] conjI p n(1) d l(3)) (use len assms(3) in simp_all)
qed

text \<open>The harness of the key/value service keeps its links in order.  However servers are shut down, started, connected and partitioned and clients
  come and go, the end from a running server, or of a clerk, for server \<open>j\<close> leads to the instance of \<open>j\<close> that runs, if one does; and an end that is
  on belongs to a running server or to a clerk, so an instance that has been shut down can send nothing.\<close>

theorem kv_harness_links:
  assumes "reach kv_harness svc_step cfg" "i < hc_n cfg" "j < hc_n cfg"
  shows "(hc_servers cfg ! i \<noteq> None \<longrightarrow> nw_connections (hc_net cfg) (end_at (hc_endnames cfg) i j) = Some (Some j)) \<and>
    (\<forall>ck ns. hc_clerks cfg ck = Some ns \<longrightarrow> nw_connections (hc_net cfg) (ns ! j) = Some (Some j)) \<and>
    (server_at (hc_net cfg) j = None \<longleftrightarrow> hc_servers cfg ! j = None) \<and>
    (\<forall>e. is_enabled (hc_net cfg) e \<longrightarrow>
       (\<exists>p\<in>set (hc_made cfg). e \<in> ce_endname ` set (fst p)) \<or> (\<exists>a<hc_n cfg. \<exists>b<hc_n cfg. hc_servers cfg ! a \<noteq> None \<and> e = end_at (hc_endnames cfg) a b))"
  using svc_inv_links [OF kvh.reach_inv [OF assms(1)] assms(2,3)] unfolding made_ends_def by simp

text \<open>C26: A restart brings a key/value server back with what it had persisted.  Shutting down a running server and starting it again succeeds, given new
  names for its ends; only this server changes, and it has the term, the vote and the log of the old instance,
  and the state machine that its last snapshot holds.\<close>

theorem kv_restart_recovers:
  assumes "reach kv_harness svc_step cfg" "i < hc_n cfg" "hc_servers cfg ! i = Some kv"
    "reach (node_init (hc_n cfg) i) (node_step (hc_n cfg) i) (kv_rf kv)"
    "distinct (map names [0..<hc_n cfg])" "set (map names [0..<hc_n cfg]) \<inter> dom (nw_ends (hc_net cfg)) = {}"
  shows "\<exists>cfg1 cfg2 kv'. kv_ShutdownServer i cfg = Some cfg1 \<and> kv_StartServer kvm rfm names i cfg1 = Some cfg2 \<and>
    hc_servers cfg2 = (hc_servers cfg)[i := Some kv'] \<and>
    currentTerm (kv_rf kv') = currentTerm (kv_rf kv) \<and> votedFor (kv_rf kv') = votedFor (kv_rf kv) \<and> logs (kv_rf kv') = logs (kv_rf kv) \<and>
    (\<forall>sm lo. ReadSnapshot (persister (kv_rf kv)) = [GobStateMachine sm, GobLastOperations lo] \<longrightarrow>
       kv_stateMachine kv' = sm \<and> kv_lastOperations kv' = lo)"
proof -
  have ok: "raft_ok (kv_rf kv)" "i < hc_n cfg" using raft_node.reach_inv [OF assms(4)] by (simp_all add: node_inv_def)
  obtain rf where rf: "Make (hc_n cfg) i (Persister_Copy (Persister_Copy (persister (kv_rf kv)))) = Some rf" "currentTerm rf = currentTerm (kv_rf kv)"
      "votedFor rf = votedFor (kv_rf kv)" "logs rf = logs (kv_rf kv)"
    using restart_ok [OF ok] Make_frame by (fastforce simp: Persister_Copy_def)
  define kv' where "kv' = restoreSnapshot (ReadSnapshot (persister (kv_rf kv))) \<lparr>kv_me = 0, kv_rf = rf, kv_dead = False, kv_maxraftstate = kh_maxraftstate cfg,
    kv_lastApplied = 0, kv_stateMachine = NewMemoryKV, kv_lastOperations = Some Map.empty, kv_notifyChans = Some Map.empty, kv_chans = []\<rparr>"
  have s: "StartKVServer (hc_n cfg) i (Persister_Copy (Persister_Copy (persister (kv_rf kv)))) (kh_maxraftstate cfg) = Some kv'"
    using rf(1) by (simp add: StartKVServer_def kv'_def ReadSnapshot_def Persister_Copy_def)
  have "kv_rf kv' = rf" by (simp add: kv'_def restoreSnapshot_def split: option.splits prod.splits)
  moreover have "kv_stateMachine kv' = sm \<and> kv_lastOperations kv' = lo" if "ReadSnapshot (persister (kv_rf kv)) = [GobStateMachine sm, GobLastOperations lo]" for sm lo
    using that by (simp add: kv'_def restoreSnapshot_def)
  moreover obtain cfg1 cfg2 where "ShutdownServer kv_rf i cfg = Some cfg1" "svc_config.more cfg1 = svc_config.more cfg"
      "svc_StartServer (\<lambda>n i ps. StartKVServer n i ps (kh_maxraftstate cfg)) kv_rf (MakeService ''KVServer'' kvm) (MakeService ''Raft'' rfm) names i cfg1 = Some cfg2"
      "hc_servers cfg2 = (hc_servers cfg)[i := Some kv']"
    by (rule svc_restart [OF kvh.reach_inv [OF assms(1)] assms(2,3,5,6), where rfOf = kv_rf and start = "\<lambda>n i ps. StartKVServer n i ps (kh_maxraftstate cfg)", OF s])
  moreover from this(2) have "kh_maxraftstate cfg1 = kh_maxraftstate cfg" by (cases cfg1, cases cfg) simp
  ultimately show ?thesis using rf(2-4)
    by (intro exI [of _ cfg1] exI [of _ cfg2] exI [of _ kv']) (simp add: kv_ShutdownServer_def kv_StartServer_def)
qed

section \<open>Witnesses\<close>

definition svc_names :: "nat \<Rightarrow> nat \<Rightarrow> string" where
  "svc_names i j = [char_of (65 + i), char_of (65 + j)]"

definition demo_kv_config :: "unit kv_config" where
  "demo_kv_config = the (kv_make_config [] [] svc_names 3 False (-1))"

lemma demo_kv_config_reach: "reach kv_harness svc_step demo_kv_config"
proof -
  have "kv_make_config [] [] svc_names 3 False (-1) \<noteq> (None :: unit kv_config option)" by code_simp
  then have "kv_make_config [] [] svc_names 3 False (-1) = Some demo_kv_config" by (simp add: demo_kv_config_def)
  then have "kv_harness demo_kv_config" unfolding kv_harness_def by (intro exI)
  then show ?thesis by (rule reach_init)
qed

lemma demo_kv_config_runs: "hc_n demo_kv_config = 3" "\<forall>i<3. hc_servers demo_kv_config ! i \<noteq> None"
proof -
  show "hc_n demo_kv_config = 3" by code_simp
  have "list_all (\<lambda>s. s \<noteq> None) (hc_servers demo_kv_config) \<and> length (hc_servers demo_kv_config) = 3" by code_simp
  then show "\<forall>i<3. hc_servers demo_kv_config ! i \<noteq> None" by (simp add: list_all_length)
qed

theorem kv_partition_splits_witness:
  "\<exists>p1 p2 cfg'. kv_make_partition (\<lambda>i. demo_kv_config) 3 = Some (p1, p2) \<and> svc_partition p1 p2 demo_kv_config = Some cfg' \<and> length p1 = 2 \<and>
    set (p1 @ p2) = {..<3} \<and> is_enabled (hc_net cfg') (end_at (hc_endnames cfg') 1 2) = (1 \<in> set p1 \<longleftrightarrow> 2 \<in> set p1)"
proof -
  have n: "hc_n demo_kv_config = 2 * 1 + 1" by (simp add: demo_kv_config_runs(1))
  from kv_partition_splits [OF demo_kv_config_reach n, of "\<lambda>i. demo_kv_config"] obtain p1 p2 cfg'
    where "kv_make_partition (\<lambda>i. demo_kv_config) 3 = Some (p1, p2)" "svc_partition p1 p2 demo_kv_config = Some cfg'" "length p1 = 2" "set (p1 @ p2) = {..<3}"
      "\<forall>i<3. \<forall>j<3. is_enabled (hc_net cfg') (end_at (hc_endnames cfg') i j) \<longleftrightarrow> (i \<in> set p1 \<longleftrightarrow> j \<in> set p1)"
    using demo_kv_config_runs by auto
  then show ?thesis by (intro exI [of _ p1] exI [of _ p2] exI [of _ cfg'] conjI) simp_all
qed

theorem kv_harness_links_witness:
  "nw_connections (hc_net demo_kv_config) (end_at (hc_endnames demo_kv_config) 0 2) = Some (Some 2) \<and> server_at (hc_net demo_kv_config) 2 \<noteq> None"
  using kv_harness_links [OF demo_kv_config_reach, of 0 2] demo_kv_config_runs by simp

text \<open>The configuration in which server 1 has just been started.\<close>

definition demo_kv_raft1 :: "(CommandRequest, kv_gob) Raft" where
  "demo_kv_raft1 = the (Make 3 1 MakePersister)"

definition demo_kv_fresh :: "unit kv_config" where
  "demo_kv_fresh = demo_kv_config\<lparr>hc_servers := (hc_servers demo_kv_config)[1 := Some ((the (hc_servers demo_kv_config ! 1))\<lparr>kv_rf := demo_kv_raft1\<rparr>)]\<rparr>"

lemma demo_kv_fresh_reach: "reach kv_harness svc_step demo_kv_fresh"
proof -
  obtain kv where "hc_servers demo_kv_config ! 1 = Some kv" using demo_kv_config_runs(2) by fastforce
  then show ?thesis unfolding demo_kv_fresh_def by (intro reach_step [OF demo_kv_config_reach] svc_step.server)
qed

theorem kv_restart_recovers_witness:
  "\<exists>cfg1 cfg2 kv'. kv_ShutdownServer 1 demo_kv_fresh = Some cfg1 \<and> kv_StartServer [] [] (svc_names 7) 1 cfg1 = Some cfg2 \<and>
    hc_servers cfg2 ! 1 = Some kv' \<and> currentTerm (kv_rf kv') = 0"
proof -
  have n: "hc_n demo_kv_fresh = 3" "length (hc_servers demo_kv_fresh) = 3" by code_simp+
  then have "1 < length (hc_servers demo_kv_config)" by (simp add: demo_kv_fresh_def)
  then obtain kv where kv: "hc_servers demo_kv_fresh ! 1 = Some kv" "kv_rf kv = demo_kv_raft1" by (simp add: demo_kv_fresh_def)
  have "Make 3 1 MakePersister \<noteq> (None :: (CommandRequest, kv_gob) Raft option)" by code_simp
  then have "Make 3 1 MakePersister = Some demo_kv_raft1" by (simp add: demo_kv_raft1_def)
  then have r: "reach (node_init (hc_n demo_kv_fresh) 1) (node_step (hc_n demo_kv_fresh) 1) (kv_rf kv)"
    by (intro reach_init) (simp add: node_init_def n kv(2))
  have names: "distinct (map (svc_names 7) [0..<hc_n demo_kv_fresh])" by code_simp
  have "list_all (\<lambda>e. nw_ends (hc_net demo_kv_fresh) e = None) (map (svc_names 7) [0..<hc_n demo_kv_fresh])" by code_simp
  then have fresh: "set (map (svc_names 7) [0..<hc_n demo_kv_fresh]) \<inter> dom (nw_ends (hc_net demo_kv_fresh)) = {}" by (auto simp: list_all_iff)
  have t: "currentTerm demo_kv_raft1 = 0" by code_simp
  have "1 < hc_n demo_kv_fresh" using n by simp
  from kv_restart_recovers [OF demo_kv_fresh_reach this kv(1) r names fresh, of "[]" "[]"] obtain cfg1 cfg2 kv'
    where "kv_ShutdownServer 1 demo_kv_fresh = Some cfg1" "kv_StartServer [] [] (svc_names 7) 1 cfg1 = Some cfg2"
      "hc_servers cfg2 = (hc_servers demo_kv_fresh)[1 := Some kv']" "currentTerm (kv_rf kv') = currentTerm (kv_rf kv)" by blast
  then show ?thesis using n(2) t kv(2) by (intro exI [of _ cfg1] exI [of _ cfg2] exI [of _ kv']) simp
qed

end
