(* ===== verification/Shard_Harness.thy ===== *)
theory Shard_Harness
  imports Raft_Harness Shard_KV
begin

text \<open>
  The test harness of the sharded service, \<^verbatim>\<open>src/src/shardkv/config.go\<close>: three controllers, three groups of servers and the clerks, on one simulated
  network whose servers have names.  Random names and numbers, and what the controllers answer to the clerks, are arguments.  \<open>None\<close> is a panic, or a
  clerk that waits for ever.  As in the other harnesses the persister of a server that runs is the one in its peer.
\<close>

section \<open>The configuration\<close>

record 's group =
  gg_gid :: int
  gg_servers :: "'s ShardKV option list"
  gg_saved :: "(SkCommand gob, 's) Persister option list"
  gg_endnames :: endnames
  gg_mendnames :: endnames

record ('s, 't, 'w) shard_config =
  sh_net :: "(string, string) Network"
  sh_heap :: "'w Server list"
  sh_nctrlers :: nat
  sh_ctrlerservers :: "'t ShardCtrler option list"
  sh_mck :: "CtrlClerk option"
  sh_ngroups :: nat
  sh_n :: nat
  sh_groups :: "'s group option list"
  sh_clerks :: "(nat, string list) mapref"
  sh_made :: "(string ClientEnd list \<times> SkClerk) list"
  sh_nextClientId :: int
  sh_maxraftstate :: int

definition group_savedOf :: "'s group \<Rightarrow> nat \<Rightarrow> (SkCommand gob, 's) Persister option" where
  "group_savedOf gg i = (case gg_servers gg ! i of Some kv \<Rightarrow> Some (persister (sk_rf kv)) | None \<Rightarrow> gg_saved gg ! i)"

definition ctrlername :: "nat \<Rightarrow> string" where
  "ctrlername i = ''ctrler'' @ itoa (int i)"

definition servername :: "int \<Rightarrow> nat \<Rightarrow> string" where
  "servername gid i = ''server-'' @ itoa gid @ ''-'' @ itoa (int i)"

section \<open>Ends\<close>

text \<open>Ends that are connected and switched on at once.\<close>

fun makeEndsOn :: "(nat \<Rightarrow> string) \<Rightarrow> nat \<Rightarrow> string list \<Rightarrow> (string, string) Network \<Rightarrow> ((string, string) Network \<times> string ClientEnd list) option" where
  "makeEndsOn sname j [] net = Some (net, [])"
| "makeEndsOn sname j (name # names) net = do {
     (net1, e) \<leftarrow> MakeEnd name net;
     (net2, es) \<leftarrow> makeEndsOn sname (j + 1) names (Enable name True (Connect name (sname j) net1));
     Some (net2, e # es)
   }"

text \<open>The function that a clerk or a server gets to make an end for a server with a given name.\<close>

definition make_end :: "string \<Rightarrow> string \<Rightarrow> (string, string) Network \<Rightarrow> ((string, string) Network \<times> string ClientEnd) option" where
  "make_end name sname net = do {
     (net1, e) \<leftarrow> MakeEnd name net;
     Some (Enable name True (Connect name sname net1), e)
   }"

fun switchOff :: "string list \<Rightarrow> (string, string) Network \<Rightarrow> (string, string) Network" where
  "switchOff [] net = net"
| "switchOff (name # names) net = switchOff names (Enable name False net)"

section \<open>Servers\<close>

text \<open>\<^verbatim>\<open>ShutdownServer\<close>: the ends through which the server sends are switched off, as many as the group has servers and as it has names for the controllers.\<close>

definition shard_ShutdownServer :: "nat \<Rightarrow> nat \<Rightarrow> ('s, 't, 'w) shard_config \<Rightarrow> ('s, 't, 'w) shard_config option" where
  "shard_ShutdownServer gi i cfg = do {
     g \<leftarrow> go_index (sh_groups cfg) (int gi);
     gg \<leftarrow> g;
     names \<leftarrow> (if gg_servers gg = [] then Some [] else do {
       ns \<leftarrow> go_index (gg_endnames gg) (int i);
       those (map (\<lambda>j. go_index (the_slice ns) (int j)) [0..<length (gg_servers gg)])
     });
     mnames \<leftarrow> go_index (gg_mendnames gg) (int i);
     let net = DeleteServer (servername (gg_gid gg) i) (switchOff (the_slice mnames) (switchOff names (sh_net cfg)));
     saved \<leftarrow> go_store (gg_saved gg) (int i) (map_option Persister_Copy (group_savedOf gg i));
     servers \<leftarrow> go_store (gg_servers gg) (int i) None;
     Some (cfg\<lparr>sh_net := net, sh_groups := (sh_groups cfg)[gi := Some (gg\<lparr>gg_saved := saved, gg_servers := servers\<rparr>)]\<rparr>)
   }"

definition shard_StartServer :: "'w Method list \<Rightarrow> 'w Method list \<Rightarrow> (nat \<Rightarrow> string) \<Rightarrow> (nat \<Rightarrow> string) \<Rightarrow> nat \<Rightarrow> nat \<Rightarrow> ('s, 't, 'w) shard_config \<Rightarrow>
    ('s, 't, 'w) shard_config option" where
  "shard_StartServer kvm rfm names mnames gi i cfg = do {
     g \<leftarrow> go_index (sh_groups cfg) (int gi);
     gg \<leftarrow> g;
     ens \<leftarrow> go_store (gg_endnames gg) (int i) (Some (map names [0..<sh_n cfg]));
     (net1, ends) \<leftarrow> makeEndsOn (servername (gg_gid gg)) 0 (map names [0..<sh_n cfg]) (sh_net cfg);
     mens \<leftarrow> go_store (gg_mendnames gg) (int i) (Some (map mnames [0..<sh_nctrlers cfg]));
     (net2, mends) \<leftarrow> makeEndsOn ctrlername 0 (map mnames [0..<sh_nctrlers cfg]) net1;
     let ps = (case group_savedOf gg i of Some ps \<Rightarrow> Persister_Copy ps | None \<Rightarrow> MakePersister);
     saved \<leftarrow> go_store (gg_saved gg) (int i) (Some ps);
     kv \<leftarrow> sk_StartServer (length ends) i ps (sh_maxraftstate cfg) (gg_gid gg);
     servers \<leftarrow> go_store (gg_servers gg) (int i) (Some kv);
     let rs = AddService (MakeService ''Raft'' rfm) (AddService (MakeService ''ShardKV'' kvm) MakeServer);
     let net3 = AddServer (servername (gg_gid gg) i) (length (sh_heap cfg)) net2;
     Some (cfg\<lparr>sh_net := net3, sh_heap := sh_heap cfg @ [rs],
       sh_groups := (sh_groups cfg)[gi := Some (gg\<lparr>gg_endnames := ens, gg_mendnames := mens, gg_saved := saved, gg_servers := servers\<rparr>)]\<rparr>)
   }"

fun shutdownLoop :: "nat \<Rightarrow> nat list \<Rightarrow> ('s, 't, 'w) shard_config \<Rightarrow> ('s, 't, 'w) shard_config option" where
  "shutdownLoop gi [] cfg = Some cfg"
| "shutdownLoop gi (i # is) cfg = do { cfg1 \<leftarrow> shard_ShutdownServer gi i cfg; shutdownLoop gi is cfg1 }"

definition ShutdownGroup :: "nat \<Rightarrow> ('s, 't, 'w) shard_config \<Rightarrow> ('s, 't, 'w) shard_config option" where
  "ShutdownGroup gi cfg = shutdownLoop gi [0..<sh_n cfg] cfg"

text \<open>\<open>names i\<close> and \<open>mnames i\<close> are the new names for server \<open>i\<close>.\<close>

fun startGroupLoop :: "'w Method list \<Rightarrow> 'w Method list \<Rightarrow> (nat \<Rightarrow> nat \<Rightarrow> string) \<Rightarrow> (nat \<Rightarrow> nat \<Rightarrow> string) \<Rightarrow> nat \<Rightarrow> nat list \<Rightarrow> ('s, 't, 'w) shard_config \<Rightarrow>
    ('s, 't, 'w) shard_config option" where
  "startGroupLoop kvm rfm names mnames gi [] cfg = Some cfg"
| "startGroupLoop kvm rfm names mnames gi (i # is) cfg = do {
     cfg1 \<leftarrow> shard_StartServer kvm rfm (names i) (mnames i) gi i cfg;
     startGroupLoop kvm rfm names mnames gi is cfg1
   }"

definition StartGroup :: "'w Method list \<Rightarrow> 'w Method list \<Rightarrow> (nat \<Rightarrow> nat \<Rightarrow> string) \<Rightarrow> (nat \<Rightarrow> nat \<Rightarrow> string) \<Rightarrow> nat \<Rightarrow> ('s, 't, 'w) shard_config \<Rightarrow>
    ('s, 't, 'w) shard_config option" where
  "StartGroup kvm rfm names mnames gi cfg = startGroupLoop kvm rfm names mnames gi [0..<sh_n cfg] cfg"

section \<open>Controllers\<close>

definition StartCtrlerserver :: "'w Method list \<Rightarrow> 'w Method list \<Rightarrow> (nat \<Rightarrow> string) \<Rightarrow> nat \<Rightarrow> ('s, 't, 'w) shard_config \<Rightarrow> ('s, 't, 'w) shard_config option" where
  "StartCtrlerserver mm rfm names i cfg = do {
     (net1, ends) \<leftarrow> makeEndsOn ctrlername 0 (map names [0..<sh_nctrlers cfg]) (sh_net cfg);
     sc \<leftarrow> ctrl_StartServer (length ends) i MakePersister;
     servers \<leftarrow> go_store (sh_ctrlerservers cfg) (int i) (Some sc);
     let rs = AddService (MakeService ''Raft'' rfm) (AddService (MakeService ''ShardCtrler'' mm) MakeServer);
     let net2 = AddServer (ctrlername i) (length (sh_heap cfg)) net1;
     Some (cfg\<lparr>sh_net := net2, sh_ctrlerservers := servers, sh_heap := sh_heap cfg @ [rs]\<rparr>)
   }"

definition shardclerk :: "int \<Rightarrow> (nat \<Rightarrow> string) \<Rightarrow> ('s, 't, 'w) shard_config \<Rightarrow> (('s, 't, 'w) shard_config \<times> CtrlClerk) option" where
  "shardclerk nrand names cfg = do {
     (net1, ends) \<leftarrow> makeEndsOn ctrlername 0 (map names [0..<sh_nctrlers cfg]) (sh_net cfg);
     Some (cfg\<lparr>sh_net := net1\<rparr>, ctrl_MakeClerk (length ends) nrand)
   }"

text \<open>The names of the servers of the given groups, by group id.\<close>

fun joinLoop :: "nat list \<Rightarrow> (int, string list) gomap \<Rightarrow> ('s, 't, 'w) shard_config \<Rightarrow> (int, string list) gomap option" where
  "joinLoop [] m cfg = Some m"
| "joinLoop (g # gs) m cfg = do {
     gr \<leftarrow> go_index (sh_groups cfg) (int g);
     gg \<leftarrow> gr;
     joinLoop gs (AList.update (gg_gid gg) (map (servername (gg_gid gg)) [0..<sh_n cfg]) m) cfg
   }"

definition joinm :: "nat list \<Rightarrow> CtrlResponse option list \<Rightarrow> ('s, 't, 'w) shard_config \<Rightarrow> ('s, 't, 'w) shard_config option" where
  "joinm gis answers cfg = do {
     m \<leftarrow> joinLoop gis [] cfg;
     mck \<leftarrow> sh_mck cfg;
     (mck1, _) \<leftarrow> ctrl_Clerk_Join m answers mck;
     Some (cfg\<lparr>sh_mck := Some mck1\<rparr>)
   }"

definition shard_join :: "nat \<Rightarrow> CtrlResponse option list \<Rightarrow> ('s, 't, 'w) shard_config \<Rightarrow> ('s, 't, 'w) shard_config option" where
  "shard_join gi answers cfg = joinm [gi] answers cfg"

fun leaveLoop :: "nat list \<Rightarrow> ('s, 't, 'w) shard_config \<Rightarrow> int list option" where
  "leaveLoop [] cfg = Some []"
| "leaveLoop (g # gs) cfg = do {
     gr \<leftarrow> go_index (sh_groups cfg) (int g);
     gg \<leftarrow> gr;
     gids \<leftarrow> leaveLoop gs cfg;
     Some (gg_gid gg # gids)
   }"

definition leavem :: "nat list \<Rightarrow> CtrlResponse option list \<Rightarrow> ('s, 't, 'w) shard_config \<Rightarrow> ('s, 't, 'w) shard_config option" where
  "leavem gis answers cfg = do {
     gids \<leftarrow> leaveLoop gis cfg;
     mck \<leftarrow> sh_mck cfg;
     (mck1, _) \<leftarrow> ctrl_Clerk_Leave gids answers mck;
     Some (cfg\<lparr>sh_mck := Some mck1\<rparr>)
   }"

definition shard_leave :: "nat \<Rightarrow> CtrlResponse option list \<Rightarrow> ('s, 't, 'w) shard_config \<Rightarrow> ('s, 't, 'w) shard_config option" where
  "shard_leave gi answers cfg = leavem [gi] answers cfg"

section \<open>Clients\<close>

text \<open>
  The ends of a new clerk for the controllers.  Their names are stored in a slice as long as a group has servers, not as
  there are controllers.
\<close>

fun clientEndsLoop :: "(nat \<Rightarrow> string) \<Rightarrow> nat list \<Rightarrow> string list \<Rightarrow> (string, string) Network \<Rightarrow> (string list \<times> string ClientEnd list \<times> (string, string) Network) option" where
  "clientEndsLoop names [] endnames net = Some (endnames, [], net)"
| "clientEndsLoop names (j # js) endnames net = do {
     endnames1 \<leftarrow> go_store endnames (int j) (names j);
     (net1, e) \<leftarrow> MakeEnd (names j) net;
     (endnames2, es, net2) \<leftarrow> clientEndsLoop names js endnames1 (Enable (names j) True (Connect (names j) (ctrlername j) net1));
     Some (endnames2, e # es, net2)
   }"

definition shard_makeClient :: "int \<Rightarrow> int \<Rightarrow> CtrlResponse option list \<Rightarrow> (nat \<Rightarrow> string) \<Rightarrow> ('s, 't, 'w) shard_config \<Rightarrow> (('s, 't, 'w) shard_config \<times> nat) option" where
  "shard_makeClient nrand1 nrand2 answers names cfg = do {
     (endnames, ends, net1) \<leftarrow> clientEndsLoop names [0..<sh_nctrlers cfg] (replicate (sh_n cfg) '''') (sh_net cfg);
     ck \<leftarrow> sk_MakeClerk (length ends) nrand1 nrand2 answers;
     clerks \<leftarrow> mr_set (sh_clerks cfg) (length (sh_made cfg)) endnames;
     Some (cfg\<lparr>sh_net := net1, sh_clerks := clerks, sh_made := sh_made cfg @ [(ends, ck)], sh_nextClientId := sh_nextClientId cfg + 1\<rparr>, length (sh_made cfg))
   }"

definition shard_deleteClient :: "nat \<Rightarrow> ('s, 't, 'w) shard_config \<Rightarrow> ('s, 't, 'w) shard_config" where
  "shard_deleteClient ck cfg = cfg\<lparr>sh_clerks := mr_delete (sh_clerks cfg) ck\<rparr>"

section \<open>Checks\<close>

datatype log_failure = NilPersister | StateTooBig int int | SnapshotNotEmpty

text \<open>The two checks for one server.\<close>

definition checkSaved :: "(SkCommand gob list \<Rightarrow> int) \<Rightarrow> int \<Rightarrow> (SkCommand gob, 's) Persister \<Rightarrow> log_failure option" where
  "checkSaved size_of maxraftstate ps =
     (let raft = RaftStateSize size_of ps; snap = length (ReadSnapshot ps) in
      if maxraftstate \<ge> 0 \<and> raft > 8 * maxraftstate then Some (StateTooBig raft maxraftstate)
      else if maxraftstate < 0 \<and> snap > 0 then Some SnapshotNotEmpty
      else None)"

fun checkGroupLoop :: "(SkCommand gob list \<Rightarrow> int) \<Rightarrow> int \<Rightarrow> 's group \<Rightarrow> nat list \<Rightarrow> log_failure option" where
  "checkGroupLoop size_of maxraftstate gg [] = None"
| "checkGroupLoop size_of maxraftstate gg (i # is) =
     (case group_savedOf gg i of
        None \<Rightarrow> Some NilPersister
      | Some ps \<Rightarrow>
          (case checkSaved size_of maxraftstate ps of
             Some e \<Rightarrow> Some e
           | None \<Rightarrow> checkGroupLoop size_of maxraftstate gg is))"

fun checklogsLoop :: "(SkCommand gob list \<Rightarrow> int) \<Rightarrow> int \<Rightarrow> nat \<Rightarrow> 's group option list \<Rightarrow> log_failure option" where
  "checklogsLoop size_of maxraftstate n [] = None"
| "checklogsLoop size_of maxraftstate n (g # gs) =
     (case g of
        None \<Rightarrow> Some NilPersister
      | Some gg \<Rightarrow>
          (case checkGroupLoop size_of maxraftstate gg [0..<n] of
             Some e \<Rightarrow> Some e
           | None \<Rightarrow> checklogsLoop size_of maxraftstate n gs))"

definition checklogs :: "(SkCommand gob list \<Rightarrow> int) \<Rightarrow> ('s, 't, 'w) shard_config \<Rightarrow> log_failure option" where
  "checklogs size_of cfg = checklogsLoop size_of (sh_maxraftstate cfg) (sh_n cfg) (sh_groups cfg)"

fun shutdownGroupsLoop :: "nat list \<Rightarrow> ('s, 't, 'w) shard_config \<Rightarrow> ('s, 't, 'w) shard_config option" where
  "shutdownGroupsLoop [] cfg = Some cfg"
| "shutdownGroupsLoop (gi # gis) cfg = do { cfg1 \<leftarrow> ShutdownGroup gi cfg; shutdownGroupsLoop gis cfg1 }"

text \<open>\<^verbatim>\<open>Kill\<close> on a controller that is nil panics.\<close>

definition shard_cleanup :: "bool \<Rightarrow> int \<Rightarrow> ('s, 't, 'w) shard_config \<Rightarrow> (('s, 't, 'w) shard_config \<times> (failure + unit)) option" where
  "shard_cleanup failed seconds cfg = do {
     cfg1 \<leftarrow> shutdownGroupsLoop [0..<sh_ngroups cfg] cfg;
     killed \<leftarrow> those (map (map_option ShardCtrler_Kill) (take (sh_nctrlers cfg1) (sh_ctrlerservers cfg1)));
     net \<leftarrow> Cleanup (sh_net cfg1);
     Some (cfg1\<lparr>sh_ctrlerservers := map Some killed @ drop (sh_nctrlers cfg1) (sh_ctrlerservers cfg1), sh_net := net\<rparr>, checkTimeout failed seconds)
   }"

section \<open>Making a configuration\<close>

fun ctrlerLoop :: "'w Method list \<Rightarrow> 'w Method list \<Rightarrow> (nat \<Rightarrow> nat \<Rightarrow> string) \<Rightarrow> nat list \<Rightarrow> ('s, 't, 'w) shard_config \<Rightarrow> ('s, 't, 'w) shard_config option" where
  "ctrlerLoop mm rfm names [] cfg = Some cfg"
| "ctrlerLoop mm rfm names (i # is) cfg = do { cfg1 \<leftarrow> StartCtrlerserver mm rfm (names i) i cfg; ctrlerLoop mm rfm names is cfg1 }"

text \<open>The names of the ends for the controllers are stored in a slice as long as there are controllers, not as the group has servers.\<close>

definition new_group :: "nat \<Rightarrow> nat \<Rightarrow> nat \<Rightarrow> 's group" where
  "new_group gi n nctrlers = \<lparr>gg_gid = 100 + int gi, gg_servers = replicate n None, gg_saved = replicate n None,
     gg_endnames = replicate n None, gg_mendnames = replicate nctrlers None\<rparr>"

fun groupLoop :: "'w Method list \<Rightarrow> 'w Method list \<Rightarrow> (nat \<Rightarrow> nat \<Rightarrow> nat \<Rightarrow> string) \<Rightarrow> (nat \<Rightarrow> nat \<Rightarrow> nat \<Rightarrow> string) \<Rightarrow> nat list \<Rightarrow> ('s, 't, 'w) shard_config \<Rightarrow>
    ('s, 't, 'w) shard_config option" where
  "groupLoop kvm rfm names mnames [] cfg = Some cfg"
| "groupLoop kvm rfm names mnames (gi # gis) cfg = do {
     cfg1 \<leftarrow> StartGroup kvm rfm (names gi) (mnames gi) gi (cfg\<lparr>sh_groups := (sh_groups cfg)[gi := Some (new_group gi (sh_n cfg) (sh_nctrlers cfg))]\<rparr>);
     groupLoop kvm rfm names mnames gis cfg1
   }"

definition shard_new_config :: "int \<Rightarrow> ('s, 't, 'w) shard_config" where
  "shard_new_config maxraftstate = \<lparr>sh_net = MakeNetwork, sh_heap = [], sh_nctrlers = 3, sh_ctrlerservers = replicate 3 None, sh_mck = None,
     sh_ngroups = 0, sh_n = 0, sh_groups = [], sh_clerks = None, sh_made = [], sh_nextClientId = 0, sh_maxraftstate = maxraftstate\<rparr>"

text \<open>\<open>cnames\<close>, \<open>knames\<close>, \<open>names\<close> and \<open>mnames\<close> are the random names for the controllers, the harness's own clerk and the servers.\<close>

definition shard_make_config :: "'w Method list \<Rightarrow> 'w Method list \<Rightarrow> 'w Method list \<Rightarrow> (nat \<Rightarrow> nat \<Rightarrow> string) \<Rightarrow> (nat \<Rightarrow> string) \<Rightarrow>
    (nat \<Rightarrow> nat \<Rightarrow> nat \<Rightarrow> string) \<Rightarrow> (nat \<Rightarrow> nat \<Rightarrow> nat \<Rightarrow> string) \<Rightarrow> int \<Rightarrow> nat \<Rightarrow> bool \<Rightarrow> int \<Rightarrow> ('s, 't, 'w) shard_config option" where
  "shard_make_config mm kvm rfm cnames knames names mnames nrand n unreliable maxraftstate = do {
     cfg1 \<leftarrow> ctrlerLoop mm rfm cnames [0..<3] (shard_new_config maxraftstate);
     (cfg2, mck) \<leftarrow> shardclerk nrand knames cfg1;
     cfg3 \<leftarrow> groupLoop kvm rfm names mnames [0..<3] (cfg2\<lparr>sh_mck := Some mck, sh_ngroups := 3, sh_groups := replicate 3 None, sh_n := n\<rparr>);
     Some (cfg3\<lparr>sh_clerks := Some Map.empty, sh_nextClientId := int n + 1000, sh_net := Reliable (\<not> unreliable) (sh_net cfg3)\<rparr>)
   }"

end
