(* ===== verification/Shard_Harness_Props.thy ===== *)
theory Shard_Harness_Props
  imports Shard_Harness
begin

text \<open>
  What the harness of the sharded service guarantees: names of servers do not clash, the names that a group joins with
  lead to its servers, servers that have been shut down can send nothing; and for which numbers of servers the harness works.
\<close>

section \<open>Names\<close>

lemma itoa_no_dash: "0 \<le> i \<Longrightarrow> CHR ''-'' \<notin> set (itoa i)"
  using digits_no_dash by (simp add: itoa_def)

lemma servername_inj: "servername (100 + int a) i = servername (100 + int b) j \<longleftrightarrow> a = b \<and> i = j"
proof
  assume "servername (100 + int a) i = servername (100 + int b) j"
  then have "itoa (100 + int a) @ CHR ''-'' # digits i = itoa (100 + int b) @ CHR ''-'' # digits j" by (simp add: servername_def)
  then have e: "itoa (100 + int a) = itoa (100 + int b)" "digits i = digits j" using append_dash_inj itoa_no_dash by (metis of_nat_0_le_iff add_nonneg_nonneg zero_le_numeral)+
  have "itoa (100 + int c) = digits (100 + c)" for c by (metis itoa_nat of_nat_add of_nat_numeral)
  then show "a = b \<and> i = j" using e digits_inj by fastforce
qed simp

lemma ctrlername_servername: "ctrlername i \<noteq> servername gid j" "servername gid j \<noteq> ctrlername i"
  by (simp_all add: ctrlername_def servername_def)

lemma ctrlername_inj: "ctrlername i = ctrlername j \<longleftrightarrow> i = j"
  using digits_inj by (auto simp: ctrlername_def)

section \<open>Changes of the network\<close>

text \<open>Nothing happens to the ends that exist, and to the servers; there may be new ends.\<close>

definition net_grows :: "(string, string) Network \<Rightarrow> (string, string) Network \<Rightarrow> bool" where
  "net_grows net net' \<longleftrightarrow> nw_servers net' = nw_servers net \<and>
     (\<forall>e. nw_ends net e \<noteq> None \<longrightarrow> nw_ends net' e \<noteq> None \<and> nw_connections net' e = nw_connections net e \<and> is_enabled net' e = is_enabled net e)"

definition leads_to :: "(string, string) Network \<Rightarrow> string \<Rightarrow> string \<Rightarrow> bool" where
  "leads_to net e s \<longleftrightarrow> nw_ends net e \<noteq> None \<and> nw_connections net e = Some (Some s)"

lemma net_grows_refl [simp]: "net_grows net net"
  by (simp add: net_grows_def)

lemma net_grows_trans: "net_grows a b \<Longrightarrow> net_grows b c \<Longrightarrow> net_grows a c"
  by (simp add: net_grows_def)

lemma net_grows_leads: "net_grows net net' \<Longrightarrow> leads_to net e s \<Longrightarrow> leads_to net' e s \<and> is_enabled net' e = is_enabled net e"
  by (auto simp: net_grows_def leads_to_def)

lemma net_grows_server [simp]: "net_grows net net' \<Longrightarrow> server_at net' v = server_at net v"
  by (simp add: net_grows_def server_at_def)

lemma new_end_grows:
  assumes "MakeEnd name net = Some (net1, e)"
  shows "net_grows net (Enable name True (Connect name s net1)) \<and> leads_to (Enable name True (Connect name s net1)) name s \<and>
    is_enabled (Enable name True (Connect name s net1)) name"
proof -
  have "nw_ends net name = None" using assms by (simp add: MakeEnd_def split: if_splits)
  then show ?thesis using assms
    by (auto simp: MakeEnd_def Let_def net_grows_def leads_to_def Connect_def Enable_def is_enabled_def split: if_splits)
qed

lemma makeEndsOn_grows:
  assumes "makeEndsOn sname j names net = Some (net', es)"
  shows "net_grows net net' \<and> length es = length names \<and> (\<forall>k<length names. leads_to net' (names ! k) (sname (j + k)) \<and> is_enabled net' (names ! k))"
  using assms
proof (induction sname j names net arbitrary: es rule: makeEndsOn.induct)
  case (2 sname j name names net)
  obtain net1 e es1 where m: "MakeEnd name net = Some (net1, e)" "es = e # es1"
      "makeEndsOn sname (j + 1) names (Enable name True (Connect name (sname j) net1)) = Some (net', es1)"
    using 2(2) by (auto simp: bind_eq_Some_conv)
  note new = new_end_grows [OF m(1), of "sname j"]
  note IH = 2(1) [OF m(1) refl m(3)]
  have "leads_to net' ((name # names) ! k) (sname (j + k)) \<and> is_enabled net' ((name # names) ! k)" if "k < length (name # names)" for k
  proof (cases k)
    case 0
    have "net_grows (Enable name True (Connect name (sname j) net1)) net'" using IH by simp
    then show ?thesis using net_grows_leads [of _ net' name "sname j"] new 0 by auto
  qed (use IH that in simp)
  then show ?case using new IH m(2) net_grows_trans by auto
qed simp

lemma clientEndsLoop_grows:
  "clientEndsLoop names js endnames net = Some (endnames', es, net') \<Longrightarrow> net_grows net net' \<and> (\<forall>j\<in>set js. j < length endnames)"
proof (induction names js endnames net arbitrary: es rule: clientEndsLoop.induct)
  case (2 names j js endnames net)
  obtain endnames1 net1 e es1 where m: "go_store endnames (int j) (names j) = Some endnames1" "MakeEnd (names j) net = Some (net1, e)"
      "clientEndsLoop names js endnames1 (Enable (names j) True (Connect (names j) (ctrlername j) net1)) = Some (endnames', es1, net')"
    using 2(2) by (auto simp: bind_eq_Some_conv)
  have "j < length endnames" "length endnames1 = length endnames" using m(1) by (auto simp: go_store_eq_Some)
  then show ?case using 2(1) [OF m(1,2) refl m(3)] new_end_grows [OF m(2)] net_grows_trans by auto
qed simp

lemma switchOff_net: "nw_ends (switchOff names net) = nw_ends net \<and> nw_connections (switchOff names net) = nw_connections net \<and>
    nw_servers (switchOff names net) = nw_servers net \<and> is_enabled (switchOff names net) e = (e \<notin> set names \<and> is_enabled net e)"
  by (induction names arbitrary: net) (auto simp: Enable_def is_enabled_def)

section \<open>The invariant\<close>

text \<open>The ends that server \<open>i\<close> sends through: those for its group and those for the controllers.\<close>

definition ends_ok :: "(string, string) Network \<Rightarrow> nat \<Rightarrow> (nat \<Rightarrow> string) \<Rightarrow> bool \<Rightarrow> string list option \<Rightarrow> bool" where
  "ends_ok net k sname stopped names \<longleftrightarrow>
     (case names of
        None \<Rightarrow> stopped
      | Some ns \<Rightarrow> length ns = k \<and> (\<forall>j<k. leads_to net (ns ! j) (sname j) \<and> (stopped \<longrightarrow> \<not> is_enabled net (ns ! j))))"

definition server_ok :: "(string, string) Network \<Rightarrow> nat \<Rightarrow> nat \<Rightarrow> 's group \<Rightarrow> nat \<Rightarrow> bool" where
  "server_ok net n nc gg i \<longleftrightarrow>
     (server_at net (servername (gg_gid gg) i) = None \<longleftrightarrow> gg_servers gg ! i = None) \<and>
     ends_ok net n (servername (gg_gid gg)) (gg_servers gg ! i = None) (gg_endnames gg ! i) \<and>
     (if i < nc then ends_ok net nc ctrlername (gg_servers gg ! i = None) (gg_mendnames gg ! i) else gg_servers gg ! i = None)"

definition group_ok :: "(string, string) Network \<Rightarrow> nat \<Rightarrow> nat \<Rightarrow> nat \<Rightarrow> 's group \<Rightarrow> bool" where
  "group_ok net n nc gi gg \<longleftrightarrow> gg_gid gg = 100 + int gi \<and> length (gg_servers gg) = n \<and> length (gg_saved gg) = n \<and> length (gg_endnames gg) = n \<and>
     length (gg_mendnames gg) = nc \<and> (\<forall>i<n. server_ok net n nc gg i)"

definition shard_inv :: "('s, 't, 'w) shard_config \<Rightarrow> bool" where
  "shard_inv cfg \<longleftrightarrow> length (sh_groups cfg) = sh_ngroups cfg \<and>
     (\<forall>gi < sh_ngroups cfg. \<forall>gg. sh_groups cfg ! gi = Some gg \<longrightarrow> group_ok (sh_net cfg) (sh_n cfg) (sh_nctrlers cfg) gi gg) \<and>
     (\<forall>gi i. sh_ngroups cfg \<le> gi \<or> sh_groups cfg ! gi = None \<longrightarrow> server_at (sh_net cfg) (servername (100 + int gi) i) = None)"

text \<open>Ends that exist stay, and none of them is switched on.\<close>

definition net_keeps :: "(string, string) Network \<Rightarrow> (string, string) Network \<Rightarrow> bool" where
  "net_keeps net net' \<longleftrightarrow> (\<forall>e. nw_ends net e \<noteq> None \<longrightarrow>
     nw_ends net' e \<noteq> None \<and> nw_connections net' e = nw_connections net e \<and> (is_enabled net' e \<longrightarrow> is_enabled net e))"

lemma net_grows_keeps: "net_grows net net' \<Longrightarrow> net_keeps net net'"
  by (simp add: net_grows_def net_keeps_def)

lemma ends_ok_keeps: "net_keeps net net' \<Longrightarrow> ends_ok net k sname stopped names \<Longrightarrow> ends_ok net' k sname stopped names"
  by (fastforce simp: ends_ok_def net_keeps_def leads_to_def split: option.splits)

lemma server_ok_keeps:
  assumes "net_keeps net net'" "server_at net' (servername (gg_gid gg) i) = server_at net (servername (gg_gid gg) i)" "server_ok net n nc gg i"
  shows "server_ok net' n nc gg i"
  using assms ends_ok_keeps [OF assms(1)] by (auto simp: server_ok_def split: if_splits)

lemma group_ok_keeps:
  assumes "net_keeps net net'" "\<And>i. server_at net' (servername (100 + int gi) i) = server_at net (servername (100 + int gi) i)" "group_ok net n nc gi gg"
  shows "group_ok net' n nc gi gg"
  using assms(3) unfolding group_ok_def by (auto intro: server_ok_keeps [OF assms(1)] simp: assms(2))

lemma shard_inv_grows:
  assumes "shard_inv cfg" "net_grows (sh_net cfg) (sh_net cfg')" "sh_groups cfg' = sh_groups cfg" "sh_ngroups cfg' = sh_ngroups cfg"
    "sh_n cfg' = sh_n cfg" "sh_nctrlers cfg' = sh_nctrlers cfg"
  shows "shard_inv cfg'"
proof -
  have "group_ok (sh_net cfg') (sh_n cfg) (sh_nctrlers cfg) gi gg" if "gi < sh_ngroups cfg" "sh_groups cfg ! gi = Some gg" for gi gg
    by (rule group_ok_keeps [OF net_grows_keeps [OF assms(2)] net_grows_server [OF assms(2)]]) (use assms(1) that in \<open>auto simp: shard_inv_def\<close>)
  then show ?thesis using assms(1) net_grows_server [OF assms(2)] by (simp add: shard_inv_def assms(3-6))
qed

lemma shard_inv_group:
  assumes inv: "shard_inv cfg" and gi: "gi < sh_ngroups cfg" and keeps: "net_keeps (sh_net cfg) net"
    and servers: "\<And>gj i. gj \<noteq> gi \<Longrightarrow> server_at net (servername (100 + int gj) i) = server_at (sh_net cfg) (servername (100 + int gj) i)"
    and gg: "group_ok net (sh_n cfg) (sh_nctrlers cfg) gi gg"
  shows "shard_inv (cfg\<lparr>sh_net := net, sh_groups := (sh_groups cfg)[gi := Some gg]\<rparr>)"
proof -
  have l: "length (sh_groups cfg) = sh_ngroups cfg" using inv by (simp add: shard_inv_def)
  have "group_ok net (sh_n cfg) (sh_nctrlers cfg) gj g" if gj: "gj < sh_ngroups cfg" "(sh_groups cfg)[gi := Some gg] ! gj = Some g" for gj g
  proof (cases "gj = gi")
    case False
    then have "group_ok (sh_net cfg) (sh_n cfg) (sh_nctrlers cfg) gj g" using inv gj by (simp add: shard_inv_def)
    then show ?thesis by (rule group_ok_keeps [OF keeps servers [OF False]])
  qed (use gj gg gi l in simp)
  moreover have "server_at net (servername (100 + int gj) i) = None" if "sh_ngroups cfg \<le> gj \<or> (sh_groups cfg)[gi := Some gg] ! gj = None" for gj i
  proof -
    have "gj \<noteq> gi" using that gi l by auto
    then show ?thesis using that inv servers by (auto simp: shard_inv_def)
  qed
  ultimately show ?thesis using l by (simp add: shard_inv_def)
qed

lemma those_prefix:
  assumes "those (map (\<lambda>j. go_index ns (int j)) [0..<k]) = Some xs"
  shows "k \<le> length ns \<and> xs = take k ns"
proof -
  have e: "map (\<lambda>j. go_index ns (int j)) [0..<k] = map Some xs" using assms by (simp add: those_eq_Some)
  then have len: "length xs = k" by (metis length_map length_upt minus_nat.diff_0)
  have at: "j < length ns \<and> xs ! j = ns ! j" if "j < k" for j
  proof -
    have "go_index ns (int j) = Some (xs ! j)" using arg_cong [OF e, of "\<lambda>l. l ! j"] that len by simp
    then show ?thesis by (simp add: go_index_eq_Some)
  qed
  have "k \<le> length ns" using at [of "k - 1"] by (cases k) auto
  then show ?thesis using at len by (auto intro: nth_equalityI)
qed

lemma shutdown_result:
  assumes inv: "shard_inv cfg" and c: "shard_ShutdownServer gi i cfg = Some cfg'"
  obtains gg saved where "gi < sh_ngroups cfg" "group_ok (sh_net cfg) (sh_n cfg) (sh_nctrlers cfg) gi gg" "i < sh_n cfg" "i < sh_nctrlers cfg"
    "sh_n cfg \<le> length (the_slice (gg_endnames gg ! i))" "length saved = sh_n cfg"
    "cfg' = cfg\<lparr>sh_net := DeleteServer (servername (gg_gid gg) i) (switchOff (the_slice (gg_mendnames gg ! i))
        (switchOff (take (sh_n cfg) (the_slice (gg_endnames gg ! i))) (sh_net cfg))),
      sh_groups := (sh_groups cfg)[gi := Some (gg\<lparr>gg_saved := saved, gg_servers := (gg_servers gg)[i := None]\<rparr>)]\<rparr>"
proof -
  obtain gg names mnames saved servers where g: "go_index (sh_groups cfg) (int gi) = Some (Some gg)"
      "(if gg_servers gg = [] then Some [] else do {
         ns \<leftarrow> go_index (gg_endnames gg) (int i);
         those (map (\<lambda>j. go_index (the_slice ns) (int j)) [0..<length (gg_servers gg)])
       }) = Some names"
      "go_index (gg_mendnames gg) (int i) = Some mnames" "go_store (gg_servers gg) (int i) None = Some servers"
      "go_store (gg_saved gg) (int i) (map_option Persister_Copy (group_savedOf gg i)) = Some saved"
    and cfg': "cfg' = cfg\<lparr>sh_net := DeleteServer (servername (gg_gid gg) i) (switchOff (the_slice mnames) (switchOff names (sh_net cfg))),
      sh_groups := (sh_groups cfg)[gi := Some (gg\<lparr>gg_saved := saved, gg_servers := servers\<rparr>)]\<rparr>"
    using c unfolding shard_ShutdownServer_def Let_def by (fastforce simp: bind_eq_Some_conv)
  have gi: "gi < sh_ngroups cfg" "sh_groups cfg ! gi = Some gg" using g(1) inv by (auto simp: go_index_eq_Some shard_inv_def)
  then have ok: "group_ok (sh_net cfg) (sh_n cfg) (sh_nctrlers cfg) gi gg" using inv by (simp add: shard_inv_def)
  then have gid: "gg_gid gg = 100 + int gi" and len: "length (gg_servers gg) = sh_n cfg" "length (gg_saved gg) = sh_n cfg" "length (gg_endnames gg) = sh_n cfg"
      "length (gg_mendnames gg) = sh_nctrlers cfg" by (simp_all add: group_ok_def)
  have i: "i < sh_n cfg" "i < sh_nctrlers cfg" "mnames = gg_mendnames gg ! i" "servers = (gg_servers gg)[i := None]" "length saved = sh_n cfg"
    using g(3-5) len by (auto simp: go_index_eq_Some go_store_eq_Some)
  then have ne: "gg_servers gg \<noteq> []" using len by auto
  have "go_index (gg_endnames gg) (int i) = Some (gg_endnames gg ! i)" using i(1) len(3) by (simp add: go_simps)
  then have names: "sh_n cfg \<le> length (the_slice (gg_endnames gg ! i))" "names = take (sh_n cfg) (the_slice (gg_endnames gg ! i))"
    using g(2) ne those_prefix [of "the_slice (gg_endnames gg ! i)" "sh_n cfg" names] len(1) by auto
  show ?thesis by (rule that [OF gi(1) ok i(1,2) names(1) i(5)]) (simp add: cfg' names(2) i(3,4))
qed

lemma shutdown_server_inv:
  assumes inv: "shard_inv cfg" and c: "shard_ShutdownServer gi i cfg = Some cfg'"
  shows "shard_inv cfg' \<and> sh_n cfg' = sh_n cfg"
proof (rule shutdown_result [OF assms])
  fix gg saved
  assume gi: "gi < sh_ngroups cfg" and ok: "group_ok (sh_net cfg) (sh_n cfg) (sh_nctrlers cfg) gi gg" and i: "i < sh_n cfg" "i < sh_nctrlers cfg"
    and names: "sh_n cfg \<le> length (the_slice (gg_endnames gg ! i))" and saved: "length saved = sh_n cfg"
    and cfg0: "cfg' = cfg\<lparr>sh_net := DeleteServer (servername (gg_gid gg) i) (switchOff (the_slice (gg_mendnames gg ! i))
        (switchOff (take (sh_n cfg) (the_slice (gg_endnames gg ! i))) (sh_net cfg))),
      sh_groups := (sh_groups cfg)[gi := Some (gg\<lparr>gg_saved := saved, gg_servers := (gg_servers gg)[i := None]\<rparr>)]\<rparr>"
  let ?gg = "gg\<lparr>gg_saved := saved, gg_servers := (gg_servers gg)[i := None]\<rparr>" and ?ms = "the_slice (gg_mendnames gg ! i)"
    and ?ns = "take (sh_n cfg) (the_slice (gg_endnames gg ! i))"
  define net where "net = DeleteServer (servername (gg_gid gg) i) (switchOff ?ms (switchOff ?ns (sh_net cfg)))"
  note cfg' = cfg0 [folded net_def]
  have gid: "gg_gid gg = 100 + int gi" and len: "length (gg_servers gg) = sh_n cfg" "length (gg_endnames gg) = sh_n cfg"
    "length (gg_mendnames gg) = sh_nctrlers cfg" using ok by (simp_all add: group_ok_def)
  have frame: "nw_ends net = nw_ends (sh_net cfg)" "nw_connections net = nw_connections (sh_net cfg)"
      "is_enabled net e = (e \<notin> set ?ms \<and> e \<notin> set ?ns \<and> is_enabled (sh_net cfg) e)" for e
    using switchOff_net by (auto simp: net_def DeleteServer_def is_enabled_def)
  have keeps: "net_keeps (sh_net cfg) net" using frame by (simp add: net_keeps_def)
  have sa: "server_at net s = (if s = servername (gg_gid gg) i then None else server_at (sh_net cfg) s)" for s
    using switchOff_net by (simp add: net_def DeleteServer_def server_at_def)
  have "server_ok net (sh_n cfg) (sh_nctrlers cfg) ?gg k" if k: "k < sh_n cfg" for k
  proof (cases "k = i")
    case False
    have "server_at net (servername (gg_gid gg) k) = server_at (sh_net cfg) (servername (gg_gid gg) k)" unfolding sa using False by (simp add: gid servername_inj)
    then have "server_ok net (sh_n cfg) (sh_nctrlers cfg) gg k" by (rule server_ok_keeps [OF keeps]) (use ok k in \<open>simp add: group_ok_def\<close>)
    then show ?thesis using False by (simp add: server_ok_def)
  next
    case True
    have "server_ok (sh_net cfg) (sh_n cfg) (sh_nctrlers cfg) gg i" using ok i(1) by (simp add: group_ok_def)
    then have e: "ends_ok (sh_net cfg) (sh_n cfg) (servername (gg_gid gg)) (gg_servers gg ! i = None) (gg_endnames gg ! i)"
      "ends_ok (sh_net cfg) (sh_nctrlers cfg) ctrlername (gg_servers gg ! i = None) (gg_mendnames gg ! i)" using i(2) by (auto simp: server_ok_def)
    have "ends_ok net (sh_n cfg) (servername (gg_gid gg)) True (gg_endnames gg ! i)"
      using ends_ok_keeps [OF keeps e(1)] frame(3) names by (auto simp: ends_ok_def the_slice_def split: option.splits)
    moreover have "ends_ok net (sh_nctrlers cfg) ctrlername True (gg_mendnames gg ! i)"
      using ends_ok_keeps [OF keeps e(2)] frame(3) by (auto simp: ends_ok_def the_slice_def split: option.splits)
    ultimately show ?thesis using True i len by (simp add: server_ok_def sa)
  qed
  then have "group_ok net (sh_n cfg) (sh_nctrlers cfg) gi ?gg"
    using len gid saved by (simp add: group_ok_def)
  then have "shard_inv cfg'" unfolding cfg' by (intro shard_inv_group [OF inv gi keeps]) (auto simp: sa gid servername_inj)
  then show ?thesis by (simp add: cfg')
qed

lemma start_result:
  assumes inv: "shard_inv cfg" and c: "shard_StartServer kvm rfm names mnames gi i cfg = Some cfg'"
  obtains gg net saved kv rs where "gi < sh_ngroups cfg" "sh_groups cfg ! gi = Some gg" "group_ok (sh_net cfg) (sh_n cfg) (sh_nctrlers cfg) gi gg"
    "i < sh_n cfg" "i < sh_nctrlers cfg" "length saved = sh_n cfg" "net_grows (sh_net cfg) net"
    "\<And>j. j < sh_n cfg \<Longrightarrow> leads_to net (names j) (servername (gg_gid gg) j)" "\<And>j. j < sh_nctrlers cfg \<Longrightarrow> leads_to net (mnames j) (ctrlername j)"
    "cfg' = cfg\<lparr>sh_net := AddServer (servername (gg_gid gg) i) (length (sh_heap cfg)) net, sh_heap := sh_heap cfg @ [rs],
      sh_groups := (sh_groups cfg)[gi := Some (gg\<lparr>gg_endnames := (gg_endnames gg)[i := Some (map names [0..<sh_n cfg])],
        gg_mendnames := (gg_mendnames gg)[i := Some (map mnames [0..<sh_nctrlers cfg])], gg_saved := saved, gg_servers := (gg_servers gg)[i := Some kv]\<rparr>)]\<rparr>"
proof -
  obtain gg ens net1 ends mens net2 mends ps saved kv servers rs where g: "go_index (sh_groups cfg) (int gi) = Some (Some gg)"
      "go_store (gg_endnames gg) (int i) (Some (map names [0..<sh_n cfg])) = Some ens" "go_store (gg_mendnames gg) (int i) (Some (map mnames [0..<sh_nctrlers cfg])) = Some mens"
      "go_store (gg_saved gg) (int i) (Some ps) = Some saved" "go_store (gg_servers gg) (int i) (Some kv) = Some servers"
    and m: "makeEndsOn (servername (gg_gid gg)) 0 (map names [0..<sh_n cfg]) (sh_net cfg) = Some (net1, ends)"
      "makeEndsOn ctrlername 0 (map mnames [0..<sh_nctrlers cfg]) net1 = Some (net2, mends)"
    and cfg': "cfg' = cfg\<lparr>sh_net := AddServer (servername (gg_gid gg) i) (length (sh_heap cfg)) net2, sh_heap := sh_heap cfg @ [rs],
      sh_groups := (sh_groups cfg)[gi := Some (gg\<lparr>gg_endnames := ens, gg_mendnames := mens, gg_saved := saved, gg_servers := servers\<rparr>)]\<rparr>"
    using c unfolding shard_StartServer_def Let_def by (auto simp: bind_eq_Some_conv)
  have gi: "gi < sh_ngroups cfg" "sh_groups cfg ! gi = Some gg" using g(1) inv by (auto simp: go_index_eq_Some shard_inv_def)
  then have ok: "group_ok (sh_net cfg) (sh_n cfg) (sh_nctrlers cfg) gi gg" using inv by (simp add: shard_inv_def)
  then have i: "i < sh_n cfg" "i < sh_nctrlers cfg" "length saved = sh_n cfg" "servers = (gg_servers gg)[i := Some kv]"
      "ens = (gg_endnames gg)[i := Some (map names [0..<sh_n cfg])]" "mens = (gg_mendnames gg)[i := Some (map mnames [0..<sh_nctrlers cfg])]"
    using g(2-5) by (auto simp: go_store_eq_Some group_ok_def)
  note grow = makeEndsOn_grows [OF m(1)] makeEndsOn_grows [OF m(2)]
  have "leads_to net2 (names j) (servername (gg_gid gg) j)" if "j < sh_n cfg" for j
  proof -
    have "leads_to net1 (names j) (servername (gg_gid gg) j)" using grow(1) that by simp
    then show ?thesis using grow(2) net_grows_leads by blast
  qed
  moreover have "leads_to net2 (mnames j) (ctrlername j)" if "j < sh_nctrlers cfg" for j using grow(2) that by simp
  moreover have "net_grows (sh_net cfg) net2" using grow net_grows_trans by blast
  ultimately show ?thesis using that [OF gi ok i(1-3)] cfg' i(4-6) by blast
qed

lemma start_server_inv:
  assumes inv: "shard_inv cfg" and c: "shard_StartServer kvm rfm names mnames gi i cfg = Some cfg'"
  shows "shard_inv cfg' \<and> i < sh_nctrlers cfg \<and> (\<exists>net heap gg kv. sh_groups cfg ! gi = Some gg \<and>
    cfg' = cfg\<lparr>sh_net := net, sh_heap := heap, sh_groups := sh_groups cfg'\<rparr> \<and> (\<forall>k. server_at net (ctrlername k) = server_at (sh_net cfg) (ctrlername k)) \<and>
    (\<exists>gg'. sh_groups cfg' = (sh_groups cfg)[gi := Some gg'] \<and> gg_servers gg' = (gg_servers gg)[i := Some kv]))"
proof (rule start_result [OF assms])
  fix gg net2 saved kv rs
  assume gi: "gi < sh_ngroups cfg" "sh_groups cfg ! gi = Some gg" and ok: "group_ok (sh_net cfg) (sh_n cfg) (sh_nctrlers cfg) gi gg"
    and i: "i < sh_n cfg" "i < sh_nctrlers cfg" and saved: "length saved = sh_n cfg" and grow: "net_grows (sh_net cfg) net2"
    and leads: "\<And>j. j < sh_n cfg \<Longrightarrow> leads_to net2 (names j) (servername (gg_gid gg) j)" "\<And>j. j < sh_nctrlers cfg \<Longrightarrow> leads_to net2 (mnames j) (ctrlername j)"
    and cfg0: "cfg' = cfg\<lparr>sh_net := AddServer (servername (gg_gid gg) i) (length (sh_heap cfg)) net2, sh_heap := sh_heap cfg @ [rs],
      sh_groups := (sh_groups cfg)[gi := Some (gg\<lparr>gg_endnames := (gg_endnames gg)[i := Some (map names [0..<sh_n cfg])],
        gg_mendnames := (gg_mendnames gg)[i := Some (map mnames [0..<sh_nctrlers cfg])], gg_saved := saved, gg_servers := (gg_servers gg)[i := Some kv]\<rparr>)]\<rparr>"
      (is "_ = cfg\<lparr>sh_net := _, sh_heap := _, sh_groups := (sh_groups cfg)[gi := Some ?gg]\<rparr>")
  define net where "net = AddServer (servername (gg_gid gg) i) (length (sh_heap cfg)) net2"
  note cfg' = cfg0 [folded net_def]
  have gid: "gg_gid gg = 100 + int gi" and len: "length (gg_servers gg) = sh_n cfg" "length (gg_endnames gg) = sh_n cfg"
    "length (gg_mendnames gg) = sh_nctrlers cfg" using ok by (simp_all add: group_ok_def)
  have keeps: "net_keeps (sh_net cfg) net" and sa: "server_at net s = (if s = servername (gg_gid gg) i then Some (length (sh_heap cfg)) else server_at (sh_net cfg) s)" for s
    using grow by (auto simp: net_def AddServer_def net_keeps_def is_enabled_def server_at_def net_grows_def)
  have leads': "leads_to net e s = leads_to net2 e s" for e s by (simp add: net_def AddServer_def leads_to_def)
  have "server_ok net (sh_n cfg) (sh_nctrlers cfg) ?gg k" if k: "k < sh_n cfg" for k
  proof (cases "k = i")
    case False
    have "server_at net (servername (gg_gid gg) k) = server_at (sh_net cfg) (servername (gg_gid gg) k)" unfolding sa using False by (simp add: gid servername_inj)
    then have "server_ok net (sh_n cfg) (sh_nctrlers cfg) gg k" by (rule server_ok_keeps [OF keeps]) (use ok k in \<open>simp add: group_ok_def\<close>)
    then show ?thesis using False by (simp add: server_ok_def)
  next
    case True
    then show ?thesis using i len leads by (simp add: server_ok_def sa ends_ok_def leads')
  qed
  then have "group_ok net (sh_n cfg) (sh_nctrlers cfg) gi ?gg" using len gid saved by (simp add: group_ok_def)
  from shard_inv_group [OF inv gi(1) keeps _ this] have "shard_inv (cfg\<lparr>sh_net := net, sh_groups := (sh_groups cfg)[gi := Some ?gg]\<rparr>)"
    by (auto simp: sa gid servername_inj)
  then have "shard_inv cfg'" by (rule shard_inv_grows) (simp_all add: cfg')
  then show ?thesis using i(2) gi(2)
    by (intro conjI exI [of _ net] exI [of _ "sh_heap cfg @ [rs]"] exI [of _ gg] exI [of _ kv] exI [of _ ?gg]) (auto simp: cfg' sa ctrlername_servername)
qed

section \<open>Making a configuration\<close>

text \<open>What the start of a server of group \<open>gi\<close> leaves alone.\<close>

definition only_group :: "nat \<Rightarrow> ('s, 't, 'w) shard_config \<Rightarrow> ('s, 't, 'w) shard_config \<Rightarrow> bool" where
  "only_group gi cfg cfg' \<longleftrightarrow> sh_n cfg' = sh_n cfg \<and> sh_nctrlers cfg' = sh_nctrlers cfg \<and> sh_ngroups cfg' = sh_ngroups cfg \<and>
     (\<forall>gj. gj \<noteq> gi \<longrightarrow> sh_groups cfg' ! gj = sh_groups cfg ! gj) \<and> (sh_groups cfg ! gi \<noteq> None \<longrightarrow> sh_groups cfg' ! gi \<noteq> None) \<and>
     (\<forall>k. server_at (sh_net cfg') (ctrlername k) = server_at (sh_net cfg) (ctrlername k))"

lemma only_group_refl [simp]: "only_group gi cfg cfg"
  by (simp add: only_group_def)

lemma only_group_trans: "only_group gi a b \<Longrightarrow> only_group gi b c \<Longrightarrow> only_group gi a c"
  by (simp add: only_group_def)

lemma start_server_group:
  assumes inv: "shard_inv cfg" and c: "shard_StartServer kvm rfm names mnames gi i cfg = Some cfg'"
  shows "only_group gi cfg cfg'"
proof -
  obtain net heap gg gg' where cfg': "cfg' = cfg\<lparr>sh_net := net, sh_heap := heap, sh_groups := sh_groups cfg'\<rparr>" "sh_groups cfg ! gi = Some gg"
      "\<forall>k. server_at net (ctrlername k) = server_at (sh_net cfg) (ctrlername k)" "sh_groups cfg' = (sh_groups cfg)[gi := Some gg']"
    using start_server_inv [OF assms] by blast
  have f: "sh_n cfg' = sh_n cfg" "sh_nctrlers cfg' = sh_nctrlers cfg" "sh_ngroups cfg' = sh_ngroups cfg" "sh_net cfg' = net" by (subst cfg'(1), simp)+
  have "(sh_groups cfg)[gi := Some gg'] ! gi \<noteq> None" using cfg'(2) by (cases "gi < length (sh_groups cfg)") (simp_all add: list_update_beyond)
  then show ?thesis unfolding only_group_def f cfg'(4) using cfg'(3) by simp
qed

lemma startGroupLoop_inv:
  assumes "shard_inv cfg" "startGroupLoop kvm rfm names mnames gi xs cfg = Some cfg'"
  shows "shard_inv cfg' \<and> only_group gi cfg cfg' \<and> (\<forall>i\<in>set xs. i < sh_nctrlers cfg)"
  using assms
proof (induction xs arbitrary: cfg)
  case (Cons i xs)
  obtain cfg1 where c: "shard_StartServer kvm rfm (names i) (mnames i) gi i cfg = Some cfg1" "startGroupLoop kvm rfm names mnames gi xs cfg1 = Some cfg'"
    using Cons.prems(2) by (auto simp: bind_eq_Some_conv)
  have s: "shard_inv cfg1" "i < sh_nctrlers cfg" "only_group gi cfg cfg1" using start_server_inv [OF Cons.prems(1) c(1)] start_server_group [OF Cons.prems(1) c(1)] by auto
  have IH: "shard_inv cfg' \<and> only_group gi cfg1 cfg' \<and> (\<forall>i\<in>set xs. i < sh_nctrlers cfg1)" using Cons.IH [OF s(1) c(2)] .
  have "only_group gi cfg cfg'" using IH s(3) only_group_trans by blast
  moreover have "sh_nctrlers cfg1 = sh_nctrlers cfg" using s(3) by (simp add: only_group_def)
  ultimately show ?case using IH s(2) by simp
qed simp

lemma new_group_inv:
  assumes inv: "shard_inv cfg" and gi: "gi < sh_ngroups cfg" "sh_groups cfg ! gi = None"
  shows "shard_inv (cfg\<lparr>sh_groups := (sh_groups cfg)[gi := Some (new_group gi (sh_n cfg) (sh_nctrlers cfg))]\<rparr>)"
proof -
  have "server_at (sh_net cfg) (servername (100 + int gi) i) = None" for i using inv gi(2) by (simp add: shard_inv_def)
  then have "group_ok (sh_net cfg) (sh_n cfg) (sh_nctrlers cfg) gi (new_group gi (sh_n cfg) (sh_nctrlers cfg))"
    by (simp add: group_ok_def new_group_def server_ok_def ends_ok_def)
  from shard_inv_group [OF inv gi(1) _ _ this] show ?thesis by (simp add: net_keeps_def)
qed

definition all_groups :: "nat set \<Rightarrow> ('s, 't, 'w) shard_config \<Rightarrow> bool" where
  "all_groups G cfg \<longleftrightarrow> shard_inv cfg \<and> sh_nctrlers cfg = 3 \<and> sh_ngroups cfg = 3 \<and> (\<forall>gi<3. sh_groups cfg ! gi = None \<longleftrightarrow> gi \<in> G) \<and>
     (\<forall>k<3. server_at (sh_net cfg) (ctrlername k) \<noteq> None)"

lemma groupLoop_inv:
  assumes "all_groups (set xs) cfg" "distinct xs" "set xs \<subseteq> {..<3}" "groupLoop kvm rfm names mnames xs cfg = Some cfg'"
  shows "all_groups {} cfg' \<and> sh_n cfg' = sh_n cfg \<and> (xs \<noteq> [] \<longrightarrow> sh_n cfg \<le> 3)"
  using assms
proof (induction xs arbitrary: cfg)
  case (Cons gi xs)
  let ?cfg = "cfg\<lparr>sh_groups := (sh_groups cfg)[gi := Some (new_group gi (sh_n cfg) (sh_nctrlers cfg))]\<rparr>"
  obtain cfg1 where c: "StartGroup kvm rfm (names gi) (mnames gi) gi ?cfg = Some cfg1" "groupLoop kvm rfm names mnames xs cfg1 = Some cfg'"
    using Cons.prems(4) by (auto simp: bind_eq_Some_conv)
  have a: "shard_inv cfg" "sh_nctrlers cfg = 3" "sh_ngroups cfg = 3" "length (sh_groups cfg) = 3" "\<forall>k<3. server_at (sh_net cfg) (ctrlername k) \<noteq> None"
    "\<forall>g<3. sh_groups cfg ! g = None \<longleftrightarrow> g \<in> set (gi # xs)" using Cons.prems(1) by (auto simp: all_groups_def shard_inv_def)
  have gi: "gi < 3" "sh_groups cfg ! gi = None" using a(6) Cons.prems(3) by auto
  have s: "shard_inv cfg1 \<and> only_group gi ?cfg cfg1 \<and> (\<forall>i\<in>set [0..<sh_n cfg]. i < 3)"
    using startGroupLoop_inv [OF new_group_inv [OF a(1)] c(1) [unfolded StartGroup_def]] gi a(2,3) by simp
  have "all_groups (set xs) cfg1" unfolding all_groups_def
  proof (intro conjI allI impI)
    fix g :: nat assume g: "g < 3"
    show "sh_groups cfg1 ! g = None \<longleftrightarrow> g \<in> set xs"
    proof (cases "g = gi")
      case True
      then show ?thesis using s gi(1) a(4) Cons.prems(2) by (auto simp: only_group_def)
    next
      case False
      then show ?thesis using s a(6) g by (simp add: only_group_def)
    qed
  qed (use s a in \<open>auto simp: only_group_def\<close>)
  then have "all_groups {} cfg' \<and> sh_n cfg' = sh_n cfg1" using Cons.IH [OF _ _ _ c(2)] Cons.prems(2,3) by simp
  moreover have "sh_n cfg1 = sh_n cfg" using s by (simp add: only_group_def)
  moreover have "sh_n cfg \<le> 3" using s by (cases "sh_n cfg") auto
  ultimately show ?case by simp
qed simp

text \<open>The controllers that have been started; there are no groups yet.\<close>

definition ctrlers_to :: "nat \<Rightarrow> ('s, 't, 'w) shard_config \<Rightarrow> bool" where
  "ctrlers_to k cfg \<longleftrightarrow> sh_nctrlers cfg = 3 \<and> sh_ngroups cfg = 0 \<and> (\<forall>i<k. server_at (sh_net cfg) (ctrlername i) \<noteq> None) \<and>
     (\<forall>gid i. server_at (sh_net cfg) (servername gid i) = None)"

lemma ctrlerLoop_started:
  assumes "ctrlers_to k cfg" "ctrlerLoop mm rfm names [k..<3] cfg = Some cfg'" "k \<le> 3"
  shows "ctrlers_to 3 cfg'"
  using assms
proof (induction "3 - k" arbitrary: k cfg)
  case (Suc d)
  then have k: "[k..<3] = k # [Suc k..<3]" by (simp add: upt_conv_Cons)
  obtain cfg1 where c: "StartCtrlerserver mm rfm (names k) k cfg = Some cfg1" "ctrlerLoop mm rfm names [Suc k..<3] cfg1 = Some cfg'"
    using Suc.prems(2) by (auto simp: k bind_eq_Some_conv)
  obtain net1 ends servers rs where m: "makeEndsOn ctrlername 0 (map (names k) [0..<sh_nctrlers cfg]) (sh_net cfg) = Some (net1, ends)"
      "cfg1 = cfg\<lparr>sh_net := AddServer (ctrlername k) (length (sh_heap cfg)) net1, sh_ctrlerservers := servers, sh_heap := sh_heap cfg @ [rs]\<rparr>"
    using c(1) unfolding StartCtrlerserver_def Let_def by (auto simp: bind_eq_Some_conv)
  have "net_grows (sh_net cfg) net1" using makeEndsOn_grows [OF m(1)] by simp
  then have "server_at (sh_net cfg1) s = (if s = ctrlername k then Some (length (sh_heap cfg)) else server_at (sh_net cfg) s)" for s
    using net_grows_server by (auto simp: m(2) AddServer_def server_at_def net_grows_def)
  then have "ctrlers_to (Suc k) cfg1" using Suc.prems(1) by (auto simp: ctrlers_to_def m(2) less_Suc_eq ctrlername_servername)
  then show ?case using Suc.hyps(1) [OF _ _ c(2)] Suc.hyps(2) by simp
qed simp

lemma make_config_result:
  assumes "shard_make_config mm kvm rfm cnames knames names mnames nrand n unreliable maxraftstate = Some cfg"
  shows "all_groups {} cfg \<and> sh_n cfg = n \<and> n \<le> 3"
proof -
  obtain cfg1 cfg2 mck cfg3 where c: "ctrlerLoop mm rfm cnames [0..<3] (shard_new_config maxraftstate) = Some cfg1" "shardclerk nrand knames cfg1 = Some (cfg2, mck)"
      "groupLoop kvm rfm names mnames [0..<3] (cfg2\<lparr>sh_mck := Some mck, sh_ngroups := 3, sh_groups := replicate 3 None, sh_n := n\<rparr>) = Some cfg3"
      (is "groupLoop _ _ _ _ _ ?cfg2 = _")
      "cfg = cfg3\<lparr>sh_clerks := Some Map.empty, sh_nextClientId := int n + 1000, sh_net := Reliable (\<not> unreliable) (sh_net cfg3)\<rparr>"
    using assms unfolding shard_make_config_def by (auto simp: bind_eq_Some_conv)

  have "ctrlers_to 0 (shard_new_config maxraftstate :: ('a, 'b, 'c) shard_config)" by (simp add: ctrlers_to_def shard_new_config_def MakeNetwork_def server_at_def)
  from ctrlerLoop_started [OF this] c(1) have k: "ctrlers_to 3 cfg1" by simp
  obtain net1 ends where m: "makeEndsOn ctrlername 0 (map knames [0..<sh_nctrlers cfg1]) (sh_net cfg1) = Some (net1, ends)" "cfg2 = cfg1\<lparr>sh_net := net1\<rparr>"
    using c(2) by (auto simp: shardclerk_def bind_eq_Some_conv)
  have "server_at net1 s = server_at (sh_net cfg1) s" for s using makeEndsOn_grows [OF m(1)] by simp
  then have "all_groups (set [0..<3]) ?cfg2" using k by (auto simp: all_groups_def shard_inv_def ctrlers_to_def m(2))
  then have g: "all_groups {} cfg3 \<and> sh_n cfg3 = n \<and> n \<le> 3" using groupLoop_inv [OF _ _ _ c(3)] by (auto simp: lessThan_atLeast0)
  have "shard_inv cfg" by (rule shard_inv_grows [of cfg3]) (use g in \<open>auto simp: all_groups_def c(4) net_grows_def Reliable_def is_enabled_def\<close>)
  moreover have "server_at (sh_net cfg) s = server_at (sh_net cfg3) s" for s by (simp add: c(4) Reliable_def server_at_def)
  ultimately show ?thesis using g by (simp add: all_groups_def c(4))
qed

section \<open>Runs of the harness\<close>

text \<open>
  What a test does with the groups, while servers and controllers change their state, make ends for other servers and exchange messages.
\<close>

inductive shard_step :: "('s, 't, 'w) shard_config \<Rightarrow> ('s, 't, 'w) shard_config \<Rightarrow> bool" where
  shutdown: "shard_ShutdownServer gi i cfg = Some cfg' \<Longrightarrow> shard_step cfg cfg'"
| start: "shard_StartServer kvm rfm names mnames gi i cfg = Some cfg' \<Longrightarrow> shard_step cfg cfg'"
| new_client: "shard_makeClient nrand1 nrand2 answers names cfg = Some (cfg', ck) \<Longrightarrow> shard_step cfg cfg'"
| delete_client: "shard_step cfg (shard_deleteClient ck cfg)"
| new_end: "make_end name s (sh_net cfg) = Some (net, e) \<Longrightarrow> shard_step cfg (cfg\<lparr>sh_net := net\<rparr>)"
| join: "joinm gis answers cfg = Some cfg' \<Longrightarrow> shard_step cfg cfg'"
| leave: "leavem gis answers cfg = Some cfg' \<Longrightarrow> shard_step cfg cfg'"
| server: "sh_groups cfg ! gi = Some gg \<Longrightarrow> gi < sh_ngroups cfg \<Longrightarrow> gg_servers gg ! i = Some kv \<Longrightarrow>
    shard_step cfg (cfg\<lparr>sh_groups := (sh_groups cfg)[gi := Some (gg\<lparr>gg_servers := (gg_servers gg)[i := Some kv']\<rparr>)]\<rparr>)"
| controller: "shard_step cfg (cfg\<lparr>sh_ctrlerservers := ctrlers\<rparr>)"
| traffic: "shard_step cfg (cfg\<lparr>sh_net := (sh_net cfg)\<lparr>nw_count := cnt, nw_bytes := bytes\<rparr>\<rparr>)"

lemma all_groups_grows:
  assumes "all_groups {} cfg" "net_grows (sh_net cfg) (sh_net cfg')" "sh_groups cfg' = sh_groups cfg" "sh_ngroups cfg' = sh_ngroups cfg"
    "sh_n cfg' = sh_n cfg" "sh_nctrlers cfg' = sh_nctrlers cfg"
  shows "all_groups {} cfg'"
  using assms(1) shard_inv_grows [OF _ assms(2-6)] net_grows_server [OF assms(2)] by (simp add: all_groups_def assms(3,4,6))

lemma server_changes_inv:
  assumes inv: "shard_inv cfg" and gi: "gi < sh_ngroups cfg" "sh_groups cfg ! gi = Some gg" and kv: "gg_servers gg ! i = Some kv"
  shows "shard_inv (cfg\<lparr>sh_groups := (sh_groups cfg)[gi := Some (gg\<lparr>gg_servers := (gg_servers gg)[i := Some kv']\<rparr>)]\<rparr>)"
proof -
  have ok: "group_ok (sh_net cfg) (sh_n cfg) (sh_nctrlers cfg) gi gg" using inv gi by (simp add: shard_inv_def)
  have same: "(gg_servers gg)[i := Some kv'] ! k = None \<longleftrightarrow> gg_servers gg ! k = None" if "k < sh_n cfg" for k
    using that ok kv by (cases "k = i") (simp_all add: group_ok_def)
  have "server_ok (sh_net cfg) (sh_n cfg) (sh_nctrlers cfg) (gg\<lparr>gg_servers := (gg_servers gg)[i := Some kv']\<rparr>) k" if k: "k < sh_n cfg" for k
  proof -
    have "server_ok (sh_net cfg) (sh_n cfg) (sh_nctrlers cfg) gg k" using ok k by (simp add: group_ok_def)
    then show ?thesis using same [OF k] by (simp add: server_ok_def)
  qed
  then have "group_ok (sh_net cfg) (sh_n cfg) (sh_nctrlers cfg) gi (gg\<lparr>gg_servers := (gg_servers gg)[i := Some kv']\<rparr>)"
    using ok by (simp add: group_ok_def)
  from shard_inv_group [OF inv gi(1) _ _ this] show ?thesis by (simp add: net_keeps_def)
qed

lemma shutdown_server_group:
  assumes inv: "all_groups {} cfg" and c: "shard_ShutdownServer gi i cfg = Some cfg'"
  shows "all_groups {} cfg'"
proof -
  have i: "shard_inv cfg" using inv by (simp add: all_groups_def)
  show ?thesis
  proof (rule shutdown_result [OF i c])
    fix gg saved
    assume g: "gi < sh_ngroups cfg" and cfg': "cfg' = cfg\<lparr>sh_net := DeleteServer (servername (gg_gid gg) i) (switchOff (the_slice (gg_mendnames gg ! i))
        (switchOff (take (sh_n cfg) (the_slice (gg_endnames gg ! i))) (sh_net cfg))),
      sh_groups := (sh_groups cfg)[gi := Some (gg\<lparr>gg_saved := saved, gg_servers := (gg_servers gg)[i := None]\<rparr>)]\<rparr>"
    have "server_at (sh_net cfg') (ctrlername k) = server_at (sh_net cfg) (ctrlername k)" for k
      using switchOff_net by (simp add: cfg' DeleteServer_def server_at_def ctrlername_servername)
    moreover have "sh_groups cfg' ! gj \<noteq> None" if "gj < 3" for gj
      using inv that g by (cases "gj = gi") (auto simp: cfg' all_groups_def shard_inv_def)
    moreover have "sh_nctrlers cfg' = sh_nctrlers cfg" "sh_ngroups cfg' = sh_ngroups cfg" by (simp_all add: cfg')
    ultimately show ?thesis using inv shutdown_server_inv [OF i c] by (auto simp: all_groups_def)
  qed
qed

lemma start_server_groups:
  assumes inv: "all_groups {} cfg" and c: "shard_StartServer kvm rfm names mnames gi i cfg = Some cfg'"
  shows "all_groups {} cfg'"
proof -
  have i: "shard_inv cfg" using inv by (simp add: all_groups_def)
  have g: "only_group gi cfg cfg'" using start_server_group [OF i c] .
  have "sh_groups cfg' ! gj \<noteq> None" if "gj < 3" for gj
    using inv that g by (cases "gj = gi") (auto simp: only_group_def all_groups_def)
  then show ?thesis using inv g start_server_inv [OF i c] by (auto simp: all_groups_def only_group_def)
qed

lemma all_groups_step:
  assumes "all_groups {} cfg" "shard_step cfg cfg'"
  shows "all_groups {} cfg'"
  using assms(2,1)
proof cases
  case (shutdown gi i)
  then show ?thesis using shutdown_server_group [OF assms(1)] by simp
next
  case (start kvm rfm names mnames gi i)
  then show ?thesis using start_server_groups [OF assms(1)] by simp
next
  case (new_client nrand1 nrand2 answers names ck)
  then obtain endnames ends net clerks made k where c: "clientEndsLoop names [0..<sh_nctrlers cfg] (replicate (sh_n cfg) '''') (sh_net cfg) = Some (endnames, ends, net)"
      "cfg' = cfg\<lparr>sh_net := net, sh_clerks := clerks, sh_made := made, sh_nextClientId := k\<rparr>"
    by (auto simp: shard_makeClient_def bind_eq_Some_conv)
  then show ?thesis using clientEndsLoop_grows [OF c(1)] by (intro all_groups_grows [OF assms(1)]) simp_all
next
  case (delete_client ck)
  then show ?thesis by (intro all_groups_grows [OF assms(1)]) (simp_all add: shard_deleteClient_def)
next
  case (new_end name s net e)
  then obtain net1 where "MakeEnd name (sh_net cfg) = Some (net1, e)" "net = Enable name True (Connect name s net1)" by (auto simp: make_end_def bind_eq_Some_conv)
  then show ?thesis using new_end_grows new_end(1) by (intro all_groups_grows [OF assms(1)]) auto
next
  case (server gi gg i kv kv')
  have "shard_inv cfg'" using server_changes_inv [OF _ server(3,2,4)] assms(1) server(1) by (simp add: all_groups_def)
  moreover have "sh_groups cfg' ! gj \<noteq> None" if "gj < 3" for gj using assms(1) that server by (cases "gj = gi") (auto simp: all_groups_def shard_inv_def)
  ultimately show ?thesis using assms(1) server(1) by (auto simp: all_groups_def)
next
  case (traffic cnt bytes)
  then show ?thesis by (intro all_groups_grows [OF assms(1)]) (simp_all add: net_grows_def is_enabled_def)
qed (auto simp: joinm_def leavem_def bind_eq_Some_conv intro!: all_groups_grows [OF assms(1)])

definition shard_harness :: "('s, 't, 'w) shard_config \<Rightarrow> bool" where
  "shard_harness cfg \<longleftrightarrow> (\<exists>mm kvm rfm cnames knames names mnames nrand n unreliable maxraftstate.
     shard_make_config mm kvm rfm cnames knames names mnames nrand n unreliable maxraftstate = Some cfg)"

interpretation shardh: transition_invariant shard_harness shard_step "all_groups {}"
proof (unfold_locales, goal_cases)
  case (1 cfg)
  then show ?case using make_config_result unfolding shard_harness_def by blast
qed (rule all_groups_step)

section \<open>Properties\<close>

lemma joinLoop_names:
  assumes "joinLoop gis m cfg = Some m'" "\<forall>gi < length (sh_groups cfg). \<forall>gg. sh_groups cfg ! gi = Some gg \<longrightarrow> gg_gid gg = 100 + int gi"
  shows "map_of m' gid = (if \<exists>gi\<in>set gis. gid = 100 + int gi then Some (map (servername gid) [0..<sh_n cfg]) else map_of m gid) \<and>
    (\<forall>gi\<in>set gis. gi < length (sh_groups cfg))"
  using assms(1)
proof (induction gis arbitrary: m)
  case (Cons g gs)
  obtain gg where g: "go_index (sh_groups cfg) (int g) = Some (Some gg)"
      "joinLoop gs (AList.update (gg_gid gg) (map (servername (gg_gid gg)) [0..<sh_n cfg]) m) cfg = Some m'"
    using Cons.prems by (auto simp: bind_eq_Some_conv)
  have "g < length (sh_groups cfg)" "gg_gid gg = 100 + int g" using g(1) assms(2) by (auto simp: go_index_eq_Some)
  then show ?case using Cons.IH [OF g(2)] by (auto simp: update_conv')
qed simp

text \<open>C28: The names with which groups join lead to their servers.  Whatever a test has done, the map that \<^verbatim>\<open>joinm\<close> hands to the controller has for each of the groups the
  names of its servers, and an end that a clerk or another group makes for the \<open>i\<close>-th of these names is on and reaches the instance of the \<open>i\<close>-th server
  of that group that runs, if one does.\<close>

theorem joined_names_reach:
  assumes "reach shard_harness shard_step cfg" "joinLoop gis [] cfg = Some m" "gi \<in> set gis" "i < sh_n cfg"
    "make_end name (the (map_of m (100 + int gi)) ! i) (sh_net cfg) = Some (net, e)"
  shows "\<exists>gg names. sh_groups cfg ! gi = Some gg \<and> map_of m (100 + int gi) = Some names \<and> length names = sh_n cfg \<and>
    readEndnameInfo name net = (True, Some (names ! i), server_at (sh_net cfg) (servername (100 + int gi) i), nw_reliable net, nw_longReordering net) \<and>
    (server_at (sh_net cfg) (servername (100 + int gi) i) = None \<longleftrightarrow> gg_servers gg ! i = None)"
proof -
  have inv: "shard_inv cfg" "length (sh_groups cfg) = 3" "\<forall>g<3. sh_groups cfg ! g \<noteq> None" "sh_ngroups cfg = 3"
    using shardh.reach_inv [OF assms(1)] by (auto simp: all_groups_def shard_inv_def)
  have gid: "\<forall>gi < length (sh_groups cfg). \<forall>gg. sh_groups cfg ! gi = Some gg \<longrightarrow> gg_gid gg = 100 + int gi"
    using inv by (auto simp: shard_inv_def group_ok_def)
  have m: "map_of m (100 + int gi) = Some (map (servername (100 + int gi)) [0..<sh_n cfg])" and gi: "gi < 3"
    using joinLoop_names [OF assms(2) gid, of "100 + int gi"] assms(3) inv(2) by auto
  obtain gg where gg: "sh_groups cfg ! gi = Some gg" using inv(3) gi by blast
  then have ok: "group_ok (sh_net cfg) (sh_n cfg) (sh_nctrlers cfg) gi gg" using inv(1,4) gi by (simp add: shard_inv_def)
  obtain net1 where n: "MakeEnd name (sh_net cfg) = Some (net1, e)" "net = Enable name True (Connect name (servername (100 + int gi) i) net1)"
    using assms(4,5) m by (auto simp: make_end_def bind_eq_Some_conv)
  have "net_grows (sh_net cfg) net" "leads_to net name (servername (100 + int gi) i)" "is_enabled net name"
    using new_end_grows [OF n(1), of "servername (100 + int gi) i"] n(2) by simp_all
  moreover have "server_at (sh_net cfg) (servername (100 + int gi) i) = None \<longleftrightarrow> gg_servers gg ! i = None"
    using ok assms(4) by (auto simp: group_ok_def server_ok_def)
  ultimately show ?thesis using gg m assms(4) by (auto simp: readEndnameInfo_def leads_to_def)
qed

text \<open>C29: The harness of the sharded service can be used with groups of three servers only.  With more servers in a group \<^verbatim>\<open>make_config\<close> panics, since it
  stores a server's names for the controllers in a slice with one place per controller; with fewer \<^verbatim>\<open>makeClient\<close> panics in every configuration, since it stores a
  clerk's names for the three controllers in a slice with one place per server.\<close>

theorem shard_harness_three_servers:
  "(3 < n \<longrightarrow> shard_make_config mm kvm rfm cnames knames names mnames nrand n unreliable maxraftstate = (None :: ('s, 't, 'w) shard_config option)) \<and>
   (reach shard_harness shard_step cfg \<and> sh_n cfg < 3 \<longrightarrow> shard_makeClient nrand1 nrand2 answers knames1 cfg = None)"
proof (intro conjI impI)
  show "shard_make_config mm kvm rfm cnames knames names mnames nrand n unreliable maxraftstate = (None :: ('s, 't, 'w) shard_config option)" if "3 < n"
    using make_config_result that by (metis leD not_Some_eq)
  assume r: "reach shard_harness shard_step cfg \<and> sh_n cfg < 3"
  then have "sh_nctrlers cfg = 3" using shardh.reach_inv [of cfg] by (simp add: all_groups_def)
  then have "clientEndsLoop knames1 [0..<sh_nctrlers cfg] (replicate (sh_n cfg) '''') (sh_net cfg) \<noteq> Some x" for x
    using clientEndsLoop_grows [of knames1 "[0..<3]" "replicate (sh_n cfg) ''''" "sh_net cfg"] r by (cases x) force
  then show "shard_makeClient nrand1 nrand2 answers knames1 cfg = None"
    by (cases "clientEndsLoop knames1 [0..<sh_nctrlers cfg] (replicate (sh_n cfg) '''') (sh_net cfg)") (auto simp: shard_makeClient_def)
qed

text \<open>Servers that have been shut down can send nothing, and the ends of servers that run lead where they should.\<close>

theorem shard_harness_links:
  assumes "reach shard_harness shard_step cfg" "gi < 3" "i < sh_n cfg"
  shows "\<exists>gg. sh_groups cfg ! gi = Some gg \<and>
    (\<forall>ns. gg_endnames gg ! i = Some ns \<longrightarrow> (\<forall>j < sh_n cfg. nw_connections (sh_net cfg) (ns ! j) = Some (Some (servername (100 + int gi) j)) \<and>
       (gg_servers gg ! i = None \<longrightarrow> \<not> is_enabled (sh_net cfg) (ns ! j)))) \<and>
    (\<forall>j<3. server_at (sh_net cfg) (ctrlername j) \<noteq> None)"
proof -
  have inv: "shard_inv cfg" "\<forall>g<3. sh_groups cfg ! g \<noteq> None" "sh_ngroups cfg = 3" "\<forall>j<3. server_at (sh_net cfg) (ctrlername j) \<noteq> None"
    using shardh.reach_inv [OF assms(1)] by (auto simp: all_groups_def)
  obtain gg where gg: "sh_groups cfg ! gi = Some gg" using inv(2) assms(2) by blast
  then have ok: "group_ok (sh_net cfg) (sh_n cfg) (sh_nctrlers cfg) gi gg" using inv(1,3) assms(2) by (simp add: shard_inv_def)
  then have "ends_ok (sh_net cfg) (sh_n cfg) (servername (100 + int gi)) (gg_servers gg ! i = None) (gg_endnames gg ! i)"
    using assms(3) by (auto simp: group_ok_def server_ok_def)
  then have "\<forall>ns. gg_endnames gg ! i = Some ns \<longrightarrow> (\<forall>j < sh_n cfg. nw_connections (sh_net cfg) (ns ! j) = Some (Some (servername (100 + int gi) j)) \<and>
       (gg_servers gg ! i = None \<longrightarrow> \<not> is_enabled (sh_net cfg) (ns ! j)))" by (auto simp: ends_ok_def leads_to_def)
  then show ?thesis using gg inv(4) by (intro exI [of _ gg] conjI)
qed

section \<open>Witnesses\<close>

text \<open>A configuration with three servers in each group.\<close>

definition demo_shards_of :: "nat \<Rightarrow> (unit, unit, unit) shard_config option" where
  "demo_shards_of n = shard_make_config [] [] [] (\<lambda>i j. [CHR ''c'', char_of (65 + i), char_of (65 + j)]) (\<lambda>j. [CHR ''k'', char_of (65 + j)])
     (\<lambda>g i j. [CHR ''g'', char_of (65 + g), char_of (65 + i), char_of (65 + j)]) (\<lambda>g i j. [CHR ''m'', char_of (65 + g), char_of (65 + i), char_of (65 + j)])
     5 n False (-1)"

definition demo_shards :: "nat \<Rightarrow> (unit, unit, unit) shard_config" where
  "demo_shards n = the (demo_shards_of n)"

lemma demo_shards_reach: "demo_shards_of n \<noteq> None \<Longrightarrow> reach shard_harness shard_step (demo_shards n)"
proof -
  assume "demo_shards_of n \<noteq> None"
  then have "demo_shards_of n = Some (demo_shards n)" by (simp add: demo_shards_def)
  then have "shard_harness (demo_shards n)" unfolding shard_harness_def demo_shards_of_def by (intro exI)
  then show ?thesis by (rule reach_init)
qed

lemma joinLoop_total:
  assumes "\<forall>gi\<in>set gis. gi < length (sh_groups cfg) \<and> sh_groups cfg ! gi \<noteq> None"
  shows "\<exists>m'. joinLoop gis m cfg = Some m'"
  using assms by (induction gis arbitrary: m) (auto simp: go_simps)

theorem joined_names_reach_witness:
  "\<exists>m net e. joinLoop [0, 1] [] (demo_shards 1) = Some m \<and> make_end ''x'' (the (map_of m 101) ! 0) (sh_net (demo_shards 1)) = Some (net, e) \<and>
     fst (readEndnameInfo ''x'' net) \<and> fst (snd (readEndnameInfo ''x'' net)) = Some (the (map_of m 101) ! 0)"
proof -
  have "demo_shards_of 1 \<noteq> None" by code_simp
  note r = demo_shards_reach [OF this]
  have n: "0 < sh_n (demo_shards 1)" by code_simp
  have "all_groups {} (demo_shards 1)" using shardh.reach_inv [OF r] .
  then obtain m where m: "joinLoop [0, 1] [] (demo_shards 1) = Some m"
    using joinLoop_total [of "[0, 1]" "demo_shards 1" "[]"] by (auto simp: all_groups_def shard_inv_def)
  have "nw_ends (sh_net (demo_shards 1)) ''x'' = None" by code_simp
  then obtain net e where e: "make_end ''x'' (the (map_of m (100 + int 1)) ! 0) (sh_net (demo_shards 1)) = Some (net, e)"
    by (simp add: make_end_def MakeEnd_def Let_def)
  from joined_names_reach [OF r m _ n e] m e show ?thesis by auto
qed

theorem shard_harness_three_servers_witness:
  "demo_shards_of 4 = None \<and> shard_makeClient 1 2 [] (\<lambda>j. [CHR ''z'', char_of (65 + j)]) (demo_shards 2) = None \<and> demo_shards_of 3 \<noteq> None"
proof -
  have some: "demo_shards_of 2 \<noteq> None" and three: "demo_shards_of 3 \<noteq> None" and n: "sh_n (demo_shards 2) < 3" by code_simp+
  note r = shard_harness_three_servers [where ?'s = unit and ?'t = unit and ?'w = unit and cfg = "demo_shards 2" and n = 4]
  show ?thesis unfolding demo_shards_of_def [of 4] using r demo_shards_reach [OF some] n three by auto
qed

end
