(* ===== verification/Spec2Isabelle.thy ===== *)
theory Spec2Isabelle
  imports Raft_Props KV_Props Ctrl_Props Shard_Props MR_Props MR_Probe Porcu_Visual Lab_RPC_Props Lab_Gob Raft_Harness_Props Svc_Harness_Props Shard_Harness_Props
begin

text \<open>
  A verification development for the laboratory code of MIT 6.824 under \<^verbatim>\<open>src/src\<close>: MapReduce (\<^verbatim>\<open>mr\<close>,
  \<^verbatim>\<open>mrapps\<close>, \<^verbatim>\<open>main/mrsequential.go\<close>), Raft (\<^verbatim>\<open>raft\<close>), a replicated key/value service (\<^verbatim>\<open>kvraft\<close>), the
  shard controller (\<^verbatim>\<open>shardctrler\<close>), the sharded key/value service (\<^verbatim>\<open>shardkv\<close>), the checker that the
  tests use to decide whether a history of client operations is linearizable (\<^verbatim>\<open>porcupine\<close> with the model of
  \<^verbatim>\<open>models\<close>), the simulated network and the checked encoder below all of them (\<^verbatim>\<open>labrpc\<close>, \<^verbatim>\<open>labgob\<close>), and the test
  harnesses that run the services on that network (the \<^verbatim>\<open>config.go\<close> files).

  \<^bold>\<open>How the parts interact.\<close>  A service proposes commands to its Raft peer (\<^verbatim>\<open>Start\<close>); the peers replicate them by
  remote calls; each peer's applier hands committed commands to its service in log order (\<^verbatim>\<open>applyCh\<close>); the service's
  applier executes them, filters repeated ones by client sessions, answers the waiting call through
  a notify channel and takes snapshots.  \<^verbatim>\<open>shardkv\<close> asks \<^verbatim>\<open>shardctrler\<close> for the configuration and moves shards
  between groups.  A harness creates the servers with their ends on a \<^verbatim>\<open>labrpc\<close> network, cuts and restores links, stops and restarts servers
  from their persisted state and checks what they do.  The tests record what clients saw and hand the history to \<^verbatim>\<open>porcupine\<close>.

  \<^bold>\<open>Conventions\<close> (theory \<open>Go_Prelude\<close>).  A Go panic is \<open>None\<close>; slices are lists indexed by integers; a
  map over which code iterates is an association list whose order is the order of the iteration; structs are records whose fields carry
  a prefix; \<^verbatim>\<open>int\<close> is unbounded where no overflow can matter, and a word at its width where it can (the enumerations of \<^verbatim>\<open>shardkv\<close>,
  the hash of \<^verbatim>\<open>mr\<close>, the bit sets).  A method that holds its lock throughout is one function of the state; a goroutine
  that releases it is split there, and its interleavings are steps of a transition relation.  Library code
  that the sources call (\<^verbatim>\<open>sort.Sort\<close>, random numbers, clocks, the network seen by a clerk) and the
  methods that \<^verbatim>\<open>shardkv\<close> calls but the repository does not contain are arguments; what a caller relies on of the
  library is a named hypothesis, and of the methods that nobody has written nothing is assumed.  The locale \<open>transition_invariant\<close> carries invariants along
  the runs of a transition relation.  \<open>Go_Prelude\<close> also has the decimal numerals of \<^verbatim>\<open>strconv.Itoa\<close>, with their injectivity.

  \<^bold>\<open>Raft\<close> (\<open>Raft_Types\<close>, \<open>Raft_Node\<close>, \<open>Raft_Inv\<close>, \<open>Raft_Votes\<close>, \<open>Raft_Cluster\<close>, \<open>Raft_Runs\<close>,
  \<open>Raft_Leader\<close>, \<open>Raft_Props\<close>).  \<open>Raft_Types\<close> has \<^verbatim>\<open>rpc.go\<close> and \<^verbatim>\<open>util.go\<close>; \<open>Raft_Node\<close> has \<^verbatim>\<open>persister.go\<close> and every
  method of \<^verbatim>\<open>raft.go\<close>.  \<open>Raft_Inv\<close> is the invariant of a peer under arbitrary messages, from which no handler
  panics; \<open>Raft_Votes\<close> and \<open>Raft_Cluster\<close> are the election with messages delayed, lost and reordered and with crashes, from
  which there is at most one leader per term; \<open>Raft_Runs\<close> are the runs of one peer, its applier and its recovery;
  \<open>Raft_Leader\<close> is what a peer keeps while it leads a term, so that a reply may arrive in any later state of the leader that sent the request.
  \<open>Raft_Props\<close> has the properties: election safety, agreement after replication, committed entries are never changed
  by the peer, commitment by majority, exact delivery by the applier, recovery from the persister, progress of the
  log backtracking, and the deviations found (a stale suffix after \<^verbatim>\<open>CondInstallSnapshot\<close>, a conflict index that is one
  too low, requests below the snapshot that are ignored for ever, a single peer that never leads).

  \<^bold>\<open>Key/value service\<close> (\<open>Sessions\<close>, \<open>KV_Server\<close>, \<open>KV_Model\<close>, \<open>KV_Props\<close>).  \<open>Sessions\<close> states two
  interfaces: the locale \<open>sessions\<close>, a state machine with client sessions, in which exactly-once
  execution is proved once, and the locale \<open>kv_store\<close>.  \<open>KV_Server\<close> models all of \<^verbatim>\<open>kvraft\<close> and interprets
  both; \<open>KV_Model\<close> is \<^verbatim>\<open>models/kv.go\<close>.  \<open>KV_Props\<close> runs a server on its Raft peer: replicas agree on every prefix, updates are
  neither lost nor repeated, retries get the first response, the applier never blocks, snapshots restore the state, and the executed
  commands are a legal history of the model.

  \<^bold>\<open>Shard controller\<close> (\<open>Ctrl_Config\<close>, \<open>Ctrl_Balance\<close>, \<open>Ctrl_Server\<close>, \<open>Ctrl_Props\<close>).  The balancing loop ends on every
  input; after any commands, sensible or not, \<^verbatim>\<open>Join\<close> leaves the groups (with the ids that a \<^verbatim>\<open>Move\<close> made owners) balanced within one shard,
  \<^verbatim>\<open>Leave\<close> moves only the shards of the groups that leave, configurations as \<^verbatim>\<open>common.go\<close> describes them stay so, the result does not depend on Go's map order, configurations are only appended, and \<open>sessions\<close> gives
  exactly-once execution.

  \<^bold>\<open>Sharded service\<close> (\<open>Shard_KV\<close>, \<open>Shard_Props\<close>).  The record \<open>methods\<close> holds the five missing methods; \<open>calls_missing\<close> says which
  entries call one of them, and the properties are about the entries that do not, which the written code handles by itself.  A repeated update
  is not handed to the shards again, also across the migration of shards; a shard that arrives brings its data and the sessions of its clients;
  the state of a shard follows its life cycle; a round of the clerk ends.  Deviations: an update that is refused with \<^verbatim>\<open>ErrNoKey\<close> and
  taken for done, and replicas that diverge on arriving shards.

  \<^bold>\<open>MapReduce\<close> (\<open>MR_Job\<close>, \<open>MR_Out\<close>, \<open>MR_System\<close>, \<open>MR_Props\<close>, \<open>MR_Probe\<close>).  \<open>MR_Job\<close> has coordinator, worker, the
  sequential program and five applications, whose Reduce functions meet the contract of the locale \<open>reducer\<close>.
  \<open>MR_System\<close> is a job with any number of workers that may stop, be late, lose messages or repeat a task; creating, writing and
  renaming a temporary file are separate steps.  Workers that repeat a task use the same temporary names, so the properties are about runs in which
  no two have the same one open at a time (\<open>exclusive_step\<close>): a job that is done has exactly the lines of the sequential program; no step fails and
  no file is seen half written.  A single worker finishes a job.  \<open>MR_Probe\<close> has the applications that observe a
  job: they count the Map tasks that were started, and the workers that run at the same time, exactly, also when workers crash.

  \<^bold>\<open>Checker\<close> (\<open>Porcu_Bitset\<close>, \<open>Porcu_Check\<close>, \<open>Porcu_List\<close>, \<open>Porcu_Spec\<close>, \<open>Porcu_Search\<close>,
  \<open>Porcu_Props\<close>, \<open>Porcu_Local\<close>).  \<open>Porcu_Bitset\<close> implements the interface \<open>bit_set\<close>; \<open>Porcu_Check\<close> is the code on an
  explicit heap of list nodes; \<open>Porcu_List\<close> shows what the pointer operations do; \<open>Porcu_Spec\<close> defines linearizations;
  \<open>Porcu_Search\<close> has the invariant of the search and its termination.  \<open>Porcu_Props\<close> concludes that the search decides
  linearizability, and \<open>Porcu_Local\<close> that checking key by key decides it for the whole store.

  \<^bold>\<open>Visualization\<close> (\<open>Porcu_Visual\<close>).  The verbose check of a key/value history decides linearizability, and \<^verbatim>\<open>computeVisualizationData\<close> accepts
  whatever it returned: each operation is shown with its client and times, and the sequences shown are partial linearizations.

  \<^bold>\<open>Simulated network\<close> (\<open>Lab_RPC\<close>, \<open>Lab_RPC_Props\<close>).  Ends, servers, services and every method of the network.  A call is split where it
  sleeps, waits or runs a handler, and calls are interleaved as steps of a transition relation.  A call runs its handler at most once, also
  on an unreliable network; in every run on a reliable one, to an enabled and living server, it can only return the handler's reply; and the reply of a
  server that has been deleted is not delivered.

  \<^bold>\<open>Encoder\<close> (\<open>Lab_Gob\<close>).  Go types are the elements of a finite type graph, with the set of those already checked.
  \<^verbatim>\<open>checkType\<close> ends on recursive types and reports each reachable lower-case field exactly once; decoding into a struct with
  such a field of a basic type panics instead of warning.

  \<^bold>\<open>Test harnesses.\<close>  \<open>Test_Net\<close> has the loops over ends that the harnesses share.  \<open>Raft_Harness\<close> is \<^verbatim>\<open>raft/config.go\<close>:
  \<open>Raft_Harness_Props\<close> shows that the check for one leader never fails with two leaders of a term and answers with the leader of the latest term it saw,
  that in tests without snapshots servers whose applied commands passed the check agree on every index, and that a link is on exactly when both of its servers are connected.  \<open>Svc_Harness\<close> is \<^verbatim>\<open>kvraft/config.go\<close> and \<^verbatim>\<open>shardctrler/config.go\<close>, which are the same program
  for two services: one record with the service's state as a type argument and one instance for each.  \<open>Svc_Harness_Props\<close> shows that a
  partition separates its two sides with the leader in the minority, and that a server restarted after a shutdown recovers what it had persisted.
  \<open>Shard_Harness\<close> is \<^verbatim>\<open>shardkv/config.go\<close>; \<open>Shard_Harness_Props\<close> shows that the names handed to the controller by \<^verbatim>\<open>join\<close> reach the running
  servers of the group, and that with any other number of servers in a group than three \<^verbatim>\<open>make_config\<close> or \<^verbatim>\<open>makeClient\<close> panics.

  \<^bold>\<open>Bounds and fuel.\<close>  The clerks' retry loops and the worker's polling loop take fuel, since the network or other workers may
  keep them waiting for ever; the properties say how much is enough where the loop ends (\<open>worker_terminates\<close>: one
  turn in time per task and one more, and any number of late ones; \<open>clerk_round_ends\<close>).  The search takes the list of its readings of the kill flag;
  \<open>checkSingle_decides\<close> shows that finitely many suffice.  \<open>chainLength\<close> has the size of the heap as fuel, which bounds every
  list in it.  \<open>rebalance\<close> is total.  Histories are shorter than \<open>2 ^ 62\<close> operations, so ids fit a Go integer.

  \<^bold>\<open>Not modelled.\<close>  The HTML template that is a string constant in \<^verbatim>\<open>porcupine/visualization.go\<close>, and writing it to a file.  In the harnesses and the
  clerks the random generators (their results are arguments), printing, and the wrappers that only take a lock.  The reflection by which \<^verbatim>\<open>labrpc\<close>
  finds the methods of a receiver and by which \<^verbatim>\<open>labgob\<close> walks a Go type (the methods and the type graph are arguments), and the bytes of the
  encoding: an encoded value is kept as the list of its fields.  The remaining programs of \<^verbatim>\<open>main\<close> are command line wrappers,
  most of them for packages that are not in the repository.  Debug output is left out.
\<close>

end
